(* ===== verification/Go_Prelude.thy ===== *)
theory Go_Prelude
  imports Main "HOL-Library.Finite_Map" "HOL-Library.Word" "HOL-Library.Multiset"
    "HOL-Library.Char_ord" "HOL-Library.List_Lexorder"
begin

text \<open>
  What the components of the repository share: the Go types (\<open>uint32\<close>, \<open>uint64\<close>, \<open>map\<close>,
  \<open>string\<close>), the ways a Go program stops without returning (\<open>os.Exit(1)\<close> and a run-time panic),
  iteration over a map in an unspecified order, and the contract of \<open>sort.Slice\<close>.

  A Go string is a sequence of bytes and is modelled by \<open>string\<close>, whose characters are 8-bit.
  A Go map is a finite map; reading a missing key gives the zero value of the element type
  (\<open>gm_get\<close>). \<open>for k := range m\<close> visits the keys in an order the language leaves open: every
  loop of that kind takes the order as an argument, a list \<open>ks\<close> with \<open>enumerates ks m\<close>, and the
  theorems hold for every such order.
\<close>

unbundle bit_operations_syntax

type_synonym u32 = "32 word"
type_synonym u64 = "64 word"
type_synonym ('k, 'v) gomap = "('k, 'v) fmap"

text \<open>
  The ends of a run that is not a return: \<open>os.Exit(1)\<close> after a logged error, and a panic.
  \<open>Diverges\<close> is the outcome of an operation one of whose loops does not end; such a loop is a
  \<open>partial_function (option)\<close> whose value is then \<open>None\<close>, and \<open>ended\<close> makes an outcome of it.
\<close>

datatype abort = ExitOne | NilDereference | NilMapWrite | IndexOutOfRange | DivideByZero | ExplicitPanic
  | BadArgument | Diverges

type_synonym 'a outcome = "abort + 'a"

definition ended :: "'a outcome option \<Rightarrow> 'a outcome" where
  "ended r = (case r of None \<Rightarrow> Inl Diverges | Some x \<Rightarrow> x)"

lemma ended_simps [simp]: "ended None = Inl Diverges" "ended (Some x) = x"
  by (simp_all add: ended_def)

text \<open>Sequencing: the rest of the function runs only if the statement before it did not abort.\<close>

definition and_then :: "'a outcome \<Rightarrow> ('a \<Rightarrow> 'b outcome) \<Rightarrow> 'b outcome" where
  "and_then m f = (case m of Inl e \<Rightarrow> Inl e | Inr x \<Rightarrow> f x)"

lemma and_then_simps [simp]: "and_then (Inl e) f = Inl e" "and_then (Inr x) f = f x"
  by (simp_all add: and_then_def)

named_theorems gomap_simps "rewriting of lookups in updated Go maps"

declare fmlookup_dom_iff [gomap_simps] fmupd_lookup [gomap_simps]

subsection \<open>Go maps\<close>

definition gm_get :: "'v \<Rightarrow> ('k, 'v) gomap \<Rightarrow> 'k \<Rightarrow> 'v" where
  "gm_get zero m k = (case fmlookup m k of None \<Rightarrow> zero | Some v \<Rightarrow> v)"

lemma gm_get_fmupd [simp, gomap_simps]:
  "gm_get z (fmupd k v m) j = (if j = k then v else gm_get z m j)"
  by (simp add: gm_get_def)

lemma gm_get_fmempty [simp, gomap_simps]: "gm_get z fmempty k = z"
  by (simp add: gm_get_def)

lemma gm_get_fmdrop [simp, gomap_simps]:
  "gm_get z (fmdrop k m) j = (if j = k then z else gm_get z m j)"
  by (simp add: gm_get_def)

lemma gm_get_Some: "fmlookup m k = Some v \<Longrightarrow> gm_get z m k = v"
  by (simp add: gm_get_def)

definition gm_len :: "('k, 'v) gomap \<Rightarrow> nat" where
  "gm_len m = fcard (fmdom m)"

lemma gm_len_fmempty [simp]: "gm_len fmempty = 0"
  by (simp add: gm_len_def)

lemma gm_len_fmupd: "gm_len (fmupd k v m) = (if k |\<in>| fmdom m then gm_len m else Suc (gm_len m))"
  by (simp add: gm_len_def fcard_finsert_if)

lemma gm_len_0_iff: "gm_len m = 0 \<longleftrightarrow> m = fmempty"
proof
  assume "gm_len m = 0"
  then have "fmdom m = {||}" by (simp add: gm_len_def)
  then show "m = fmempty" by (metis fmrestrict_fset_dom fmrestrict_fset_null)
qed simp

text \<open>The key orders a \<open>range\<close> loop over \<open>m\<close> may use.\<close>

definition enumerates :: "'k list \<Rightarrow> ('k, 'v) gomap \<Rightarrow> bool" where
  "enumerates ks m \<longleftrightarrow> distinct ks \<and> set ks = fset (fmdom m)"

lemma enumerates_distinct: "enumerates ks m \<Longrightarrow> distinct ks"
  by (simp add: enumerates_def)

lemma enumerates_iff: "enumerates ks m \<Longrightarrow> k \<in> set ks \<longleftrightarrow> (\<exists>v. fmlookup m k = Some v)"
  by (auto simp: enumerates_def fmlookup_dom_iff)

lemma enumerates_None: "enumerates ks m \<Longrightarrow> k \<notin> set ks \<longleftrightarrow> fmlookup m k = None"
  by (auto simp: enumerates_iff)

lemma enumerates_length: "enumerates ks m \<Longrightarrow> length ks = gm_len m"
  by (simp add: enumerates_def gm_len_def fcard.rep_eq flip: distinct_card)

lemma ex_enumerates: "\<exists>ks. enumerates ks m"
  using finite_distinct_list [OF finite_fset [of "fmdom m"]]
  by (auto simp: enumerates_def)

text \<open>
  A loop over distinct keys whose body touches only the key it visits: the final map is given
  key by key, so the order of the visit does not matter.
\<close>

lemma fold_pointwise:
  assumes "\<And>k m. fmlookup (step k m) k = g k (fmlookup m k)"
    and "\<And>k j m. j \<noteq> k \<Longrightarrow> fmlookup (step k m) j = fmlookup m j"
    and "distinct ks"
  shows "fmlookup (fold step ks m) j = (if j \<in> set ks then g j (fmlookup m j) else fmlookup m j)"
  using assms(3)
proof (induction ks arbitrary: m)
  case Nil
  then show ?case by simp
next
  case (Cons k ks)
  then show ?case by (cases "j = k") (simp_all add: assms(1,2))
qed

subsection \<open>Sorting\<close>

text \<open>
  \<open>sort.Slice\<close> promises a permutation ordered by the comparison and nothing about equal
  elements (it is not stable). A component that calls it takes the sort as an argument and the
  theorems assume only this contract; \<open>sort_key\<close> satisfies it.
\<close>

definition sorts_by :: "('a list \<Rightarrow> 'a list) \<Rightarrow> ('a \<Rightarrow> 'k::linorder) \<Rightarrow> bool" where
  "sorts_by srt key \<longleftrightarrow> (\<forall>xs. mset (srt xs) = mset xs \<and> sorted (map key (srt xs)))"

lemma sorts_by_mset: "sorts_by srt key \<Longrightarrow> mset (srt xs) = mset xs"
  by (simp add: sorts_by_def)

lemma sorts_by_sorted: "sorts_by srt key \<Longrightarrow> sorted (map key (srt xs))"
  by (simp add: sorts_by_def)

lemma sorts_by_set: "sorts_by srt key \<Longrightarrow> set (srt xs) = set xs"
  by (metis set_mset_mset sorts_by_mset)

lemma sorts_by_sort_key: "sorts_by (sort_key key) key"
  by (simp add: sorts_by_def)

lemma length_filter_update:
  "i < length xs \<Longrightarrow> length (filter P (xs[i := x])) + (if P (xs ! i) then 1 else 0)
     = length (filter P xs) + (if P x then 1 else 0)"
proof (induction xs arbitrary: i)
  case (Cons a xs)
  show ?case
  proof (cases i)
    case (Suc j)
    then show ?thesis using Cons.IH [of j] Cons.prems by simp
  qed auto
qed simp

text \<open>A loop whose body may abort.\<close>

fun each :: "('a \<Rightarrow> 's \<Rightarrow> 's outcome) \<Rightarrow> 'a list \<Rightarrow> 's \<Rightarrow> 's outcome" where
  "each f [] s = Inr s"
| "each f (x # xs) s = and_then (f x s) (each f xs)"

lemma each_append: "each f (xs @ ys) s = and_then (each f xs s) (each f ys)"
  by (induction xs arbitrary: s) (auto simp: and_then_def split: sum.splits)

lemma each_fold:
  assumes "\<And>x s. x \<in> set xs \<Longrightarrow> P s \<Longrightarrow> f x s = Inr (g x s) \<and> P (g x s)" "P s"
  shows "each f xs s = Inr (fold g xs s)" "P (fold g xs s)"
proof -
  have "each f xs s = Inr (fold g xs s) \<and> P (fold g xs s)" using assms
  proof (induction xs arbitrary: s)
    case (Cons x xs)
    then have "f x s = Inr (g x s)" "P (g x s)" by simp_all
    then show ?case using Cons.IH [of "g x s"] Cons.prems(1) by simp
  qed simp
  then show "each f xs s = Inr (fold g xs s)" "P (fold g xs s)" by auto
qed

definition key_order :: "('k::linorder, 'v) gomap \<Rightarrow> 'k list" where
  "key_order m = sorted_list_of_fset (fmdom m)"

lemma enumerates_key_order: "enumerates (key_order m) m"
  by (simp add: enumerates_def key_order_def sorted_list_of_fset.rep_eq)

subsection \<open>Loops over maps, several in a function\<close>

text \<open>
  Where a function ranges over maps several times, the orders are given by one argument: \<open>ord n S\<close>
  is the order in which the \<open>n\<close>th such loop visits the keys \<open>S\<close>.
\<close>

definition range_orders :: "(nat \<Rightarrow> 'k fset \<Rightarrow> 'k list) \<Rightarrow> bool" where
  "range_orders ord \<longleftrightarrow> (\<forall>n S. distinct (ord n S) \<and> set (ord n S) = fset S)"

lemma range_orders_distinct: "range_orders ord \<Longrightarrow> distinct (ord n S)"
  by (simp add: range_orders_def)

lemma range_orders_set: "range_orders ord \<Longrightarrow> set (ord n S) = fset S"
  by (simp add: range_orders_def)

lemma range_orders_enumerates: "range_orders ord \<Longrightarrow> enumerates (ord n (fmdom m)) m"
  by (simp add: range_orders_def enumerates_def)

lemma range_orders_sorted: "range_orders (\<lambda>n. sorted_list_of_fset)"
  by (simp add: range_orders_def sorted_list_of_fset.rep_eq)

text \<open>\<open>sort.Strings\<close> on a list of distinct keys gives the sorted list of the set.\<close>

lemma sort_distinct_set: "distinct xs \<Longrightarrow> sort xs = sorted_list_of_set (set xs)"
  by (simp add: sorted_list_of_set_sort_remdups distinct_remdups_id)

subsection \<open>Runs of a step relation\<close>

text \<open>
  Concurrent components are step relations whose labels are the atomic statements of the
  goroutines; a run interleaves them in any order.
\<close>

inductive runs :: "('s \<Rightarrow> 'e \<Rightarrow> 's \<Rightarrow> bool) \<Rightarrow> 's \<Rightarrow> 'e list \<Rightarrow> 's \<Rightarrow> bool"
  for stp :: "'s \<Rightarrow> 'e \<Rightarrow> 's \<Rightarrow> bool" where
  runs_Nil: "runs stp s [] s"
| runs_Cons: "stp s e s' \<Longrightarrow> runs stp s' es s'' \<Longrightarrow> runs stp s (e # es) s''"

inductive_cases runs_ConsE: "runs stp s (e # es) s'"

lemma runs_invariant:
  assumes "runs stp s es s'" "P s" "\<And>s e s'. P s \<Longrightarrow> stp s e s' \<Longrightarrow> P s'"
  shows "P s'"
  using assms by (induction rule: runs.induct) blast+

lemma runs_append: "runs stp s es s' \<Longrightarrow> runs stp s' es' s'' \<Longrightarrow> runs stp s (es @ es') s''"
  by (induction rule: runs.induct) (auto intro: runs.intros)

lemma runs_snoc: "runs stp s es s' \<Longrightarrow> stp s' e s'' \<Longrightarrow> runs stp s (es @ [e]) s''"
  by (rule runs_append) (auto intro: runs.intros)

lemma unat_and_mask: "unat (x AND mask n) = unat x mod 2 ^ n" for x :: "'a::len word"
proof -
  have "unat (x AND mask n) = unat (take_bit n x)" by (simp add: take_bit_eq_mask)
  also have "\<dots> = unat x mod 2 ^ n" by (simp only: unsigned_take_bit_eq) (simp add: take_bit_eq_mod)
  finally show ?thesis .
qed

subsection \<open>Signed integers\<close>

text \<open>The result of an operation on \<open>int\<close> or \<open>int64\<close> whose exact result is \<open>n\<close>.\<close>

definition wrap64 :: "int \<Rightarrow> int" where
  "wrap64 n = (n + 2 ^ 63) mod 2 ^ 64 - 2 ^ 63"

lemma wrap64_id: "- (2 ^ 63) \<le> n \<Longrightarrow> n < 2 ^ 63 \<Longrightarrow> wrap64 n = n"
  by (simp add: wrap64_def)

lemma wrap64_eq: "wrap64 n = wrap64 m \<longleftrightarrow> n mod 2 ^ 64 = m mod 2 ^ 64"
  by (simp add: wrap64_def mod_eq_dvd_iff)

lemma wrap64_mod [simp]: "wrap64 n mod 2 ^ 64 = n mod 2 ^ 64"
  unfolding wrap64_def by (simp only: mod_diff_left_eq add_diff_cancel_right')

lemma wrap64_wrap64 [simp]:
  "wrap64 (wrap64 a + b) = wrap64 (a + b)" "wrap64 (a + wrap64 b) = wrap64 (a + b)" "wrap64 (wrap64 a - wrap64 b) = wrap64 (a - b)"
  unfolding wrap64_eq
  by (simp_all only: mod_add_cong [OF wrap64_mod refl] mod_add_cong [OF refl wrap64_mod] mod_diff_cong [OF wrap64_mod wrap64_mod])

end
