(* ===== verification/Dlist_Heap.thy ===== *)
theory Dlist_Heap
  imports Go_Prelude
begin

text \<open>
  Doubly-linked lists of heap nodes, as both caches use them. A node is a record with the two
  pointers of the Go struct; the caches extend the record with their keys, values and counters,
  so everything here is polymorphic in the extension. A pointer is \<open>addr option\<close>, \<open>None\<close> for
  \<open>nil\<close>; following \<open>nil\<close> is a panic.

  \<open>dll h xs\<close> says that the addresses \<open>xs\<close>, sentinels included, are linked forwards by \<open>Next\<close> and
  backwards by \<open>Prev\<close>. Unlinking a node and linking one between two neighbours are proved once.
\<close>

type_synonym addr = nat

record links =
  nd_next :: "addr option"
  nd_prev :: "addr option"

type_synonym 'z heap = "(addr, 'z links_scheme) gomap"

definition deref :: "'z heap \<Rightarrow> addr option \<Rightarrow> 'z links_scheme outcome" where
  "deref h p = (case p of None \<Rightarrow> Inl NilDereference
     | Some a \<Rightarrow> (case fmlookup h a of None \<Rightarrow> Inl NilDereference | Some n \<Rightarrow> Inr n))"

text \<open>\<open>p.Next = q\<close> and \<open>p.Prev = q\<close>.\<close>

definition set_next :: "'z heap \<Rightarrow> addr option \<Rightarrow> addr option \<Rightarrow> 'z heap outcome" where
  "set_next h p q = (case p of None \<Rightarrow> Inl NilDereference
     | Some a \<Rightarrow> (case fmlookup h a of None \<Rightarrow> Inl NilDereference
         | Some n \<Rightarrow> Inr (fmupd a (n\<lparr>nd_next := q\<rparr>) h)))"

definition set_prev :: "'z heap \<Rightarrow> addr option \<Rightarrow> addr option \<Rightarrow> 'z heap outcome" where
  "set_prev h p q = (case p of None \<Rightarrow> Inl NilDereference
     | Some a \<Rightarrow> (case fmlookup h a of None \<Rightarrow> Inl NilDereference
         | Some n \<Rightarrow> Inr (fmupd a (n\<lparr>nd_prev := q\<rparr>) h)))"

text \<open>
  \<open>node.Prev.Next = node.Next; node.Next.Prev = node.Prev\<close>, the body of \<open>deleteNode\<close> and of
  \<open>remove\<close>. The second statement reads the node again, after the first write.
\<close>

definition unlink :: "'z heap \<Rightarrow> addr option \<Rightarrow> 'z heap outcome" where
  "unlink h node =
     and_then (deref h node) (\<lambda>n.
     and_then (set_next h (nd_prev n) (nd_next n)) (\<lambda>h1.
     and_then (deref h1 node) (\<lambda>n1.
     set_prev h1 (nd_next n1) (nd_prev n1))))"

subsection \<open>Forward and backward pointers as functions\<close>

definition nx :: "'z heap \<Rightarrow> addr \<Rightarrow> addr option" where
  "nx h a = (case fmlookup h a of None \<Rightarrow> None | Some n \<Rightarrow> nd_next n)"

definition pv :: "'z heap \<Rightarrow> addr \<Rightarrow> addr option" where
  "pv h a = (case fmlookup h a of None \<Rightarrow> None | Some n \<Rightarrow> nd_prev n)"

definition payload :: "'z heap \<Rightarrow> addr \<Rightarrow> 'z option" where
  "payload h a = map_option links.more (fmlookup h a)"

lemma nx_Some: "nx h a = Some b \<longleftrightarrow> (\<exists>n. fmlookup h a = Some n \<and> nd_next n = Some b)"
  by (auto simp: nx_def split: option.splits)

lemma pv_Some: "pv h a = Some b \<longleftrightarrow> (\<exists>n. fmlookup h a = Some n \<and> nd_prev n = Some b)"
  by (auto simp: pv_def split: option.splits)

lemma deref_Some: "deref h (Some a) = Inr n \<longleftrightarrow> fmlookup h a = Some n"
  by (simp add: deref_def split: option.splits)

lemma set_next_ok:
  assumes "a |\<in>| fmdom h"
  obtains h' where "set_next h (Some a) q = Inr h'" "nx h' = (nx h)(a := q)" "pv h' = pv h"
    "payload h' = payload h" "fmdom h' = fmdom h"
proof -
  from assms obtain n where "fmlookup h a = Some n" by (auto simp: fmlookup_dom_iff)
  then show ?thesis
    by (intro that [of "fmupd a (n\<lparr>nd_next := q\<rparr>) h"])
      (auto simp: set_next_def nx_def pv_def payload_def fun_eq_iff intro: fmdomI)
qed

lemma set_prev_ok:
  assumes "a |\<in>| fmdom h"
  obtains h' where "set_prev h (Some a) q = Inr h'" "pv h' = (pv h)(a := q)" "nx h' = nx h"
    "payload h' = payload h" "fmdom h' = fmdom h"
proof -
  from assms obtain n where "fmlookup h a = Some n" by (auto simp: fmlookup_dom_iff)
  then show ?thesis
    by (intro that [of "fmupd a (n\<lparr>nd_prev := q\<rparr>) h"])
      (auto simp: set_prev_def nx_def pv_def payload_def fun_eq_iff intro: fmdomI)
qed

subsection \<open>Chains\<close>

fun chain :: "(addr \<Rightarrow> addr option) \<Rightarrow> addr list \<Rightarrow> bool" where
  "chain f (a # b # as) \<longleftrightarrow> f a = Some b \<and> chain f (b # as)"
| "chain f _ \<longleftrightarrow> True"

lemma chain_split: "chain f (xs @ a # ys) \<longleftrightarrow> chain f (xs @ [a]) \<and> chain f (a # ys)"
  by (induction f xs rule: chain.induct) (auto simp: neq_Nil_conv elim: chain.elims)

lemma chain_upd: "a \<notin> set (butlast as) \<Longrightarrow> chain (f(a := v)) as \<longleftrightarrow> chain f as"
  by (induction f as rule: chain.induct) auto

lemma chain_upd_notin [simp]: "a \<notin> set as \<Longrightarrow> chain (f(a := v)) as \<longleftrightarrow> chain f as"
  by (rule chain_upd) (auto dest: in_set_butlastD)

lemma chain_upd_snoc [simp]: "a \<notin> set as \<Longrightarrow> chain (f(a := v)) (as @ [b]) \<longleftrightarrow> chain f (as @ [b])"
  by (rule chain_upd) simp

definition dll :: "'z heap \<Rightarrow> addr list \<Rightarrow> bool" where
  "dll h as \<longleftrightarrow> distinct as \<and> set as \<subseteq> fset (fmdom h) \<and> chain (nx h) as \<and> chain (pv h) (rev as)"


lemma chain_join: "chain f (xs @ [a, b] @ ys) \<longleftrightarrow> chain f (xs @ [a]) \<and> f a = Some b \<and> chain f (b # ys)"
  using chain_split [of f xs a "b # ys"] by simp

lemma dll_links:
  assumes "dll h (us @ [p, a, q] @ vs)"
  shows "nx h a = Some q" "pv h a = Some p" "a |\<in>| fmdom h" "p |\<in>| fmdom h" "q |\<in>| fmdom h"
proof -
  from assms show "nx h a = Some q"
    using chain_join [of "nx h" "us @ [p]" a q vs] by (simp add: dll_def)
  from assms show "pv h a = Some p"
    using chain_join [of "pv h" "rev vs @ [q]" a p "rev us"] by (simp add: dll_def)
qed (use assms in \<open>auto simp: dll_def\<close>)

text \<open>Unlinking the node between \<open>p\<close> and \<open>q\<close> leaves the list of the others.\<close>

lemma chain_bypass:
  assumes "chain f (us @ [p, a, q] @ vs)" "distinct (us @ [p, a, q] @ vs)"
  shows "chain (f(p := Some q)) (us @ [p, q] @ vs)"
proof -
  have "chain f (us @ [p])" "chain f (q # vs)"
    using assms(1) chain_join [of f us p a "q # vs"] chain_join [of f "us @ [p]" a q vs]
    by simp_all
  then show ?thesis
    using assms(2) unfolding chain_join by auto
qed

lemma dll_unlink:
  assumes "dll h (us @ [p, a, q] @ vs)"
  obtains h' where "unlink h (Some a) = Inr h'" "dll h' (us @ [p, q] @ vs)"
    "nx h' = (nx h)(p := Some q)" "pv h' = (pv h)(q := Some p)"
    "payload h' = payload h" "fmdom h' = fmdom h"
proof -
  note links = dll_links [OF assms]
  obtain n where n: "fmlookup h a = Some n" using links(3) by (auto simp: fmlookup_dom_iff)
  obtain h1 where h1: "set_next h (Some p) (Some q) = Inr h1" "nx h1 = (nx h)(p := Some q)"
    "pv h1 = pv h" "payload h1 = payload h" "fmdom h1 = fmdom h"
    by (rule set_next_ok [OF links(4)])
  obtain h2 where h2: "set_prev h1 (Some q) (Some p) = Inr h2" "pv h2 = (pv h1)(q := Some p)"
    "nx h2 = nx h1" "payload h2 = payload h1" "fmdom h2 = fmdom h1"
    using set_prev_ok [of q h1] links(5) h1(5) by metis
  have "a \<noteq> p" using assms by (auto simp: dll_def)
  obtain n1 where n1: "fmlookup h1 a = Some n1"
    using links(3) h1(5) by (metis fmlookup_dom_iff)
  have nds: "nd_next n = Some q" "nd_prev n = Some p" "nd_next n1 = Some q" "nd_prev n1 = Some p"
    using links(1,2) n n1 h1(2,3) \<open>a \<noteq> p\<close> by (simp_all add: nx_def pv_def fun_eq_iff split: option.splits)
  show ?thesis
  proof
    show "unlink h (Some a) = Inr h2"
      using n n1 nds h1(1) h2(1) by (simp add: unlink_def deref_def)
    show nx2: "nx h2 = (nx h)(p := Some q)" and pv2: "pv h2 = (pv h)(q := Some p)"
      using h1 h2 by simp_all
    have "chain (nx h2) (us @ [p, q] @ vs)"
      unfolding nx2 using assms by (intro chain_bypass) (auto simp: dll_def)
    moreover have "chain (pv h2) (rev vs @ [q, p] @ rev us)"
      unfolding pv2 using assms by (intro chain_bypass) (auto simp: dll_def)
    ultimately show "dll h2 (us @ [p, q] @ vs)"
      using assms h1(5) h2(5) by (auto simp: dll_def)
    show "payload h2 = payload h" "fmdom h2 = fmdom h" using h1 h2 by simp_all
  qed
qed

lemma dll_unlink_mid:
  assumes "dll h (us @ a # vs)" "us \<noteq> []" "vs \<noteq> []"
  obtains h' where "unlink h (Some a) = Inr h'" "dll h' (us @ vs)"
    "nx h' = (nx h)(last us := Some (hd vs))" "pv h' = (pv h)(hd vs := Some (last us))"
    "payload h' = payload h" "fmdom h' = fmdom h"
proof -
  have "us @ a # vs = butlast us @ [last us, a, hd vs] @ tl vs"
    and "us @ vs = butlast us @ [last us, hd vs] @ tl vs"
    using assms(2,3) by simp_all
  then show ?thesis using assms(1) that by (metis dll_unlink)
qed

text \<open>Linking a node that is in no list between two neighbours.\<close>

lemma chain_insert:
  assumes "chain f (us @ [p, q] @ vs)" "distinct (us @ [p, a, q] @ vs)"
  shows "chain (f(a := Some q, p := Some a)) (us @ [p, a, q] @ vs)"
proof -
  have "chain f (us @ [p])" "chain f (q # vs)"
    using assms(1) unfolding chain_join by simp_all
  then show ?thesis
    using assms(2) chain_join [of _ us p a "q # vs"] by auto
qed

lemma dll_insert:
  assumes "dll h (us @ [p, q] @ vs)" "a \<notin> set (us @ [p, q] @ vs)" "a |\<in>| fmdom h'"
    and "nx h' = (nx h)(a := Some q, p := Some a)" "pv h' = (pv h)(a := Some p, q := Some a)"
    and "fset (fmdom h) \<subseteq> fset (fmdom h')"
  shows "dll h' (us @ [p, a, q] @ vs)"
proof -
  have "distinct (us @ [p, a, q] @ vs)" using assms(1,2) by (auto simp: dll_def)
  moreover have "chain (nx h') (us @ [p, a, q] @ vs)"
    unfolding assms(4) using assms(1,2) by (intro chain_insert) (auto simp: dll_def)
  moreover have "chain (pv h') (rev vs @ [q, a, p] @ rev us)"
    unfolding assms(5) using assms(1,2) by (intro chain_insert) (auto simp: dll_def)
  ultimately show ?thesis using assms(1,3,6) by (auto simp: dll_def)
qed

text \<open>A list is untouched by changes to other nodes.\<close>

lemma chain_cong: "(\<And>a. a \<in> set as \<Longrightarrow> f a = g a) \<Longrightarrow> chain f as \<longleftrightarrow> chain g as"
  by (induction f as rule: chain.induct) auto

lemma dll_frame:
  assumes "dll h as" "\<And>a. a \<in> set as \<Longrightarrow> nx h' a = nx h a \<and> pv h' a = pv h a"
    and "fset (fmdom h) \<subseteq> fset (fmdom h')"
  shows "dll h' as"
  using assms chain_cong [of as "nx h'" "nx h"] chain_cong [of "rev as" "pv h'" "pv h"]
  by (auto simp: dll_def)

end
