(* ===== verification/Lru_Cache.thy ===== *)
theory Lru_Cache
  imports Dlist_Heap
begin

text \<open>
  \<open>01-LRU-Cache/main.go\<close>: the least-recently-used cache, as the code has it: heap nodes in a
  doubly-linked list between two sentinels, from the least to the most recently used, and a map
  from keys to nodes. Allocation takes the next unused address; evicted nodes stay in the heap
  (nothing reaches them any more).

  \<open>lru_repr\<close> relates such a state to the list of its entries; every operation refines the
  operation on lists (\<open>lru_spec_get\<close>, \<open>lru_spec_put\<close>), so no run of operations on a cache with a
  capacity other than 0 can follow a nil pointer. A capacity of 0 panics on the first \<open>put\<close>.
\<close>

record lru_node = links +
  nd_key :: int
  nd_val :: int

record lru_cache =
  lru_Size :: int
  lru_Capacity :: int
  lru_Map :: "(int, addr) gomap"
  lru_Head :: addr
  lru_Tail :: addr
  lru_Heap :: "(addr, lru_node) gomap"
  lru_Fresh :: addr

definition NewLRUCache :: "int \<Rightarrow> lru_cache" where
  "NewLRUCache capacity =
     \<lparr>lru_Size = 0, lru_Capacity = capacity, lru_Map = fmempty, lru_Head = 0, lru_Tail = 1,
      lru_Heap = fmupd 1 \<lparr>nd_next = None, nd_prev = Some 0, nd_key = 0, nd_val = 0\<rparr>
        (fmupd 0 \<lparr>nd_next = Some 1, nd_prev = None, nd_key = 0, nd_val = 0\<rparr> fmempty),
      lru_Fresh = 2\<rparr>"

definition lru_deleteNode :: "addr option \<Rightarrow> lru_cache \<Rightarrow> lru_cache outcome" where
  "lru_deleteNode node l =
     and_then (unlink (lru_Heap l) node) (\<lambda>h. Inr (l\<lparr>lru_Heap := h\<rparr>))"

definition lru_addNode :: "addr option \<Rightarrow> lru_cache \<Rightarrow> lru_cache outcome" where
  "lru_addNode node l = (let tail = Some (lru_Tail l) in
     and_then (deref (lru_Heap l) tail) (\<lambda>t.
     and_then (set_prev (lru_Heap l) node (nd_prev t)) (\<lambda>h1.
     and_then (set_next h1 node tail) (\<lambda>h2.
     and_then (deref h2 tail) (\<lambda>t2.
     and_then (set_next h2 (nd_prev t2) node) (\<lambda>h3.
     and_then (set_prev h3 tail node) (\<lambda>h4.
     Inr (l\<lparr>lru_Heap := h4\<rparr>))))))))"

definition lru_get :: "int \<Rightarrow> lru_cache \<Rightarrow> (int \<times> lru_cache) outcome" where
  "lru_get key l = (case fmlookup (lru_Map l) key of
       None \<Rightarrow> Inr (-1, l)
     | Some node \<Rightarrow>
         and_then (lru_deleteNode (Some node) l) (\<lambda>l1.
         and_then (lru_addNode (Some node) l1) (\<lambda>l2.
         and_then (deref (lru_Heap l2) (Some node)) (\<lambda>n.
         Inr (nd_val n, l2)))))"

definition lru_setValue :: "addr option \<Rightarrow> int \<Rightarrow> lru_cache \<Rightarrow> lru_cache outcome" where
  "lru_setValue node value l = (case node of None \<Rightarrow> Inl NilDereference | Some a \<Rightarrow>
     and_then (deref (lru_Heap l) node) (\<lambda>n.
     Inr (l\<lparr>lru_Heap := fmupd a (n\<lparr>nd_val := value\<rparr>) (lru_Heap l)\<rparr>)))"

text \<open>The eviction at the start of \<open>put\<close>, taken when \<open>Size == Capacity\<close>.\<close>

definition lru_evict :: "lru_cache \<Rightarrow> lru_cache outcome" where
  "lru_evict l =
     and_then (deref (lru_Heap l) (Some (lru_Head l))) (\<lambda>hd.
     and_then (deref (lru_Heap l) (nd_next hd)) (\<lambda>n.
     and_then (lru_deleteNode (nd_next hd) l) (\<lambda>l1.
     Inr (l1\<lparr>lru_Map := fmdrop (nd_key n) (lru_Map l1), lru_Size := lru_Size l1 - 1\<rparr>))))"

definition lru_put :: "int \<Rightarrow> int \<Rightarrow> lru_cache \<Rightarrow> lru_cache outcome" where
  "lru_put key value l = (case fmlookup (lru_Map l) key of
       Some existing \<Rightarrow>
         and_then (lru_setValue (Some existing) value l) (\<lambda>l1.
         and_then (lru_deleteNode (Some existing) l1) (\<lambda>l2.
         lru_addNode (Some existing) l2))
     | None \<Rightarrow>
         and_then (if lru_Size l = lru_Capacity l then lru_evict l else Inr l) (\<lambda>l1.
         let a = lru_Fresh l1;
             n = \<lparr>nd_next = None, nd_prev = None, nd_key = key, nd_val = value\<rparr>;
             l2 = l1\<lparr>lru_Heap := fmupd a n (lru_Heap l1), lru_Fresh := a + 1\<rparr> in
         and_then (lru_addNode (Some a) l2) (\<lambda>l3.
         Inr (l3\<lparr>lru_Map := fmupd key a (lru_Map l3), lru_Size := lru_Size l3 + 1\<rparr>))))"

subsection \<open>The cache as a list of entries\<close>

definition lru_spec_get :: "int \<Rightarrow> (int \<times> int) list \<Rightarrow> int \<times> (int \<times> int) list" where
  "lru_spec_get k xs = (case map_of xs k of None \<Rightarrow> (-1, xs)
     | Some v \<Rightarrow> (v, filter (\<lambda>e. fst e \<noteq> k) xs @ [(k, v)]))"

definition lru_spec_put :: "int \<Rightarrow> int \<Rightarrow> int \<Rightarrow> (int \<times> int) list \<Rightarrow> (int \<times> int) list" where
  "lru_spec_put cap k v xs =
     (if k \<in> fst ` set xs then filter (\<lambda>e. fst e \<noteq> k) xs @ [(k, v)]
      else (if int (length xs) = cap then tl xs else xs) @ [(k, v)])"

definition lru_entry :: "(addr, lru_node) gomap \<Rightarrow> addr \<Rightarrow> (int \<times> int) option" where
  "lru_entry h a = map_option (\<lambda>n. (nd_key n, nd_val n)) (fmlookup h a)"

text \<open>An entry of the representation is an address with the key and the value stored there.\<close>

definition lru_repr :: "lru_cache \<Rightarrow> (addr \<times> int \<times> int) list \<Rightarrow> bool" where
  "lru_repr l es \<longleftrightarrow>
     dll (lru_Heap l) (lru_Head l # map fst es @ [lru_Tail l]) \<and>
     (\<forall>(a, k, v) \<in> set es. lru_entry (lru_Heap l) a = Some (k, v)) \<and>
     distinct (map (fst \<circ> snd) es) \<and>
     fmlookup (lru_Map l) = map_of (map (\<lambda>(a, k, v). (k, a)) es) \<and>
     lru_Size l = int (length es) \<and>
     (\<forall>a \<in> fset (fmdom (lru_Heap l)). a < lru_Fresh l)"


lemma lru_reprI:
  assumes "dll (lru_Heap l) (lru_Head l # map fst es @ [lru_Tail l])"
    and "\<And>a k v. (a, k, v) \<in> set es \<Longrightarrow> lru_entry (lru_Heap l) a = Some (k, v)"
    and "distinct (map (fst \<circ> snd) es)"
    and "fmlookup (lru_Map l) = map_of (map (\<lambda>(a, k, v). (k, a)) es)"
    and "lru_Size l = int (length es)"
    and "\<forall>a \<in> fset (fmdom (lru_Heap l)). a < lru_Fresh l"
  shows "lru_repr l es"
  using assms by (auto simp: lru_repr_def)

lemma lru_reprD:
  assumes "lru_repr l es"
  shows "dll (lru_Heap l) (lru_Head l # map fst es @ [lru_Tail l])" "distinct (map fst es)"
    and "\<And>a k v. (a, k, v) \<in> set es \<Longrightarrow> lru_entry (lru_Heap l) a = Some (k, v)"
    and "distinct (map (fst \<circ> snd) es)"
    and "fmlookup (lru_Map l) = map_of (map (\<lambda>(a, k, v). (k, a)) es)"
    and "lru_Size l = int (length es)"
    and "\<forall>a \<in> fset (fmdom (lru_Heap l)). a < lru_Fresh l"
  using assms by (auto simp: lru_repr_def dll_def)

subsection \<open>The pointer operations\<close>

lemma more_lru_node: "links.more (n :: lru_node) = links.more n' \<Longrightarrow> nd_key n = nd_key n' \<and> nd_val n = nd_val n'"
  by (cases n, cases n') simp

lemma lru_entry_payload: "payload h' = payload h \<Longrightarrow> lru_entry h' = lru_entry h"
proof
  fix a
  assume "payload h' = payload h"
  then have "map_option links.more (fmlookup h' a) = map_option links.more (fmlookup h a)"
    by (simp add: payload_def fun_eq_iff)
  then show "lru_entry h' a = lru_entry h a"
    by (auto simp: lru_entry_def map_option_case dest: more_lru_node split: option.splits)
qed

lemma lru_addNode_ok:
  assumes "dll (lru_Heap l) (lru_Head l # as @ [lru_Tail l])"
    and "a \<notin> set (lru_Head l # as @ [lru_Tail l])" and "a |\<in>| fmdom (lru_Heap l)"
  obtains h' where "lru_addNode (Some a) l = Inr (l\<lparr>lru_Heap := h'\<rparr>)"
    "dll h' (lru_Head l # as @ [a, lru_Tail l])" "payload h' = payload (lru_Heap l)"
    "fmdom h' = fmdom (lru_Heap l)"
proof -
  let ?h = "lru_Heap l" and ?t = "lru_Tail l"
  obtain us p where us: "lru_Head l # as = us @ [p]" by (metis rev_exhaust list.distinct(1))
  have d: "dll ?h (us @ [p, ?t] @ [])" using assms(1) us by (metis append.assoc append_Cons append_Nil append_Nil2)
  have a: "a \<notin> set (us @ [p, ?t] @ [])" using assms(2) us by (metis append.assoc append_Cons append_Nil append_Nil2)
  have dom: "?t |\<in>| fmdom ?h" "p |\<in>| fmdom ?h" "pv ?h ?t = Some p" "p \<noteq> ?t" "a \<noteq> p" "a \<noteq> ?t"
    using d a by (auto simp: dll_def)
  obtain t where t: "fmlookup ?h ?t = Some t" "nd_prev t = Some p"
    using dom(3) pv_Some by metis
  obtain h1 where h1: "set_prev ?h (Some a) (Some p) = Inr h1" "pv h1 = (pv ?h)(a := Some p)"
    "nx h1 = nx ?h" "payload h1 = payload ?h" "fmdom h1 = fmdom ?h"
    by (rule set_prev_ok [OF assms(3)])
  obtain h2 where h2: "set_next h1 (Some a) (Some ?t) = Inr h2" "nx h2 = (nx h1)(a := Some ?t)"
    "pv h2 = pv h1" "payload h2 = payload h1" "fmdom h2 = fmdom h1"
    using set_next_ok [of a h1] assms(3) h1(5) by metis
  have "pv h2 ?t = Some p" using dom(3,6) h1(2) h2(3) by simp
  then obtain t2 where t2: "fmlookup h2 ?t = Some t2" "nd_prev t2 = Some p"
    using pv_Some by metis
  obtain h3 where h3: "set_next h2 (Some p) (Some a) = Inr h3" "nx h3 = (nx h2)(p := Some a)"
    "pv h3 = pv h2" "payload h3 = payload h2" "fmdom h3 = fmdom h2"
    using set_next_ok [of p h2] dom h1(5) h2(5) by metis
  obtain h4 where h4: "set_prev h3 (Some ?t) (Some a) = Inr h4" "pv h4 = (pv h3)(?t := Some a)"
    "nx h4 = nx h3" "payload h4 = payload h3" "fmdom h4 = fmdom h3"
    using set_prev_ok [of ?t h3] dom h1(5) h2(5) h3(5) by metis
  have "dll h4 (us @ [p, a, ?t] @ [])"
    using assms(3) h1 h2 h3 h4 by (intro dll_insert [OF d a]) simp_all
  moreover have "us @ [p, a, ?t] @ [] = lru_Head l # as @ [a, ?t]"
    using us by (metis append.assoc append_Cons append_Nil append_Nil2)
  moreover have "lru_addNode (Some a) l = Inr (l\<lparr>lru_Heap := h4\<rparr>)"
    using t t2 h1(1) h2(1) h3(1) h4(1) by (simp add: lru_addNode_def deref_def)
  ultimately show ?thesis using that h1 h2 h3 h4 by metis
qed


lemma lru_repr_heap:
  assumes "lru_repr l es" "dll h' (lru_Head l # map fst es' @ [lru_Tail l])"
    "payload h' = payload (lru_Heap l)" "fmdom h' = fmdom (lru_Heap l)"
    "set es' = set es" "distinct (map (fst \<circ> snd) es')" "length es' = length es"
  shows "lru_repr (l\<lparr>lru_Heap := h'\<rparr>) es'"
proof -
  let ?kv = "\<lambda>(a, k, v). (k, a)"
  have d: "distinct (map (fst \<circ> snd) es)" using assms(1) by (simp add: lru_repr_def)
  have keys: "map fst (map ?kv xs) = map (fst \<circ> snd) xs" for xs :: "(addr \<times> int \<times> int) list"
    by (simp add: comp_def case_prod_unfold)
  have "map_of (map ?kv es') = map_of (map ?kv es)"
    using d assms(5,6) by (subst map_of_inject_set) (simp_all only: keys set_map)
  then show ?thesis
    using assms lru_entry_payload [OF assms(3)] by (simp add: lru_repr_def)
qed

lemma lru_move_to_back:
  assumes "lru_repr l (us @ (a, k, v) # vs)"
  obtains l' where "and_then (lru_deleteNode (Some a) l) (lru_addNode (Some a)) = Inr l'"
    "lru_repr l' (us @ vs @ [(a, k, v)])" "lru_Capacity l' = lru_Capacity l"
    "lru_entry (lru_Heap l') a = Some (k, v)"
proof -
  let ?h = "lru_Heap l" and ?hd = "lru_Head l" and ?t = "lru_Tail l"
  have d: "dll ?h ((?hd # map fst us) @ a # (map fst vs @ [?t]))"
    using assms by (simp add: lru_repr_def)
  obtain h1 where h1: "unlink ?h (Some a) = Inr h1" "dll h1 (?hd # map fst us @ map fst vs @ [?t])"
    "payload h1 = payload ?h" "fmdom h1 = fmdom ?h"
    by (rule dll_unlink_mid [OF d]) simp_all
  let ?l1 = "l\<lparr>lru_Heap := h1\<rparr>"
  have d1: "dll (lru_Heap ?l1) (lru_Head ?l1 # map fst (us @ vs) @ [lru_Tail ?l1])"
    "a \<notin> set (lru_Head ?l1 # map fst (us @ vs) @ [lru_Tail ?l1])" "a |\<in>| fmdom (lru_Heap ?l1)"
    using d h1(2,4) by (auto simp: dll_def)
  obtain h2 where h2: "lru_addNode (Some a) ?l1 = Inr (?l1\<lparr>lru_Heap := h2\<rparr>)"
    "dll h2 (?hd # map fst (us @ vs) @ [a, ?t])" "payload h2 = payload h1" "fmdom h2 = fmdom h1"
    by (rule lru_addNode_ok [OF d1]) simp
  have "lru_repr (l\<lparr>lru_Heap := h2\<rparr>) (us @ vs @ [(a, k, v)])"
    using assms h1 h2 by (intro lru_repr_heap [OF assms]) (auto simp: lru_repr_def)
  moreover from this have "lru_entry h2 a = Some (k, v)" by (simp add: lru_repr_def)
  ultimately show ?thesis
    using h1(1) h2(1) by (intro that [of "l\<lparr>lru_Heap := h2\<rparr>"]) (simp_all add: lru_deleteNode_def)
qed

lemma lru_repr_map_Some:
  assumes "lru_repr l es" "fmlookup (lru_Map l) k = Some a"
  obtains us v vs where "es = us @ (a, k, v) # vs"
proof -
  from assms have "(k, a) \<in> set (map (\<lambda>(a, k, v). (k, a)) es)"
    by (auto simp: lru_repr_def dest: map_of_SomeD)
  then obtain v where "(a, k, v) \<in> set es" by auto
  then show ?thesis using that by (metis split_list)
qed

lemma lru_repr_map_None:
  "lru_repr l es \<Longrightarrow> fmlookup (lru_Map l) k = None \<longleftrightarrow> k \<notin> fst ` set (map snd es)"
  by (auto simp: lru_repr_def map_of_eq_None_iff image_iff)

lemma lru_repr_filter:
  "lru_repr l (us @ (a, k, v) # vs) \<Longrightarrow>
     filter (\<lambda>e. fst e \<noteq> k) (map snd (us @ (a, k, v) # vs)) = map snd (us @ vs)"
  by (auto simp: lru_repr_def filter_id_conv image_iff intro!: arg_cong2 [of _ _ _ _ "(@)"])


subsection \<open>Refinement of the operations\<close>

lemma lru_get_ok:
  assumes "lru_repr l es"
  obtains l' es' where "lru_get key l = Inr (fst (lru_spec_get key (map snd es)), l')"
    "lru_repr l' es'" "map snd es' = snd (lru_spec_get key (map snd es))"
    "lru_Capacity l' = lru_Capacity l"
proof (cases "fmlookup (lru_Map l) key")
  case None
  with assms have "map_of (map snd es) key = None"
    by (simp add: lru_repr_map_None map_of_eq_None_iff)
  with None assms show ?thesis by (intro that [of l es]) (simp_all add: lru_get_def lru_spec_get_def)
next
  case (Some a)
  then obtain us v vs where es: "es = us @ (a, key, v) # vs"
    using lru_repr_map_Some [OF assms] by metis
  then obtain l' where l': "and_then (lru_deleteNode (Some a) l) (lru_addNode (Some a)) = Inr l'"
    "lru_repr l' (us @ vs @ [(a, key, v)])" "lru_Capacity l' = lru_Capacity l"
    "lru_entry (lru_Heap l') a = Some (key, v)"
    using lru_move_to_back assms by metis
  have "distinct (map fst (map snd es))" using assms by (simp add: lru_repr_def)
  then have "map_of (map snd es) key = Some v"
    by (simp only: map_of_eq_Some_iff) (simp add: es)
  moreover have "filter (\<lambda>e. fst e \<noteq> key) (map snd es) = map snd (us @ vs)"
    using lru_repr_filter assms unfolding es by metis
  ultimately have spec: "lru_spec_get key (map snd es) = (v, map snd (us @ vs @ [(a, key, v)]))"
    by (simp add: lru_spec_get_def)
  obtain l1 where l1: "lru_deleteNode (Some a) l = Inr l1" "lru_addNode (Some a) l1 = Inr l'"
    using l'(1) by (cases "lru_deleteNode (Some a) l") simp_all
  obtain n where "fmlookup (lru_Heap l') a = Some n" "nd_val n = v"
    using l'(4) by (auto simp: lru_entry_def)
  with Some l1 have "lru_get key l = Inr (v, l')"
    by (simp add: lru_get_def deref_def)
  then show ?thesis using spec l'(2,3) by (intro that [of l' "us @ vs @ [(a, key, v)]"]) simp_all
qed

lemma lru_setValue_ok:
  assumes "lru_repr l (us @ (a, k, v) # vs)"
  obtains l' where "lru_setValue (Some a) w l = Inr l'" "lru_repr l' (us @ (a, k, w) # vs)"
    "lru_Capacity l' = lru_Capacity l"
proof -
  let ?h = "lru_Heap l"
  obtain n where n: "fmlookup ?h a = Some n" "nd_key n = k"
    using assms by (auto simp: lru_repr_def lru_entry_def)
  let ?h' = "fmupd a (n\<lparr>nd_val := w\<rparr>) ?h"
  have links: "nx ?h' b = nx ?h b \<and> pv ?h' b = pv ?h b" for b
    using n by (auto simp: nx_def pv_def)
  have d: "dll ?h (lru_Head l # map fst (us @ (a, k, v) # vs) @ [lru_Tail l])"
    using assms by (simp add: lru_repr_def)
  have "dll ?h' (lru_Head l # map fst (us @ (a, k, v) # vs) @ [lru_Tail l])"
    by (rule dll_frame [OF d], rule links) auto
  moreover have "(b, x) \<in> set us \<union> set vs \<Longrightarrow> b \<noteq> a" for b x
    using lru_reprD(2) [OF assms] by (force simp: image_iff)
  moreover have "lru_entry ?h' b = (if b = a then Some (k, w) else lru_entry ?h b)" for b
    using n by (simp add: lru_entry_def)
  moreover have "fmdom ?h' = fmdom ?h" using n by (simp add: finsert_absorb fmdomI)
  ultimately have "lru_repr (l\<lparr>lru_Heap := ?h'\<rparr>) (us @ (a, k, w) # vs)"
    using lru_reprD(3-) [OF assms] by (intro lru_reprI) (auto simp del: fmdom_fmupd)
  then show ?thesis
    using n by (intro that [of "l\<lparr>lru_Heap := ?h'\<rparr>"]) (simp_all add: lru_setValue_def deref_def)
qed

lemma lru_evict_ok:
  assumes "lru_repr l ((a, k, v) # es)"
  obtains l' where "lru_evict l = Inr l'" "lru_repr l' es" "lru_Capacity l' = lru_Capacity l"
proof -
  let ?h = "lru_Heap l" and ?hd = "lru_Head l" and ?t = "lru_Tail l"
  have d: "dll ?h ([?hd] @ a # (map fst es @ [?t]))" using assms by (simp add: lru_repr_def)
  obtain h1 where h1: "unlink ?h (Some a) = Inr h1" "dll h1 ([?hd] @ map fst es @ [?t])"
    "payload h1 = payload ?h" "fmdom h1 = fmdom ?h"
    by (rule dll_unlink_mid [OF d]) simp_all
  obtain hn where hn: "fmlookup ?h ?hd = Some hn" "nd_next hn = Some a"
    using d nx_Some [of ?h ?hd a] by (auto simp: dll_def)
  obtain n where n: "fmlookup ?h a = Some n" "nd_key n = k"
    using assms by (auto simp: lru_repr_def lru_entry_def)
  let ?l' = "l\<lparr>lru_Heap := h1, lru_Map := fmdrop k (lru_Map l), lru_Size := lru_Size l - 1\<rparr>"
  have "lru_evict l = Inr ?l'"
    using hn n h1(1) by (simp add: lru_evict_def deref_def lru_deleteNode_def)
  moreover have "map_of (map (\<lambda>(a, k, v). (k, a)) es) k = None"
    using assms by (auto simp: lru_repr_def map_of_eq_None_iff image_iff)
  then have "lru_repr ?l' es"
    using assms h1 lru_entry_payload [OF h1(3)] by (auto simp: lru_repr_def fun_eq_iff)
  ultimately show ?thesis by (intro that [of ?l']) simp_all
qed


lemma lru_insert_ok:
  fixes key "value" :: int and l :: lru_cache
  assumes "lru_repr l es" "key \<notin> (fst \<circ> snd) ` set es"
  defines "a \<equiv> lru_Fresh l"
  defines "n \<equiv> \<lparr>nd_next = None, nd_prev = None, nd_key = key, nd_val = value\<rparr>"
  defines "l2 \<equiv> l\<lparr>lru_Heap := fmupd a n (lru_Heap l), lru_Fresh := a + 1\<rparr>"
  obtains l3 where "lru_addNode (Some a) l2 = Inr l3" "lru_Capacity l3 = lru_Capacity l"
    "lru_repr (l3\<lparr>lru_Map := fmupd key a (lru_Map l3), lru_Size := lru_Size l3 + 1\<rparr>)
       (es @ [(a, key, value)])"
proof -
  let ?h = "lru_Heap l" and ?hd = "lru_Head l" and ?t = "lru_Tail l"
  let ?as = "?hd # map fst es @ [?t]"
  have d: "dll ?h ?as" and below: "\<forall>b \<in> fset (fmdom ?h). b < a"
    using assms(1) by (simp_all add: lru_repr_def a_def)
  have fresh: "b \<in> set ?as \<Longrightarrow> b < a" for b using d below by (auto simp: dll_def)
  have "dll (lru_Heap l2) ?as"
    using fresh by (intro dll_frame [OF d]) (auto simp: l2_def nx_def pv_def)
  moreover have "a \<notin> set ?as" using fresh by blast
  ultimately obtain h3 where h3: "lru_addNode (Some a) l2 = Inr (l2\<lparr>lru_Heap := h3\<rparr>)"
    "dll h3 (?hd # map fst es @ [a, ?t])" "payload h3 = payload (lru_Heap l2)"
    "fmdom h3 = fmdom (lru_Heap l2)"
    using lru_addNode_ok [of l2 "map fst es" a] by (auto simp: l2_def)
  let ?l4 = "l2\<lparr>lru_Heap := h3, lru_Map := fmupd key a (lru_Map l), lru_Size := lru_Size l + 1\<rparr>"
  have old: "(b, x) \<in> set es \<Longrightarrow> b \<noteq> a" for b x
    using fresh [of b] by (force simp: image_iff)
  have "map_of (map (\<lambda>(a, k, v). (k, a)) es) key = None"
    using assms(2) by (auto simp: map_of_eq_None_iff image_iff)
  then have m: "map_of (map (\<lambda>(a, k, v). (k, a)) (es @ [(a, key, value)])) =
      (map_of (map (\<lambda>(a, k, v). (k, a)) es))(key \<mapsto> a)"
    by (auto simp: map_add_def split: option.splits)
  have new: "lru_entry h3 b = (if b = a then Some (key, value) else lru_entry ?h b)" for b
    using lru_entry_payload [OF h3(3)] by (simp add: lru_entry_def l2_def n_def)
  have "lru_repr ?l4 (es @ [(a, key, value)])"
  proof (rule lru_reprI)
    show "dll (lru_Heap ?l4) (lru_Head ?l4 # map fst (es @ [(a, key, value)]) @ [lru_Tail ?l4])"
      using h3(2) by (simp add: l2_def)
    show "fmlookup (lru_Map ?l4) = map_of (map (\<lambda>(a, k, v). (k, a)) (es @ [(a, key, value)]))"
      using lru_reprD(5) [OF assms(1)] unfolding m by (simp add: l2_def fun_eq_iff)
    show "\<forall>b \<in> fset (fmdom (lru_Heap ?l4)). b < lru_Fresh ?l4"
      using h3(4) below by (auto simp: l2_def less_Suc_eq)
    show "(b, k, v) \<in> set (es @ [(a, key, value)]) \<Longrightarrow> lru_entry (lru_Heap ?l4) b = Some (k, v)" for b k v
      using lru_reprD(3) [OF assms(1)] new by (auto simp: l2_def dest: old)
  qed (use assms(1,2) in \<open>auto simp: lru_repr_def l2_def\<close>)
  then show ?thesis
    using h3(1) by (intro that [of "l2\<lparr>lru_Heap := h3\<rparr>"]) (simp_all add: l2_def)
qed

lemma lru_put_ok:
  assumes "lru_repr l es" "lru_Capacity l = cap" "cap \<noteq> 0"
  obtains l' es' where "lru_put key value l = Inr l'" "lru_repr l' es'"
    "map snd es' = lru_spec_put cap key value (map snd es)" "lru_Capacity l' = lru_Capacity l"
proof (cases "fmlookup (lru_Map l) key")
  case (Some a)
  then obtain us v vs where es: "es = us @ (a, key, v) # vs"
    using lru_repr_map_Some [OF assms(1)] by metis
  obtain l1 where l1: "lru_setValue (Some a) value l = Inr l1" "lru_repr l1 (us @ (a, key, value) # vs)"
    "lru_Capacity l1 = lru_Capacity l"
    using lru_setValue_ok assms(1) unfolding es by metis
  obtain l' where l': "and_then (lru_deleteNode (Some a) l1) (lru_addNode (Some a)) = Inr l'"
    "lru_repr l' (us @ vs @ [(a, key, value)])" "lru_Capacity l' = lru_Capacity l1"
    using lru_move_to_back [OF l1(2)] by metis
  have "filter (\<lambda>e. fst e \<noteq> key) (map snd es) = map snd (us @ vs)"
    using lru_repr_filter assms(1) unfolding es by metis
  then have "map snd (us @ vs @ [(a, key, value)]) = lru_spec_put cap key value (map snd es)"
    by (simp add: lru_spec_put_def es)
  with Some l1 l' show ?thesis
    by (intro that [of l' "us @ vs @ [(a, key, value)]"]) (simp_all add: lru_put_def)
next
  case None
  then have notin: "key \<notin> (fst \<circ> snd) ` set es" "key \<notin> fst ` set (map snd es)"
    using lru_repr_map_None [OF assms(1)] by (simp_all add: image_comp)
  have len: "lru_Size l = lru_Capacity l \<longleftrightarrow> int (length es) = cap"
    using assms(1,2) by (simp add: lru_repr_def)
  define es1 where "es1 = (if int (length es) = cap then tl es else es)"
  obtain l1 where l1: "(if lru_Size l = lru_Capacity l then lru_evict l else Inr l) = Inr l1"
    "lru_repr l1 es1" "lru_Capacity l1 = lru_Capacity l"
  proof (cases "int (length es) = cap")
    case True
    then obtain a k v es' where "es = (a, k, v) # es'" using assms(3) by (cases es) auto
    then show ?thesis
      using True that len assms(1) lru_evict_ok [of l a k v es'] by (auto simp: es1_def)
  qed (use that len assms(1) in \<open>auto simp: es1_def\<close>)
  have "set es1 \<subseteq> set es" by (cases es) (auto simp: es1_def)
  then have "key \<notin> (fst \<circ> snd) ` set es1" using notin(1) by blast
  then obtain l3 where l3: "lru_addNode (Some (lru_Fresh l1)) (l1\<lparr>lru_Heap := fmupd (lru_Fresh l1)
      \<lparr>nd_next = None, nd_prev = None, nd_key = key, nd_val = value\<rparr> (lru_Heap l1),
      lru_Fresh := lru_Fresh l1 + 1\<rparr>) = Inr l3" "lru_Capacity l3 = lru_Capacity l1"
    "lru_repr (l3\<lparr>lru_Map := fmupd key (lru_Fresh l1) (lru_Map l3), lru_Size := lru_Size l3 + 1\<rparr>)
       (es1 @ [(lru_Fresh l1, key, value)])"
    using lru_insert_ok [OF l1(2)] by metis
  have "map snd (es1 @ [(lru_Fresh l1, key, value)]) = lru_spec_put cap key value (map snd es)"
    using notin(2) by (simp add: lru_spec_put_def es1_def map_tl)
  with None l1 l3 show ?thesis
    by (intro that [OF _ l3(3)]) (simp_all add: lru_put_def Let_def)
qed


subsection \<open>Runs\<close>

datatype lru_op = LruGet int | LruPut int int

text \<open>A client's calls one after the other; the results of the \<open>get\<close>s are collected.\<close>

fun lru_run :: "lru_op list \<Rightarrow> lru_cache \<Rightarrow> (int list \<times> lru_cache) outcome" where
  "lru_run [] l = Inr ([], l)"
| "lru_run (LruGet k # ops) l = and_then (lru_get k l) (\<lambda>(v, l1).
     and_then (lru_run ops l1) (\<lambda>(vs, l2). Inr (v # vs, l2)))"
| "lru_run (LruPut k v # ops) l = and_then (lru_put k v l) (lru_run ops)"

fun lru_spec_run :: "int \<Rightarrow> lru_op list \<Rightarrow> (int \<times> int) list \<Rightarrow> int list \<times> (int \<times> int) list" where
  "lru_spec_run cap [] xs = ([], xs)"
| "lru_spec_run cap (LruGet k # ops) xs =
     (let (v, xs1) = lru_spec_get k xs; (vs, xs2) = lru_spec_run cap ops xs1 in (v # vs, xs2))"
| "lru_spec_run cap (LruPut k v # ops) xs = lru_spec_run cap ops (lru_spec_put cap k v xs)"

lemma lru_repr_New: "lru_repr (NewLRUCache capacity) []"
  by (simp add: lru_repr_def NewLRUCache_def dll_def nx_def pv_def fun_eq_iff)

lemma lru_run_ok:
  assumes "lru_repr l es" "lru_Capacity l = cap" "cap \<noteq> 0"
  shows "\<exists>l' es'. lru_run ops l = Inr (fst (lru_spec_run cap ops (map snd es)), l') \<and>
     lru_repr l' es' \<and> map snd es' = snd (lru_spec_run cap ops (map snd es))"
  using assms(1,2)
proof (induction ops arbitrary: l es)
  case Nil
  then show ?case by auto
next
  case (Cons oper ops)
  show ?case
  proof (cases oper)
    case (LruGet k)
    obtain l1 es1 where 1: "lru_get k l = Inr (fst (lru_spec_get k (map snd es)), l1)"
      "lru_repr l1 es1" "map snd es1 = snd (lru_spec_get k (map snd es))"
      "lru_Capacity l1 = lru_Capacity l"
      using lru_get_ok [OF Cons.prems(1)] by metis
    with Cons.IH [OF 1(2)] Cons.prems(2) show ?thesis
      by (force simp: LruGet split: prod.splits)
  next
    case (LruPut k v)
    obtain l1 es1 where 1: "lru_put k v l = Inr l1" "lru_repr l1 es1"
      "map snd es1 = lru_spec_put cap k v (map snd es)" "lru_Capacity l1 = lru_Capacity l"
      using lru_put_ok [OF Cons.prems assms(3)] by metis
    with Cons.IH [OF 1(2)] Cons.prems(2) show ?thesis
      by (simp add: LruPut)
  qed
qed

text \<open>
  C1. For every capacity but 0, every sequence of \<open>get\<close> and \<open>put\<close> calls on a new cache runs to
  its end without following a nil pointer, returns what the list model returns, and leaves the
  linked list, the map and the size field in agreement with the list model. (With a negative
  capacity the code never evicts, and neither does the list model.)
\<close>

theorem lru_run_refines:
  assumes "cap \<noteq> 0"
  shows "\<exists>l es. lru_run ops (NewLRUCache cap) = Inr (fst (lru_spec_run cap ops []), l) \<and>
     lru_repr l es \<and> map snd es = snd (lru_spec_run cap ops [])"
  using lru_run_ok [OF lru_repr_New _ assms, of cap ops] by (simp add: NewLRUCache_def)

theorem lru_run_refines_witness:
  "\<exists>l es. lru_run [LruPut 1 100, LruPut 2 200, LruGet 1, LruPut 3 300, LruGet 2, LruGet 1]
       (NewLRUCache 2) = Inr ([100, -1, 100], l) \<and> lru_repr l es \<and> map snd es = [(3, 300), (1, 100)]"
  using lru_run_refines [of 2 "[LruPut 1 100, LruPut 2 200, LruGet 1, LruPut 3 300, LruGet 2, LruGet 1]"]
  by (simp add: lru_spec_get_def lru_spec_put_def)

subsection \<open>Which keys stay\<close>

text \<open>
  \<open>lru_recent cap acc\<close> are the last \<open>cap\<close> distinct keys of the access history \<open>acc\<close>, in the order
  of their last access. \<open>lru_accesses\<close> is the history of a run: every \<open>put\<close>, and every \<open>get\<close> of
  a key that is one of the recent ones at that moment.
\<close>

definition lru_recent :: "nat \<Rightarrow> int list \<Rightarrow> int list" where
  "lru_recent cap acc = (let ds = remdups acc in drop (length ds - cap) ds)"

fun lru_accesses :: "nat \<Rightarrow> lru_op list \<Rightarrow> int list \<Rightarrow> int list" where
  "lru_accesses cap [] acc = acc"
| "lru_accesses cap (LruGet k # ops) acc =
     lru_accesses cap ops (if k \<in> set (lru_recent cap acc) then acc @ [k] else acc)"
| "lru_accesses cap (LruPut k v # ops) acc = lru_accesses cap ops (acc @ [k])"

lemma remdups_snoc: "remdups (xs @ [k]) = filter (\<lambda>x. x \<noteq> k) (remdups xs) @ [k]"
  by (induction xs) auto

lemma filter_neq_drop:
  assumes "distinct ds" "k \<in> set (drop n ds)"
  shows "drop n (filter (\<lambda>x. x \<noteq> k) ds @ [k]) = filter (\<lambda>x. x \<noteq> k) (drop n ds) @ [k]"
    "length (filter (\<lambda>x. x \<noteq> k) ds) = length ds - 1"
proof -
  obtain us vs where ds: "ds = us @ k # vs" using assms(2) by (meson in_set_dropD split_list)
  have k: "k \<notin> set us" "k \<notin> set vs" using assms(1) ds by auto
  then have f: "filter (\<lambda>x. x \<noteq> k) us = us" "filter (\<lambda>x. x \<noteq> k) vs = vs"
    by (auto simp: filter_id_conv)
  have "n \<le> length us"
  proof (rule ccontr)
    assume "\<not> n \<le> length us"
    then have "drop n ds = drop (n - length us - 1) vs"
      by (simp add: ds) (metis Suc_diff_Suc drop_Suc_Cons not_le)
    with assms(2) k show False by (auto dest: in_set_dropD)
  qed
  moreover from k have "filter (\<lambda>x. x \<noteq> k) (drop n us) = drop n us"
    by (auto simp: filter_id_conv dest: in_set_dropD)
  ultimately show "drop n (filter (\<lambda>x. x \<noteq> k) ds @ [k]) = filter (\<lambda>x. x \<noteq> k) (drop n ds) @ [k]"
    using f by (simp add: ds)
  show "length (filter (\<lambda>x. x \<noteq> k) ds) = length ds - 1"
    using f by (simp add: ds)
qed

lemma lru_recent_snoc:
  assumes "0 < cap"
  shows "lru_recent cap (acc @ [k]) =
    (if k \<in> set (lru_recent cap acc) then filter (\<lambda>x. x \<noteq> k) (lru_recent cap acc)
     else if length (lru_recent cap acc) = cap then tl (lru_recent cap acc)
     else lru_recent cap acc) @ [k]"
proof (cases "k \<in> set (lru_recent cap acc)")
  case True
  have "distinct (remdups acc)" by simp
  note f = filter_neq_drop [OF this, of k "length (remdups acc) - cap"]
  have "remdups acc \<noteq> []" using True by (auto simp: lru_recent_def Let_def)
  then show ?thesis
    using True f by (simp add: lru_recent_def Let_def remdups_snoc ac_simps)
next
  case False
  define rec where "rec = lru_recent cap acc"
  define P where "P = filter (\<lambda>x. x \<noteq> k) (take (length (remdups acc) - cap) (remdups acc))"
  have "filter (\<lambda>x. x \<noteq> k) rec = rec" using False by (auto simp: rec_def filter_id_conv)
  then have "filter (\<lambda>x. x \<noteq> k) (remdups acc) = P @ rec"
    unfolding P_def rec_def lru_recent_def Let_def by (metis append_take_drop_id filter_append)
  then have new: "lru_recent cap (acc @ [k]) = drop (length P + length rec + 1 - cap) (P @ rec @ [k])"
    by (simp add: lru_recent_def Let_def remdups_snoc ac_simps)
  show ?thesis
  proof (cases "cap \<le> length (remdups acc)")
    case True
    then have "length rec = cap" by (simp add: rec_def lru_recent_def Let_def)
    then show ?thesis using new False assms by (cases rec) (simp_all add: rec_def [symmetric])
  next
    case short: False
    then have "P = []" "length rec < cap" by (simp_all add: P_def rec_def lru_recent_def Let_def)
    then show ?thesis using new False by (simp add: rec_def [symmetric])
  qed
qed

lemma lru_spec_put_keys:
  "map fst (lru_spec_put cap k v xs) =
    (if k \<in> set (map fst xs) then filter (\<lambda>x. x \<noteq> k) (map fst xs)
     else if int (length (map fst xs)) = cap then tl (map fst xs) else map fst xs) @ [k]"
  by (simp add: lru_spec_put_def filter_map comp_def map_tl)

lemma lru_spec_get_keys:
  "map fst (snd (lru_spec_get k xs)) =
    (if k \<in> set (map fst xs) then filter (\<lambda>x. x \<noteq> k) (map fst xs) @ [k] else map fst xs)"
proof (cases "map_of xs k")
  case None
  then have "k \<notin> set (map fst xs)" by (simp add: map_of_eq_None_iff)
  with None show ?thesis by (simp add: lru_spec_get_def)
next
  case (Some v)
  then have "k \<in> set (map fst xs)" by (force dest: map_of_SomeD)
  with Some show ?thesis by (simp add: lru_spec_get_def filter_map comp_def)
qed

lemma lru_spec_run_keys:
  assumes "0 < cap" "map fst xs = lru_recent cap acc"
  shows "map fst (snd (lru_spec_run (int cap) ops xs)) = lru_recent cap (lru_accesses cap ops acc)"
  using assms(2)
proof (induction ops arbitrary: xs acc)
  case (Cons oper ops)
  show ?case
  proof (cases oper)
    case (LruGet k)
    have "map fst (snd (lru_spec_get k xs)) =
        lru_recent cap (if k \<in> set (lru_recent cap acc) then acc @ [k] else acc)"
      unfolding lru_spec_get_keys Cons.prems by (simp add: lru_recent_snoc [OF assms(1)])
    from Cons.IH [OF this] show ?thesis 
      by (simp add: LruGet case_prod_beta Let_def split del: if_split)
  next
    case (LruPut k v)
    have "map fst (lru_spec_put (int cap) k v xs) = lru_recent cap (acc @ [k])"
      unfolding lru_spec_put_keys Cons.prems lru_recent_snoc [OF assms(1)] by simp
    from Cons.IH [OF this] show ?thesis by (simp add: LruPut)
  qed
qed simp

text \<open>
  After any run on a new cache of positive capacity the cached keys, from the least to the
  most recently used, are the last \<open>capacity\<close> distinct keys of the access history: eviction
  always removes the least recently used key, and never more entries than it must.
\<close>

theorem lru_keeps_most_recent:
  assumes "0 < cap"
  shows "\<exists>vs l es. lru_run ops (NewLRUCache (int cap)) = Inr (vs, l) \<and> lru_repr l es \<and>
     map (\<lambda>(a, k, v). k) es = lru_recent cap (lru_accesses cap ops [])"
proof -
  obtain l es where run: "lru_run ops (NewLRUCache (int cap)) = Inr (fst (lru_spec_run (int cap) ops []), l)"
    "lru_repr l es" "map snd es = snd (lru_spec_run (int cap) ops [])"
    using assms lru_run_ok [OF lru_repr_New, of "int cap" "int cap" ops] by (auto simp: NewLRUCache_def)
  have "map fst (map snd es) = lru_recent cap (lru_accesses cap ops [])"
    unfolding run(3) by (rule lru_spec_run_keys [OF assms]) (simp add: lru_recent_def)
  then have "map (\<lambda>(a, k, v). k) es = lru_recent cap (lru_accesses cap ops [])"
    by (simp add: comp_def case_prod_unfold)
  with run(1,2) show ?thesis by blast
qed

theorem lru_keeps_most_recent_witness:
  "\<exists>vs l es. lru_run [LruPut 1 10, LruPut 2 20, LruGet 1, LruPut 3 30, LruGet 2] (NewLRUCache 2) =
     Inr (vs, l) \<and> lru_repr l es \<and> map (\<lambda>(a, k, v). k) es = [1, 3]"
  using lru_keeps_most_recent [of 2 "[LruPut 1 10, LruPut 2 20, LruGet 1, LruPut 3 30, LruGet 2]"]
  by (simp add: lru_recent_def)

text \<open>A cache of capacity 0 panics on the first \<open>put\<close>: it evicts its own tail sentinel.\<close>

theorem lru_put_capacity_0: "lru_put k v (NewLRUCache 0) = Inl NilDereference"
  by (simp add: lru_put_def NewLRUCache_def lru_evict_def deref_def lru_deleteNode_def unlink_def
      set_next_def set_prev_def)

end
