(* ===== verification/Lfu_Cache.thy ===== *)
theory Lfu_Cache
  imports Dlist_Heap
begin

text \<open>
  \<open>02-LFU-Cache/main.go\<close>: the least-frequently-used cache. Its nodes are in the heap of
  \<open>Dlist_Heap\<close>; a map takes every frequency to a doubly-linked list between two sentinels, most
  recently used first, and \<open>MinFreq\<close> names the list from which the next victim comes. A
  \<open>DoublyLinkedList\<close> is reachable through its map entry only, so its record is stored there and
  written back after a change.

  The specification knows neither lists nor \<open>MinFreq\<close>: it is one list of entries in the order of
  their last use, and evicts the least recent one among those of the smallest frequency.
\<close>

record lfu_node = links +
  nd_Key :: int
  nd_Value :: int
  nd_Freq :: int

record dlist =
  dl_Size :: int
  dl_Head :: addr
  dl_Tail :: addr

type_synonym lfu_heap = "(addr, lfu_node) gomap"

record lfu_cache =
  lf_Capacity :: int
  lf_Size :: int
  lf_MinFreq :: int
  lf_KeyToNodes :: "(int, addr) gomap"
  lf_FreqToList :: "(int, dlist) gomap"
  lf_Heap :: lfu_heap
  lf_Fresh :: addr

text \<open>The two new sentinels take the next unused addresses.\<close>

definition NewDoublyLinkedList :: "addr \<Rightarrow> lfu_heap \<Rightarrow> dlist \<times> lfu_heap" where
  "NewDoublyLinkedList a h =
     (\<lparr>dl_Size = 0, dl_Head = a, dl_Tail = a + 1\<rparr>,
      fmupd (a + 1) \<lparr>nd_next = None, nd_prev = Some a, nd_Key = 0, nd_Value = 0, nd_Freq = 0\<rparr>
        (fmupd a \<lparr>nd_next = Some (a + 1), nd_prev = None, nd_Key = 0, nd_Value = 0, nd_Freq = 0\<rparr> h))"

definition dl_addNode :: "addr option \<Rightarrow> dlist \<Rightarrow> lfu_heap \<Rightarrow> (dlist \<times> lfu_heap) outcome" where
  "dl_addNode node dl h = (let head = Some (dl_Head dl) in
     and_then (set_prev h node head) (\<lambda>h1.
     and_then (deref h1 head) (\<lambda>hd1.
     and_then (set_next h1 node (nd_next hd1)) (\<lambda>h2.
     and_then (deref h2 head) (\<lambda>hd2.
     and_then (set_prev h2 (nd_next hd2) node) (\<lambda>h3.
     and_then (set_next h3 head node) (\<lambda>h4.
     Inr (dl\<lparr>dl_Size := dl_Size dl + 1\<rparr>, h4))))))))"

definition dl_remove :: "addr option \<Rightarrow> dlist \<Rightarrow> lfu_heap \<Rightarrow> (dlist \<times> lfu_heap) outcome" where
  "dl_remove node dl h = and_then (unlink h node) (\<lambda>h1. Inr (dl\<lparr>dl_Size := dl_Size dl - 1\<rparr>, h1))"

definition dl_removeLast :: "dlist \<Rightarrow> lfu_heap \<Rightarrow> (addr option \<times> dlist \<times> lfu_heap) outcome" where
  "dl_removeLast dl h =
     (if dl_Size dl = 0 then Inr (None, dl, h)
      else and_then (deref h (Some (dl_Tail dl))) (\<lambda>tl.
           and_then (dl_remove (nd_prev tl) dl h) (\<lambda>(dl1, h1). Inr (nd_prev tl, dl1, h1))))"

definition NewLFUCache :: "int \<Rightarrow> lfu_cache" where
  "NewLFUCache capacity =
     \<lparr>lf_Capacity = capacity, lf_Size = 0, lf_MinFreq = 0, lf_KeyToNodes = fmempty,
      lf_FreqToList = fmempty, lf_Heap = fmempty, lf_Fresh = 0\<rparr>"

text \<open>
  \<open>list, ok := lfu.FreqToList[f]; if !ok { ... }; list.addNode(node)\<close>, the last lines of
  \<open>update\<close> and of \<open>put\<close>.
\<close>

definition lf_addTo :: "int \<Rightarrow> addr \<Rightarrow> lfu_cache \<Rightarrow> lfu_cache outcome" where
  "lf_addTo f node l =
     (let (dl, l1) = (case fmlookup (lf_FreqToList l) f of
          Some dl \<Rightarrow> (dl, l)
        | None \<Rightarrow> (let (dl, h) = NewDoublyLinkedList (lf_Fresh l) (lf_Heap l)
                 in (dl, l\<lparr>lf_Heap := h, lf_Fresh := lf_Fresh l + 2,
                       lf_FreqToList := fmupd f dl (lf_FreqToList l)\<rparr>)))
      in and_then (dl_addNode (Some node) dl (lf_Heap l1)) (\<lambda>(dl, h).
         Inr (l1\<lparr>lf_Heap := h, lf_FreqToList := fmupd f dl (lf_FreqToList l1)\<rparr>)))"

definition lf_update :: "addr \<Rightarrow> lfu_cache \<Rightarrow> lfu_cache outcome" where
  "lf_update node l =
     and_then (deref (lf_Heap l) (Some node)) (\<lambda>n. let freq = nd_Freq n in
     case fmlookup (lf_FreqToList l) freq of
       None \<Rightarrow> Inl NilDereference
     | Some dl \<Rightarrow>
         and_then (dl_remove (Some node) dl (lf_Heap l)) (\<lambda>(dl, h).
         let l1 = l\<lparr>lf_Heap := h, lf_FreqToList := fmupd freq dl (lf_FreqToList l)\<rparr>;
             l2 = (if freq = lf_MinFreq l1 \<and> dl_Size dl = 0
                   then l1\<lparr>lf_MinFreq := lf_MinFreq l1 + 1\<rparr> else l1)
         in and_then (deref (lf_Heap l2) (Some node)) (\<lambda>n1.
            let n2 = n1\<lparr>nd_Freq := nd_Freq n1 + 1\<rparr>
            in lf_addTo (nd_Freq n2) node (l2\<lparr>lf_Heap := fmupd node n2 (lf_Heap l2)\<rparr>))))"

definition lf_get :: "int \<Rightarrow> lfu_cache \<Rightarrow> (int \<times> lfu_cache) outcome" where
  "lf_get key l = (case fmlookup (lf_KeyToNodes l) key of
       None \<Rightarrow> Inr (-1, l)
     | Some node \<Rightarrow>
         and_then (lf_update node l) (\<lambda>l1.
         and_then (deref (lf_Heap l1) (Some node)) (\<lambda>n. Inr (nd_Value n, l1))))"

text \<open>The eviction in \<open>put\<close>; a missing list or an empty one is a nil dereference.\<close>

definition lf_evict :: "lfu_cache \<Rightarrow> lfu_cache outcome" where
  "lf_evict l = (case fmlookup (lf_FreqToList l) (lf_MinFreq l) of
       None \<Rightarrow> Inl NilDereference
     | Some dl \<Rightarrow>
         and_then (dl_removeLast dl (lf_Heap l)) (\<lambda>(removed, dl, h).
         and_then (deref h removed) (\<lambda>n.
         Inr (l\<lparr>lf_Heap := h, lf_FreqToList := fmupd (lf_MinFreq l) dl (lf_FreqToList l),
                lf_KeyToNodes := fmdrop (nd_Key n) (lf_KeyToNodes l), lf_Size := lf_Size l - 1\<rparr>))))"

definition lf_put :: "int \<Rightarrow> int \<Rightarrow> lfu_cache \<Rightarrow> lfu_cache outcome" where
  "lf_put key value l =
     (if lf_Capacity l = 0 then Inr l
      else case fmlookup (lf_KeyToNodes l) key of
        Some node \<Rightarrow>
          and_then (deref (lf_Heap l) (Some node)) (\<lambda>n.
          lf_update node (l\<lparr>lf_Heap := fmupd node (n\<lparr>nd_Value := value\<rparr>) (lf_Heap l)\<rparr>))
      | None \<Rightarrow>
          and_then (if lf_Size l = lf_Capacity l then lf_evict l else Inr l) (\<lambda>l1.
          let a = lf_Fresh l1;
              n = \<lparr>nd_next = None, nd_prev = None, nd_Key = key, nd_Value = value, nd_Freq = 1\<rparr>
          in and_then (lf_addTo 1 a (l1\<lparr>lf_Heap := fmupd a n (lf_Heap l1), lf_Fresh := a + 1\<rparr>)) (\<lambda>l2.
             Inr (l2\<lparr>lf_KeyToNodes := fmupd key a (lf_KeyToNodes l2), lf_MinFreq := 1,
                    lf_Size := lf_Size l2 + 1\<rparr>))))"

subsection \<open>The cache as a list of entries in the order of their last use\<close>

text \<open>An entry is a key, its value and its frequency; the most recently used comes first.\<close>

definition lfu_freq :: "int \<times> int \<times> int \<Rightarrow> int" where
  "lfu_freq e = snd (snd e)"

fun drop_last :: "('a \<Rightarrow> bool) \<Rightarrow> 'a list \<Rightarrow> 'a list" where
  "drop_last P [] = []"
| "drop_last P (x # xs) = (if P x \<and> \<not> list_ex P xs then xs else x # drop_last P xs)"

definition lfu_spec_evict :: "(int \<times> int \<times> int) list \<Rightarrow> (int \<times> int \<times> int) list" where
  "lfu_spec_evict xs = drop_last (\<lambda>e. lfu_freq e = min_list (map lfu_freq xs)) xs"

definition lfu_spec_get :: "int \<Rightarrow> (int \<times> int \<times> int) list \<Rightarrow> int \<times> (int \<times> int \<times> int) list" where
  "lfu_spec_get k xs = (case map_of xs k of None \<Rightarrow> (-1, xs)
     | Some (v, f) \<Rightarrow> (v, (k, v, f + 1) # filter (\<lambda>e. fst e \<noteq> k) xs))"

definition lfu_spec_put :: "int \<Rightarrow> int \<Rightarrow> int \<Rightarrow> (int \<times> int \<times> int) list \<Rightarrow> (int \<times> int \<times> int) list" where
  "lfu_spec_put cap k v xs = (if cap = 0 then xs else case map_of xs k of
       Some (w, f) \<Rightarrow> (k, v, f + 1) # filter (\<lambda>e. fst e \<noteq> k) xs
     | None \<Rightarrow> (k, v, 1) # (if int (length xs) = cap then lfu_spec_evict xs else xs))"

subsection \<open>The lists of all frequencies\<close>

definition dl_addrs :: "dlist \<Rightarrow> addr list \<Rightarrow> addr list" where
  "dl_addrs d as = dl_Head d # as @ [dl_Tail d]"

text \<open>\<open>bs f\<close> are the nodes of frequency \<open>f\<close>. The lists share no address.\<close>

definition buckets :: "lfu_heap \<Rightarrow> (int, dlist) gomap \<Rightarrow> (int \<Rightarrow> addr list) \<Rightarrow> bool" where
  "buckets h m bs \<longleftrightarrow>
     (\<forall>f d. fmlookup m f = Some d \<longrightarrow> dll h (dl_addrs d (bs f)) \<and> dl_Size d = int (length (bs f))) \<and>
     (\<forall>f g d e. fmlookup m f = Some d \<longrightarrow> fmlookup m g = Some e \<longrightarrow> f \<noteq> g \<longrightarrow>
        set (dl_addrs d (bs f)) \<inter> set (dl_addrs e (bs g)) = {}) \<and>
     (\<forall>f. fmlookup m f = None \<longrightarrow> bs f = [])"

definition unlisted :: "addr \<Rightarrow> (int, dlist) gomap \<Rightarrow> (int \<Rightarrow> addr list) \<Rightarrow> bool" where
  "unlisted a m bs \<longleftrightarrow> (\<forall>f d. fmlookup m f = Some d \<longrightarrow> a \<notin> set (dl_addrs d (bs f)))"

lemma bucketsD:
  assumes "buckets h m bs" "fmlookup m f = Some d"
  shows "dll h (dl_addrs d (bs f))" "dl_Size d = int (length (bs f))"
    and "fmlookup m g = Some e \<Longrightarrow> f \<noteq> g \<Longrightarrow> set (dl_addrs d (bs f)) \<inter> set (dl_addrs e (bs g)) = {}"
  using assms unfolding buckets_def by blast+

lemma buckets_None: "buckets h m bs \<Longrightarrow> fmlookup m f = None \<Longrightarrow> bs f = []"
  by (simp add: buckets_def)

lemma buckets_frame:
  assumes "buckets h m bs" "nx h' = nx h" "pv h' = pv h" "fset (fmdom h) \<subseteq> fset (fmdom h')"
  shows "buckets h' m bs"
  using assms dll_frame [of h _ h'] unfolding buckets_def by metis

text \<open>
  A change of the list of one frequency whose addresses stay clear of the others, on a heap where
  the other lists are as before.
\<close>

lemma buckets_change:
  assumes b: "buckets h m bs"
    and d': "dll h' (dl_addrs d' as)" "dl_Size d' = int (length as)"
    and clear: "\<And>g e. fmlookup m g = Some e \<Longrightarrow> g \<noteq> f \<Longrightarrow>
      set (dl_addrs d' as) \<inter> set (dl_addrs e (bs g)) = {}"
    and same: "\<And>x. x \<notin> set (dl_addrs d' as) \<Longrightarrow> x |\<in>| fmdom h \<Longrightarrow> nx h' x = nx h x \<and> pv h' x = pv h x"
    and dom: "fset (fmdom h) \<subseteq> fset (fmdom h')"
  shows "buckets h' (fmupd f d' m) (bs(f := as))"
proof -
  have other: "dll h' (dl_addrs e (bs g))" if "fmlookup m g = Some e" "g \<noteq> f" for g e
  proof (rule dll_frame [OF bucketsD(1) [OF b that(1)] _ dom])
    fix x
    assume x: "x \<in> set (dl_addrs e (bs g))"
    then have "x |\<in>| fmdom h" using bucketsD(1) [OF b that(1)] by (auto simp: dll_def)
    then show "nx h' x = nx h x \<and> pv h' x = pv h x" using x clear [OF that] same by blast
  qed
  show ?thesis
    unfolding buckets_def
  proof (intro conjI allI impI)
    fix g e
    assume "fmlookup (fmupd f d' m) g = Some e"
    then show "dll h' (dl_addrs e ((bs(f := as)) g))" "dl_Size e = int (length ((bs(f := as)) g))"
      using d' other bucketsD(2) [OF b] by (auto split: if_splits)
  next
    fix g k e e'
    assume "fmlookup (fmupd f d' m) g = Some e" "fmlookup (fmupd f d' m) k = Some e'" "g \<noteq> k"
    then show "set (dl_addrs e ((bs(f := as)) g)) \<inter> set (dl_addrs e' ((bs(f := as)) k)) = {}"
      using clear [of g e] clear [of k e'] bucketsD(3) [OF b, of g e k e'] by (auto split: if_splits)
  next
    fix g
    assume "fmlookup (fmupd f d' m) g = None"
    then show "(bs(f := as)) g = []" using buckets_None [OF b] by (auto split: if_splits)
  qed
qed

lemma buckets_remove:
  assumes b: "buckets h m bs" and m: "fmlookup m f = Some d" and bs: "bs f = us @ a # vs"
  obtains h' where "dl_remove (Some a) d h = Inr (d\<lparr>dl_Size := dl_Size d - 1\<rparr>, h')"
    "buckets h' (fmupd f (d\<lparr>dl_Size := dl_Size d - 1\<rparr>) m) (bs(f := us @ vs))"
    "unlisted a (fmupd f (d\<lparr>dl_Size := dl_Size d - 1\<rparr>) m) (bs(f := us @ vs))"
    "payload h' = payload h" "fmdom h' = fmdom h"
proof -
  let ?d = "d\<lparr>dl_Size := dl_Size d - 1\<rparr>"
  have d: "dll h ((dl_Head d # us) @ a # (vs @ [dl_Tail d]))"
    using bucketsD(1) [OF b m] by (simp add: dl_addrs_def bs)
  obtain h' where h': "unlink h (Some a) = Inr h'" "dll h' ((dl_Head d # us) @ vs @ [dl_Tail d])"
    "nx h' = (nx h)(last (dl_Head d # us) := Some (hd (vs @ [dl_Tail d])))"
    "pv h' = (pv h)(hd (vs @ [dl_Tail d]) := Some (last (dl_Head d # us)))"
    "payload h' = payload h" "fmdom h' = fmdom h"
    by (rule dll_unlink_mid [OF d]) simp_all
  have ends: "last (dl_Head d # us) \<in> set (dl_addrs ?d (us @ vs))"
    "hd (vs @ [dl_Tail d]) \<in> set (dl_addrs ?d (us @ vs))"
    by (auto simp: dl_addrs_def hd_append)
  have sub: "set (dl_addrs ?d (us @ vs)) \<subseteq> set (dl_addrs d (bs f))"
    by (auto simp: dl_addrs_def bs)
  have "buckets h' (fmupd f ?d m) (bs(f := us @ vs))"
  proof (rule buckets_change [OF b])
    show "dll h' (dl_addrs ?d (us @ vs))" using h'(2) by (simp add: dl_addrs_def)
    show "dl_Size ?d = int (length (us @ vs))" using bucketsD(2) [OF b m] by (simp add: bs)
    show "set (dl_addrs ?d (us @ vs)) \<inter> set (dl_addrs e (bs g)) = {}"
      if "fmlookup m g = Some e" "g \<noteq> f" for g e
      using bucketsD(3) [OF b m that(1)] that(2) sub by blast
    show "nx h' x = nx h x \<and> pv h' x = pv h x" if "x \<notin> set (dl_addrs ?d (us @ vs))" for x
      unfolding h'(3,4) using ends that by (metis fun_upd_apply)
  qed (simp add: h'(6))
  moreover have "unlisted a (fmupd f ?d m) (bs(f := us @ vs))"
  proof -
    have "a \<in> set (dl_addrs d (bs f))" by (simp add: dl_addrs_def bs)
    then have "a \<notin> set (dl_addrs e (bs g))" if "fmlookup m g = Some e" "g \<noteq> f" for g e
      using bucketsD(3) [OF b m that(1)] that(2) by blast
    moreover have "a \<notin> set (dl_addrs ?d (us @ vs))" using d by (auto simp: dll_def dl_addrs_def)
    ultimately show ?thesis by (auto simp: unlisted_def)
  qed
  ultimately show ?thesis using that [of h'] h' by (simp add: dl_remove_def)
qed

lemma dl_addNode_ok:
  assumes d: "dll h (dl_addrs d as)" and a: "a \<notin> set (dl_addrs d as)" "a |\<in>| fmdom h"
  obtains h' where "dl_addNode (Some a) d h = Inr (d\<lparr>dl_Size := dl_Size d + 1\<rparr>, h')"
    "dll h' (dl_addrs d (a # as))" "payload h' = payload h" "fmdom h' = fmdom h"
    "\<And>x. x \<notin> set (dl_addrs d (a # as)) \<Longrightarrow> nx h' x = nx h x \<and> pv h' x = pv h x"
proof -
  let ?hd = "dl_Head d"
  obtain q vs where q: "as @ [dl_Tail d] = q # vs" by (metis append_is_Nil_conv list.exhaust not_Cons_self2)
  have d: "dll h ([] @ [?hd, q] @ vs)" using d q by (simp add: dl_addrs_def)
  have a': "a \<notin> set ([] @ [?hd, q] @ vs)" using a(1) arg_cong [OF q, of set] by (auto simp: dl_addrs_def)
  have dom: "?hd |\<in>| fmdom h" "q |\<in>| fmdom h" "nx h ?hd = Some q" "?hd \<noteq> q" "a \<noteq> ?hd" "a \<noteq> q"
    using d a' by (auto simp: dll_def)
  obtain h1 where h1: "set_prev h (Some a) (Some ?hd) = Inr h1" "pv h1 = (pv h)(a := Some ?hd)"
    "nx h1 = nx h" "payload h1 = payload h" "fmdom h1 = fmdom h"
    by (rule set_prev_ok [OF a(2)])
  obtain n1 where n1: "fmlookup h1 ?hd = Some n1" "nd_next n1 = Some q"
    using dom(3) h1(3) nx_Some by metis
  obtain h2 where h2: "set_next h1 (Some a) (Some q) = Inr h2" "nx h2 = (nx h1)(a := Some q)"
    "pv h2 = pv h1" "payload h2 = payload h1" "fmdom h2 = fmdom h1"
    using set_next_ok [of a h1] a(2) h1(5) by metis
  have "nx h2 ?hd = Some q" using dom(3,5) h1(3) h2(2) by simp
  then obtain n2 where n2: "fmlookup h2 ?hd = Some n2" "nd_next n2 = Some q" using nx_Some by metis
  obtain h3 where h3: "set_prev h2 (Some q) (Some a) = Inr h3" "pv h3 = (pv h2)(q := Some a)"
    "nx h3 = nx h2" "payload h3 = payload h2" "fmdom h3 = fmdom h2"
    using set_prev_ok [of q h2] dom h1(5) h2(5) by metis
  obtain h4 where h4: "set_next h3 (Some ?hd) (Some a) = Inr h4" "nx h4 = (nx h3)(?hd := Some a)"
    "pv h4 = pv h3" "payload h4 = payload h3" "fmdom h4 = fmdom h3"
    using set_next_ok [of ?hd h3] dom h1(5) h2(5) h3(5) by metis
  have "dll h4 ([] @ [?hd, a, q] @ vs)"
    using a(2) h1 h2 h3 h4 by (intro dll_insert [OF d a']) simp_all
  then have d4: "dll h4 (dl_addrs d (a # as))" by (simp add: dl_addrs_def q)
  have "dl_addNode (Some a) d h = Inr (d\<lparr>dl_Size := dl_Size d + 1\<rparr>, h4)"
    using n1 n2 h1(1) h2(1) h3(1) h4(1) by (simp add: dl_addNode_def deref_def)
  moreover note d4
  moreover have "payload h4 = payload h" "fmdom h4 = fmdom h" using h1 h2 h3 h4 by simp_all
  moreover have "nx h4 x = nx h x \<and> pv h4 x = pv h x" if x: "x \<notin> set (dl_addrs d (a # as))" for x
  proof -
    have "set (dl_addrs d (a # as)) = {?hd, a, q} \<union> set vs"
      using arg_cong [OF q, of set] by (auto simp: dl_addrs_def)
    then show ?thesis using x h1 h2 h3 h4 by simp
  qed
  ultimately show ?thesis by (rule that [of h4])
qed

lemma buckets_add:
  assumes b: "buckets h m bs" and m: "fmlookup m f = Some d"
    and a: "unlisted a m bs" "a |\<in>| fmdom h"
  obtains h' where "dl_addNode (Some a) d h = Inr (d\<lparr>dl_Size := dl_Size d + 1\<rparr>, h')"
    "buckets h' (fmupd f (d\<lparr>dl_Size := dl_Size d + 1\<rparr>) m) (bs(f := a # bs f))"
    "payload h' = payload h" "fmdom h' = fmdom h"
proof -
  let ?d = "d\<lparr>dl_Size := dl_Size d + 1\<rparr>"
  have "a \<notin> set (dl_addrs d (bs f))" using a(1) m by (simp add: unlisted_def)
  then obtain h' where h': "dl_addNode (Some a) d h = Inr (?d, h')" "dll h' (dl_addrs d (a # bs f))"
    "payload h' = payload h" "fmdom h' = fmdom h"
    "\<And>x. x \<notin> set (dl_addrs d (a # bs f)) \<Longrightarrow> nx h' x = nx h x \<and> pv h' x = pv h x"
    using dl_addNode_ok [OF bucketsD(1) [OF b m] _ a(2)] by metis
  have "buckets h' (fmupd f ?d m) (bs(f := a # bs f))"
  proof (rule buckets_change [OF b])
    show "dll h' (dl_addrs ?d (a # bs f))" using h'(2) by (simp add: dl_addrs_def)
    show "dl_Size ?d = int (length (a # bs f))" using bucketsD(2) [OF b m] by simp
    show "set (dl_addrs ?d (a # bs f)) \<inter> set (dl_addrs e (bs g)) = {}"
      if "fmlookup m g = Some e" "g \<noteq> f" for g e
      using bucketsD(3) [OF b m that(1)] that a(1) by (auto simp: unlisted_def dl_addrs_def)
    show "nx h' x = nx h x \<and> pv h' x = pv h x" if "x \<notin> set (dl_addrs ?d (a # bs f))" for x
      using h'(5) that by (simp add: dl_addrs_def)
  qed (simp add: h'(4))
  with h' that show ?thesis by metis
qed

text \<open>A new empty list at two unused addresses.\<close>

lemma buckets_new:
  assumes b: "buckets h m bs" and m: "fmlookup m f = None" and free: "\<forall>x \<in> fset (fmdom h). x < a"
    and new: "NewDoublyLinkedList a h = (d, h')"
  shows "buckets h' (fmupd f d m) bs" "dl_addrs d [] = [a, a + 1]"
    and "\<And>x. x < a \<Longrightarrow> payload h' x = payload h x" and "fmdom h' = {|a + 1, a|} |\<union>| fmdom h"
proof -
  have d: "d = \<lparr>dl_Size = 0, dl_Head = a, dl_Tail = a + 1\<rparr>"
    and h': "h' = snd (NewDoublyLinkedList a h)"
    using new by (auto simp: NewDoublyLinkedList_def)
  show addrs: "dl_addrs d [] = [a, a + 1]" by (simp add: d dl_addrs_def)
  show "\<And>x. x < a \<Longrightarrow> payload h' x = payload h x" "fmdom h' = {|a + 1, a|} |\<union>| fmdom h"
    by (auto simp: h' NewDoublyLinkedList_def payload_def)
  have links: "nx h' a = Some (a + 1)" "pv h' (a + 1) = Some a"
    "\<And>x. x < a \<Longrightarrow> nx h' x = nx h x \<and> pv h' x = pv h x"
    by (auto simp: h' NewDoublyLinkedList_def nx_def pv_def)
  have "buckets h' (fmupd f d m) (bs(f := []))"
  proof (rule buckets_change [OF b])
    show "dll h' (dl_addrs d [])"
      using links(1,2) unfolding addrs by (simp add: dll_def h' NewDoublyLinkedList_def)
    show "dl_Size d = int (length [])" by (simp add: d)
    show "set (dl_addrs d []) \<inter> set (dl_addrs e (bs g)) = {}" if "fmlookup m g = Some e" for g e
      using bucketsD(1) [OF b that] free unfolding addrs dll_def by fastforce
    show "nx h' x = nx h x \<and> pv h' x = pv h x" if "x |\<in>| fmdom h" for x
      using free links(3) that by blast
    show "fset (fmdom h) \<subseteq> fset (fmdom h')" by (auto simp: h' NewDoublyLinkedList_def)
  qed
  then show "buckets h' (fmupd f d m) bs" using buckets_None [OF b m] by (simp add: fun_upd_idem)
qed

subsection \<open>The representation of a list of entries\<close>

type_synonym lfu_entry = "addr \<times> int \<times> int \<times> int"

definition lf_entry :: "lfu_heap \<Rightarrow> addr \<Rightarrow> (int \<times> int \<times> int) option" where
  "lf_entry h a = map_option (\<lambda>n. (nd_Key n, nd_Value n, nd_Freq n)) (fmlookup h a)"

definition lf_bucket :: "lfu_entry list \<Rightarrow> int \<Rightarrow> addr list" where
  "lf_bucket es f = map fst (filter (\<lambda>e. lfu_freq (snd e) = f) es)"

definition lf_repr :: "lfu_cache \<Rightarrow> lfu_entry list \<Rightarrow> bool" where
  "lf_repr l es \<longleftrightarrow>
     buckets (lf_Heap l) (lf_FreqToList l) (lf_bucket es) \<and>
     (\<forall>(a, e) \<in> set es. lf_entry (lf_Heap l) a = Some e) \<and>
     distinct (map fst es) \<and> distinct (map (fst \<circ> snd) es) \<and>
     fmlookup (lf_KeyToNodes l) = map_of (map (\<lambda>(a, k, v, f). (k, a)) es) \<and>
     lf_Size l = int (length es) \<and>
     (\<forall>a \<in> fset (fmdom (lf_Heap l)). a < lf_Fresh l)"

lemma lf_reprD:
  assumes "lf_repr l es"
  shows "buckets (lf_Heap l) (lf_FreqToList l) (lf_bucket es)"
    and "\<And>a e. (a, e) \<in> set es \<Longrightarrow> lf_entry (lf_Heap l) a = Some e"
    and "distinct (map fst es)" "distinct (map (fst \<circ> snd) es)"
    and "fmlookup (lf_KeyToNodes l) = map_of (map (\<lambda>(a, k, v, f). (k, a)) es)"
    and "lf_Size l = int (length es)"
    and "\<forall>a \<in> fset (fmdom (lf_Heap l)). a < lf_Fresh l"
  using assms by (auto simp: lf_repr_def)

lemma lf_reprI:
  assumes "buckets (lf_Heap l) (lf_FreqToList l) (lf_bucket es)"
    and "\<And>a e. (a, e) \<in> set es \<Longrightarrow> lf_entry (lf_Heap l) a = Some e"
    and "distinct (map fst es)" "distinct (map (fst \<circ> snd) es)"
    and "fmlookup (lf_KeyToNodes l) = map_of (map (\<lambda>(a, k, v, f). (k, a)) es)"
    and "lf_Size l = int (length es)"
    and "\<forall>a \<in> fset (fmdom (lf_Heap l)). a < lf_Fresh l"
  shows "lf_repr l es"
  using assms by (auto simp: lf_repr_def)

lemma lf_bucket_simps:
  "lf_bucket (us @ vs) f = lf_bucket us f @ lf_bucket vs f"
  "lf_bucket ((a, k, v, g) # es) f = (if g = f then a # lf_bucket es f else lf_bucket es f)"
  "lf_bucket [] f = []"
  by (simp_all add: lf_bucket_def lfu_freq_def)

lemma lf_bucket_without:
  "(lf_bucket (us @ (a, k, v, f) # vs))(f := lf_bucket us f @ lf_bucket vs f) = lf_bucket (us @ vs)"
  "(lf_bucket es)(f := a # lf_bucket es f) = lf_bucket ((a, k, v, f) # es)"
  by (auto simp: fun_eq_iff lf_bucket_simps)

lemma more_lfu_node: "links.more (n :: lfu_node) = links.more n' \<Longrightarrow>
    nd_Key n = nd_Key n' \<and> nd_Value n = nd_Value n' \<and> nd_Freq n = nd_Freq n'"
  by (cases n, cases n') simp

lemma lf_entry_payload: "payload h' a = payload h a \<Longrightarrow> lf_entry h' a = lf_entry h a"
  unfolding payload_def lf_entry_def
  by (cases "fmlookup h' a"; cases "fmlookup h a") (auto dest: more_lfu_node)

lemma lf_entry_dom: "lf_entry h a = Some e \<Longrightarrow> a |\<in>| fmdom h"
  by (auto simp: lf_entry_def intro: fmdomI)

subsection \<open>Adding a node to the list of its frequency\<close>

lemma lf_addTo_ok:
  assumes b: "buckets (lf_Heap l) (lf_FreqToList l) bs"
    and a: "unlisted a (lf_FreqToList l) bs" "a |\<in>| fmdom (lf_Heap l)"
    and free: "\<forall>x \<in> fset (fmdom (lf_Heap l)). x < lf_Fresh l"
  obtains h m fr where "lf_addTo f a l = Inr (l\<lparr>lf_Heap := h, lf_Fresh := fr, lf_FreqToList := m\<rparr>)"
    "buckets h m (bs(f := a # bs f))" "\<forall>x \<in> fset (fmdom h). x < fr"
    "\<And>x. x |\<in>| fmdom (lf_Heap l) \<Longrightarrow> lf_entry h x = lf_entry (lf_Heap l) x"
proof (cases "fmlookup (lf_FreqToList l) f")
  case (Some d)
  let ?d = "d\<lparr>dl_Size := dl_Size d + 1\<rparr>"
  obtain h where h: "dl_addNode (Some a) d (lf_Heap l) = Inr (?d, h)"
    "buckets h (fmupd f ?d (lf_FreqToList l)) (bs(f := a # bs f))"
    "payload h = payload (lf_Heap l)" "fmdom h = fmdom (lf_Heap l)"
    by (rule buckets_add [OF b Some a])
  have "lf_addTo f a l = Inr (l\<lparr>lf_Heap := h, lf_Fresh := lf_Fresh l,
      lf_FreqToList := fmupd f ?d (lf_FreqToList l)\<rparr>)"
    using Some h(1) by (simp add: lf_addTo_def)
  then show ?thesis
    using that h free lf_entry_payload by metis
next
  case None
  obtain d h0 where new: "NewDoublyLinkedList (lf_Fresh l) (lf_Heap l) = (d, h0)" by fastforce
  note n = buckets_new [OF b None free new]
  let ?m = "fmupd f d (lf_FreqToList l)" and ?d = "d\<lparr>dl_Size := dl_Size d + 1\<rparr>"
  have "a < lf_Fresh l" using a(2) free by blast
  then have "unlisted a ?m bs"
    using a(1) n(2) buckets_None [OF b None] by (auto simp: unlisted_def)
  moreover have "fmlookup ?m f = Some d" "a |\<in>| fmdom h0" using a(2) n(4) by auto
  ultimately obtain h where h: "dl_addNode (Some a) d h0 = Inr (?d, h)"
    "buckets h (fmupd f ?d ?m) (bs(f := a # bs f))" "payload h = payload h0" "fmdom h = fmdom h0"
    using buckets_add [OF n(1)] by metis
  have "lf_addTo f a l = Inr (l\<lparr>lf_Heap := h, lf_Fresh := lf_Fresh l + 2, lf_FreqToList := fmupd f ?d ?m\<rparr>)"
    using None new h(1) by (simp add: lf_addTo_def)
  moreover have "\<forall>x \<in> fset (fmdom h). x < lf_Fresh l + 2" using free by (auto simp: h(4) n(4))
  moreover have "lf_entry h x = lf_entry (lf_Heap l) x" if "x |\<in>| fmdom (lf_Heap l)" for x
    using that free n(3) h(3) by (intro lf_entry_payload) simp
  ultimately show ?thesis using that h(2) by blast
qed

subsection \<open>Refinement of the operations\<close>

lemma lf_repr_map_None:
  "lf_repr l es \<Longrightarrow> fmlookup (lf_KeyToNodes l) k = None \<longleftrightarrow> map_of (map snd es) k = None"
  by (auto simp: lf_repr_def map_of_eq_None_iff image_iff)

lemma lf_repr_map_Some:
  assumes "lf_repr l es" "fmlookup (lf_KeyToNodes l) k = Some a"
  obtains us v f vs where "es = us @ (a, k, v, f) # vs" "map_of (map snd es) k = Some (v, f)"
    "filter (\<lambda>e. fst e \<noteq> k) (map snd es) = map snd (us @ vs)"
proof -
  have "(k, a) \<in> set (map (\<lambda>(a, k, v, f). (k, a)) es)"
    using assms lf_reprD(5) map_of_SomeD by metis
  then obtain v f where "(a, k, v, f) \<in> set es" by auto
  then obtain us vs where es: "es = us @ (a, k, v, f) # vs" by (metis split_list)
  note d = lf_reprD(4) [OF assms(1)]
  have "map_of (map snd es) k = Some (v, f)"
    using d by (subst map_of_eq_Some_iff) (simp_all add: es)
  moreover have "filter (\<lambda>e. fst e \<noteq> k) (map snd es) = map snd (us @ vs)"
    using d by (auto simp: es filter_id_conv image_iff intro!: arg_cong2 [of _ _ _ _ "(@)"])
  ultimately show ?thesis using that es by metis
qed

lemma lf_heap_upd:
  assumes "fmlookup h a = Some n" "nd_next n' = nd_next n" "nd_prev n' = nd_prev n"
  shows "nx (fmupd a n' h) = nx h" "pv (fmupd a n' h) = pv h" "fmdom (fmupd a n' h) = fmdom h"
    "x \<noteq> a \<Longrightarrow> lf_entry (fmupd a n' h) x = lf_entry h x"
    "lf_entry (fmupd a n' h) a = Some (nd_Key n', nd_Value n', nd_Freq n')"
  using assms by (auto simp: nx_def pv_def lf_entry_def fun_eq_iff intro: fmdomI)

lemma lf_repr_distinct:
  assumes "lf_repr l (us @ (a, k, v, f) # vs)" "(b, e) \<in> set us \<union> set vs"
  shows "b \<noteq> a" "fst e \<noteq> k"
  using assms by (force simp: lf_repr_def image_iff)+

lemma lf_setValue_ok:
  assumes r: "lf_repr l (us @ (a, k, v, f) # vs)" and n: "fmlookup (lf_Heap l) a = Some n"
  shows "lf_repr (l\<lparr>lf_Heap := fmupd a (n\<lparr>nd_Value := w\<rparr>) (lf_Heap l)\<rparr>) (us @ (a, k, w, f) # vs)"
proof (rule lf_reprI)
  let ?l = "l\<lparr>lf_Heap := fmupd a (n\<lparr>nd_Value := w\<rparr>) (lf_Heap l)\<rparr>"
  note u = lf_heap_upd [OF n, of "n\<lparr>nd_Value := w\<rparr>", simplified]
  have entry: "(nd_Key n, nd_Freq n) = (k, f)"
    using lf_reprD(2) [OF r, of a "(k, v, f)"] n by (simp add: lf_entry_def)
  have "lf_bucket (us @ (a, k, w, f) # vs) = lf_bucket (us @ (a, k, v, f) # vs)"
    by (simp add: fun_eq_iff lf_bucket_simps)
  then show "buckets (lf_Heap ?l) (lf_FreqToList ?l) (lf_bucket (us @ (a, k, w, f) # vs))"
    using buckets_frame [OF lf_reprD(1) [OF r]] u by simp
  show "lf_entry (lf_Heap ?l) b = Some e" if "(b, e) \<in> set (us @ (a, k, w, f) # vs)" for b e
  proof (cases "b = a")
    case True
    then have "e = (k, w, f)" using that lf_repr_distinct(1) [OF r, of a e] by auto
    then show ?thesis using u(5) entry True by simp
  next
    case False
    then show ?thesis using that u(4) lf_reprD(2) [OF r, of b e] by auto
  qed
qed (use lf_reprD(3-) [OF r] lf_heap_upd(3) [OF n] in \<open>auto simp del: fmdom_fmupd\<close>)

lemma lf_update_ok:
  assumes r: "lf_repr l (us @ (a, k, v, f) # vs)"
  obtains l' where "lf_update a l = Inr l'" "lf_repr l' ((a, k, v, f + 1) # us @ vs)"
    "lf_Capacity l' = lf_Capacity l"
    "lf_MinFreq l' = (if f = lf_MinFreq l \<and> lf_bucket (us @ vs) f = [] then lf_MinFreq l + 1 else lf_MinFreq l)"
proof -
  let ?es = "us @ (a, k, v, f) # vs" and ?m = "lf_FreqToList l" and ?bs = "lf_bucket (us @ vs)"
  obtain n where n: "fmlookup (lf_Heap l) a = Some n" "nd_Key n = k" "nd_Value n = v" "nd_Freq n = f"
    using lf_reprD(2) [OF r, of a "(k, v, f)"] by (auto simp: lf_entry_def)
  have bf: "lf_bucket ?es f = lf_bucket us f @ a # lf_bucket vs f" by (simp add: lf_bucket_simps)
  obtain d where d: "fmlookup ?m f = Some d"
    using buckets_None [OF lf_reprD(1) [OF r], of f] bf by (cases "fmlookup ?m f") auto
  let ?d = "d\<lparr>dl_Size := dl_Size d - 1\<rparr>" and ?m1 = "fmupd f (d\<lparr>dl_Size := dl_Size d - 1\<rparr>) ?m"
  obtain h1 where h1: "dl_remove (Some a) d (lf_Heap l) = Inr (?d, h1)" "buckets h1 ?m1 ?bs"
    "unlisted a ?m1 ?bs" "payload h1 = payload (lf_Heap l)" "fmdom h1 = fmdom (lf_Heap l)"
    by (rule buckets_remove [OF lf_reprD(1) [OF r] d bf]) (simp only: lf_bucket_without)
  have empty: "dl_Size ?d = 0 \<longleftrightarrow> ?bs f = []"
    using bucketsD(2) [OF h1(2), of f ?d] by simp
  obtain n1 where n1: "fmlookup h1 a = Some n1" "nd_Key n1 = k" "nd_Value n1 = v" "nd_Freq n1 = f"
    using lf_entry_payload [of h1 a "lf_Heap l"] h1(4) n by (auto simp: lf_entry_def)
  let ?n2 = "n1\<lparr>nd_Freq := f + 1\<rparr>"
  note u = lf_heap_upd [OF n1(1), of ?n2, simplified]
  let ?mf = "if f = lf_MinFreq l \<and> ?bs f = [] then lf_MinFreq l + 1 else lf_MinFreq l"
  let ?l2 = "l\<lparr>lf_FreqToList := ?m1, lf_MinFreq := ?mf, lf_Heap := fmupd a ?n2 h1\<rparr>"
  have "buckets (fmupd a ?n2 h1) ?m1 ?bs"
    by (rule buckets_frame [OF h1(2)]) (auto simp: u(1,2))
  then have l2: "buckets (lf_Heap ?l2) (lf_FreqToList ?l2) ?bs" "unlisted a (lf_FreqToList ?l2) ?bs"
    using h1(3) by simp_all
  have dom2: "fmdom (lf_Heap ?l2) = fmdom (lf_Heap l)" using u(3) h1(5) by simp
  have a2: "a |\<in>| fmdom (lf_Heap ?l2)" unfolding dom2 using n(1) by (rule fmdomI)
  have free2: "\<forall>x \<in> fset (fmdom (lf_Heap ?l2)). x < lf_Fresh ?l2"
    unfolding dom2 using lf_reprD(7) [OF r] by simp
  obtain h m fr where add: "lf_addTo (f + 1) a ?l2 = Inr (?l2\<lparr>lf_Heap := h, lf_Fresh := fr, lf_FreqToList := m\<rparr>)"
    "buckets h m (?bs(f + 1 := a # ?bs (f + 1)))" "\<forall>x \<in> fset (fmdom h). x < fr"
    "\<And>x. x |\<in>| fmdom (lf_Heap ?l2) \<Longrightarrow> lf_entry h x = lf_entry (lf_Heap ?l2) x"
    by (rule lf_addTo_ok [OF l2 a2 free2]) (rule that; assumption)
  have entry: "lf_entry h x = lf_entry (fmupd a ?n2 h1) x" if "x |\<in>| fmdom (lf_Heap l)" for x
    using add(4) [of x] that unfolding dom2 by simp
  let ?l' = "?l2\<lparr>lf_Heap := h, lf_Fresh := fr, lf_FreqToList := m\<rparr>"
  have "lf_update a l = Inr ?l'"
    using n n1 d h1(1) add(1) empty
    by (cases "f = lf_MinFreq l \<and> ?bs f = []") (auto simp: lf_update_def deref_def Let_def)
  moreover have "lf_repr ?l' ((a, k, v, f + 1) # us @ vs)"
  proof (rule lf_reprI)
    show "buckets (lf_Heap ?l') (lf_FreqToList ?l') (lf_bucket ((a, k, v, f + 1) # us @ vs))"
      using add(2) unfolding lf_bucket_without(2) [of "us @ vs" "f + 1" a k v] by simp
    show "lf_entry (lf_Heap ?l') b = Some e" if be: "(b, e) \<in> set ((a, k, v, f + 1) # us @ vs)" for b e
    proof (cases "b = a")
      case True
      then have "e = (k, v, f + 1)" using be lf_repr_distinct(1) [OF r, of a e] by auto
      then show ?thesis using entry [OF fmdomI [OF n(1)]] u(5) n1 True by simp
    next
      case False
      then have "lf_entry (lf_Heap l) b = Some e" using be lf_reprD(2) [OF r, of b e] by auto
      then show ?thesis
        using False entry [OF lf_entry_dom] u(4) [OF False] h1(4) lf_entry_payload [of h1 b "lf_Heap l"] by simp
    qed
    show "fmlookup (lf_KeyToNodes ?l') = map_of (map (\<lambda>(a, k, v, f). (k, a)) ((a, k, v, f + 1) # us @ vs))"
    proof -
      have "distinct (map fst (map (\<lambda>(a, k, v, f). (k, a)) ?es))"
        using lf_reprD(4) [OF r] by (simp add: comp_def case_prod_unfold)
      then have "map_of (map (\<lambda>(a, k, v, f). (k, a)) ((a, k, v, f + 1) # us @ vs)) =
          map_of (map (\<lambda>(a, k, v, f). (k, a)) ?es)"
        by (subst map_of_inject_set) auto
      then show ?thesis using lf_reprD(5) [OF r] by simp
    qed
  qed (use lf_reprD(3,4,6) [OF r] add(3) in auto)
  ultimately show ?thesis by (intro that [of ?l']) simp_all
qed

text \<open>\<open>MinFreq\<close> is the smallest frequency, and positive, once there are entries.\<close>

definition lf_inv :: "lfu_cache \<Rightarrow> lfu_entry list \<Rightarrow> bool" where
  "lf_inv l es \<longleftrightarrow> lf_repr l es \<and>
     (es \<noteq> [] \<longrightarrow> 1 \<le> lf_MinFreq l \<and> lf_bucket es (lf_MinFreq l) \<noteq> [] \<and>
        (\<forall>e \<in> set es. lf_MinFreq l \<le> lfu_freq (snd e)))"

lemma lf_bucket_empty: "lf_bucket es f = [] \<longleftrightarrow> (\<forall>e \<in> set es. lfu_freq (snd e) \<noteq> f)"
  by (auto simp: lf_bucket_def filter_empty_conv)

lemma lf_update_inv:
  assumes i: "lf_inv l (us @ (a, k, v, f) # vs)"
  obtains l' where "lf_update a l = Inr l'" "lf_inv l' ((a, k, v, f + 1) # us @ vs)"
    "lf_Capacity l' = lf_Capacity l"
proof -
  let ?es = "us @ (a, k, v, f) # vs"
  obtain l' where l': "lf_update a l = Inr l'" "lf_repr l' ((a, k, v, f + 1) # us @ vs)"
    "lf_Capacity l' = lf_Capacity l"
    "lf_MinFreq l' = (if f = lf_MinFreq l \<and> lf_bucket (us @ vs) f = [] then lf_MinFreq l + 1 else lf_MinFreq l)"
    using lf_update_ok i unfolding lf_inv_def by metis
  have least: "\<forall>e \<in> set ?es. lf_MinFreq l \<le> lfu_freq (snd e)" "\<exists>e \<in> set ?es. lfu_freq (snd e) = lf_MinFreq l"
    "1 \<le> lf_MinFreq l"
    using i unfolding lf_inv_def lf_bucket_empty by blast+
  have "lf_bucket ((a, k, v, f + 1) # us @ vs) (lf_MinFreq l') \<noteq> [] \<and>
    (\<forall>e \<in> set ((a, k, v, f + 1) # us @ vs). lf_MinFreq l' \<le> lfu_freq (snd e))"
  proof (cases "f = lf_MinFreq l \<and> lf_bucket (us @ vs) f = []")
    case True
    then have "\<forall>e \<in> set (us @ vs). f + 1 \<le> lfu_freq (snd e)"
      using least(1) unfolding lf_bucket_empty by force
    moreover have "lf_MinFreq l' = f + 1" using True l'(4) by (metis (full_types))
    ultimately show ?thesis by (auto simp: lf_bucket_simps lfu_freq_def)
  next
    case False
    then have "\<exists>e \<in> set (us @ vs). lfu_freq (snd e) = lf_MinFreq l"
      using least(2) unfolding lf_bucket_empty by (auto simp: lfu_freq_def)
    then have "lf_bucket (us @ vs) (lf_MinFreq l) \<noteq> []" unfolding lf_bucket_empty by blast
    moreover have "lf_MinFreq l' = lf_MinFreq l" using False l'(4) by simp
    ultimately show ?thesis using least(1) by (auto simp: lf_bucket_simps lfu_freq_def)
  qed
  then show ?thesis using that l' least(3) by (simp add: lf_inv_def)
qed

lemma lf_setValue_inv:
  assumes "lf_inv l (us @ (a, k, v, f) # vs)" "fmlookup (lf_Heap l) a = Some n"
  shows "lf_inv (l\<lparr>lf_Heap := fmupd a (n\<lparr>nd_Value := w\<rparr>) (lf_Heap l)\<rparr>) (us @ (a, k, w, f) # vs)"
  using assms lf_setValue_ok by (auto simp: lf_inv_def lf_bucket_simps lfu_freq_def)

lemma lf_get_ok:
  assumes i: "lf_inv l es"
  obtains l' es' where "lf_get key l = Inr (fst (lfu_spec_get key (map snd es)), l')"
    "lf_inv l' es'" "map snd es' = snd (lfu_spec_get key (map snd es))" "lf_Capacity l' = lf_Capacity l"
proof (cases "fmlookup (lf_KeyToNodes l) key")
  case None
  have "map_of (map snd es) key = None" using i None lf_repr_map_None [of l es key] by (simp add: lf_inv_def)
  with None show ?thesis using that [of l es] i by (simp add: lf_get_def lfu_spec_get_def)
next
  case (Some a)
  have r: "lf_repr l es" using i by (simp add: lf_inv_def)
  obtain us v f vs where es: "es = us @ (a, key, v, f) # vs" "map_of (map snd es) key = Some (v, f)"
    "filter (\<lambda>e. fst e \<noteq> key) (map snd es) = map snd (us @ vs)"
    by (rule lf_repr_map_Some [OF r Some])
  obtain l' where l': "lf_update a l = Inr l'" "lf_inv l' ((a, key, v, f + 1) # us @ vs)"
    "lf_Capacity l' = lf_Capacity l"
    using lf_update_inv i unfolding es(1) by metis
  have "lf_entry (lf_Heap l') a = Some (key, v, f + 1)"
    using l'(2) by (intro lf_reprD(2) [of l' "(a, key, v, f + 1) # us @ vs"]) (simp_all add: lf_inv_def)
  then obtain n where "fmlookup (lf_Heap l') a = Some n" "nd_Value n = v" by (auto simp: lf_entry_def)
  then have "lf_get key l = Inr (v, l')" using Some l'(1) by (simp add: lf_get_def deref_def)
  then show ?thesis
    using es(2,3) l'(2,3) by (intro that [of l' "(a, key, v, f + 1) # us @ vs"]) (simp_all add: lfu_spec_get_def)
qed

subsection \<open>Eviction and insertion\<close>

lemma drop_last_split:
  "P e \<Longrightarrow> \<forall>x \<in> set vs. \<not> P x \<Longrightarrow> drop_last P (us @ e # vs) = us @ vs"
  by (induction us) (auto simp: list_ex_iff)

lemma lf_victim:
  assumes "lf_inv l es" "es \<noteq> []"
  obtains us b k v vs where "es = us @ (b, k, v, lf_MinFreq l) # vs"
    "lf_bucket es (lf_MinFreq l) = lf_bucket us (lf_MinFreq l) @ [b]"
    "lf_bucket vs (lf_MinFreq l) = []" "lfu_spec_evict (map snd es) = map snd (us @ vs)"
proof -
  let ?f = "lf_MinFreq l"
  have least: "\<forall>e \<in> set es. ?f \<le> lfu_freq (snd e)" "\<exists>e \<in> set es. lfu_freq (snd e) = ?f"
    using assms unfolding lf_inv_def lf_bucket_empty by blast+
  then obtain us e vs where es: "es = us @ e # vs" "lfu_freq (snd e) = ?f" "\<forall>x \<in> set vs. lfu_freq (snd x) \<noteq> ?f"
    using split_list_last_prop [of es "\<lambda>e. lfu_freq (snd e) = ?f"] by blast
  obtain b k v where e: "e = (b, k, v, ?f)" using es(2) by (cases e) (auto simp: lfu_freq_def)
  have "min_list (map lfu_freq (map snd es)) = Min (set (map lfu_freq (map snd es)))"
    using assms(2) by (intro min_list_Min) simp
  also have "\<dots> = ?f" using least by (intro Min_eqI) (auto simp: image_iff intro: sym)
  finally have min: "min_list (map lfu_freq (map snd es)) = ?f" .
  have "drop_last (\<lambda>e. lfu_freq e = ?f) (map snd us @ snd e # map snd vs) = map snd us @ map snd vs"
    using es(2,3) by (intro drop_last_split) auto
  then have "lfu_spec_evict (map snd es) = map snd (us @ vs)"
    unfolding lfu_spec_evict_def min by (simp add: es(1))
  moreover have "lf_bucket vs ?f = []" using es(3) by (simp add: lf_bucket_empty)
  ultimately show ?thesis using that [of us b k v vs] es(1) e by (simp add: lf_bucket_simps)
qed

lemma lf_map_of_without:
  assumes "lf_repr l (us @ (a, k, v, f) # vs)"
  shows "fmlookup (fmdrop k (lf_KeyToNodes l)) = map_of (map (\<lambda>(a, k, v, f). (k, a)) (us @ vs))"
proof
  fix x
  show "fmlookup (fmdrop k (lf_KeyToNodes l)) x = map_of (map (\<lambda>(a, k, v, f). (k, a)) (us @ vs)) x"
  proof (cases "x = k")
    case True
    have "k \<notin> fst ` set (map (\<lambda>(a, k, v, f). (k, a)) (us @ vs))"
    proof
      assume "k \<in> fst ` set (map (\<lambda>(a, k, v, f). (k, a)) (us @ vs))"
      then obtain b w g where "(b, k, w, g) \<in> set us \<union> set vs" by (auto simp del: not_None_eq) blast+
      from lf_repr_distinct(2) [OF assms this] show False by simp
    qed
    then have "map_of (map (\<lambda>(a, k, v, f). (k, a)) (us @ vs)) k = None"
      by (simp only: map_of_eq_None_iff simp_thms)
    moreover have "fmlookup (fmdrop k (lf_KeyToNodes l)) k = None" by simp
    ultimately show ?thesis unfolding True by argo
  next
    case False
    then show ?thesis using lf_reprD(5) [OF assms] by (simp add: map_add_def split: option.split)
  qed
qed

lemma lf_evict_ok:
  assumes i: "lf_inv l es" and ne: "es \<noteq> []"
  obtains l' es' where "lf_evict l = Inr l'" "lf_repr l' es'" "map snd es' = lfu_spec_evict (map snd es)"
    "lf_Capacity l' = lf_Capacity l" "set es' \<subseteq> set es"
proof -
  let ?f = "lf_MinFreq l"
  obtain us b k v vs where es: "es = us @ (b, k, v, ?f) # vs"
    "lf_bucket es ?f = lf_bucket us ?f @ [b]" "lf_bucket vs ?f = []"
    "lfu_spec_evict (map snd es) = map snd (us @ vs)"
    by (rule lf_victim [OF assms])
  have r: "lf_repr l es" using i by (simp add: lf_inv_def)
  note bk = lf_reprD(1) [OF r]
  obtain d where d: "fmlookup (lf_FreqToList l) ?f = Some d"
    using buckets_None [OF bk, of ?f] es(2) by (cases "fmlookup (lf_FreqToList l) ?f") auto
  let ?d = "d\<lparr>dl_Size := dl_Size d - 1\<rparr>" and ?m = "fmupd ?f (d\<lparr>dl_Size := dl_Size d - 1\<rparr>) (lf_FreqToList l)"
  obtain h where h: "dl_remove (Some b) d (lf_Heap l) = Inr (?d, h)"
    "buckets h ?m ((lf_bucket es)(?f := lf_bucket us ?f @ []))"
    "payload h = payload (lf_Heap l)" "fmdom h = fmdom (lf_Heap l)"
    by (rule buckets_remove [OF bk d es(2)])
  have bs: "(lf_bucket es)(?f := lf_bucket us ?f @ []) = lf_bucket (us @ vs)"
    using lf_bucket_without(1) [of us b k v ?f vs] es(3) by (simp add: es(1))
  have tl: "pv (lf_Heap l) (dl_Tail d) = Some b"
    using dll_links(2) bucketsD(1) [OF bk d] es(2) chain_join
    by (simp add: dl_addrs_def dll_def)
  then obtain t where t: "fmlookup (lf_Heap l) (dl_Tail d) = Some t" "nd_prev t = Some b"
    using pv_Some by metis
  have size: "dl_Size d \<noteq> 0" using bucketsD(2) [OF bk d] es(2) by simp
  have "lf_entry h b = Some (k, v, ?f)"
    using lf_reprD(2) [OF r, of b "(k, v, ?f)"] lf_entry_payload [of h b "lf_Heap l"] h(3) by (simp add: es(1))
  then obtain n where n: "fmlookup h b = Some n" "nd_Key n = k" by (auto simp: lf_entry_def)
  let ?l' = "l\<lparr>lf_Heap := h, lf_FreqToList := ?m, lf_KeyToNodes := fmdrop k (lf_KeyToNodes l), lf_Size := lf_Size l - 1\<rparr>"
  have "lf_evict l = Inr ?l'"
    using d size t h(1) n by (simp add: lf_evict_def dl_removeLast_def deref_def)
  moreover have "lf_repr ?l' (us @ vs)"
  proof (rule lf_reprI)
    show "lf_entry (lf_Heap ?l') a = Some e" if "(a, e) \<in> set (us @ vs)" for a e
      using that lf_reprD(2) [OF r, of a e] lf_entry_payload [of h a "lf_Heap l"] h(3) by (auto simp: es(1))
    show "fmlookup (lf_KeyToNodes ?l') = map_of (map (\<lambda>(a, k, v, f). (k, a)) (us @ vs))"
      using lf_map_of_without [of l us b k v ?f vs] r by (simp add: es(1))
  qed (use h(2,4) bs lf_reprD(3-) [OF r] in \<open>auto simp: es(1)\<close>)
  ultimately show ?thesis using es(4) by (intro that [of ?l' "us @ vs"]) (auto simp: es(1))
qed

lemma lf_insert_ok:
  fixes key w :: int
  assumes r: "lf_repr l es" and k: "map_of (map snd es) key = None"
    and freqs: "\<forall>e \<in> set es. 1 \<le> lfu_freq (snd e)"
  defines "a \<equiv> lf_Fresh l"
  defines "n \<equiv> \<lparr>nd_next = None, nd_prev = None, nd_Key = key, nd_Value = w, nd_Freq = 1\<rparr>"
  obtains l2 l' where "lf_addTo 1 a (l\<lparr>lf_Heap := fmupd a n (lf_Heap l), lf_Fresh := a + 1\<rparr>) = Inr l2"
    "l' = l2\<lparr>lf_KeyToNodes := fmupd key a (lf_KeyToNodes l2), lf_MinFreq := 1, lf_Size := lf_Size l2 + 1\<rparr>"
    "lf_inv l' ((a, key, w, 1) # es)" "lf_Capacity l' = lf_Capacity l"
proof -
  let ?h0 = "fmupd a n (lf_Heap l)" and ?l1 = "l\<lparr>lf_Heap := fmupd a n (lf_Heap l), lf_Fresh := a + 1\<rparr>"
  note free = lf_reprD(7) [OF r]
  have new: "a |\<notin>| fmdom (lf_Heap l)" using free by (auto simp: a_def)
  have listed: "x |\<in>| fmdom (lf_Heap l)" if "fmlookup (lf_FreqToList l) f = Some d" "x \<in> set (dl_addrs d (lf_bucket es f))" for f d x
    using bucketsD(1) [OF lf_reprD(1) [OF r] that(1)] that(2) by (auto simp: dll_def)
  have b: "buckets (lf_Heap ?l1) (lf_FreqToList ?l1) (lf_bucket es)"
  proof -
    have same: "nx ?h0 x = nx (lf_Heap l) x \<and> pv ?h0 x = pv (lf_Heap l) x" if "x |\<in>| fmdom (lf_Heap l)" for x
      using that new by (auto simp: nx_def pv_def)
    have "dll ?h0 (dl_addrs d (lf_bucket es f))" if "fmlookup (lf_FreqToList l) f = Some d" for f d
      using bucketsD(1) [OF lf_reprD(1) [OF r] that]
      by (rule dll_frame) (use same listed [OF that] in auto)
    then show ?thesis using lf_reprD(1) [OF r] unfolding buckets_def by simp
  qed
  have u: "unlisted a (lf_FreqToList ?l1) (lf_bucket es)"
    using listed new by (auto simp: unlisted_def)
  have dom: "a |\<in>| fmdom (lf_Heap ?l1)" by simp
  have free1: "\<forall>x \<in> fset (fmdom (lf_Heap ?l1)). x < lf_Fresh ?l1" using free by (auto simp: a_def)
  obtain h m fr where add: "lf_addTo 1 a ?l1 = Inr (?l1\<lparr>lf_Heap := h, lf_Fresh := fr, lf_FreqToList := m\<rparr>)"
    "buckets h m ((lf_bucket es)(1 := a # lf_bucket es 1))" "\<forall>x \<in> fset (fmdom h). x < fr"
    "\<And>x. x |\<in>| fmdom (lf_Heap ?l1) \<Longrightarrow> lf_entry h x = lf_entry (lf_Heap ?l1) x"
    by (rule lf_addTo_ok [OF b u dom free1]) (rule that; assumption)
  let ?l2 = "?l1\<lparr>lf_Heap := h, lf_Fresh := fr, lf_FreqToList := m\<rparr>"
  let ?l' = "?l2\<lparr>lf_KeyToNodes := fmupd key a (lf_KeyToNodes ?l2), lf_MinFreq := 1, lf_Size := lf_Size ?l2 + 1\<rparr>"
  have old: "b \<noteq> a" if "(b, e) \<in> set es" for b e
    using lf_entry_dom [OF lf_reprD(2) [OF r that]] new by auto
  have "lf_repr ?l' ((a, key, w, 1) # es)"
  proof (rule lf_reprI)
    show "buckets (lf_Heap ?l') (lf_FreqToList ?l') (lf_bucket ((a, key, w, 1) # es))"
      using add(2) unfolding lf_bucket_without(2) [of es 1 a key w] by simp
    show "lf_entry (lf_Heap ?l') b = Some e" if be: "(b, e) \<in> set ((a, key, w, 1) # es)" for b e
    proof (cases "b = a")
      case True
      then have "e = (key, w, 1)" using be old [of a e] by auto
      then show ?thesis using add(4) [of a] True by (simp add: lf_entry_def n_def)
    next
      case False
      then have be: "lf_entry (lf_Heap l) b = Some e" using be lf_reprD(2) [OF r] by auto
      have "lf_entry h b = lf_entry ?h0 b" using add(4) [of b] lf_entry_dom [OF be] by simp
      then show ?thesis using be False by (simp add: lf_entry_def)
    qed
    show "distinct (map fst ((a, key, w, 1) # es))" using lf_reprD(3) [OF r] by (auto dest: old)
    show "distinct (map (fst \<circ> snd) ((a, key, w, 1) # es))"
      using lf_reprD(4) [OF r] k by (auto simp: map_of_eq_None_iff image_iff)
    show "fmlookup (lf_KeyToNodes ?l') = map_of (map (\<lambda>(a, k, v, f). (k, a)) ((a, key, w, 1) # es))"
      using lf_reprD(5) [OF r] by (simp add: fun_eq_iff)
  qed (use add(3) lf_reprD(6) [OF r] in simp_all)
  then have "lf_inv ?l' ((a, key, w, 1) # es)"
    using freqs by (simp add: lf_inv_def lf_bucket_simps lfu_freq_def)
  then show ?thesis by (rule that [OF add(1) refl]) simp
qed

lemma lf_put_ok:
  assumes i: "lf_inv l es" and size: "lf_Capacity l = cap"
  obtains l' es' where "lf_put key w l = Inr l'" "lf_inv l' es'"
    "map snd es' = lfu_spec_put cap key w (map snd es)" "lf_Capacity l' = cap"
proof (cases "cap = 0")
  case True
  then show ?thesis using that [of l es] i size by (simp add: lf_put_def lfu_spec_put_def)
next
  case pos: False
  have r: "lf_repr l es" using i by (simp add: lf_inv_def)
  show ?thesis
  proof (cases "fmlookup (lf_KeyToNodes l) key")
    case (Some a)
    obtain us v f vs where es: "es = us @ (a, key, v, f) # vs" "map_of (map snd es) key = Some (v, f)"
      "filter (\<lambda>e. fst e \<noteq> key) (map snd es) = map snd (us @ vs)"
      by (rule lf_repr_map_Some [OF r Some])
    obtain n where n: "fmlookup (lf_Heap l) a = Some n"
      using lf_reprD(2) [OF r, of a "(key, v, f)"] by (auto simp: es(1) lf_entry_def)
    obtain l' where l': "lf_update a (l\<lparr>lf_Heap := fmupd a (n\<lparr>nd_Value := w\<rparr>) (lf_Heap l)\<rparr>) = Inr l'"
      "lf_inv l' ((a, key, w, f + 1) # us @ vs)" "lf_Capacity l' = lf_Capacity l"
      by (rule lf_update_inv [OF lf_setValue_inv [OF i [unfolded es(1)] n, of w]]) (rule that, assumption+, simp)
    have "lf_put key w l = Inr l'"
      using Some pos size n l'(1) by (simp add: lf_put_def deref_def)
    then show ?thesis
      using pos size es(2,3) l'(2,3)
      by (intro that [of l' "(a, key, w, f + 1) # us @ vs"]) (simp_all add: lfu_spec_put_def)
  next
    case None
    have k: "map_of (map snd es) key = None" using None lf_repr_map_None [OF r] by simp
    have freqs: "\<forall>e \<in> set es. 1 \<le> lfu_freq (snd e)" using i by (force simp: lf_inv_def)
    have len: "int (length (map snd es)) = lf_Size l" using lf_reprD(6) [OF r] by simp
    obtain l1 es1 where l1: "(if lf_Size l = cap then lf_evict l else Inr l) = Inr l1" "lf_repr l1 es1"
      "map snd es1 = (if int (length (map snd es)) = cap then lfu_spec_evict (map snd es) else map snd es)"
      "lf_Capacity l1 = cap" "set es1 \<subseteq> set es"
    proof (cases "lf_Size l = cap")
      case True
      then have "es \<noteq> []" using pos len by auto
      then obtain l' es' where "lf_evict l = Inr l'" "lf_repr l' es'" "map snd es' = lfu_spec_evict (map snd es)"
        "lf_Capacity l' = lf_Capacity l" "set es' \<subseteq> set es"
        using lf_evict_ok [OF i] by metis
      then show ?thesis using that True size len by simp
    next
      case False
      then show ?thesis using that [of l es] r size len by simp
    qed
    have k1: "map_of (map snd es1) key = None"
      using k l1(5) by (auto simp: map_of_eq_None_iff)
    have freqs1: "\<forall>e \<in> set es1. 1 \<le> lfu_freq (snd e)" using freqs l1(5) by blast
    obtain l2 l' where ins: "lf_addTo 1 (lf_Fresh l1) (l1\<lparr>lf_Heap := fmupd (lf_Fresh l1)
        \<lparr>nd_next = None, nd_prev = None, nd_Key = key, nd_Value = w, nd_Freq = 1\<rparr> (lf_Heap l1),
        lf_Fresh := lf_Fresh l1 + 1\<rparr>) = Inr l2"
      "l' = l2\<lparr>lf_KeyToNodes := fmupd key (lf_Fresh l1) (lf_KeyToNodes l2), lf_MinFreq := 1, lf_Size := lf_Size l2 + 1\<rparr>"
      "lf_inv l' ((lf_Fresh l1, key, w, 1) # es1)" "lf_Capacity l' = lf_Capacity l1"
      by (rule lf_insert_ok [OF l1(2) k1 freqs1])
    have "lf_put key w l = Inr l'"
      using None pos size l1(1) ins(1,2) by (simp add: lf_put_def Let_def del: One_nat_def)
    then show ?thesis
      using pos k l1(3,4) ins(3,4)
      by (intro that [of l' "(lf_Fresh l1, key, w, 1) # es1"]) (simp_all add: lfu_spec_put_def)
  qed
qed

subsection \<open>Any sequence of operations\<close>

datatype lfu_op = LfuGet int | LfuPut int int

fun lf_run :: "lfu_op list \<Rightarrow> lfu_cache \<Rightarrow> (int list \<times> lfu_cache) outcome" where
  "lf_run [] l = Inr ([], l)"
| "lf_run (LfuGet k # ops) l = and_then (lf_get k l) (\<lambda>(v, l1).
     and_then (lf_run ops l1) (\<lambda>(vs, l2). Inr (v # vs, l2)))"
| "lf_run (LfuPut k v # ops) l = and_then (lf_put k v l) (lf_run ops)"

fun lfu_spec_run :: "int \<Rightarrow> lfu_op list \<Rightarrow> (int \<times> int \<times> int) list \<Rightarrow> int list \<times> (int \<times> int \<times> int) list" where
  "lfu_spec_run cap [] xs = ([], xs)"
| "lfu_spec_run cap (LfuGet k # ops) xs = (let (v, xs1) = lfu_spec_get k xs;
     (vs, xs2) = lfu_spec_run cap ops xs1 in (v # vs, xs2))"
| "lfu_spec_run cap (LfuPut k v # ops) xs = lfu_spec_run cap ops (lfu_spec_put cap k v xs)"

lemma lf_run_ok:
  assumes "lf_inv l es" "lf_Capacity l = cap"
  shows "\<exists>l' es'. lf_run ops l = Inr (fst (lfu_spec_run cap ops (map snd es)), l') \<and> lf_inv l' es' \<and>
     map snd es' = snd (lfu_spec_run cap ops (map snd es))"
  using assms
proof (induction ops arbitrary: l es)
  case (Cons oper ops)
  show ?case
  proof (cases oper)
    case (LfuGet k)
    obtain l1 es1 where s: "lf_get k l = Inr (fst (lfu_spec_get k (map snd es)), l1)" "lf_inv l1 es1"
      "map snd es1 = snd (lfu_spec_get k (map snd es))" "lf_Capacity l1 = lf_Capacity l"
      by (rule lf_get_ok [OF Cons.prems(1)])
    from Cons.IH [OF s(2)] s Cons.prems(2) show ?thesis
      by (auto simp: LfuGet case_prod_beta Let_def)
  next
    case (LfuPut k v)
    obtain l1 es1 where s: "lf_put k v l = Inr l1" "lf_inv l1 es1"
      "map snd es1 = lfu_spec_put cap k v (map snd es)" "lf_Capacity l1 = cap"
      by (rule lf_put_ok [OF Cons.prems])
    from Cons.IH [OF s(2,4)] s show ?thesis by (simp add: LfuPut)
  qed
qed auto

lemma lf_inv_New: "lf_inv (NewLFUCache cap) []"
  by (simp add: lf_inv_def lf_repr_def NewLFUCache_def buckets_def lf_bucket_def fun_eq_iff)

text \<open>
  C2. For every capacity (a negative one never evicts, as in the code, and 0 stores nothing) any
  sequence of \<open>get\<close> and \<open>put\<close> on a new cache runs without a nil dereference and returns what the
  list model returns, which evicts the least recently used among the least frequently used entries;
  the lists of the frequencies, \<open>MinFreq\<close>, the key map and the size agree with the list model.
\<close>
theorem lf_run_refines:
  "\<exists>l es. lf_run ops (NewLFUCache cap) = Inr (fst (lfu_spec_run cap ops []), l) \<and> lf_inv l es \<and>
     map snd es = snd (lfu_spec_run cap ops [])"
  using lf_run_ok [OF lf_inv_New, of cap cap ops] by (simp add: NewLFUCache_def)

theorem lf_run_refines_witness:
  "\<exists>l es. lf_run [LfuPut 1 10, LfuPut 2 20, LfuGet 1, LfuPut 3 30, LfuGet 2, LfuGet 3, LfuPut 4 40, LfuGet 3]
       (NewLFUCache 2) = Inr ([10, -1, 30, 30], l) \<and> lf_inv l es \<and> map snd es = [(3, 30, 3), (4, 40, 1)]"
  using lf_run_refines [of "[LfuPut 1 10, LfuPut 2 20, LfuGet 1, LfuPut 3 30, LfuGet 2, LfuGet 3, LfuPut 4 40, LfuGet 3]" 2]
  by (simp add: lfu_spec_get_def lfu_spec_put_def lfu_spec_evict_def lfu_freq_def)

end
