(* ===== verification/Kv_Interface.thy ===== *)
theory Kv_Interface
  imports Go_Prelude
begin

text \<open>
  The contract the key-value components share: a store with \<open>Set\<close>, \<open>Get\<close> and \<open>Delete\<close> behaves as
  a finite map. A provider gives its operations, its invariant and its abstraction to a map; the
  locale proves once that every sequence of calls then runs without aborting and returns what the
  map returns.

  A provider may promise this only while it is small enough (a hash table whose capacity is cast
  to 32 bits). \<open>load\<close> measures that, one operation adds at most \<open>cost\<close>, and the laws hold up to
  \<open>limit\<close>; a provider without such a bound takes 0 for all three.
\<close>

datatype ('k, 'v) kv_op = KvSet 'k 'v | KvGet 'k | KvDelete 'k

text \<open>A client's calls in order; the results of the \<open>Get\<close>s are collected.\<close>

fun kv_run :: "('k \<Rightarrow> 'v \<Rightarrow> 't \<Rightarrow> 't outcome) \<Rightarrow> ('k \<Rightarrow> 't \<Rightarrow> 'v option outcome) \<Rightarrow>
    ('k \<Rightarrow> 't \<Rightarrow> 't outcome) \<Rightarrow> ('k, 'v) kv_op list \<Rightarrow> 't \<Rightarrow> ('v option list \<times> 't) outcome" where
  "kv_run st gt dl [] t = Inr ([], t)"
| "kv_run st gt dl (KvSet k v # ops) t = and_then (st k v t) (kv_run st gt dl ops)"
| "kv_run st gt dl (KvGet k # ops) t = and_then (gt k t) (\<lambda>r.
     and_then (kv_run st gt dl ops t) (\<lambda>(rs, t'). Inr (r # rs, t')))"
| "kv_run st gt dl (KvDelete k # ops) t = and_then (dl k t) (kv_run st gt dl ops)"

text \<open>The same calls on a map.\<close>

fun kv_spec_run :: "('k, 'v) kv_op list \<Rightarrow> ('k \<rightharpoonup> 'v) \<Rightarrow> 'v option list \<times> ('k \<rightharpoonup> 'v)" where
  "kv_spec_run [] m = ([], m)"
| "kv_spec_run (KvSet k v # ops) m = kv_spec_run ops (m(k \<mapsto> v))"
| "kv_spec_run (KvGet k # ops) m = (let (rs, m') = kv_spec_run ops m in (m k # rs, m'))"
| "kv_spec_run (KvDelete k # ops) m = kv_spec_run ops (m(k := None))"

locale kv_store =
  fixes invar :: "'t \<Rightarrow> bool"
    and abs :: "'t \<Rightarrow> 'k \<Rightarrow> 'v option"
    and st :: "'k \<Rightarrow> 'v \<Rightarrow> 't \<Rightarrow> 't outcome"
    and gt :: "'k \<Rightarrow> 't \<Rightarrow> 'v option outcome"
    and load :: "'t \<Rightarrow> nat" and cost :: nat and limit :: nat
  assumes get_law: "invar t \<Longrightarrow> gt k t = Inr (abs t k)"
    and set_law: "invar t \<Longrightarrow> load t + cost \<le> limit \<Longrightarrow>
      \<exists>t'. st k v t = Inr t' \<and> invar t' \<and> abs t' = (abs t)(k \<mapsto> v) \<and> load t' \<le> load t + cost"
begin

lemma set_cases:
  assumes "invar t" "load t + cost \<le> limit"
  obtains t' where "st k v t = Inr t'" "invar t'" "abs t' = (abs t)(k \<mapsto> v)" "load t' \<le> load t + cost"
  using set_law [OF assms] by blast

lemma get_set:
  assumes "invar t" "load t + cost \<le> limit"
  shows "and_then (st k v t) (gt j) = Inr (if j = k then Some v else abs t j)"
proof -
  obtain t' where "st k v t = Inr t'" "invar t'" "abs t' = (abs t)(k \<mapsto> v)"
    using set_cases [OF assms] by metis
  then show ?thesis by (simp add: get_law)
qed

text \<open>A client that does not delete.\<close>

lemma run_without_delete:
  assumes "invar t" "load t + length ops * cost \<le> limit" "\<forall>k. KvDelete k \<notin> set ops"
  shows "\<exists>t'. kv_run st gt dl ops t = Inr (fst (kv_spec_run ops (abs t)), t') \<and> invar t' \<and>
     abs t' = snd (kv_spec_run ops (abs t))"
  using assms
proof (induction ops arbitrary: t)
  case (Cons oper ops)
  then have room: "load t + cost \<le> limit" and no: "\<forall>k. KvDelete k \<notin> set ops" and
    rest: "load t' \<le> load t + cost \<Longrightarrow> load t' + length ops * cost \<le> limit" for t'
    by simp_all
  show ?case
  proof (cases oper)
    case (KvSet k v)
    obtain t' where t': "st k v t = Inr t'" "invar t'" "abs t' = (abs t)(k \<mapsto> v)"
      "load t' \<le> load t + cost"
      using set_cases [OF Cons.prems(1) room] by metis
    from Cons.IH [OF t'(2) rest [OF t'(4)] no] t'(1) show ?thesis
      unfolding KvSet t'(3) by (simp del: fun_upd_apply)
  next
    case (KvGet k)
    have "load t \<le> load t + cost" by simp
    from Cons.IH [OF Cons.prems(1) rest [OF this] no] show ?thesis
      using get_law [OF Cons.prems(1)] by (auto simp: KvGet case_prod_beta Let_def)
  qed (use Cons.prems(3) in auto)
qed simp

end

locale kv_store_del = kv_store invar abs st gt load cost limit
  for invar :: "'t \<Rightarrow> bool" and abs :: "'t \<Rightarrow> 'k \<Rightarrow> 'v option"
    and st :: "'k \<Rightarrow> 'v \<Rightarrow> 't \<Rightarrow> 't outcome" and gt :: "'k \<Rightarrow> 't \<Rightarrow> 'v option outcome"
    and load :: "'t \<Rightarrow> nat" and cost :: nat and limit :: nat +
  fixes dl :: "'k \<Rightarrow> 't \<Rightarrow> 't outcome"
  assumes del_law: "invar t \<Longrightarrow> load t + cost \<le> limit \<Longrightarrow>
      \<exists>t'. dl k t = Inr t' \<and> invar t' \<and> abs t' = (abs t)(k := None) \<and> load t' \<le> load t + cost"
begin

lemma run_refines_map:
  assumes "invar t" "load t + length ops * cost \<le> limit"
  shows "\<exists>t'. kv_run st gt dl ops t = Inr (fst (kv_spec_run ops (abs t)), t') \<and> invar t' \<and>
     abs t' = snd (kv_spec_run ops (abs t))"
  using assms
proof (induction ops arbitrary: t)
  case (Cons oper ops)
  then have room: "load t + cost \<le> limit" and
    rest: "load t' \<le> load t + cost \<Longrightarrow> load t' + length ops * cost \<le> limit" for t'
    by simp_all
  show ?case
  proof (cases oper)
    case (KvSet k v)
    obtain t' where t': "st k v t = Inr t'" "invar t'" "abs t' = (abs t)(k \<mapsto> v)"
      "load t' \<le> load t + cost"
      using set_cases [OF Cons.prems(1) room] by metis
    from Cons.IH [OF t'(2) rest [OF t'(4)]] t'(1) show ?thesis
      unfolding KvSet t'(3) by (simp del: fun_upd_apply)
  next
    case (KvGet k)
    have "load t \<le> load t + cost" by simp
    from Cons.IH [OF Cons.prems(1) rest [OF this]] show ?thesis
      using get_law [OF Cons.prems(1)] by (auto simp: KvGet case_prod_beta Let_def)
  next
    case (KvDelete k)
    obtain t' where t': "dl k t = Inr t'" "invar t'" "abs t' = (abs t)(k := None)"
      "load t' \<le> load t + cost"
      using del_law [OF Cons.prems(1) room] by metis
    from Cons.IH [OF t'(2) rest [OF t'(4)]] t'(1) show ?thesis
      unfolding KvDelete t'(3) by (simp del: fun_upd_apply)
  qed
qed simp

end

end
