(* ===== verification/Skip_List.thy ===== *)
theory Skip_List
  imports Complex_Main Go_Prelude Kv_Interface
begin

text \<open>
  \<open>05-Skip-List/main.go\<close>: the skip list with its nodes in a heap and its forward pointers as
  arrays of pointers. A walk along one level is a loop through pointers that need not end, and every
  array access may be out of range; both are outcomes of the model. The random draws that choose the
  height of a new node are part of the state, an arbitrary sequence: nothing here depends on them.

  \<open>sk_repr\<close> says that level \<open>i\<close> links the head and those nodes, in key order, that are taller than
  \<open>i\<close>. \<open>Search\<close>, \<open>Insert\<close> and \<open>Delete\<close> then behave as a map from keys to values.
\<close>

type_synonym addr = nat

record 'v skip_node =
  sn_key :: int
  sn_value :: 'v
  sn_forward :: "addr option list"

type_synonym 'v skip_heap = "(addr, 'v skip_node) gomap"

record 'v skip_list =
  sk_head :: addr
  sk_level :: nat
  sk_maxLevel :: nat
  sk_probability :: real
  sk_Heap :: "'v skip_heap"
  sk_Fresh :: addr
  sk_rand :: "nat \<Rightarrow> real"

definition NewSkipList :: "'v \<Rightarrow> (nat \<Rightarrow> real) \<Rightarrow> int \<Rightarrow> real \<Rightarrow> 'v skip_list" where
  "NewSkipList zero rnd maxLevel probability =
     (let m = (if maxLevel \<le> 0 then 16 else nat maxLevel);
          p = (if probability \<le> 0 \<or> probability \<ge> 1 then 0.5 else probability)
      in \<lparr>sk_head = 0, sk_level = 0, sk_maxLevel = m, sk_probability = p,
          sk_Heap = fmupd 0 \<lparr>sn_key = - (2 ^ 62), sn_value = zero, sn_forward = replicate (m + 1) None\<rparr> fmempty,
          sk_Fresh = 1, sk_rand = rnd\<rparr>)"

text \<open>\<open>p.forward[i]\<close> as a value and as the target of an assignment, and \<open>a[i] = x\<close> for a slice.\<close>

definition fwd :: "'v skip_heap \<Rightarrow> addr \<Rightarrow> nat \<Rightarrow> addr option outcome" where
  "fwd h p i = (case fmlookup h p of None \<Rightarrow> Inl NilDereference
     | Some n \<Rightarrow> if i < length (sn_forward n) then Inr (sn_forward n ! i) else Inl IndexOutOfRange)"

definition set_fwd :: "'v skip_heap \<Rightarrow> addr \<Rightarrow> nat \<Rightarrow> addr option \<Rightarrow> 'v skip_heap outcome" where
  "set_fwd h p i q = (case fmlookup h p of None \<Rightarrow> Inl NilDereference
     | Some n \<Rightarrow> if i < length (sn_forward n)
                 then Inr (fmupd p (n\<lparr>sn_forward := (sn_forward n)[i := q]\<rparr>) h) else Inl IndexOutOfRange)"

definition put_at :: "nat \<Rightarrow> 'a \<Rightarrow> 'a list \<Rightarrow> 'a list outcome" where
  "put_at i x xs = (if i < length xs then Inr (xs[i := x]) else Inl IndexOutOfRange)"

text \<open>\<open>for node.forward[i] != nil && node.forward[i].key < key { node = node.forward[i] }\<close>\<close>

partial_function (option) sk_walk :: "'v skip_heap \<Rightarrow> nat \<Rightarrow> int \<Rightarrow> addr \<Rightarrow> addr outcome option" where
  [code]: "sk_walk h i key node =
     (case fwd h node i of
        Inl e \<Rightarrow> Some (Inl e)
      | Inr None \<Rightarrow> Some (Inr node)
      | Inr (Some q) \<Rightarrow>
          (case fmlookup h q of
             None \<Rightarrow> Some (Inl NilDereference)
           | Some n \<Rightarrow> if sn_key n < key then sk_walk h i key q else Some (Inr node)))"

text \<open>The descent through the levels, without and with the array \<open>update\<close>.\<close>

fun sk_find :: "'v skip_heap \<Rightarrow> int \<Rightarrow> nat \<Rightarrow> addr \<Rightarrow> addr outcome" where
  "sk_find h key 0 node = ended (sk_walk h 0 key node)"
| "sk_find h key (Suc i) node = and_then (ended (sk_walk h (Suc i) key node)) (sk_find h key i)"

fun sk_path :: "'v skip_heap \<Rightarrow> int \<Rightarrow> nat \<Rightarrow> addr \<Rightarrow> addr option list \<Rightarrow> (addr \<times> addr option list) outcome" where
  "sk_path h key 0 node upd =
     and_then (ended (sk_walk h 0 key node)) (\<lambda>p.
     and_then (put_at 0 (Some p) upd) (\<lambda>upd. Inr (p, upd)))"
| "sk_path h key (Suc i) node upd =
     and_then (ended (sk_walk h (Suc i) key node)) (\<lambda>p.
     and_then (put_at (Suc i) (Some p) upd) (sk_path h key i p))"

definition sk_Search :: "int \<Rightarrow> 'v skip_list \<Rightarrow> 'v option outcome" where
  "sk_Search key s =
     and_then (sk_find (sk_Heap s) key (sk_level s) (sk_head s)) (\<lambda>p.
     and_then (fwd (sk_Heap s) p 0) (\<lambda>q. case q of
       None \<Rightarrow> Inr None
     | Some a \<Rightarrow> (case fmlookup (sk_Heap s) a of None \<Rightarrow> Inl NilDereference
         | Some n \<Rightarrow> Inr (if sn_key n = key then Some (sn_value n) else None))))"

text \<open>One draw per test; the last one is used up as well.\<close>

function sk_randomLevel :: "nat \<Rightarrow> real \<Rightarrow> (nat \<Rightarrow> real) \<Rightarrow> nat \<Rightarrow> nat \<times> (nat \<Rightarrow> real)" where
  "sk_randomLevel maxLevel p rnd level =
     (if level < maxLevel
      then (if rnd 0 < p then sk_randomLevel maxLevel p (\<lambda>n. rnd (n + 1)) (level + 1)
            else (level, \<lambda>n. rnd (n + 1)))
      else (level, rnd))"
  by pat_completeness auto
termination
  by (relation "measure (\<lambda>(m, p, r, l). m - l)") auto

declare sk_randomLevel.simps [simp del]

text \<open>\<open>created.forward[i] = update[i].forward[i]; update[i].forward[i] = created\<close>\<close>

definition sk_splice :: "addr \<Rightarrow> addr option list \<Rightarrow> nat \<Rightarrow> 'v skip_heap \<Rightarrow> 'v skip_heap outcome" where
  "sk_splice created upd i h =
     (if i < length upd then (case upd ! i of None \<Rightarrow> Inl NilDereference | Some p \<Rightarrow>
        and_then (fwd h p i) (\<lambda>q.
        and_then (set_fwd h created i q) (\<lambda>h.
        set_fwd h p i (Some created))))
      else Inl IndexOutOfRange)"

definition sk_Insert :: "int \<Rightarrow> 'v \<Rightarrow> 'v skip_list \<Rightarrow> 'v skip_list outcome" where
  "sk_Insert key v s = (let h = sk_Heap s in
     and_then (sk_path h key (sk_level s) (sk_head s) (replicate (sk_maxLevel s + 1) None)) (\<lambda>(node, upd).
     and_then (fwd h node 0) (\<lambda>existing.
     and_then (case existing of None \<Rightarrow> Inr None
        | Some a \<Rightarrow> (case fmlookup h a of None \<Rightarrow> Inl NilDereference
            | Some n \<Rightarrow> Inr (if sn_key n = key then Some (a, n) else None))) (\<lambda>hit.
     case hit of
       Some (a, n) \<Rightarrow> Inr (s\<lparr>sk_Heap := fmupd a (n\<lparr>sn_value := v\<rparr>) h\<rparr>)
     | None \<Rightarrow>
         (let (newLevel, rnd) = sk_randomLevel (sk_maxLevel s) (sk_probability s) (sk_rand s) 0;
              s = s\<lparr>sk_rand := rnd\<rparr>
          in and_then
            (if newLevel > sk_level s
             then each (\<lambda>i. put_at i (Some (sk_head s))) [sk_level s + 1..<newLevel + 1] upd
             else Inr upd) (\<lambda>upd.
          let s = (if newLevel > sk_level s then s\<lparr>sk_level := newLevel\<rparr> else s);
              created = sk_Fresh s;
              h = fmupd created \<lparr>sn_key = key, sn_value = v, sn_forward = replicate (newLevel + 1) None\<rparr> h
          in and_then (each (sk_splice created upd) [0..<newLevel + 1] h) (\<lambda>h.
             Inr (s\<lparr>sk_Heap := h, sk_Fresh := created + 1\<rparr>))))))))"

text \<open>The loop that takes the node out of its levels, until a level does not hold it.\<close>

fun sk_unsplice :: "addr \<Rightarrow> addr option list \<Rightarrow> nat list \<Rightarrow> 'v skip_heap \<Rightarrow> 'v skip_heap outcome" where
  "sk_unsplice target upd [] h = Inr h"
| "sk_unsplice target upd (i # is) h =
     (if i < length upd then (case upd ! i of None \<Rightarrow> Inl NilDereference | Some p \<Rightarrow>
        and_then (fwd h p i) (\<lambda>q.
        if q = Some target
        then (case fmlookup h target of None \<Rightarrow> Inl NilDereference | Some t \<Rightarrow>
                and_then (set_fwd h p i (if i < length (sn_forward t) then sn_forward t ! i else None))
                  (sk_unsplice target upd is))
        else Inr h))
      else Inl IndexOutOfRange)"

text \<open>\<open>for sl.level > 0 && sl.head.forward[sl.level] == nil { sl.level-- }\<close>\<close>

fun sk_lower :: "'v skip_heap \<Rightarrow> addr \<Rightarrow> nat \<Rightarrow> nat outcome" where
  "sk_lower h head 0 = Inr 0"
| "sk_lower h head (Suc l) = and_then (fwd h head (Suc l)) (\<lambda>q.
     if q = None then sk_lower h head l else Inr (Suc l))"

definition sk_Delete :: "int \<Rightarrow> 'v skip_list \<Rightarrow> (bool \<times> 'v skip_list) outcome" where
  "sk_Delete key s = (let h = sk_Heap s in
     and_then (sk_path h key (sk_level s) (sk_head s) (replicate (sk_maxLevel s + 1) None)) (\<lambda>(node, upd).
     and_then (fwd h node 0) (\<lambda>target. case target of
       None \<Rightarrow> Inr (False, s)
     | Some a \<Rightarrow> (case fmlookup h a of None \<Rightarrow> Inl NilDereference | Some t \<Rightarrow>
         if sn_key t \<noteq> key then Inr (False, s)
         else and_then (sk_unsplice a upd [0..<sk_level s + 1] h) (\<lambda>h.
              and_then (sk_lower h (sk_head s) (sk_level s)) (\<lambda>l.
              Inr (True, s\<lparr>sk_Heap := h, sk_level := l\<rparr>)))))))"

subsection \<open>Nodes and their arrays\<close>

definition tall :: "'v skip_heap \<Rightarrow> addr \<Rightarrow> nat" where
  "tall h a = (case fmlookup h a of None \<Rightarrow> 0 | Some n \<Rightarrow> length (sn_forward n))"

definition sk_entry :: "'v skip_heap \<Rightarrow> addr \<Rightarrow> (int \<times> 'v) option" where
  "sk_entry h a = map_option (\<lambda>n. (sn_key n, sn_value n)) (fmlookup h a)"

text \<open>The contents of a heap: who is there, with what key and value, how tall, linked where.\<close>

definition key_at :: "'v skip_heap \<Rightarrow> addr \<Rightarrow> int" where
  "key_at h a = (case sk_entry h a of None \<Rightarrow> 0 | Some e \<Rightarrow> fst e)"

lemma sk_entryD:
  assumes "sk_entry h a = Some (k, v)"
  obtains n where "fmlookup h a = Some n" "sn_key n = k" "sn_value n = v"
  using assms by (auto simp: sk_entry_def)

lemma sk_entry_None: "sk_entry h a = None \<longleftrightarrow> fmlookup h a = None"
  by (simp add: sk_entry_def)

lemma set_fwd_ok:
  assumes "i < tall h a"
  obtains h' where "set_fwd h a i q = Inr h'" "sk_entry h' = sk_entry h" "tall h' = tall h"
    "fmdom h' = fmdom h" "\<And>b j. fwd h' b j = (if b = a \<and> j = i then Inr q else fwd h b j)"
proof -
  obtain n where n: "fmlookup h a = Some n" "i < length (sn_forward n)"
    using assms by (auto simp: tall_def split: option.splits)
  let ?h = "fmupd a (n\<lparr>sn_forward := (sn_forward n)[i := q]\<rparr>) h"
  have "fmdom ?h = fmdom h" using n(1) by (auto intro: fmdomI)
  then show ?thesis
    using n by (intro that [of ?h]) (auto simp: set_fwd_def sk_entry_def tall_def fwd_def fun_eq_iff nth_list_update split: option.splits)
qed

lemma fwd_in: "fwd h a i = Inr q \<Longrightarrow> i < tall h a"
  by (auto simp: fwd_def tall_def split: option.splits if_splits)

subsection \<open>The links of one level\<close>

definition first :: "addr list \<Rightarrow> addr option" where
  "first xs = (case xs of [] \<Rightarrow> None | x # _ \<Rightarrow> Some x)"

lemma first_simps [simp]: "first [] = None" "first (x # xs) = Some x"
  "first (us @ x # vs) = (case us of [] \<Rightarrow> Some x | u # _ \<Rightarrow> Some u)"
  by (simp_all add: first_def split: list.split)

fun lane :: "(addr \<Rightarrow> addr option outcome) \<Rightarrow> addr list \<Rightarrow> bool" where
  "lane g [] \<longleftrightarrow> True"
| "lane g (a # as) \<longleftrightarrow> g a = Inr (first as) \<and> lane g as"

lemma lane_cong: "(\<And>a. a \<in> set as \<Longrightarrow> g' a = g a) \<Longrightarrow> lane g' as \<longleftrightarrow> lane g as"
  by (induction as) auto

lemma lane_at: "lane g (us @ p # vs) \<Longrightarrow> g p = Inr (first vs)"
  by (induction us) auto

lemma lane_suffix: "lane g (us @ vs) \<Longrightarrow> lane g vs"
  by (induction us) auto

lemma lane_insert:
  assumes "lane g (us @ p # vs)" "distinct (us @ p # vs)" "c \<notin> set (us @ p # vs)"
    and g': "g' c = g p" "g' p = Inr (Some c)" "\<And>a. a \<noteq> c \<Longrightarrow> a \<noteq> p \<Longrightarrow> g' a = g a"
  shows "lane g' (us @ p # c # vs)"
  using assms(1-3)
proof (induction us)
  case Nil
  then have "lane g' vs \<longleftrightarrow> lane g vs" by (intro lane_cong g'(3)) auto
  with Nil g' show ?case by simp
next
  case (Cons u us)
  then have "g' u = g u" using g'(3) by auto
  with Cons show ?case by simp
qed

lemma lane_remove:
  assumes "lane g (us @ p # t # vs)" "distinct (us @ p # t # vs)"
    and g': "g' p = g t" "\<And>a. a \<noteq> p \<Longrightarrow> g' a = g a"
  shows "lane g' (us @ p # vs)"
  using assms(1,2)
proof (induction us)
  case Nil
  then have "lane g' vs \<longleftrightarrow> lane g vs" by (intro lane_cong g'(2)) auto
  with Nil g' show ?case by simp
next
  case (Cons u us)
  then have "g' u = g u" using g'(2) by auto
  with Cons show ?case by simp
qed

text \<open>The walk stops at the last node below the key.\<close>

lemma sk_walk_lane:
  assumes "lane (\<lambda>a. fwd h a i) (p # ys @ zs)"
    and "\<And>y. y \<in> set ys \<Longrightarrow> \<exists>k v. sk_entry h y = Some (k, v) \<and> k < key"
    and "\<And>z. z \<in> set zs \<Longrightarrow> \<exists>k v. sk_entry h z = Some (k, v) \<and> key \<le> k"
  shows "sk_walk h i key p = Some (Inr (last (p # ys)))"
  using assms
proof (induction ys arbitrary: p)
  case Nil
  show ?case
  proof (cases zs)
    case Nil
    then show ?thesis using Nil.prems(1) by (simp add: sk_walk.simps)
  next
    case (Cons z zs')
    then obtain k v where "sk_entry h z = Some (k, v)" "key \<le> k"
      using Nil.prems(3) [of z] by auto
    then obtain n where "fmlookup h z = Some n" "\<not> sn_key n < key" by (auto elim: sk_entryD)
    then show ?thesis using Nil.prems(1) Cons by (simp add: sk_walk.simps)
  qed
next
  case (Cons y ys)
  obtain k v where "sk_entry h y = Some (k, v)" "k < key" using Cons.prems(2) [of y] by auto
  then obtain n where n: "fmlookup h y = Some n" "sn_key n < key" by (auto elim: sk_entryD)
  have "sk_walk h i key y = Some (Inr (last (y # ys)))"
    using Cons.prems by (intro Cons.IH) auto
  then show ?case using Cons.prems(1) n by (simp add: sk_walk.simps [of h i key p])
qed

subsection \<open>The descent\<close>

definition lvl :: "'v skip_heap \<Rightarrow> nat \<Rightarrow> addr list \<Rightarrow> addr list" where
  "lvl h i as = filter (\<lambda>a. i < tall h a) as"

lemma lvl_simps [simp]:
  "lvl h i [] = []" "lvl h i (us @ vs) = lvl h i us @ lvl h i vs"
  "lvl h i (a # as) = (if i < tall h a then a # lvl h i as else lvl h i as)"
  by (simp_all add: lvl_def)

lemma lvl_mono: "i \<le> j \<Longrightarrow> set (lvl h j as) \<subseteq> set (lvl h i as)"
  by (auto simp: lvl_def)

text \<open>
  \<open>us\<close> are the nodes below the key and \<open>vs\<close> the others; the predecessor on level \<open>i\<close> is the last
  node of \<open>us\<close> there, or the head.
\<close>

definition pred_at :: "'v skip_heap \<Rightarrow> addr \<Rightarrow> addr list \<Rightarrow> nat \<Rightarrow> addr" where
  "pred_at h hnode us i = last (hnode # lvl h i us)"

definition parted :: "'v skip_heap \<Rightarrow> int \<Rightarrow> addr list \<Rightarrow> addr list \<Rightarrow> bool" where
  "parted h key us vs \<longleftrightarrow> (\<forall>a \<in> set us. \<exists>k v. sk_entry h a = Some (k, v) \<and> k < key) \<and>
     (\<forall>a \<in> set vs. \<exists>k v. sk_entry h a = Some (k, v) \<and> key \<le> k)"

definition lanes :: "'v skip_heap \<Rightarrow> addr \<Rightarrow> addr list \<Rightarrow> nat \<Rightarrow> bool" where
  "lanes h hnode as m \<longleftrightarrow> (\<forall>i \<le> m. lane (\<lambda>a. fwd h a i) (hnode # lvl h i as))"

lemma pred_at_in: "pred_at h hnode us i \<in> set (hnode # lvl h i us)"
  unfolding pred_at_def by (rule last_in_set) simp

lemma sk_walk_pred:
  assumes "lanes h hnode (us @ vs) m" "parted h key us vs" "i \<le> m" "p \<in> set (hnode # lvl h i us)"
  shows "sk_walk h i key p = Some (Inr (pred_at h hnode us i))"
proof -
  obtain xs ys where s: "hnode # lvl h i us = xs @ p # ys" using assms(4) by (metis split_list)
  then have "set ys \<subseteq> set (lvl h i us)" by (cases xs) auto
  then have "set ys \<subseteq> set us" by (auto simp: lvl_def)
  have "lane (\<lambda>a. fwd h a i) ((hnode # lvl h i us) @ lvl h i vs)"
    using assms(1,3) by (simp add: lanes_def)
  then have "lane (\<lambda>a. fwd h a i) (p # ys @ lvl h i vs)"
    unfolding s using lane_suffix [of _ xs "p # ys @ lvl h i vs"] by simp
  then have "sk_walk h i key p = Some (Inr (last (p # ys)))"
  proof (rule sk_walk_lane)
    show "\<exists>k v. sk_entry h y = Some (k, v) \<and> k < key" if "y \<in> set ys" for y
      using that \<open>set ys \<subseteq> set us\<close> assms(2) unfolding parted_def by blast
    show "\<exists>k v. sk_entry h y = Some (k, v) \<and> key \<le> k" if "y \<in> set (lvl h i vs)" for y
      using that assms(2) unfolding parted_def by (auto simp: lvl_def)
  qed
  then show ?thesis unfolding pred_at_def s by simp
qed

lemma pred_at_down: "pred_at h hnode us (Suc i) \<in> set (hnode # lvl h i us)"
  using pred_at_in [of h hnode us "Suc i"] lvl_mono [of i "Suc i" h us] by auto

lemma sk_find_ok:
  assumes "lanes h hnode (us @ vs) m" "parted h key us vs" "i \<le> m" "p \<in> set (hnode # lvl h i us)"
  shows "sk_find h key i p = Inr (pred_at h hnode us 0)"
  using assms(3,4)
proof (induction i arbitrary: p)
  case 0
  then show ?case using sk_walk_pred [OF assms(1,2)] by simp
next
  case (Suc i)
  then show ?case
    using sk_walk_pred [OF assms(1,2) Suc.prems] Suc.IH [OF _ pred_at_down] by simp
qed

lemma sk_path_ok:
  assumes "lanes h hnode (us @ vs) m" "parted h key us vs"
    and "i \<le> m" "p \<in> set (hnode # lvl h i us)" "i < length upd"
  shows "\<exists>upd'. sk_path h key i p upd = Inr (pred_at h hnode us 0, upd') \<and> length upd' = length upd \<and>
    (\<forall>j < length upd. upd' ! j = (if j \<le> i then Some (pred_at h hnode us j) else upd ! j))"
  using assms(3-)
proof (induction i arbitrary: p upd)
  case 0
  then show ?case using sk_walk_pred [OF assms(1,2) 0(1,2)] by (simp add: put_at_def nth_list_update)
next
  case (Suc i)
  let ?u = "upd[Suc i := Some (pred_at h hnode us (Suc i))]"
  have "i \<le> m" "i < length ?u" using Suc.prems by simp_all
  from Suc.IH [OF this(1) pred_at_down this(2)]
  obtain upd' where u: "sk_path h key i (pred_at h hnode us (Suc i)) ?u = Inr (pred_at h hnode us 0, upd')"
    "length upd' = length upd"
    "\<forall>j < length upd. upd' ! j = (if j \<le> i then Some (pred_at h hnode us j) else ?u ! j)" by auto
  moreover have "sk_path h key (Suc i) p upd = sk_path h key i (pred_at h hnode us (Suc i)) ?u"
    using sk_walk_pred [OF assms(1,2) Suc.prems(1,2)] Suc.prems(3) by (simp add: put_at_def)
  moreover have "\<forall>j < length upd. upd' ! j = (if j \<le> Suc i then Some (pred_at h hnode us j) else upd ! j)"
    using u(3) by (auto simp: nth_list_update le_Suc_eq)
  ultimately show ?case by metis
qed

subsection \<open>Representation\<close>

definition sk_repr :: "'v skip_list \<Rightarrow> addr list \<Rightarrow> bool" where
  "sk_repr s as \<longleftrightarrow>
     sk_head s \<notin> set as \<and> tall (sk_Heap s) (sk_head s) = sk_maxLevel s + 1 \<and> sk_level s \<le> sk_maxLevel s \<and>
     (\<forall>a \<in> set as. sk_entry (sk_Heap s) a \<noteq> None \<and> 0 < tall (sk_Heap s) a \<and> tall (sk_Heap s) a \<le> sk_level s + 1) \<and>
     sorted_wrt (\<lambda>a b. key_at (sk_Heap s) a < key_at (sk_Heap s) b) as \<and>
     lanes (sk_Heap s) (sk_head s) as (sk_maxLevel s) \<and>
     (\<forall>a \<in> fset (fmdom (sk_Heap s)). a < sk_Fresh s)"

text \<open>The map a list of nodes stands for.\<close>

definition sk_map :: "'v skip_heap \<Rightarrow> addr list \<Rightarrow> int \<Rightarrow> 'v option" where
  "sk_map h as = map_of (map (\<lambda>a. the (sk_entry h a)) as)"

lemma sk_reprD:
  assumes "sk_repr s as"
  shows "sk_head s \<notin> set as" "tall (sk_Heap s) (sk_head s) = sk_maxLevel s + 1" "sk_level s \<le> sk_maxLevel s"
    and "\<And>a. a \<in> set as \<Longrightarrow> sk_entry (sk_Heap s) a \<noteq> None" "\<And>a. a \<in> set as \<Longrightarrow> 0 < tall (sk_Heap s) a"
    and "\<And>a. a \<in> set as \<Longrightarrow> tall (sk_Heap s) a \<le> sk_level s + 1"
    and "sorted_wrt (\<lambda>a b. key_at (sk_Heap s) a < key_at (sk_Heap s) b) as"
    and "lanes (sk_Heap s) (sk_head s) as (sk_maxLevel s)"
    and "\<forall>a \<in> fset (fmdom (sk_Heap s)). a < sk_Fresh s"
  using assms unfolding sk_repr_def by blast+

lemma sk_repr_distinct: "sk_repr s as \<Longrightarrow> distinct (sk_head s # as)"
proof -
  have "sorted_wrt (\<lambda>a b. key_at h a < key_at h b) as \<Longrightarrow> distinct as" for h :: "'a skip_heap"
    by (induction as) auto
  then show "sk_repr s as \<Longrightarrow> distinct (sk_head s # as)" using sk_reprD(1,7) by fastforce
qed

text \<open>The parting of the nodes at a key.\<close>

lemma sk_parting:
  assumes "sk_repr s as"
  obtains us vs where "as = us @ vs" "parted (sk_Heap s) key us vs"
    "vs = [] \<or> (\<forall>a \<in> set (tl vs). \<exists>k v. sk_entry (sk_Heap s) a = Some (k, v) \<and> key < k)"
proof -
  let ?h = "sk_Heap s" and ?P = "\<lambda>a. key_at (sk_Heap s) a < key"
  let ?us = "takeWhile ?P as" and ?vs = "dropWhile ?P as"
  have entry: "\<exists>v. sk_entry ?h a = Some (key_at ?h a, v)" if "a \<in> set as" for a
    using sk_reprD(4) [OF assms that] by (auto simp: key_at_def)
  have sorted: "sorted_wrt (\<lambda>a b. key_at ?h a < key_at ?h b) (?us @ ?vs)"
    using sk_reprD(7) [OF assms] by simp
  have vs: "key \<le> key_at ?h a" if "a \<in> set ?vs" for a
  proof (cases ?vs)
    case (Cons v vs')
    then have "\<not> ?P v" by (metis dropWhile_eq_Cons_conv)
    then show ?thesis using that sorted Cons by (auto simp: sorted_wrt_append)
  next
    case Nil
    then show ?thesis using that by (metis list.distinct(1) list.set_cases)
  qed
  have tl: "key < key_at ?h a" if "?vs = v # vs'" "a \<in> set vs'" for a v vs'
  proof -
    have "key_at ?h v < key_at ?h a" using sorted that by (simp add: sorted_wrt_append)
    moreover have "key \<le> key_at ?h v" using vs that(1) by simp
    ultimately show ?thesis by simp
  qed
  have "parted ?h key ?us ?vs"
    unfolding parted_def using entry vs by (metis set_dropWhileD set_takeWhileD)
  moreover have "?vs = [] \<or> (\<forall>a \<in> set (tl ?vs). \<exists>k v. sk_entry ?h a = Some (k, v) \<and> key < k)"
    using entry tl by (cases ?vs) (auto dest: set_dropWhileD, metis set_dropWhileD list.set_intros(2))
  ultimately show ?thesis using that [of ?us ?vs] by simp
qed

lemma pred_at_next:
  assumes "lanes h hnode (us @ vs) m" "i \<le> m"
  shows "fwd h (pred_at h hnode us i) i = Inr (first (lvl h i vs))"
proof -
  have "hnode # lvl h i us = butlast (hnode # lvl h i us) @ [pred_at h hnode us i]"
    unfolding pred_at_def by (metis append_butlast_last_id list.distinct(1))
  moreover have "lane (\<lambda>a. fwd h a i) ((hnode # lvl h i us) @ lvl h i vs)"
    using assms by (simp add: lanes_def)
  ultimately have "lane (\<lambda>a. fwd h a i) (butlast (hnode # lvl h i us) @ pred_at h hnode us i # lvl h i vs)"
    by (metis append.assoc append_Cons append_Nil)
  then show ?thesis by (rule lane_at)
qed

text \<open>What a descent to a key finds in a represented list.\<close>

definition sk_hit :: "'v skip_heap \<Rightarrow> int \<Rightarrow> addr list \<Rightarrow> (addr \<times> 'v skip_node) option" where
  "sk_hit h key vs = (case vs of [] \<Rightarrow> None | a # _ \<Rightarrow>
     (case fmlookup h a of None \<Rightarrow> None | Some n \<Rightarrow> if sn_key n = key then Some (a, n) else None))"

lemma sk_hit_map:
  assumes "parted h key us vs" "vs = [] \<or> (\<forall>a \<in> set (tl vs). \<exists>k v. sk_entry h a = Some (k, v) \<and> key < k)"
  shows "sk_map h (us @ vs) key = map_option (\<lambda>(a, n). sn_value n) (sk_hit h key vs)"
proof -
  have not: "map_of (map (\<lambda>a. the (sk_entry h a)) xs) key = None"
    if "\<forall>a \<in> set xs. \<exists>k v. sk_entry h a = Some (k, v) \<and> k \<noteq> key" for xs
    using that by (induction xs) auto
  have us: "map_of (map (\<lambda>a. the (sk_entry h a)) us) key = None"
    using assms(1) by (intro not) (fastforce simp: parted_def)
  show ?thesis
  proof (cases vs)
    case Nil
    then show ?thesis using us by (simp add: sk_map_def sk_hit_def)
  next
    case (Cons a vs')
    then obtain k v where a: "sk_entry h a = Some (k, v)" using assms(1) by (auto simp: parted_def)
    then obtain n where n: "fmlookup h a = Some n" "sn_key n = k" "sn_value n = v" by (rule sk_entryD)
    have "map_of (map (\<lambda>a. the (sk_entry h a)) vs') key = None"
      using assms(2) Cons by (intro not) fastforce
    then show ?thesis using us a n by (simp add: Cons sk_map_def sk_hit_def map_add_def)
  qed
qed

lemma sk_first_level:
  assumes "sk_repr s (us @ vs)"
  shows "lvl (sk_Heap s) 0 vs = vs"
  using sk_reprD(5) [OF assms] by (auto simp: lvl_def filter_id_conv)

lemma sk_hit_lookup:
  assumes "sk_repr s (us @ vs)"
  shows "(case first vs of None \<Rightarrow> Inr None
     | Some a \<Rightarrow> (case fmlookup (sk_Heap s) a of None \<Rightarrow> Inl NilDereference
         | Some n \<Rightarrow> Inr (if sn_key n = key then Some (a, n) else None))) = (Inr (sk_hit (sk_Heap s) key vs) :: _ outcome)"
proof (cases vs)
  case (Cons a vs')
  then have "sk_entry (sk_Heap s) a \<noteq> None" using sk_reprD(4) [OF assms, of a] by simp
  then show ?thesis using Cons by (auto simp: sk_hit_def sk_entry_def)
qed (simp add: sk_hit_def)

lemma sk_Search_ok:
  assumes "sk_repr s as"
  shows "sk_Search key s = Inr (sk_map (sk_Heap s) as key)"
proof -
  obtain us vs where p: "as = us @ vs" "parted (sk_Heap s) key us vs"
    "vs = [] \<or> (\<forall>a \<in> set (tl vs). \<exists>k v. sk_entry (sk_Heap s) a = Some (k, v) \<and> key < k)"
    by (rule sk_parting [OF assms])
  have r: "sk_repr s (us @ vs)" using assms p(1) by simp
  note lanes = sk_reprD(8) [OF r]
  have "sk_find (sk_Heap s) key (sk_level s) (sk_head s) = Inr (pred_at (sk_Heap s) (sk_head s) us 0)"
    using sk_reprD(3) [OF r] by (intro sk_find_ok [OF lanes p(2)]) simp_all
  moreover have "fwd (sk_Heap s) (pred_at (sk_Heap s) (sk_head s) us 0) 0 = Inr (first vs)"
    using pred_at_next [OF lanes, of 0] sk_first_level [OF r] by simp
  moreover have "sk_map (sk_Heap s) as key = map_option (\<lambda>(a, n). sn_value n) (sk_hit (sk_Heap s) key vs)"
    unfolding p(1) by (rule sk_hit_map [OF p(2,3)])
  moreover have "sk_entry (sk_Heap s) a \<noteq> None" if "first vs = Some a" for a
    using that sk_reprD(4) [OF r, of a] by (cases vs) auto
  ultimately show ?thesis
    by (cases vs) (auto simp: sk_Search_def sk_hit_def sk_entry_def)
qed

subsection \<open>The map a represented list stands for\<close>

lemma sk_map_iff:
  assumes "\<And>a. a \<in> set as \<Longrightarrow> sk_entry h a \<noteq> None"
    "sorted_wrt (\<lambda>a b. key_at h a < key_at h b) as"
  shows "sk_map h as k = Some v \<longleftrightarrow> (\<exists>a \<in> set as. sk_entry h a = Some (k, v))"
proof -
  have d: "distinct (map (key_at h) as)" using assms(2) by (induction as) auto
  have keys: "map (fst \<circ> (\<lambda>a. the (sk_entry h a))) as = map (key_at h) as"
    using assms(1) by (force simp: key_at_def split: option.splits)
  have "distinct (map fst (map (\<lambda>a. the (sk_entry h a)) as))" unfolding map_map keys by (rule d)
  then show ?thesis
    using assms(1) unfolding sk_map_def by (subst map_of_eq_Some_iff) (auto simp: image_iff, metis option.sel)
qed

lemma sk_repr_map_iff:
  "sk_repr s as \<Longrightarrow> sk_map (sk_Heap s) as k = Some v \<longleftrightarrow> (\<exists>a \<in> set as. sk_entry (sk_Heap s) a = Some (k, v))"
  by (rule sk_map_iff [OF sk_reprD(4,7)])

lemma map_eqI: "(\<And>k v. f k = Some v \<longleftrightarrow> g k = Some v) \<Longrightarrow> f = g"
  by (rule ext) (metis not_Some_eq)

lemma sk_repr_key: "sk_repr s as \<Longrightarrow> a \<in> set as \<Longrightarrow> \<exists>v. sk_entry (sk_Heap s) a = Some (key_at (sk_Heap s) a, v)"
  using sk_reprD(4) [of s as a] by (auto simp: key_at_def)

lemma sk_repr_inj:
  assumes "sk_repr s as" "a \<in> set as" "b \<in> set as" "key_at (sk_Heap s) a = key_at (sk_Heap s) b"
  shows "a = b"
  using sk_reprD(7) [OF assms(1)] assms(2-) by (induction as) auto

subsection \<open>Overwriting a value\<close>

lemma sk_setValue_ok:
  fixes s :: "'v skip_list" and w :: 'v
  assumes r: "sk_repr s as" and a: "a \<in> set as" "fmlookup (sk_Heap s) a = Some n"
  defines "h \<equiv> fmupd a (n\<lparr>sn_value := w\<rparr>) (sk_Heap s)"
  shows "sk_repr (s\<lparr>sk_Heap := h\<rparr>) as" "sk_map h as = (sk_map (sk_Heap s) as)(sn_key n \<mapsto> w)"
proof -
  have entry: "sk_entry h b = (if b = a then Some (sn_key n, w) else sk_entry (sk_Heap s) b)" for b
    by (simp add: h_def sk_entry_def)
  have same: "tall h = tall (sk_Heap s)" "fwd h = fwd (sk_Heap s)" "key_at h = key_at (sk_Heap s)"
    "fmdom h = fmdom (sk_Heap s)"
    using a(2) by (auto simp: h_def tall_def fwd_def key_at_def sk_entry_def fun_eq_iff intro: fmdomI)
  have "lvl h = lvl (sk_Heap s)" by (simp add: fun_eq_iff lvl_def same(1))
  then have "lanes h (sk_head s) as (sk_maxLevel s)"
    using sk_reprD(8) [OF r] by (simp add: lanes_def same(2))
  then show r': "sk_repr (s\<lparr>sk_Heap := h\<rparr>) as"
    using r unfolding sk_repr_def by (auto simp: same entry simp del: not_None_eq)
  have key: "key_at (sk_Heap s) a = sn_key n" using a(2) by (simp add: key_at_def sk_entry_def)
  show "sk_map h as = (sk_map (sk_Heap s) as)(sn_key n \<mapsto> w)"
  proof (rule map_eqI)
    fix k v
    have "sk_map h as k = Some v \<longleftrightarrow> (\<exists>b \<in> set as. sk_entry h b = Some (k, v))"
      using sk_repr_map_iff [OF r'] by simp
    also have "\<dots> \<longleftrightarrow> ((sk_map (sk_Heap s) as)(sn_key n \<mapsto> w)) k = Some v"
    proof (cases "k = sn_key n")
      case True
      have "b = a" if "b \<in> set as" "sk_entry h b = Some (k, v)" for b
      proof -
        have "key_at h b = key_at h a" using that(2) entry [of a] True by (simp add: key_at_def)
        then show ?thesis using sk_repr_inj [OF r' that(1) a(1)] by simp
      qed
      then have "(\<exists>b \<in> set as. sk_entry h b = Some (k, v)) \<longleftrightarrow> sk_entry h a = Some (k, v)"
        using a(1) by blast
      then show ?thesis using True entry [of a] by simp
    next
      case False
      have "sk_entry h b = Some (k, v) \<longleftrightarrow> sk_entry (sk_Heap s) b = Some (k, v)" for b
        using False key entry [of b] by (auto simp: key_at_def)
      then show ?thesis using False sk_repr_map_iff [OF r, of k v] by simp
    qed
    finally show "sk_map h as k = Some v \<longleftrightarrow> ((sk_map (sk_Heap s) as)(sn_key n \<mapsto> w)) k = Some v" .
  qed
qed

subsection \<open>Splicing a new node into its levels\<close>

lemma fwd_ok: "i < tall h a \<Longrightarrow> \<exists>q. fwd h a i = Inr q"
  by (auto simp: fwd_def tall_def split: option.splits)

lemma sk_splice_all:
  assumes "\<And>i. i < j \<Longrightarrow> i < length upd \<and> upd ! i = Some (P i) \<and> i < tall h (P i) \<and> P i \<noteq> c"
    and "j \<le> tall h c"
  shows "\<exists>h'. each (sk_splice c upd) [0..<j] h = Inr h' \<and> sk_entry h' = sk_entry h \<and> tall h' = tall h \<and>
    fmdom h' = fmdom h \<and>
    (\<forall>b i. fwd h' b i = (if i < j \<and> b = P i then Inr (Some c) else if i < j \<and> b = c then fwd h (P i) i else fwd h b i))"
  using assms
proof (induction j)
  case (Suc j)
  then obtain h1 where h1: "each (sk_splice c upd) [0..<j] h = Inr h1" "sk_entry h1 = sk_entry h" "tall h1 = tall h"
    "fmdom h1 = fmdom h"
    "\<And>b i. fwd h1 b i = (if i < j \<and> b = P i then Inr (Some c) else if i < j \<and> b = c then fwd h (P i) i else fwd h b i)"
    by (metis Suc_leD less_SucI)
  have j: "j < length upd" "upd ! j = Some (P j)" "j < tall h (P j)" "P j \<noteq> c" using Suc.prems(1) [of j] by simp_all
  obtain q where q: "fwd h (P j) j = Inr q" using fwd_ok [OF j(3)] by blast
  then have q1: "fwd h1 (P j) j = Inr q" using h1(5) by simp
  have "j < tall h1 c" using Suc.prems(2) h1(3) by simp
  then obtain h2 where h2: "set_fwd h1 c j q = Inr h2" "sk_entry h2 = sk_entry h1" "tall h2 = tall h1"
    "fmdom h2 = fmdom h1" "\<And>b i. fwd h2 b i = (if b = c \<and> i = j then Inr q else fwd h1 b i)"
    using set_fwd_ok by metis
  have "j < tall h2 (P j)" using j(3) h1(3) h2(3) by simp
  then obtain h3 where h3: "set_fwd h2 (P j) j (Some c) = Inr h3" "sk_entry h3 = sk_entry h2" "tall h3 = tall h2"
    "fmdom h3 = fmdom h2" "\<And>b i. fwd h3 b i = (if b = P j \<and> i = j then Inr (Some c) else fwd h2 b i)"
    using set_fwd_ok by metis
  have "sk_splice c upd j h1 = Inr h3" using j q1 h2(1) h3(1) by (simp add: sk_splice_def)
  then have "each (sk_splice c upd) [0..<Suc j] h = Inr h3" using h1(1) by (simp add: each_append)
  moreover have "fwd h3 b i = (if i < Suc j \<and> b = P i then Inr (Some c) else if i < Suc j \<and> b = c then fwd h (P i) i else fwd h b i)" for b i
    using j(4) q by (auto simp: h1(5) h2(5) h3(5) less_Suc_eq)
  ultimately show ?case using h1(2-4) h2(2-4) h3(2-4) by auto
qed simp

subsection \<open>Inserting a new node\<close>

lemma pred_at_split: "\<exists>xs. hnode # lvl h i us = xs @ [pred_at h hnode us i]"
  unfolding pred_at_def by (metis append_butlast_last_id list.distinct(1))

lemma pred_at_tall:
  assumes "sk_repr s (us @ vs)" "i \<le> sk_maxLevel s"
  shows "i < tall (sk_Heap s) (pred_at (sk_Heap s) (sk_head s) us i)"
  using pred_at_in [of "sk_Heap s" "sk_head s" us i] sk_reprD(2) [OF assms(1)] assms(2) by (auto simp: lvl_def)

lemma lvl_above:
  assumes "sk_repr s as" "sk_level s < i"
  shows "lvl (sk_Heap s) i as = []"
  using sk_reprD(6) [OF assms(1)] assms(2) by (fastforce simp: lvl_def filter_empty_conv)

lemma pred_at_above:
  assumes "sk_repr s (us @ vs)" "sk_level s < i"
  shows "pred_at (sk_Heap s) (sk_head s) us i = sk_head s"
  using lvl_above [OF assms] by (simp add: pred_at_def)

lemma tall_dom: "0 < tall h a \<Longrightarrow> a |\<in>| fmdom h"
  by (auto simp: tall_def intro: fmdomI split: option.splits)

lemma sk_repr_dom: "sk_repr s as \<Longrightarrow> a \<in> set (sk_head s # as) \<Longrightarrow> a < sk_Fresh s"
  using sk_reprD(2,5,9) tall_dom by (metis add.commute plus_1_eq_Suc set_ConsD zero_less_Suc)

lemma sk_insert_lanes:
  assumes r: "sk_repr s (us @ vs)" and L: "L \<le> sk_maxLevel s" and c: "c \<notin> set (sk_head s # us @ vs)"
  defines "h \<equiv> sk_Heap s" and "P \<equiv> pred_at (sk_Heap s) (sk_head s) us"
  assumes tall: "\<And>a. tall h' a = (if a = c then L + 1 else tall h a)"
    and fwd: "\<And>b i. b \<noteq> c \<Longrightarrow> fwd h' b i = (if i \<le> L \<and> b = P i then Inr (Some c) else fwd h b i)"
      "\<And>i. i \<le> L \<Longrightarrow> fwd h' c i = fwd h (P i) i"
  shows "lanes h' (sk_head s) (us @ c # vs) (sk_maxLevel s)"
  unfolding lanes_def
proof (intro allI impI)
  fix i
  assume i: "i \<le> sk_maxLevel s"
  have same: "lvl h' i us = lvl h i us" "lvl h' i vs = lvl h i vs"
    using c by (auto simp: lvl_def tall intro!: filter_cong)
  have old: "lane (\<lambda>a. fwd h a i) (sk_head s # lvl h i us @ lvl h i vs)"
    using sk_reprD(8) [OF r] i by (simp add: lanes_def h_def)
  have c': "c \<notin> set (sk_head s # lvl h i us @ lvl h i vs)" using c by (auto simp: lvl_def)
  show "lane (\<lambda>a. fwd h' a i) (sk_head s # lvl h' i (us @ c # vs))"
  proof (cases "i \<le> L")
    case True
    obtain xs where xs: "sk_head s # lvl h i us = xs @ [P i]"
      unfolding P_def h_def using pred_at_split by metis
    then have split: "sk_head s # lvl h i us @ zs = xs @ P i # zs" for zs by (metis append.assoc append_Cons append_Nil)
    have "distinct (sk_head s # lvl h i us @ lvl h i vs)"
      using sk_repr_distinct [OF r] by (auto simp: lvl_def)
    then have "lane (\<lambda>a. fwd h' a i) (xs @ P i # c # lvl h i vs)"
      using old c' True unfolding split
      by (intro lane_insert [of "\<lambda>a. fwd h a i"]) (auto simp: fwd)
    then show ?thesis using True by (simp add: same tall split)
  next
    case False
    have "lane (\<lambda>a. fwd h' a i) (sk_head s # lvl h i us @ lvl h i vs)"
      using old
    proof (rule lane_cong [THEN iffD2, rotated 1])
      show "fwd h' a i = fwd h a i" if "a \<in> set (sk_head s # lvl h i us @ lvl h i vs)" for a
        using that c' False fwd(1) [of a i] by auto
    qed
    then show ?thesis using False by (simp add: same tall)
  qed
qed

lemma sorted_wrt_insert:
  "sorted_wrt R (us @ vs) \<Longrightarrow> \<forall>a \<in> set us. R a c \<Longrightarrow> \<forall>b \<in> set vs. R c b \<Longrightarrow> sorted_wrt R (us @ c # vs)"
  by (auto simp: sorted_wrt_append)

lemma sk_map_insert:
  fixes s s' :: "'v skip_list"
  assumes r: "sk_repr s (us @ vs)" and r': "sk_repr s' (us @ c # vs)" and c: "c \<notin> set (sk_head s # us @ vs)"
    and entry: "\<And>a. sk_entry (sk_Heap s') a = (if a = c then Some (key, v) else sk_entry (sk_Heap s) a)"
    and us: "\<And>a. a \<in> set us \<Longrightarrow> key_at (sk_Heap s) a < key" and vs: "\<And>a. a \<in> set vs \<Longrightarrow> key < key_at (sk_Heap s) a"
  shows "sk_map (sk_Heap s') (us @ c # vs) = (sk_map (sk_Heap s) (us @ vs))(key \<mapsto> v)"
proof (rule map_eqI)
  fix k w
  let ?h = "sk_Heap s"
  have "sk_map (sk_Heap s') (us @ c # vs) k = Some w \<longleftrightarrow> (\<exists>a \<in> set (us @ c # vs). sk_entry (sk_Heap s') a = Some (k, w))"
    using sk_repr_map_iff [OF r'] by simp
  also have "\<dots> \<longleftrightarrow> (k = key \<and> w = v) \<or> (\<exists>a \<in> set (us @ vs). sk_entry ?h a = Some (k, w))"
    using c by (auto simp: entry)
  also have "\<dots> \<longleftrightarrow> ((sk_map ?h (us @ vs))(key \<mapsto> v)) k = Some w"
  proof -
    have "k \<noteq> key" if "a \<in> set (us @ vs)" "sk_entry ?h a = Some (k, w)" for a
      using that us [of a] vs [of a] by (auto simp: key_at_def)
    then show ?thesis using sk_repr_map_iff [OF r, of k w] by auto
  qed
  finally show "sk_map (sk_Heap s') (us @ c # vs) k = Some w \<longleftrightarrow> ((sk_map ?h (us @ vs))(key \<mapsto> v)) k = Some w" .
qed

lemma sk_insert_ok:
  fixes s :: "'v skip_list"
  assumes r: "sk_repr s (us @ vs)" and L: "L \<le> sk_maxLevel s"
    and us: "\<And>a. a \<in> set us \<Longrightarrow> key_at (sk_Heap s) a < key" and vs: "\<And>a. a \<in> set vs \<Longrightarrow> key < key_at (sk_Heap s) a"
    and upd: "\<And>i. i \<le> L \<Longrightarrow> i < length upd \<and> upd ! i = Some (pred_at (sk_Heap s) (sk_head s) us i)"
  defines "c \<equiv> sk_Fresh s"
  obtains h' where "each (sk_splice c upd) [0..<L + 1]
      (fmupd c \<lparr>sn_key = key, sn_value = v, sn_forward = replicate (L + 1) None\<rparr> (sk_Heap s)) = Inr h'"
    "sk_repr (s\<lparr>sk_rand := rnd, sk_level := max (sk_level s) L, sk_Heap := h', sk_Fresh := c + 1\<rparr>) (us @ c # vs)"
    "sk_map h' (us @ c # vs) = (sk_map (sk_Heap s) (us @ vs))(key \<mapsto> v)"
proof -
  let ?h = "sk_Heap s" and ?P = "pred_at (sk_Heap s) (sk_head s) us"
  define new where "new = fmupd c \<lparr>sn_key = key, sn_value = v, sn_forward = replicate (L + 1) None\<rparr> ?h"
  have c: "c \<notin> set (sk_head s # us @ vs)" using sk_repr_dom [OF r] by (auto simp: c_def)
  have tall0: "tall new a = (if a = c then L + 1 else tall ?h a)" for a by (simp add: new_def tall_def)
  have entry0: "sk_entry new a = (if a = c then Some (key, v) else sk_entry ?h a)" for a by (simp add: new_def sk_entry_def)
  have fwd0: "b \<noteq> c \<Longrightarrow> fwd new b i = fwd ?h b i" for b i by (simp add: new_def fwd_def)
  have P: "?P i \<noteq> c" for i using pred_at_in [of ?h "sk_head s" us i] c by (auto simp: lvl_def)
  have splice: "i < length upd \<and> upd ! i = Some (?P i) \<and> i < tall new (?P i) \<and> ?P i \<noteq> c" if "i < L + 1" for i
    using upd [of i] pred_at_tall [OF r, of i] P [of i] L that tall0 by simp
  have "L + 1 \<le> tall new c" by (subst tall0) simp
  from sk_splice_all [OF splice this]
  obtain h' where h': "each (sk_splice c upd) [0..<L + 1] new = Inr h'" "sk_entry h' = sk_entry new" "tall h' = tall new"
    "fmdom h' = fmdom new"
    "\<And>b i. fwd h' b i = (if i < L + 1 \<and> b = ?P i then Inr (Some c) else if i < L + 1 \<and> b = c then fwd new (?P i) i else fwd new b i)"
    by blast
  have key: "key_at h' a = (if a = c then key else key_at ?h a)" for a
    by (simp add: key_at_def h'(2) entry0)
  let ?s = "s\<lparr>sk_rand := rnd, sk_level := max (sk_level s) L, sk_Heap := h', sk_Fresh := c + 1\<rparr>"
  have "lanes h' (sk_head s) (us @ c # vs) (sk_maxLevel s)"
  proof (rule sk_insert_lanes [OF r L c])
    show "tall h' a = (if a = c then L + 1 else tall ?h a)" for a using h'(3) tall0 by simp
    show "fwd h' b i = (if i \<le> L \<and> b = ?P i then Inr (Some c) else fwd ?h b i)" if "b \<noteq> c" for b i
      using that h'(5) fwd0 by auto
    show "fwd h' c i = fwd ?h (?P i) i" if "i \<le> L" for i
      using that h'(5) fwd0 [OF P] P [of i] by auto
  qed
  moreover have "sorted_wrt (\<lambda>a b. key_at h' a < key_at h' b) (us @ c # vs)"
  proof (rule sorted_wrt_insert)
    have "key_at h' a = key_at ?h a" if "a \<in> set (us @ vs)" for a using that c key by auto
    then show "sorted_wrt (\<lambda>a b. key_at h' a < key_at h' b) (us @ vs)"
      using sk_reprD(7) [OF r] by (auto intro: sorted_wrt_mono_rel [rotated])
    show "\<forall>a \<in> set us. key_at h' a < key_at h' c" "\<forall>b \<in> set vs. key_at h' c < key_at h' b"
      using us vs c key by auto
  qed
  moreover have "tall h' (sk_head s) = sk_maxLevel s + 1" using sk_reprD(2) [OF r] c by (simp add: h'(3) tall0)
  moreover have "sk_entry h' a \<noteq> None \<and> 0 < tall h' a \<and> tall h' a \<le> max (sk_level s) L + 1" if "a \<in> set (us @ c # vs)" for a
  proof (cases "a = c")
    case False
    then have "a \<in> set (us @ vs)" using that by auto
    from sk_reprD(4-6) [OF r this] show ?thesis using False by (simp add: h'(2,3) entry0 tall0)
  qed (simp add: h'(2,3) entry0 tall0)
  moreover have "\<forall>a \<in> fset (fmdom h'). a < c + 1" using sk_reprD(9) [OF r] by (auto simp: h'(4) new_def c_def)
  ultimately have r': "sk_repr ?s (us @ c # vs)"
    using sk_reprD(1,3) [OF r] L c unfolding sk_repr_def by simp
  have "sk_map h' (us @ c # vs) = (sk_map ?h (us @ vs))(key \<mapsto> v)"
    using sk_map_insert [OF r r' c, of key v] us vs by (simp add: h'(2) entry0)
  with h'(1) [unfolded new_def] r' show ?thesis by (rule that)
qed

lemma sk_randomLevel_le: "l \<le> m \<Longrightarrow> fst (sk_randomLevel m p rnd l) \<le> m"
proof (induction m p rnd l rule: sk_randomLevel.induct)
  case (1 m p rnd l)
  then show ?case by (subst sk_randomLevel.simps) auto
qed

lemma each_put_at:
  assumes "n \<le> length xs"
  shows "\<exists>ys. each (\<lambda>i. put_at i x) [m..<n] xs = Inr ys \<and> length ys = length xs \<and>
    (\<forall>j < length xs. ys ! j = (if m \<le> j \<and> j < n then x else xs ! j))"
  using assms
proof (induction n)
  case (Suc n)
  then obtain ys where ys: "each (\<lambda>i. put_at i x) [m..<n] xs = Inr ys" "length ys = length xs"
    "\<forall>j < length xs. ys ! j = (if m \<le> j \<and> j < n then x else xs ! j)" by auto
  show ?case
  proof (cases "m \<le> n")
    case True
    then have "each (\<lambda>i. put_at i x) [m..<Suc n] xs = Inr (ys[n := x])"
      using ys(1,2) Suc.prems by (simp add: each_append put_at_def)
    then show ?thesis using ys(2,3) True by (auto simp: nth_list_update less_Suc_eq)
  next
    case False
    then have "[m..<Suc n] = []" by simp
    then show ?thesis using False by auto
  qed
qed simp

text \<open>What the descent of \<open>Insert\<close> and \<open>Delete\<close> returns.\<close>

lemma sk_descend:
  assumes r: "sk_repr s as"
  obtains us vs upd where "as = us @ vs" "parted (sk_Heap s) key us vs"
    "vs = [] \<or> (\<forall>a \<in> set (tl vs). \<exists>k v. sk_entry (sk_Heap s) a = Some (k, v) \<and> key < k)"
    "sk_path (sk_Heap s) key (sk_level s) (sk_head s) (replicate (sk_maxLevel s + 1) None) =
       Inr (pred_at (sk_Heap s) (sk_head s) us 0, upd)"
    "length upd = sk_maxLevel s + 1"
    "\<And>i. i \<le> sk_level s \<Longrightarrow> upd ! i = Some (pred_at (sk_Heap s) (sk_head s) us i)"
    "fwd (sk_Heap s) (pred_at (sk_Heap s) (sk_head s) us 0) 0 = Inr (first vs)"
proof -
  obtain us vs where p: "as = us @ vs" "parted (sk_Heap s) key us vs"
    "vs = [] \<or> (\<forall>a \<in> set (tl vs). \<exists>k v. sk_entry (sk_Heap s) a = Some (k, v) \<and> key < k)"
    by (rule sk_parting [OF r])
  have r': "sk_repr s (us @ vs)" using r p(1) by simp
  note lanes = sk_reprD(8) [OF r']
  let ?r = "replicate (sk_maxLevel s + 1) (None :: addr option)"
  have "sk_level s \<le> sk_maxLevel s" "sk_level s < length ?r" using sk_reprD(3) [OF r] by simp_all
  from sk_path_ok [OF lanes p(2) this(1) _ this(2), of "sk_head s"]
  obtain upd where u: "sk_path (sk_Heap s) key (sk_level s) (sk_head s) ?r =
       Inr (pred_at (sk_Heap s) (sk_head s) us 0, upd)" "length upd = length ?r"
    "\<forall>j < length ?r. upd ! j = (if j \<le> sk_level s then Some (pred_at (sk_Heap s) (sk_head s) us j) else ?r ! j)"
    by auto
  have "fwd (sk_Heap s) (pred_at (sk_Heap s) (sk_head s) us 0) 0 = Inr (first vs)"
    using pred_at_next [OF lanes, of 0] sk_first_level [OF r'] by simp
  moreover have "upd ! i = Some (pred_at (sk_Heap s) (sk_head s) us i)" if "i \<le> sk_level s" for i
    using u(3) that sk_reprD(3) [OF r] by simp
  moreover have "length upd = sk_maxLevel s + 1" using u(2) by simp
  ultimately show ?thesis using that p u(1) by blast
qed

lemma sk_hit_key:
  assumes "parted h key us vs"
  shows "sk_hit h key vs = Some (a, n) \<Longrightarrow> a \<in> set vs \<and> fmlookup h a = Some n \<and> sn_key n = key"
    and "sk_hit h key vs = None \<Longrightarrow> vs = [] \<or> (\<forall>a \<in> set (tl vs). \<exists>k v. sk_entry h a = Some (k, v) \<and> key < k) \<Longrightarrow>
      b \<in> set vs \<Longrightarrow> key < key_at h b"
    and "c \<in> set us \<Longrightarrow> key_at h c < key"
proof -
  show "sk_hit h key vs = Some (a, n) \<Longrightarrow> a \<in> set vs \<and> fmlookup h a = Some n \<and> sn_key n = key"
    by (auto simp: sk_hit_def split: list.splits option.splits if_splits)
  show "c \<in> set us \<Longrightarrow> key_at h c < key" using assms by (auto simp: parted_def key_at_def)
  assume none: "sk_hit h key vs = None" and b: "b \<in> set vs"
    and tl: "vs = [] \<or> (\<forall>a \<in> set (tl vs). \<exists>k v. sk_entry h a = Some (k, v) \<and> key < k)"
  obtain x xs where vs: "vs = x # xs" using b by (cases vs) auto
  show "key < key_at h b"
  proof (cases "b = x")
    case True
    obtain k v where x: "sk_entry h x = Some (k, v)" "key \<le> k" using assms vs by (auto simp: parted_def)
    moreover have "k \<noteq> key" using none vs x by (auto simp: sk_hit_def sk_entry_def)
    ultimately show ?thesis using True by (simp add: key_at_def)
  next
    case False
    then show ?thesis using tl b vs by (auto simp: key_at_def)
  qed
qed

lemma sk_Insert_ok:
  assumes r: "sk_repr s as"
  obtains s' as' where "sk_Insert key v s = Inr s'" "sk_repr s' as'"
    "sk_map (sk_Heap s') as' = (sk_map (sk_Heap s) as)(key \<mapsto> v)"
proof -
  let ?h = "sk_Heap s"
  obtain us vs upd where d: "as = us @ vs" "parted ?h key us vs"
    "vs = [] \<or> (\<forall>a \<in> set (tl vs). \<exists>k v. sk_entry ?h a = Some (k, v) \<and> key < k)"
    "sk_path ?h key (sk_level s) (sk_head s) (replicate (sk_maxLevel s + 1) None) =
       Inr (pred_at ?h (sk_head s) us 0, upd)"
    "length upd = sk_maxLevel s + 1"
    "\<And>i. i \<le> sk_level s \<Longrightarrow> upd ! i = Some (pred_at ?h (sk_head s) us i)"
    "fwd ?h (pred_at ?h (sk_head s) us 0) 0 = Inr (first vs)"
    by (rule sk_descend [OF r, of key]) (rule that; assumption)
  have r': "sk_repr s (us @ vs)" using r d(1) by simp
  note hit = sk_hit_lookup [OF r', of key]
  show ?thesis
  proof (cases "sk_hit ?h key vs")
    case (Some x)
    obtain a n where x: "x = (a, n)" by (cases x)
    then have a: "a \<in> set as" "fmlookup ?h a = Some n" "sn_key n = key"
      using sk_hit_key(1) [OF d(2)] Some d(1) by auto
    have "sk_Insert key v s = Inr (s\<lparr>sk_Heap := fmupd a (n\<lparr>sn_value := v\<rparr>) ?h\<rparr>)"
      using d(4,7) hit Some x by (simp add: sk_Insert_def Let_def)
    then show ?thesis using sk_setValue_ok [OF r a(1,2), of v] a(3) that by fastforce
  next
    case None
    obtain L rnd where L: "sk_randomLevel (sk_maxLevel s) (sk_probability s) (sk_rand s) 0 = (L, rnd)" by fastforce
    have Lm: "L \<le> sk_maxLevel s"
      using sk_randomLevel_le [of 0 "sk_maxLevel s" "sk_probability s" "sk_rand s"] L by simp
    obtain upd' where u: "(if L > sk_level s then each (\<lambda>i. put_at i (Some (sk_head s))) [sk_level s + 1..<L + 1] upd
        else Inr upd) = Inr upd'"
      "length upd' = sk_maxLevel s + 1"
      "\<And>i. i \<le> L \<Longrightarrow> upd' ! i = Some (pred_at ?h (sk_head s) us i)"
    proof (cases "L > sk_level s")
      case True
      have "L + 1 \<le> length upd" using Lm d(5) by simp
      from each_put_at [OF this, of "Some (sk_head s)" "sk_level s + 1"]
      obtain ys where ys: "each (\<lambda>i. put_at i (Some (sk_head s))) [sk_level s + 1..<L + 1] upd = Inr ys"
        "length ys = length upd" "\<forall>j < length upd. ys ! j = (if sk_level s + 1 \<le> j \<and> j < L + 1 then Some (sk_head s) else upd ! j)"
        by blast
      have "ys ! i = Some (pred_at ?h (sk_head s) us i)" if "i \<le> L" for i
        using ys(3) that Lm d(5,6) pred_at_above [OF r', of i] by (cases "i \<le> sk_level s") auto
      then show ?thesis using that [of ys] ys(1,2) True d(5) by simp
    next
      case False
      then show ?thesis using that [of upd] d(5,6) by simp
    qed
    let ?n = "\<lparr>sn_key = key, sn_value = v, sn_forward = replicate (L + 1) None\<rparr>"
    have upd: "i \<le> L \<Longrightarrow> i < length upd' \<and> upd' ! i = Some (pred_at ?h (sk_head s) us i)" for i
      using u(2,3) Lm by simp
    obtain h' where h': "each (sk_splice (sk_Fresh s) upd') [0..<L + 1] (fmupd (sk_Fresh s) ?n ?h) = Inr h'"
      "sk_repr (s\<lparr>sk_rand := rnd, sk_level := max (sk_level s) L, sk_Heap := h', sk_Fresh := sk_Fresh s + 1\<rparr>)
         (us @ sk_Fresh s # vs)"
      "sk_map h' (us @ sk_Fresh s # vs) = (sk_map ?h (us @ vs))(key \<mapsto> v)"
      by (rule sk_insert_ok [OF r' Lm sk_hit_key(3) [OF d(2)] sk_hit_key(2) [OF d(2) None d(3)] upd])
    have "sk_Insert key v s = Inr (s\<lparr>sk_rand := rnd, sk_level := max (sk_level s) L, sk_Heap := h', sk_Fresh := sk_Fresh s + 1\<rparr>)"
      using d(4,7) hit None L u(1) h'(1) unfolding sk_Insert_def Let_def
      by (cases "L > sk_level s") (simp_all del: replicate.simps upt.simps add: max_def)
    then show ?thesis using that h'(2,3) d(1) by fastforce
  qed
qed

subsection \<open>Removing a node\<close>

lemma sk_unsplice_all:
  assumes P: "\<And>i. i < n \<Longrightarrow> i < length upd \<and> upd ! i = Some (P i) \<and> i < tall h (P i) \<and> P i \<noteq> a"
    and T: "T = tall h a" "T \<le> n" "\<And>i. i < T \<Longrightarrow> fwd h (P i) i = Inr (Some a)"
      "T < n \<Longrightarrow> fwd h (P T) T \<noteq> Inr (Some a)"
    and same: "sk_entry g = sk_entry h" "tall g = tall h" "fmdom g = fmdom h"
    and g: "\<And>b i. fwd g b i = (if i < j \<and> b = P i then fwd h a i else fwd h b i)" and j: "j \<le> T"
  shows "\<exists>h'. sk_unsplice a upd [j..<n] g = Inr h' \<and> sk_entry h' = sk_entry h \<and> tall h' = tall h \<and>
    fmdom h' = fmdom h \<and> (\<forall>b i. fwd h' b i = (if i < T \<and> b = P i then fwd h a i else fwd h b i))"
  using same g j
proof (induction "T - j" arbitrary: g j)
  case 0
  then have jT: "j = T" by simp
  show ?case
  proof (cases "T < n")
    case True
    obtain q where q: "fwd h (P T) T = Inr q" "q \<noteq> Some a"
      using fwd_ok [of T h "P T"] P [OF True] T(4) [OF True] by auto
    then have "fwd g (P T) T = Inr q" using 0(5) jT by simp
    then have "sk_unsplice a upd [j..<n] g = Inr g"
      using True P [OF True] q(2) by (simp add: jT upt_conv_Cons)
    then show ?thesis using 0 jT by auto
  next
    case False
    then have "[j..<n] = []" using T(2) jT by simp
    then show ?thesis using 0 jT by auto
  qed
next
  case (Suc x)
  then have jT: "j < T" "j < n" using T(2) by simp_all
  have p: "j < length upd" "upd ! j = Some (P j)" "j < tall g (P j)" "P j \<noteq> a" "fwd g (P j) j = Inr (Some a)"
    using P [OF jT(2)] T(3) [OF jT(1)] Suc.prems(2,4) by simp_all
  have "fwd g a j = fwd h a j" using Suc.prems(4) p(4) by auto
  moreover have "j < tall g a" using jT(1) T(1) Suc.prems(2) by simp
  then obtain t where t: "fmlookup g a = Some t" "j < length (sn_forward t)"
    by (auto simp: tall_def split: option.splits)
  ultimately have q: "fwd h a j = Inr (sn_forward t ! j)" by (simp add: fwd_def)
  obtain g' where g': "set_fwd g (P j) j (sn_forward t ! j) = Inr g'" "sk_entry g' = sk_entry g" "tall g' = tall g"
    "fmdom g' = fmdom g" "\<And>b i. fwd g' b i = (if b = P j \<and> i = j then Inr (sn_forward t ! j) else fwd g b i)"
    using set_fwd_ok [OF p(3)] by metis
  have "sk_unsplice a upd [j..<n] g = sk_unsplice a upd [Suc j..<n] g'"
    using p t g'(1) jT(2) by (simp add: upt_conv_Cons)
  moreover have "\<exists>h'. sk_unsplice a upd [Suc j..<n] g' = Inr h' \<and> sk_entry h' = sk_entry h \<and> tall h' = tall h \<and>
    fmdom h' = fmdom h \<and> (\<forall>b i. fwd h' b i = (if i < T \<and> b = P i then fwd h a i else fwd h b i))"
  proof (rule Suc.hyps(1))
    show "x = T - Suc j" "Suc j \<le> T" using Suc.hyps(2) jT(1) by simp_all
    show "fwd g' b i = (if i < Suc j \<and> b = P i then fwd h a i else fwd h b i)" for b i
      using g'(5) Suc.prems(4) q by (auto simp: less_Suc_eq)
  qed (use g'(2-4) Suc.prems(1-3) in simp_all)
  ultimately show ?case by simp
qed

lemma sk_lower_ok:
  assumes "lanes h hnode as m" "\<And>a. a \<in> set as \<Longrightarrow> tall h a \<le> l + 1" "l \<le> m"
  shows "\<exists>l' \<le> l. sk_lower h hnode l = Inr l' \<and> (\<forall>a \<in> set as. tall h a \<le> l' + 1)"
  using assms(2,3)
proof (induction l)
  case (Suc l)
  have f: "fwd h hnode (Suc l) = Inr (first (lvl h (Suc l) as))"
    using assms(1) Suc.prems(2) by (simp add: lanes_def)
  show ?case
  proof (cases "lvl h (Suc l) as")
    case Nil
    then have "tall h a \<le> l + 1" if "a \<in> set as" for a
      using that by (auto simp: lvl_def filter_empty_conv)
    from Suc.IH [OF this] Suc.prems(2) obtain l' where "l' \<le> l" "sk_lower h hnode l = Inr l'" "\<forall>a \<in> set as. tall h a \<le> l' + 1"
      by auto
    then show ?thesis using f Nil by (intro exI [of _ l']) simp
  next
    case (Cons b bs)
    then show ?thesis using f Suc.prems by (intro exI [of _ "Suc l"]) simp
  qed
qed auto

lemma sk_remove_lanes:
  fixes s :: "'v skip_list"
  defines "P \<equiv> pred_at (sk_Heap s) (sk_head s)"
  assumes r: "sk_repr s (us @ a # vs)" and tall: "tall h' = tall (sk_Heap s)"
    and fwd: "\<And>b i. fwd h' b i = (if i < tall (sk_Heap s) a \<and> b = P us i then fwd (sk_Heap s) a i else fwd (sk_Heap s) b i)"
  shows "lanes h' (sk_head s) (us @ vs) (sk_maxLevel s)"
  unfolding lanes_def
proof (intro allI impI)
  fix i
  assume i: "i \<le> sk_maxLevel s"
  let ?h = "sk_Heap s" and ?P = "P us" and ?T = "tall (sk_Heap s) a"
  note lanes = sk_reprD(8) [OF r]
  have dist: "distinct (sk_head s # us @ a # vs)" by (rule sk_repr_distinct [OF r])
  have lvl: "lvl h' i xs = lvl ?h i xs" for xs by (simp add: lvl_def tall)
  have old: "lane (\<lambda>b. fwd ?h b i) (sk_head s # lvl ?h i (us @ a # vs))"
    using lanes i by (simp add: lanes_def)
  show "lane (\<lambda>b. fwd h' b i) (sk_head s # lvl h' i (us @ vs))"
  proof (cases "i < ?T")
    case True
    obtain xs where xs: "sk_head s # lvl ?h i us = xs @ [?P i]" unfolding P_def using pred_at_split by metis
    then have split: "sk_head s # lvl ?h i us @ zs = xs @ ?P i # zs" for zs by (metis append.assoc append_Cons append_Nil)
    have "distinct (sk_head s # lvl ?h i us @ a # lvl ?h i vs)" using dist by (auto simp: lvl_def)
    then have d: "distinct (xs @ ?P i # a # lvl ?h i vs)" unfolding split .
    have "lane (\<lambda>b. fwd ?h b i) (sk_head s # lvl ?h i us @ a # lvl ?h i vs)" using old True by simp
    then have "lane (\<lambda>b. fwd ?h b i) (xs @ ?P i # a # lvl ?h i vs)" unfolding split .
    from lane_remove [OF this d, of "\<lambda>b. fwd h' b i"]
    have "lane (\<lambda>b. fwd h' b i) (xs @ ?P i # lvl ?h i vs)" using True by (simp only: fwd) simp
    then show ?thesis by (simp add: lvl split)
  next
    case False
    then show ?thesis using old by (simp add: lvl fwd)
  qed
qed

lemma sk_map_remove:
  fixes s s' :: "'v skip_list"
  assumes r: "sk_repr s (us @ a # vs)" and r': "sk_repr s' (us @ vs)" and entry: "sk_entry (sk_Heap s') = sk_entry (sk_Heap s)"
  shows "sk_map (sk_Heap s') (us @ vs) = (sk_map (sk_Heap s) (us @ a # vs))(key_at (sk_Heap s) a := None)"
proof (rule map_eqI)
  fix k w
  let ?h = "sk_Heap s"
  have dist: "distinct (sk_head s # us @ a # vs)" by (rule sk_repr_distinct [OF r])
  have "sk_map (sk_Heap s') (us @ vs) k = Some w \<longleftrightarrow> (\<exists>b \<in> set (us @ vs). sk_entry ?h b = Some (k, w))"
    using sk_repr_map_iff [OF r', of k w] by (simp add: entry)
  also have "\<dots> \<longleftrightarrow> k \<noteq> key_at ?h a \<and> (\<exists>b \<in> set (us @ a # vs). sk_entry ?h b = Some (k, w))"
  proof -
    have "k \<noteq> key_at ?h a" if "b \<in> set (us @ vs)" "sk_entry ?h b = Some (k, w)" for b
    proof -
      have "key_at ?h b = k" using that(2) by (simp add: key_at_def)
      then show ?thesis using sk_repr_inj [OF r, of b a] that(1) dist by auto
    qed
    moreover have "k = key_at ?h a" if "sk_entry ?h a = Some (k, w)" using that by (simp add: key_at_def)
    ultimately show ?thesis by auto
  qed
  also have "\<dots> \<longleftrightarrow> ((sk_map (sk_Heap s) (us @ a # vs))(key_at (sk_Heap s) a := None)) k = Some w"
    using sk_repr_map_iff [OF r, of k w] by simp
  finally show "sk_map (sk_Heap s') (us @ vs) k = Some w \<longleftrightarrow> ((sk_map (sk_Heap s) (us @ a # vs))(key_at (sk_Heap s) a := None)) k = Some w" .
qed

lemma sk_remove_ok:
  fixes s :: "'v skip_list"
  assumes r: "sk_repr s (us @ a # vs)"
    and upd: "length upd = sk_maxLevel s + 1"
      "\<And>i. i \<le> sk_level s \<Longrightarrow> upd ! i = Some (pred_at (sk_Heap s) (sk_head s) us i)"
  obtains h' l where "sk_unsplice a upd [0..<sk_level s + 1] (sk_Heap s) = Inr h'"
    "sk_lower h' (sk_head s) (sk_level s) = Inr l"
    "sk_repr (s\<lparr>sk_Heap := h', sk_level := l\<rparr>) (us @ vs)"
    "sk_map h' (us @ vs) = (sk_map (sk_Heap s) (us @ a # vs))(key_at (sk_Heap s) a := None)"
proof -
  let ?h = "sk_Heap s" and ?P = "pred_at (sk_Heap s) (sk_head s) us" and ?T = "tall (sk_Heap s) a"
  note lanes = sk_reprD(8) [OF r]
  have dist: "distinct (sk_head s # us @ a # vs)" by (rule sk_repr_distinct [OF r])
  have P: "?P i \<noteq> a" for i using pred_at_in [of ?h "sk_head s" us i] dist by (auto simp: lvl_def)
  have idx: "i < length upd \<and> upd ! i = Some (?P i) \<and> i < tall ?h (?P i) \<and> ?P i \<noteq> a" if "i < sk_level s + 1" for i
    using that upd sk_reprD(3) [OF r] pred_at_tall [OF r, of i] P [of i] by simp
  have T: "?T \<le> sk_level s + 1" using sk_reprD(6) [OF r, of a] by simp
  have hits: "fwd ?h (?P i) i = Inr (Some a)" if "i < ?T" for i
    using pred_at_next [OF lanes, of i] that T sk_reprD(3) [OF r] by simp
  have stop: "fwd ?h (?P ?T) ?T \<noteq> Inr (Some a)" if "?T < sk_level s + 1"
  proof -
    have "fwd ?h (?P ?T) ?T = Inr (first (lvl ?h ?T vs))"
      using pred_at_next [OF lanes, of ?T] that sk_reprD(3) [OF r] by simp
    moreover have "a \<notin> set (lvl ?h ?T vs)" using dist by (simp add: lvl_def)
    ultimately show ?thesis by (cases "lvl ?h ?T vs") auto
  qed
  have "\<exists>h'. sk_unsplice a upd [0..<sk_level s + 1] ?h = Inr h' \<and> sk_entry h' = sk_entry ?h \<and> tall h' = tall ?h \<and>
    fmdom h' = fmdom ?h \<and> (\<forall>b i. fwd h' b i = (if i < ?T \<and> b = ?P i then fwd ?h a i else fwd ?h b i))"
    by (rule sk_unsplice_all [OF idx refl T hits stop refl refl refl]) simp_all
  then obtain h' where h': "sk_unsplice a upd [0..<sk_level s + 1] ?h = Inr h'" "sk_entry h' = sk_entry ?h" "tall h' = tall ?h"
    "fmdom h' = fmdom ?h" "\<And>b i. fwd h' b i = (if i < ?T \<and> b = ?P i then fwd ?h a i else fwd ?h b i)"
    by blast
  have lvl: "lvl h' i xs = lvl ?h i xs" for i xs by (simp add: lvl_def h'(3))
  have lanes': "lanes h' (sk_head s) (us @ vs) (sk_maxLevel s)"
    by (rule sk_remove_lanes [OF r h'(3) h'(5)])
  have "tall h' b \<le> sk_level s + 1" if "b \<in> set (us @ vs)" for b
    using sk_reprD(6) [OF r, of b] that by (auto simp: h'(3))
  from sk_lower_ok [OF lanes' this sk_reprD(3) [OF r]]
  obtain l where l: "l \<le> sk_level s" "sk_lower h' (sk_head s) (sk_level s) = Inr l" "\<forall>b \<in> set (us @ vs). tall h' b \<le> l + 1"
    by blast
  have key: "key_at h' = key_at ?h" by (simp add: fun_eq_iff key_at_def h'(2))
  have sorted: "sorted_wrt (\<lambda>a b. key_at h' a < key_at h' b) (us @ vs)"
    using sk_reprD(7) [OF r] unfolding key by (simp add: sorted_wrt_append)
  have r': "sk_repr (s\<lparr>sk_Heap := h', sk_level := l\<rparr>) (us @ vs)"
  proof -
    have "sk_entry ?h b \<noteq> None \<and> 0 < tall ?h b" if "b \<in> set (us @ vs)" for b
      using sk_reprD(4,5) [OF r, of b] that by auto
    then have "\<forall>b \<in> set (us @ vs). sk_entry h' b \<noteq> None \<and> 0 < tall h' b \<and> tall h' b \<le> l + 1"
      using l(3) unfolding h'(2,3) by blast
    moreover have "sk_head s \<notin> set (us @ vs)" using dist by auto
    moreover have "l \<le> sk_maxLevel s" using l(1) sk_reprD(3) [OF r] by simp
    ultimately show ?thesis
      unfolding sk_repr_def using lanes' sorted sk_reprD(2,9) [OF r] by (simp add: h'(3,4))
  qed
  have "sk_map h' (us @ vs) = (sk_map ?h (us @ a # vs))(key_at ?h a := None)"
    using sk_map_remove [OF r r'] h'(2) by simp
  with h'(1) l(2) r' show ?thesis by (rule that)
qed

lemma sk_Delete_ok:
  assumes r: "sk_repr s as"
  obtains s' as' where "sk_Delete key s = Inr (sk_map (sk_Heap s) as key \<noteq> None, s')" "sk_repr s' as'"
    "sk_map (sk_Heap s') as' = (sk_map (sk_Heap s) as)(key := None)"
proof -
  let ?h = "sk_Heap s"
  obtain us vs upd where d: "as = us @ vs" "parted ?h key us vs"
    "vs = [] \<or> (\<forall>a \<in> set (tl vs). \<exists>k v. sk_entry ?h a = Some (k, v) \<and> key < k)"
    "sk_path ?h key (sk_level s) (sk_head s) (replicate (sk_maxLevel s + 1) None) =
       Inr (pred_at ?h (sk_head s) us 0, upd)"
    "length upd = sk_maxLevel s + 1"
    "\<And>i. i \<le> sk_level s \<Longrightarrow> upd ! i = Some (pred_at ?h (sk_head s) us i)"
    "fwd ?h (pred_at ?h (sk_head s) us 0) 0 = Inr (first vs)"
    by (rule sk_descend [OF r, of key]) (rule that; assumption)
  have map: "sk_map ?h as key = map_option (\<lambda>(a, n). sn_value n) (sk_hit ?h key vs)"
    unfolding d(1) by (rule sk_hit_map [OF d(2,3)])
  show ?thesis
  proof (cases "sk_hit ?h key vs")
    case None
    have miss: "first vs = None \<or> (\<exists>a n. first vs = Some a \<and> fmlookup ?h a = Some n \<and> sn_key n \<noteq> key)"
    proof (cases vs)
      case (Cons a vs')
      then obtain n where "fmlookup ?h a = Some n"
        using sk_reprD(4) [OF r, of a] d(1) by (auto simp: sk_entry_def)
      then show ?thesis using None Cons by (auto simp: sk_hit_def split: if_splits)
    qed simp
    have "sk_Delete key s = Inr (False, s)"
      using d(4,7) miss by (auto simp: sk_Delete_def)
    moreover have "(sk_map ?h as)(key := None) = sk_map ?h as" using map None by (simp add: fun_upd_idem)
    ultimately show ?thesis using that [of s as] r map None by simp
  next
    case (Some x)
    obtain a n where x: "x = (a, n)" by (cases x)
    have a: "fmlookup ?h a = Some n" "sn_key n = key" using sk_hit_key(1) [OF d(2)] Some x by auto
    obtain vs' where vs: "vs = a # vs'" using Some x by (auto simp: sk_hit_def split: list.splits option.splits if_splits)
    have r': "sk_repr s (us @ a # vs')" using r d(1) vs by simp
    obtain h' l where h': "sk_unsplice a upd [0..<sk_level s + 1] ?h = Inr h'"
      "sk_lower h' (sk_head s) (sk_level s) = Inr l"
      "sk_repr (s\<lparr>sk_Heap := h', sk_level := l\<rparr>) (us @ vs')"
      "sk_map h' (us @ vs') = (sk_map ?h (us @ a # vs'))(key_at ?h a := None)"
      by (rule sk_remove_ok [OF r' d(5,6)])
    have "sk_Delete key s = Inr (True, s\<lparr>sk_Heap := h', sk_level := l\<rparr>)"
      using d(4,7) vs a h'(1,2) by (simp add: sk_Delete_def del: upt.simps replicate.simps)
    moreover have "key_at ?h a = key" using a by (simp add: key_at_def sk_entry_def)
    ultimately show ?thesis
      using that [of "s\<lparr>sk_Heap := h', sk_level := l\<rparr>" "us @ vs'"] h'(3,4) map Some d(1) vs by simp
  qed
qed

subsection \<open>The skip list is a map\<close>

text \<open>What a client can see of a list, and \<open>Delete\<close> without its result.\<close>

definition sk_read :: "'v skip_list \<Rightarrow> int \<Rightarrow> 'v option" where
  "sk_read s k = (case sk_Search k s of Inl _ \<Rightarrow> None | Inr r \<Rightarrow> r)"

definition sk_Remove :: "int \<Rightarrow> 'v skip_list \<Rightarrow> 'v skip_list outcome" where
  "sk_Remove k s = and_then (sk_Delete k s) (\<lambda>(ok, s'). Inr s')"

definition sk_inv :: "'v skip_list \<Rightarrow> bool" where
  "sk_inv s \<longleftrightarrow> (\<exists>as. sk_repr s as)"

lemma sk_read_eq: "sk_repr s as \<Longrightarrow> sk_read s = sk_map (sk_Heap s) as"
  by (simp add: fun_eq_iff sk_read_def sk_Search_ok)

lemma sk_Search_read: "sk_inv s \<Longrightarrow> sk_Search k s = Inr (sk_read s k)"
  by (auto simp: sk_inv_def sk_read_def sk_Search_ok)

interpretation sk: kv_store_del sk_inv sk_read sk_Insert sk_Search "\<lambda>s. 0" 0 0 sk_Remove
proof
  fix s :: "'v skip_list" and k :: int and v :: 'v
  assume i: "sk_inv s"
  then obtain as where r: "sk_repr s as" by (auto simp: sk_inv_def)
  show "sk_Search k s = Inr (sk_read s k)" by (rule sk_Search_read [OF i])
  obtain s' as' where "sk_Insert k v s = Inr s'" "sk_repr s' as'"
    "sk_map (sk_Heap s') as' = (sk_map (sk_Heap s) as)(k \<mapsto> v)"
    by (rule sk_Insert_ok [OF r])
  then show "\<exists>t'. sk_Insert k v s = Inr t' \<and> sk_inv t' \<and> sk_read t' = (sk_read s)(k \<mapsto> v) \<and> 0 \<le> 0 + (0 :: nat)"
    using sk_read_eq r by (fastforce simp: sk_inv_def)
  obtain s' as' where "sk_Delete k s = Inr (sk_map (sk_Heap s) as k \<noteq> None, s')" "sk_repr s' as'"
    "sk_map (sk_Heap s') as' = (sk_map (sk_Heap s) as)(k := None)"
    by (rule sk_Delete_ok [OF r])
  then show "\<exists>t'. sk_Remove k s = Inr t' \<and> sk_inv t' \<and> sk_read t' = (sk_read s)(k := None) \<and> 0 \<le> 0 + (0 :: nat)"
    using sk_read_eq r by (fastforce simp: sk_inv_def sk_Remove_def)
qed

lemma sk_New_ok: "sk_repr (NewSkipList zero rnd m p) []" "sk_read (NewSkipList zero rnd m p) = Map.empty"
proof -
  show r: "sk_repr (NewSkipList zero rnd m p) []"
    by (auto simp: sk_repr_def NewSkipList_def Let_def tall_def lanes_def fwd_def simp flip: replicate_Suc)
  show "sk_read (NewSkipList zero rnd m p) = Map.empty"
    unfolding sk_read_eq [OF r] by (simp add: sk_map_def)
qed

text \<open>
  C4. Whatever the random draws, the maximal level and the probability, every sequence of \<open>Insert\<close>,
  \<open>Search\<close> and \<open>Delete\<close> on a new skip list ends (no walk along the pointers runs for ever), follows
  no nil pointer, stays within every array, and returns what a map returns; \<open>Delete\<close> reports whether
  the key was there. At every moment level \<open>i\<close> links exactly the nodes taller than \<open>i\<close>, in key order.
\<close>
theorem sk_run_is_map:
  "\<exists>s. kv_run sk_Insert sk_Search sk_Remove ops (NewSkipList zero rnd maxLevel probability) =
       Inr (fst (kv_spec_run ops Map.empty), s) \<and> (\<exists>as. sk_repr s as) \<and>
     (\<forall>k. sk_Search k s = Inr (snd (kv_spec_run ops Map.empty) k) \<and>
       (\<exists>s'. sk_Delete k s = Inr (snd (kv_spec_run ops Map.empty) k \<noteq> None, s')))"
proof -
  let ?new = "NewSkipList zero rnd maxLevel probability"
  have "sk_inv ?new" unfolding sk_inv_def by (rule exI, rule sk_New_ok(1))
  from sk.run_refines_map [OF this, of ops]
  obtain s where s: "kv_run sk_Insert sk_Search sk_Remove ops ?new = Inr (fst (kv_spec_run ops Map.empty), s)"
    "sk_inv s" "sk_read s = snd (kv_spec_run ops Map.empty)"
    by (auto simp: sk_New_ok(2))
  then obtain as where r: "sk_repr s as" by (auto simp: sk_inv_def)
  have "\<exists>s'. sk_Delete k s = Inr (sk_read s k \<noteq> None, s')" for k
    unfolding sk_read_eq [OF r] by (rule sk_Delete_ok [OF r, of k]) blast
  then show ?thesis using s r sk_Search_read [OF s(2)] by auto
qed

theorem sk_run_is_map_witness:
  "\<exists>s. kv_run sk_Insert sk_Search sk_Remove
       [KvSet 5 ''five'', KvSet 2 ''two'', KvSet 9 ''nine'', KvDelete 5, KvGet 5, KvSet 2 ''TWO'', KvGet 2]
       (NewSkipList '''' (\<lambda>n. if n mod 3 = 2 then 1 else 0) 4 0.5) = Inr ([None, Some ''TWO''], s) \<and>
     (\<exists>as. sk_repr s as)"
  using sk_run_is_map [of "[KvSet 5 ''five'', KvSet 2 ''two'', KvSet 9 ''nine'', KvDelete 5, KvGet 5, KvSet 2 ''TWO'', KvGet 2]"
      "''''" "\<lambda>n. if n mod 3 = 2 then 1 else 0" 4 "0.5"]
  by auto

end
