(* ===== verification/Fnv_Hash.thy ===== *)
theory Fnv_Hash
  imports Go_Prelude
begin

text \<open>
  The 32-bit FNV-1a hash, which six files of the repository spell out again: both hash tables,
  the Bloom filter, the consistent-hashing ring, the write-ahead log and the sharded store. The
  loop is here once, the functions with the names the files give them are in the theories of the
  components, and all of them unfold to \<open>fnv1a_from\<close>.

  The step \<open>h \<mapsto> (h XOR c) * 16777619\<close> is a bijection of the 32-bit words for every byte \<open>c\<close>,
  because the multiplier is odd. Two strings of one length that differ in exactly one byte
  therefore never collide; the log's corruption check rests on it.
\<close>

text \<open>One round of the loop \<open>hash ^= uint32(key[i]); hash *= 16777619\<close>.\<close>

definition fnv_step :: "u32 \<Rightarrow> char \<Rightarrow> u32" where
  "fnv_step h c = (h XOR of_char c) * 16777619"

definition fnv1a_from :: "u32 \<Rightarrow> string \<Rightarrow> u32" where
  "fnv1a_from seed s = foldl fnv_step seed s"

lemma fnv1a_from_Nil [simp]: "fnv1a_from h [] = h"
  by (simp add: fnv1a_from_def)

lemma fnv1a_from_Cons [simp]: "fnv1a_from h (c # cs) = fnv1a_from (fnv_step h c) cs"
  by (simp add: fnv1a_from_def)

lemma fnv1a_from_append [simp]: "fnv1a_from h (xs @ ys) = fnv1a_from (fnv1a_from h xs) ys"
  by (simp add: fnv1a_from_def)

subsection \<open>The step is a bijection\<close>

lemma fnv_prime_inverse: "(16777619 :: u32) * 899433627 = 1"
  by simp

lemma unit_cancel: "p * q = (1 :: 'a::comm_monoid_mult) \<Longrightarrow> a * p = b * p \<Longrightarrow> a = b"
  by (metis mult.assoc mult.right_neutral)

lemma fnv_prime_cancel: "a * 16777619 = b * (16777619 :: u32) \<Longrightarrow> a = b"
  by (rule unit_cancel [OF fnv_prime_inverse])

lemma xor_right_cancel: "a XOR c = b XOR (c :: 'a::len word) \<longleftrightarrow> a = b"
  by (metis xor.assoc xor.right_neutral xor_self_eq)

lemma xor_left_cancel: "c XOR a = c XOR (b :: 'a::len word) \<longleftrightarrow> a = b"
  by (metis xor.commute xor_right_cancel)

lemma fnv_step_inj_state: "fnv_step h c = fnv_step h' c \<longleftrightarrow> h = h'"
  by (auto simp: fnv_step_def xor_right_cancel dest: fnv_prime_cancel)

lemma unat_of_char: "unat (of_char c :: u32) = of_char c"
proof -
  have "(of_char c :: nat) < 256" by (rule nat_of_char_less_256)
  then have "(of_char c :: nat) < 2 ^ 32" by (rule less_trans) simp
  then have "unat (of_nat (of_char c) :: u32) = of_char c"
    by (simp add: unat_of_nat)
  then show ?thesis by (simp only: of_nat_of_char)
qed

lemma of_char_u32_inj: "(of_char c :: u32) = of_char d \<longleftrightarrow> c = d"
  by (metis of_char_eq_iff unat_of_char)

lemma fnv_step_inj_byte: "fnv_step h c = fnv_step h d \<longleftrightarrow> c = d"
  by (auto simp: fnv_step_def xor_left_cancel of_char_u32_inj dest: fnv_prime_cancel)

lemma fnv1a_from_inj: "fnv1a_from h s = fnv1a_from h' s \<longleftrightarrow> h = h'"
  by (induction s arbitrary: h h') (simp_all add: fnv_step_inj_state)

lemma fnv1a_from_one_byte:
  "fnv1a_from h (pre @ c # post) = fnv1a_from h (pre @ d # post) \<longleftrightarrow> c = d"
  by (simp add: fnv1a_from_inj fnv_step_inj_byte)

end
