(* ===== verification/Bucket_Table.thy ===== *)
theory Bucket_Table
  imports Kv_Interface Fnv_Hash
begin

text \<open>
  \<open>03-Hash-Table/bucket-hash-table.go\<close>: separate chaining with dynamic resizing. A bucket's
  chain of \<open>KeyValuePair\<close> nodes, which nothing else points into, is the list of its pairs from
  the head; the table is a list of chains. The float thresholds 0.25 and 0.75 are exact binary
  fractions, so \<open>int(float64(capacity)*0.75)\<close> is \<open>3 * capacity div 4\<close> for every capacity below
  \<open>2 ^ 51\<close>, and likewise for 0.25.
\<close>

type_synonym pairs = "(string \<times> string) list"

record bucket_table =
  bt_size :: nat
  bt_capacity :: nat
  bt_bucket :: "pairs list"
  bt_minimumCapacity :: nat

definition FNVHash32 :: "string \<Rightarrow> u32" where
  "FNVHash32 key = fnv1a_from 2166136261 key"

definition FNVHash64 :: "string \<Rightarrow> u64" where
  "FNVHash64 key = foldl (\<lambda>hash c. (hash XOR of_char c) * 1099511628211) 14695981039346656037 key"

definition NewBucketHashTable :: "int \<Rightarrow> bucket_table" where
  "NewBucketHashTable capacity = (let c = nat (if capacity < 16 then 16 else capacity) in
     \<lparr>bt_size = 0, bt_capacity = c, bt_bucket = replicate c [], bt_minimumCapacity = 16\<rparr>)"

definition bt_Hash :: "bucket_table \<Rightarrow> string \<Rightarrow> int \<Rightarrow> nat" where
  "bt_Hash ht key sz =
     (if sz = 32 then unat (FNVHash32 key) mod bt_capacity ht
      else unat (FNVHash64 key mod word_of_nat (bt_capacity ht)))"

definition bt_shouldGrow :: "bucket_table \<Rightarrow> bool" where
  "bt_shouldGrow ht \<longleftrightarrow> 3 * bt_capacity ht div 4 < bt_size ht"

definition bt_shouldShrink :: "bucket_table \<Rightarrow> bool" where
  "bt_shouldShrink ht \<longleftrightarrow>
     bt_minimumCapacity ht < bt_capacity ht \<and> bt_size ht < bt_capacity ht div 4"

text \<open>One entry of the old table into the new one: at the head of its bucket.\<close>

definition bt_reinsert :: "string \<times> string \<Rightarrow> bucket_table \<Rightarrow> bucket_table" where
  "bt_reinsert e ht = (let index = bt_Hash ht (fst e) 32 in
     ht\<lparr>bt_bucket := (bt_bucket ht)[index := e # bt_bucket ht ! index], bt_size := bt_size ht + 1\<rparr>)"

definition bt_resize :: "nat \<Rightarrow> bucket_table \<Rightarrow> bucket_table" where
  "bt_resize newCapacity ht =
     (let n = (if newCapacity < bt_minimumCapacity ht then bt_minimumCapacity ht else newCapacity);
          ht1 = ht\<lparr>bt_capacity := n, bt_bucket := replicate n [], bt_size := 0\<rparr>
      in fold (\<lambda>head t. fold bt_reinsert head t) (bt_bucket ht) ht1)"

text \<open>The loop of \<open>Set\<close> along a chain: the chain with the value replaced, if the key is there.\<close>

fun chain_update :: "string \<Rightarrow> string \<Rightarrow> pairs \<Rightarrow> pairs option" where
  "chain_update key value [] = None"
| "chain_update key value ((k, v) # rest) =
     (if k = key then Some ((k, value) # rest)
      else map_option (\<lambda>c. (k, v) # c) (chain_update key value rest))"

fun chain_find :: "string \<Rightarrow> pairs \<Rightarrow> string option" where
  "chain_find key [] = None"
| "chain_find key ((k, v) # rest) = (if k = key then Some v else chain_find key rest)"

text \<open>The loop of \<open>Delete\<close>: the chain without the first entry of the key.\<close>

fun chain_delete :: "string \<Rightarrow> pairs \<Rightarrow> pairs option" where
  "chain_delete key [] = None"
| "chain_delete key ((k, v) # rest) =
     (if k = key then Some rest else map_option (\<lambda>c. (k, v) # c) (chain_delete key rest))"

definition bt_Set :: "string \<Rightarrow> string \<Rightarrow> bucket_table \<Rightarrow> bucket_table" where
  "bt_Set key value ht = (let index = bt_Hash ht key 32 in
     case chain_update key value (bt_bucket ht ! index) of
       Some c \<Rightarrow> ht\<lparr>bt_bucket := (bt_bucket ht)[index := c]\<rparr>
     | None \<Rightarrow>
         let ht1 = ht\<lparr>bt_bucket := (bt_bucket ht)[index := (key, value) # bt_bucket ht ! index],
                     bt_size := bt_size ht + 1\<rparr>
         in if bt_shouldGrow ht1 then bt_resize (bt_capacity ht1 * 2) ht1 else ht1)"

definition bt_Get :: "string \<Rightarrow> bucket_table \<Rightarrow> string \<times> bool" where
  "bt_Get key ht = (case chain_find key (bt_bucket ht ! bt_Hash ht key 32) of
       Some v \<Rightarrow> (v, True) | None \<Rightarrow> ('''', False))"

definition bt_Delete :: "string \<Rightarrow> bucket_table \<Rightarrow> bool \<times> bucket_table" where
  "bt_Delete key ht = (let index = bt_Hash ht key 32 in
     case chain_delete key (bt_bucket ht ! index) of
       Some c \<Rightarrow>
         let ht1 = ht\<lparr>bt_bucket := (bt_bucket ht)[index := c], bt_size := bt_size ht - 1\<rparr>
         in (True, if bt_shouldShrink ht1 then bt_resize (bt_capacity ht1 div 2) ht1 else ht1)
     | None \<Rightarrow> (False, ht))"

subsection \<open>Chains\<close>

lemma chain_find_map_of: "chain_find key c = map_of c key"
  by (induction key c rule: chain_find.induct) auto

lemma chain_update_Some:
  "chain_update key value c = Some c' \<Longrightarrow>
     map fst c' = map fst c \<and> map_of c' = (map_of c)(key \<mapsto> value) \<and> map_of c key \<noteq> None"
  by (induction key "value" c arbitrary: c' rule: chain_update.induct)
    (auto split: if_splits simp: fun_eq_iff)

lemma chain_update_None: "chain_update key value c = None \<longleftrightarrow> map_of c key = None"
  by (induction key "value" c rule: chain_update.induct) auto

lemma chain_delete_split:
  "chain_delete key c = Some c' \<Longrightarrow> \<exists>us v vs. c = us @ (key, v) # vs \<and> c' = us @ vs"
proof (induction key c arbitrary: c' rule: chain_delete.induct)
  case (2 key k v rest)
  show ?case
  proof (cases "k = key")
    case True
    with 2 have "(k, v) # rest = [] @ (key, v) # rest" "c' = [] @ rest" by simp_all
    then show ?thesis by blast
  next
    case False
    with 2 obtain c1 where "chain_delete key rest = Some c1" "c' = (k, v) # c1" by auto
    with 2(1) [OF False] obtain us w vs where "rest = us @ (key, w) # vs" "c' = (k, v) # us @ vs"
      by blast
    then have "(k, v) # rest = ((k, v) # us) @ (key, w) # vs" "c' = ((k, v) # us) @ vs" by simp_all
    then show ?thesis by blast
  qed
qed simp

lemma chain_delete_Some:
  assumes "chain_delete key c = Some c'" "distinct (map fst c)"
  shows "map_of c' = (map_of c)(key := None)" "length c = Suc (length c')" "set c' \<subseteq> set c"
    "distinct (map fst c')" "map_of c key \<noteq> None"
proof -
  obtain us v vs where c: "c = us @ (key, v) # vs" "c' = us @ vs"
    using chain_delete_split [OF assms(1)] by blast
  have "map_of us key = None" "map_of vs key = None"
    using assms(2) by (auto simp: c map_of_eq_None_iff)
  then show "map_of c' = (map_of c)(key := None)"
    by (auto simp: c fun_eq_iff map_add_def split: option.splits)
qed (use chain_delete_split [OF assms(1)] assms(2) in \<open>auto simp: map_add_def\<close>)

lemma chain_delete_None: "chain_delete key c = None \<longleftrightarrow> map_of c key = None"
  by (induction key c rule: chain_delete.induct) auto

subsection \<open>Invariant and abstraction\<close>

definition bt_home :: "nat \<Rightarrow> string \<Rightarrow> nat" where
  "bt_home cap k = unat (FNVHash32 k) mod cap"

definition bt_abs :: "bucket_table \<Rightarrow> string \<Rightarrow> string option" where
  "bt_abs ht k = map_of (bt_bucket ht ! bt_home (bt_capacity ht) k) k"

text \<open>
  Every key lies in the bucket of its hash, once; the size field counts the entries; the
  capacity never falls below 16 and the load factor stays within the growth threshold.
\<close>

definition bt_buckets_ok :: "nat \<Rightarrow> pairs list \<Rightarrow> bool" where
  "bt_buckets_ok cap bs \<longleftrightarrow> length bs = cap \<and>
     (\<forall>i < cap. distinct (map fst (bs ! i)) \<and> (\<forall>e \<in> set (bs ! i). bt_home cap (fst e) = i))"

definition bt_inv :: "bucket_table \<Rightarrow> bool" where
  "bt_inv ht \<longleftrightarrow> bt_buckets_ok (bt_capacity ht) (bt_bucket ht) \<and>
     bt_minimumCapacity ht = 16 \<and> 16 \<le> bt_capacity ht \<and>
     bt_size ht = sum_list (map length (bt_bucket ht)) \<and>
     bt_size ht \<le> 3 * bt_capacity ht div 4"


lemma bt_buckets_ok_home:
  "bt_buckets_ok cap bs \<Longrightarrow> 0 < cap \<Longrightarrow> bt_home cap k < length bs"
  by (simp add: bt_buckets_ok_def bt_home_def)

lemma bt_buckets_ok_update:
  assumes "bt_buckets_ok cap bs" "i < cap" "distinct (map fst c)" "\<forall>e \<in> set c. bt_home cap (fst e) = i"
  shows "bt_buckets_ok cap (bs[i := c])"
  using assms by (auto simp: bt_buckets_ok_def nth_list_update)

lemma sum_list_length_update:
  assumes "i < length bs"
  shows "sum_list (map length (bs[i := c])) + length (bs ! i) = sum_list (map length bs) + length c"
  using assms by (induction bs arbitrary: i) (auto split: nat.split)

text \<open>The entries of a table, bucket by bucket.\<close>

lemma bt_buckets_ok_entry:
  assumes "bt_buckets_ok cap bs" "0 < cap"
  shows "map_of (bs ! bt_home cap k) k = Some v \<longleftrightarrow> (k, v) \<in> set (concat bs)"
proof
  assume "map_of (bs ! bt_home cap k) k = Some v"
  then have "(k, v) \<in> set (bs ! bt_home cap k)" by (rule map_of_SomeD)
  moreover have "bs ! bt_home cap k \<in> set bs" using bt_buckets_ok_home [OF assms] by simp
  ultimately show "(k, v) \<in> set (concat bs)" by auto
next
  assume "(k, v) \<in> set (concat bs)"
  then obtain c where "c \<in> set bs" "(k, v) \<in> set c" by auto
  then obtain i where i: "i < length bs" "(k, v) \<in> set (bs ! i)" by (auto simp: in_set_conv_nth)
  then have "i < cap" using assms(1) by (simp add: bt_buckets_ok_def)
  then have "bt_home cap (fst (k, v)) = i" "distinct (map fst (bs ! i))"
    using assms(1) i(2) unfolding bt_buckets_ok_def by blast+
  then show "map_of (bs ! bt_home cap k) k = Some v" using i by simp
qed

subsection \<open>Resizing keeps the map\<close>

definition bt_fresh :: "string list \<Rightarrow> bucket_table \<Rightarrow> bool" where
  "bt_fresh ks ht \<longleftrightarrow> (\<forall>k \<in> set ks. bt_abs ht k = None)"

lemma bt_Hash_home: "bt_Hash ht k 32 = bt_home (bt_capacity ht) k"
  by (simp add: bt_Hash_def bt_home_def)

lemma bt_reinsert_props:
  assumes "bt_buckets_ok (bt_capacity ht) (bt_bucket ht)" "0 < bt_capacity ht"
    "bt_size ht = sum_list (map length (bt_bucket ht))" "bt_abs ht (fst e) = None"
  defines "ht' \<equiv> bt_reinsert e ht"
  shows "bt_buckets_ok (bt_capacity ht') (bt_bucket ht')" "bt_capacity ht' = bt_capacity ht"
    "bt_size ht' = sum_list (map length (bt_bucket ht'))" "bt_abs ht' = (bt_abs ht)(fst e \<mapsto> snd e)"
    "bt_minimumCapacity ht' = bt_minimumCapacity ht" "bt_size ht' = Suc (bt_size ht)"
proof -
  let ?i = "bt_home (bt_capacity ht) (fst e)"
  have i: "?i < length (bt_bucket ht)" using bt_buckets_ok_home assms(1,2) by blast
  have ht': "ht' = ht\<lparr>bt_bucket := (bt_bucket ht)[?i := e # bt_bucket ht ! ?i], bt_size := bt_size ht + 1\<rparr>"
    by (simp add: ht'_def bt_reinsert_def bt_Hash_home Let_def)
  show "bt_capacity ht' = bt_capacity ht" "bt_minimumCapacity ht' = bt_minimumCapacity ht"
    "bt_size ht' = Suc (bt_size ht)" by (simp_all add: ht')
  have "fst e \<notin> fst ` set (bt_bucket ht ! ?i)"
    using assms(4) by (simp add: bt_abs_def map_of_eq_None_iff)
  moreover have "distinct (map fst (bt_bucket ht ! ?i))" "\<forall>x \<in> set (bt_bucket ht ! ?i). bt_home (bt_capacity ht) (fst x) = ?i"
    using assms(1) i by (auto simp: bt_buckets_ok_def)
  ultimately show "bt_buckets_ok (bt_capacity ht') (bt_bucket ht')"
    using assms(1,2) i unfolding ht' by (simp, intro bt_buckets_ok_update) (auto simp: bt_buckets_ok_def)
  show "bt_size ht' = sum_list (map length (bt_bucket ht'))"
    using sum_list_length_update [OF i, of "e # bt_bucket ht ! ?i"] assms(3) by (simp add: ht')
  show "bt_abs ht' = (bt_abs ht)(fst e \<mapsto> snd e)"
    using i by (cases e) (auto simp: ht' bt_abs_def fun_eq_iff nth_list_update)
qed

lemma bt_reinsert_fold:
  assumes "bt_buckets_ok (bt_capacity ht) (bt_bucket ht)" "0 < bt_capacity ht"
    "bt_size ht = sum_list (map length (bt_bucket ht))" "bt_fresh (map fst es) ht" "distinct (map fst es)"
  defines "ht' \<equiv> fold bt_reinsert es ht"
  shows "bt_buckets_ok (bt_capacity ht') (bt_bucket ht')" "bt_capacity ht' = bt_capacity ht"
    "bt_size ht' = sum_list (map length (bt_bucket ht'))" "bt_abs ht' = bt_abs ht ++ map_of es"
    "bt_minimumCapacity ht' = bt_minimumCapacity ht" "bt_size ht' = bt_size ht + length es"
  using assms(1-5) unfolding ht'_def
proof (atomize (full), induction es arbitrary: ht)
  case (Cons e es)
  have new: "bt_abs ht (fst e) = None" using Cons.prems(4) by (simp add: bt_fresh_def)
  note r = bt_reinsert_props [OF Cons.prems(1-3) new]
  have "bt_fresh (map fst es) (bt_reinsert e ht)"
    unfolding bt_fresh_def r(4)
  proof
    fix k
    assume "k \<in> set (map fst es)"
    moreover from this have "k \<noteq> fst e"
      using Cons.prems(5) by (metis distinct.simps(2) list.simps(9))
    ultimately show "((bt_abs ht)(fst e \<mapsto> snd e)) k = None"
      using Cons.prems(4) by (auto simp: bt_fresh_def)
  qed
  moreover have "(bt_abs ht)(fst e \<mapsto> snd e) ++ map_of es = bt_abs ht ++ map_of (e # es)"
    using Cons.prems(5) by (cases e) (simp add: map_add_upd_left map_of_eq_None_iff dom_map_of_conv_image_fst)
  ultimately show ?case
    using Cons.IH [of "bt_reinsert e ht"] Cons.prems(2,5) r by (auto simp del: fun_upd_apply map_of.simps)
qed simp


lemma distinct_concat_keys:
  assumes "bt_buckets_ok cap bs"
  shows "distinct (map fst (concat bs))"
proof -
  have keys: "\<forall>i < length bs. distinct (map fst (bs ! i)) \<and> (\<forall>k \<in> fst ` set (bs ! i). bt_home cap k = i)"
    using assms by (auto simp: bt_buckets_ok_def)
  have "distinct (map fst (concat cs))"
    if "\<forall>i < length cs. distinct (map fst (cs ! i)) \<and> (\<forall>k \<in> fst ` set (cs ! i). h k = n + i)"
    for cs :: "pairs list" and h :: "string \<Rightarrow> nat" and n
    using that
  proof (induction cs arbitrary: n)
    case (Cons c cs)
    have tail: "\<forall>i < length cs. distinct (map fst (cs ! i)) \<and> (\<forall>k \<in> fst ` set (cs ! i). h k = Suc n + i)"
      using Cons.prems by force
    have "\<forall>k \<in> fst ` set (concat cs). n < h k"
      using tail by (force simp: in_set_conv_nth)
    moreover have "distinct (map fst c)" "\<forall>k \<in> fst ` set c. h k = n"
      using Cons.prems [rule_format, of 0] by auto
    ultimately show ?case using Cons.IH [OF tail] by fastforce
  qed simp
  from this [of bs "bt_home cap" 0] keys show ?thesis by simp
qed

lemma bt_abs_concat:
  assumes "bt_buckets_ok (bt_capacity ht) (bt_bucket ht)" "0 < bt_capacity ht"
  shows "bt_abs ht = map_of (concat (bt_bucket ht))"
proof
  fix k
  have "map_of (concat (bt_bucket ht)) k = Some v \<longleftrightarrow> (k, v) \<in> set (concat (bt_bucket ht))" for v
    using distinct_concat_keys [OF assms(1)] by simp
  then have "bt_abs ht k = Some v \<longleftrightarrow> map_of (concat (bt_bucket ht)) k = Some v" for v
    unfolding bt_abs_def bt_buckets_ok_entry [OF assms] by simp
  then show "bt_abs ht k = map_of (concat (bt_bucket ht)) k" by (metis not_None_eq)
qed

lemma fold_fold_concat: "fold (\<lambda>xs t. fold f xs t) xss t = fold f (concat xss) t"
  by (induction xss arbitrary: t) simp_all

lemma bt_resize_props:
  assumes "bt_buckets_ok (bt_capacity ht) (bt_bucket ht)" "0 < bt_capacity ht"
    "bt_size ht = sum_list (map length (bt_bucket ht))" "bt_minimumCapacity ht = 16"
    "bt_size ht \<le> 3 * max 16 n div 4"
  shows "bt_inv (bt_resize n ht)" "bt_abs (bt_resize n ht) = bt_abs ht"
    "bt_capacity (bt_resize n ht) = max 16 n" "bt_size (bt_resize n ht) = bt_size ht"
proof -
  let ?es = "concat (bt_bucket ht)" and ?n = "max 16 n"
  let ?ht1 = "ht\<lparr>bt_capacity := ?n, bt_bucket := replicate ?n [], bt_size := 0\<rparr>"
  have r: "bt_resize n ht = fold bt_reinsert ?es ?ht1"
    using assms(4) by (simp add: bt_resize_def Let_def fold_fold_concat max_def)
  have empty: "bt_abs ?ht1 k = None" for k by (simp add: bt_abs_def bt_home_def)
  have ok1: "bt_buckets_ok (bt_capacity ?ht1) (bt_bucket ?ht1)" "0 < bt_capacity ?ht1"
    "bt_size ?ht1 = sum_list (map length (bt_bucket ?ht1))" "bt_fresh (map fst ?es) ?ht1"
    using empty by (auto simp: bt_buckets_ok_def bt_fresh_def sum_list_replicate)
  note f = bt_reinsert_fold [OF ok1 distinct_concat_keys [OF assms(1)], folded r]
  have "bt_abs ?ht1 = Map.empty" using empty by auto
  then show "bt_abs (bt_resize n ht) = bt_abs ht" using f(4) bt_abs_concat [OF assms(1,2)] by simp
  show cap: "bt_capacity (bt_resize n ht) = max 16 n" using f(2) by simp
  show sz: "bt_size (bt_resize n ht) = bt_size ht" using f(6) assms(3) by (simp add: length_concat)
  show "bt_inv (bt_resize n ht)"
    using f(1,3,5) assms(4,5) cap sz unfolding bt_inv_def by simp
qed

subsection \<open>The operations\<close>

lemma bt_inv_bucket:
  fixes key :: string
  assumes "bt_inv ht"
  defines "i \<equiv> bt_home (bt_capacity ht) key"
  shows "i < bt_capacity ht" "i < length (bt_bucket ht)" "distinct (map fst (bt_bucket ht ! i))"
    "\<forall>e \<in> set (bt_bucket ht ! i). bt_home (bt_capacity ht) (fst e) = i"
proof -
  show "i < bt_capacity ht" using assms by (simp add: bt_inv_def bt_home_def)
  then show "i < length (bt_bucket ht)" "distinct (map fst (bt_bucket ht ! i))"
    "\<forall>e \<in> set (bt_bucket ht ! i). bt_home (bt_capacity ht) (fst e) = i"
    using assms by (auto simp: bt_inv_def bt_buckets_ok_def)
qed

text \<open>Replacing the chain of a key's bucket by one that keeps the other keys changes only that key.\<close>

lemma bt_replace_chain:
  assumes "bt_inv ht" and i: "i = bt_home (bt_capacity ht) key"
    and "distinct (map fst c)" "\<forall>e \<in> set c. bt_home (bt_capacity ht) (fst e) = i"
    and "map_of c = (map_of (bt_bucket ht ! i))(key := r)"
  shows "bt_buckets_ok (bt_capacity ht) ((bt_bucket ht)[i := c])"
    "bt_abs (ht\<lparr>bt_bucket := (bt_bucket ht)[i := c], bt_size := n\<rparr>) = (bt_abs ht)(key := r)"
    "bt_abs (ht\<lparr>bt_bucket := (bt_bucket ht)[i := c]\<rparr>) = (bt_abs ht)(key := r)"
    "sum_list (map length ((bt_bucket ht)[i := c])) + length (bt_bucket ht ! i) = bt_size ht + length c"
proof -
  have len: "i < length (bt_bucket ht)" using bt_inv_bucket(2) [OF assms(1)] i by simp
  show "bt_buckets_ok (bt_capacity ht) ((bt_bucket ht)[i := c])"
    using assms(1,3,4) bt_inv_bucket(1) [OF assms(1)] i
    by (intro bt_buckets_ok_update) (auto simp: bt_inv_def)
  show "bt_abs (ht\<lparr>bt_bucket := (bt_bucket ht)[i := c], bt_size := n\<rparr>) = (bt_abs ht)(key := r)"
    "bt_abs (ht\<lparr>bt_bucket := (bt_bucket ht)[i := c]\<rparr>) = (bt_abs ht)(key := r)"
    using len i assms(5) by (auto simp: bt_abs_def fun_eq_iff nth_list_update)
  show "sum_list (map length ((bt_bucket ht)[i := c])) + length (bt_bucket ht ! i) = bt_size ht + length c"
    using sum_list_length_update [OF len] assms(1) by (simp add: bt_inv_def)
qed

lemma bt_Set_ok:
  assumes "bt_inv ht"
  shows "bt_inv (bt_Set key v ht)" "bt_abs (bt_Set key v ht) = (bt_abs ht)(key \<mapsto> v)"
proof -
  let ?i = "bt_home (bt_capacity ht) key" and ?chain = "bt_bucket ht ! bt_home (bt_capacity ht) key"
  note b = bt_inv_bucket [OF assms, of key]
  have "bt_inv (bt_Set key v ht) \<and> bt_abs (bt_Set key v ht) = (bt_abs ht)(key \<mapsto> v)"
  proof (cases "chain_update key v ?chain")
    case (Some c)
    note u = chain_update_Some [OF Some]
    have keys: "distinct (map fst c)" "\<forall>e \<in> set c. bt_home (bt_capacity ht) (fst e) = ?i"
      using u b(3,4) by (metis, metis (no_types, lifting) image_iff list.set_map)
    have m: "map_of c = (map_of ?chain)(key := Some v)" using u by simp
    note r = bt_replace_chain [OF assms refl keys m]
    have "length c = length ?chain" using u by (metis length_map)
    then show ?thesis
      using r u assms Some by (simp add: bt_Set_def bt_Hash_home Let_def bt_inv_def)
  next
    case None
    let ?c = "(key, v) # ?chain"
    let ?ht = "ht\<lparr>bt_bucket := (bt_bucket ht)[?i := ?c], bt_size := bt_size ht + 1\<rparr>"
    have "map_of ?chain key = None" using None by (simp add: chain_update_None)
    then have keys: "distinct (map fst ?c)" "\<forall>e \<in> set ?c. bt_home (bt_capacity ht) (fst e) = ?i"
      using b(3,4) by (auto simp: map_of_eq_None_iff)
    have m: "map_of ?c = (map_of ?chain)(key \<mapsto> v)" by (simp add: fun_eq_iff)
    note r = bt_replace_chain [OF assms refl keys m]
    have ht: "bt_buckets_ok (bt_capacity ?ht) (bt_bucket ?ht)" "0 < bt_capacity ?ht"
      "bt_size ?ht = sum_list (map length (bt_bucket ?ht))" "bt_minimumCapacity ?ht = 16"
      using r(1,4) assms by (simp_all add: bt_inv_def)
    have set: "bt_Set key v ht = (if bt_shouldGrow ?ht then bt_resize (bt_capacity ht * 2) ?ht else ?ht)"
      using None by (simp add: bt_Set_def bt_Hash_home Let_def)
    show ?thesis
    proof (cases "bt_shouldGrow ?ht")
      case True
      have "bt_size ?ht \<le> 3 * max 16 (bt_capacity ht * 2) div 4"
        using assms unfolding bt_inv_def by (simp add: max_def) linarith
      from bt_resize_props [OF ht this] True show ?thesis
        unfolding set using r(2) by simp
    next
      case False
      then show ?thesis unfolding set
        using r(2) ht assms by (simp add: bt_inv_def bt_shouldGrow_def)
    qed
  qed
  then show "bt_inv (bt_Set key v ht)" "bt_abs (bt_Set key v ht) = (bt_abs ht)(key \<mapsto> v)" by blast+
qed

lemma bt_Get_ok: "bt_Get key ht = (case bt_abs ht key of Some v \<Rightarrow> (v, True) | None \<Rightarrow> ('''', False))"
  by (simp add: bt_Get_def bt_abs_def bt_Hash_home chain_find_map_of)

lemma quarter_within_half:
  fixes s c :: nat
  assumes "s < c div 4"
  shows "s \<le> 3 * max 16 (c div 2) div 4"
proof -
  have "2 * s + 2 \<le> c div 2" using assms by linarith
  then have "4 * s \<le> 3 * (c div 2)" by linarith
  then have "s \<le> 3 * (c div 2) div 4" by linarith
  also have "\<dots> \<le> 3 * max 16 (c div 2) div 4" by (intro div_le_mono) simp
  finally show ?thesis .
qed

lemma bt_Delete_ok:
  assumes "bt_inv ht"
  shows "bt_inv (snd (bt_Delete key ht))" "bt_abs (snd (bt_Delete key ht)) = (bt_abs ht)(key := None)"
    "fst (bt_Delete key ht) \<longleftrightarrow> bt_abs ht key \<noteq> None"
proof -
  let ?i = "bt_home (bt_capacity ht) key" and ?chain = "bt_bucket ht ! bt_home (bt_capacity ht) key"
  note b = bt_inv_bucket [OF assms, of key]
  have "bt_inv (snd (bt_Delete key ht)) \<and> bt_abs (snd (bt_Delete key ht)) = (bt_abs ht)(key := None) \<and>
    (fst (bt_Delete key ht) \<longleftrightarrow> bt_abs ht key \<noteq> None)"
  proof (cases "chain_delete key ?chain")
    case None
    then have "bt_abs ht key = None" by (simp add: chain_delete_None bt_abs_def)
    then show ?thesis
      using None assms by (auto simp: bt_Delete_def bt_Hash_home Let_def fun_eq_iff)
  next
    case (Some c)
    let ?ht = "ht\<lparr>bt_bucket := (bt_bucket ht)[?i := c], bt_size := bt_size ht - 1\<rparr>"
    note d = chain_delete_Some [OF Some b(3)]
    have keys: "\<forall>e \<in> set c. bt_home (bt_capacity ht) (fst e) = ?i" using d(3) b(4) by blast
    note r = bt_replace_chain [OF assms refl d(4) keys d(1)]
    have ht: "bt_buckets_ok (bt_capacity ?ht) (bt_bucket ?ht)" "0 < bt_capacity ?ht"
      "bt_size ?ht = sum_list (map length (bt_bucket ?ht))" "bt_minimumCapacity ?ht = 16"
      using r(1,4) d(2) assms by (simp_all add: bt_inv_def)
    have del: "bt_Delete key ht =
        (True, if bt_shouldShrink ?ht then bt_resize (bt_capacity ht div 2) ?ht else ?ht)"
      using Some by (simp add: bt_Delete_def bt_Hash_home Let_def)
    have found: "bt_abs ht key \<noteq> None" using d(5) by (simp add: bt_abs_def)
    show ?thesis
    proof (cases "bt_shouldShrink ?ht")
      case True
      then have "bt_size ?ht \<le> 3 * max 16 (bt_capacity ht div 2) div 4"
        by (intro quarter_within_half) (simp add: bt_shouldShrink_def)
      from bt_resize_props [OF ht this] True found show ?thesis
        unfolding del using r(2) by simp
    next
      case False
      have cap: "16 \<le> bt_capacity ht" using assms by (simp add: bt_inv_def)
      have "bt_size ?ht \<le> 3 * bt_capacity ht div 4" using assms unfolding bt_inv_def by simp linarith
      with False show ?thesis unfolding del
        using r(2) ht found cap by (simp add: bt_inv_def)
    qed
  qed
  then show "bt_inv (snd (bt_Delete key ht))" "bt_abs (snd (bt_Delete key ht)) = (bt_abs ht)(key := None)"
    "fst (bt_Delete key ht) \<longleftrightarrow> bt_abs ht key \<noteq> None" by blast+
qed

lemma bt_New_ok: "bt_inv (NewBucketHashTable capacity)" "bt_abs (NewBucketHashTable capacity) = Map.empty"
proof -
  have pos: "0 < bt_capacity (NewBucketHashTable capacity)"
    by (simp add: NewBucketHashTable_def Let_def)
  show "bt_inv (NewBucketHashTable capacity)"
    by (auto simp: NewBucketHashTable_def bt_inv_def bt_buckets_ok_def Let_def sum_list_replicate)
  show "bt_abs (NewBucketHashTable capacity) = Map.empty"
    using pos by (auto simp: NewBucketHashTable_def bt_abs_def bt_home_def Let_def fun_eq_iff)
qed

text \<open>The size is the number of keys.\<close>

lemma bt_size_card:
  assumes "bt_inv ht"
  shows "bt_size ht = card (dom (bt_abs ht))"
proof -
  let ?bs = "bt_bucket ht" and ?cap = "bt_capacity ht"
  let ?keys = "\<lambda>i. fst ` set (?bs ! i)"
  have ok: "bt_buckets_ok ?cap ?bs" "0 < ?cap" using assms by (simp_all add: bt_inv_def)
  then have len: "length ?bs = ?cap" and home: "\<And>i k. i < ?cap \<Longrightarrow> k \<in> ?keys i \<Longrightarrow> bt_home ?cap k = i"
    and dist: "\<And>i. i < ?cap \<Longrightarrow> distinct (map fst (?bs ! i))"
    unfolding bt_buckets_ok_def by auto
  have "dom (bt_abs ht) = (\<Union>i<?cap. ?keys i)"
  proof (intro set_eqI)
    fix k
    have "k \<in> dom (bt_abs ht) \<longleftrightarrow> k \<in> ?keys (bt_home ?cap k)"
      by (simp add: bt_abs_def dom_map_of_conv_image_fst [symmetric] domIff)
    moreover have "bt_home ?cap k < ?cap" using ok(2) by (simp add: bt_home_def)
    ultimately show "k \<in> dom (bt_abs ht) \<longleftrightarrow> k \<in> (\<Union>i<?cap. ?keys i)" using home by blast
  qed
  moreover have "card (\<Union>i<?cap. ?keys i) = (\<Sum>i<?cap. card (?keys i))"
    by (rule card_UN_disjoint) (use home in blast)+
  moreover have "card (?keys i) = length (?bs ! i)" if "i < ?cap" for i
    using distinct_card [OF dist [OF that]] by simp
  ultimately have "card (dom (bt_abs ht)) = (\<Sum>i<?cap. length (?bs ! i))" by simp
  also have "\<dots> = sum_list (map length ?bs)"
    by (simp add: sum_list_sum_nth len atLeast0LessThan)
  finally show ?thesis using assms by (simp add: bt_inv_def)
qed

subsection \<open>The table is a map\<close>

definition bt_lookup :: "string \<Rightarrow> bucket_table \<Rightarrow> string option" where
  "bt_lookup key ht = (case bt_Get key ht of (v, ok) \<Rightarrow> if ok then Some v else None)"

lemma bt_lookup_abs: "bt_lookup key ht = bt_abs ht key"
  by (simp add: bt_lookup_def bt_Get_ok split: option.split)

interpretation bucket: kv_store_del bt_inv bt_abs "\<lambda>k v t. Inr (bt_Set k v t)"
  "\<lambda>k t. Inr (bt_lookup k t)" "\<lambda>_. 0" 0 0 "\<lambda>k t. Inr (snd (bt_Delete k t))"
  by unfold_locales (simp_all add: bt_lookup_abs bt_Set_ok bt_Delete_ok)

text \<open>
  C8. Whatever initial capacity is asked for, every sequence of \<open>Set\<close>, \<open>Get\<close> and \<open>Delete\<close> on a
  new bucket table answers each \<open>Get\<close> as a map would, through every growth and shrink. After it the size is
  the number of keys, the capacity is at least 16 and at least four thirds of the size, and \<open>Delete\<close> tells of every key whether it
  was there.
\<close>

theorem bt_run_is_map:
  "\<exists>t. kv_run (\<lambda>k v t. Inr (bt_Set k v t)) (\<lambda>k t. Inr (bt_lookup k t))
        (\<lambda>k t. Inr (snd (bt_Delete k t))) ops (NewBucketHashTable capacity)
      = Inr (fst (kv_spec_run ops Map.empty), t) \<and> bt_inv t \<and>
     bt_size t = card (dom (snd (kv_spec_run ops Map.empty))) \<and>
     16 \<le> bt_capacity t \<and> 4 * bt_size t \<le> 3 * bt_capacity t \<and>
     (\<forall>k. fst (bt_Delete k t) \<longleftrightarrow> snd (kv_spec_run ops Map.empty) k \<noteq> None)"
proof -
  from bucket.run_refines_map [OF bt_New_ok(1), of ops capacity]
  obtain t where t: "kv_run (\<lambda>k v t. Inr (bt_Set k v t)) (\<lambda>k t. Inr (bt_lookup k t))
        (\<lambda>k t. Inr (snd (bt_Delete k t))) ops (NewBucketHashTable capacity)
      = Inr (fst (kv_spec_run ops Map.empty), t)" "bt_inv t" "bt_abs t = snd (kv_spec_run ops Map.empty)"
    unfolding bt_New_ok(2) by auto
  moreover have "16 \<le> bt_capacity t" "4 * bt_size t \<le> 3 * bt_capacity t" using t(2) by (auto simp: bt_inv_def)
  moreover note bt_size_card [OF t(2)] bt_Delete_ok(3) [OF t(2)]
  ultimately show ?thesis by (intro exI [of _ t]) simp
qed

end
