(* ===== verification/Open_Table.thy ===== *)
theory Open_Table
  imports Kv_Interface Fnv_Hash
begin

text \<open>
  \<open>03-Hash-Table/open-addressing-hash-table.go\<close>: linear probing with tombstones. A slot is a
  pointer to an entry no one else holds, so it is an \<open>option\<close> of the entry's value; the index -1
  of the code is \<open>None\<close>. \<open>uint32(ht.capacity)\<close> is 0 for a capacity that is a multiple of
  \<open>2 ^ 32\<close>, and the hash then divides by zero. The float tests compare \<open>size\<close> with 0.75 and 0.25
  times the capacity, exact for capacities below \<open>2 ^ 51\<close>; they are written as integer tests.
\<close>

record 'v oa_entry =
  oa_key :: string
  oa_value :: 'v
  oa_deleted :: bool

type_synonym 'v slots = "'v oa_entry option list"

record oa_probeResult =
  oa_index :: "nat option"
  oa_found :: bool

record 'v oa_table =
  oa_size :: nat
  oa_used :: nat
  oa_capacity :: nat
  oa_buckets :: "'v slots"
  oa_minimumCapacity :: nat

definition NewOpenAddressingHashTable :: "int \<Rightarrow> 'v oa_table" where
  "NewOpenAddressingHashTable capacity = (let c = nat (if capacity < 16 then 16 else capacity) in
     \<lparr>oa_size = 0, oa_used = 0, oa_capacity = c, oa_buckets = replicate c None,
      oa_minimumCapacity = 16\<rparr>)"

definition oa_Size :: "'v oa_table \<Rightarrow> nat" where
  "oa_Size ht = oa_size ht"

definition oa_Capacity :: "'v oa_table \<Rightarrow> nat" where
  "oa_Capacity ht = oa_capacity ht"

definition oaFNVHash32 :: "string \<Rightarrow> u32" where
  "oaFNVHash32 key = fnv1a_from 2166136261 key"

definition oa_hash :: "'v oa_table \<Rightarrow> string \<Rightarrow> nat outcome" where
  "oa_hash ht key = (let c = (of_nat (oa_capacity ht) :: u32) in
     if c = 0 then Inl DivideByZero else Inr (unat (oaFNVHash32 key mod c)))"

definition oa_shouldGrow :: "'v oa_table \<Rightarrow> bool" where
  "oa_shouldGrow ht \<longleftrightarrow> 3 * oa_capacity ht < 4 * oa_size ht"

definition oa_shouldShrink :: "'v oa_table \<Rightarrow> bool" where
  "oa_shouldShrink ht \<longleftrightarrow>
     oa_minimumCapacity ht < oa_capacity ht \<and> 4 * oa_size ht < oa_capacity ht"

definition oa_shouldGrowBeforeInsert :: "'v oa_table \<Rightarrow> bool" where
  "oa_shouldGrowBeforeInsert ht \<longleftrightarrow> 3 * oa_capacity ht < 4 * (oa_size ht + 1)"

definition oa_shouldCleanDeletedSlotsBeforeInsert :: "'v oa_table \<Rightarrow> bool" where
  "oa_shouldCleanDeletedSlotsBeforeInsert ht \<longleftrightarrow> 3 * oa_capacity ht < 4 * (oa_used ht + 1)"

text \<open>The indices a probe visits: \<open>(start + offset) % capacity\<close> for each offset of the loop.\<close>

definition oa_probes :: "nat \<Rightarrow> nat \<Rightarrow> nat list" where
  "oa_probes cap start = map (\<lambda>offset. (start + offset) mod cap) [0..<cap]"

text \<open>The loop of \<open>findSlot\<close>, with \<open>firstDeleted\<close> as its accumulator.\<close>

fun oa_scan :: "'v slots \<Rightarrow> string \<Rightarrow> nat option \<Rightarrow> nat list \<Rightarrow> oa_probeResult" where
  "oa_scan bs key firstDeleted [] = \<lparr>oa_index = firstDeleted, oa_found = False\<rparr>"
| "oa_scan bs key firstDeleted (index # rest) =
     (case bs ! index of
        None \<Rightarrow> (case firstDeleted of
                   Some d \<Rightarrow> \<lparr>oa_index = Some d, oa_found = False\<rparr>
                 | None \<Rightarrow> \<lparr>oa_index = Some index, oa_found = False\<rparr>)
      | Some entry \<Rightarrow>
          if oa_deleted entry
          then oa_scan bs key (if firstDeleted = None then Some index else firstDeleted) rest
          else if oa_key entry = key then \<lparr>oa_index = Some index, oa_found = True\<rparr>
          else oa_scan bs key firstDeleted rest)"

definition oa_findSlot :: "string \<Rightarrow> 'v oa_table \<Rightarrow> oa_probeResult outcome" where
  "oa_findSlot key ht = and_then (oa_hash ht key) (\<lambda>start.
     Inr (oa_scan (oa_buckets ht) key None (oa_probes (oa_capacity ht) start)))"

definition oa_insertRehashedEntry :: "string \<Rightarrow> 'v \<Rightarrow> 'v oa_table \<Rightarrow> 'v oa_table outcome" where
  "oa_insertRehashedEntry key v ht = and_then (oa_findSlot key ht) (\<lambda>slot.
     case oa_index slot of
       None \<Rightarrow> Inl ExplicitPanic
     | Some i \<Rightarrow> Inr (ht\<lparr>oa_buckets := (oa_buckets ht)[i := Some \<lparr>oa_key = key, oa_value = v, oa_deleted = False\<rparr>],
                         oa_size := oa_size ht + 1, oa_used := oa_used ht + 1\<rparr>))"

text \<open>The loop of \<open>resize\<close> over the old slots.\<close>

fun oa_rehash :: "'v slots \<Rightarrow> 'v oa_table \<Rightarrow> 'v oa_table outcome" where
  "oa_rehash [] ht = Inr ht"
| "oa_rehash (None # rest) ht = oa_rehash rest ht"
| "oa_rehash (Some entry # rest) ht =
     (if oa_deleted entry then oa_rehash rest ht
      else and_then (oa_insertRehashedEntry (oa_key entry) (oa_value entry) ht) (oa_rehash rest))"

definition oa_resize :: "nat \<Rightarrow> 'v oa_table \<Rightarrow> 'v oa_table outcome" where
  "oa_resize newCapacity ht =
     (let n = (if newCapacity < oa_minimumCapacity ht then oa_minimumCapacity ht else newCapacity)
      in oa_rehash (oa_buckets ht)
           (ht\<lparr>oa_capacity := n, oa_buckets := replicate n None, oa_size := 0, oa_used := 0\<rparr>))"

text \<open>The probe of \<open>Get\<close> and \<open>Delete\<close>: the index of the live entry of the key.\<close>

fun oa_locate :: "'v slots \<Rightarrow> string \<Rightarrow> nat list \<Rightarrow> (nat \<times> 'v oa_entry) option" where
  "oa_locate bs key [] = None"
| "oa_locate bs key (index # rest) =
     (case bs ! index of
        None \<Rightarrow> None
      | Some entry \<Rightarrow> if \<not> oa_deleted entry \<and> oa_key entry = key then Some (index, entry)
                       else oa_locate bs key rest)"

definition oa_Get :: "'v \<Rightarrow> string \<Rightarrow> 'v oa_table \<Rightarrow> ('v \<times> bool) outcome" where
  "oa_Get zero key ht = and_then (oa_hash ht key) (\<lambda>start. Inr
     (case oa_locate (oa_buckets ht) key (oa_probes (oa_capacity ht) start) of
        Some (_, entry) \<Rightarrow> (oa_value entry, True) | None \<Rightarrow> (zero, False)))"

text \<open>A slot for the new key: the table is resized first when it is full or littered.\<close>

definition oa_makeRoom :: "string \<Rightarrow> oa_probeResult \<Rightarrow> 'v oa_table \<Rightarrow> ('v oa_table \<times> oa_probeResult) outcome" where
  "oa_makeRoom key slot ht =
     (let resized = (\<lambda>n t. and_then (oa_resize n t) (\<lambda>t1.
                      and_then (oa_findSlot key t1) (\<lambda>s. Inr (t1, s))))
      in and_then (if oa_shouldGrowBeforeInsert ht then resized (oa_capacity ht * 2) ht
                   else if oa_shouldCleanDeletedSlotsBeforeInsert ht then resized (oa_capacity ht) ht
                   else Inr (ht, slot)) (\<lambda>(ht1, slot1).
         if oa_index slot1 = None then resized (oa_capacity ht1 * 2) ht1 else Inr (ht1, slot1)))"

definition oa_Set :: "string \<Rightarrow> 'v \<Rightarrow> 'v oa_table \<Rightarrow> 'v oa_table outcome" where
  "oa_Set key v ht = and_then (oa_findSlot key ht) (\<lambda>slot.
     case (oa_index slot, oa_found slot) of
       (Some i, True) \<Rightarrow>
         Inr (ht\<lparr>oa_buckets := (oa_buckets ht)[i := map_option (\<lambda>e. e\<lparr>oa_value := v\<rparr>) (oa_buckets ht ! i)]\<rparr>)
     | _ \<Rightarrow> and_then (oa_makeRoom key slot ht) (\<lambda>(ht1, slot1).
         case oa_index slot1 of
           None \<Rightarrow> Inl ExplicitPanic
         | Some i \<Rightarrow>
             let ht2 = (if oa_buckets ht1 ! i = None then ht1\<lparr>oa_used := oa_used ht1 + 1\<rparr> else ht1);
                 ht3 = ht2\<lparr>oa_buckets := (oa_buckets ht2)[i := Some \<lparr>oa_key = key, oa_value = v, oa_deleted = False\<rparr>],
                           oa_size := oa_size ht2 + 1\<rparr>
             in if oa_shouldGrow ht3 then oa_resize (oa_capacity ht3 * 2) ht3 else Inr ht3))"

definition oa_Delete :: "'v \<Rightarrow> string \<Rightarrow> 'v oa_table \<Rightarrow> (bool \<times> 'v oa_table) outcome" where
  "oa_Delete zero key ht = and_then (oa_hash ht key) (\<lambda>start.
     case oa_locate (oa_buckets ht) key (oa_probes (oa_capacity ht) start) of
       None \<Rightarrow> Inr (False, ht)
     | Some (i, entry) \<Rightarrow>
         let ht1 = ht\<lparr>oa_buckets := (oa_buckets ht)[i := Some \<lparr>oa_key = '''', oa_value = zero, oa_deleted = True\<rparr>],
                     oa_size := oa_size ht - 1\<rparr>
         in and_then (if oa_shouldShrink ht1 then oa_resize (oa_capacity ht1 div 2) ht1 else Inr ht1)
              (\<lambda>ht2. Inr (True, ht2)))"

subsection \<open>Slots\<close>

definition oa_live :: "'v oa_entry option \<Rightarrow> bool" where
  "oa_live s = (case s of None \<Rightarrow> False | Some e \<Rightarrow> \<not> oa_deleted e)"

definition oa_holds :: "string \<Rightarrow> 'v oa_entry option \<Rightarrow> bool" where
  "oa_holds k s = (case s of None \<Rightarrow> False | Some e \<Rightarrow> \<not> oa_deleted e \<and> oa_key e = k)"

definition oa_lookup :: "'v slots \<Rightarrow> string \<Rightarrow> 'v option" where
  "oa_lookup bs k = (case find (oa_holds k) bs of Some (Some e) \<Rightarrow> Some (oa_value e) | _ \<Rightarrow> None)"

definition oa_uniq :: "'v slots \<Rightarrow> bool" where
  "oa_uniq bs \<longleftrightarrow> (\<forall>i < length bs. \<forall>j < length bs. \<forall>k. oa_holds k (bs ! i) \<and> oa_holds k (bs ! j) \<longrightarrow> i = j)"

lemma oa_holds_simps [simp]:
  "\<not> oa_holds k None" "oa_holds k (Some e) \<longleftrightarrow> \<not> oa_deleted e \<and> oa_key e = k"
  by (simp_all add: oa_holds_def)

lemma oa_live_simps [simp]: "\<not> oa_live None" "oa_live (Some e) \<longleftrightarrow> \<not> oa_deleted e"
  by (simp_all add: oa_live_def)

lemma oa_lookup_None: "oa_lookup bs k = None \<longleftrightarrow> (\<forall>i < length bs. \<not> oa_holds k (bs ! i))"
proof -
  have "oa_lookup bs k = None \<longleftrightarrow> find (oa_holds k) bs = None"
    by (auto simp: oa_lookup_def find_Some_iff split: option.splits)
  then show ?thesis by (auto simp: find_None_iff in_set_conv_nth)
qed

lemma oa_lookup_at:
  assumes "oa_uniq bs" "i < length bs" "bs ! i = Some e" "oa_holds k (Some e)"
  shows "oa_lookup bs k = Some (oa_value e)"
proof -
  have "oa_holds k (bs ! i)" using assms(3,4) by simp
  then obtain s where s: "find (oa_holds k) bs = Some s"
    using assms(2) by (metis find_None_iff not_Some_eq nth_mem)
  then obtain j where "j < length bs" "oa_holds k (bs ! j)" "s = bs ! j"
    by (auto simp: find_Some_iff)
  moreover from this have "i = j" using assms(1,2) \<open>oa_holds k (bs ! i)\<close> unfolding oa_uniq_def by blast
  ultimately show ?thesis using s assms(3) by (simp add: oa_lookup_def)
qed

lemma oa_lookup_Some:
  assumes "oa_lookup bs k = Some v"
  obtains i e where "i < length bs" "bs ! i = Some e" "oa_holds k (Some e)" "oa_value e = v"
  using assms by (fastforce simp: oa_lookup_def find_Some_iff split: option.splits)

lemma oa_lookup_replicate [simp]: "oa_lookup (replicate n None) = Map.empty"
  by (auto simp: fun_eq_iff oa_lookup_None)

subsection \<open>Probe paths\<close>

definition oa_home :: "nat \<Rightarrow> string \<Rightarrow> nat" where
  "oa_home cap k = unat (oaFNVHash32 k mod of_nat cap)"

definition oa_path :: "nat \<Rightarrow> string \<Rightarrow> nat list" where
  "oa_path cap k = oa_probes cap (oa_home cap k)"

lemma oa_path_set: "set (oa_path cap k) = {..<cap}"
proof (cases "cap = 0")
  case False
  have "\<exists>m < cap. (s + m) mod cap = i" if "i < cap" for s i
  proof -
    define m where "m = (i + (cap - s mod cap)) mod cap"
    have "(s + m) mod cap = (s + (i + (cap - s mod cap))) mod cap"
      by (simp add: m_def mod_add_right_eq)
    also have "\<dots> = (s mod cap + (i + (cap - s mod cap))) mod cap" by (simp add: mod_add_left_eq)
    also have "s mod cap + (i + (cap - s mod cap)) = i + cap"
      using False mod_less_divisor [of cap s] by linarith
    finally have "(s + m) mod cap = i" using that by simp
    moreover have "m < cap" using False by (simp add: m_def)
    ultimately show ?thesis by blast
  qed
  then have "i \<in> (\<lambda>m. (s + m) mod cap) ` {0..<cap}" if "i < cap" for s i
    using that by (metis atLeastLessThan_iff image_eqI zero_le)
  moreover have "(\<lambda>m. (s + m) mod cap) ` {0..<cap} \<subseteq> {..<cap}" for s using False by auto
  ultimately have "(\<lambda>m. (s + m) mod cap) ` {0..<cap} = {..<cap}" for s by blast
  then show ?thesis by (simp add: oa_path_def oa_probes_def)
qed (simp add: oa_path_def oa_probes_def)

lemma oa_hash_ok:
  assumes "0 < oa_capacity ht" "oa_capacity ht < 2 ^ 32"
  shows "oa_hash ht key = Inr (oa_home (oa_capacity ht) key)"
proof -
  have "unat (of_nat (oa_capacity ht) :: u32) = oa_capacity ht"
    using assms(2) by (simp add: unat_of_nat take_bit_nat_eq_self)
  then have "(of_nat (oa_capacity ht) :: u32) \<noteq> 0" using assms(1) by auto
  then show ?thesis by (simp add: oa_hash_def oa_home_def Let_def)
qed

text \<open>An index of a path before which every slot is in use.\<close>

definition oa_reached :: "'v slots \<Rightarrow> nat list \<Rightarrow> nat \<Rightarrow> bool" where
  "oa_reached bs path i \<longleftrightarrow> (\<exists>us vs. path = us @ i # vs \<and> (\<forall>u \<in> set us. bs ! u \<noteq> None))"

lemma oa_reached_update:
  assumes "oa_reached bs path i" "j < length bs"
  shows "oa_reached (bs[j := Some e]) path i"
  using assms by (force simp: oa_reached_def nth_list_update)

lemma oa_reached_Cons:
  "oa_reached bs (p # path) i \<longleftrightarrow> p = i \<or> bs ! p \<noteq> None \<and> oa_reached bs path i"
proof
  assume "oa_reached bs (p # path) i"
  then obtain us vs where "p # path = us @ i # vs" "\<forall>u \<in> set us. bs ! u \<noteq> None"
    by (auto simp: oa_reached_def)
  then show "p = i \<or> bs ! p \<noteq> None \<and> oa_reached bs path i"
    by (cases us) (auto simp: oa_reached_def)
next
  assume "p = i \<or> bs ! p \<noteq> None \<and> oa_reached bs path i"
  then show "oa_reached bs (p # path) i"
  proof
    assume "p = i"
    then have "p # path = [] @ i # path" by simp
    then show ?thesis unfolding oa_reached_def by fastforce
  next
    assume p: "bs ! p \<noteq> None \<and> oa_reached bs path i"
    then obtain us vs where "path = us @ i # vs" "\<forall>u \<in> set us. bs ! u \<noteq> None"
      by (auto simp: oa_reached_def)
    with p have "p # path = (p # us) @ i # vs" "\<forall>u \<in> set (p # us). bs ! u \<noteq> None" by simp_all
    then show ?thesis unfolding oa_reached_def by blast
  qed
qed

lemma oa_scan_present:
  assumes "oa_reached bs path i" "bs ! i = Some e" "oa_holds k (Some e)"
    and "\<And>j. j \<in> set path \<Longrightarrow> oa_holds k (bs ! j) \<Longrightarrow> j = i"
  shows "oa_scan bs k fd path = \<lparr>oa_index = Some i, oa_found = True\<rparr>"
    and "oa_locate bs k path = Some (i, e)"
proof -
  have "oa_scan bs k fd path = \<lparr>oa_index = Some i, oa_found = True\<rparr> \<and> oa_locate bs k path = Some (i, e)"
    using assms(1,4)
  proof (induction path arbitrary: fd)
    case Nil
    then show ?case by (simp add: oa_reached_def)
  next
    case (Cons p path)
    show ?case
    proof (cases "p = i")
      case True
      then show ?thesis using assms(2,3) by simp
    next
      case False
      then obtain e' where e': "bs ! p = Some e'" "oa_reached bs path i"
        using Cons.prems(1) by (auto simp: oa_reached_Cons)
      moreover have "oa_deleted e' \<or> oa_key e' \<noteq> k" using Cons.prems(2) [of p] False e'(1) by auto
      ultimately show ?thesis using Cons.IH Cons.prems(2) by auto
    qed
  qed
  then show "oa_scan bs k fd path = \<lparr>oa_index = Some i, oa_found = True\<rparr>"
    and "oa_locate bs k path = Some (i, e)" by auto
qed

lemma oa_locate_absent:
  assumes "\<And>j. j \<in> set path \<Longrightarrow> \<not> oa_holds k (bs ! j)"
  shows "oa_locate bs k path = None"
  using assms
proof (induction path)
  case (Cons p path)
  then have "\<not> oa_holds k (bs ! p)" "oa_locate bs k path = None" by simp_all
  then show ?case by (auto split: option.split)
qed simp

lemma oa_scan_deleted_first:
  assumes "\<And>j. j \<in> set path \<Longrightarrow> \<not> oa_holds k (bs ! j)"
  shows "oa_scan bs k (Some d) path = \<lparr>oa_index = Some d, oa_found = False\<rparr>"
  using assms
proof (induction path)
  case (Cons p path)
  then have "\<not> oa_holds k (bs ! p)"
    "oa_scan bs k (Some d) path = \<lparr>oa_index = Some d, oa_found = False\<rparr>" by simp_all
  then show ?case by (auto split: option.split)
qed simp

lemma oa_scan_absent:
  assumes "\<And>j. j \<in> set path \<Longrightarrow> \<not> oa_holds k (bs ! j)" "\<exists>j \<in> set path. bs ! j = None"
  shows "\<exists>i \<in> set path. oa_scan bs k None path = \<lparr>oa_index = Some i, oa_found = False\<rparr> \<and>
     \<not> oa_live (bs ! i) \<and> oa_reached bs path i"
  using assms
proof (induction path)
  case (Cons p path)
  show ?case
  proof (cases "bs ! p")
    case None
    then show ?thesis by (simp add: oa_reached_Cons)
  next
    case (Some e)
    show ?thesis
    proof (cases "oa_deleted e")
      case True
      then show ?thesis
        using Some oa_scan_deleted_first [of path k bs p] Cons.prems(1) by (simp add: oa_reached_Cons)
    next
      case False
      then have "oa_key e \<noteq> k" using Cons.prems(1) [of p] Some by auto
      moreover have "\<exists>j \<in> set path. bs ! j = None" using Cons.prems(2) Some by auto
      ultimately show ?thesis using Cons.IH Cons.prems(1) Some False by (auto simp: oa_reached_Cons)
    qed
  qed
qed simp

subsection \<open>Invariant\<close>

text \<open>
  Every live key is stored once and is reached by its probe path without meeting an empty slot;
  \<open>size\<close> counts the live slots and \<open>used\<close> the slots that are not empty, at most three quarters
  of the capacity.
\<close>

definition oa_slots_ok :: "nat \<Rightarrow> 'v slots \<Rightarrow> bool" where
  "oa_slots_ok cap bs \<longleftrightarrow> length bs = cap \<and> oa_uniq bs \<and>
     (\<forall>i < cap. \<forall>k. oa_holds k (bs ! i) \<longrightarrow> oa_reached bs (oa_path cap k) i)"

definition oa_inv :: "'v oa_table \<Rightarrow> bool" where
  "oa_inv ht \<longleftrightarrow> oa_slots_ok (oa_capacity ht) (oa_buckets ht) \<and> oa_minimumCapacity ht = 16 \<and>
     16 \<le> oa_capacity ht \<and> oa_capacity ht < 2 ^ 32 \<and>
     oa_size ht = length (filter oa_live (oa_buckets ht)) \<and>
     oa_used ht = length (filter (\<lambda>s. s \<noteq> None) (oa_buckets ht)) \<and>
     4 * oa_used ht \<le> 3 * oa_capacity ht"

definition oa_abs :: "'v oa_table \<Rightarrow> string \<Rightarrow> 'v option" where
  "oa_abs ht = oa_lookup (oa_buckets ht)"

lemma oa_live_le_used: "length (filter oa_live bs) \<le> length (filter (\<lambda>s. s \<noteq> None) bs)"
  by (induction bs) (auto simp: oa_live_def)

text \<open>The result of a probe, for a key in the table and for one that is not.\<close>

lemma oa_findSlot_present:
  assumes "oa_slots_ok (oa_capacity ht) (oa_buckets ht)" "0 < oa_capacity ht" "oa_capacity ht < 2 ^ 32"
    and "oa_abs ht k = Some v"
  obtains i e where "i < oa_capacity ht" "oa_buckets ht ! i = Some e" "oa_holds k (Some e)" "oa_value e = v"
    "oa_findSlot k ht = Inr \<lparr>oa_index = Some i, oa_found = True\<rparr>"
    "oa_locate (oa_buckets ht) k (oa_path (oa_capacity ht) k) = Some (i, e)"
proof -
  let ?bs = "oa_buckets ht" and ?cap = "oa_capacity ht"
  obtain i e where e: "i < length ?bs" "?bs ! i = Some e" "oa_holds k (Some e)" "oa_value e = v"
    using assms(4) unfolding oa_abs_def by (rule oa_lookup_Some)
  have len: "length ?bs = ?cap" and un: "oa_uniq ?bs" using assms(1) by (simp_all add: oa_slots_ok_def)
  have "oa_reached ?bs (oa_path ?cap k) i" using assms(1) e len by (simp add: oa_slots_ok_def)
  moreover have "j = i" if "j \<in> set (oa_path ?cap k)" "oa_holds k (?bs ! j)" for j
    using that e un len unfolding oa_uniq_def by (metis lessThan_iff oa_path_set)
  ultimately have s: "oa_scan ?bs k None (oa_path ?cap k) = \<lparr>oa_index = Some i, oa_found = True\<rparr>"
    "oa_locate ?bs k (oa_path ?cap k) = Some (i, e)"
    using e(2,3) by (intro oa_scan_present; blast)+
  moreover have "oa_findSlot k ht = Inr \<lparr>oa_index = Some i, oa_found = True\<rparr>"
    using s(1) by (simp add: oa_findSlot_def oa_hash_ok [OF assms(2,3)] oa_path_def)
  ultimately show thesis using that e len by metis
qed

lemma oa_nil_slot:
  assumes "length (filter (\<lambda>s. s \<noteq> None) bs) < length bs"
  shows "\<exists>j < length bs. bs ! j = None"
proof (rule ccontr)
  assume "\<not> ?thesis"
  then have "\<forall>s \<in> set bs. s \<noteq> None" by (auto simp: in_set_conv_nth)
  then have "filter (\<lambda>s. s \<noteq> None) bs = bs" by (simp add: filter_id_conv)
  then show False using assms by simp
qed

lemma oa_findSlot_absent:
  assumes "oa_slots_ok (oa_capacity ht) (oa_buckets ht)" "0 < oa_capacity ht" "oa_capacity ht < 2 ^ 32"
    and "length (filter (\<lambda>s. s \<noteq> None) (oa_buckets ht)) < oa_capacity ht" "oa_abs ht k = None"
  obtains i where "i < oa_capacity ht" "\<not> oa_live (oa_buckets ht ! i)"
    "oa_reached (oa_buckets ht) (oa_path (oa_capacity ht) k) i"
    "oa_findSlot k ht = Inr \<lparr>oa_index = Some i, oa_found = False\<rparr>"
proof -
  let ?bs = "oa_buckets ht" and ?cap = "oa_capacity ht"
  have len: "length ?bs = ?cap" using assms(1) by (simp add: oa_slots_ok_def)
  have "\<not> oa_holds k (?bs ! j)" if "j \<in> set (oa_path ?cap k)" for j
    using that assms(5) len by (simp add: oa_abs_def oa_lookup_None oa_path_set)
  moreover have "\<exists>j \<in> set (oa_path ?cap k). ?bs ! j = None"
    using oa_nil_slot [of ?bs] assms(4) len by (auto simp: oa_path_set)
  ultimately obtain i where i: "i \<in> set (oa_path ?cap k)" "\<not> oa_live (?bs ! i)"
    "oa_scan ?bs k None (oa_path ?cap k) = \<lparr>oa_index = Some i, oa_found = False\<rparr>"
    "oa_reached ?bs (oa_path ?cap k) i"
    using oa_scan_absent [of "oa_path ?cap k" k ?bs] by blast
  moreover have "oa_findSlot k ht = Inr \<lparr>oa_index = Some i, oa_found = False\<rparr>"
    using i(3) by (simp add: oa_findSlot_def oa_hash_ok [OF assms(2,3)] oa_path_def)
  ultimately show thesis using that by (simp add: oa_path_set)
qed

text \<open>Writing a key into a free slot its path reaches.\<close>

definition oa_entry_of :: "string \<Rightarrow> 'v \<Rightarrow> 'v oa_entry" where
  "oa_entry_of k v = \<lparr>oa_key = k, oa_value = v, oa_deleted = False\<rparr>"

lemma oa_entry_of_simps [simp]:
  "oa_key (oa_entry_of k v) = k" "oa_value (oa_entry_of k v) = v" "\<not> oa_deleted (oa_entry_of k v)"
  by (simp_all add: oa_entry_of_def)

lemma oa_lookup_eqI:
  assumes "\<And>v. m k = Some v \<longleftrightarrow> m' k = Some v"
  shows "m k = m' k"
  using assms by (metis not_None_eq)

lemma oa_write:
  fixes v :: 'v
  assumes "oa_slots_ok cap bs" "i < cap" "oa_reached bs (oa_path cap k) i"
    and fit: "\<And>j. j < cap \<Longrightarrow> oa_holds k (bs ! j) \<Longrightarrow> j = i"
    and own: "\<And>k'. oa_holds k' (bs ! i) \<Longrightarrow> k' = k"
  defines "bs' \<equiv> bs[i := Some (oa_entry_of k v)]"
  shows "oa_slots_ok cap bs'" "oa_lookup bs' = (oa_lookup bs)(k \<mapsto> v)"
proof -
  have len: "length bs = cap" "length bs' = cap" using assms(1) by (simp_all add: oa_slots_ok_def bs'_def)
  have holds: "oa_holds k' (bs' ! j) \<longleftrightarrow> (if j = i then k' = k else oa_holds k' (bs ! j))" if "j < cap" for j k'
    using that len assms(2) by (auto simp: bs'_def nth_list_update oa_holds_def)
  have uniq: "oa_uniq bs'"
    unfolding oa_uniq_def
  proof (intro allI impI)
    fix j l k'
    assume a: "j < length bs'" "l < length bs'" "oa_holds k' (bs' ! j) \<and> oa_holds k' (bs' ! l)"
    then show "j = l"
      using holds [of j k'] holds [of l k'] len fit assms(1) unfolding oa_slots_ok_def oa_uniq_def
      by (metis (full_types))
  qed
  have "oa_reached bs' (oa_path cap k') j" if "j < cap" "oa_holds k' (bs' ! j)" for j k'
  proof -
    have "oa_reached bs (oa_path cap k') j"
      using that holds [of j k'] assms(1,3) by (auto simp: oa_slots_ok_def split: if_splits)
    then show ?thesis using assms(2) len by (simp add: bs'_def oa_reached_update)
  qed
  then show "oa_slots_ok cap bs'" using uniq len by (simp add: oa_slots_ok_def)
  show "oa_lookup bs' = (oa_lookup bs)(k \<mapsto> v)"
  proof
    fix k'
    show "oa_lookup bs' k' = ((oa_lookup bs)(k \<mapsto> v)) k'"
    proof (cases "k' = k")
      case True
      then show ?thesis
        using oa_lookup_at [OF uniq, of i "oa_entry_of k v" k] len assms(2) by (simp add: bs'_def)
    next
      case False
      show ?thesis
      proof (cases "oa_lookup bs k'")
        case None
        then have "\<forall>j < cap. \<not> oa_holds k' (bs' ! j)" using holds False len by (auto simp: oa_lookup_None)
        then have "oa_lookup bs' k' = None" using len by (simp add: oa_lookup_None)
        then show ?thesis using None False by simp
      next
        case (Some w)
        then obtain j e where e: "j < cap" "bs ! j = Some e" "oa_holds k' (Some e)" "oa_value e = w"
          using len by (metis oa_lookup_Some)
        then have "j \<noteq> i" using own [of k'] False by auto
        then have "bs' ! j = Some e" using e by (simp add: bs'_def)
        then show ?thesis using oa_lookup_at [OF uniq, of j e k'] e len Some False by simp
      qed
    qed
  qed
qed

text \<open>A key whose slot becomes a tombstone is gone, and no other key is affected.\<close>

lemma oa_bury:
  assumes "oa_slots_ok cap bs" "i < cap" "oa_holds k (bs ! i)" "oa_deleted d"
  defines "bs' \<equiv> bs[i := Some d]"
  shows "oa_slots_ok cap bs'" "oa_lookup bs' = (oa_lookup bs)(k := None)"
proof -
  have len: "length bs = cap" "length bs' = cap" using assms(1) by (simp_all add: oa_slots_ok_def bs'_def)
  have holds: "oa_holds k' (bs' ! j) \<longleftrightarrow> j \<noteq> i \<and> oa_holds k' (bs ! j)" if "j < cap" for j k'
    using that len assms(2,4) by (simp add: bs'_def nth_list_update oa_holds_def)
  have un: "oa_uniq bs" using assms(1) by (simp add: oa_slots_ok_def)
  have uniq: "oa_uniq bs'" using un holds len unfolding oa_uniq_def by (metis (full_types))
  have "oa_reached bs' (oa_path cap k') j" if "j < cap" "oa_holds k' (bs' ! j)" for j k'
    using that holds [of j k'] assms(1,2) len by (simp add: bs'_def oa_reached_update oa_slots_ok_def)
  then show "oa_slots_ok cap bs'" using uniq len by (simp add: oa_slots_ok_def)
  show "oa_lookup bs' = (oa_lookup bs)(k := None)"
  proof
    fix k'
    show "oa_lookup bs' k' = ((oa_lookup bs)(k := None)) k'"
    proof (cases "k' = k \<or> oa_lookup bs k' = None")
      case True
      then have "\<forall>j < cap. \<not> oa_holds k' (bs' ! j)"
        using holds un assms(2,3) len unfolding oa_uniq_def oa_lookup_None by metis
      then have "oa_lookup bs' k' = None" using len by (simp add: oa_lookup_None)
      then show ?thesis using True by auto
    next
      case False
      then obtain j e where e: "j < cap" "bs ! j = Some e" "oa_holds k' (Some e)" "oa_lookup bs k' = Some (oa_value e)"
        using len by (metis not_None_eq oa_lookup_Some)
      then have "j \<noteq> i" using False assms(3) by (auto simp: oa_holds_def)
      then have "bs' ! j = Some e" using e by (simp add: bs'_def)
      then show ?thesis using oa_lookup_at [OF uniq, of j e k'] e len False by simp
    qed
  qed
qed

subsection \<open>Resizing\<close>

definition oa_counted :: "'v oa_table \<Rightarrow> bool" where
  "oa_counted ht \<longleftrightarrow> oa_slots_ok (oa_capacity ht) (oa_buckets ht) \<and>
     0 < oa_capacity ht \<and> oa_capacity ht < 2 ^ 32 \<and>
     oa_size ht = length (filter oa_live (oa_buckets ht)) \<and>
     oa_used ht = length (filter (\<lambda>s. s \<noteq> None) (oa_buckets ht))"

text \<open>A table under construction has no tombstones.\<close>

definition oa_clean :: "'v oa_table \<Rightarrow> bool" where
  "oa_clean ht \<longleftrightarrow> oa_counted ht \<and> (\<forall>s \<in> set (oa_buckets ht). s \<noteq> None \<longrightarrow> oa_live s)"

lemma oa_clean_size: "oa_clean ht \<Longrightarrow> oa_used ht = oa_size ht"
proof -
  assume c: "oa_clean ht"
  then have "filter (\<lambda>s. s \<noteq> None) (oa_buckets ht) = filter oa_live (oa_buckets ht)"
    by (intro filter_cong) (auto simp: oa_clean_def oa_live_def split: option.splits)
  then show ?thesis using c by (simp add: oa_clean_def oa_counted_def)
qed

lemma oa_insertRehashed_ok:
  assumes "oa_clean ht" "oa_used ht < oa_capacity ht" "oa_abs ht k = None"
  shows "\<exists>ht'. oa_insertRehashedEntry k v ht = Inr ht' \<and> oa_clean ht' \<and>
     oa_abs ht' = (oa_abs ht)(k \<mapsto> v) \<and> oa_size ht' = Suc (oa_size ht) \<and>
     oa_capacity ht' = oa_capacity ht \<and> oa_minimumCapacity ht' = oa_minimumCapacity ht"
proof -
  let ?bs = "oa_buckets ht" and ?cap = "oa_capacity ht"
  have c: "oa_slots_ok ?cap ?bs" "0 < ?cap" "?cap < 2 ^ 32"
    "oa_size ht = length (filter oa_live ?bs)" "oa_used ht = length (filter (\<lambda>s. s \<noteq> None) ?bs)"
    using assms(1) by (simp_all add: oa_clean_def oa_counted_def)
  have len: "length ?bs = ?cap" using c(1) by (simp add: oa_slots_ok_def)
  have "length (filter (\<lambda>s. s \<noteq> None) ?bs) < ?cap" using assms(2) c(5) by simp
  with oa_findSlot_absent [OF c(1-3) _ assms(3)] obtain i where
    i: "i < ?cap" "\<not> oa_live (?bs ! i)" "oa_reached ?bs (oa_path ?cap k) i"
      "oa_findSlot k ht = Inr \<lparr>oa_index = Some i, oa_found = False\<rparr>" by blast
  have nil: "?bs ! i = None" using i(1,2) len assms(1) by (auto simp: oa_clean_def)
  have "oa_holds k (?bs ! j) \<Longrightarrow> j = i" if "j < ?cap" for j
    using that assms(3) len by (simp add: oa_abs_def oa_lookup_None)
  moreover have "oa_holds k' (?bs ! i) \<Longrightarrow> k' = k" for k' using nil by simp
  ultimately have w: "oa_slots_ok ?cap (?bs[i := Some (oa_entry_of k v)])"
    "oa_lookup (?bs[i := Some (oa_entry_of k v)]) = (oa_lookup ?bs)(k \<mapsto> v)"
    using oa_write [OF c(1) i(1,3)] by blast+
  define ht' where "ht' = ht\<lparr>oa_buckets := ?bs[i := Some (oa_entry_of k v)],
     oa_size := oa_size ht + 1, oa_used := oa_used ht + 1\<rparr>"
  have "oa_insertRehashedEntry k v ht = Inr ht'"
    using i(4) by (simp add: oa_insertRehashedEntry_def ht'_def oa_entry_of_def)
  moreover have "oa_counted ht'"
    using w(1) c length_filter_update [of i ?bs oa_live "Some (oa_entry_of k v)"]
      length_filter_update [of i ?bs "\<lambda>s. s \<noteq> None" "Some (oa_entry_of k v)"] i(1) len nil
    by (simp add: oa_counted_def ht'_def)
  moreover have "\<forall>s \<in> set (oa_buckets ht'). s \<noteq> None \<longrightarrow> oa_live s"
  proof
    fix s
    assume "s \<in> set (oa_buckets ht')"
    then have "s = Some (oa_entry_of k v) \<or> s \<in> set ?bs"
      using set_update_subset_insert [of ?bs i "Some (oa_entry_of k v)"] by (auto simp: ht'_def)
    then show "s \<noteq> None \<longrightarrow> oa_live s" using assms(1) by (auto simp: oa_clean_def)
  qed
  ultimately show ?thesis
    using w(2) by (intro exI [of _ ht']) (simp add: oa_clean_def oa_abs_def ht'_def)
qed

lemma oa_uniq_Cons:
  assumes "oa_uniq (s # xs)"
  shows "oa_uniq xs" "oa_holds k s \<Longrightarrow> oa_lookup xs k = None"
proof -
  have un: "i = j" if "i < length (s # xs)" "j < length (s # xs)"
    "oa_holds k ((s # xs) ! i)" "oa_holds k ((s # xs) ! j)" for i j k
    using assms that unfolding oa_uniq_def by blast
  show "oa_uniq xs"
    unfolding oa_uniq_def using un [of "Suc i" "Suc j" for i j] by auto
  show "oa_lookup xs k = None" if "oa_holds k s"
    unfolding oa_lookup_None using that un [of 0 "Suc j" k for j] by auto
qed

lemma oa_lookup_Cons:
  "oa_lookup (s # xs) k = (if oa_holds k s then map_option oa_value s else oa_lookup xs k)"
  by (cases s) (auto simp: oa_lookup_def)

lemma oa_rehash_ok:
  assumes "oa_clean ht" "oa_uniq xs" "\<And>k. oa_lookup xs k \<noteq> None \<Longrightarrow> oa_abs ht k = None"
    and "oa_size ht + length (filter oa_live xs) < oa_capacity ht"
  shows "\<exists>ht'. oa_rehash xs ht = Inr ht' \<and> oa_clean ht' \<and> oa_abs ht' = oa_abs ht ++ oa_lookup xs \<and>
     oa_size ht' = oa_size ht + length (filter oa_live xs) \<and>
     oa_capacity ht' = oa_capacity ht \<and> oa_minimumCapacity ht' = oa_minimumCapacity ht"
  using assms
proof (induction xs arbitrary: ht)
  case Nil
  then show ?case by (simp add: oa_lookup_def map_add_def)
next
  case (Cons s xs)
  show ?case
  proof (cases "oa_live s")
    case False
    then have "oa_rehash (s # xs) ht = oa_rehash xs ht" by (cases s) auto
    moreover have "\<not> oa_holds k s" for k using False by (cases s) auto
    then have "oa_lookup (s # xs) = oa_lookup xs" by (simp add: fun_eq_iff oa_lookup_Cons)
    ultimately show ?thesis
      using Cons.IH [of ht] Cons.prems oa_uniq_Cons(1) [OF Cons.prems(2)] False by simp
  next
    case True
    then obtain e where e: "s = Some e" "\<not> oa_deleted e" by (cases s) auto
    let ?k = "oa_key e" and ?v = "oa_value e"
    have "oa_lookup (s # xs) ?k \<noteq> None" using e by (simp add: oa_lookup_Cons)
    then have fresh: "oa_abs ht ?k = None" by (rule Cons.prems(3))
    have used: "oa_used ht < oa_capacity ht" using oa_clean_size [OF Cons.prems(1)] Cons.prems(4) by simp
    obtain ht1 where h: "oa_insertRehashedEntry ?k ?v ht = Inr ht1" "oa_clean ht1"
      "oa_abs ht1 = (oa_abs ht)(?k \<mapsto> ?v)" "oa_size ht1 = Suc (oa_size ht)"
      "oa_capacity ht1 = oa_capacity ht" "oa_minimumCapacity ht1 = oa_minimumCapacity ht"
      using oa_insertRehashed_ok [OF Cons.prems(1) used fresh, of ?v] by blast
    have tail: "oa_lookup xs ?k = None" using oa_uniq_Cons(2) [OF Cons.prems(2)] e by simp
    have "oa_abs ht1 k = None" if "oa_lookup xs k \<noteq> None" for k
    proof -
      have "k \<noteq> ?k" using that tail by blast
      then have "oa_lookup (s # xs) k \<noteq> None" using that e by (auto simp: oa_lookup_Cons)
      then show ?thesis using Cons.prems(3) h(3) \<open>k \<noteq> ?k\<close> by simp
    qed
    moreover have "oa_size ht1 + length (filter oa_live xs) < oa_capacity ht1"
      using Cons.prems(4) True h(4,5) by simp
    ultimately obtain ht2 where r: "oa_rehash xs ht1 = Inr ht2" "oa_clean ht2"
      "oa_abs ht2 = oa_abs ht1 ++ oa_lookup xs" "oa_size ht2 = oa_size ht1 + length (filter oa_live xs)"
      "oa_capacity ht2 = oa_capacity ht1" "oa_minimumCapacity ht2 = oa_minimumCapacity ht1"
      using Cons.IH [OF h(2) oa_uniq_Cons(1) [OF Cons.prems(2)]] by blast
    have "(oa_abs ht)(?k \<mapsto> ?v) ++ oa_lookup xs = oa_abs ht ++ oa_lookup (s # xs)"
      using tail e by (auto simp: fun_eq_iff map_add_def oa_lookup_Cons split: option.split)
    then have "oa_abs ht2 = oa_abs ht ++ oa_lookup (s # xs)" using r(3) h(3) by simp
    then show ?thesis using r h(1,4-6) e True by simp
  qed
qed

lemma oa_resize_ok:
  assumes "oa_uniq (oa_buckets ht)" "oa_size ht = length (filter oa_live (oa_buckets ht))"
    "oa_minimumCapacity ht = 16" "4 * oa_size ht \<le> 3 * max 16 n" "max 16 n < 2 ^ 32"
  shows "\<exists>ht'. oa_resize n ht = Inr ht' \<and> oa_inv ht' \<and> oa_abs ht' = oa_abs ht \<and>
     oa_size ht' = oa_size ht \<and> oa_used ht' = oa_size ht \<and> oa_capacity ht' = max 16 n"
proof -
  let ?n = "max 16 n"
  let ?ht0 = "ht\<lparr>oa_capacity := ?n, oa_buckets := replicate ?n None, oa_size := 0, oa_used := 0\<rparr>"
  have "oa_clean ?ht0"
    using assms(5) by (auto simp: oa_clean_def oa_counted_def oa_slots_ok_def oa_uniq_def)
  moreover have "oa_abs ?ht0 = Map.empty" by (simp add: oa_abs_def)
  moreover have "oa_size ht < ?n" using assms(4) by linarith
  ultimately obtain ht' where "oa_rehash (oa_buckets ht) ?ht0 = Inr ht'" "oa_clean ht'"
    "oa_abs ht' = oa_abs ht" "oa_size ht' = oa_size ht" "oa_capacity ht' = ?n" "oa_minimumCapacity ht' = 16"
    using oa_rehash_ok [of ?ht0 "oa_buckets ht"] assms(1-3) by (auto simp: oa_abs_def)
  moreover from this have "oa_inv ht'"
    using oa_clean_size [of ht'] assms(4,5) by (simp add: oa_inv_def oa_clean_def oa_counted_def)
  ultimately show ?thesis
    using oa_clean_size [of ht'] assms(3) by (simp add: oa_resize_def max_def Let_def split: if_splits)
qed

subsection \<open>The operations\<close>

lemma oa_inv_counted:
  assumes "oa_inv ht"
  shows "oa_slots_ok (oa_capacity ht) (oa_buckets ht)" "0 < oa_capacity ht" "oa_capacity ht < 2 ^ 32"
    "length (oa_buckets ht) = oa_capacity ht" "oa_uniq (oa_buckets ht)" "oa_minimumCapacity ht = 16"
    "oa_size ht = length (filter oa_live (oa_buckets ht))" "oa_size ht \<le> oa_used ht"
    "length (filter (\<lambda>s. s \<noteq> None) (oa_buckets ht)) < oa_capacity ht"
  using assms oa_live_le_used [of "oa_buckets ht"] by (auto simp: oa_inv_def oa_slots_ok_def)

lemma oa_Get_ok:
  assumes "oa_inv ht"
  shows "oa_Get zero k ht = Inr (case oa_abs ht k of Some v \<Rightarrow> (v, True) | None \<Rightarrow> (zero, False))"
proof -
  note c = oa_inv_counted [OF assms]
  have g: "oa_Get zero k ht = Inr (case oa_locate (oa_buckets ht) k (oa_path (oa_capacity ht) k) of
      Some (_, entry) \<Rightarrow> (oa_value entry, True) | None \<Rightarrow> (zero, False))"
    by (simp add: oa_Get_def oa_hash_ok [OF c(2,3)] oa_path_def)
  show ?thesis
  proof (cases "oa_abs ht k")
    case None
    have "oa_locate (oa_buckets ht) k (oa_path (oa_capacity ht) k) = None"
      using None c(4) by (intro oa_locate_absent) (simp add: oa_abs_def oa_lookup_None oa_path_set)
    then show ?thesis using g None by simp
  next
    case (Some v)
    from oa_findSlot_present [OF c(1-3) Some] show ?thesis using g Some by (metis case_prod_conv option.simps(5))
  qed
qed

text \<open>The bound on the capacity: \<open>max\<close> of the entries and a quarter of the slots, rounded up.\<close>

definition oa_load :: "'v oa_table \<Rightarrow> nat" where
  "oa_load ht = max (oa_size ht) ((oa_capacity ht + 3) div 4)"

lemma oa_load_capacity: "oa_capacity ht \<le> 4 * oa_load ht" "oa_size ht \<le> oa_load ht"
proof -
  have "oa_capacity ht \<le> 4 * ((oa_capacity ht + 3) div 4)" by linarith
  then show "oa_capacity ht \<le> 4 * oa_load ht" unfolding oa_load_def by linarith
qed (simp add: oa_load_def)

text \<open>Making room leaves a table with a free slot for the key, at most three quarters full.\<close>

lemma oa_makeRoom_ok:
  assumes "oa_inv ht" "oa_abs ht k = None" "oa_findSlot k ht = Inr slot" "oa_load ht + 1 \<le> 2 ^ 29"
  shows "\<exists>ht1 i. oa_makeRoom k slot ht = Inr (ht1, \<lparr>oa_index = Some i, oa_found = False\<rparr>) \<and>
     oa_inv ht1 \<and> oa_abs ht1 = oa_abs ht \<and> oa_size ht1 = oa_size ht \<and>
     4 * (oa_used ht1 + 1) \<le> 3 * oa_capacity ht1 \<and> oa_load ht1 \<le> oa_load ht + 1 \<and>
     i < oa_capacity ht1 \<and> \<not> oa_live (oa_buckets ht1 ! i) \<and>
     oa_reached (oa_buckets ht1) (oa_path (oa_capacity ht1) k) i"
proof -
  note c = oa_inv_counted [OF assms(1)]
  have inv: "16 \<le> oa_capacity ht" "4 * oa_used ht \<le> 3 * oa_capacity ht" using assms(1) by (simp_all add: oa_inv_def)
  have slot: "\<exists>i. oa_findSlot k t = Inr \<lparr>oa_index = Some i, oa_found = False\<rparr> \<and> i < oa_capacity t \<and>
      \<not> oa_live (oa_buckets t ! i) \<and> oa_reached (oa_buckets t) (oa_path (oa_capacity t) k) i"
    if "oa_inv t" "oa_abs t = oa_abs ht" for t
    using oa_findSlot_absent [OF oa_inv_counted(1-3,9) [OF that(1)]] that(2) assms(2) by metis
  have cap: "oa_capacity ht \<le> 2 ^ 31" using oa_load_capacity(1) [of ht] assms(4) by simp
  show ?thesis
  proof (cases "oa_shouldGrowBeforeInsert ht")
    case True
    have "oa_capacity ht * 2 < 2 ^ 32"
      using oa_load_capacity(1) [of ht] assms(4) by simp
    then obtain t where t: "oa_resize (oa_capacity ht * 2) ht = Inr t" "oa_inv t" "oa_abs t = oa_abs ht"
      "oa_size t = oa_size ht" "oa_used t = oa_size ht" "oa_capacity t = oa_capacity ht * 2"
      using oa_resize_ok [OF c(5,7,6), of "oa_capacity ht * 2"] inv c(8) by (auto simp: max_def)
    obtain i where i: "oa_findSlot k t = Inr \<lparr>oa_index = Some i, oa_found = False\<rparr>" "i < oa_capacity t"
      "\<not> oa_live (oa_buckets t ! i)" "oa_reached (oa_buckets t) (oa_path (oa_capacity t) k) i"
      using slot [OF t(2,3)] by blast
    have "oa_makeRoom k slot ht = Inr (t, \<lparr>oa_index = Some i, oa_found = False\<rparr>)"
      using True t(1) i(1) by (simp add: oa_makeRoom_def Let_def)
    moreover have "oa_load t \<le> oa_load ht + 1"
    proof -
      have "3 * oa_capacity ht < 4 * (oa_size ht + 1)" using True by (simp add: oa_shouldGrowBeforeInsert_def)
      then have "oa_capacity ht * 2 + 3 < (oa_size ht + 2) * 4" by simp
      then have "(oa_capacity ht * 2 + 3) div 4 \<le> oa_size ht + 1"
        using less_mult_imp_div_less [of "oa_capacity ht * 2 + 3" "oa_size ht + 2" 4] by simp
      then show ?thesis using t(4,6) unfolding oa_load_def by linarith
    qed
    moreover have "4 * (oa_used t + 1) \<le> 3 * oa_capacity t"
      using t(5,6) inv c(8) by simp
    ultimately show ?thesis using t i by blast
  next
    case noGrow: False
    show ?thesis
    proof (cases "oa_shouldCleanDeletedSlotsBeforeInsert ht")
      case True
      obtain t where t: "oa_resize (oa_capacity ht) ht = Inr t" "oa_inv t" "oa_abs t = oa_abs ht"
        "oa_size t = oa_size ht" "oa_used t = oa_size ht" "oa_capacity t = oa_capacity ht"
        using oa_resize_ok [OF c(5,7,6), of "oa_capacity ht"] inv c(3,8) by (auto simp: max_def)
      obtain i where i: "oa_findSlot k t = Inr \<lparr>oa_index = Some i, oa_found = False\<rparr>" "i < oa_capacity t"
        "\<not> oa_live (oa_buckets t ! i)" "oa_reached (oa_buckets t) (oa_path (oa_capacity t) k) i"
        using slot [OF t(2,3)] by blast
      have "oa_makeRoom k slot ht = Inr (t, \<lparr>oa_index = Some i, oa_found = False\<rparr>)"
        using True noGrow t(1) i(1) by (simp add: oa_makeRoom_def Let_def)
      moreover have "oa_load t = oa_load ht" using t(4,6) by (simp add: oa_load_def)
      then have "oa_load t \<le> oa_load ht + 1" by simp
      moreover have "4 * (oa_used t + 1) \<le> 3 * oa_capacity t"
        using noGrow t(5,6) by (simp add: oa_shouldGrowBeforeInsert_def)
      ultimately show ?thesis using t i by blast
    next
      case False
      obtain i where i: "oa_findSlot k ht = Inr \<lparr>oa_index = Some i, oa_found = False\<rparr>" "i < oa_capacity ht"
        "\<not> oa_live (oa_buckets ht ! i)" "oa_reached (oa_buckets ht) (oa_path (oa_capacity ht) k) i"
        using slot [OF assms(1) refl] by blast
      have "oa_makeRoom k slot ht = Inr (ht, \<lparr>oa_index = Some i, oa_found = False\<rparr>)"
        using False noGrow i(1) assms(3) by (simp add: oa_makeRoom_def Let_def)
      moreover have "4 * (oa_used ht + 1) \<le> 3 * oa_capacity ht"
        using False by (simp add: oa_shouldCleanDeletedSlotsBeforeInsert_def)
      ultimately show ?thesis using assms(1) i(2-4) by auto
    qed
  qed
qed

lemma oa_Set_ok:
  assumes "oa_inv ht" "oa_load ht + 1 \<le> 2 ^ 29"
  shows "\<exists>ht'. oa_Set k v ht = Inr ht' \<and> oa_inv ht' \<and> oa_abs ht' = (oa_abs ht)(k \<mapsto> v) \<and>
     oa_load ht' \<le> oa_load ht + 1"
proof (cases "oa_abs ht k")
  case (Some w)
  note c = oa_inv_counted [OF assms(1)]
  let ?bs = "oa_buckets ht"
  obtain i e where e: "i < oa_capacity ht" "?bs ! i = Some e" "oa_holds k (Some e)"
    "oa_findSlot k ht = Inr \<lparr>oa_index = Some i, oa_found = True\<rparr>"
    using oa_findSlot_present [OF c(1-3) Some] by metis
  have upd: "map_option (\<lambda>e. e\<lparr>oa_value := v\<rparr>) (?bs ! i) = Some (oa_entry_of k v)"
    using e(2,3) by (cases e) (simp add: oa_entry_of_def)
  let ?ht = "ht\<lparr>oa_buckets := ?bs[i := Some (oa_entry_of k v)]\<rparr>"
  have set: "oa_Set k v ht = Inr ?ht" using e(4) upd by (simp add: oa_Set_def del: map_option_eq_Some)
  have "j = i" if "j < oa_capacity ht" "oa_holds k (?bs ! j)" for j
    using that e c(4,5) unfolding oa_uniq_def by metis
  moreover have "k' = k" if "oa_holds k' (?bs ! i)" for k' using that e(2,3) by simp
  moreover have "oa_reached ?bs (oa_path (oa_capacity ht) k) i"
    using c(1) e(1-3) by (simp add: oa_slots_ok_def)
  ultimately have w: "oa_slots_ok (oa_capacity ht) (?bs[i := Some (oa_entry_of k v)])"
    "oa_lookup (?bs[i := Some (oa_entry_of k v)]) = (oa_lookup ?bs)(k \<mapsto> v)"
    using oa_write [OF c(1) e(1)] by blast+
  have "length (filter oa_live (?bs[i := Some (oa_entry_of k v)])) = length (filter oa_live ?bs)"
    "length (filter (\<lambda>s. s \<noteq> None) (?bs[i := Some (oa_entry_of k v)])) = length (filter (\<lambda>s. s \<noteq> None) ?bs)"
    using length_filter_update [of i ?bs oa_live "Some (oa_entry_of k v)"]
      length_filter_update [of i ?bs "\<lambda>s. s \<noteq> None" "Some (oa_entry_of k v)"] e c(4) by simp_all
  then have "oa_inv ?ht" using assms(1) w(1) by (simp add: oa_inv_def)
  moreover have "oa_load ?ht = oa_load ht" by (simp add: oa_load_def)
  ultimately show ?thesis using set w(2) by (simp add: oa_abs_def)
next
  case None
  note c = oa_inv_counted [OF assms(1)]
  obtain i0 where f: "oa_findSlot k ht = Inr \<lparr>oa_index = Some i0, oa_found = False\<rparr>"
    using oa_findSlot_absent [OF c(1-3,9) None] by metis
  obtain t i where t: "oa_makeRoom k \<lparr>oa_index = Some i0, oa_found = False\<rparr> ht =
      Inr (t, \<lparr>oa_index = Some i, oa_found = False\<rparr>)" "oa_inv t" "oa_abs t = oa_abs ht" "oa_size t = oa_size ht"
    "4 * (oa_used t + 1) \<le> 3 * oa_capacity t" "oa_load t \<le> oa_load ht + 1" "i < oa_capacity t"
    "\<not> oa_live (oa_buckets t ! i)" "oa_reached (oa_buckets t) (oa_path (oa_capacity t) k) i"
    using oa_makeRoom_ok [OF assms(1) None f assms(2)] by blast
  note d = oa_inv_counted [OF t(2)]
  let ?bs = "oa_buckets t"
  define u where "u = (if ?bs ! i = None then oa_used t + 1 else oa_used t)"
  define t' where "t' = t\<lparr>oa_used := u, oa_buckets := ?bs[i := Some (oa_entry_of k v)], oa_size := oa_size t + 1\<rparr>"
  have "\<not> oa_holds k (?bs ! j)" if "j < oa_capacity t" for j
    using that None d(4) t(3) by (metis oa_abs_def oa_lookup_None)
  moreover have "\<not> oa_holds k' (?bs ! i)" for k'
    using t(8) by (cases "?bs ! i") (auto simp: oa_holds_def)
  ultimately have w: "oa_slots_ok (oa_capacity t) (?bs[i := Some (oa_entry_of k v)])"
    "oa_lookup (?bs[i := Some (oa_entry_of k v)]) = (oa_lookup ?bs)(k \<mapsto> v)"
    using oa_write [OF d(1) t(7,9)] by blast+
  have "length (filter oa_live (?bs[i := Some (oa_entry_of k v)])) = oa_size t + 1"
    "length (filter (\<lambda>s. s \<noteq> None) (?bs[i := Some (oa_entry_of k v)])) = u"
    using length_filter_update [of i ?bs oa_live "Some (oa_entry_of k v)"]
      length_filter_update [of i ?bs "\<lambda>s. s \<noteq> None" "Some (oa_entry_of k v)"] t(2,7,8) d(4,7)
    by (auto simp: u_def oa_inv_def split: if_splits)
  moreover have "4 * u \<le> 3 * oa_capacity t" using t(5) by (simp add: u_def)
  ultimately have inv: "oa_inv t'" using t(2) w(1) by (simp add: oa_inv_def t'_def)
  have "4 * oa_size t' \<le> 3 * oa_capacity t'"
    using inv oa_inv_counted(8) [OF inv] by (simp add: oa_inv_def)
  then have "\<not> oa_shouldGrow t'" by (simp add: oa_shouldGrow_def)
  then have "oa_Set k v ht = Inr t'"
    using f t(1) by (auto simp: oa_Set_def t'_def u_def Let_def oa_entry_of_def)
  moreover have "oa_load t' \<le> oa_load ht + 1"
    using t(4,6) oa_load_capacity(2) [of ht] by (simp add: oa_load_def t'_def)
  ultimately show ?thesis using inv w(2) t(3) by (simp add: oa_abs_def t'_def)
qed

lemma oa_Delete_ok:
  assumes "oa_inv ht"
  shows "\<exists>ht'. oa_Delete zero k ht = Inr (oa_abs ht k \<noteq> None, ht') \<and> oa_inv ht' \<and>
     oa_abs ht' = (oa_abs ht)(k := None) \<and> oa_load ht' \<le> oa_load ht"
proof -
  note c = oa_inv_counted [OF assms]
  let ?bs = "oa_buckets ht"
  have inv: "16 \<le> oa_capacity ht" using assms by (simp add: oa_inv_def)
  show ?thesis
  proof (cases "oa_abs ht k")
    case None
    have "oa_locate ?bs k (oa_path (oa_capacity ht) k) = None"
      using None c(4) by (intro oa_locate_absent) (simp add: oa_abs_def oa_lookup_None oa_path_set)
    then have "oa_Delete zero k ht = Inr (False, ht)"
      by (simp add: oa_Delete_def oa_hash_ok [OF c(2,3)] oa_path_def)
    then show ?thesis using None assms by (auto simp: fun_eq_iff)
  next
    case (Some v)
    obtain i e where e: "i < oa_capacity ht" "?bs ! i = Some e" "oa_holds k (Some e)"
      "oa_locate ?bs k (oa_path (oa_capacity ht) k) = Some (i, e)"
      using oa_findSlot_present [OF c(1-3) Some] by metis
    define d where "d = \<lparr>oa_key = '''', oa_value = zero, oa_deleted = True\<rparr>"
    have dead: "oa_deleted d" "\<not> oa_live (Some d)" by (simp_all add: d_def)
    have held: "oa_holds k (?bs ! i)" using e(2,3) by simp
    note b = oa_bury [OF c(1) e(1) held dead(1)]
    define t where "t = ht\<lparr>oa_buckets := ?bs[i := Some d], oa_size := oa_size ht - 1\<rparr>"
    have cnt: "length (filter oa_live (?bs[i := Some d])) + 1 = oa_size ht"
      "length (filter (\<lambda>s. s \<noteq> None) (?bs[i := Some d])) = oa_used ht"
      using length_filter_update [of i ?bs oa_live "Some d"]
        length_filter_update [of i ?bs "\<lambda>s. s \<noteq> None" "Some d"] e c(4,7) dead(2) assms
      by (simp_all add: oa_inv_def)
    then have t_inv: "oa_inv t" using assms b(1) by (simp add: oa_inv_def t_def)
    have t_abs: "oa_abs t = (oa_abs ht)(k := None)" using b(2) by (simp add: oa_abs_def t_def)
    have del: "oa_Delete zero k ht = and_then
        (if oa_shouldShrink t then oa_resize (oa_capacity t div 2) t else Inr t) (\<lambda>ht2. Inr (True, ht2))"
      using e(4) by (simp add: oa_Delete_def oa_hash_ok [OF c(2,3)] oa_path_def t_def d_def Let_def)
    show ?thesis
    proof (cases "oa_shouldShrink t")
      case False
      then show ?thesis using del t_inv t_abs Some by (simp add: oa_load_def t_def)
    next
      case True
      note ct = oa_inv_counted [OF t_inv]
      have cap: "oa_capacity t = oa_capacity ht" "oa_size t \<le> oa_size ht" by (simp_all add: t_def)
      have "4 * oa_size t < oa_capacity t" using True by (simp add: oa_shouldShrink_def)
      then have "4 * oa_size t \<le> 3 * (oa_capacity t div 2)" using inv cap(1) by linarith
      then have "4 * oa_size t \<le> 3 * max 16 (oa_capacity t div 2)" by linarith
      moreover have "max 16 (oa_capacity t div 2) < 2 ^ 32" using ct(3) by simp
      ultimately obtain t' where t': "oa_resize (oa_capacity t div 2) t = Inr t'" "oa_inv t'"
        "oa_abs t' = oa_abs t" "oa_size t' = oa_size t" "oa_capacity t' = max 16 (oa_capacity t div 2)"
        using oa_resize_ok [OF ct(5,7,6)] by blast
      have "oa_capacity t' \<le> oa_capacity ht" using t'(5) cap(1) inv by simp
      then have "oa_load t' \<le> oa_load ht"
        using t'(4) cap(2) unfolding oa_load_def by (intro max.mono div_le_mono) simp_all
      then show ?thesis using del True t' t_abs Some by simp
    qed
  qed
qed

lemma oa_New_ok:
  assumes "capacity < 2 ^ 32"
  shows "oa_inv (NewOpenAddressingHashTable capacity)"
    "oa_abs (NewOpenAddressingHashTable capacity) = Map.empty"
  using assms by (auto simp: NewOpenAddressingHashTable_def oa_inv_def oa_abs_def oa_slots_ok_def
      oa_uniq_def Let_def)

text \<open>The size is the number of keys.\<close>

lemma oa_lookup_dom_card:
  assumes "oa_uniq bs"
  shows "card (dom (oa_lookup bs)) = length (filter oa_live bs)"
proof -
  let ?I = "{i. i < length bs \<and> oa_live (bs ! i)}" and ?key = "\<lambda>i. oa_key (the (bs ! i))"
  have live: "oa_live (bs ! i) \<longleftrightarrow> oa_holds (?key i) (bs ! i)" for i
    by (cases "bs ! i") auto
  have "inj_on ?key ?I"
    using assms live unfolding oa_uniq_def inj_on_def by (metis (mono_tags, lifting) mem_Collect_eq)
  moreover have "dom (oa_lookup bs) = ?key ` ?I"
  proof (intro set_eqI iffI)
    fix k
    assume "k \<in> dom (oa_lookup bs)"
    then obtain i where i: "i < length bs" "oa_holds k (bs ! i)"
      unfolding domIff oa_lookup_None by blast
    then have "oa_live (bs ! i)" "k = ?key i" by (cases "bs ! i"; simp)+
    then show "k \<in> ?key ` ?I" using i(1) by blast
  next
    fix k
    assume "k \<in> ?key ` ?I"
    then show "k \<in> dom (oa_lookup bs)" unfolding domIff oa_lookup_None using live by blast
  qed
  ultimately have "card (dom (oa_lookup bs)) = card ?I" by (simp add: card_image)
  then show ?thesis by (simp add: length_filter_conv_card)
qed

lemma oa_sizes:
  assumes "oa_inv ht"
  shows "oa_Size ht = card (dom (oa_abs ht))" "16 \<le> oa_Capacity ht" "4 * oa_Size ht \<le> 3 * oa_Capacity ht"
  using assms oa_lookup_dom_card [of "oa_buckets ht"] oa_live_le_used [of "oa_buckets ht"]
  by (simp_all add: oa_inv_def oa_abs_def oa_Size_def oa_Capacity_def oa_slots_ok_def)

subsection \<open>The table is a map\<close>

definition oa_read :: "'v \<Rightarrow> string \<Rightarrow> 'v oa_table \<Rightarrow> 'v option outcome" where
  "oa_read zero k ht = and_then (oa_Get zero k ht) (\<lambda>(v, ok). Inr (if ok then Some v else None))"

interpretation open_addressing: kv_store_del oa_inv oa_abs oa_Set "oa_read zero" oa_load 1 "2 ^ 29"
  "\<lambda>k t. and_then (oa_Delete zero k t) (\<lambda>(_, t'). Inr t')" for zero
proof unfold_locales
  fix t :: "'a oa_table" and k
  assume "oa_inv t"
  then show "oa_read zero k t = Inr (oa_abs t k)"
    by (auto simp: oa_read_def oa_Get_ok split: option.split)
next
  fix t :: "'a oa_table" and k v
  assume "oa_inv t" "oa_load t + 1 \<le> 2 ^ 29"
  then show "\<exists>t'. oa_Set k v t = Inr t' \<and> oa_inv t' \<and> oa_abs t' = (oa_abs t)(k \<mapsto> v) \<and> oa_load t' \<le> oa_load t + 1"
    by (rule oa_Set_ok)
next
  fix t :: "'a oa_table" and k
  assume "oa_inv t"
  from oa_Delete_ok [OF this, of zero k]
  show "\<exists>t'. and_then (oa_Delete zero k t) (\<lambda>(_, t'). Inr t') = Inr t' \<and> oa_inv t' \<and>
      oa_abs t' = (oa_abs t)(k := None) \<and> oa_load t' \<le> oa_load t + 1" by auto
qed



end
