(* ===== verification/Bloom_Filter.thy ===== *)
theory Bloom_Filter
  imports Complex_Main Go_Prelude Fnv_Hash
begin

text \<open>
  \<open>04-Bloom-Filter/main.go\<close>. The bits are bytes, the sizes and hashes \<open>uint32\<close> with their
  wrap-around (the rounding \<open>(bitSize+7)/8\<close> included); a shift and a mask address a bit. The two
  sizes are computed by the constructor in float64; here the same formulas are over the reals, the
  one idealisation. \<open>EstimatedFalsePositiveRate\<close> is over the reals too; for a filter of 0 bits the
  code divides by zero and gets an infinity or a NaN where the real quotient is 0, so its lemmas are
  about filters with bits.
\<close>

record bloom =
  bf_bits :: "8 word list"
  bf_bitSize :: u32
  bf_hashCount :: u32

definition bf_optimalBits :: "int \<Rightarrow> real \<Rightarrow> int" where
  "bf_optimalBits expectedItems falsePositiveRate =
     \<lceil>(- real_of_int expectedItems * ln falsePositiveRate) / (ln 2 * ln 2)\<rceil>"

definition NewBloomFilter :: "int \<Rightarrow> real \<Rightarrow> bloom outcome" where
  "NewBloomFilter expectedItems falsePositiveRate =
     (if expectedItems \<le> 0 then Inl ExitOne
      else if falsePositiveRate \<le> 0 \<or> 1 \<le> falsePositiveRate then Inl ExitOne
      else
        let bitSize = word_of_int (bf_optimalBits expectedItems falsePositiveRate) :: u32;
            hashCount = word_of_int
              (max 1 (round (real (unat bitSize) / real_of_int expectedItems * ln 2))) :: u32
        in Inr \<lparr>bf_bits = replicate (unat ((bitSize + 7) div 8)) 0,
                bf_bitSize = bitSize, bf_hashCount = hashCount\<rparr>)"

definition fnv1aWithSeed :: "string \<Rightarrow> u32 \<Rightarrow> u32" where
  "fnv1aWithSeed s seed = fnv1a_from seed s"

definition bf_indexes :: "bloom \<Rightarrow> string \<Rightarrow> u32 list outcome" where
  "bf_indexes bf s =
     (let h1 = fnv1aWithSeed s 2166136261;
          h = fnv1aWithSeed s 16777619;
          h2 = (if h = 0 then 1 else h)
      in if bf_bitSize bf = 0 \<and> bf_hashCount bf \<noteq> 0 then Inl DivideByZero
         else Inr (map (\<lambda>i. (h1 + of_nat i * h2) mod bf_bitSize bf) [0..<unat (bf_hashCount bf)]))"

definition bf_setBit :: "u32 \<Rightarrow> 8 word list \<Rightarrow> 8 word list outcome" where
  "bf_setBit index bits = (let i = unat (drop_bit 3 index) in
     if i < length bits then Inr (bits[i := bits ! i OR push_bit (unat (index AND 7)) 1])
     else Inl IndexOutOfRange)"

definition bf_Add :: "string \<Rightarrow> bloom \<Rightarrow> bloom outcome" where
  "bf_Add s bf = and_then (bf_indexes bf s) (\<lambda>indexes.
     and_then (each bf_setBit indexes (bf_bits bf)) (\<lambda>bits. Inr (bf\<lparr>bf_bits := bits\<rparr>)))"

fun bf_allSet :: "8 word list \<Rightarrow> u32 list \<Rightarrow> bool outcome" where
  "bf_allSet bits [] = Inr True"
| "bf_allSet bits (index # rest) = (let i = unat (drop_bit 3 index) in
     if length bits \<le> i then Inl IndexOutOfRange
     else if bits ! i AND push_bit (unat (index AND 7)) 1 = 0 then Inr False
     else bf_allSet bits rest)"

definition bf_Has :: "string \<Rightarrow> bloom \<Rightarrow> bool outcome" where
  "bf_Has s bf = and_then (bf_indexes bf s) (bf_allSet (bf_bits bf))"

definition bf_EstimatedFalsePositiveRate :: "int \<Rightarrow> bloom \<Rightarrow> real" where
  "bf_EstimatedFalsePositiveRate insertedItems bf =
     (1 - exp ((- real (unat (bf_hashCount bf)) * real_of_int insertedItems) / real (unat (bf_bitSize bf))))
       ^ unat (bf_hashCount bf)"

lemma bf_rate_base:
  assumes "0 \<le> n" "n \<le> m"
  shows "0 \<le> 1 - exp ((- real k * real_of_int n) / real b)"
    "1 - exp ((- real k * real_of_int n) / real b) \<le> 1 - exp ((- real k * real_of_int m) / real b)"
proof -
  have "0 \<le> real k * real_of_int n / real b" using assms by simp
  then show "0 \<le> 1 - exp ((- real k * real_of_int n) / real b)" by simp
  have "real k * real_of_int n / real b \<le> real k * real_of_int m / real b"
    using assms by (intro divide_right_mono mult_left_mono) simp_all
  then show "1 - exp ((- real k * real_of_int n) / real b) \<le> 1 - exp ((- real k * real_of_int m) / real b)"
    by simp
qed

text \<open>The estimate is a probability and grows with the number of items.\<close>

lemma bf_rate_range:
  assumes "0 \<le> n"
  shows "0 \<le> bf_EstimatedFalsePositiveRate n bf" "bf_EstimatedFalsePositiveRate n bf \<le> 1"
  unfolding bf_EstimatedFalsePositiveRate_def
  by (intro zero_le_power power_le_one bf_rate_base(1) [OF assms order_refl],
      intro power_le_one bf_rate_base(1) [OF assms order_refl], simp)

lemma bf_rate_mono:
  assumes "0 \<le> n" "n \<le> m"
  shows "bf_EstimatedFalsePositiveRate n bf \<le> bf_EstimatedFalsePositiveRate m bf"
  unfolding bf_EstimatedFalsePositiveRate_def
  by (intro power_mono bf_rate_base(2) [OF assms] bf_rate_base(1) [OF assms])

subsection \<open>Bit addressing\<close>

definition bf_bit :: "8 word list \<Rightarrow> u32 \<Rightarrow> bool" where
  "bf_bit bits index \<longleftrightarrow> bit (bits ! (unat index div 8)) (unat index mod 8)"

lemma bf_address: "unat (drop_bit 3 (index :: u32)) = unat index div 8" "unat (index AND 7) = unat index mod 8"
proof -
  show "unat (drop_bit 3 index) = unat index div 8"
    by (simp add: unat_drop_bit_eq drop_bit_eq_div del: drop_bit_eq_div) (simp add: drop_bit_eq_div)
  have "(7 :: u32) = mask 3" by (simp add: mask_eq_exp_minus_1)
  then have "unat (index AND 7) = unat (take_bit 3 index)" by (simp add: take_bit_eq_mask)
  then show "unat (index AND 7) = unat index mod 8" by (simp only: unsigned_take_bit_eq) (simp add: take_bit_eq_mod)
qed

lemma and_push_bit_1: "(w :: 'a::len word) AND push_bit n 1 = 0 \<longleftrightarrow> \<not> (n < LENGTH('a) \<and> bit w n)"
proof -
  have "w AND push_bit n 1 = 0 \<longleftrightarrow> (\<forall>m < LENGTH('a). \<not> (bit w m \<and> m = n))"
    by (auto simp: bit_eq_iff bit_simps)
  then show ?thesis by blast
qed

lemma bf_setBit_ok:
  assumes "unat index div 8 < length bits"
  shows "\<exists>bits'. bf_setBit index bits = Inr bits' \<and> length bits' = length bits \<and>
     (\<forall>j. bf_bit bits' j \<longleftrightarrow> j = index \<or> bf_bit bits j)"
proof -
  let ?i = "unat index div 8"
  let ?bits = "bits[?i := bits ! ?i OR push_bit (unat index mod 8) 1]"
  have "bf_bit ?bits j \<longleftrightarrow> j = index \<or> bf_bit bits j" for j
  proof (cases "unat j div 8 = ?i")
    case True
    then have "j = index \<longleftrightarrow> unat j mod 8 = unat index mod 8"
      by (metis mult_div_mod_eq word_unat_eq_iff)
    then show ?thesis using True assms
      by (auto simp: bf_bit_def bit_simps)
  next
    case False
    then show ?thesis by (auto simp: bf_bit_def)
  qed
  then show ?thesis using assms by (simp add: bf_setBit_def bf_address Let_def)
qed

lemma bf_setBits_ok:
  assumes "\<forall>index \<in> set is. unat index div 8 < length bits"
  shows "\<exists>bits'. each bf_setBit is bits = Inr bits' \<and> length bits' = length bits \<and>
     (\<forall>j. bf_bit bits' j \<longleftrightarrow> j \<in> set is \<or> bf_bit bits j)"
  using assms
proof (induction "is" arbitrary: bits)
  case (Cons i "is")
  obtain bits1 where b: "bf_setBit i bits = Inr bits1" "length bits1 = length bits"
    "\<forall>j. bf_bit bits1 j \<longleftrightarrow> j = i \<or> bf_bit bits j"
    using bf_setBit_ok [of i bits] Cons.prems by auto
  with Cons.IH [of bits1] Cons.prems show ?case by auto
qed simp

lemma bf_allSet_ok:
  assumes "\<forall>index \<in> set is. unat index div 8 < length bits"
  shows "bf_allSet bits is = Inr (\<forall>index \<in> set is. bf_bit bits index)"
  using assms
proof (induction "is")
  case (Cons i "is")
  then have "unat i div 8 < length bits" "bf_allSet bits is = Inr (\<forall>index \<in> set is. bf_bit bits index)" by simp_all
  moreover have "bits ! (unat i div 8) AND push_bit (unat i mod 8) 1 = 0 \<longleftrightarrow> \<not> bf_bit bits i"
    unfolding and_push_bit_1 by (simp add: bf_bit_def)
  ultimately show ?case by (simp add: bf_address Let_def del: push_bit_of_1)
qed simp

subsection \<open>What the filter answers\<close>

definition bf_inv :: "bloom \<Rightarrow> bool" where
  "bf_inv bf \<longleftrightarrow> 0 < bf_bitSize bf \<and> unat (bf_bitSize bf) + 7 < 2 ^ 32 \<and>
     length (bf_bits bf) = (unat (bf_bitSize bf) + 7) div 8"

text \<open>The bit positions of a value, which depend on the two sizes only.\<close>

definition bf_positions :: "u32 \<Rightarrow> u32 \<Rightarrow> string \<Rightarrow> u32 set" where
  "bf_positions m k s = (let h2 = fnv1aWithSeed s 16777619 in
     (\<lambda>i. (fnv1aWithSeed s 2166136261 + of_nat i * (if h2 = 0 then 1 else h2)) mod m) ` {..<unat k})"

lemma bf_indexes_ok:
  assumes "bf_inv bf"
  obtains "is" where "bf_indexes bf s = Inr is" "set is = bf_positions (bf_bitSize bf) (bf_hashCount bf) s"
    "\<forall>index \<in> set is. unat index div 8 < length (bf_bits bf)"
proof -
  have "bf_bitSize bf \<noteq> 0" using assms by (auto simp: bf_inv_def)
  then obtain "is" where i: "bf_indexes bf s = Inr is" "set is = bf_positions (bf_bitSize bf) (bf_hashCount bf) s"
    by (simp add: bf_indexes_def bf_positions_def Let_def lessThan_atLeast0)
  have "unat index div 8 < length (bf_bits bf)" if "index \<in> set is" for index
  proof -
    have "index < bf_bitSize bf" using that assms unfolding i(2)
      by (auto simp: bf_positions_def Let_def bf_inv_def word_mod_less_divisor)
    then have "unat index < unat (bf_bitSize bf)" by (simp add: word_less_nat_alt)
    then have "unat index div 8 \<le> (unat (bf_bitSize bf) - 1) div 8" by (intro div_le_mono) simp
    moreover have "(unat (bf_bitSize bf) - 1) div 8 < (unat (bf_bitSize bf) + 7) div 8"
      using \<open>unat index < unat (bf_bitSize bf)\<close> by linarith
    ultimately show ?thesis using assms by (simp add: bf_inv_def)
  qed
  then show thesis using that i by blast
qed

lemma bf_Add_ok:
  assumes "bf_inv bf"
  shows "\<exists>bf'. bf_Add s bf = Inr bf' \<and> bf_inv bf' \<and> bf_bitSize bf' = bf_bitSize bf \<and>
     bf_hashCount bf' = bf_hashCount bf \<and>
     (\<forall>j. bf_bit (bf_bits bf') j \<longleftrightarrow>
        j \<in> bf_positions (bf_bitSize bf) (bf_hashCount bf) s \<or> bf_bit (bf_bits bf) j)"
proof -
  obtain "is" where i: "bf_indexes bf s = Inr is" "set is = bf_positions (bf_bitSize bf) (bf_hashCount bf) s"
    "\<forall>index \<in> set is. unat index div 8 < length (bf_bits bf)" using bf_indexes_ok [OF assms] by blast
  then show ?thesis using bf_setBits_ok [OF i(3)] assms by (auto simp: bf_Add_def bf_inv_def)
qed

lemma bf_adds_ok:
  assumes "bf_inv bf"
  shows "\<exists>bf'. each bf_Add vs bf = Inr bf' \<and> bf_inv bf' \<and> bf_bitSize bf' = bf_bitSize bf \<and>
     bf_hashCount bf' = bf_hashCount bf \<and>
     (\<forall>j. bf_bit (bf_bits bf') j \<longleftrightarrow>
        j \<in> (\<Union>v \<in> set vs. bf_positions (bf_bitSize bf) (bf_hashCount bf) v) \<or> bf_bit (bf_bits bf) j)"
  using assms
proof (induction vs arbitrary: bf)
  case (Cons v vs)
  obtain bf1 where b: "bf_Add v bf = Inr bf1" "bf_inv bf1" "bf_bitSize bf1 = bf_bitSize bf"
    "bf_hashCount bf1 = bf_hashCount bf"
    "\<forall>j. bf_bit (bf_bits bf1) j \<longleftrightarrow>
        j \<in> bf_positions (bf_bitSize bf) (bf_hashCount bf) v \<or> bf_bit (bf_bits bf) j"
    using bf_Add_ok [OF Cons.prems] by blast
  from Cons.IH [OF b(2)] b show ?case by auto
qed simp

lemma bf_Has_ok:
  assumes "bf_inv bf"
  shows "bf_Has s bf = Inr (\<forall>j \<in> bf_positions (bf_bitSize bf) (bf_hashCount bf) s. bf_bit (bf_bits bf) j)"
proof -
  obtain "is" where i: "bf_indexes bf s = Inr is" "set is = bf_positions (bf_bitSize bf) (bf_hashCount bf) s"
    "\<forall>index \<in> set is. unat index div 8 < length (bf_bits bf)" using bf_indexes_ok [OF assms] by blast
  then show ?thesis using bf_allSet_ok [OF i(3)] by (simp add: bf_Has_def)
qed

lemma bf_New_ok:
  assumes "0 < n" "0 < p" "p < 1" "bf_optimalBits n p \<le> 2 ^ 32 - 8"
  shows "\<exists>bf. NewBloomFilter n p = Inr bf \<and> bf_inv bf \<and> (\<forall>j. \<not> bf_bit (bf_bits bf) j \<or> unat (bf_bitSize bf) \<le> unat j)"
proof -
  let ?m = "bf_optimalBits n p" and ?w = "word_of_int (bf_optimalBits n p) :: u32"
  have "0 < - real_of_int n * ln p" using assms(1-3) by (simp add: mult_pos_neg)
  then have "0 < (- real_of_int n * ln p) / (ln 2 * ln 2)" by (rule divide_pos_pos) simp
  then have pos: "1 \<le> ?m" unfolding bf_optimalBits_def by linarith
  then have w: "unat ?w = nat ?m" using assms(4) by (simp add: unat_eq_nat_uint uint_word_of_int)
  then have m: "unat ?w + 7 < 2 ^ 32" "0 < ?w"
    using pos assms(4) by (simp_all add: word_less_nat_alt)
  have "unat ((?w + 7) div 8) = unat (?w + 7) div 8" by (simp add: unat_div)
  also have "unat (?w + 7) = unat ?w + 7" using m(1) by (simp add: unat_word_ariths)
  finally have len: "unat ((?w + 7) div 8) = (unat ?w + 7) div 8" .
  have "\<not> bf_bit (replicate ((unat ?w + 7) div 8) 0) j" if "unat j < unat ?w" for j
  proof -
    have "unat j div 8 < (unat ?w + 7) div 8" using that by linarith
    then show ?thesis by (simp add: bf_bit_def)
  qed
  then show ?thesis
    using assms m len by (force simp: NewBloomFilter_def Let_def bf_inv_def not_le)
qed



end
