(* ===== verification/Binary_Heap.thy ===== *)
theory Binary_Heap
  imports Go_Prelude
begin

text \<open>
  \<open>06-Min-Heap-Max-Heap/main.go\<close>: a binary heap in a slice, ordered by the caller's
  \<open>higherPriority\<close>. The two sift loops are recursive functions with their termination proofs; the
  index of every slice access is below the length by the loop's own tests. The locale
  \<open>priority_order\<close> states what the code needs of the comparison: a strict weak order.
\<close>

type_synonym 'a prio = "'a \<Rightarrow> 'a \<Rightarrow> bool"

definition bh_swap :: "nat \<Rightarrow> nat \<Rightarrow> 'a list \<Rightarrow> 'a list" where
  "bh_swap i j d = d[i := d ! j, j := d ! i]"

lemma length_bh_swap [simp]: "length (bh_swap i j d) = length d"
  by (simp add: bh_swap_def)

fun bh_siftUp :: "'a prio \<Rightarrow> nat \<Rightarrow> 'a list \<Rightarrow> 'a list" where
  "bh_siftUp hp index d =
     (if 0 < index then
        let parent = (index - 1) div 2 in
        if \<not> hp (d ! index) (d ! parent) then d
        else bh_siftUp hp parent (bh_swap index parent d)
      else d)"

text \<open>The child to swap with, or the index itself.\<close>

definition bh_best :: "'a prio \<Rightarrow> nat \<Rightarrow> 'a list \<Rightarrow> nat" where
  "bh_best hp index d =
     (let left = index * 2 + 1; right = index * 2 + 2;
          best = (if left < length d \<and> hp (d ! left) (d ! index) then left else index)
      in if right < length d \<and> hp (d ! right) (d ! best) then right else best)"

lemma bh_best_cases: "bh_best hp i d = i \<or> bh_best hp i d \<in> {2 * i + 1, 2 * i + 2} \<and> bh_best hp i d < length d"
  by (auto simp: bh_best_def Let_def)

function bh_siftDown :: "'a prio \<Rightarrow> nat \<Rightarrow> 'a list \<Rightarrow> 'a list" where
  "bh_siftDown hp index d =
     (let best = bh_best hp index d in
      if best = index then d else bh_siftDown hp best (bh_swap index best d))"
  by pat_completeness auto
termination
  by (relation "measure (\<lambda>(hp, i, d). length d - i)") (use bh_best_cases in fastforce)+

declare bh_siftUp.simps [simp del] bh_siftDown.simps [simp del]

definition NewBinaryHeap :: "'a prio \<Rightarrow> 'a list \<Rightarrow> 'a list" where
  "NewBinaryHeap hp values = fold (bh_siftDown hp) (rev [0..<length values div 2]) values"

definition bh_Size :: "'a list \<Rightarrow> nat" where
  "bh_Size d = length d"

definition bh_Peek :: "'a \<Rightarrow> 'a list \<Rightarrow> 'a \<times> bool" where
  "bh_Peek zero d = (if length d = 0 then (zero, False) else (d ! 0, True))"

definition bh_Insert :: "'a prio \<Rightarrow> 'a \<Rightarrow> 'a list \<Rightarrow> 'a list" where
  "bh_Insert hp v d = (let d1 = d @ [v] in bh_siftUp hp (length d1 - 1) d1)"

definition bh_Extract :: "'a \<Rightarrow> 'a prio \<Rightarrow> 'a list \<Rightarrow> ('a \<times> bool) \<times> 'a list" where
  "bh_Extract zero hp d =
     (if length d = 0 then ((zero, False), d)
      else let top = d ! 0; last = d ! (length d - 1); d1 = take (length d - 1) d
           in ((top, True), if 0 < length d1 then bh_siftDown hp 0 (d1[0 := last]) else d1))"

subsection \<open>Permutation\<close>

lemma mset_bh_swap [simp]: "i < length d \<Longrightarrow> j < length d \<Longrightarrow> mset (bh_swap i j d) = mset d"
  by (metis bh_swap_def mset_swap)

lemma mset_bh_siftUp: "i < length d \<Longrightarrow> mset (bh_siftUp hp i d) = mset d"
proof (induction hp i d rule: bh_siftUp.induct)
  case (1 hp i d)
  then show ?case by (subst bh_siftUp.simps) (auto simp: Let_def)
qed

lemma mset_bh_siftDown: "i < length d \<Longrightarrow> mset (bh_siftDown hp i d) = mset d"
proof (induction hp i d rule: bh_siftDown.induct)
  case (1 hp i d)
  then show ?case
    using bh_best_cases [of hp i d] by (subst bh_siftDown.simps) (auto simp: Let_def)
qed

lemma length_bh_siftDown [simp]: "length (bh_siftDown hp i d) = length d"
proof (induction hp i d rule: bh_siftDown.induct)
  case (1 hp i d)
  then show ?case by (subst bh_siftDown.simps) (auto simp: Let_def)
qed

subsection \<open>Order\<close>

text \<open>\<open>bh_heap_from hp k d\<close>: no element whose parent is at \<open>k\<close> or later goes before its parent.\<close>

definition bh_heap_from :: "'a prio \<Rightarrow> nat \<Rightarrow> 'a list \<Rightarrow> bool" where
  "bh_heap_from hp k d \<longleftrightarrow>
     (\<forall>j < length d. 0 < j \<and> k \<le> (j - 1) div 2 \<longrightarrow> \<not> hp (d ! j) (d ! ((j - 1) div 2)))"

abbreviation bh_heap :: "'a prio \<Rightarrow> 'a list \<Rightarrow> bool" where
  "bh_heap hp \<equiv> bh_heap_from hp 0"

locale priority_order =
  fixes hp :: "'a prio"
  assumes asym: "hp a b \<Longrightarrow> \<not> hp b a"
    and not_trans: "\<not> hp b a \<Longrightarrow> \<not> hp c b \<Longrightarrow> \<not> hp c a"
begin

text \<open>The order holds everywhere from \<open>k\<close> but possibly between \<open>i\<close> and its children.\<close>

definition hole :: "nat \<Rightarrow> nat \<Rightarrow> 'a list \<Rightarrow> bool" where
  "hole k i d \<longleftrightarrow> (\<forall>j < length d. 0 < j \<and> k \<le> (j - 1) div 2 \<longrightarrow>
     ((j - 1) div 2 \<noteq> i \<longrightarrow> \<not> hp (d ! j) (d ! ((j - 1) div 2))) \<and>
     ((j - 1) div 2 = i \<and> 0 < i \<and> k \<le> (i - 1) div 2 \<longrightarrow> \<not> hp (d ! j) (d ! ((i - 1) div 2))))"

lemma parent_child: "0 < j \<Longrightarrow> (j - 1) div 2 = i \<longleftrightarrow> j = 2 * i + 1 \<or> j = 2 * i + 2" for i j :: nat
  by presburger

lemma best_least:
  assumes "bh_best hp i d = b" "j < length d" "j = 2 * i + 1 \<or> j = 2 * i + 2"
  shows "\<not> hp (d ! j) (d ! b)"
proof -
  define m where "m = (if 2 * i + 1 < length d \<and> hp (d ! (2 * i + 1)) (d ! i) then 2 * i + 1 else i)"
  have b: "b = (if 2 * i + 2 < length d \<and> hp (d ! (2 * i + 2)) (d ! m) then 2 * i + 2 else m)"
    unfolding assms(1) [symmetric] bh_best_def m_def Let_def by (simp add: mult.commute)
  have "\<not> hp (d ! (2 * i + 1)) (d ! m)" if "2 * i + 1 < length d" using that asym by (auto simp: m_def)
  then have j1: "j = 2 * i + 1 \<Longrightarrow> \<not> hp (d ! j) (d ! m)" using assms(2) by blast
  show ?thesis
  proof (cases "2 * i + 2 < length d \<and> hp (d ! (2 * i + 2)) (d ! m)")
    case True
    then have "b = 2 * i + 2" "\<not> hp (d ! m) (d ! b)" using b asym by auto
    then show ?thesis using assms(3) j1 not_trans asym by blast
  next
    case False
    then have "b = m" using b by auto
    then show ?thesis using False assms(2,3) j1 by blast
  qed
qed

lemma hp_trans: "hp c b \<Longrightarrow> hp b a \<Longrightarrow> hp c a"
  using not_trans [of c a b] asym by blast

lemma hole_grand:
  assumes "hole k i d" "j < length d" "0 < j" "(j - 1) div 2 = i" "0 < i" "k \<le> i" "k \<le> (i - 1) div 2"
  shows "\<not> hp (d ! j) (d ! ((i - 1) div 2))"
  using assms unfolding hole_def by simp

text \<open>Swapping the hole with its best child moves the hole down.\<close>

lemma swap_hole:
  assumes hl: "hole k i d" and ki: "k \<le> i" "i < length d" and False: "bh_best hp i d \<noteq> i"
  shows "hole k (bh_best hp i d) (bh_swap i (bh_best hp i d) d)"
proof -
  let ?b = "bh_best hp i d"
  have b: "?b = 2 * i + 1 \<or> ?b = 2 * i + 2" "?b < length d" "(?b - 1) div 2 = i" "0 < ?b" "i < ?b"
    using bh_best_cases [of hp i d] False by auto
  let ?d = "bh_swap i ?b d"
  have at: "?d ! j = (if j = i then d ! ?b else if j = ?b then d ! i else d ! j)" if "j < length d" for j
    using that b(2) ki(2) by (auto simp: bh_swap_def nth_list_update)
  show ?thesis
    unfolding hole_def
  proof (intro allI impI conjI)
    fix j
    assume j: "j < length ?d" "0 < j \<and> k \<le> (j - 1) div 2"
    let ?p = "(j - 1) div 2"
    have p: "?p < length d" "j < length d" "?p < j" using j by auto
    show "\<not> hp (?d ! j) (?d ! ?p)" if "?p \<noteq> ?b"
    proof (cases "?p = i")
      case True
      show ?thesis
      proof (cases "j = ?b")
        case jb: True
        have "hp (d ! ?b) (d ! i)" using False b by (auto simp: bh_best_def Let_def split: if_splits intro: hp_trans)
        then show ?thesis using at [OF p(2)] at [OF p(1)] jb True b(5) asym by simp
      next
        case False
        have "\<not> hp (d ! j) (d ! ?b)"
          using best_least [OF refl p(2), of i] parent_child [of j i] True j by simp
        then show ?thesis using at [OF p(2)] at [OF p(1)] False True p(3) by simp
      qed
    next
      case pi: False
      then have jb: "j \<noteq> ?b" using b(3) by blast
      show ?thesis
      proof (cases "j = i")
        case True
        then have "\<not> hp (d ! ?b) (d ! ?p)"
          using hole_grand [OF hl b(2,4,3)] j ki(1) by simp
        then show ?thesis using at [OF p(2)] at [OF p(1)] True pi that by simp
      next
        case False
        have "\<not> hp (d ! j) (d ! ?p)" using hl j p pi unfolding hole_def by blast
        then show ?thesis using at [OF p(2)] at [OF p(1)] False jb pi that by simp
      qed
    qed
    show "\<not> hp (?d ! j) (?d ! ((?b - 1) div 2))"
      if "?p = ?b \<and> 0 < ?b \<and> k \<le> (?b - 1) div 2"
    proof -
      have "j \<noteq> i" "j \<noteq> ?b" using that b(5) p(3) by auto
      moreover have "\<not> hp (d ! j) (d ! ?b)"
      proof -
        have "?p \<noteq> i" "0 < j" "k \<le> ?p" using that b(5) j by auto
        then have "\<not> hp (d ! j) (d ! ?p)" using hl p(2) unfolding hole_def by blast
        then show ?thesis using that by simp
      qed
      ultimately show ?thesis using at [OF p(2)] at [OF ki(2)] b(3) by simp
    qed
  qed
qed

lemma siftDown_heap:
  assumes "hole k i d" "k \<le> i" "i < length d"
  shows "bh_heap_from hp k (bh_siftDown hp i d)"
  using assms
proof (induction "length d - i" arbitrary: i d rule: less_induct)
  case less
  let ?b = "bh_best hp i d"
  show ?case
  proof (cases "?b = i")
    case True
    have "\<not> hp (d ! j) (d ! ((j - 1) div 2))" if "j < length d" "0 < j" "k \<le> (j - 1) div 2" for j
    proof (cases "(j - 1) div 2 = i")
      case c: True
      then show ?thesis using best_least [OF True that(1)] parent_child [OF that(2), of i] by blast
    next
      case False
      then show ?thesis using less.prems(1) that by (auto simp: hole_def)
    qed
    then show ?thesis using True by (subst bh_siftDown.simps) (simp add: bh_heap_from_def)
  next
    case False
    then have b: "?b = 2 * i + 1 \<or> ?b = 2 * i + 2" "?b < length d" "(?b - 1) div 2 = i" "0 < ?b" "i < ?b"
      using bh_best_cases [of hp i d] by auto
    have "hole k ?b (bh_swap i ?b d)" using less.prems False by (rule swap_hole)
    moreover have "k \<le> ?b" "?b < length (bh_swap i ?b d)" "length (bh_swap i ?b d) - ?b < length d - i"
      using less.prems b by simp_all
    ultimately have "bh_heap_from hp k (bh_siftDown hp ?b (bh_swap i ?b d))" by (intro less.hyps) simp_all
    then show ?thesis using False by (subst bh_siftDown.simps) (simp add: Let_def)
  qed
qed

lemma NewBinaryHeap_heap: "bh_heap hp (NewBinaryHeap hp values)"
proof -
  have "bh_heap_from hp 0 (fold (bh_siftDown hp) (rev [0..<k]) d)"
    if "bh_heap_from hp k d" "2 * k \<le> length d" for k d
    using that
  proof (induction k arbitrary: d)
    case (Suc k)
    have "hole k k d"
      using Suc.prems(1) by (auto simp: hole_def bh_heap_from_def)
    then have "bh_heap_from hp k (bh_siftDown hp k d)" using Suc.prems(2) by (intro siftDown_heap) auto
    then show ?case using Suc.IH [of "bh_siftDown hp k d"] Suc.prems(2) by simp
  qed simp
  moreover have "bh_heap_from hp (length values div 2) values"
    by (auto simp: bh_heap_from_def)
  ultimately show ?thesis by (simp add: NewBinaryHeap_def)
qed

text \<open>\<open>siftUp\<close>: the order holds but possibly between \<open>i\<close> and its parent.\<close>

definition bump :: "nat \<Rightarrow> 'a list \<Rightarrow> bool" where
  "bump i d \<longleftrightarrow> (\<forall>j < length d. 0 < j \<longrightarrow>
     (j \<noteq> i \<longrightarrow> \<not> hp (d ! j) (d ! ((j - 1) div 2))) \<and>
     ((j - 1) div 2 = i \<and> 0 < i \<longrightarrow> \<not> hp (d ! j) (d ! ((i - 1) div 2))))"

lemma siftUp_heap:
  assumes "bump i d" "i < length d"
  shows "bh_heap hp (bh_siftUp hp i d)"
  using assms
proof (induction i arbitrary: d rule: less_induct)
  case (less i)
  show ?case
  proof (cases "0 < i \<and> hp (d ! i) (d ! ((i - 1) div 2))")
    case False
    then have "bh_siftUp hp i d = d" by (subst bh_siftUp.simps) (auto simp: Let_def)
    then show ?thesis using False less.prems by (auto simp: bh_heap_from_def bump_def)
  next
    case True
    let ?p = "(i - 1) div 2"
    have p: "?p < i" "?p < length d" using True less.prems by auto
    let ?d = "bh_swap i ?p d"
    have at: "?d ! j = (if j = ?p then d ! i else if j = i then d ! ?p else d ! j)" if "j < length d" for j
      using that p less.prems(2) by (auto simp: bh_swap_def nth_list_update)
    have "bump ?p ?d"
      unfolding bump_def
    proof (intro allI impI conjI)
      fix j
      assume j: "j < length ?d" "0 < j"
      let ?q = "(j - 1) div 2"
      have q: "?q < length d" "j < length d" "?q < j" using j by auto
      show "\<not> hp (?d ! j) (?d ! ?q)" if "j \<noteq> ?p"
      proof (cases "j = i")
        case True
        then show ?thesis using at [OF q(2)] at [OF q(1)] \<open>0 < i \<and> _\<close> p asym by simp
      next
        case ji: False
        have h: "\<not> hp (d ! j) (d ! ?q)" using less.prems(1) j ji q(2) unfolding bump_def by blast
        have c: "\<not> hp (d ! j) (d ! ?p)" if "?q = i"
          using less.prems(1) that True j q(2) unfolding bump_def by blast
        have s: "\<not> hp (d ! j) (d ! i)" if "?q = ?p" using h that True not_trans asym by metis
        show ?thesis using at [OF q(2)] at [OF q(1)] h c s ji that by auto
      qed
      show "\<not> hp (?d ! j) (?d ! ((?p - 1) div 2))" if "?q = ?p \<and> 0 < ?p"
      proof -
        have up: "\<not> hp (d ! ?p) (d ! ((?p - 1) div 2))" "j \<noteq> ?p"
          using less.prems(1) that p q(3) unfolding bump_def by auto
        have up2: "(?p - 1) div 2 < ?p" using that by linarith
        have "\<not> hp (d ! j) (d ! ((?p - 1) div 2))" if "j \<noteq> i"
        proof -
          have "\<not> hp (d ! j) (d ! ?q)" using less.prems(1) that q(2) j unfolding bump_def by blast
          then have "\<not> hp (d ! j) (d ! ?p)" using \<open>?q = ?p \<and> _\<close> by simp
          with up(1) show ?thesis by (rule not_trans)
        qed
        then show ?thesis using at [OF q(2)] at [of "(?p - 1) div 2"] up up2 p by auto
      qed
    qed
    then have "bh_heap hp (bh_siftUp hp ?p ?d)" using less.IH [OF p(1), of ?d] p by simp
    then show ?thesis using True by (subst bh_siftUp.simps) (simp add: Let_def)
  qed
qed

lemma Insert_heap:
  assumes "bh_heap hp d"
  shows "bh_heap hp (bh_Insert hp v d)" "mset (bh_Insert hp v d) = add_mset v (mset d)"
proof -
  have "bump (length d) (d @ [v])"
    using assms by (auto simp: bump_def bh_heap_from_def nth_append)
  then show "bh_heap hp (bh_Insert hp v d)" by (simp add: bh_Insert_def siftUp_heap)
  show "mset (bh_Insert hp v d) = add_mset v (mset d)" by (simp add: bh_Insert_def mset_bh_siftUp)
qed

lemma top_first:
  assumes "bh_heap hp d" "j < length d"
  shows "\<not> hp (d ! j) (d ! 0)"
  using assms(2)
proof (induction j rule: less_induct)
  case (less j)
  show ?case
  proof (cases "j = 0")
    case False
    then have "\<not> hp (d ! j) (d ! ((j - 1) div 2))" "\<not> hp (d ! ((j - 1) div 2)) (d ! 0)"
      using assms(1) less by (auto simp: bh_heap_from_def)
    then show ?thesis using not_trans by blast
  qed (use asym in blast)
qed

text \<open>\<open>Extract\<close> takes out an element no other goes before, and only that one.\<close>

lemma Extract_heap:
  assumes "bh_heap hp d" "d \<noteq> []"
  shows "\<exists>top d'. bh_Extract zero hp d = ((top, True), d') \<and> bh_heap hp d' \<and>
     mset d = add_mset top (mset d') \<and> (\<forall>x \<in> set d. \<not> hp x top)"
proof -
  obtain us z where d: "d = us @ [z]" using assms(2) by (metis rev_exhaust)
  have top: "\<forall>x \<in> set d. \<not> hp x (d ! 0)" using top_first [OF assms(1)] by (auto simp: in_set_conv_nth)
  show ?thesis
  proof (cases us)
    case Nil
    then show ?thesis using d top asym by (simp add: bh_Extract_def bh_heap_from_def)
  next
    case (Cons y ys)
    have "\<not> hp (us ! j) (us ! ((j - 1) div 2))" if "j < length us" "0 < j" for j
    proof -
      have "(j - 1) div 2 < length us" using that by linarith
      moreover have "\<not> hp (d ! j) (d ! ((j - 1) div 2))"
        using assms(1) that d unfolding bh_heap_from_def by simp
      ultimately show ?thesis using that by (simp add: d nth_append)
    qed
    then have "hole 0 0 (us[0 := z])" by (auto simp: hole_def)
    then have "bh_heap hp (bh_siftDown hp 0 (us[0 := z]))" using Cons by (intro siftDown_heap) auto
    moreover have "mset d = add_mset (d ! 0) (mset (bh_siftDown hp 0 (us[0 := z])))"
      using Cons by (simp add: mset_bh_siftDown d)
    moreover have "bh_Extract zero hp d = ((d ! 0, True), bh_siftDown hp 0 (us[0 := z]))"
      using Cons by (simp add: bh_Extract_def d Let_def)
    ultimately show ?thesis using top by blast
  qed
qed

end

subsection \<open>Clients of a heap\<close>

text \<open>A client that extracts \<open>n\<close> elements, keeping those it got.\<close>

fun bh_drain :: "'a \<Rightarrow> 'a prio \<Rightarrow> nat \<Rightarrow> 'a list \<Rightarrow> 'a list" where
  "bh_drain zero hp 0 d = []"
| "bh_drain zero hp (Suc n) d = (case bh_Extract zero hp d of ((x, ok), d') \<Rightarrow>
     if ok then x # bh_drain zero hp n d' else [])"

text \<open>
  A client that calls the operations in any order, with the results of \<open>Peek\<close> and \<open>Extract\<close>; and the
  same calls on a multiset \<open>m\<close>: \<open>pq_spec\<close> checks the results and returns what is left, \<open>None\<close> if a result is wrong.
\<close>

datatype 'a pq_op = PqInsert 'a | PqPeek | PqExtract

fun bh_run :: "'a \<Rightarrow> 'a prio \<Rightarrow> 'a pq_op list \<Rightarrow> 'a list \<Rightarrow> ('a \<times> bool) list \<times> 'a list" where
  "bh_run zero hp [] d = ([], d)"
| "bh_run zero hp (PqInsert v # ops) d = bh_run zero hp ops (bh_Insert hp v d)"
| "bh_run zero hp (PqPeek # ops) d = (let (rs, d') = bh_run zero hp ops d in (bh_Peek zero d # rs, d'))"
| "bh_run zero hp (PqExtract # ops) d = (let (r, d1) = bh_Extract zero hp d; (rs, d') = bh_run zero hp ops d1
     in (r # rs, d'))"

fun pq_top :: "'a prio \<Rightarrow> 'a \<times> bool \<Rightarrow> 'a multiset \<Rightarrow> bool" where
  "pq_top hp (x, ok) m \<longleftrightarrow> (if ok then x \<in># m \<and> (\<forall>y \<in># m. \<not> hp y x) else m = {#})"

fun pq_spec :: "'a prio \<Rightarrow> 'a pq_op list \<Rightarrow> ('a \<times> bool) list \<Rightarrow> 'a multiset \<Rightarrow> 'a multiset option" where
  "pq_spec hp [] [] m = Some m"
| "pq_spec hp (PqInsert v # ops) rs m = pq_spec hp ops rs (add_mset v m)"
| "pq_spec hp (PqPeek # ops) (r # rs) m = (if pq_top hp r m then pq_spec hp ops rs m else None)"
| "pq_spec hp (PqExtract # ops) (r # rs) m = (if pq_top hp r m
     then pq_spec hp ops rs (if snd r then m - {#fst r#} else m) else None)"
| "pq_spec _ _ _ _ = None"

context priority_order
begin

lemma drain_ok:
  assumes "bh_heap hp d"
  shows "mset (bh_drain zero hp (length d) d) = mset d \<and>
     sorted_wrt (\<lambda>a b. \<not> hp b a) (bh_drain zero hp (length d) d)"
  using assms
proof (induction "length d" arbitrary: d)
  case (Suc n)
  obtain top d' where e: "bh_Extract zero hp d = ((top, True), d')" "bh_heap hp d'"
    "mset d = add_mset top (mset d')" "\<forall>x \<in> set d. \<not> hp x top"
    using Extract_heap [OF Suc.prems, of zero] Suc.hyps(2) by fastforce
  have n: "n = length d'" using e(3) Suc.hyps(2) by (metis Suc_inject size_add_mset size_mset)
  have "set d' \<subseteq> set d" using e(3) by (metis set_mset_mset set_mset_add_mset_insert subset_insertI)
  moreover have "set (bh_drain zero hp n d') = set d'" using Suc.hyps(1) [OF n e(2)] n by (metis mset_eq_setD)
  ultimately show ?case
    using Suc.hyps(1) [OF n e(2)] e n by (auto simp flip: Suc.hyps(2))
qed simp

text \<open>The specification is a multiset: \<open>Peek\<close> and \<open>Extract\<close> return an element that no other goes before.\<close>

lemma Peek_heap:
  assumes "bh_heap hp d" "d \<noteq> []"
  shows "bh_Peek zero d = (d ! 0, True)" "d ! 0 \<in># mset d" "\<forall>x \<in># mset d. \<not> hp x (d ! 0)"
  using assms top_first [OF assms(1)] by (auto simp: bh_Peek_def in_set_conv_nth)

lemma run_ok:
  assumes "bh_heap hp d"
  shows "case bh_run zero hp ops d of (rs, d') \<Rightarrow> bh_heap hp d' \<and> pq_spec hp ops rs (mset d) = Some (mset d')"
  using assms
proof (induction ops arbitrary: d)
  case (Cons oper ops)
  show ?case
  proof (cases oper)
    case (PqInsert v)
    then show ?thesis
      using Cons.IH [OF Insert_heap(1) [OF Cons.prems, of v]] Insert_heap(2) [OF Cons.prems, of v] by simp
  next
    case PqPeek
    show ?thesis
    proof (cases "d = []")
      case False
      then show ?thesis using Cons.IH [OF Cons.prems] Peek_heap(1) [OF Cons.prems False, of zero]
            Peek_heap(2,3) [OF Cons.prems False] PqPeek
        by (auto split: prod.splits)
    qed (use Cons.IH [OF Cons.prems] PqPeek in \<open>auto simp: bh_Peek_def split: prod.splits\<close>)
  next
    case PqExtract
    show ?thesis
    proof (cases "d = []")
      case False
      from Extract_heap [OF Cons.prems False, of zero] obtain top d' where
        "bh_Extract zero hp d = ((top, True), d')" "bh_heap hp d'" "mset d = add_mset top (mset d')"
        "\<forall>x \<in> set d. \<not> hp x top" by blast
      moreover from this(3) have "set d = insert top (set d')" by (metis set_mset_add_mset_insert set_mset_mset)
      ultimately show ?thesis using Cons.IH [of d'] PqExtract by (auto split: prod.splits)
    qed (use Cons.IH [OF Cons.prems] PqExtract in \<open>auto simp: bh_Extract_def split: prod.splits\<close>)
  qed
qed simp

end

text \<open>A priority computed by a key, the smallest first, is such an order; so is the largest first.\<close>

interpretation min_heap: priority_order "\<lambda>a b :: 'a. key a < (key b :: 'k::linorder)" for key
  by unfold_locales auto

interpretation max_heap: priority_order "\<lambda>a b :: 'a. (key b :: 'k::linorder) < key a" for key
  by unfold_locales auto

lemma mset_NewBinaryHeap: "mset (NewBinaryHeap hp values) = mset values"
proof -
  have "mset (fold (bh_siftDown hp) ks d) = mset d" if "\<forall>k \<in> set ks. k < length d" for ks d
    using that by (induction ks arbitrary: d) (simp_all add: mset_bh_siftDown)
  from this [of "rev [0..<length values div 2]" "values"]
  have "mset (fold (bh_siftDown hp) (rev [0..<length values div 2]) values) = mset values" by force
  then show ?thesis by (simp add: NewBinaryHeap_def)
qed

text \<open>
  C23. For any strict weak order, whatever the initial values and the calls of \<open>Insert\<close>, \<open>Peek\<close> and
  \<open>Extract\<close> after: the calls return what a priority queue on a multiset may return. Extracting until the
  heap is empty then yields all elements left, each once, in order of priority.
\<close>

theorem bh_run_refines:
  assumes "\<And>a b. hp a b \<Longrightarrow> \<not> hp b a" "\<And>a b c. \<not> hp b a \<Longrightarrow> \<not> hp c b \<Longrightarrow> \<not> hp c a"
  shows "case bh_run zero hp ops (NewBinaryHeap hp values) of (rs, d) \<Rightarrow>
     pq_spec hp ops rs (mset values) = Some (mset d) \<and>
     mset (bh_drain zero hp (bh_Size d) d) = mset d \<and> sorted_wrt (\<lambda>a b. \<not> hp b a) (bh_drain zero hp (bh_Size d) d)"
proof -
  have hp: "priority_order hp" using assms by (rule priority_order.intro)
  note run = priority_order.run_ok [OF hp priority_order.NewBinaryHeap_heap [OF hp, of "values"], of ops zero]
  show ?thesis
  proof (cases "bh_run zero hp ops (NewBinaryHeap hp values)")
    case (Pair rs d)
    with run have "bh_heap hp d" "pq_spec hp ops rs (mset values) = Some (mset d)"
      by (simp_all add: mset_NewBinaryHeap)
    then show ?thesis using priority_order.drain_ok [OF hp, of d zero] Pair by (simp add: bh_Size_def)
  qed
qed

text \<open>The maximum heap of integers.\<close>

theorem bh_run_refines_witness:
  "case bh_run 0 (\<lambda>a b :: int. b < a) [PqExtract, PqInsert 9, PqPeek] (NewBinaryHeap (\<lambda>a b. b < a) [3, 1, 4]) of (rs, d) \<Rightarrow>
     pq_spec (\<lambda>a b. b < a) [PqExtract, PqInsert 9, PqPeek] rs {#3, 1, 4#} = Some (mset d) \<and>
     mset (bh_drain 0 (\<lambda>a b. b < a) (bh_Size d) d) = mset d \<and>
     sorted_wrt (\<lambda>a b. \<not> a < b) (bh_drain 0 (\<lambda>a b. b < a) (bh_Size d) d)"
  using bh_run_refines [of "\<lambda>a b :: int. b < a" "[PqExtract, PqInsert 9, PqPeek]" "[3, 1, 4]" 0]
  by (simp add: add_mset_commute split: prod.splits del: bh_run.simps)

end
