(* ===== verification/Trie_Tree.thy ===== *)
theory Trie_Tree
  imports Kv_Interface
begin

text \<open>
  \<open>07-Trie/main.go\<close>. A node owns its children, so the tree of pointers is a datatype with the
  child map nested in it. A word is the sequence of runes that \<open>range\<close> yields for the Go string.
  The order in which \<open>collect\<close> visits the children of a node is the map's iteration order, an
  argument here.
\<close>

type_synonym rune = "32 word"
type_synonym runes = "rune list"

datatype trie_node = TrieNode (tr_children: "(rune, trie_node) fmap") (tr_end: bool) (tr_value: string)

definition NewTrie :: trie_node where
  "NewTrie = TrieNode fmempty False ''''"

fun tr_findNode :: "runes \<Rightarrow> trie_node \<Rightarrow> trie_node option" where
  "tr_findNode [] node = Some node"
| "tr_findNode (c # text) node = (case fmlookup (tr_children node) c of
     None \<Rightarrow> None | Some child \<Rightarrow> tr_findNode text child)"

fun tr_Insert :: "runes \<Rightarrow> string \<Rightarrow> trie_node \<Rightarrow> trie_node" where
  "tr_Insert [] v node = TrieNode (tr_children node) True v"
| "tr_Insert (c # word) v node =
     (let child = (case fmlookup (tr_children node) c of
                     None \<Rightarrow> TrieNode fmempty False '''' | Some child \<Rightarrow> child)
      in TrieNode (fmupd c (tr_Insert word v child) (tr_children node)) (tr_end node) (tr_value node))"

definition tr_Search :: "runes \<Rightarrow> trie_node \<Rightarrow> string \<times> bool" where
  "tr_Search word t = (case tr_findNode word t of
     None \<Rightarrow> ('''', False)
   | Some node \<Rightarrow> if \<not> tr_end node then ('''', False) else (tr_value node, True))"

definition tr_StartsWith :: "runes \<Rightarrow> trie_node \<Rightarrow> bool" where
  "tr_StartsWith pre t \<longleftrightarrow> tr_findNode pre t \<noteq> None"

fun tr_deleteFrom :: "runes \<Rightarrow> trie_node \<Rightarrow> bool \<times> trie_node" where
  "tr_deleteFrom [] node =
     (if \<not> tr_end node then (False, node) else (True, TrieNode (tr_children node) False ''''))"
| "tr_deleteFrom (c # word) node = (case fmlookup (tr_children node) c of
     None \<Rightarrow> (False, node)
   | Some child \<Rightarrow> (case tr_deleteFrom word child of (deleted, child') \<Rightarrow>
       let node1 = TrieNode (fmupd c child' (tr_children node)) (tr_end node) (tr_value node) in
       if \<not> deleted then (False, node1)
       else if \<not> tr_end child' \<and> gm_len (tr_children child') = 0
       then (True, TrieNode (fmdrop c (tr_children node1)) (tr_end node) (tr_value node))
       else (True, node1)))"

definition tr_Delete :: "runes \<Rightarrow> trie_node \<Rightarrow> bool \<times> trie_node" where
  "tr_Delete word t = tr_deleteFrom word t"

text \<open>\<open>collect\<close> recurses into the children; it ends because they are smaller trees.\<close>

definition tr_child_rel :: "(trie_node \<times> trie_node) set" where
  "tr_child_rel = {(child, node). \<exists>c. fmlookup (tr_children node) c = Some child}"

lemma wf_tr_child_rel: "wf tr_child_rel"
  unfolding wf_def
proof (intro allI impI)
  fix P and t :: trie_node
  assume step: "\<forall>x. (\<forall>y. (y, x) \<in> tr_child_rel \<longrightarrow> P y) \<longrightarrow> P x"
  show "P t"
  proof (induction t)
    case (TrieNode m e v)
    have "P y" if "fmlookup m c = Some y" for c y
      by (rule TrieNode [OF fmran'I [OF that]])
    then have "\<forall>y. (y, TrieNode m e v) \<in> tr_child_rel \<longrightarrow> P y" by (auto simp: tr_child_rel_def)
    with step show ?case by blast
  qed
qed

function tr_collect :: "((rune, trie_node) fmap \<Rightarrow> rune list) \<Rightarrow> trie_node \<Rightarrow> runes \<Rightarrow> runes list" where
  "tr_collect order node word =
     (if tr_end node then [word] else []) @
     concat (map (\<lambda>c. case fmlookup (tr_children node) c of
         None \<Rightarrow> [] | Some child \<Rightarrow> tr_collect order child (word @ [c])) (order (tr_children node)))"
  by pat_completeness auto
termination
  by (relation "inv_image tr_child_rel (\<lambda>(order, node, word). node)")
    (simp add: wf_tr_child_rel, auto simp: tr_child_rel_def)

declare tr_collect.simps [simp del]

definition tr_WordsWithPrefix :: "((rune, trie_node) fmap \<Rightarrow> rune list) \<Rightarrow> runes \<Rightarrow> trie_node \<Rightarrow> runes list" where
  "tr_WordsWithPrefix order pre t = (case tr_findNode pre t of
     None \<Rightarrow> [] | Some node \<Rightarrow> tr_collect order node pre)"

subsection \<open>The trie as a map\<close>

definition tr_lookup :: "trie_node \<Rightarrow> runes \<Rightarrow> string option" where
  "tr_lookup t w = (case tr_findNode w t of
     None \<Rightarrow> None | Some node \<Rightarrow> if tr_end node then Some (tr_value node) else None)"

text \<open>No dead branches: every node but the root lies on the way to a word.\<close>

definition tr_pruned :: "trie_node \<Rightarrow> bool" where
  "tr_pruned t \<longleftrightarrow> (\<forall>p. p \<noteq> [] \<longrightarrow> tr_findNode p t \<noteq> None \<longrightarrow> (\<exists>w. tr_lookup t (p @ w) \<noteq> None))"

lemma tr_findNode_append:
  "tr_findNode (p @ w) t = (case tr_findNode p t of None \<Rightarrow> None | Some n \<Rightarrow> tr_findNode w n)"
  by (induction p t rule: tr_findNode.induct) (auto split: option.split)

lemma tr_lookup_simps [simp]:
  "tr_lookup t [] = (if tr_end t then Some (tr_value t) else None)"
  "tr_lookup t (c # w) = (case fmlookup (tr_children t) c of None \<Rightarrow> None | Some n \<Rightarrow> tr_lookup n w)"
  by (auto simp: tr_lookup_def split: option.split)

lemma tr_lookup_append:
  "tr_lookup t (p @ w) = (case tr_findNode p t of None \<Rightarrow> None | Some n \<Rightarrow> tr_lookup n w)"
  by (auto simp: tr_lookup_def tr_findNode_append split: option.split)

lemma tr_Insert_lookup: "tr_lookup (tr_Insert w v t) = (tr_lookup t)(w \<mapsto> v)"
proof (induction w v t rule: tr_Insert.induct)
  case (1 v node)
  show ?case
  proof
    fix u
    show "tr_lookup (tr_Insert [] v node) u = ((tr_lookup node)([] \<mapsto> v)) u" by (cases u) auto
  qed
next
  case (2 c word v node)
  let ?child = "case fmlookup (tr_children node) c of None \<Rightarrow> TrieNode fmempty False '''' | Some n \<Rightarrow> n"
  have IH: "tr_lookup (tr_Insert word v ?child) = (tr_lookup ?child)(word \<mapsto> v)" by (rule 2) simp
  have empty: "tr_lookup (TrieNode fmempty False '''') u = None" for u by (cases u) auto
  show ?case
  proof
    fix u
    show "tr_lookup (tr_Insert (c # word) v node) u = ((tr_lookup node)(c # word \<mapsto> v)) u"
      using IH by (cases u; cases "fmlookup (tr_children node) c") (auto simp: Let_def empty)
  qed
qed

lemma tr_Insert_find:
  "tr_findNode p (tr_Insert w v t) \<noteq> None \<Longrightarrow> (\<exists>u. w = p @ u) \<or> tr_findNode p t \<noteq> None"
proof (induction p arbitrary: w t)
  case (Cons c p)
  show ?case
  proof (cases w)
    case w: (Cons d w')
    show ?thesis
    proof (cases "c = d")
      case True
      let ?child = "case fmlookup (tr_children t) c of None \<Rightarrow> TrieNode fmempty False '''' | Some n \<Rightarrow> n"
      have "tr_findNode p (tr_Insert w' v ?child) \<noteq> None" using Cons.prems w True by (simp add: Let_def)
      from Cons.IH [OF this] show ?thesis
        using w True by (cases p) (auto split: option.splits)
    qed (use Cons.prems w in \<open>auto simp: Let_def\<close>)
  qed (use Cons.prems in simp)
qed simp

lemma tr_Insert_pruned:
  assumes "tr_pruned t"
  shows "tr_pruned (tr_Insert w v t)"
  unfolding tr_pruned_def tr_Insert_lookup
proof (intro allI impI)
  fix p :: runes
  assume p: "p \<noteq> []" "tr_findNode p (tr_Insert w v t) \<noteq> None"
  from tr_Insert_find [OF p(2)] show "\<exists>u. ((tr_lookup t)(w \<mapsto> v)) (p @ u) \<noteq> None"
  proof
    assume "tr_findNode p t \<noteq> None"
    then obtain u where "tr_lookup t (p @ u) \<noteq> None" using assms p(1) unfolding tr_pruned_def by blast
    then show ?thesis by (intro exI [of _ u]) simp
  qed auto
qed

lemma tr_pruned_child:
  assumes "tr_pruned t" "fmlookup (tr_children t) c = Some n"
  shows "tr_pruned n" "\<exists>w. tr_lookup n w \<noteq> None"
proof -
  show "tr_pruned n"
    unfolding tr_pruned_def
  proof (intro allI impI)
    fix p :: runes
    assume p: "p \<noteq> []" "tr_findNode p n \<noteq> None"
    then have "tr_findNode (c # p) t \<noteq> None" using assms(2) by simp
    then obtain w where "tr_lookup t ((c # p) @ w) \<noteq> None" using assms(1) unfolding tr_pruned_def by blast
    then show "\<exists>w. tr_lookup n (p @ w) \<noteq> None" using assms(2) by auto
  qed
  have "tr_findNode [c] t \<noteq> None" using assms(2) by simp
  then obtain w where "tr_lookup t ([c] @ w) \<noteq> None" using assms(1) unfolding tr_pruned_def by blast
  then show "\<exists>w. tr_lookup n w \<noteq> None" using assms(2) by auto
qed

lemma tr_prunedI:
  assumes "\<And>c n. fmlookup (tr_children t) c = Some n \<Longrightarrow> tr_pruned n \<and> (\<exists>w. tr_lookup n w \<noteq> None)"
  shows "tr_pruned t"
  unfolding tr_pruned_def
proof (intro allI impI)
  fix p :: runes
  assume p: "p \<noteq> []" "tr_findNode p t \<noteq> None"
  then obtain c q n where q: "p = c # q" "fmlookup (tr_children t) c = Some n" "tr_findNode q n \<noteq> None"
    by (cases p) (auto split: option.splits)
  have n: "tr_pruned n" "\<exists>w. tr_lookup n w \<noteq> None" using assms [OF q(2)] by auto
  have "\<exists>w. tr_lookup n (q @ w) \<noteq> None"
  proof (cases "q = []")
    case False
    then show ?thesis using n(1) q(3) unfolding tr_pruned_def by blast
  qed (use n(2) in simp)
  then show "\<exists>w. tr_lookup t (p @ w) \<noteq> None" using q by simp
qed

text \<open>A deletion that fails changes nothing; one that succeeds removes the word and dead branches.\<close>

lemma tr_delete_fail: "fst (tr_deleteFrom w t) = False \<Longrightarrow> snd (tr_deleteFrom w t) = t"
proof (induction w t rule: tr_deleteFrom.induct)
  case (2 c word node)
  show ?case
  proof (cases "fmlookup (tr_children node) c")
    case (Some child)
    obtain b child' where d: "tr_deleteFrom word child = (b, child')" by fastforce
    with 2 Some have "\<not> b" by (auto simp: Let_def split: if_splits)
    then have "child' = child" using 2 Some d by simp
    moreover have "fmupd c child (tr_children node) = tr_children node"
      using Some by (intro fmap_ext) auto
    ultimately show ?thesis using Some d \<open>\<not> b\<close> by (simp add: Let_def)
  qed simp
qed (auto split: if_splits)

lemma tr_delete_found: "fst (tr_deleteFrom w t) \<longleftrightarrow> tr_lookup t w \<noteq> None"
  by (induction w t rule: tr_deleteFrom.induct)
    (auto simp: Let_def split: option.splits prod.splits if_splits)

lemma tr_delete_ok:
  assumes "tr_pruned t" "tr_deleteFrom w t = (True, t')"
  shows "tr_pruned t'" "tr_lookup t' = (tr_lookup t)(w := None)"
proof -
  have "tr_pruned t' \<and> tr_lookup t' = (tr_lookup t)(w := None)"
    using assms
  proof (induction w arbitrary: t t')
    case Nil
    then have t': "t' = TrieNode (tr_children t) False ''''" by (auto split: if_splits)
    have "tr_pruned t'" using tr_pruned_child [OF Nil.prems(1)] by (intro tr_prunedI) (simp add: t')
    moreover have "tr_lookup t' u = ((tr_lookup t)([] := None)) u" for u by (cases u) (auto simp: t')
    ultimately show ?case by blast
  next
    case (Cons c w)
    obtain n n' where n: "fmlookup (tr_children t) c = Some n" "tr_deleteFrom w n = (True, n')"
      using Cons.prems(2) by (auto simp: Let_def split: option.splits prod.splits if_splits)
    have IH: "tr_pruned n'" "tr_lookup n' = (tr_lookup n)(w := None)"
      using Cons.IH [OF tr_pruned_child(1) [OF Cons.prems(1) n(1)] n(2)] by auto
    show ?case
    proof (cases "\<not> tr_end n' \<and> gm_len (tr_children n') = 0")
      case True
      have "fmdrop c (fmupd c n' (tr_children t)) = fmdrop c (tr_children t)" by (intro fmap_ext) simp
      then have t': "t' = TrieNode (fmdrop c (tr_children t)) (tr_end t) (tr_value t)"
        using Cons.prems(2) n True by (simp add: Let_def)
      have dead: "tr_lookup n' u = None" for u using True by (cases u) (auto simp: gm_len_0_iff)
      have "tr_pruned t'"
        using tr_pruned_child [OF Cons.prems(1)] by (intro tr_prunedI) (auto simp: t' split: if_splits)
      moreover have "tr_lookup t' u = ((tr_lookup t)(c # w := None)) u" for u
      proof (cases u)
        case (Cons d v)
        have "(tr_lookup n)(w := None) = Map.empty" using IH(2) dead by (simp add: fun_eq_iff)
        then have "tr_lookup n v = None" if "v \<noteq> w" using that by (metis fun_upd_other)
        then show ?thesis using n(1) Cons by (auto simp: t')
      qed (simp add: t')
      ultimately show ?thesis by blast
    next
      case False
      then have t': "t' = TrieNode (fmupd c n' (tr_children t)) (tr_end t) (tr_value t)"
        using Cons.prems(2) n by (auto simp: Let_def)
      have "\<exists>u. tr_lookup n' u \<noteq> None"
      proof (cases "tr_end n'")
        case True
        then have "tr_lookup n' [] \<noteq> None" by simp
        then show ?thesis by blast
      next
        case noEnd: False
        then have "tr_children n' \<noteq> fmempty" using False by (auto simp: gm_len_0_iff)
        then obtain d m where "fmlookup (tr_children n') d = Some m"
          by (metis fmap_ext fmempty_lookup option.exhaust)
        then have "tr_findNode [d] n' \<noteq> None" by simp
        then show ?thesis using IH(1) unfolding tr_pruned_def by blast
      qed
      then have "tr_pruned t'"
        using IH(1) tr_pruned_child [OF Cons.prems(1)]
        by (intro tr_prunedI) (auto simp: t' split: if_splits)
      moreover have "tr_lookup t' u = ((tr_lookup t)(c # w := None)) u" for u
        using n(1) IH(2) by (cases u) (auto simp: t')
      ultimately show ?thesis by blast
    qed
  qed
  then show "tr_pruned t'" "tr_lookup t' = (tr_lookup t)(w := None)" by auto
qed

lemma tr_Delete_ok:
  assumes "tr_pruned t"
  shows "tr_pruned (snd (tr_Delete w t))" "tr_lookup (snd (tr_Delete w t)) = (tr_lookup t)(w := None)"
    "fst (tr_Delete w t) \<longleftrightarrow> tr_lookup t w \<noteq> None"
proof -
  obtain b t' where d: "tr_deleteFrom w t = (b, t')" by fastforce
  have "tr_pruned t' \<and> tr_lookup t' = (tr_lookup t)(w := None)"
  proof (cases b)
    case False
    then have "t' = t" "tr_lookup t w = None" using tr_delete_fail [of w t] tr_delete_found [of w t] d by auto
    then show ?thesis using assms by auto
  next
    case True
    with d have "tr_deleteFrom w t = (True, t')" by simp
    from tr_delete_ok [OF assms this] show ?thesis by blast
  qed
  then show "tr_pruned (snd (tr_Delete w t))" "tr_lookup (snd (tr_Delete w t)) = (tr_lookup t)(w := None)"
    using d by (simp_all add: tr_Delete_def)
qed (simp add: tr_Delete_def tr_delete_found)

subsection \<open>Prefixes and collection\<close>

lemma tr_StartsWith_ok:
  assumes "tr_pruned t"
  shows "tr_StartsWith p t \<longleftrightarrow> p = [] \<or> (\<exists>w. tr_lookup t (p @ w) \<noteq> None)"
  using assms by (auto simp: tr_StartsWith_def tr_pruned_def tr_lookup_append split: option.splits)

lemma tr_collect_ok:
  assumes "\<And>m. enumerates (order m) m"
  shows "set (tr_collect order t p) = {p @ w | w. tr_lookup t w \<noteq> None} \<and> distinct (tr_collect order t p)"
proof (induction t arbitrary: p rule: wf_induct_rule [OF wf_tr_child_rel])
  case (1 t)
  let ?sub = "\<lambda>c. case fmlookup (tr_children t) c of None \<Rightarrow> [] | Some n \<Rightarrow> tr_collect order n (p @ [c])"
  let ?cs = "order (tr_children t)"
  have sub: "set (?sub c) = {p @ c # w | w. tr_lookup t (c # w) \<noteq> None} \<and> distinct (?sub c)" for c
    using 1 [of _ "p @ [c]"] by (auto simp: tr_child_rel_def split: option.split)
  have cs: "c \<in> set ?cs" if "tr_lookup t (c # w) \<noteq> None" for c w
    using that enumerates_iff [OF assms, of c "tr_children t"] by (auto split: option.splits)
  have eq: "tr_collect order t p = (if tr_end t then [p] else []) @ concat (map ?sub ?cs)"
    by (subst tr_collect.simps) simp
  have "{p @ w | w. tr_lookup t w \<noteq> None} =
    (if tr_end t then {p} else {}) \<union> (\<Union>c \<in> set ?cs. {p @ c # w | w. tr_lookup t (c # w) \<noteq> None})"
    (is "?L = ?R")
  proof
    show "?L \<subseteq> ?R"
    proof
      fix x
      assume "x \<in> ?L"
      then obtain w where w: "x = p @ w" "tr_lookup t w \<noteq> None" by blast
      then show "x \<in> ?R" using cs by (cases w) (auto split: if_splits)
    qed
    show "?R \<subseteq> ?L" by (auto split: if_splits)
  qed
  then have "set (tr_collect order t p) = ?L" unfolding eq using sub by auto
  moreover have "distinct (concat (map ?sub cs'))" if "distinct cs'" for cs'
    using that
  proof (induction cs')
    case (Cons c cs')
    then have "set (?sub c) \<inter> set (concat (map ?sub cs')) = {}" using sub by fastforce
    then show ?case using Cons sub [of c] by simp
  qed simp
  then have "distinct (tr_collect order t p)"
    unfolding eq using sub enumerates_distinct [OF assms] by auto
  ultimately show ?case by blast
qed

lemma tr_WordsWithPrefix_ok:
  assumes "\<And>m. enumerates (order m) m"
  shows "set (tr_WordsWithPrefix order p t) = {p @ w | w. tr_lookup t (p @ w) \<noteq> None}"
    "distinct (tr_WordsWithPrefix order p t)"
  by (cases "tr_findNode p t"; use tr_collect_ok [OF assms] in
    \<open>simp add: tr_WordsWithPrefix_def tr_lookup_append\<close>)+

subsection \<open>A trie is a map with prefix queries\<close>

definition tr_read :: "runes \<Rightarrow> trie_node \<Rightarrow> string option" where
  "tr_read w t = (case tr_Search w t of (v, ok) \<Rightarrow> if ok then Some v else None)"

lemma tr_read_lookup: "tr_read w t = tr_lookup t w"
  by (simp add: tr_read_def tr_Search_def tr_lookup_def split: option.split)

interpretation trie: kv_store_del tr_pruned tr_lookup "\<lambda>k v t. Inr (tr_Insert k v t)"
  "\<lambda>k t. Inr (tr_read k t)" "\<lambda>_. 0" 0 0 "\<lambda>k t. Inr (snd (tr_Delete k t))"
  by unfold_locales (simp_all add: tr_read_lookup tr_Insert_pruned tr_Insert_lookup tr_Delete_ok)

lemma tr_New_ok: "tr_pruned NewTrie" "tr_lookup NewTrie = Map.empty"
proof -
  show "tr_pruned NewTrie" by (intro tr_prunedI) (simp add: NewTrie_def)
  have "tr_lookup NewTrie w = None" for w by (cases w) (simp_all add: NewTrie_def)
  then show "tr_lookup NewTrie = Map.empty" by auto
qed


text \<open>The empty prefix is answered with true even when there is no word at all.\<close>

lemma tr_StartsWith_empty: "tr_StartsWith [] NewTrie \<and> tr_WordsWithPrefix order [] NewTrie = []" if "enumerates (order fmempty) fmempty"
  using that by (simp add: tr_StartsWith_def tr_WordsWithPrefix_def NewTrie_def tr_collect.simps [of order])


end
