(* ===== verification/Go_Std.thy ===== *)
theory Go_Std
  imports Go_Prelude
begin

text \<open>
  The standard-library functions several components call: printing an integer in decimal
  (\<open>fmt.Sprintf("%d")\<close>, \<open>strconv.Itoa\<close>) and the binary search \<open>sort.Search\<close>.
\<close>

subsection \<open>Decimal numbers\<close>

definition digit :: "nat \<Rightarrow> char" where
  "digit d = char_of (48 + d)"

fun decimal :: "nat \<Rightarrow> string" where
  "decimal n = (if n < 10 then [digit n] else decimal (n div 10) @ [digit (n mod 10)])"

declare decimal.simps [simp del]

definition decimal_int :: "int \<Rightarrow> string" where
  "decimal_int i = (if i < 0 then CHR ''-'' # decimal (nat (- i)) else decimal (nat i))"

definition decimal_read :: "string \<Rightarrow> nat" where
  "decimal_read s = foldl (\<lambda>a c. a * 10 + (of_char c - 48)) 0 s"

lemma of_char_digit: "d < 10 \<Longrightarrow> of_char (digit d) = 48 + d"
  by (simp add: digit_def of_char_of)

lemma decimal_read_decimal [simp]: "decimal_read (decimal n) = n"
proof (induction n rule: decimal.induct)
  case (1 n)
  show ?case
  proof (cases "n < 10")
    case True
    then show ?thesis by (subst decimal.simps) (simp add: decimal_read_def of_char_digit)
  next
    case False
    have "decimal_read (decimal (n div 10) @ [digit (n mod 10)]) = decimal_read (decimal (n div 10)) * 10 + n mod 10"
      by (simp add: decimal_read_def of_char_digit)
    also have "\<dots> = n" using 1 False by simp
    finally show ?thesis using False by (subst decimal.simps) simp
  qed
qed

lemma decimal_inj: "decimal m = decimal n \<longleftrightarrow> m = n"
  by (metis decimal_read_decimal)

lemma decimal_digits: "c \<in> set (decimal n) \<Longrightarrow> 48 \<le> (of_char c :: nat) \<and> (of_char c :: nat) < 58"
proof (induction n rule: decimal.induct)
  case (1 n)
  then show ?case by (subst (asm) (2) decimal.simps) (auto simp: of_char_digit split: if_splits)
qed

lemma decimal_not_Nil [simp]: "decimal n \<noteq> []"
  by (subst decimal.simps) simp

subsection \<open>Binary search\<close>

text \<open>\<open>sort.Search\<close>, as the standard library writes it.\<close>

function sort_Search :: "(nat \<Rightarrow> bool) \<Rightarrow> nat \<Rightarrow> nat \<Rightarrow> nat" where
  "sort_Search f i j =
     (if i < j then let h = (i + j) div 2 in
        if \<not> f h then sort_Search f (h + 1) j else sort_Search f i h
      else i)"
  by pat_completeness auto
termination
  by (relation "measure (\<lambda>(f, i, j). j - i)") auto

declare sort_Search.simps [simp del]

lemma sort_Search_range: "i \<le> j \<Longrightarrow> i \<le> sort_Search f i j \<and> sort_Search f i j \<le> j"
proof (induction f i j rule: sort_Search.induct)
  case (1 f i j)
  let ?h = "(i + j) div 2"
  show ?case
  proof (cases "i < j")
    case True
    then have "i \<le> ?h" "?h < j" by auto
    then show ?thesis using 1 True
      by (subst (1 2) sort_Search.simps) (cases "f ?h"; simp add: Let_def; linarith?)
  next
    case False
    then show ?thesis using 1 by (subst (1 2) sort_Search.simps) simp
  qed
qed

lemma sort_Search_least:
  assumes mono: "\<And>a b. a \<le> b \<Longrightarrow> b < n \<Longrightarrow> f a \<Longrightarrow> f b"
    and "i \<le> j" "j \<le> n" "\<And>k. k < i \<Longrightarrow> \<not> f k" "j < n \<Longrightarrow> f j"
  shows "(\<forall>k < sort_Search f i j. \<not> f k) \<and> (sort_Search f i j < n \<longrightarrow> f (sort_Search f i j))"
  using assms(2-5)
proof (induction "j - i" arbitrary: i j rule: less_induct)
  case less
  let ?h = "(i + j) div 2"
  show ?case
  proof (cases "i < j")
    case False
    then show ?thesis using less.prems by (subst (1 2 3) sort_Search.simps) (auto simp: not_less)
  next
    case True
    then have h: "i \<le> ?h" "?h < j" by auto
    show ?thesis
    proof (cases "f ?h")
      case t: True
      have "sort_Search f i j = sort_Search f i ?h"
        using True t by (subst sort_Search.simps) (simp add: Let_def)
      moreover have "?h - i < j - i" "?h \<le> n" using h less.prems(2) by linarith+
      ultimately show ?thesis using less.hyps [of ?h i] h less.prems t by simp
    next
      case f: False
      have "\<not> f k" if "k < ?h + 1" for k
        using mono [of k ?h] f that h(2) less.prems(2) by auto
      moreover have "sort_Search f i j = sort_Search f (?h + 1) j"
        using True f by (subst sort_Search.simps) (simp add: Let_def)
      moreover have "j - (?h + 1) < j - i" "?h + 1 \<le> j" using h by linarith+
      ultimately show ?thesis using less.hyps [of j "?h + 1"] less.prems by simp
    qed
  qed
qed

text \<open>On a list sorted by a key: the search for the first key not below a bound.\<close>

lemma sort_Search_sorted:
  assumes "sorted (map key xs)"
  shows "sort_Search (\<lambda>i. b \<le> key (xs ! i)) 0 (length xs) = length (takeWhile (\<lambda>x. key x < b) xs)"
proof -
  let ?f = "\<lambda>i. b \<le> key (xs ! i)" and ?l = "length (takeWhile (\<lambda>x. key x < b) xs)"
  let ?r = "sort_Search ?f 0 (length xs)"
  have "?f a \<Longrightarrow> ?f c" if "a \<le> c" "c < length xs" for a c
    using sorted_nth_mono [OF assms, of a c] that by auto
  from sort_Search_least [of "length xs" ?f 0 "length xs", OF this]
  have r: "\<forall>k < ?r. key (xs ! k) < b" "?r < length xs \<longrightarrow> b \<le> key (xs ! ?r)"
    by (auto simp: not_le)
  have le: "?l \<le> length xs" by (rule length_takeWhile_le)
  have below: "key (xs ! k) < b" if "k < ?l" for k
    using that by (metis nth_mem set_takeWhileD takeWhile_nth)
  have stop: "b \<le> key (xs ! ?l)" if "?l < length xs"
    using nth_length_takeWhile [OF that] by (simp add: not_less)
  have "?r \<le> length xs" using sort_Search_range [of 0 "length xs" ?f] by simp
  show ?thesis
  proof (rule linorder_cases)
    assume "?r < ?l"
    then show ?thesis using below [of ?r] r(2) le by simp
  next
    assume "?l < ?r"
    then show ?thesis using stop r(1) \<open>?r \<le> length xs\<close> by fastforce
  qed
qed

end
