(* ===== verification/Hash_Ring.thy ===== *)
theory Hash_Ring
  imports Go_Std Fnv_Hash
begin

text \<open>
  \<open>08-Consistent-Hashing/main.go\<close>. The ring is the sorted slice of points. \<open>sort.Slice\<close> is not
  stable, so the sort is an argument \<open>srt\<close> with the contract \<open>sorts_by\<close>; the binary search of
  \<open>GetNode\<close> is \<open>sort_Search\<close>.
\<close>

record ring_point =
  rp_hash :: u32
  rp_node :: string

record hash_ring =
  hr_replicas :: nat
  hr_ring :: "ring_point list"

definition NewConsistentHashRing :: "int \<Rightarrow> hash_ring" where
  "NewConsistentHashRing replicas =
     \<lparr>hr_replicas = nat (if replicas \<le> 0 then 100 else replicas), hr_ring = []\<rparr>"

definition hr_hash32 :: "string \<Rightarrow> u32" where
  "hr_hash32 s = fnv1a_from 2166136261 s"

definition hr_RemoveNode :: "string \<Rightarrow> hash_ring \<Rightarrow> hash_ring" where
  "hr_RemoveNode node r = r\<lparr>hr_ring := filter (\<lambda>p. rp_node p \<noteq> node) (hr_ring r)\<rparr>"

definition hr_point :: "string \<Rightarrow> nat \<Rightarrow> ring_point" where
  "hr_point node i = \<lparr>rp_hash = hr_hash32 (node @ ''#'' @ decimal i), rp_node = node\<rparr>"

definition hr_AddNode :: "(ring_point list \<Rightarrow> ring_point list) \<Rightarrow> string \<Rightarrow> hash_ring \<Rightarrow> hash_ring" where
  "hr_AddNode srt node r = (let r1 = hr_RemoveNode node r in
     r1\<lparr>hr_ring := srt (hr_ring r1 @ map (hr_point node) [0..<hr_replicas r1])\<rparr>)"

definition hr_GetNode :: "string \<Rightarrow> hash_ring \<Rightarrow> string \<times> bool" where
  "hr_GetNode key r =
     (if length (hr_ring r) = 0 then ('''', False)
      else let hash = hr_hash32 key;
               idx = sort_Search (\<lambda>i. hash \<le> rp_hash (hr_ring r ! i)) 0 (length (hr_ring r))
           in (rp_node (hr_ring r ! (idx mod length (hr_ring r))), True))"

subsection \<open>The first point clockwise\<close>

definition hr_successor :: "u32 \<Rightarrow> ring_point list \<Rightarrow> ring_point" where
  "hr_successor h ps = (case find (\<lambda>p. h \<le> rp_hash p) ps of Some p \<Rightarrow> p | None \<Rightarrow> hd ps)"

lemma hr_GetNode_successor:
  assumes "sorted (map rp_hash (hr_ring r))" "hr_ring r \<noteq> []"
  shows "hr_GetNode key r = (rp_node (hr_successor (hr_hash32 key) (hr_ring r)), True)"
proof -
  let ?ps = "hr_ring r" and ?h = "hr_hash32 key"
  let ?l = "length (takeWhile (\<lambda>p. rp_hash p < ?h) ?ps)"
  have "?ps ! (?l mod length ?ps) = hr_successor ?h ?ps"
  proof (cases "?l < length ?ps")
    case True
    have "?h \<le> rp_hash (?ps ! ?l)" using nth_length_takeWhile [OF True] by (simp add: not_less)
    moreover have "\<not> ?h \<le> rp_hash (?ps ! k)" if "k < ?l" for k
      using that by (metis linorder_not_le nth_mem set_takeWhileD takeWhile_nth)
    ultimately have "find (\<lambda>p. ?h \<le> rp_hash p) ?ps = Some (?ps ! ?l)"
      using True by (auto simp: find_Some_iff)
    then show ?thesis using True by (simp add: hr_successor_def)
  next
    case False
    then have l: "?l = length ?ps" using length_takeWhile_le [of "\<lambda>p. rp_hash p < ?h" ?ps] by simp
    then have "takeWhile (\<lambda>p. rp_hash p < ?h) ?ps = ?ps"
      by (metis takeWhile_eq_take take_all order_refl)
    then have "\<forall>p \<in> set ?ps. \<not> ?h \<le> rp_hash p"
      by (metis linorder_not_le set_takeWhileD)
    then have "find (\<lambda>p. ?h \<le> rp_hash p) ?ps = None" by (simp add: find_None_iff)
    then show ?thesis using l assms(2) by (simp add: hr_successor_def hd_conv_nth)
  qed
  then show ?thesis
    using assms(2) sort_Search_sorted [OF assms(1), of ?h] by (simp add: hr_GetNode_def Let_def)
qed

lemma find_filter_Some: "find P xs = Some x \<Longrightarrow> Q x \<Longrightarrow> find P (filter Q xs) = Some x"
  by (induction xs) (auto split: if_splits)

lemma find_filter_None: "find P xs = None \<Longrightarrow> find P (filter Q xs) = None"
  by (auto simp: find_None_iff)

lemma hr_successor_filter:
  assumes "ps \<noteq> []" "Q (hr_successor h ps)"
  shows "filter Q ps \<noteq> [] \<and> hr_successor h (filter Q ps) = hr_successor h ps"
proof (cases "find (\<lambda>p. h \<le> rp_hash p) ps")
  case None
  then have "Q (hd ps)" using assms(2) by (simp add: hr_successor_def)
  then show ?thesis using assms(1) None find_filter_None [OF None, of Q]
    by (cases ps) (auto simp: hr_successor_def)
next
  case (Some p)
  then have "Q p" using assms(2) by (simp add: hr_successor_def)
  then have "find (\<lambda>p. h \<le> rp_hash p) (filter Q ps) = Some p" using find_filter_Some [OF Some] by simp
  then show ?thesis using Some by (auto simp: hr_successor_def)
qed

subsection \<open>Rings in use\<close>

datatype ring_op = RingAdd string | RingRemove string

fun hr_apply :: "(ring_point list \<Rightarrow> ring_point list) \<Rightarrow> ring_op \<Rightarrow> hash_ring \<Rightarrow> hash_ring" where
  "hr_apply srt (RingAdd n) r = hr_AddNode srt n r"
| "hr_apply srt (RingRemove n) r = hr_RemoveNode n r"

definition hr_members :: "hash_ring \<Rightarrow> string set" where
  "hr_members r = rp_node ` set (hr_ring r)"

definition hr_points_of :: "string \<Rightarrow> ring_point multiset \<Rightarrow> ring_point multiset" where
  "hr_points_of n M = filter_mset (\<lambda>p. rp_node p = n) M"

text \<open>The ring is sorted and holds, for each member, exactly its replica points.\<close>

definition hr_inv :: "hash_ring \<Rightarrow> bool" where
  "hr_inv r \<longleftrightarrow> sorted (map rp_hash (hr_ring r)) \<and> 0 < hr_replicas r \<and>
     (\<forall>n. hr_points_of n (mset (hr_ring r)) \<in> {{#}, mset (map (hr_point n) [0..<hr_replicas r])})"

lemma hr_point_node [simp]: "rp_node (hr_point n i) = n"
  by (simp add: hr_point_def)

lemma hr_points_of_plus: "hr_points_of n (M + N) = hr_points_of n M + hr_points_of n N"
  by (simp add: hr_points_of_def)

lemma hr_points_of_removed:
  "hr_points_of m (mset (hr_ring (hr_RemoveNode n r))) = (if m = n then {#} else hr_points_of m (mset (hr_ring r)))"
  by (rule multiset_eqI) (simp add: hr_points_of_def hr_RemoveNode_def mset_filter)

lemma hr_points_of_new:
  "hr_points_of m (mset (map (hr_point n) [0..<k])) = (if m = n then mset (map (hr_point n) [0..<k]) else {#})"
proof -
  have "hr_points_of m (mset (map (hr_point n) [0..<k])) = mset (filter (\<lambda>p. rp_node p = m) (map (hr_point n) [0..<k]))"
    by (simp add: hr_points_of_def mset_filter)
  also have "filter (\<lambda>p. rp_node p = m) (map (hr_point n) [0..<k]) = (if m = n then map (hr_point n) [0..<k] else [])"
    by (auto simp: filter_map comp_def)
  finally show ?thesis by simp
qed

lemma hr_Remove_inv:
  assumes "hr_inv r"
  shows "hr_inv (hr_RemoveNode n r)"
proof -
  have "sorted (map rp_hash (hr_ring (hr_RemoveNode n r)))"
    using assms by (simp add: hr_inv_def hr_RemoveNode_def sorted_filter)
  then show ?thesis
    using assms unfolding hr_inv_def hr_points_of_removed by (simp add: hr_RemoveNode_def)
qed

lemma hr_Add_inv:
  assumes "sorts_by srt rp_hash" "hr_inv r"
  shows "hr_inv (hr_AddNode srt n r)"
proof -
  let ?old = "hr_ring (hr_RemoveNode n r)" and ?new = "map (hr_point n) [0..<hr_replicas r]"
  have ring: "hr_ring (hr_AddNode srt n r) = srt (?old @ ?new)" "hr_replicas (hr_AddNode srt n r) = hr_replicas r"
    by (simp_all add: hr_AddNode_def hr_RemoveNode_def Let_def)
  have "mset (srt (?old @ ?new)) = mset ?old + mset ?new"
    using sorts_by_mset [OF assms(1)] by simp
  then have "hr_points_of m (mset (srt (?old @ ?new))) \<in> {{#}, mset (map (hr_point m) [0..<hr_replicas r])}" for m
    using assms(2) by (simp only: hr_points_of_plus hr_points_of_removed hr_points_of_new hr_inv_def) simp
  then show ?thesis
    using assms sorts_by_sorted [OF assms(1)] by (simp add: hr_inv_def ring)
qed

lemma hr_run_inv:
  assumes "sorts_by srt rp_hash"
  shows "hr_inv (fold (hr_apply srt) ops (NewConsistentHashRing replicas))"
proof -
  have "hr_inv (fold (hr_apply srt) ops r)" if "hr_inv r" for r
    using that
  proof (induction ops arbitrary: r)
    case (Cons a ops)
    then show ?case by (cases a) (simp_all add: hr_Add_inv [OF assms] hr_Remove_inv)
  qed simp
  then show ?thesis by (simp add: hr_inv_def NewConsistentHashRing_def hr_points_of_def)
qed

text \<open>
  C25. In a ring built by any additions and removals of nodes, every key has an owner as long as a
  node is left, the owner is a member, and removing a node moves only the keys that node owned:
  every other key keeps its owner.
\<close>

theorem hr_remove_moves_only_its_keys:
  fixes ops :: "ring_op list" and replicas :: int
  assumes "sorts_by srt rp_hash"
  defines "r \<equiv> fold (hr_apply srt) ops (NewConsistentHashRing replicas)"
  shows "(snd (hr_GetNode key r) \<longleftrightarrow> hr_members r \<noteq> {}) \<and>
     (snd (hr_GetNode key r) \<longrightarrow> fst (hr_GetNode key r) \<in> hr_members r) \<and>
     (fst (hr_GetNode key r) \<noteq> n \<longrightarrow> hr_GetNode key (hr_RemoveNode n r) = hr_GetNode key r) \<and>
     n \<notin> hr_members (hr_RemoveNode n r)"
proof (cases "hr_ring r = []")
  case True
  then show ?thesis by (simp add: hr_GetNode_def hr_members_def hr_RemoveNode_def)
next
  case False
  let ?s = "hr_successor (hr_hash32 key) (hr_ring r)"
  have inv: "hr_inv r" unfolding r_def by (rule hr_run_inv [OF assms(1)])
  have get: "hr_GetNode key r = (rp_node ?s, True)"
    using inv False by (intro hr_GetNode_successor) (simp_all add: hr_inv_def)
  have "?s \<in> set (hr_ring r)"
    using False by (auto simp: hr_successor_def find_Some_iff split: option.split)
  moreover have "hr_GetNode key (hr_RemoveNode n r) = hr_GetNode key r" if "rp_node ?s \<noteq> n"
  proof -
    have f: "filter (\<lambda>p. rp_node p \<noteq> n) (hr_ring r) \<noteq> []"
      "hr_successor (hr_hash32 key) (filter (\<lambda>p. rp_node p \<noteq> n) (hr_ring r)) = ?s"
      using hr_successor_filter [of "hr_ring r" "\<lambda>p. rp_node p \<noteq> n", OF False that] by auto
    have "hr_GetNode key (hr_RemoveNode n r) =
        (rp_node (hr_successor (hr_hash32 key) (hr_ring (hr_RemoveNode n r))), True)"
      using hr_Remove_inv [OF inv] f(1)
      by (intro hr_GetNode_successor) (simp_all add: hr_inv_def hr_RemoveNode_def)
    then show ?thesis using f(2) get by (simp add: hr_RemoveNode_def)
  qed
  ultimately show ?thesis using get False by (auto simp: hr_members_def hr_RemoveNode_def)
qed

theorem hr_remove_moves_only_its_keys_witness:
  "let r = fold (hr_apply (sort_key rp_hash)) [RingAdd ''a'', RingAdd ''b''] (NewConsistentHashRing 2)
   in ''a'' \<notin> hr_members (hr_RemoveNode ''a'' r) \<and> (snd (hr_GetNode ''user'' r) \<longleftrightarrow> hr_members r \<noteq> {})"
  using hr_remove_moves_only_its_keys [OF sorts_by_sort_key, of "''user''" "[RingAdd ''a'', RingAdd ''b'']" 2 "''a''"]
  unfolding Let_def by blast

end
