(* ===== verification/Go_Float.thy ===== *)
theory Go_Float
  imports Complex_Main "HOL-Library.Log_Nat"
begin

text \<open>
  Go's \<open>float64\<close>: IEEE 754 double precision, rounding to nearest and ties to even. A value is NaN, an
  infinity or a real number; every operation is the exact one on the reals followed by \<open>f_round\<close>. The two zeros
  are one value here: the programs divide by no zero and print no zero that could be negative. Operations
  are not fused, as on amd64.

  The lemmas bound the rounding error, name the numbers that are not rounded, and show that rounding
  respects the order.
\<close>

datatype f64 = NaN | FInf bool | Fin real

text \<open>\<open>FInf True\<close> is minus infinity.\<close>

subsection \<open>Rounding\<close>

text \<open>The nearest integer, the even one if there are two.\<close>

definition round_even :: "real \<Rightarrow> int" where
  "round_even z = (let r = z - of_int \<lfloor>z\<rfloor> in if r < 1 / 2 \<or> r = 1 / 2 \<and> even \<lfloor>z\<rfloor> then \<lfloor>z\<rfloor> else \<lfloor>z\<rfloor> + 1)"

text \<open>The least positive double, and the least number that overflows after rounding.\<close>

definition f_unit :: real where
  "f_unit = 1 / 2 ^ 1074"

definition f_over :: real where
  "f_over = 2 ^ 1024"

text \<open>
  A number \<open>z\<close> of units, not negative, is rounded to a multiple of a power of 2 that leaves 53 binary digits (1 if
  there are no more than those).
\<close>

definition f_ulp :: "real \<Rightarrow> nat" where
  "f_ulp z = 2 ^ (floorlog 2 (nat \<lfloor>z\<rfloor>) - 53)"

definition f_digits :: "real \<Rightarrow> real" where
  "f_digits z = of_int (round_even (z / real (f_ulp z))) * real (f_ulp z)"

definition f_round :: "real \<Rightarrow> f64" where
  "f_round x = (let y = f_digits (\<bar>x\<bar> / f_unit) * f_unit in
     if f_over \<le> y then FInf (x < 0) else Fin (if x < 0 then - y else y))"

subsection \<open>Operations\<close>

fun f_neg :: "f64 \<Rightarrow> f64" where
  "f_neg NaN = NaN" | "f_neg (FInf s) = FInf (\<not> s)" | "f_neg (Fin a) = Fin (- a)"

fun f_add :: "f64 \<Rightarrow> f64 \<Rightarrow> f64" where
  "f_add (Fin a) (Fin b) = f_round (a + b)"
| "f_add (FInf s) (FInf t) = (if s = t then FInf s else NaN)"
| "f_add (FInf s) (Fin b) = FInf s"
| "f_add (Fin a) (FInf t) = FInf t"
| "f_add _ _ = NaN"

definition f_sub :: "f64 \<Rightarrow> f64 \<Rightarrow> f64" where
  "f_sub x y = f_add x (f_neg y)"

fun f_mul :: "f64 \<Rightarrow> f64 \<Rightarrow> f64" where
  "f_mul (Fin a) (Fin b) = f_round (a * b)"
| "f_mul (FInf s) (FInf t) = FInf (s \<noteq> t)"
| "f_mul (FInf s) (Fin b) = (if b = 0 then NaN else FInf (s \<noteq> (b < 0)))"
| "f_mul (Fin a) (FInf t) = (if a = 0 then NaN else FInf (t \<noteq> (a < 0)))"
| "f_mul _ _ = NaN"

fun f_div :: "f64 \<Rightarrow> f64 \<Rightarrow> f64" where
  "f_div (Fin a) (Fin b) = (if b = 0 then (if a = 0 then NaN else FInf (a < 0)) else f_round (a / b))"
| "f_div (FInf s) (FInf t) = NaN"
| "f_div (FInf s) (Fin b) = FInf (s \<noteq> (b < 0))"
| "f_div (Fin a) (FInf t) = Fin 0"
| "f_div _ _ = NaN"

fun f_sqrt :: "f64 \<Rightarrow> f64" where
  "f_sqrt (Fin a) = (if a < 0 then NaN else f_round (sqrt a))"
| "f_sqrt (FInf s) = (if s then NaN else FInf False)"
| "f_sqrt NaN = NaN"

text \<open>Comparisons are false as soon as one side is NaN.\<close>

fun f_less :: "f64 \<Rightarrow> f64 \<Rightarrow> bool" where
  "f_less (Fin a) (Fin b) = (a < b)"
| "f_less (FInf s) (FInf t) = (s \<and> \<not> t)"
| "f_less (FInf s) (Fin b) = s"
| "f_less (Fin a) (FInf t) = (\<not> t)"
| "f_less _ _ = False"

fun f_le :: "f64 \<Rightarrow> f64 \<Rightarrow> bool" where
  "f_le (Fin a) (Fin b) = (a \<le> b)"
| "f_le (FInf s) (FInf t) = (s \<or> \<not> t)"
| "f_le (FInf s) (Fin b) = s"
| "f_le (Fin a) (FInf t) = (\<not> t)"
| "f_le _ _ = False"

text \<open>\<open>float64(n)\<close> for an integer; a constant of the source is rounded too.\<close>

definition f_of_int :: "int \<Rightarrow> f64" where
  "f_of_int n = f_round (of_int n)"

text \<open>
  \<open>int64(x)\<close> drops the fraction. If the result does not fit (also for NaN) it depends on the implementation of the
  language, so that is an argument.
\<close>

definition go_truncate :: "real \<Rightarrow> int" where
  "go_truncate x = (if x < 0 then \<lceil>x\<rceil> else \<lfloor>x\<rfloor>)"

definition f_to_int64 :: "(f64 \<Rightarrow> int) \<Rightarrow> f64 \<Rightarrow> int" where
  "f_to_int64 other x = (case x of
     Fin r \<Rightarrow> if - (2 ^ 63) \<le> go_truncate r \<and> go_truncate r < 2 ^ 63 then go_truncate r else other x
   | _ \<Rightarrow> other x)"

text \<open>The real number that a finite value is.\<close>

definition f_value :: "f64 \<Rightarrow> real" where
  "f_value x = (case x of Fin a \<Rightarrow> a | _ \<Rightarrow> 0)"

subsection \<open>Rounding to an integer\<close>

lemma round_even_error: "\<bar>of_int (round_even z) - z\<bar> \<le> 1 / 2"
  unfolding round_even_def Let_def by (auto simp: abs_le_iff)

lemma round_even_int [simp]: "round_even (of_int n) = n"
  by (simp add: round_even_def)

lemma round_even_nat [simp]: "round_even (real n) = int n"
  using round_even_int [of "int n"] by simp

lemma round_even_0 [simp]: "round_even 0 = 0"
  using round_even_int [of 0] by simp

lemma round_even_less: "of_int n < z \<Longrightarrow> n \<le> round_even z" "z < of_int n \<Longrightarrow> round_even z \<le> n"
  unfolding round_even_def Let_def by (auto split: if_splits) linarith+

lemma round_even_mono:
  assumes "x \<le> y"
  shows "round_even x \<le> round_even y"
proof (cases "\<lfloor>x\<rfloor> = \<lfloor>y\<rfloor>")
  case True
  then show ?thesis using assms by (auto simp: round_even_def Let_def)
next
  case False
  then have "\<lfloor>x\<rfloor> < \<lfloor>y\<rfloor>" using floor_mono [OF assms] by simp
  then show ?thesis by (auto simp: round_even_def Let_def)
qed

subsection \<open>The rounding error\<close>

lemma f_unit_pos [simp]: "0 < f_unit" "0 \<le> f_unit" "f_unit \<noteq> 0"
  by (simp_all add: f_unit_def)

lemma f_ulp_pos [simp]: "0 < f_ulp z"
  by (simp add: f_ulp_def)

lemma f_ulp_le:
  assumes "0 \<le> z"
  shows "real (f_ulp z) \<le> max 1 (z / 2 ^ 52)"
proof (cases "floorlog 2 (nat \<lfloor>z\<rfloor>) \<le> 53")
  case True
  then show ?thesis by (simp add: f_ulp_def)
next
  case False
  let ?n = "nat \<lfloor>z\<rfloor>" let ?b = "floorlog 2 ?n"
  have "0 < ?n" using False by (auto simp: floorlog_def split: if_splits)
  then have "2 ^ (?b - 1) \<le> ?n" using floorlog_bounds [of ?n 2] by simp
  moreover have "?b - 1 = (?b - 53) + 52" using False by linarith
  ultimately have "f_ulp z * 2 ^ 52 \<le> ?n" by (simp only: f_ulp_def power_add)
  then have "real (f_ulp z * 2 ^ 52) \<le> real ?n" by (rule of_nat_mono)
  also have "\<dots> \<le> z" using assms by simp
  finally have "real (f_ulp z) \<le> z / 2 ^ 52" by (simp add: field_simps)
  then show ?thesis by simp
qed

lemma f_digits_error:
  assumes "0 \<le> z"
  shows "\<bar>f_digits z - z\<bar> \<le> max (1 / 2) (z / 2 ^ 53)"
proof -
  let ?q = "real (f_ulp z)"
  have q: "0 < ?q" by simp
  have "f_digits z - z = (of_int (round_even (z / ?q)) - z / ?q) * ?q"
    using q by (simp add: f_digits_def left_diff_distrib)
  then have "\<bar>f_digits z - z\<bar> = \<bar>of_int (round_even (z / ?q)) - z / ?q\<bar> * ?q" using q by (simp only: abs_mult abs_of_pos)
  also have "\<dots> \<le> 1 / 2 * ?q" by (intro mult_right_mono round_even_error) simp
  also have "\<dots> \<le> max (1 / 2) (z / 2 ^ 53)" using f_ulp_le [OF assms] by (simp add: max_def split: if_splits)
  finally show ?thesis .
qed

lemma f_digits_nonneg: "0 \<le> z \<Longrightarrow> 0 \<le> f_digits z"
  using round_even_mono [of 0 "z / real (f_ulp z)"] by (simp add: f_digits_def zero_le_mult_iff)

text \<open>The absolute value of a rounded number, before the test for an overflow.\<close>

definition f_abs :: "real \<Rightarrow> real" where
  "f_abs x = f_digits (\<bar>x\<bar> / f_unit) * f_unit"

lemma f_round_alt: "f_round x = (if f_over \<le> f_abs x then FInf (x < 0) else Fin (if x < 0 then - f_abs x else f_abs x))"
  by (simp add: f_round_def f_abs_def Let_def)

lemma f_abs_nonneg: "0 \<le> f_abs x"
  by (simp add: f_abs_def f_digits_nonneg)

lemma f_abs_error: "\<bar>f_abs x - \<bar>x\<bar>\<bar> \<le> max (f_unit / 2) (\<bar>x\<bar> / 2 ^ 53)"
proof -
  let ?z = "\<bar>x\<bar> / f_unit"
  have "f_abs x - \<bar>x\<bar> = (f_digits ?z - ?z) * f_unit" by (simp add: f_abs_def left_diff_distrib)
  then have "\<bar>f_abs x - \<bar>x\<bar>\<bar> = \<bar>f_digits ?z - ?z\<bar> * f_unit" by (simp add: abs_mult)
  also have "\<dots> \<le> max (1 / 2) (?z / 2 ^ 53) * f_unit" by (intro mult_right_mono f_digits_error) simp_all
  also have "\<dots> = max (f_unit / 2) (\<bar>x\<bar> / 2 ^ 53)"
    by (simp add: max_def divide_simps)
  finally show ?thesis .
qed

lemma f_round_error: "f_round x = Fin y \<Longrightarrow> \<bar>y - x\<bar> \<le> max (f_unit / 2) (\<bar>x\<bar> / 2 ^ 53)"
  using f_abs_error [of x] by (auto simp: f_round_alt split: if_splits)

lemma f_round_sign: "f_round x = Fin y \<Longrightarrow> 0 \<le> x \<Longrightarrow> 0 \<le> y" "f_round x = Fin y \<Longrightarrow> x \<le> 0 \<Longrightarrow> y \<le> 0"
  using f_abs_nonneg [of x] by (auto simp: f_round_alt f_abs_def f_digits_def split: if_splits)

lemma f_round_not_NaN [simp]: "f_round x \<noteq> NaN" "NaN \<noteq> f_round x"
  by (simp_all add: f_round_alt)

text \<open>An overflow needs a number beyond \<open>2 ^ 1023\<close>.\<close>

definition f_big :: real where
  "f_big = 2 ^ 1023"

lemma f_over_big: "f_over = 2 * f_big"
  using power_Suc [of "2 :: real" 1023] by (simp add: f_over_def f_big_def)

lemma f_big_ge: "n \<le> 1023 \<Longrightarrow> 2 ^ n \<le> f_big"
  unfolding f_big_def by (rule power_increasing) simp_all

lemma f_unit_le: "n \<le> 1074 \<Longrightarrow> f_unit \<le> 1 / 2 ^ n"
  unfolding f_unit_def by (rule frac_le, simp, simp, simp, rule power_increasing, simp, simp)

lemma f_round_finite:
  assumes "\<bar>x\<bar> \<le> f_big"
  shows "\<exists>y. f_round x = Fin y"
proof -
  have "max (f_unit / 2) (\<bar>x\<bar> / 2 ^ 53) < f_big"
    using f_unit_le [of 0] f_big_ge [of 0] assms by simp
  then have "f_abs x < f_over" using f_abs_error [of x] assms unfolding f_over_big by linarith
  then show ?thesis by (simp add: f_round_alt)
qed

lemma f_round_overflow: "f_round x = FInf s \<Longrightarrow> s = (x < 0) \<and> f_big < \<bar>x\<bar>"
  using f_round_finite [of x] by (cases "\<bar>x\<bar> \<le> f_big") (auto simp: f_round_alt split: if_splits)

subsection \<open>Numbers that are not rounded\<close>

definition f_exact :: "real \<Rightarrow> bool" where
  "f_exact x \<longleftrightarrow> \<bar>x\<bar> < f_over \<and> (\<exists>m k. m \<le> 2 ^ 53 \<and> \<bar>x\<bar> = real (m * 2 ^ k) * f_unit)"

lemma f_ulp_nat: "f_ulp (real n) = 2 ^ (floorlog 2 n - 53)"
  by (simp add: f_ulp_def)

lemma f_ulp_dvd:
  assumes "m \<le> 2 ^ 53"
  shows "f_ulp (real (m * 2 ^ k)) dvd m * 2 ^ k"
proof -
  consider "m = 0" | "m = 2 ^ 53" | "0 < m" "m < 2 ^ 53" using assms by linarith
  then show ?thesis
  proof cases
    case 2
    have "floorlog 2 (1 * 2 ^ (53 + k)) = floorlog 2 1 + (53 + k)" by (rule floorlog_power) simp_all
    moreover have "floorlog 2 1 = 1" by (simp add: floorlog_def)
    ultimately have "floorlog 2 (m * 2 ^ k) - 53 = Suc k" unfolding 2 by (simp only: power_add mult_1)
    moreover have "m * 2 ^ k = 2 ^ Suc k * 2 ^ 52" unfolding 2 by (simp only: power_add [symmetric]) simp
    ultimately show ?thesis unfolding f_ulp_nat by (simp only: dvd_triv_left)
  next
    case 3
    have "floorlog 2 m \<le> 53" using 3(2) by (intro floorlog_leI) simp_all
    then have "floorlog 2 (m * 2 ^ k) - 53 \<le> k" using 3(1) by (simp add: floorlog_power)
    then show ?thesis unfolding f_ulp_nat by (intro dvd_mult le_imp_power_dvd)
  qed simp
qed

lemma f_digits_exact:
  assumes "m \<le> 2 ^ 53"
  shows "f_digits (real (m * 2 ^ k)) = real (m * 2 ^ k)"
proof -
  let ?n = "m * 2 ^ k" let ?q = "f_ulp (real ?n)"
  obtain t where t: "?n = ?q * t" using f_ulp_dvd [OF assms] by (auto elim: dvdE)
  have "real ?n = real ?q * real t" using t by (metis of_nat_mult)
  moreover have "real ?q \<noteq> 0" by (simp del: of_nat_mult)
  ultimately have "real ?n / real ?q = real t" by (metis nonzero_mult_div_cancel_left)
  then have "f_digits (real ?n) = real t * real ?q" by (simp only: f_digits_def round_even_nat of_int_of_nat_eq)
  then show ?thesis using \<open>real ?n = real ?q * real t\<close> by (simp only: mult.commute)
qed

lemma f_round_exact: "f_exact x \<Longrightarrow> f_round x = Fin x"
proof -
  assume x: "f_exact x"
  then obtain m k where m: "m \<le> 2 ^ 53" "\<bar>x\<bar> = real (m * 2 ^ k) * f_unit" by (auto simp: f_exact_def)
  then have "\<bar>x\<bar> / f_unit = real (m * 2 ^ k)" by simp
  then have "f_abs x = \<bar>x\<bar>" using m by (simp only: f_abs_def f_digits_exact)
  then show ?thesis using x by (auto simp: f_round_alt f_exact_def)
qed

lemma f_exact_power:
  assumes "\<bar>n\<bar> \<le> 2 ^ 53" "j \<le> 1074"
  shows "f_exact (of_int n / 2 ^ j)"
proof -
  have "\<bar>of_int n / 2 ^ j\<bar> = real (nat \<bar>n\<bar>) / 2 ^ j" by (simp add: abs_divide)
  also have "\<dots> = real (nat \<bar>n\<bar>) * 2 ^ (1074 - j) * f_unit"
  proof -
    have "(2 :: real) ^ 1074 = 2 ^ (1074 - j) * 2 ^ j" unfolding power_add [symmetric] using assms(2) by (simp only: le_add_diff_inverse2)
    then show ?thesis unfolding f_unit_def by (simp only:) (simp add: field_simps)
  qed
  finally have eq: "\<bar>of_int n / 2 ^ j\<bar> = real (nat \<bar>n\<bar> * 2 ^ (1074 - j)) * f_unit" by (simp only: of_nat_mult of_nat_power of_nat_numeral)
  have "\<bar>of_int n / 2 ^ j\<bar> \<le> real (nat \<bar>n\<bar>)" by (simp add: abs_divide divide_le_eq mult_le_cancel_left1)
  also have "\<dots> \<le> 2 ^ 53" using assms(1) by (metis of_int_abs of_int_le_numeral_power_cancel_iff of_nat_nat abs_ge_zero of_int_of_nat_eq)
  also have "\<dots> \<le> f_big" by (rule f_big_ge) simp
  also have "\<dots> < f_over" using f_big_ge [of 0] by (simp add: f_over_big)
  finally have "\<bar>of_int n / 2 ^ j\<bar> < f_over" .
  moreover have "nat \<bar>n\<bar> \<le> 2 ^ 53" using assms(1) by (simp add: nat_le_iff)
  ultimately show ?thesis using eq unfolding f_exact_def by blast
qed

lemma f_exact_int: "\<bar>n\<bar> \<le> 2 ^ 53 \<Longrightarrow> f_exact (of_int n)"
  using f_exact_power [of n 0] by simp

lemma f_of_int_exact: "\<bar>n\<bar> \<le> 2 ^ 53 \<Longrightarrow> f_of_int n = Fin (of_int n)"
  by (simp only: f_of_int_def f_round_exact f_exact_int)

lemma f_round_int [simp]:
  "f_round 0 = Fin 0" "f_round 1 = Fin 1" "numeral w \<le> (2 ^ 53 :: int) \<Longrightarrow> f_round (numeral w) = Fin (numeral w)"
  using f_round_exact [OF f_exact_int [of 0]] f_round_exact [OF f_exact_int [of 1]] f_round_exact [OF f_exact_int [of "numeral w"]] by simp_all

text \<open>Rounding does not go beyond a number that is not rounded.\<close>

lemma f_digits_le:
  assumes "z \<le> real (m * 2 ^ k)" "m \<le> 2 ^ 53"
  shows "f_digits z \<le> real (m * 2 ^ k)"
proof -
  let ?n = "m * 2 ^ k" and ?q = "f_ulp z"
  have "nat \<lfloor>z\<rfloor> \<le> ?n" using floor_mono [OF assms(1)] by (simp only: nat_le_iff floor_of_nat)
  then have "?q dvd f_ulp (real ?n)"
    unfolding f_ulp_def by (intro le_imp_power_dvd diff_le_mono floorlog_mono) (simp only: floor_of_nat nat_int)
  then obtain t where t: "?n = ?q * t" using f_ulp_dvd [OF assms(2), of k] by (metis dvd_trans dvdE)
  have n: "real ?n = real ?q * real t" using t by (metis of_nat_mult)
  have "z / real ?q \<le> real t" using assms(1) unfolding n by (simp add: pos_divide_le_eq mult.commute)
  then have "round_even (z / real ?q) \<le> int t" using round_even_mono by fastforce
  then have "of_int (round_even (z / real ?q)) \<le> real t" by linarith
  then show ?thesis unfolding f_digits_def n by (simp add: mult.commute)
qed

lemma f_round_le:
  assumes "f_round x = Fin y" "x \<le> c" "f_exact c" "0 \<le> c"
  shows "y \<le> c"
proof (cases "x < 0")
  case True
  then show ?thesis using f_round_sign(2) [OF assms(1)] assms(4) by linarith
next
  case False
  obtain m k where m: "m \<le> 2 ^ 53" "c = real (m * 2 ^ k) * f_unit" using assms(3,4) by (auto simp: f_exact_def)
  have "\<bar>x\<bar> / f_unit \<le> real (m * 2 ^ k)" using assms(2) False unfolding m(2) by (simp only: pos_divide_le_eq f_unit_pos abs_of_nonneg not_less)
  then have "f_digits (\<bar>x\<bar> / f_unit) * f_unit \<le> c" unfolding m(2) by (intro mult_right_mono f_digits_le m(1)) simp_all
  then show ?thesis using assms(1) False by (auto simp: f_round_alt f_abs_def split: if_splits)
qed

text \<open>The value of a rounding, given its 53 digits.\<close>

lemma f_round_value:
  assumes "\<bar>x * 2 ^ j - real m\<bar> < 1 / 2" "2 ^ 52 \<le> x * 2 ^ j" "m < 2 ^ 53" "j \<le> 1074"
  shows "f_round x = Fin (real m / 2 ^ j)"
proof -
  define k where "k = 1074 - j"
  let ?z = "\<bar>x\<bar> / f_unit" and ?y = "x * 2 ^ j"
  have j: "(2 :: real) ^ 1074 = 2 ^ j * 2 ^ k" unfolding power_add [symmetric] using assms(4) by (simp only: k_def le_add_diff_inverse)
  have "real m + 1 \<le> real (2 ^ 53)" using assms(3) by linarith
  then have m: "real m \<le> 2 ^ 53 - 1" by simp
  have y: "2 ^ 52 \<le> ?y" "?y < 2 ^ 53" using assms(1,2) m by (simp_all only: abs_less_iff) linarith
  have "0 < ?y" by (rule less_le_trans [OF _ y(1)]) simp
  then have pos: "0 < x" by (simp add: zero_less_mult_iff)
  have z: "?z = ?y * 2 ^ k" unfolding f_unit_def j using pos by (simp only: abs_of_pos) simp
  have "2 ^ (52 + k) \<le> nat \<lfloor>?z\<rfloor>"
  proof -
    have "(2 :: real) ^ 52 * 2 ^ k \<le> ?y * 2 ^ k" using y(1) by (intro mult_right_mono) (simp_all only: zero_le_power zero_le_numeral)
    then have "real_of_int (2 ^ (52 + k)) \<le> ?z" unfolding z by (simp only: of_int_power of_int_numeral of_int_mult power_add)
    then show ?thesis by (simp only: le_floor_iff [symmetric]) (simp add: le_nat_iff)
  qed
  moreover have "nat \<lfloor>?z\<rfloor> < 2 ^ (53 + k)"
  proof -
    have "?y * 2 ^ k < (2 :: real) ^ 53 * 2 ^ k" using y(2) by (intro mult_strict_right_mono) (simp_all only: zero_less_power zero_less_numeral)
    then have "?z < real_of_int (2 ^ (53 + k))" unfolding z by (simp only: of_int_power of_int_numeral of_int_mult power_add)
    then show ?thesis by (simp only: floor_less_iff [symmetric]) (simp add: nat_less_iff)
  qed
  ultimately have "floorlog 2 (nat \<lfloor>?z\<rfloor>) = 53 + k"
    using floorlog_leI [of "nat \<lfloor>?z\<rfloor>" 2 "53 + k"] floorlog_geI [of 2 "53 + k" "nat \<lfloor>?z\<rfloor>"] by simp
  then have ulp: "real (f_ulp ?z) = 2 ^ k" by (simp add: f_ulp_def)
  have "round_even ?y = int m"
    using assms(1) round_even_error [of ?y] by (simp only: abs_less_iff abs_le_iff) linarith
  then have "f_digits ?z = real m * 2 ^ k" unfolding f_digits_def ulp unfolding z by simp
  then have abs: "f_abs x = real m / 2 ^ j" unfolding f_abs_def f_unit_def j by simp
  have "real m / 2 ^ j \<le> real m" by (simp add: divide_le_eq mult_le_cancel_left1)
  also have "\<dots> \<le> 2 ^ 53" using m(1) by linarith
  also have "\<dots> \<le> f_big" by (rule f_big_ge) simp
  also have "\<dots> < f_over" using f_big_ge [of 0] by (simp add: f_over_big)
  finally have "f_abs x < f_over" unfolding abs .
  then show ?thesis using pos unfolding f_round_alt abs by simp
qed

text \<open>The relative error, for numbers that are not tiny.\<close>

lemma f_round_rel:
  assumes "f_round x = Fin y" "x = 0 \<or> 1 / 2 ^ 900 \<le> \<bar>x\<bar>"
  shows "\<bar>y - x\<bar> \<le> \<bar>x\<bar> / 2 ^ 53"
proof -
  have "f_unit / 2 \<le> \<bar>x\<bar> / 2 ^ 53" if "1 / 2 ^ 900 \<le> \<bar>x\<bar>"
  proof -
    have "f_unit \<le> 1 / 2 ^ 953" by (rule f_unit_le) simp
    also have "\<dots> = 1 / 2 ^ 900 / 2 ^ 53"
    proof -
      have "(2 :: real) ^ 953 = 2 ^ 900 * 2 ^ 53" unfolding power_add [symmetric] by (rule arg_cong) simp
      then show ?thesis by (simp only: divide_divide_eq_left)
    qed
    also have "\<dots> \<le> \<bar>x\<bar> / 2 ^ 53" using that by (intro divide_right_mono) simp_all
    finally show ?thesis using f_unit_pos(1) by linarith
  qed
  then show ?thesis using f_round_error [OF assms(1)] assms by (cases "x = 0") auto
qed

lemma f_round_upper:
  assumes "f_round x = Fin y" "0 \<le> x"
  shows "y \<le> x + x / 2 ^ 53 + f_unit"
proof -
  have "\<bar>y - x\<bar> \<le> max (f_unit / 2) (x / 2 ^ 53)" using f_round_error [OF assms(1)] assms(2) by (simp only: abs_of_nonneg)
  also have "\<dots> \<le> x / 2 ^ 53 + f_unit" using assms(2) f_unit_pos(1) by (intro max.boundedI) simp_all
  finally show ?thesis by (simp only: abs_le_iff) linarith
qed

text \<open>A rounded number is not rounded again.\<close>

lemma f_digits_form:
  assumes "0 \<le> z"
  shows "\<exists>m k. m \<le> 2 ^ 53 \<and> f_digits z = real (m * 2 ^ k)"
proof -
  let ?q = "f_ulp z" and ?b = "floorlog 2 (nat \<lfloor>z\<rfloor>)"
  define r where "r = round_even (z / real ?q)"
  have "z < real (2 ^ 53 * ?q)"
  proof -
    have "nat \<lfloor>z\<rfloor> < 2 ^ ?b" using floorlog_bounds [of "nat \<lfloor>z\<rfloor>" 2] by (cases "nat \<lfloor>z\<rfloor> = 0") (auto simp: floorlog_def)
    also have "2 ^ ?b \<le> 2 ^ 53 * ?q" unfolding f_ulp_def power_add [symmetric] by (rule power_increasing) simp_all
    finally have "nat \<lfloor>z\<rfloor> < 2 ^ 53 * ?q" .
    then have "\<lfloor>z\<rfloor> < int (2 ^ 53 * ?q)" using assms by (metis nat_less_iff zero_le_floor)
    then show ?thesis by (simp only: floor_less_iff of_int_of_nat_eq)
  qed
  then have "z / real ?q \<le> of_int (2 ^ 53)" by (simp add: pos_divide_le_eq)
  then have "r \<le> 2 ^ 53" using round_even_mono [of "z / real ?q" "of_int (2 ^ 53)"] by (simp only: r_def round_even_int)
  moreover have "0 \<le> r" using round_even_mono [of 0 "z / real ?q"] assms by (simp add: r_def)
  moreover have "f_digits z = of_int r * real ?q" by (simp only: f_digits_def r_def)
  moreover have "real ?q = real (2 ^ (?b - 53))" by (simp only: f_ulp_def)
  ultimately have "nat r \<le> 2 ^ 53" "f_digits z = real (nat r * 2 ^ (?b - 53))" by (simp_all add: nat_le_iff)
  then show ?thesis by blast
qed

lemma f_round_is_exact:
  assumes "f_round x = Fin y"
  shows "f_exact y"
proof -
  obtain m k where m: "m \<le> 2 ^ 53" "f_digits (\<bar>x\<bar> / f_unit) = real (m * 2 ^ k)" using f_digits_form [of "\<bar>x\<bar> / f_unit"] by auto
  have "\<bar>y\<bar> = f_abs x" "f_abs x < f_over" using assms f_abs_nonneg [of x] by (auto simp: f_round_alt split: if_splits)
  then show ?thesis using m unfolding f_exact_def f_abs_def by (metis)
qed

lemma f_round_ge_1:
  assumes "f_round x = Fin y" "1 \<le> x"
  shows "1 \<le> y"
proof -
  let ?z = "\<bar>x\<bar> / f_unit"
  define b where "b = floorlog 2 (nat \<lfloor>?z\<rfloor>) - 53"
  have q: "real (f_ulp ?z) = 2 ^ b" by (simp add: f_ulp_def b_def)
  have "2 ^ b \<le> max 1 (?z / 2 ^ 52)" using f_ulp_le [of ?z] unfolding q by simp
  have one: "1 / f_unit = 2 ^ 1074" by (simp only: f_unit_def) simp
  have z: "2 ^ 1074 \<le> ?z" using assms(2) by (simp only: one [symmetric]) (intro divide_right_mono, simp_all)
  show ?thesis
  proof (cases "b \<le> 1074")
    case True
    then have e: "(2 :: real) ^ 1074 = 2 ^ (1074 - b) * 2 ^ b" unfolding power_add [symmetric] by (simp only: le_add_diff_inverse2)
    have "of_int (2 ^ (1074 - b)) \<le> ?z / 2 ^ b" using z unfolding e by (simp only: pos_le_divide_eq zero_less_power zero_less_numeral of_int_power of_int_numeral)
    then have "2 ^ (1074 - b) \<le> round_even (?z / 2 ^ b)" using round_even_mono [of "of_int (2 ^ (1074 - b))"] by (simp only: round_even_int)
    then have "of_int (2 ^ (1074 - b)) \<le> real_of_int (round_even (?z / 2 ^ b))" by (simp only: of_int_le_iff)
    then have "2 ^ (1074 - b) * 2 ^ b \<le> real_of_int (round_even (?z / 2 ^ b)) * 2 ^ b"
      by (intro mult_right_mono) (simp_all only: of_int_power of_int_numeral zero_le_power zero_le_numeral)
    then have "2 ^ 1074 \<le> f_digits ?z" unfolding f_digits_def q e .
    then have "1 / f_unit * f_unit \<le> f_digits ?z * f_unit" unfolding one by (rule mult_right_mono) simp
    then have "1 \<le> f_abs x" by (simp add: f_abs_def)
    then show ?thesis using assms by (auto simp: f_round_alt split: if_splits)
  next
    case False
    have "f_digits ?z = real_of_int (round_even (?z / 2 ^ b)) * 2 ^ b" by (simp only: f_digits_def q)
    have "\<bar>y - x\<bar> \<le> max (f_unit / 2) (\<bar>x\<bar> / 2 ^ 53)" by (rule f_round_error [OF assms(1)])
    moreover have "1 < x / 2"
    proof -
      have "(2 :: real) ^ 1075 \<le> 2 ^ b" using False by (intro power_increasing) simp_all
      moreover have "(1 :: real) < 2 ^ 1075" by (rule one_less_power) simp_all
      ultimately have "2 ^ 1075 \<le> ?z / 2 ^ 52" using \<open>2 ^ b \<le> max 1 (?z / 2 ^ 52)\<close> by linarith
      moreover have "?z / 2 ^ 52 < ?z / 2" using z zero_less_power [of "2 :: real" 1074] by (intro divide_strict_left_mono) (auto intro: less_le_trans)
      ultimately have "2 ^ 1075 < ?z / 2" by linarith
      moreover have "(2 :: real) ^ 1075 = 2 * 2 ^ 1074" using power_Suc [of "2 :: real" 1074] by simp
      ultimately have "2 * (1 / f_unit) < ?z / 2" unfolding one by (simp only:)
      then show ?thesis using assms(2) by (simp add: field_simps)
    qed
    moreover have "f_unit / 2 < 1" using f_unit_le [of 0] by simp
    ultimately show ?thesis using assms(2) by (simp add: max_def abs_le_iff split: if_splits)
  qed
qed

subsection \<open>Comparisons of numbers\<close>

lemma f_not_less: "x \<noteq> NaN \<Longrightarrow> y \<noteq> NaN \<Longrightarrow> \<not> f_less x y \<longleftrightarrow> f_le y x"
  by (cases x; cases y) auto

lemma f_less_imp_le: "f_less x y \<Longrightarrow> f_le x y"
  by (cases x; cases y) auto

lemma f_le_refl: "x \<noteq> NaN \<Longrightarrow> f_le x x"
  by (cases x) auto

lemma f_le_less_trans: "f_le x y \<Longrightarrow> f_less y z \<Longrightarrow> f_less x z"
  by (cases x; cases y; cases z) auto

lemma f_less_le_trans: "f_less x y \<Longrightarrow> f_le y z \<Longrightarrow> f_less x z"
  by (cases x; cases y; cases z) auto

subsection \<open>Approximations\<close>

text \<open>A float64 that is within \<open>e\<close> of a real number.\<close>

definition near :: "f64 \<Rightarrow> real \<Rightarrow> real \<Rightarrow> bool" where
  "near x r e \<longleftrightarrow> (\<exists>y. x = Fin y \<and> \<bar>y - r\<bar> \<le> e)"

lemma near_weaken: "near x r e \<Longrightarrow> e \<le> e' \<Longrightarrow> near x r e'"
  unfolding near_def using order_trans by blast

lemma near_trans: "near x s d \<Longrightarrow> \<bar>s - r\<bar> \<le> e \<Longrightarrow> d + e \<le> e' \<Longrightarrow> near x r e'"
  unfolding near_def by (elim exE conjE, intro exI conjI, assumption) linarith

lemma near_round:
  assumes "\<bar>z - r\<bar> \<le> e" "\<bar>z\<bar> \<le> B" "1 \<le> B" "B \<le> 2 ^ 40"
  shows "near (f_round z) r (e + B / 2 ^ 53)"
proof -
  have "\<bar>z\<bar> \<le> f_big" using assms f_big_ge [of 40] by linarith
  then obtain y where y: "f_round z = Fin y" using f_round_finite by blast
  have "max (f_unit / 2) (\<bar>z\<bar> / 2 ^ 53) \<le> B / 2 ^ 53"
  proof (rule max.boundedI)
    have "f_unit \<le> 1 / 2 ^ 53" by (rule f_unit_le) simp
    also have "\<dots> \<le> B / 2 ^ 53" using assms(3) by (intro divide_right_mono) simp_all
    finally show "f_unit / 2 \<le> B / 2 ^ 53" using f_unit_pos(1) by linarith
    show "\<bar>z\<bar> / 2 ^ 53 \<le> B / 2 ^ 53" using assms(2) by (intro divide_right_mono) simp_all
  qed
  then have "\<bar>y - z\<bar> \<le> B / 2 ^ 53" using f_round_error [OF y] by linarith
  then show ?thesis using y assms(1) unfolding near_def by (intro exI [of _ y]) linarith
qed

lemma near_add:
  assumes "near x r e" "near y s d" "\<bar>r + s\<bar> + e + d \<le> B" "1 \<le> B" "B \<le> 2 ^ 40"
  shows "near (f_add x y) (r + s) (e + d + B / 2 ^ 53)"
proof -
  obtain a b where ab: "x = Fin a" "\<bar>a - r\<bar> \<le> e" "y = Fin b" "\<bar>b - s\<bar> \<le> d" using assms(1,2) by (auto simp: near_def)
  then have "\<bar>a + b - (r + s)\<bar> \<le> e + d" "\<bar>a + b\<bar> \<le> B" using assms(3) by linarith+
  then show ?thesis using near_round [of "a + b" "r + s" "e + d" B] assms(4,5) by (simp add: ab)
qed

lemma near_neg: "near x r e \<Longrightarrow> near (f_neg x) (- r) e"
  by (auto simp: near_def)

lemma near_mul:
  assumes "near x r e" "near y s d" "\<bar>r\<bar> \<le> R" "\<bar>s\<bar> \<le> S" "(R + e) * (S + d) \<le> B" "1 \<le> B" "B \<le> 2 ^ 40"
  shows "near (f_mul x y) (r * s) (e * S + (R + e) * d + B / 2 ^ 53)"
proof -
  obtain a b where ab: "x = Fin a" "\<bar>a - r\<bar> \<le> e" "y = Fin b" "\<bar>b - s\<bar> \<le> d" using assms(1,2) by (auto simp: near_def)
  have a: "\<bar>a\<bar> \<le> R + e" "\<bar>b\<bar> \<le> S + d" using ab assms(3,4) by linarith+
  have "a * b - r * s = (a - r) * s + a * (b - s)" by (simp add: algebra_simps)
  then have "\<bar>a * b - r * s\<bar> \<le> \<bar>a - r\<bar> * \<bar>s\<bar> + \<bar>a\<bar> * \<bar>b - s\<bar>" by (metis abs_mult abs_triangle_ineq)
  also have "\<dots> \<le> e * S + (R + e) * d" using ab a assms(3,4) by (intro add_mono mult_mono) auto
  finally have "\<bar>a * b - r * s\<bar> \<le> e * S + (R + e) * d" .
  moreover have "\<bar>a * b\<bar> \<le> B"
  proof -
    have "\<bar>a\<bar> * \<bar>b\<bar> \<le> (R + e) * (S + d)" using a abs_ge_zero [of a] by (intro mult_mono) linarith+
    then show ?thesis using assms(5) by (simp add: abs_mult)
  qed
  ultimately show ?thesis using near_round [of "a * b" "r * s" _ B] assms(6,7) by (simp add: ab)
qed

lemma near_div:
  assumes "near x r e" "0 < c" "\<bar>r / c\<bar> + e / c \<le> B" "1 \<le> B" "B \<le> 2 ^ 40"
  shows "near (f_div x (Fin c)) (r / c) (e / c + B / 2 ^ 53)"
proof -
  obtain a where a: "x = Fin a" "\<bar>a - r\<bar> \<le> e" using assms(1) by (auto simp: near_def)
  have "\<bar>a / c - r / c\<bar> = \<bar>a - r\<bar> / c" using assms(2) by (simp add: diff_divide_distrib [symmetric])
  also have "\<dots> \<le> e / c" using a(2) assms(2) by (intro divide_right_mono) simp_all
  finally have "\<bar>a / c - r / c\<bar> \<le> e / c" .
  moreover from this have "\<bar>a / c\<bar> \<le> B" using assms(3) by linarith
  ultimately show ?thesis using near_round [of "a / c" "r / c" "e / c" B] assms(2,4,5) by (simp add: a(1))
qed

end
