(* ===== verification/Rate_Limiter.thy ===== *)
theory Rate_Limiter
  imports Go_Prelude Go_Float "HOL-Library.Signed_Division"
begin

text \<open>
  \<open>09-Rate-Limiter/main.go\<close>: the token bucket, with its \<open>float64\<close> arithmetic. A \<open>time.Time\<close> is the number of
  nanoseconds on the monotonic clock; every call to \<open>time.Now\<close> is an argument. The mutex makes each call atomic,
  so a history is a list of calls.

  Every rounding may create or lose a little of a token; the theorem bounds what that can add up to. A
  cost that is NaN is not a cost: \<open>rl_NaN_disables\<close>.
\<close>

record rate_limiter =
  rl_capacity :: f64
  rl_tokens :: f64
  rl_refillPerSecond :: f64
  rl_lastRefill :: int

definition NewTokenBucketRateLimiter :: "int \<Rightarrow> int \<Rightarrow> f64 \<Rightarrow> rate_limiter outcome" where
  "NewTokenBucketRateLimiter now capacity refillPerSecond =
     (if capacity \<le> 0 \<or> f_le refillPerSecond (Fin 0) then Inl ExitOne
      else Inr \<lparr>rl_capacity = f_of_int capacity, rl_tokens = f_of_int capacity,
                rl_refillPerSecond = refillPerSecond, rl_lastRefill = now\<rparr>)"

definition rl_mathMin :: "f64 \<Rightarrow> f64 \<Rightarrow> f64" where
  "rl_mathMin a b = (if f_less a b then a else b)"

text \<open>\<open>Time.Sub\<close>, which saturates, and \<open>Duration.Seconds\<close>.\<close>

definition rl_Sub :: "int \<Rightarrow> int \<Rightarrow> int" where
  "rl_Sub t u = max (- (2 ^ 63)) (min (2 ^ 63 - 1) (t - u))"

definition rl_Seconds :: "int \<Rightarrow> f64" where
  "rl_Seconds d = f_add (f_of_int (d sdiv 10 ^ 9)) (f_div (f_of_int (d smod 10 ^ 9)) (f_of_int (10 ^ 9)))"

definition rl_refill :: "int \<Rightarrow> rate_limiter \<Rightarrow> rate_limiter" where
  "rl_refill now l =
     (let elapsed = rl_Seconds (rl_Sub now (rl_lastRefill l));
          elapsed = (if f_less elapsed (Fin 0) then Fin 0 else elapsed);
          newTokens = rl_mathMin (rl_capacity l) (f_add (rl_tokens l) (f_mul elapsed (rl_refillPerSecond l)))
      in l\<lparr>rl_tokens := newTokens, rl_lastRefill := now\<rparr>)"

definition rl_Allow :: "int \<Rightarrow> f64 \<Rightarrow> rate_limiter \<Rightarrow> bool \<times> rate_limiter" where
  "rl_Allow now cost l = (let l1 = rl_refill now l in
     if f_le cost (Fin 0) then (True, l1)
     else if f_less (rl_tokens l1) cost then (False, l1)
     else (True, l1\<lparr>rl_tokens := f_sub (rl_tokens l1) cost\<rparr>))"

subsection \<open>Elapsed seconds\<close>

lemma seconds_round:
  fixes n q :: int
  assumes "0 \<le> n" "n < 10 ^ 9" "0 \<le> q" "q \<le> 2 ^ 34"
  shows "\<exists>s. f_add (f_of_int q) (f_div (f_of_int n) (f_of_int (10 ^ 9))) = Fin s \<and> 0 \<le> s \<and>
    s \<le> (1 + 1 / 2 ^ 51) * (of_int q + of_int n / 10 ^ 9)"
proof -
  let ?u = "1 / 2 ^ 53 :: real" and ?x = "of_int n / 10 ^ 9 :: real"
  have ints: "f_of_int q = Fin (of_int q)" "f_of_int n = Fin (of_int n)" "f_of_int (10 ^ 9) = Fin (10 ^ 9)"
    using assms by (simp_all add: f_of_int_exact)
  have small: "a = 0 \<or> 1 / 2 ^ 900 \<le> \<bar>a\<bar>" if "a = 0 \<or> 1 / 2 ^ 40 \<le> a" for a :: real
  proof -
    have "1 / 2 ^ 900 \<le> (1 / 2 ^ 40 :: real)" by (rule frac_le) (simp_all add: power_increasing)
    then show ?thesis using that by linarith
  qed
  have x: "0 \<le> ?x" "?x < 1" "?x = 0 \<or> 1 / 10 ^ 9 \<le> ?x" using assms(1,2) by (auto simp: divide_simps)
  have big: "\<bar>a\<bar> \<le> f_big" if "0 \<le> a" "a \<le> 2 ^ 36" for a :: real
    using f_big_ge [of 36] that by simp
  obtain y where y: "f_round ?x = Fin y" using f_round_finite [OF big, of ?x] x by auto
  have "\<bar>y - ?x\<bar> \<le> ?x / 2 ^ 53" using f_round_rel [OF y small] x by auto
  then have y_le: "(1 - ?u) * ?x \<le> y" "y \<le> (1 + ?u) * ?x"
    unfolding left_diff_distrib distrib_right mult_1 times_divide_eq_left by (simp_all only: abs_le_iff) linarith+
  have y0: "0 \<le> y" using f_round_sign(1) [OF y x(1)] .
  let ?t = "of_int q + y"
  have q: "0 \<le> real_of_int q" "real_of_int q \<le> 2 ^ 34" using assms(3,4) by simp_all
  have "y \<le> 2" using y_le(2) x(2) by simp
  then obtain s where s: "f_round ?t = Fin s" using f_round_finite [OF big, of ?t] y0 q by auto
  have "?t = 0 \<or> 1 / 2 ^ 40 \<le> ?t"
  proof (cases "q = 0 \<and> ?x = 0")
    case True
    then show ?thesis using y by simp
  next
    case False
    then have "1 \<le> real_of_int q \<or> 1 / 10 ^ 9 \<le> ?x" using x(3) assms(3) by auto
    then show ?thesis using y_le(1) y0 q(1) by auto
  qed
  then have "\<bar>s - ?t\<bar> \<le> ?t / 2 ^ 53" using f_round_rel [OF s small] y0 q by auto
  then have "s \<le> (1 + ?u) * ?t" unfolding distrib_right mult_1 times_divide_eq_left by (simp only: abs_le_iff) linarith
  also have "\<dots> \<le> (1 + ?u) * ((1 + ?u) * (of_int q + ?x))" using y_le(2) q(1) by (intro mult_left_mono) (simp_all add: algebra_simps)
  also have "\<dots> = (1 + ?u) * (1 + ?u) * (of_int q + ?x)" by simp
  also have "\<dots> \<le> (1 + 1 / 2 ^ 51) * (of_int q + ?x)" using q(1) x(1) by (intro mult_right_mono) simp_all
  finally have "s \<le> (1 + 1 / 2 ^ 51) * (of_int q + ?x)" .
  moreover have "0 \<le> s" using f_round_sign(1) [OF s] q(1) y0 by simp
  moreover have "f_add (f_of_int q) (f_div (f_of_int n) (f_of_int (10 ^ 9))) = Fin s" unfolding ints using y s by simp
  ultimately show ?thesis by blast
qed

lemma elapsed_seconds:
  assumes "u \<le> t"
  shows "\<exists>s. rl_Seconds (rl_Sub t u) = Fin s \<and> 0 \<le> s \<and> s \<le> (1 + 1 / 2 ^ 51) * (of_int (t - u) / 10 ^ 9)"
proof -
  define d where "d = rl_Sub t u"
  have d: "0 \<le> d" "d \<le> t - u" "d < 2 ^ 63" using assms by (auto simp: d_def rl_Sub_def)
  have "d div 10 ^ 9 \<le> 2 ^ 34" using zdiv_mono1 [of d "2 ^ 63" "10 ^ 9"] d(3) by simp
  moreover have "d sdiv 10 ^ 9 = d div 10 ^ 9" "d smod 10 ^ 9 = d mod 10 ^ 9"
    using d(1) by (simp_all add: signed_divide_int_def signed_modulo_int_def sgn_if minus_div_mult_eq_mod)
  ultimately obtain s where s: "rl_Seconds d = Fin s" "0 \<le> s"
    "s \<le> (1 + 1 / 2 ^ 51) * (of_int (d div 10 ^ 9) + of_int (d mod 10 ^ 9) / 10 ^ 9)"
    using seconds_round [of "d mod 10 ^ 9" "d div 10 ^ 9"] d(1) unfolding rl_Seconds_def
    by (auto simp: pos_imp_zdiv_nonneg_iff)
  have "real_of_int d = of_int (d div 10 ^ 9 * 10 ^ 9 + d mod 10 ^ 9)" by (simp only: div_mult_mod_eq)
  also have "\<dots> = of_int (d div 10 ^ 9) * 10 ^ 9 + of_int (d mod 10 ^ 9)" by (simp only: of_int_add of_int_mult of_int_power of_int_numeral)
  finally have "of_int (d div 10 ^ 9) + of_int (d mod 10 ^ 9) / 10 ^ 9 = real_of_int d / 10 ^ 9" by (simp only: add_divide_distrib) simp
  then have "s \<le> (1 + 1 / 2 ^ 51) * (of_int d / 10 ^ 9)" using s(3) by (simp only:)
  also have "\<dots> \<le> (1 + 1 / 2 ^ 51) * (of_int (t - u) / 10 ^ 9)"
    using d(2) by (intro mult_left_mono divide_right_mono) simp_all
  finally show ?thesis using s(1,2) unfolding d_def by blast
qed

subsection \<open>One call\<close>

text \<open>
  A limiter whose capacity is \<open>c\<close> and that is filled to \<open>k\<close>.
\<close>

definition rl_state :: "real \<Rightarrow> real \<Rightarrow> real \<Rightarrow> rate_limiter \<Rightarrow> bool" where
  "rl_state c r k l \<longleftrightarrow> rl_capacity l = Fin c \<and> rl_tokens l = Fin k \<and> rl_refillPerSecond l = Fin r \<and>
     0 \<le> k \<and> k \<le> c \<and> 0 < r \<and> 1 \<le> c \<and> c \<le> 2 ^ 64 \<and> f_exact c"

lemma tiny_unit: "1 \<le> c \<Longrightarrow> f_unit \<le> c / 2 ^ 60"
proof -
  assume "1 \<le> c"
  then have "1 / 2 ^ 60 \<le> c / 2 ^ 60" by (intro divide_right_mono) simp_all
  then show "f_unit \<le> c / 2 ^ 60" using f_unit_le [of 60] by simp
qed

lemma rl_refill_ok:
  assumes "rl_state c r k l" "rl_lastRefill l \<le> now"
  defines "R \<equiv> r * (of_int (now - rl_lastRefill l) / 10 ^ 9)"
  shows "\<exists>n. rl_state c r n (rl_refill now l) \<and> rl_lastRefill (rl_refill now l) = now \<and> n \<le> k + R + c / 2 ^ 49"
proof -
  have l: "rl_capacity l = Fin c" "rl_tokens l = Fin k" "rl_refillPerSecond l = Fin r" "0 \<le> k" "k \<le> c" "0 < r" "1 \<le> c" "c \<le> 2 ^ 64" "f_exact c"
    using assms(1) by (simp_all add: rl_state_def)
  have unit: "f_unit \<le> c / 2 ^ 60" using tiny_unit [OF l(7)] .
  have big: "2 ^ 70 \<le> f_big" by (rule f_big_ge) simp
  let ?E = "of_int (now - rl_lastRefill l) / 10 ^ 9 :: real"
  obtain s where s: "rl_Seconds (rl_Sub now (rl_lastRefill l)) = Fin s" "0 \<le> s" "s \<le> (1 + 1 / 2 ^ 51) * ?E"
    using elapsed_seconds [OF assms(2)] by blast
  have R: "0 \<le> s * r" "s * r \<le> (1 + 1 / 2 ^ 51) * R"
    using mult_right_mono [OF s(3), of r] s(2) l(6) by (simp_all add: R_def mult_ac)
  have R0: "0 \<le> R" using assms(2) l(6) by (simp add: R_def)
  define new where "new = rl_mathMin (Fin c) (f_add (Fin k) (f_mul (Fin s) (Fin r)))"
  have run: "rl_refill now l = l\<lparr>rl_tokens := new, rl_lastRefill := now\<rparr>"
    using s(2) by (simp add: rl_refill_def Let_def s(1) l(1-3) new_def)
  have "\<exists>n. new = Fin n \<and> 0 \<le> n \<and> n \<le> c \<and> n \<le> k + R + c / 2 ^ 49"
  proof (cases "f_round (s * r)")
    case (FInf b)
    then have "b = False" "f_big < s * r" using f_round_overflow [OF FInf] R(1) by auto
    then have "c \<le> R" using R(2) R0 big l(8) by simp
    moreover have "new = Fin c" using FInf \<open>b = False\<close> by (simp add: new_def rl_mathMin_def)
    ultimately show ?thesis using l by auto
  next
    case (Fin p)
    have p: "0 \<le> p" "p \<le> s * r + s * r / 2 ^ 53 + f_unit"
      using f_round_sign(1) [OF Fin R(1)] f_round_upper [OF Fin R(1)] .
    show ?thesis
    proof (cases "f_round (k + p)")
      case (FInf b)
      have "0 \<le> k + p" using p(1) l(4) by simp
      then have "b = False" "f_big < k + p" using f_round_overflow [OF FInf] by auto
      moreover define P where "P = s * r"
      ultimately have "c \<le> R" using p(2) R(2) R0 big l(5,8) unit unfolding P_def [symmetric] by simp
      moreover have "new = Fin c" using Fin FInf \<open>b = False\<close> by (simp add: new_def rl_mathMin_def)
      ultimately show ?thesis using l by auto
    next
      case t: (Fin t)
      have "0 \<le> k + p" using p(1) l(4) by simp
      then have t0: "0 \<le> t" "t \<le> k + p + (k + p) / 2 ^ 53 + f_unit"
        using f_round_sign(1) [OF t] f_round_upper [OF t] by simp_all
      have new: "new = Fin (if c < t then c else t)" using Fin t by (simp add: new_def rl_mathMin_def)
      have "(if c < t then c else t) \<le> k + R + c / 2 ^ 49"
      proof (cases "c \<le> R")
        case True
        then show ?thesis using l(4,7) by simp
      next
        case False
        moreover define P where "P = s * r"
        ultimately have "p \<le> R + c / 2 ^ 50" using p(2) R R0 unit l(7) unfolding P_def [symmetric] by simp
        then have "t \<le> k + R + c / 2 ^ 49" using t0(2) unit False l(5,7) by (simp add: field_simps)
        then show ?thesis by simp
      qed
      then show ?thesis using t0(1) l(4,7) unfolding new by auto
    qed simp
  qed simp
  then show ?thesis using l unfolding run rl_state_def by auto
qed

lemma rl_Allow_ok:
  assumes "rl_state c r k l" "rl_lastRefill l \<le> now" "cost \<noteq> NaN" "rl_Allow now cost l = (ok, l')"
  defines "R \<equiv> r * (of_int (now - rl_lastRefill l) / 10 ^ 9)"
  shows "\<exists>n used. rl_state c r n l' \<and> rl_lastRefill l' = now \<and>
    (if ok \<and> f_less (Fin 0) cost then cost = Fin used \<and> 0 < used else used = 0) \<and> used + n \<le> k + R + c / 2 ^ 48"
proof -
  obtain n where n: "rl_state c r n (rl_refill now l)" "rl_lastRefill (rl_refill now l) = now" "n \<le> k + R + c / 2 ^ 49"
    using rl_refill_ok [OF assms(1,2)] unfolding R_def by blast
  have tok: "rl_tokens (rl_refill now l) = Fin n" "0 \<le> n" "n \<le> c" "1 \<le> c" "f_exact c" "c \<le> 2 ^ 64" using n(1) by (simp_all add: rl_state_def)
  have kept: "n \<le> k + R + c / 2 ^ 48" using n(3) tok(4) by simp
  have unit: "f_unit \<le> c / 2 ^ 60" using tiny_unit [OF tok(4)] .
  consider "f_le cost (Fin 0)" | "\<not> f_le cost (Fin 0)" "f_less (Fin n) cost" | u where "cost = Fin u" "0 < u" "u \<le> n"
    using assms(3) by (cases cost) force+
  then show ?thesis
  proof cases
    case 1
    then have "ok = True" "l' = rl_refill now l" using assms(4) by (simp_all add: rl_Allow_def Let_def)
    moreover have "\<not> f_less (Fin 0) cost" using 1 by (cases cost) auto
    ultimately show ?thesis using n kept by (intro exI [of _ n] exI [of _ 0]) simp
  next
    case 2
    then have "ok = False" "l' = rl_refill now l" using assms(4) by (simp_all add: rl_Allow_def Let_def tok(1))
    then show ?thesis using n kept by (intro exI [of _ n] exI [of _ 0]) simp
  next
    case (3 u)
    have "\<bar>n - u\<bar> \<le> f_big" using f_big_ge [of 64] 3 tok by simp
    then obtain v where v: "f_round (n - u) = Fin v" using f_round_finite by blast
    have l': "ok = True" "l' = (rl_refill now l)\<lparr>rl_tokens := Fin v\<rparr>"
      using 3 assms(4) v by (simp_all add: rl_Allow_def Let_def tok(1) f_sub_def)
    have "0 \<le> v" "v \<le> n - u + (n - u) / 2 ^ 53 + f_unit" using f_round_sign(1) [OF v] f_round_upper [OF v] 3(3) by simp_all
    moreover from this(2) have v_le: "u + v \<le> n + c / 2 ^ 52"
    proof -
      have "(n - u) / 2 ^ 53 \<le> c / 2 ^ 53" using 3(2) tok(3) by (intro divide_right_mono) simp_all
      then show ?thesis using \<open>v \<le> n - u + (n - u) / 2 ^ 53 + f_unit\<close> unit tok(4) by (simp add: field_simps)
    qed
    moreover have "v \<le> c" using f_round_le [OF v _ tok(5)] 3(2,3) tok(3,4) by simp
    ultimately have "u + v \<le> k + R + c / 2 ^ 48" using n(3) unit v_le tok(4) by simp
    moreover have "rl_state c r v l'" using n(1) \<open>0 \<le> v\<close> \<open>v \<le> c\<close> unfolding l'(2) rl_state_def by simp
    ultimately show ?thesis using 3 l' n(2) by (intro exI [of _ v] exI [of _ u]) simp
  qed
qed

subsection \<open>Histories\<close>

text \<open>A history of calls \<open>(now, cost)\<close>: the total positive cost admitted, as a real number, and the final state.\<close>

fun rl_history :: "(int \<times> f64) list \<Rightarrow> rate_limiter \<Rightarrow> real \<times> rate_limiter" where
  "rl_history [] l = (0, l)"
| "rl_history ((now, cost) # calls) l = (case rl_Allow now cost l of (ok, l1) \<Rightarrow>
     (case rl_history calls l1 of (used, l2) \<Rightarrow> ((if ok \<and> f_less (Fin 0) cost then f_value cost else 0) + used, l2)))"

text \<open>Time does not run backwards along a history, and the costs are numbers.\<close>

fun rl_timely :: "int \<Rightarrow> (int \<times> f64) list \<Rightarrow> bool" where
  "rl_timely t [] \<longleftrightarrow> True"
| "rl_timely t ((now, cost) # calls) \<longleftrightarrow> t \<le> now \<and> cost \<noteq> NaN \<and> rl_timely now calls"

lemma rl_history_ok:
  assumes "rl_state c r k l" "rl_timely (rl_lastRefill l) calls" "rl_history calls l = (used, l')"
  shows "\<exists>n. rl_state c r n l' \<and> rl_lastRefill l \<le> rl_lastRefill l' \<and>
    used + n \<le> k + r * (of_int (rl_lastRefill l' - rl_lastRefill l) / 10 ^ 9) + real (length calls) * (c / 2 ^ 48)"
  using assms
proof (induction calls arbitrary: k l used)
  case (Cons x calls)
  obtain now cost where x: "x = (now, cost)" by fastforce
  obtain ok l1 where a: "rl_Allow now cost l = (ok, l1)" by fastforce
  obtain used1 where h: "rl_history calls l1 = (used1, l')"
    and used: "used = (if ok \<and> f_less (Fin 0) cost then f_value cost else 0) + used1"
    using Cons.prems(3) by (auto simp: x a split: prod.splits)
  have t: "rl_lastRefill l \<le> now" "cost \<noteq> NaN" "rl_timely now calls" using Cons.prems(2) by (simp_all add: x)
  obtain n u where n: "rl_state c r n l1" "rl_lastRefill l1 = now" "if ok \<and> f_less (Fin 0) cost then cost = Fin u \<and> 0 < u else u = 0"
    "u + n \<le> k + r * (of_int (now - rl_lastRefill l) / 10 ^ 9) + c / 2 ^ 48"
    using rl_Allow_ok [OF Cons.prems(1) t(1,2) a] by blast
  have u: "used = u + used1" using n(3) by (auto simp: used f_value_def split: if_splits)
  obtain m where m: "rl_state c r m l'" "now \<le> rl_lastRefill l'"
    "used1 + m \<le> n + r * (of_int (rl_lastRefill l' - now) / 10 ^ 9) + real (length calls) * (c / 2 ^ 48)"
    using Cons.IH [OF n(1) _ h] t(3) n(2) by auto
  have "r * (of_int (now - rl_lastRefill l) / 10 ^ 9) + r * (of_int (rl_lastRefill l' - now) / 10 ^ 9) =
      r * (of_int (rl_lastRefill l' - rl_lastRefill l) / 10 ^ 9)"
    by (simp add: diff_divide_distrib right_diff_distrib)
  moreover have "real (length (x # calls)) * (c / 2 ^ 48) = c / 2 ^ 48 + real (length calls) * (c / 2 ^ 48)"
    by (simp add: distrib_right)
  ultimately have "used + m \<le> k + r * (of_int (rl_lastRefill l' - rl_lastRefill l) / 10 ^ 9) + real (length (x # calls)) * (c / 2 ^ 48)"
    using n(4) m(3) unfolding u by linarith
  then show ?case using m(1,2) t(1) by auto
qed auto



text \<open>
  A request whose cost is NaN passes both tests and leaves NaN in the bucket. From then on nothing is ever rejected.
\<close>

lemma rl_NaN_disables:
  "fst (rl_Allow now NaN l)" "rl_tokens l = NaN \<Longrightarrow> fst (rl_Allow now cost l) \<and> rl_tokens (snd (rl_Allow now cost l)) = NaN"
  "rl_tokens (snd (rl_Allow now NaN l)) = NaN"
proof -
  have nan: "f_add x NaN = NaN" "f_add NaN x = NaN" "f_less NaN x = False" "f_less x NaN = False" "f_le NaN x = False"
    "f_sub x NaN = NaN" "f_sub NaN x = NaN" for x
    by (cases x; simp add: f_sub_def)+
  show "fst (rl_Allow now NaN l)" "rl_tokens (snd (rl_Allow now NaN l)) = NaN" by (simp_all add: rl_Allow_def Let_def nan)
  show "rl_tokens l = NaN \<Longrightarrow> fst (rl_Allow now cost l) \<and> rl_tokens (snd (rl_Allow now cost l)) = NaN"
    by (simp add: rl_Allow_def rl_refill_def rl_mathMin_def Let_def nan)
qed

end
