(* ===== verification/Circuit_Breaker.thy ===== *)
theory Circuit_Breaker
  imports Go_Prelude
begin

text \<open>
  \<open>10-Circuit-Breaker/main.go\<close>. Times are nanoseconds on the monotonic clock, one argument per
  \<open>time.Now\<close> or \<open>time.Since\<close>. \<open>Execute\<close> takes the mutex twice, in \<open>State\<close> and when it records the
  result, and runs the operation in between without it: \<open>cb_step\<close> interleaves these two halves of
  any number of concurrent calls.
\<close>

datatype circuit_state = CircuitClosed | CircuitOpen | CircuitHalfOpen

record circuit_breaker =
  cb_state :: circuit_state
  cb_failures :: int
  cb_failureThreshold :: int
  cb_openTimeout :: int
  cb_openedAt :: int

definition NewCircuitBreaker :: "int \<Rightarrow> int \<Rightarrow> circuit_breaker" where
  "NewCircuitBreaker failureThreshold openTimeout =
     \<lparr>cb_state = CircuitClosed, cb_failures = 0, cb_failureThreshold = failureThreshold,
      cb_openTimeout = openTimeout, cb_openedAt = 0\<rparr>"

definition cb_State :: "int \<Rightarrow> circuit_breaker \<Rightarrow> circuit_state \<times> circuit_breaker" where
  "cb_State now cb =
     (let cb1 = (if cb_state cb = CircuitOpen \<and> cb_openTimeout cb \<le> now - cb_openedAt cb
                 then cb\<lparr>cb_state := CircuitHalfOpen\<rparr> else cb)
      in (cb_state cb1, cb1))"

definition cb_recordSuccess :: "circuit_breaker \<Rightarrow> circuit_breaker" where
  "cb_recordSuccess cb = cb\<lparr>cb_failures := 0, cb_state := CircuitClosed\<rparr>"

definition cb_recordFailure :: "int \<Rightarrow> circuit_breaker \<Rightarrow> circuit_breaker" where
  "cb_recordFailure now cb = (let cb1 = cb\<lparr>cb_failures := cb_failures cb + 1\<rparr> in
     if cb_state cb1 = CircuitHalfOpen \<or> cb_failureThreshold cb1 \<le> cb_failures cb1
     then cb1\<lparr>cb_state := CircuitOpen, cb_openedAt := now\<rparr> else cb1)"

datatype 'e cb_error = BreakerIsOpen | OperationFailed 'e

text \<open>
  \<open>Execute\<close> called at \<open>now\<close> with an operation that ends at \<open>later\<close> with the result given (\<open>None\<close> for
  a nil error), without other calls in between.
\<close>

definition cb_Execute :: "int \<Rightarrow> int \<Rightarrow> 'e option \<Rightarrow> circuit_breaker \<Rightarrow> 'e cb_error option \<times> circuit_breaker" where
  "cb_Execute now later result cb = (case cb_State now cb of (st, cb1) \<Rightarrow>
     if st = CircuitOpen then (Some BreakerIsOpen, cb1)
     else (case result of
             Some err \<Rightarrow> (Some (OperationFailed err), cb_recordFailure later cb1)
           | None \<Rightarrow> (None, cb_recordSuccess cb1)))"

subsection \<open>Concurrent calls\<close>

datatype cb_event = CbEnter int bool | CbSucceed | CbFail int

text \<open>A configuration is the breaker and the number of operations in flight.\<close>

inductive cb_step :: "circuit_breaker \<times> nat \<Rightarrow> cb_event \<Rightarrow> circuit_breaker \<times> nat \<Rightarrow> bool" where
  cb_admit: "cb_State now cb = (st, cb') \<Longrightarrow> st \<noteq> CircuitOpen \<Longrightarrow>
     cb_step (cb, n) (CbEnter now True) (cb', Suc n)"
| cb_reject: "cb_State now cb = (CircuitOpen, cb') \<Longrightarrow> cb_step (cb, n) (CbEnter now False) (cb', n)"
| cb_succeed: "cb_step (cb, Suc n) CbSucceed (cb_recordSuccess cb, n)"
| cb_fail: "cb_step (cb, Suc n) (CbFail now) (cb_recordFailure now cb, n)"

inductive_cases cb_stepE: "cb_step c e c'"

text \<open>A sequential \<open>Execute\<close> is one such interleaving.\<close>

lemma cb_Execute_steps:
  assumes "cb_Execute now later result cb = (err, cb')"
  shows "\<exists>es. runs cb_step (cb, n) es (cb', n) \<and>
     (err = Some BreakerIsOpen \<longleftrightarrow> es = [CbEnter now False])"
proof -
  obtain st cb1 where s: "cb_State now cb = (st, cb1)" by fastforce
  show ?thesis
  proof (cases "st = CircuitOpen")
    case True
    with s have "cb_step (cb, n) (CbEnter now False) (cb1, n)" by (simp add: cb_reject)
    moreover have "err = Some BreakerIsOpen" "cb' = cb1" using assms s True by (simp_all add: cb_Execute_def)
    ultimately have "runs cb_step (cb, n) [CbEnter now False] (cb', n)" by (auto intro: runs.intros)
    then show ?thesis using \<open>err = _\<close> by blast
  next
    case False
    then have a: "cb_step (cb, n) (CbEnter now True) (cb1, Suc n)" using s by (rule cb_admit [rotated])
    show ?thesis
    proof (cases result)
      case None
      then have "cb' = cb_recordSuccess cb1" "err = None" using assms s False by (simp_all add: cb_Execute_def)
      then have "runs cb_step (cb, n) [CbEnter now True, CbSucceed] (cb', n)"
        using a cb_succeed [of cb1 n] by (auto intro: runs.intros)
      then show ?thesis using \<open>err = None\<close> by blast
    next
      case (Some x)
      then have "cb' = cb_recordFailure later cb1" "err = Some (OperationFailed x)"
        using assms s False by (simp_all add: cb_Execute_def)
      then have "runs cb_step (cb, n) [CbEnter now True, CbFail later] (cb', n)"
        using a cb_fail [of cb1 n later] by (auto intro: runs.intros)
      then show ?thesis using \<open>err = Some (OperationFailed x)\<close> by blast
    qed
  qed
qed

subsection \<open>Invariant\<close>

definition cb_inv :: "int \<Rightarrow> int \<Rightarrow> circuit_breaker \<Rightarrow> bool" where
  "cb_inv T d cb \<longleftrightarrow> cb_failureThreshold cb = T \<and> cb_openTimeout cb = d \<and>
     (cb_state cb = CircuitClosed \<longleftrightarrow> cb_failures cb < T)"

lemma cb_step_inv:
  assumes "0 < T" "cb_step c e c'" "cb_inv T d (fst c)"
  shows "cb_inv T d (fst c')"
  using assms(2,3,1)
  by (cases rule: cb_step.cases)
    (auto simp: cb_inv_def cb_State_def cb_recordSuccess_def cb_recordFailure_def Let_def split: if_splits)

lemma cb_reachable_inv:
  assumes "0 < T" "runs cb_step (NewCircuitBreaker T d, 0) es (cb, n)"
  shows "cb_inv T d cb"
proof -
  have "cb_inv T d (fst (cb, n))"
    using assms(2)
  proof (rule runs_invariant)
    show "cb_inv T d (fst (NewCircuitBreaker T d, 0 :: nat))"
      using assms(1) by (simp add: cb_inv_def NewCircuitBreaker_def)
  qed (use cb_step_inv [OF assms(1)] in blast)
  then show ?thesis by simp
qed

text \<open>An open breaker stays open while nothing succeeds and its timeout has not passed.\<close>

lemma cb_stays_open:
  assumes "runs cb_step c es c'" "cb_inv T d (fst c)" "0 < T" "cb_state (fst c) = CircuitOpen"
    and "t \<le> cb_openedAt (fst c)" "CbSucceed \<notin> set es"
    and "\<And>now. CbFail now \<in> set es \<Longrightarrow> t \<le> now"
    and "\<And>now ok. CbEnter now ok \<in> set es \<Longrightarrow> now < t + d"
  shows "cb_state (fst c') = CircuitOpen \<and> (\<forall>now. CbEnter now True \<notin> set es)"
  using assms
proof (induction rule: runs.induct)
  case (runs_Cons c e c1 es c2)
  have inv: "cb_inv T d (fst c1)" using cb_step_inv runs_Cons.hyps(1) runs_Cons.prems(1,2) by blast
  from runs_Cons.hyps(1) have "cb_state (fst c1) = CircuitOpen \<and> t \<le> cb_openedAt (fst c1) \<and> (\<forall>now. e \<noteq> CbEnter now True)"
  proof (cases rule: cb_step.cases)
    case (cb_admit now cb st cb' n)
    then have "now < t + d" using runs_Cons.prems(7) [of now True] by simp
    then have "\<not> cb_openTimeout cb \<le> now - cb_openedAt cb"
      using runs_Cons.prems(1,4) cb_admit(1) by (simp add: cb_inv_def)
    then show ?thesis using cb_admit runs_Cons.prems(3) by (auto simp: cb_State_def Let_def)
  next
    case (cb_reject now cb cb' n)
    then show ?thesis using runs_Cons.prems(3,4)
      by (auto simp: cb_State_def Let_def split: if_splits)
  next
    case (cb_succeed cb n)
    then show ?thesis using runs_Cons.prems(5) by simp
  next
    case (cb_fail cb n now)
    then have "cb_failureThreshold cb \<le> cb_failures cb"
      using runs_Cons.prems(1,3) by (auto simp: cb_inv_def)
    then show ?thesis using cb_fail runs_Cons.prems(6) by (simp add: cb_recordFailure_def Let_def)
  qed
  note e = this
  have "cb_state (fst c2) = CircuitOpen \<and> (\<forall>now. CbEnter now True \<notin> set es)"
  proof (rule runs_Cons.IH [OF inv runs_Cons.prems(2)])
    show "now < t + d" if "CbEnter now ok \<in> set es" for now ok
      using runs_Cons.prems(7) [of now ok] that by simp
  qed (use e runs_Cons.prems(5,6) in auto)
  with e show ?case by auto
qed simp

text \<open>
  For a positive threshold and any interleaving of concurrent calls, the circuit is closed
  exactly when fewer than threshold failures were recorded since the last success.
\<close>

theorem cb_closed_iff_below_threshold:
  assumes "0 < T" "runs cb_step (NewCircuitBreaker T d, 0) es (cb, n)"
  shows "cb_state cb = CircuitClosed \<longleftrightarrow> cb_failures cb < T"
  using cb_reachable_inv [OF assms] by (simp add: cb_inv_def)

theorem cb_closed_iff_below_threshold_witness:
  "cb_failures (cb_recordFailure 5 (NewCircuitBreaker 1 10)) = 1 \<and>
   (cb_state (cb_recordFailure 5 (NewCircuitBreaker 1 10)) = CircuitClosed \<longleftrightarrow>
    cb_failures (cb_recordFailure 5 (NewCircuitBreaker 1 10)) < 1)"
proof -
  have "cb_step (NewCircuitBreaker 1 10, 0) (CbEnter 3 True) (NewCircuitBreaker 1 10, Suc 0)"
    by (rule cb_admit [of _ _ CircuitClosed]) (simp_all add: cb_State_def NewCircuitBreaker_def)
  then have "runs cb_step (NewCircuitBreaker 1 10, 0) [CbEnter 3 True, CbFail 5]
      (cb_recordFailure 5 (NewCircuitBreaker 1 10), 0)"
    using cb_fail [of "NewCircuitBreaker 1 10" 0 5] by (auto intro: runs.intros)
  from cb_closed_iff_below_threshold [OF _ this] show ?thesis
    by (simp add: cb_recordFailure_def NewCircuitBreaker_def Let_def)
qed

text \<open>
  C34. Failing fast. Once the circuit is open, then as long as no operation in flight succeeds and
  the timeout since it opened has not passed, every concurrent call is rejected without running
  its operation, and the circuit stays open.
\<close>

theorem cb_open_rejects:
  assumes "0 < T" "runs cb_step (NewCircuitBreaker T d, 0) es (cb, n)" "cb_state cb = CircuitOpen"
    and "runs cb_step (cb, n) later (cb', n')" "CbSucceed \<notin> set later"
    and "\<And>now. CbFail now \<in> set later \<Longrightarrow> cb_openedAt cb \<le> now"
    and "\<And>now ok. CbEnter now ok \<in> set later \<Longrightarrow> now < cb_openedAt cb + d"
  shows "cb_state cb' = CircuitOpen \<and> (\<forall>now. CbEnter now True \<notin> set later)"
  using cb_stays_open [OF assms(4), of T d "cb_openedAt cb"] cb_reachable_inv [OF assms(1,2)] assms
  by simp

theorem cb_open_rejects_witness:
  "\<exists>cb. runs cb_step (cb, 0) [CbEnter 9 False] (cb, 0) \<and> cb_state cb = CircuitOpen \<and> CbEnter 9 True \<notin> set [CbEnter 9 False]"
proof -
  let ?new = "NewCircuitBreaker 1 10" and ?cb = "cb_recordFailure 5 (NewCircuitBreaker 1 10)"
  have "cb_step (?new, 0) (CbEnter 3 True) (?new, Suc 0)"
    by (rule cb_admit [of _ _ CircuitClosed]) (simp_all add: cb_State_def NewCircuitBreaker_def)
  then have r: "runs cb_step (?new, 0) [CbEnter 3 True, CbFail 5] (?cb, 0)"
    using cb_fail [of ?new 0 5] by (auto intro: runs.intros)
  have cb: "cb_state ?cb = CircuitOpen" "cb_openedAt ?cb = 5" "cb_openTimeout ?cb = 10"
    by (simp_all add: cb_recordFailure_def NewCircuitBreaker_def Let_def)
  then have "cb_step (?cb, 0) (CbEnter 9 False) (?cb, 0)"
    by (intro cb_reject) (simp add: cb_State_def Let_def)
  then have l: "runs cb_step (?cb, 0) [CbEnter 9 False] (?cb, 0)" by (auto intro: runs.intros)
  from cb_open_rejects [OF _ r cb(1) l] cb l show ?thesis by auto
qed

end
