(* ===== verification/Retry_Backoff.thy ===== *)
theory Retry_Backoff
  imports Go_Prelude Go_Float
begin

text \<open>
  \<open>11-Retry-Backoff/main.go\<close>. The operation is a function of the attempt number to an error or
  \<open>None\<close>; \<open>cancelled attempt\<close> tells which case the \<open>select\<close> takes while waiting after that attempt;
  \<open>rnd\<close> is \<open>rand.Int63n\<close>, with its documented range as a hypothesis. A \<open>time.Duration\<close> is an \<open>int64\<close> number of
  nanoseconds; the delays are computed with \<open>float64\<close> and converted, where \<open>conv\<close> is what the conversion gives for numbers that do not
  fit (Go leaves it to the implementation).
\<close>

record retry_policy =
  rt_MaxAttempts :: int
  rt_InitialDelay :: int
  rt_MaxDelay :: int
  rt_Multiplier :: f64
  rt_Jitter :: bool

fun rt_powLoop :: "f64 \<Rightarrow> nat \<Rightarrow> f64 \<Rightarrow> f64" where
  "rt_powLoop base 0 result = result"
| "rt_powLoop base (Suc i) result = rt_powLoop base i (f_mul result base)"

definition rt_pow :: "f64 \<Rightarrow> int \<Rightarrow> f64" where
  "rt_pow base expo = rt_powLoop base (nat expo) (Fin 1)"

definition rt_delayForAttempt :: "(f64 \<Rightarrow> int) \<Rightarrow> (int \<Rightarrow> int) \<Rightarrow> int \<Rightarrow> retry_policy \<Rightarrow> int outcome" where
  "rt_delayForAttempt conv rnd attempt policy =
     (let delay = f_mul (f_of_int (rt_InitialDelay policy)) (rt_pow (rt_Multiplier policy) (attempt - 1));
          delay = (if f_less (f_of_int (rt_MaxDelay policy)) delay then f_of_int (rt_MaxDelay policy) else delay)
      in if rt_Jitter policy
         then (let n = wrap64 (f_to_int64 conv delay + 1) in if n \<le> 0 then Inl BadArgument else Inr (rnd n))
         else Inr (f_to_int64 conv delay))"

datatype 'e retry_error = RetryCancelled | RetryFailed 'e

text \<open>
  The loop of \<open>Retry\<close> from an attempt on, with the attempts made and the delays waited for
  collected; \<open>fuel\<close> counts the attempts left.
\<close>

record rt_trace =
  rt_calls :: "int list"
  rt_waits :: "int list"

fun rt_loop :: "(f64 \<Rightarrow> int) \<Rightarrow> (int \<Rightarrow> int) \<Rightarrow> (int \<Rightarrow> bool) \<Rightarrow> (int \<Rightarrow> 'e option) \<Rightarrow> retry_policy \<Rightarrow>
    nat \<Rightarrow> int \<Rightarrow> 'e option \<Rightarrow> rt_trace \<Rightarrow> ('e retry_error option \<times> rt_trace) outcome" where
  "rt_loop conv rnd cancelled oper policy 0 attempt lastErr tr = Inr (map_option RetryFailed lastErr, tr)"
| "rt_loop conv rnd cancelled oper policy (Suc left) attempt lastErr tr =
     (let tr1 = tr\<lparr>rt_calls := rt_calls tr @ [attempt]\<rparr> in
      case oper attempt of
        None \<Rightarrow> Inr (None, tr1)
      | Some err \<Rightarrow>
          if attempt = rt_MaxAttempts policy then Inr (Some (RetryFailed err), tr1)
          else and_then (rt_delayForAttempt conv rnd attempt policy) (\<lambda>delay.
            let tr2 = tr1\<lparr>rt_waits := rt_waits tr1 @ [delay]\<rparr> in
            if cancelled attempt then Inr (Some RetryCancelled, tr2)
            else rt_loop conv rnd cancelled oper policy left (attempt + 1) (Some err) tr2))"

definition rt_Retry :: "(f64 \<Rightarrow> int) \<Rightarrow> (int \<Rightarrow> int) \<Rightarrow> (int \<Rightarrow> bool) \<Rightarrow> (int \<Rightarrow> 'e option) \<Rightarrow> retry_policy \<Rightarrow>
    ('e retry_error option \<times> rt_trace) outcome" where
  "rt_Retry conv rnd cancelled oper policy =
     rt_loop conv rnd cancelled oper policy (nat (rt_MaxAttempts policy)) 1 None \<lparr>rt_calls = [], rt_waits = []\<rparr>"

subsection \<open>Delays\<close>

text \<open>
  Delays that make sense: not negative, at most \<open>2 ^ 53\<close> nanoseconds (104 days), a multiplier that is a number and not negative, and
  if the first delay is zero, one that does not grow (zero times infinity is NaN).
\<close>

definition rt_sane :: "retry_policy \<Rightarrow> bool" where
  "rt_sane policy \<longleftrightarrow> 0 \<le> rt_InitialDelay policy \<and> rt_InitialDelay policy < 2 ^ 63 \<and>
     0 \<le> rt_MaxDelay policy \<and> rt_MaxDelay policy \<le> 2 ^ 53 \<and> f_le (Fin 0) (rt_Multiplier policy) \<and>
     (rt_InitialDelay policy = 0 \<longrightarrow> f_le (rt_Multiplier policy) (Fin 1))"

definition rt_rand_ok :: "(int \<Rightarrow> int) \<Rightarrow> bool" where
  "rt_rand_ok rnd \<longleftrightarrow> (\<forall>n > 0. 0 \<le> rnd n \<and> rnd n < n)"

text \<open>Powers stay on their side of 1.\<close>

lemma rt_powLoop_shrinks:
  assumes "f_le (Fin 0) base" "f_le base (Fin 1)" "0 \<le> r" "r \<le> 1"
  shows "\<exists>s. rt_powLoop base n (Fin r) = Fin s \<and> 0 \<le> s \<and> s \<le> 1"
  using assms(3,4)
proof (induction n arbitrary: r)
  case (Suc n)
  obtain b where b: "base = Fin b" "0 \<le> b" "b \<le> 1" using assms(1,2) by (cases base) auto
  have p: "0 \<le> r * b" "r * b \<le> 1" using b(2,3) Suc.prems by (simp_all add: mult_le_one)
  have "\<bar>r * b\<bar> \<le> f_big" using p f_big_ge [of 0] by simp
  then obtain s where s: "f_round (r * b) = Fin s" using f_round_finite by blast
  have "s \<le> 1" using f_round_le [OF s p(2)] f_exact_int [of 1] by simp
  then show ?case using Suc.IH [of s] f_round_sign(1) [OF s p(1)] s by (simp add: b(1))
qed simp

lemma rt_powLoop_grows:
  assumes "f_less (Fin 1) base" "f_le (Fin 1) x"
  shows "f_le (Fin 1) (rt_powLoop base n x)"
  using assms(2)
proof (induction n arbitrary: x)
  case (Suc n)
  have "f_le (Fin 1) (f_mul x base)"
  proof (cases x)
    case (Fin r)
    show ?thesis
    proof (cases base)
      case b: (Fin b)
      have "1 \<le> r * b" using mult_mono [of 1 r 1 b] Suc.prems assms(1) Fin b by simp
      then show ?thesis using f_round_ge_1 [of "r * b"] f_round_overflow [of "r * b"] by (cases "f_round (r * b)") (auto simp: Fin b)
    qed (use Suc.prems assms(1) Fin in auto)
  qed (use Suc.prems assms(1) in \<open>cases base; auto\<close>)+
  then show ?case using Suc.IH by simp
qed simp

text \<open>The delay before it is capped is a number and not negative.\<close>

lemma rt_raw_delay:
  assumes "rt_sane policy"
  shows "f_le (Fin 0) (f_mul (f_of_int (rt_InitialDelay policy)) (rt_pow (rt_Multiplier policy) k))"
proof (cases "f_le (rt_Multiplier policy) (Fin 1)")
  case True
  have init: "0 \<le> real_of_int (rt_InitialDelay policy)" "real_of_int (rt_InitialDelay policy) \<le> 2 ^ 63"
    using assms by (simp_all add: rt_sane_def)
  then have "\<bar>real_of_int (rt_InitialDelay policy)\<bar> \<le> f_big" using f_big_ge [of 63] by simp
  then obtain i where i: "f_of_int (rt_InitialDelay policy) = Fin i" "f_round (of_int (rt_InitialDelay policy)) = Fin i"
    using f_round_finite unfolding f_of_int_def by blast
  obtain s where s: "rt_pow (rt_Multiplier policy) k = Fin s" "0 \<le> s" "s \<le> 1"
    using rt_powLoop_shrinks [of "rt_Multiplier policy" 1] True assms unfolding rt_pow_def rt_sane_def by auto
  have "0 \<le> i * s" using f_round_sign(1) [OF i(2) init(1)] s(2) by simp
  then show ?thesis using f_round_sign(1) [of "i * s"] f_round_overflow [of "i * s"] by (cases "f_round (i * s)") (auto simp: i s)
next
  case False
  have init: "1 \<le> real_of_int (rt_InitialDelay policy)" "real_of_int (rt_InitialDelay policy) \<le> 2 ^ 63"
    using assms False by (auto simp: rt_sane_def)
  then have "\<bar>real_of_int (rt_InitialDelay policy)\<bar> \<le> f_big" using f_big_ge [of 63] by simp
  then obtain i where i: "f_of_int (rt_InitialDelay policy) = Fin i" "f_round (of_int (rt_InitialDelay policy)) = Fin i"
    using f_round_finite unfolding f_of_int_def by blast
  have i1: "1 \<le> i" using f_round_ge_1 [OF i(2) init(1)] .
  have "f_less (Fin 1) (rt_Multiplier policy)" using False assms by (cases "rt_Multiplier policy") (auto simp: rt_sane_def)
  then have "f_le (Fin 1) (rt_pow (rt_Multiplier policy) k)" unfolding rt_pow_def by (rule rt_powLoop_grows) simp
  then show ?thesis
  proof (cases "rt_pow (rt_Multiplier policy) k")
    case (Fin s)
    then have "0 \<le> i * s" using i1 \<open>f_le (Fin 1) (rt_pow (rt_Multiplier policy) k)\<close> by simp
    then show ?thesis using f_round_sign(1) [of "i * s"] f_round_overflow [of "i * s"] by (cases "f_round (i * s)") (auto simp: i Fin)
  qed (use i1 in \<open>auto simp: i\<close>)
qed

lemma rt_delay_ok:
  assumes "rt_sane policy" "rt_rand_ok rnd"
  shows "\<exists>d. rt_delayForAttempt conv rnd attempt policy = Inr d \<and> 0 \<le> d \<and> d \<le> rt_MaxDelay policy"
proof -
  define raw where "raw = f_mul (f_of_int (rt_InitialDelay policy)) (rt_pow (rt_Multiplier policy) (attempt - 1))"
  define m where "m = rt_MaxDelay policy"
  have m: "0 \<le> m" "m \<le> 2 ^ 53" "f_of_int m = Fin (of_int m)" using assms(1) by (simp_all add: rt_sane_def m_def f_of_int_exact)
  have "f_le (Fin 0) raw" using rt_raw_delay [OF assms(1)] by (simp add: raw_def)
  then obtain x where x: "(if f_less (Fin (of_int m)) raw then Fin (of_int m) else raw) = Fin x" "0 \<le> x" "x \<le> of_int m"
  proof (cases "f_less (Fin (of_int m)) raw")
    case True
    then show ?thesis using that [of "of_int m"] m(1) by simp
  next
    case False
    then obtain x where "raw = Fin x" using \<open>f_le (Fin 0) raw\<close> by (cases raw) auto
    then show ?thesis using that [of x] False \<open>f_le (Fin 0) raw\<close> by simp
  qed
  have f: "0 \<le> \<lfloor>x\<rfloor>" "\<lfloor>x\<rfloor> \<le> m" using x(2,3) by (simp_all add: floor_le_iff)
  have "f_to_int64 conv (Fin x) = \<lfloor>x\<rfloor>" using x(2) f m(2) by (simp add: f_to_int64_def go_truncate_def del: floor_less_numeral)
  moreover have "wrap64 (k + 1) = k + 1" if "0 \<le> k" "k \<le> 2 ^ 53" for k using that by (intro wrap64_id) simp_all
  then have "wrap64 (\<lfloor>x\<rfloor> + 1) = \<lfloor>x\<rfloor> + 1" using f m(2) by (meson order_trans)
  moreover have "\<not> \<lfloor>x\<rfloor> + 1 \<le> 0" using f(1) by linarith
  ultimately have eq: "rt_delayForAttempt conv rnd attempt policy = (if rt_Jitter policy then Inr (rnd (\<lfloor>x\<rfloor> + 1)) else Inr \<lfloor>x\<rfloor>)"
    unfolding rt_delayForAttempt_def raw_def [symmetric] m_def [symmetric] m(3) x(1) Let_def by (simp only: if_False)
  have "0 \<le> rnd (\<lfloor>x\<rfloor> + 1) \<and> rnd (\<lfloor>x\<rfloor> + 1) < \<lfloor>x\<rfloor> + 1"
    using assms(2) [unfolded rt_rand_ok_def, rule_format, of "\<lfloor>x\<rfloor> + 1"] f(1) by linarith
  then show ?thesis using f unfolding eq m_def by (cases "rt_Jitter policy") simp_all
qed

text \<open>
  Outside these bounds \<open>rand.Int63n\<close> panics: a cap near the largest \<open>int64\<close> is rounded up to \<open>2 ^ 63\<close>, which
  amd64 converts to the least \<open>int64\<close>.
\<close>

lemma rt_delay_overflow:
  assumes "rt_Jitter policy" "f_mul (f_of_int (rt_InitialDelay policy)) (rt_pow (rt_Multiplier policy) (attempt - 1)) = FInf False"
    and "f_of_int (rt_MaxDelay policy) = Fin (2 ^ 63)" "\<And>x. conv x = - (2 ^ 63)"
  shows "rt_delayForAttempt conv rnd attempt policy = Inl BadArgument"
  using assms by (simp add: rt_delayForAttempt_def Let_def f_to_int64_def go_truncate_def wrap64_def)

text \<open>So does a first delay of 0 once the power has overflowed: zero times infinity is NaN.\<close>

lemma rt_delay_NaN:
  assumes "rt_Jitter policy" "rt_InitialDelay policy = 0" "rt_pow (rt_Multiplier policy) (attempt - 1) = FInf False" "conv NaN = - (2 ^ 63)"
  shows "rt_delayForAttempt conv rnd attempt policy = Inl BadArgument"
  using assms by (simp add: rt_delayForAttempt_def Let_def f_to_int64_def f_of_int_def wrap64_def)

subsection \<open>Attempts\<close>

text \<open>What a finished call tells: the attempts are 1, 2, ... and the result is that of the last one.\<close>

definition rt_ended :: "(int \<Rightarrow> bool) \<Rightarrow> (int \<Rightarrow> 'e option) \<Rightarrow> retry_policy \<Rightarrow>
    'e retry_error option \<times> rt_trace \<Rightarrow> bool" where
  "rt_ended cancelled oper policy = (\<lambda>(err, tr).
     \<exists>k. 1 \<le> k \<and> k \<le> rt_MaxAttempts policy \<and> rt_calls tr = [1..k] \<and>
       (\<forall>i. 1 \<le> i \<and> i < k \<longrightarrow> oper i \<noteq> None \<and> \<not> cancelled i) \<and>
       (case err of
          None \<Rightarrow> oper k = None
        | Some RetryCancelled \<Rightarrow> oper k \<noteq> None \<and> k < rt_MaxAttempts policy \<and> cancelled k
        | Some (RetryFailed e) \<Rightarrow> oper k = Some e \<and> k = rt_MaxAttempts policy) \<and>
       int (length (rt_waits tr)) < rt_MaxAttempts policy \<and>
       (\<forall>d \<in> set (rt_waits tr). 0 \<le> d \<and> d \<le> rt_MaxDelay policy))"

lemma rt_loop_ok:
  assumes "rt_sane policy" "rt_rand_ok rnd" "1 \<le> k" "int n = rt_MaxAttempts policy - k + 1" "0 < n"
    and "rt_calls tr = [1..k - 1]" "\<forall>i. 1 \<le> i \<and> i < k \<longrightarrow> oper i \<noteq> None \<and> \<not> cancelled i"
    and "int (length (rt_waits tr)) = k - 1" "\<forall>d \<in> set (rt_waits tr). 0 \<le> d \<and> d \<le> rt_MaxDelay policy"
  shows "\<exists>res. rt_loop conv rnd cancelled oper policy n k lastErr tr = Inr res \<and> rt_ended cancelled oper policy res"
  using assms(3-9)
proof (induction n arbitrary: k lastErr tr)
  case (Suc n)
  have calls: "rt_calls tr @ [k] = [1..k]" using Suc.prems(1,4) by (simp add: upto_rec2)
  show ?case
  proof (cases "oper k")
    case None
    then show ?thesis using Suc.prems calls
      by (auto simp: rt_ended_def Let_def intro!: exI [of _ k])
  next
    case (Some err)
    show ?thesis
    proof (cases "k = rt_MaxAttempts policy")
      case True
      then show ?thesis using Some Suc.prems calls
        by (auto simp: rt_ended_def Let_def intro!: exI [of _ k])
    next
      case False
      obtain d where d: "rt_delayForAttempt conv rnd k policy = Inr d" "0 \<le> d" "d \<le> rt_MaxDelay policy"
        using rt_delay_ok [OF assms(1,2)] by blast
      show ?thesis
      proof (cases "cancelled k")
        case True
        then show ?thesis using Some False Suc.prems calls d
          by (auto simp: rt_ended_def Let_def intro!: exI [of _ k])
      next
        case run: False
        let ?tr = "tr\<lparr>rt_calls := rt_calls tr @ [k], rt_waits := rt_waits tr @ [d]\<rparr>"
        have "\<forall>i. 1 \<le> i \<and> i < k + 1 \<longrightarrow> oper i \<noteq> None \<and> \<not> cancelled i"
          using Suc.prems(5) Some run by (metis option.distinct(1) zle_add1_eq_le zless_add1_eq)
        then have "\<exists>res. rt_loop conv rnd cancelled oper policy n (k + 1) (Some err) ?tr = Inr res \<and>
            rt_ended cancelled oper policy res"
          using Suc.prems calls d False by (intro Suc.IH) auto
        then show ?thesis using Some False run d(1) by (simp add: Let_def)
      qed
    qed
  qed
qed simp



text \<open>A policy that allows no attempt: the operation is never called, and the result is nil.\<close>

lemma rt_Retry_no_attempts:
  "rt_MaxAttempts policy \<le> 0 \<Longrightarrow>
     rt_Retry conv rnd cancelled oper policy = Inr (None, \<lparr>rt_calls = [], rt_waits = []\<rparr>)"
  by (simp add: rt_Retry_def)

end
