(* ===== verification/Id_Generator.thy ===== *)
theory Id_Generator
  imports Go_Prelude
begin

text \<open>
  \<open>12-ID-Generator/main.go\<close>: Snowflake ids, at their 64 bits. The readings of \<open>time.Now().UnixMilli()\<close>
  are a list, consumed in order; a call that is still spinning when the list ends has not returned
  (\<open>None\<close>). The mutex makes calls atomic.
\<close>

record snowflake =
  sf_machineID :: u64
  sf_epochMs :: int
  sf_sequence :: u64
  sf_lastTimestamp :: int

definition NewSnowflakeGenerator :: "u64 \<Rightarrow> int \<Rightarrow> snowflake outcome" where
  "NewSnowflakeGenerator machineID epochMs =
     (if 1023 < machineID then Inl ExitOne
      else Inr \<lparr>sf_machineID = machineID, sf_epochMs = epochMs, sf_sequence = 0, sf_lastTimestamp = - 1\<rparr>)"

text \<open>The spin loop, entered with sequence 0: the first reading past the last timestamp.\<close>

fun sf_spin :: "int \<Rightarrow> int \<Rightarrow> int list \<Rightarrow> (int \<times> int list) option" where
  "sf_spin epoch lastTs [] = None"
| "sf_spin epoch lastTs (now # clock) =
     (if lastTs < now - epoch then Some (now - epoch, clock) else sf_spin epoch lastTs clock)"

definition sf_id :: "int \<Rightarrow> u64 \<Rightarrow> u64 \<Rightarrow> u64" where
  "sf_id timestamp machineID sequence =
     push_bit 22 (word_of_int timestamp) OR push_bit 12 machineID OR sequence"

definition sf_NextID :: "int list \<Rightarrow> snowflake \<Rightarrow> (u64 \<times> snowflake \<times> int list) option outcome" where
  "sf_NextID clock g = (case clock of [] \<Rightarrow> Inr None | now # clock1 \<Rightarrow>
     let timestamp = now - sf_epochMs g;
         finish = (\<lambda>ts sq rest. Some (sf_id ts (sf_machineID g) sq,
                     g\<lparr>sf_sequence := sq, sf_lastTimestamp := ts\<rparr>, rest)) in
     if timestamp < sf_lastTimestamp g then Inl ExitOne
     else if timestamp = sf_lastTimestamp g then
       (let sq = (sf_sequence g + 1) AND 4095 in
        if sq = 0 then
          Inr (case sf_spin (sf_epochMs g) (sf_lastTimestamp g) clock1 of
                 None \<Rightarrow> None | Some (ts, rest) \<Rightarrow> finish ts 0 rest)
        else Inr (finish timestamp sq clock1))
     else Inr (finish timestamp 0 clock1))"

text \<open>Calls in a row: the ids until the clock readings end or the process exits.\<close>

function sf_ids :: "int list \<Rightarrow> snowflake \<Rightarrow> u64 list" where
  "sf_ids clock g = (case sf_NextID clock g of
     Inr (Some (i, g', rest)) \<Rightarrow> (if length rest < length clock then i # sf_ids rest g' else [i])
   | _ \<Rightarrow> [])"
  by pat_completeness auto
termination
  by (relation "measure (\<lambda>(clock, g). length clock)") auto

declare sf_ids.simps [simp del]

lemma sf_spin_rest: "sf_spin e l clock = Some (ts, rest) \<Longrightarrow> length rest < length clock \<and> l < ts \<and> ts + e \<in> set clock \<and> set rest \<subseteq> set clock"
  by (induction clock) (auto split: if_splits)

text \<open>The loop ends as soon as the clock passes the last timestamp.\<close>

lemma sf_spin_ends: "sf_spin e l clock \<noteq> None \<longleftrightarrow> (\<exists>now \<in> set clock. l < now - e)"
  by (induction clock) auto

subsection \<open>Layout of an id\<close>

lemma or_add_below:
  fixes a b :: u64
  assumes "2 ^ k dvd unat a" "unat b < 2 ^ k"
  shows "unat (a OR b) = unat a + unat b"
proof -
  have "unat a AND unat b = 0"
  proof (rule bit_eqI)
    fix n
    have "\<not> bit (unat a) n" if "n < k"
    proof -
      from assms(1) obtain q where "unat a = push_bit k q" by (auto simp: push_bit_eq_mult mult.commute)
      then show ?thesis using that by (simp add: bit_push_bit_iff)
    qed
    moreover have "\<not> bit (unat b) n" if "k \<le> n"
    proof -
      have "unat b = take_bit k (unat b)" using assms(2) by (simp add: take_bit_nat_eq_self)
      then show ?thesis using that by (metis bit_take_bit_iff not_less)
    qed
    ultimately show "bit (unat a AND unat b) n \<longleftrightarrow> bit (0 :: nat) n"
      by (cases "n < k") (auto simp: bit_and_iff not_less)
  qed
  then have "unat a OR unat b = unat a + unat b" by (simp add: disjunctive_add_eq_or)
  then show ?thesis by (simp add: unsigned_or_eq)
qed

lemma sf_id_layout:
  assumes "0 \<le> ts" "ts < 2 ^ 42" "m < 1024" "s < 4096"
  shows "unat (sf_id ts m s) = nat ts * 2 ^ 22 + unat m * 2 ^ 12 + unat s"
proof -
  have ts: "unat (word_of_int ts :: u64) = nat ts"
    using assms(1,2) by (simp add: unat_eq_nat_uint uint_word_of_int)
  have b: "unat m < 1024" "unat s < 4096" using assms(3,4) by (simp_all add: word_less_nat_alt)
  have "nat ts < 2 ^ 42" using assms(1,2) by simp
  then have a: "unat (push_bit 22 (word_of_int ts) :: u64) = nat ts * 2 ^ 22"
    by (simp only: unsigned_push_bit_eq ts) (simp add: push_bit_eq_mult take_bit_nat_eq_self)
  have c: "unat (push_bit 12 m) = unat m * 2 ^ 12"
    using b(1) by (simp only: unsigned_push_bit_eq) (simp add: push_bit_eq_mult take_bit_nat_eq_self)
  have d: "unat (push_bit 12 m OR s) = unat m * 2 ^ 12 + unat s"
    using c b(2) by (subst or_add_below [of 12]) simp_all
  have "unat (push_bit 22 (word_of_int ts) OR (push_bit 12 m OR s) :: u64) = nat ts * 2 ^ 22 + (unat m * 2 ^ 12 + unat s)"
    using a d b by (subst or_add_below [of 22]) simp_all
  then show ?thesis by (simp add: sf_id_def or.assoc)
qed

subsection \<open>Ids increase\<close>

definition sf_inv :: "snowflake \<Rightarrow> bool" where
  "sf_inv g \<longleftrightarrow> sf_machineID g < 1024 \<and> sf_sequence g < 4096 \<and> - 1 \<le> sf_lastTimestamp g \<and> sf_lastTimestamp g < 2 ^ 42"

definition sf_last_id :: "snowflake \<Rightarrow> int" where
  "sf_last_id g = sf_lastTimestamp g * 2 ^ 22 + int (unat (sf_machineID g)) * 2 ^ 12 + int (unat (sf_sequence g))"

definition sf_clock_ok :: "int \<Rightarrow> int list \<Rightarrow> bool" where
  "sf_clock_ok epoch clock \<longleftrightarrow> (\<forall>now \<in> set clock. epoch \<le> now \<and> now - epoch < 2 ^ 42)"

lemma sf_layout_less:
  fixes l t :: int and m s s' :: nat
  assumes "s < 4096" "s' < 4096" "l < t \<or> l = t \<and> s < s'"
  shows "l * 2 ^ 22 + int m * 2 ^ 12 + int s < t * 2 ^ 22 + int m * 2 ^ 12 + int s'"
  using assms by auto

lemma sf_NextID_increases:
  assumes "sf_inv g" "sf_clock_ok (sf_epochMs g) clock" "sf_NextID clock g = Inr (Some (i, g', rest))"
  shows "sf_inv g'" "int (unat i) = sf_last_id g'" "sf_last_id g < int (unat i)" "sf_epochMs g' = sf_epochMs g"
    "sf_machineID g' = sf_machineID g" "sf_clock_ok (sf_epochMs g) rest" "length rest < length clock"
proof -
  obtain now clock1 where c: "clock = now # clock1"
    using assms(3) by (cases clock) (auto simp: sf_NextID_def)
  have now: "0 \<le> now - sf_epochMs g" "now - sf_epochMs g < 2 ^ 42"
    using assms(2) by (simp_all add: c sf_clock_ok_def)
  have s: "unat (sf_sequence g) < 4096" "unat (sf_machineID g) < 1024"
    using assms(1) by (simp_all add: sf_inv_def word_less_nat_alt)
  obtain ts sq where r: "g' = g\<lparr>sf_sequence := sq, sf_lastTimestamp := ts\<rparr>" "i = sf_id ts (sf_machineID g) sq"
    "0 \<le> ts" "ts < 2 ^ 42" "sq < 4096" "length rest < length clock" "set rest \<subseteq> set clock"
    "sf_lastTimestamp g < ts \<or> sf_lastTimestamp g = ts \<and> unat (sf_sequence g) < unat sq"
  proof (cases "now - sf_epochMs g = sf_lastTimestamp g \<and> (sf_sequence g + 1) AND 4095 = 0")
    case True
    then obtain ts where sp: "sf_spin (sf_epochMs g) (sf_lastTimestamp g) clock1 = Some (ts, rest)"
      "g' = g\<lparr>sf_sequence := 0, sf_lastTimestamp := ts\<rparr>" "i = sf_id ts (sf_machineID g) 0"
      using assms(3) by (auto simp: c sf_NextID_def Let_def split: option.splits)
    note q = sf_spin_rest [OF sp(1)]
    have "sf_epochMs g \<le> ts + sf_epochMs g" "ts < 2 ^ 42"
      using q assms(2) unfolding sf_clock_ok_def c by fastforce+
    then show thesis using q sp by (intro that [of ts 0]) (auto simp: c)
  next
    case False
    let ?sq = "(if now - sf_epochMs g = sf_lastTimestamp g then (sf_sequence g + 1) AND 4095 else 0)"
    have g: "\<not> now - sf_epochMs g < sf_lastTimestamp g" "rest = clock1"
      "g' = g\<lparr>sf_sequence := ?sq, sf_lastTimestamp := now - sf_epochMs g\<rparr>"
      "i = sf_id (now - sf_epochMs g) (sf_machineID g) ?sq"
      using assms(3) False by (auto simp: c sf_NextID_def Let_def split: if_splits)
    have "(4095 :: u64) = mask 12" by (simp add: mask_eq_exp_minus_1)
    then have "unat ((sf_sequence g + 1) AND 4095) = (unat (sf_sequence g) + 1) mod 4096"
      using s(1) unat_and_mask [of "sf_sequence g + 1" 12] by (simp add: unat_word_ariths)
    moreover from this have "unat (sf_sequence g) < unat ((sf_sequence g + 1) AND 4095)"
      if "(sf_sequence g + 1) AND 4095 \<noteq> 0"
      using that s(1) by (cases "unat (sf_sequence g) = 4095") (auto simp: unat_eq_zero)
    ultimately show thesis
      using g now False by (intro that [of "now - sf_epochMs g" ?sq]) (auto simp: c word_less_nat_alt)
  qed
  have id: "unat i = nat ts * 2 ^ 22 + unat (sf_machineID g) * 2 ^ 12 + unat sq"
    using r assms(1) by (simp add: sf_id_layout sf_inv_def)
  have "unat sq < 4096" using r(5) by (simp add: word_less_nat_alt)
  show "sf_inv g'" "sf_epochMs g' = sf_epochMs g" "sf_machineID g' = sf_machineID g"
    "sf_clock_ok (sf_epochMs g) rest" "length rest < length clock"
    using r assms(1,2) by (auto simp: sf_inv_def sf_clock_ok_def)
  show eq: "int (unat i) = sf_last_id g'" using id r(1,3) by (simp add: sf_last_id_def)
  show "sf_last_id g < int (unat i)"
  proof -
    have "sf_last_id g' = ts * 2 ^ 22 + int (unat (sf_machineID g)) * 2 ^ 12 + int (unat sq)"
      using r(1) by (simp add: sf_last_id_def)
    then show ?thesis
      unfolding eq using sf_layout_less [OF s(1) \<open>unat sq < 4096\<close> r(8)] by (simp only: sf_last_id_def)
  qed
qed

lemma sf_machine_bits:
  fixes a :: int and b c i :: nat
  assumes "int i = a * 2 ^ 22 + int b * 2 ^ 12 + int c" "b < 1024" "c < 4096"
  shows "i div 2 ^ 12 mod 1024 = b"
proof -
  have "int i = int c + (a * 1024 + int b) * 4096" using assms(1) by simp
  then have "int i div 2 ^ 12 = a * 1024 + int b" using assms(3) by simp
  then have "int i div 2 ^ 12 mod 1024 = int b" using assms(2) by simp
  then have "int (i div 2 ^ 12 mod 1024) = int b" by (simp add: zdiv_int zmod_int)
  then show ?thesis by (simp only: of_nat_eq_iff)
qed

lemma sf_ids_increase:
  assumes "sf_inv g" "sf_clock_ok (sf_epochMs g) clock"
  shows "sorted_wrt (<) (map unat (sf_ids clock g)) \<and> (\<forall>i \<in> set (sf_ids clock g). sf_last_id g < int (unat i)) \<and>
    (\<forall>i \<in> set (sf_ids clock g). unat i div 2 ^ 12 mod 1024 = unat (sf_machineID g))"
  using assms
proof (induction clock g rule: sf_ids.induct)
  case (1 clock g)
  show ?case
  proof (cases "\<exists>i g' rest. sf_NextID clock g = Inr (Some (i, g', rest))")
    case False
    then have "sf_ids clock g = []"
      by (subst sf_ids.simps) (auto split: sum.split option.split prod.split)
    then show ?thesis by simp
  next
    case True
    then obtain i g' rest where n: "sf_NextID clock g = Inr (Some (i, g', rest))" by blast
    note s = sf_NextID_increases [OF 1(2,3) n]
    have ids: "sf_ids clock g = i # sf_ids rest g'" using n s(7) by (subst sf_ids.simps) simp
    have IH: "sorted_wrt (<) (map unat (sf_ids rest g'))" "\<forall>j \<in> set (sf_ids rest g'). sf_last_id g' < int (unat j)"
      "\<forall>j \<in> set (sf_ids rest g'). unat j div 2 ^ 12 mod 1024 = unat (sf_machineID g)"
      using 1(1) [OF n refl refl refl s(7) s(1)] s(4-6) n by auto
    have m: "unat i div 2 ^ 12 mod 1024 = unat (sf_machineID g)"
    proof -
      have b: "unat (sf_machineID g) < 1024" "unat (sf_sequence g') < 4096"
        using 1(2) s(1) by (simp_all add: sf_inv_def word_less_nat_alt)
      have "int (unat i) = sf_lastTimestamp g' * 2 ^ 22 + int (unat (sf_machineID g)) * 2 ^ 12 + int (unat (sf_sequence g'))"
        using s(2,5) by (simp add: sf_last_id_def)
      then show ?thesis by (rule sf_machine_bits) (use b in simp_all)
    qed
    have lt: "int (unat i) < int (unat j)" if "j \<in> set (sf_ids rest g')" for j
      using IH(2) s(2) that by simp
    have "sf_last_id g < int (unat j)" if "j \<in> set (sf_ids rest g')" for j
      using lt [OF that] s(3) by (rule less_trans [rotated])
    moreover have "unat i < unat j" if "j \<in> set (sf_ids rest g')" for j
      using lt [OF that] by (simp only: of_nat_less_iff)
    ultimately show ?thesis using IH(1,3) s(3) m unfolding ids by simp
  qed
qed

text \<open>
  C31. For a machine id that the constructor accepts and clock readings within 42 bits of
  milliseconds from the epoch, the ids of all calls are strictly increasing, hence distinct, and
  each carries the machine id, so ids of different machines differ too.
\<close>

theorem sf_ids_unique:
  assumes "sf_clock_ok epoch clock" "NewSnowflakeGenerator m epoch = Inr g"
  shows "sorted_wrt (<) (map unat (sf_ids clock g)) \<and> distinct (sf_ids clock g) \<and>
    (\<forall>i \<in> set (sf_ids clock g). unat i div 2 ^ 12 mod 1024 = unat m)"
proof -
  have g: "sf_inv g" "sf_epochMs g = epoch" "sf_machineID g = m"
    using assms(2) by (auto simp: NewSnowflakeGenerator_def sf_inv_def word_less_nat_alt word_le_nat_alt split: if_splits)
  have s: "sorted_wrt (<) (map unat (sf_ids clock g))"
    "\<forall>i \<in> set (sf_ids clock g). unat i div 2 ^ 12 mod 1024 = unat m"
    using sf_ids_increase [OF g(1), of clock] assms(1) g(2,3) by simp_all
  moreover have "distinct (map unat (sf_ids clock g))"
    using s(1) strict_sorted_iff by blast
  ultimately show ?thesis by (simp add: distinct_map)
qed

theorem sf_ids_unique_witness:
  "\<exists>g. NewSnowflakeGenerator 7 1000 = Inr g \<and> distinct (sf_ids [1005, 1005, 1006] g) \<and>
    (\<forall>i \<in> set (sf_ids [1005, 1005, 1006] g). unat i div 2 ^ 12 mod 1024 = 7)"
proof -
  obtain g where g: "NewSnowflakeGenerator 7 1000 = Inr g" by (simp add: NewSnowflakeGenerator_def)
  have "sf_clock_ok 1000 [1005, 1005, 1006]" by (simp add: sf_clock_ok_def)
  from sf_ids_unique [OF this g] g show ?thesis by auto
qed

end
