(* ===== verification/Parallel_Map.thy ===== *)
theory Parallel_Map
  imports Go_Prelude
begin

text \<open>
  \<open>13-Worker-Pool/main.go\<close> and \<open>18-Fan-Out-Fan-In/main.go\<close>: a dispatcher hands the indices of a
  slice over an unbuffered channel to a number of worker goroutines, which write
  \<open>results[index] = handler(...)\<close>. A step is one rendezvous on the channel or one worker finishing;
  the steps of different goroutines interleave in any order. The call returns once the dispatcher
  has sent every index (and closed the channel) and every worker is back at its \<open>range\<close>, which then
  ends: \<open>wg.Wait\<close>. The two functions differ in their guard on the number of workers.
\<close>

record 'o pool_state =
  pm_next :: nat
  pm_workers :: "nat option list"
  pm_results :: "'o list"

datatype pool_event = PmSend nat | PmFinish nat

inductive pm_step :: "('i \<Rightarrow> 'o) \<Rightarrow> 'i list \<Rightarrow> 'o pool_state \<Rightarrow> pool_event \<Rightarrow> 'o pool_state \<Rightarrow> bool"
  for handler :: "'i \<Rightarrow> 'o" and jobs :: "'i list" where
  pm_send: "pm_next s < length jobs \<Longrightarrow> w < length (pm_workers s) \<Longrightarrow> pm_workers s ! w = None \<Longrightarrow>
     pm_step handler jobs s (PmSend w)
       (s\<lparr>pm_next := pm_next s + 1, pm_workers := (pm_workers s)[w := Some (pm_next s)]\<rparr>)"
| pm_finish: "w < length (pm_workers s) \<Longrightarrow> pm_workers s ! w = Some i \<Longrightarrow>
     pm_step handler jobs s (PmFinish w)
       (s\<lparr>pm_results := (pm_results s)[i := handler (jobs ! i)], pm_workers := (pm_workers s)[w := None]\<rparr>)"

inductive_cases pm_stepE: "pm_step handler jobs s e s'"

definition pm_returned :: "'i list \<Rightarrow> 'o pool_state \<Rightarrow> bool" where
  "pm_returned jobs s \<longleftrightarrow> pm_next s = length jobs \<and> (\<forall>w \<in> set (pm_workers s). w = None)"

definition pm_init :: "'o \<Rightarrow> int \<Rightarrow> 'i list \<Rightarrow> 'o pool_state" where
  "pm_init zero workers jobs =
     \<lparr>pm_next = 0, pm_workers = replicate (nat workers) None, pm_results = replicate (length jobs) zero\<rparr>"

definition RunWorkerPool :: "'o \<Rightarrow> int \<Rightarrow> 'i list \<Rightarrow> 'o pool_state outcome" where
  "RunWorkerPool zero workers jobs =
     (if workers \<le> 0 then Inl ExitOne else Inr (pm_init zero workers jobs))"

definition FanOutFanIn :: "'o \<Rightarrow> 'i list \<Rightarrow> int \<Rightarrow> 'o pool_state" where
  "FanOutFanIn zero items workers = pm_init zero workers items"

subsection \<open>Invariant\<close>

definition pm_busy :: "nat option list \<Rightarrow> nat list" where
  "pm_busy ws = List.map_filter id ws"

lemma pm_busy_simps [simp]:
  "pm_busy [] = []" "pm_busy (None # ws) = pm_busy ws" "pm_busy (Some i # ws) = i # pm_busy ws"
  by (simp_all add: pm_busy_def map_filter_simps)

lemma pm_busy_replicate [simp]: "pm_busy (replicate n None) = []"
  by (induction n) simp_all

lemma pm_busy_start:
  "w < length ws \<Longrightarrow> ws ! w = None \<Longrightarrow> mset (pm_busy (ws[w := Some i])) = add_mset i (mset (pm_busy ws))"
proof (induction ws arbitrary: w)
  case (Cons x ws)
  then show ?case by (cases w; cases x) auto
qed simp

lemma pm_busy_end:
  "w < length ws \<Longrightarrow> ws ! w = Some i \<Longrightarrow> mset (pm_busy ws) = add_mset i (mset (pm_busy (ws[w := None])))"
proof (induction ws arbitrary: w)
  case (Cons x ws)
  then show ?case by (cases w; cases x) auto
qed simp

lemma pm_busy_None: "pm_busy ws = [] \<longleftrightarrow> (\<forall>w \<in> set ws. w = None)"
proof (induction ws)
  case (Cons x ws)
  then show ?case by (cases x) auto
qed simp

text \<open>
  Every index sent is finished or in the hands of exactly one worker, so no two workers write the
  same element, and no index is out of range.
\<close>

definition pm_inv :: "('i \<Rightarrow> 'o) \<Rightarrow> 'i list \<Rightarrow> nat \<Rightarrow> 'o pool_state \<Rightarrow> bool" where
  "pm_inv handler jobs n s \<longleftrightarrow> length (pm_results s) = length jobs \<and> length (pm_workers s) = n \<and>
     pm_next s \<le> length jobs \<and> distinct (pm_busy (pm_workers s)) \<and>
     (\<forall>i \<in> set (pm_busy (pm_workers s)). i < pm_next s) \<and>
     (\<forall>i < pm_next s. i \<in> set (pm_busy (pm_workers s)) \<or> pm_results s ! i = handler (jobs ! i))"

definition pm_todo :: "'i list \<Rightarrow> 'o pool_state \<Rightarrow> nat" where
  "pm_todo jobs s = 2 * (length jobs - pm_next s) + length (pm_busy (pm_workers s))"

lemma pm_step_inv:
  assumes "pm_step handler jobs s e s'" "pm_inv handler jobs n s"
  shows "pm_inv handler jobs n s'" "pm_todo jobs s = Suc (pm_todo jobs s')"
proof -
  have "pm_inv handler jobs n s' \<and> pm_todo jobs s = Suc (pm_todo jobs s')"
    using assms(1)
  proof (cases rule: pm_step.cases)
    case (pm_send w)
    have m: "mset (pm_busy (pm_workers s')) = add_mset (pm_next s) (mset (pm_busy (pm_workers s)))"
      using pm_busy_start pm_send by simp
    then have st: "set (pm_busy (pm_workers s')) = insert (pm_next s) (set (pm_busy (pm_workers s)))"
      and len: "length (pm_busy (pm_workers s')) = Suc (length (pm_busy (pm_workers s)))"
      and d: "distinct (pm_busy (pm_workers s'))"
      using assms(2) unfolding pm_inv_def
      by (metis set_mset_add_mset_insert set_mset_mset, metis size_add_mset size_mset,
          metis distinct.simps(2) less_irrefl mset.simps(2) mset_eq_imp_distinct_iff)
    then show ?thesis
      using assms(2) pm_send by (auto simp: pm_inv_def pm_todo_def less_Suc_eq)
  next
    case (pm_finish w i)
    have m: "mset (pm_busy (pm_workers s)) = add_mset i (mset (pm_busy (pm_workers s')))"
      using pm_busy_end [of w "pm_workers s" i] pm_finish by simp
    have d: "distinct (i # pm_busy (pm_workers s'))"
      using assms(2) m unfolding pm_inv_def by (metis mset.simps(2) mset_eq_imp_distinct_iff)
    have st: "set (pm_busy (pm_workers s)) = insert i (set (pm_busy (pm_workers s')))"
      and len: "length (pm_busy (pm_workers s)) = Suc (length (pm_busy (pm_workers s')))"
      using m by (metis set_mset_add_mset_insert set_mset_mset, metis size_add_mset size_mset)
    then show ?thesis
      using assms(2) pm_finish d by (auto simp: pm_inv_def pm_todo_def nth_list_update)
  qed
  then show "pm_inv handler jobs n s'" "pm_todo jobs s = Suc (pm_todo jobs s')" by auto
qed

lemma pm_runs_inv:
  assumes "runs (pm_step handler jobs) s es s'" "pm_inv handler jobs n s"
  shows "pm_inv handler jobs n s' \<and> pm_todo jobs s = length es + pm_todo jobs s'"
  using assms
proof (induction rule: runs.induct)
  case (runs_Cons s e s' es s'')
  then show ?case using pm_step_inv [OF runs_Cons.hyps(1) runs_Cons.prems] by simp
qed simp

lemma pm_init_inv: "pm_inv handler jobs (nat workers) (pm_init zero workers jobs)"
  "pm_todo jobs (pm_init zero workers jobs) = 2 * length jobs"
  by (simp_all add: pm_inv_def pm_todo_def pm_init_def)

lemma pm_runs_init:
  assumes "runs (pm_step handler jobs) (pm_init zero workers jobs) es s"
  shows "pm_inv handler jobs (nat workers) s" "2 * length jobs = length es + pm_todo jobs s"
  using pm_runs_inv [OF assms pm_init_inv(1)] pm_init_inv(2) [of jobs zero workers] by auto

lemma pm_returned_results:
  assumes "pm_inv handler jobs n s" "pm_returned jobs s"
  shows "pm_results s = map handler jobs"
  using assms pm_busy_None [of "pm_workers s"]
  by (intro nth_equalityI) (auto simp: pm_inv_def pm_returned_def)

text \<open>With a worker, a call that has not returned can always go on.\<close>

lemma pm_progress:
  assumes "pm_inv handler jobs n s" "0 < n" "\<not> pm_returned jobs s"
  shows "\<exists>e s'. pm_step handler jobs s e s'"
proof (cases "\<forall>w \<in> set (pm_workers s). w = None")
  case True
  have "0 < length (pm_workers s)" using assms(1,2) by (simp add: pm_inv_def)
  moreover from this have "pm_workers s ! 0 = None" using True by simp
  moreover have "pm_next s < length jobs"
    using assms(1,3) True by (auto simp: pm_inv_def pm_returned_def)
  ultimately show ?thesis using pm_send by blast
next
  case False
  then obtain w i where "w < length (pm_workers s)" "pm_workers s ! w = Some i"
    by (metis in_set_conv_nth option.exhaust)
  then show ?thesis using pm_finish by blast
qed

text \<open>Hence every run can be completed.\<close>

lemma pm_completes:
  assumes "pm_inv handler jobs n s" "0 < n"
  shows "\<exists>es s'. runs (pm_step handler jobs) s es s' \<and> pm_returned jobs s'"
  using assms(1)
proof (induction "pm_todo jobs s" arbitrary: s rule: less_induct)
  case less
  show ?case
  proof (cases "pm_returned jobs s")
    case True
    then show ?thesis by (intro exI conjI) (rule runs_Nil)
  next
    case False
    then obtain e s1 where st: "pm_step handler jobs s e s1" using pm_progress [OF less.prems assms(2)] by blast
    from pm_step_inv [OF st less.prems] have "\<exists>es s'. runs (pm_step handler jobs) s1 es s' \<and> pm_returned jobs s'"
      by (intro less.hyps) simp_all
    then obtain es s' where "runs (pm_step handler jobs) s1 es s'" "pm_returned jobs s'" by blast
    then show ?thesis using runs_Cons [of "pm_step handler jobs" s e s1, OF st] by blast
  qed
qed

text \<open>
  C32. For a positive number of workers, whatever the interleaving: the pool never blocks before it
  returns, it returns after at most two steps per job, and the results are then the handler's
  results in the order of the jobs.
\<close>

theorem RunWorkerPool_maps:
  assumes "RunWorkerPool zero workers jobs = Inr s0" "runs (pm_step handler jobs) s0 es s"
  shows "(\<not> pm_returned jobs s \<longrightarrow> (\<exists>e s'. pm_step handler jobs s e s')) \<and>
    length es \<le> 2 * length jobs \<and> (length es = 2 * length jobs \<longrightarrow> pm_returned jobs s) \<and>
    (pm_returned jobs s \<longrightarrow> pm_results s = map handler jobs)"
proof -
  have w: "0 < nat workers" "s0 = pm_init zero workers jobs"
    using assms(1) by (auto simp: RunWorkerPool_def split: if_splits)
  have r: "pm_inv handler jobs (nat workers) s" "2 * length jobs = length es + pm_todo jobs s"
    using pm_runs_init [OF assms(2) [unfolded w(2)]] by simp_all
  have "pm_returned jobs s" if "pm_todo jobs s = 0"
    using that r(1) pm_busy_None [of "pm_workers s"]
    by (auto simp: pm_todo_def pm_inv_def pm_returned_def)
  then show ?thesis using pm_progress [OF r(1) w(1)] pm_returned_results [OF r(1)] r(2) by auto
qed

theorem RunWorkerPool_maps_witness:
  "\<exists>s0 s. RunWorkerPool (0 :: int) 1 [5 :: int] = Inr s0 \<and>
     runs (pm_step (\<lambda>x. x * x) [5]) s0 [PmSend 0, PmFinish 0] s \<and> pm_results s = [25]"
proof -
  let ?s0 = "pm_init (0 :: int) 1 [5 :: int]"
  let ?s1 = "\<lparr>pm_next = 1, pm_workers = [Some 0], pm_results = [0 :: int]\<rparr>"
  let ?s2 = "\<lparr>pm_next = 1, pm_workers = [None], pm_results = [25 :: int]\<rparr>"
  have i: "RunWorkerPool (0 :: int) 1 [5 :: int] = Inr ?s0" by (simp add: RunWorkerPool_def)
  have "pm_step (\<lambda>x. x * x) [5] ?s0 (PmSend 0) ?s1"
    using pm_send [of ?s0 "[5 :: int]" 0 "\<lambda>x. x * x"] by (simp add: pm_init_def)
  moreover have "pm_step (\<lambda>x. x * x) [5] ?s1 (PmFinish 0) ?s2"
    using pm_finish [of 0 ?s1 0 "\<lambda>x :: int. x * x" "[5]"] by simp
  ultimately have r: "runs (pm_step (\<lambda>x. x * x) [5]) ?s0 [PmSend 0, PmFinish 0] ?s2"
    by (auto intro: runs.intros)
  from RunWorkerPool_maps [OF i r] i r show ?thesis by auto
qed

text \<open>
  \<open>FanOutFanIn\<close> maps the handler over the items in the same way when it has a worker; without
  one (its argument is not checked) it blocks for ever on its first send unless there are no
  items.
\<close>

theorem FanOutFanIn_maps:
  assumes "runs (pm_step handler items) (FanOutFanIn zero items workers) es s"
  shows "(pm_returned items s \<longrightarrow> pm_results s = map handler items) \<and>
    (0 < workers \<longrightarrow> (pm_returned items s \<or> (\<exists>e s'. pm_step handler items s e s')) \<and> length es \<le> 2 * length items) \<and>
    (workers \<le> 0 \<longrightarrow> items \<noteq> [] \<longrightarrow> \<not> pm_returned items s \<and> \<not> (\<exists>e s'. pm_step handler items s e s'))"
proof -
  have r: "pm_inv handler items (nat workers) s" "2 * length items = length es + pm_todo items s"
    using pm_runs_init [OF assms [unfolded FanOutFanIn_def]] by simp_all
  have "s = FanOutFanIn zero items workers" "\<not> (\<exists>e s'. pm_step handler items s e s')" if "workers \<le> 0"
  proof -
    have none: "\<not> pm_step handler items t e t'" if "pm_workers t = []" for t e t'
      using that by (auto elim: pm_stepE)
    have "pm_workers (FanOutFanIn zero items workers) = []" using that by (simp add: FanOutFanIn_def pm_init_def)
    then show "s = FanOutFanIn zero items workers" "\<not> (\<exists>e s'. pm_step handler items s e s')"
      using assms none by (auto elim: runs.cases)
  qed
  then have "\<not> pm_returned items s \<and> \<not> (\<exists>e s'. pm_step handler items s e s')" if "workers \<le> 0" "items \<noteq> []"
    using that by (simp add: pm_returned_def FanOutFanIn_def pm_init_def)
  then show ?thesis using pm_progress [OF r(1)] pm_returned_results [OF r(1)] r(2) by auto
qed

theorem FanOutFanIn_maps_witness:
  "\<not> pm_returned [1 :: int] (FanOutFanIn (0 :: int) [1 :: int] 0) \<and>
   \<not> (\<exists>e s'. pm_step (\<lambda>x :: int. x) [1] (FanOutFanIn (0 :: int) [1 :: int] 0) e s')"
proof -
  have "runs (pm_step (\<lambda>x :: int. x) [1]) (FanOutFanIn (0 :: int) [1 :: int] 0) [] (FanOutFanIn (0 :: int) [1 :: int] 0)"
    by (rule runs_Nil)
  from FanOutFanIn_maps [OF this] show ?thesis by simp
qed

end
