(* ===== verification/Channels.thy ===== *)
theory Channels
  imports Go_Prelude
begin

text \<open>
  The components that are a thin layer over a buffered channel: \<open>15-Semaphore\<close>,
  \<open>17-Channel-Pool\<close>, \<open>19-Producer-Consumer\<close>, and \<open>16-Read-Write-Lock\<close> over \<open>sync.RWMutex\<close>. A channel is
  its capacity and the queue of buffered values; an operation that would block gives \<open>None\<close> and
  is not a step. The steps are the completed operations of any number of goroutines, in any
  order.
\<close>

record 'a channel =
  ch_cap :: nat
  ch_buf :: "'a list"

definition make_chan :: "nat \<Rightarrow> 'a channel" where
  "make_chan c = \<lparr>ch_cap = c, ch_buf = []\<rparr>"

definition chan_send :: "'a \<Rightarrow> 'a channel \<Rightarrow> 'a channel option" where
  "chan_send v c = (if length (ch_buf c) < ch_cap c then Some (c\<lparr>ch_buf := ch_buf c @ [v]\<rparr>) else None)"

definition chan_recv :: "'a channel \<Rightarrow> ('a \<times> 'a channel) option" where
  "chan_recv c = (case ch_buf c of [] \<Rightarrow> None | v # rest \<Rightarrow> Some (v, c\<lparr>ch_buf := rest\<rparr>))"

text \<open>
  What the layers rely on: a channel is a bounded FIFO. Stated as a locale over the two
  operations, so that the components use the laws and not the representation.
\<close>

locale bounded_fifo =
  fixes snd_op :: "'a \<Rightarrow> 'c \<Rightarrow> 'c option" and rcv_op :: "'c \<Rightarrow> ('a \<times> 'c) option"
    and content :: "'c \<Rightarrow> 'a list" and bound :: "'c \<Rightarrow> nat"
  assumes send_blocks: "snd_op v c = None \<longleftrightarrow> bound c \<le> length (content c)"
    and send_law: "snd_op v c = Some c' \<Longrightarrow> content c' = content c @ [v] \<and> bound c' = bound c"
    and recv_blocks: "rcv_op c = None \<longleftrightarrow> content c = []"
    and recv_law: "rcv_op c = Some (v, c') \<Longrightarrow> content c = v # content c' \<and> bound c' = bound c"
begin

text \<open>The events of a channel's users: values sent and values received.\<close>

inductive fifo_step :: "'c \<Rightarrow> 'a + 'a \<Rightarrow> 'c \<Rightarrow> bool" where
  fifo_send: "snd_op v c = Some c' \<Longrightarrow> fifo_step c (Inl v) c'"
| fifo_recv: "rcv_op c = Some (v, c') \<Longrightarrow> fifo_step c (Inr v) c'"

definition sent :: "('a + 'a) list \<Rightarrow> 'a list" where
  "sent es = List.map_filter (case_sum Some (\<lambda>_. None)) es"

definition received :: "('a + 'a) list \<Rightarrow> 'a list" where
  "received es = List.map_filter (case_sum (\<lambda>_. None) Some) es"

lemma events_simps [simp]:
  "sent [] = []" "sent (Inl v # es) = v # sent es" "sent (Inr v # es) = sent es"
  "received [] = []" "received (Inl v # es) = received es" "received (Inr v # es) = v # received es"
  by (simp_all add: sent_def received_def map_filter_simps)

text \<open>Conservation and order: what was in the channel and sent is what was received and is left.\<close>

lemma fifo_conservation:
  assumes "runs fifo_step c es c'"
  shows "content c @ sent es = received es @ content c' \<and> bound c' = bound c"
  using assms
proof (induction rule: runs.induct)
  case (runs_Cons c e c' es c'')
  from runs_Cons.hyps(1) show ?case
  proof (cases rule: fifo_step.cases)
    case (fifo_send v)
    then show ?thesis using send_law runs_Cons.IH by fastforce
  next
    case (fifo_recv v)
    then show ?thesis using recv_law runs_Cons.IH by fastforce
  qed
qed simp

lemma fifo_bounded:
  assumes "runs fifo_step c es c'" "length (content c) \<le> bound c"
  shows "length (content c') \<le> bound c'"
  using assms
proof (rule runs_invariant)
  fix s e s'
  assume le: "length (content s) \<le> bound s" and "fifo_step s e s'"
  from this(2) show "length (content s') \<le> bound s'"
  proof (cases rule: fifo_step.cases)
    case (fifo_send v)
    then have "length (content s) < bound s" using send_blocks [of v s] by (simp add: not_le)
    then show ?thesis using send_law fifo_send by fastforce
  next
    case (fifo_recv v)
    then show ?thesis using recv_law le by fastforce
  qed
qed

end

interpretation go_chan: bounded_fifo chan_send chan_recv "ch_buf :: 'a channel \<Rightarrow> 'a list" ch_cap
  by unfold_locales (auto simp: chan_send_def chan_recv_def split: list.splits if_splits)

lemma make_chan_simps [simp]: "ch_buf (make_chan c) = []" "ch_cap (make_chan c) = c"
  by (simp_all add: make_chan_def)

subsection \<open>Semaphore\<close>

type_synonym semaphore = "unit channel"

definition NewSemaphore :: "int \<Rightarrow> semaphore outcome" where
  "NewSemaphore permits = (if permits \<le> 0 then Inl ExitOne else Inr (make_chan (nat permits)))"

definition sem_Acquire :: "semaphore \<Rightarrow> semaphore option" where
  "sem_Acquire s = chan_send () s"

definition sem_Release :: "semaphore \<Rightarrow> semaphore option" where
  "sem_Release s = map_option snd (chan_recv s)"

datatype sem_event = SemAcquire | SemRelease

inductive sem_step :: "semaphore \<Rightarrow> sem_event \<Rightarrow> semaphore \<Rightarrow> bool" where
  sem_acquire: "sem_Acquire s = Some s' \<Longrightarrow> sem_step s SemAcquire s'"
| sem_release: "sem_Release s = Some s' \<Longrightarrow> sem_step s SemRelease s'"

text \<open>A semaphore step is a channel step.\<close>

definition sem_chan_event :: "sem_event \<Rightarrow> unit + unit" where
  "sem_chan_event e = (case e of SemAcquire \<Rightarrow> Inl () | SemRelease \<Rightarrow> Inr ())"

lemma sem_runs_chan:
  "runs sem_step s es s' \<Longrightarrow> runs go_chan.fifo_step s (map sem_chan_event es) s'"
proof (induction rule: runs.induct)
  case (runs_Cons s e s' es s'')
  from runs_Cons.hyps(1) have "go_chan.fifo_step s (sem_chan_event e) s'"
    by (cases rule: sem_step.cases)
      (auto simp: sem_Acquire_def sem_Release_def sem_chan_event_def intro: go_chan.fifo_step.intros)
  then show ?case using runs_Cons.IH by (auto intro: runs.intros)
qed (simp add: runs_Nil)

lemma sem_sent: "length (go_chan.sent (map sem_chan_event es)) = count_list es SemAcquire"
  "length (go_chan.received (map sem_chan_event es)) = count_list es SemRelease"
proof -
  have "length (go_chan.sent (map sem_chan_event es)) = count_list es SemAcquire \<and>
    length (go_chan.received (map sem_chan_event es)) = count_list es SemRelease"
  proof (induction es)
    case (Cons e es)
    then show ?case by (cases e) (simp_all add: sem_chan_event_def)
  qed simp
  then show "length (go_chan.sent (map sem_chan_event es)) = count_list es SemAcquire"
    "length (go_chan.received (map sem_chan_event es)) = count_list es SemRelease" by auto
qed

text \<open>
  At every moment of every interleaving the acquisitions exceed the releases by at most the
  number of permits, and never fall below them; \<open>Acquire\<close> blocks exactly when all permits are out.
\<close>

theorem sem_permits:
  assumes "NewSemaphore permits = Inr s0" "runs sem_step s0 es s"
  shows "count_list es SemRelease \<le> count_list es SemAcquire \<and>
    int (count_list es SemAcquire) - int (count_list es SemRelease) \<le> permits \<and>
    (sem_Acquire s = None \<longleftrightarrow> int (count_list es SemAcquire) - int (count_list es SemRelease) = permits)"
proof -
  have s0: "s0 = make_chan (nat permits)" "0 < permits"
    using assms(1) by (auto simp: NewSemaphore_def split: if_splits)
  note r = sem_runs_chan [OF assms(2)]
  have b: "length (ch_buf s) \<le> ch_cap s" using go_chan.fifo_bounded [OF r] s0 by simp
  have "ch_buf s0 @ go_chan.sent (map sem_chan_event es) = go_chan.received (map sem_chan_event es) @ ch_buf s"
    and cap: "ch_cap s = ch_cap s0" using go_chan.fifo_conservation [OF r] by auto
  then have "length (ch_buf s0) + count_list es SemAcquire = count_list es SemRelease + length (ch_buf s)"
    by (metis length_append sem_sent)
  then show ?thesis
    using b cap s0 by (auto simp: sem_Acquire_def go_chan.send_blocks)
qed

theorem sem_permits_witness:
  "\<exists>s0 s. NewSemaphore 1 = Inr s0 \<and> runs sem_step s0 [SemAcquire] s \<and> sem_Acquire s = None"
proof -
  have i: "NewSemaphore 1 = Inr (make_chan 1)" by (simp add: NewSemaphore_def)
  have "sem_step (make_chan 1) SemAcquire \<lparr>ch_cap = 1, ch_buf = [()]\<rparr>"
    by (rule sem_acquire) (simp add: sem_Acquire_def chan_send_def make_chan_def)
  then have r: "runs sem_step (make_chan 1) [SemAcquire] \<lparr>ch_cap = 1, ch_buf = [()]\<rparr>"
    by (auto intro: runs.intros)
  from sem_permits [OF i r] i r show ?thesis by auto
qed

subsection \<open>Bounded queue\<close>

type_synonym 'a bounded_queue = "'a channel"

definition NewBoundedQueue :: "int \<Rightarrow> 'a bounded_queue outcome" where
  "NewBoundedQueue capacity = (if capacity \<le> 0 then Inl ExitOne else Inr (make_chan (nat capacity)))"

definition bq_Enqueue :: "'a \<Rightarrow> 'a bounded_queue \<Rightarrow> 'a bounded_queue option" where
  "bq_Enqueue v q = chan_send v q"

definition bq_Dequeue :: "'a bounded_queue \<Rightarrow> ('a \<times> 'a bounded_queue) option" where
  "bq_Dequeue q = chan_recv q"

inductive bq_step :: "'a bounded_queue \<Rightarrow> 'a + 'a \<Rightarrow> 'a bounded_queue \<Rightarrow> bool" where
  bq_enqueue: "bq_Enqueue v q = Some q' \<Longrightarrow> bq_step q (Inl v) q'"
| bq_dequeue: "bq_Dequeue q = Some (v, q') \<Longrightarrow> bq_step q (Inr v) q'"

lemma bq_runs_chan: "runs bq_step q es q' \<Longrightarrow> runs go_chan.fifo_step q es q'"
proof (induction rule: runs.induct)
  case (runs_Cons q e q' es q'')
  from runs_Cons.hyps(1) have "go_chan.fifo_step q e q'"
    by (cases rule: bq_step.cases)
      (auto simp: bq_Enqueue_def bq_Dequeue_def intro: go_chan.fifo_step.intros)
  then show ?case using runs_Cons.IH by (auto intro: runs.intros)
qed (simp add: runs_Nil)

text \<open>
  C38. A bounded queue is a FIFO under any interleaving of producers and consumers: the values
  dequeued so far are the first of those enqueued, in order and without loss or duplication; at
  most \<open>capacity\<close> are waiting, an \<open>Enqueue\<close> blocks exactly when that many are, and a \<open>Dequeue\<close>
  exactly when none is.
\<close>

theorem bq_fifo:
  assumes "NewBoundedQueue capacity = Inr q0" "runs bq_step q0 es q"
  shows "go_chan.sent es = go_chan.received es @ ch_buf q \<and> int (length (ch_buf q)) \<le> capacity \<and>
    (bq_Enqueue v q = None \<longleftrightarrow> int (length (ch_buf q)) = capacity) \<and> (bq_Dequeue q = None \<longleftrightarrow> ch_buf q = [])"
proof -
  have q0: "q0 = make_chan (nat capacity)" "0 < capacity"
    using assms(1) by (auto simp: NewBoundedQueue_def split: if_splits)
  note r = bq_runs_chan [OF assms(2)]
  have "length (ch_buf q) \<le> ch_cap q" using go_chan.fifo_bounded [OF r] q0 by simp
  moreover have "go_chan.sent es = go_chan.received es @ ch_buf q" "ch_cap q = nat capacity"
    using go_chan.fifo_conservation [OF r] q0 by simp_all
  ultimately show ?thesis
    using q0 by (auto simp: bq_Enqueue_def bq_Dequeue_def go_chan.send_blocks go_chan.recv_blocks)
qed

theorem bq_fifo_witness:
  "\<exists>q0 q. NewBoundedQueue 2 = Inr q0 \<and> runs bq_step q0 [Inl True, Inl False, Inr True] q \<and> ch_buf q = [False]"
proof -
  have i: "NewBoundedQueue 2 = Inr (make_chan 2)" by (simp add: NewBoundedQueue_def)
  have "runs bq_step (make_chan 2) [Inl True, Inl False, Inr True] \<lparr>ch_cap = 2, ch_buf = [False]\<rparr>"
    by (rule runs_Cons [where s' = "\<lparr>ch_cap = 2, ch_buf = [True]\<rparr>"];
        (rule runs_Cons [where s' = "\<lparr>ch_cap = 2, ch_buf = [True, False]\<rparr>"])?;
        (rule runs_Cons [where s' = "\<lparr>ch_cap = 2, ch_buf = [False]\<rparr>"])?)
      (auto intro!: bq_step.intros runs.intros simp: bq_Enqueue_def bq_Dequeue_def chan_send_def chan_recv_def make_chan_def)
  note r = this
  have "ch_buf (\<lparr>ch_cap = 2, ch_buf = [False]\<rparr> :: bool channel) = [False]" by simp
  then show ?thesis using bq_fifo [OF i r, of True] i r by blast
qed

subsection \<open>Channel pool\<close>

text \<open>The pooled channels are values of an abstract type; \<open>factory i\<close> is the factory's i-th result.\<close>

type_synonym 'c channel_pool = "'c channel"

fun cp_fill :: "(nat \<Rightarrow> 'c) \<Rightarrow> nat \<Rightarrow> nat \<Rightarrow> 'c channel_pool \<Rightarrow> 'c channel_pool option" where
  "cp_fill factory i 0 pool = Some pool"
| "cp_fill factory i (Suc n) pool =
     (case chan_send (factory i) pool of None \<Rightarrow> None | Some p \<Rightarrow> cp_fill factory (i + 1) n p)"

definition NewChannelPool :: "int \<Rightarrow> (nat \<Rightarrow> 'c) \<Rightarrow> 'c channel_pool option outcome" where
  "NewChannelPool sz factory =
     (if sz \<le> 0 then Inl ExitOne else Inr (cp_fill factory 0 (nat sz) (make_chan (nat sz))))"

definition cp_Acquire :: "'c channel_pool \<Rightarrow> ('c \<times> 'c channel_pool) option" where
  "cp_Acquire p = chan_recv p"

definition cp_Release :: "'c \<Rightarrow> 'c channel_pool \<Rightarrow> 'c channel_pool option" where
  "cp_Release c p = chan_send c p"

text \<open>The clients hold a multiset of channels, and release only what one of them holds.\<close>

inductive cp_step :: "'c channel_pool \<times> 'c multiset \<Rightarrow> 'c + 'c \<Rightarrow> 'c channel_pool \<times> 'c multiset \<Rightarrow> bool" where
  cp_acquire: "cp_Acquire p = Some (c, p') \<Longrightarrow> cp_step (p, held) (Inl c) (p', add_mset c held)"
| cp_release: "c \<in># held \<Longrightarrow> cp_Release c p = Some p' \<Longrightarrow> cp_step (p, held) (Inr c) (p', held - {#c#})"

definition cp_inv :: "'c list \<Rightarrow> 'c channel_pool \<times> 'c multiset \<Rightarrow> bool" where
  "cp_inv cs = (\<lambda>(p, held). mset (ch_buf p) + held = mset cs \<and> ch_cap p = length cs)"

lemma cp_fill_ok:
  assumes "length (ch_buf p) + n = ch_cap p"
  shows "cp_fill factory i n p = Some (p\<lparr>ch_buf := ch_buf p @ map factory [i..<i + n]\<rparr>)"
  using assms
proof (induction n arbitrary: i p)
  case (Suc n)
  let ?p = "p\<lparr>ch_buf := ch_buf p @ [factory i]\<rparr>"
  have "[i..<i + Suc n] = i # [i + 1..<(i + 1) + n]" by (simp add: upt_rec)
  moreover have "cp_fill factory (i + 1) n ?p = Some (?p\<lparr>ch_buf := ch_buf ?p @ map factory [i + 1..<(i + 1) + n]\<rparr>)"
    using Suc.prems by (intro Suc.IH) simp
  moreover have "chan_send (factory i) p = Some ?p" using Suc.prems by (simp add: chan_send_def)
  ultimately show ?case by simp
qed simp

lemma cp_New_ok:
  assumes "0 < sz"
  shows "\<exists>p. NewChannelPool sz factory = Inr (Some p) \<and> cp_inv (map factory [0..<nat sz]) (p, {#})"
  using assms by (simp add: NewChannelPool_def cp_fill_ok cp_inv_def)

lemma cp_step_inv:
  assumes "cp_step s e s'" "cp_inv cs s"
  shows "cp_inv cs s'"
  using assms(1)
proof (cases rule: cp_step.cases)
  case (cp_acquire p c p' held)
  then show ?thesis using assms(2) go_chan.recv_law [of p c p'] by (auto simp: cp_inv_def cp_Acquire_def)
next
  case (cp_release c held p p')
  then have l: "ch_buf p' = ch_buf p @ [c]" "ch_cap p' = ch_cap p"
    using go_chan.send_law [of c p p'] by (simp_all add: cp_Release_def)
  obtain rest where "held = add_mset c rest" using cp_release multi_member_split by metis
  then show ?thesis using assms(2) cp_release l by (simp add: cp_inv_def)
qed

text \<open>
  In any interleaving of clients that release only channels they hold, the free and the held
  channels together are always exactly the pool's \<open>size\<close> channels; so with distinct channels
  none is held twice, \<open>Acquire\<close> blocks exactly when all are held, and \<open>Release\<close> never blocks.
\<close>

theorem cp_conserves:
  assumes "0 < n" "NewChannelPool n factory = Inr (Some p0)" "runs cp_step (p0, {#}) es (p, held)"
  shows "mset (ch_buf p) + held = mset (map factory [0..<nat n]) \<and>
    (inj factory \<longrightarrow> (\<forall>c. count held c \<le> 1)) \<and>
    (cp_Acquire p = None \<longleftrightarrow> held = mset (map factory [0..<nat n])) \<and>
    (\<forall>c \<in># held. cp_Release c p \<noteq> None)"
proof -
  let ?cs = "map factory [0..<nat n]"
  have "cp_inv ?cs (p0, {#})" using cp_New_ok [OF assms(1), of factory] assms(2) by simp
  with assms(3) have inv: "cp_inv ?cs (p, held)"
    by (rule runs_invariant) (rule cp_step_inv)
  then have m: "mset (ch_buf p) + held = mset ?cs" "ch_cap p = nat n" by (simp_all add: cp_inv_def)
  have one: "count held c \<le> 1" if "inj factory" for c
  proof -
    have "distinct ?cs" using that by (simp add: distinct_map inj_on_def)
    then have "count (mset ?cs) c \<le> 1" by (simp add: distinct_count_atmost_1)
    then show ?thesis unfolding m(1) [symmetric] by simp
  qed
  have len: "length (ch_buf p) + size held = nat n"
    using arg_cong [OF m(1), of size] by simp
  have "cp_Acquire p = None \<longleftrightarrow> held = mset ?cs"
    unfolding cp_Acquire_def go_chan.recv_blocks using m(1) by (metis add_0 add_cancel_left_left mset_zero_iff)
  moreover have "cp_Release c p \<noteq> None" if "c \<in># held" for c
  proof -
    have "0 < size held" using that by (metis nonempty_has_size empty_not_add_mset multi_member_split)
    then show ?thesis unfolding cp_Release_def go_chan.send_blocks using len m(2) by simp
  qed
  ultimately show ?thesis using m(1) one by blast
qed

theorem cp_conserves_witness:
  "\<exists>p0. NewChannelPool 2 (\<lambda>i. i) = Inr (Some p0) \<and> runs cp_step (p0, {#}) [] (p0, {#}) \<and>
     mset (ch_buf p0) = mset (map (\<lambda>i. i) [0..<nat 2])"
proof -
  obtain p0 :: "nat channel" where p: "NewChannelPool 2 (\<lambda>i. i) = Inr (Some p0)" using cp_New_ok [of 2] by auto
  have r: "runs cp_step (p0, {#}) [] (p0, {#})" by (rule runs_Nil)
  from cp_conserves [OF _ p r] p r show ?thesis by auto
qed

subsection \<open>Read-write lock\<close>

text \<open>
  The lock is \<open>sync.RWMutex\<close>: a \<open>Lock\<close> first announces itself, which keeps new readers out, and
  is granted once the readers that hold the lock have left. Unlocking a lock that is not held is
  a fatal error of the library and no step.
\<close>

record rw_lock =
  rw_readers :: nat
  rw_announced :: bool
  rw_writing :: bool

definition NewReadWriteLock :: rw_lock where
  "NewReadWriteLock = \<lparr>rw_readers = 0, rw_announced = False, rw_writing = False\<rparr>"

datatype rw_event = RwRLock | RwRUnlock | RwAnnounce | RwLock | RwUnlock

definition rw_RLock :: "rw_lock \<Rightarrow> rw_lock option" where
  "rw_RLock l = (if rw_announced l then None else Some (l\<lparr>rw_readers := rw_readers l + 1\<rparr>))"

definition rw_RUnlock :: "rw_lock \<Rightarrow> rw_lock option" where
  "rw_RUnlock l = (if rw_readers l = 0 then None else Some (l\<lparr>rw_readers := rw_readers l - 1\<rparr>))"

definition rw_Announce :: "rw_lock \<Rightarrow> rw_lock option" where
  "rw_Announce l = (if rw_announced l then None else Some (l\<lparr>rw_announced := True\<rparr>))"

definition rw_Lock :: "rw_lock \<Rightarrow> rw_lock option" where
  "rw_Lock l = (if rw_announced l \<and> \<not> rw_writing l \<and> rw_readers l = 0 then Some (l\<lparr>rw_writing := True\<rparr>) else None)"

definition rw_Unlock :: "rw_lock \<Rightarrow> rw_lock option" where
  "rw_Unlock l = (if rw_writing l then Some (l\<lparr>rw_writing := False, rw_announced := False\<rparr>) else None)"

fun rw_do :: "rw_event \<Rightarrow> rw_lock \<Rightarrow> rw_lock option" where
  "rw_do RwRLock = rw_RLock"
| "rw_do RwRUnlock = rw_RUnlock"
| "rw_do RwAnnounce = rw_Announce"
| "rw_do RwLock = rw_Lock"
| "rw_do RwUnlock = rw_Unlock"

inductive rw_step :: "rw_lock \<Rightarrow> rw_event \<Rightarrow> rw_lock \<Rightarrow> bool" where
  rw_stepI: "rw_do e l = Some l' \<Longrightarrow> rw_step l e l'"

lemmas rw_defs = rw_RLock_def rw_RUnlock_def rw_Announce_def rw_Lock_def rw_Unlock_def

lemma rw_step_inv:
  assumes "rw_step l e l'" "(rw_writing l \<longrightarrow> rw_announced l \<and> rw_readers l = 0)"
  shows "rw_writing l' \<longrightarrow> rw_announced l' \<and> rw_readers l' = 0"
  using assms by (cases rule: rw_step.cases; cases e) (auto simp: rw_defs split: if_splits)

lemma rw_counts:
  assumes "runs rw_step l es l'"
  shows "rw_readers l + count_list es RwRLock = rw_readers l' + count_list es RwRUnlock \<and>
    of_bool (rw_writing l) + count_list es RwLock = of_bool (rw_writing l') + count_list es RwUnlock"
  using assms
proof (induction rule: runs.induct)
  case (runs_Cons l e l' es l'')
  from runs_Cons.hyps(1) have "rw_do e l = Some l'" by (cases rule: rw_step.cases) simp
  then show ?case using runs_Cons.IH by (cases e) (auto simp: rw_defs split: if_splits)
qed simp

text \<open>
  C39. Mutual exclusion. In any interleaving the write lock is granted at most once without being
  released, and while it is held every read lock granted has been released; conversely a write
  lock is never granted while a reader holds the lock.
\<close>

theorem rw_exclusion:
  assumes "runs rw_step NewReadWriteLock es l"
  shows "count_list es RwLock \<le> count_list es RwUnlock + 1 \<and>
    (count_list es RwLock = count_list es RwUnlock + 1 \<longrightarrow> count_list es RwRLock = count_list es RwRUnlock) \<and>
    (count_list es RwRUnlock < count_list es RwRLock \<longrightarrow> \<not> (\<exists>l'. rw_step l RwLock l'))"
proof -
  have "rw_writing l \<longrightarrow> rw_announced l \<and> rw_readers l = 0"
    using assms by (rule runs_invariant) (simp add: NewReadWriteLock_def, blast dest: rw_step_inv)
  moreover have "count_list es RwRLock = rw_readers l + count_list es RwRUnlock"
    "count_list es RwLock = of_bool (rw_writing l) + count_list es RwUnlock"
    using rw_counts [OF assms] by (simp_all add: NewReadWriteLock_def)
  ultimately show ?thesis
    by (auto simp: rw_Lock_def elim!: rw_step.cases split: if_splits)
qed

theorem rw_exclusion_witness:
  "\<exists>l. runs rw_step NewReadWriteLock [RwRLock] l \<and> \<not> (\<exists>l'. rw_step l RwLock l')"
proof -
  have "rw_step NewReadWriteLock RwRLock \<lparr>rw_readers = 1, rw_announced = False, rw_writing = False\<rparr>"
    by (rule rw_stepI) (simp add: rw_RLock_def NewReadWriteLock_def)
  then have r: "runs rw_step NewReadWriteLock [RwRLock] \<lparr>rw_readers = 1, rw_announced = False, rw_writing = False\<rparr>"
    by (auto intro: runs.intros)
  from rw_exclusion [OF r] r show ?thesis by auto
qed

end
