(* ===== verification/Connection_Pool.thy ===== *)
theory Connection_Pool
  imports Go_Prelude
begin

text \<open>
  \<open>20-Connection-Pool/main.go\<close>. The factory's result and the health check of each call are
  arguments of the operation. The mutex makes calls atomic; \<open>cn_step\<close> is any interleaving of calls by
  clients that release only connections they hold.
\<close>

record 'c conn_pool =
  cn_idle :: "'c list"
  cn_active :: int
  cn_max :: int

definition NewConnectionPool :: "int \<Rightarrow> 'c conn_pool outcome" where
  "NewConnectionPool mx =
     (if mx \<le> 0 then Inl ExitOne else Inr \<lparr>cn_idle = [], cn_active = 0, cn_max = mx\<rparr>)"

text \<open>The loop over the idle connections, from the end of the slice.\<close>

fun cn_scan :: "('c \<Rightarrow> bool) \<Rightarrow> 'c list \<Rightarrow> 'c option \<times> 'c list" where
  "cn_scan validate [] = (None, [])"
| "cn_scan validate (conn # rest) = (if validate conn then (Some conn, rest) else cn_scan validate rest)"

definition cn_Acquire :: "('c \<Rightarrow> bool) \<Rightarrow> 'c \<Rightarrow> 'c conn_pool \<Rightarrow> 'c option \<times> 'c conn_pool" where
  "cn_Acquire validate fresh p = (case cn_scan validate (rev (cn_idle p)) of (found, rest) \<Rightarrow>
     let p1 = p\<lparr>cn_idle := rev rest\<rparr> in
     case found of
       Some conn \<Rightarrow> (Some conn, p1\<lparr>cn_active := cn_active p1 + 1\<rparr>)
     | None \<Rightarrow> if cn_max p1 \<le> cn_active p1 then (None, p1)
               else (Some fresh, p1\<lparr>cn_active := cn_active p1 + 1\<rparr>))"

definition cn_Release :: "('c \<Rightarrow> bool) \<Rightarrow> 'c \<Rightarrow> 'c conn_pool \<Rightarrow> 'c conn_pool" where
  "cn_Release validate conn p = (let p1 = p\<lparr>cn_active := cn_active p - 1\<rparr> in
     if validate conn then p1\<lparr>cn_idle := cn_idle p1 @ [conn]\<rparr> else p1)"

datatype 'c conn_event = ConnAcquired 'c | ConnExhausted | ConnReleased 'c

inductive cn_step :: "'c conn_pool \<times> 'c list \<Rightarrow> 'c conn_event \<Rightarrow> 'c conn_pool \<times> 'c list \<Rightarrow> bool" where
  cn_acquired: "fresh \<notin> set (cn_idle p) \<union> set held \<Longrightarrow> cn_Acquire validate fresh p = (Some conn, p') \<Longrightarrow>
     cn_step (p, held) (ConnAcquired conn) (p', conn # held)"
| cn_exhausted: "cn_Acquire validate fresh p = (None, p') \<Longrightarrow> cn_step (p, held) ConnExhausted (p', held)"
| cn_released: "conn \<in> set held \<Longrightarrow>
     cn_step (p, held) (ConnReleased conn) (cn_Release validate conn p, remove1 conn held)"

subsection \<open>The scan\<close>

lemma cn_scan_Some:
  "cn_scan validate cs = (Some c, rest) \<Longrightarrow>
     validate c \<and> (\<exists>dropped. cs = dropped @ c # rest \<and> (\<forall>d \<in> set dropped. \<not> validate d))"
proof (induction cs)
  case (Cons d cs)
  show ?case
  proof (cases "validate d")
    case True
    with Cons.prems have "d # cs = [] @ c # rest" "validate c" by simp_all
    then show ?thesis by fastforce
  next
    case False
    with Cons obtain dropped where "validate c" "cs = dropped @ c # rest" "\<forall>d \<in> set dropped. \<not> validate d"
      by auto
    with False have "validate c" "d # cs = (d # dropped) @ c # rest" "\<forall>x \<in> set (d # dropped). \<not> validate x"
      by simp_all
    then show ?thesis by blast
  qed
qed simp

lemma cn_scan_None: "cn_scan validate cs = (None, rest) \<Longrightarrow> rest = [] \<and> (\<forall>c \<in> set cs. \<not> validate c)"
proof (induction cs)
  case (Cons c cs)
  then show ?case by (cases "validate c") simp_all
qed simp

text \<open>What \<open>Acquire\<close> does, by cases.\<close>

lemma cn_Acquire_cases:
  assumes "cn_Acquire validate fresh p = (res, p')"
  obtains (idle) c us vs where "res = Some c" "validate c" "cn_idle p = us @ c # vs"
      "p' = p\<lparr>cn_idle := us, cn_active := cn_active p + 1\<rparr>"
    | (new) "res = Some fresh" "\<forall>c \<in> set (cn_idle p). \<not> validate c" "cn_active p < cn_max p"
      "p' = p\<lparr>cn_idle := [], cn_active := cn_active p + 1\<rparr>"
    | (none) "res = None" "\<forall>c \<in> set (cn_idle p). \<not> validate c" "cn_max p \<le> cn_active p" "p' = p\<lparr>cn_idle := []\<rparr>"
proof -
  obtain found rest where s: "cn_scan validate (rev (cn_idle p)) = (found, rest)" by fastforce
  show thesis
  proof (cases found)
    case None
    then have "rest = []" "\<forall>c \<in> set (cn_idle p). \<not> validate c" using cn_scan_None s by fastforce+
    note n = this
    show thesis
    proof (cases "cn_max p \<le> cn_active p")
      case True
      then have "res = None" "p' = p\<lparr>cn_idle := []\<rparr>"
        using assms s None n(1) by (simp_all add: cn_Acquire_def Let_def)
      then show thesis using none n(2) True by simp
    next
      case False
      then have "res = Some fresh" "p' = p\<lparr>cn_idle := [], cn_active := cn_active p + 1\<rparr>"
        using assms s None n(1) by (simp_all add: cn_Acquire_def Let_def)
      then show thesis using new n(2) False by simp
    qed
  next
    case (Some c)
    from cn_scan_Some [OF s [unfolded Some]]
    obtain dropped where d: "validate c" "rev (cn_idle p) = dropped @ c # rest" by blast
    then have "rev (rev (cn_idle p)) = rev (dropped @ c # rest)" by (simp only:)
    then have "cn_idle p = rev rest @ c # rev dropped" by simp
    moreover have "res = Some c" "p' = p\<lparr>cn_idle := rev rest, cn_active := cn_active p + 1\<rparr>"
      using assms s Some by (simp_all add: cn_Acquire_def Let_def)
    ultimately show thesis using d(1) by (intro idle)
  qed
qed

subsection \<open>Invariant\<close>

definition cn_inv :: "int \<Rightarrow> 'c conn_pool \<times> 'c list \<Rightarrow> bool" where
  "cn_inv mx = (\<lambda>(p, held). cn_max p = mx \<and> cn_active p = int (length held) \<and>
     cn_active p + int (length (cn_idle p)) \<le> mx \<and> distinct (cn_idle p @ held))"

lemma cn_step_inv:
  assumes "cn_step s e s'" "cn_inv mx s"
  shows "cn_inv mx s'"
  using assms(1)
proof (cases rule: cn_step.cases)
  case (cn_acquired fresh p held validate conn p')
  from cn_acquired(5) show ?thesis
    by (cases rule: cn_Acquire_cases) (use assms(2) cn_acquired in \<open>auto simp: cn_inv_def\<close>)
next
  case (cn_exhausted validate fresh p p' held)
  from cn_exhausted(4) show ?thesis
    by (cases rule: cn_Acquire_cases) (use assms(2) cn_exhausted in \<open>auto simp: cn_inv_def\<close>)
next
  case (cn_released conn held p validate)
  then have "length (remove1 conn held) + 1 = length held" "conn \<notin> set (remove1 conn held)"
    "conn \<notin> set (cn_idle p)"
    using assms(2) by (auto simp: cn_inv_def length_remove1 Suc_leI dest: length_pos_if_in_set)
  then show ?thesis
    using assms(2) cn_released set_remove1_subset [of conn held]
    by (auto simp: cn_inv_def cn_Release_def Let_def)
qed

text \<open>
  C37. While every client releases only connections it holds, at most \<open>max\<close> connections exist at any
  time, in use or idle; no connection is handed to two clients; and \<open>Acquire\<close> fails only when
  \<open>max\<close> connections are in use.
\<close>

theorem cn_bounded:
  assumes "NewConnectionPool mx = Inr p0" "runs cn_step (p0, []) es (p, held)"
  shows "int (length held) + int (length (cn_idle p)) \<le> mx \<and> distinct (cn_idle p @ held) \<and>
    (fst (cn_Acquire validate fresh p) = None \<longrightarrow> int (length held) = mx) \<and>
    (\<forall>c. fst (cn_Acquire validate fresh p) = Some c \<longrightarrow> c = fresh \<or> c \<in> set (cn_idle p) \<and> validate c)"
proof -
  have "cn_inv mx (p0, [])"
    using assms(1) by (auto simp: NewConnectionPool_def cn_inv_def split: if_splits)
  with assms(2) have inv: "cn_inv mx (p, held)" by (rule runs_invariant) (rule cn_step_inv)
  obtain res p' where a: "cn_Acquire validate fresh p = (res, p')" by fastforce
  from a have "(res = None \<longrightarrow> int (length held) = mx) \<and>
    (\<forall>c. res = Some c \<longrightarrow> c = fresh \<or> c \<in> set (cn_idle p) \<and> validate c)"
    by (cases rule: cn_Acquire_cases) (use inv in \<open>auto simp: cn_inv_def\<close>)
  then show ?thesis using inv a by (simp add: cn_inv_def)
qed

theorem cn_bounded_witness:
  "\<exists>p0 p. NewConnectionPool 1 = Inr p0 \<and> runs cn_step (p0, []) [ConnAcquired CHR ''x''] (p, [CHR ''x'']) \<and>
     int (length [CHR ''x'']) + int (length (cn_idle p)) \<le> 1 \<and> fst (cn_Acquire (\<lambda>_. True) CHR ''y'' p) = None"
proof -
  define p0 :: "char conn_pool" where "p0 = \<lparr>cn_idle = [], cn_active = 0, cn_max = 1\<rparr>"
  define p :: "char conn_pool" where "p = \<lparr>cn_idle = [], cn_active = 1, cn_max = 1\<rparr>"
  have i: "NewConnectionPool 1 = Inr p0" by (simp add: NewConnectionPool_def p0_def)
  have "cn_step (p0, []) (ConnAcquired CHR ''x'') (p, [CHR ''x''])"
    by (rule cn_acquired [of _ _ _ "\<lambda>_. True"]) (simp_all add: p0_def p_def cn_Acquire_def)
  then have r: "runs cn_step (p0, []) [ConnAcquired CHR ''x''] (p, [CHR ''x''])" by (auto intro: runs.intros)
  have "fst (cn_Acquire (\<lambda>_. True) CHR ''y'' p) = None" by (simp add: cn_Acquire_def p_def)
  then show ?thesis using cn_bounded [OF i r] i r by auto
qed

text \<open>A client that releases a connection twice defeats the bound: two clients share it.\<close>

lemma cn_double_release:
  "let p = cn_Release (\<lambda>_. True) c (cn_Release (\<lambda>_. True) c \<lparr>cn_idle = [], cn_active = 1, cn_max = 1\<rparr>);
       (a, p1) = cn_Acquire (\<lambda>_. True) d p; (b, p2) = cn_Acquire (\<lambda>_. True) d p1
   in cn_active p = - 1 \<and> a = Some c \<and> b = Some c"
  by (simp add: cn_Release_def cn_Acquire_def Let_def)

end
