(* ===== verification/Promise.thy ===== *)
theory Promise
  imports Go_Prelude
begin

text \<open>
  \<open>14-Promise/main.go\<close>. Every \<open>Async\<close> starts a goroutine and makes a channel of capacity 1; the
  goroutine of \<open>Then\<close> first receives from the channel of the future it chains on. A program that
  creates futures is the list of what each goroutine runs, in the order of creation; \<open>pr_step\<close>
  interleaves these goroutines and the callers of \<open>Await\<close>. All values have one type, as the
  channels of a model need.
\<close>

type_synonym ('v, 'e) pr_result = "'v \<times> 'e option"

datatype ('v, 'e) pr_task =
    PrRun "('v, 'e) pr_result"
  | PrThen nat "'v \<Rightarrow> ('v, 'e) pr_result"
  | PrDone

record ('v, 'e) promises =
  pr_tasks :: "('v, 'e) pr_task list"
  pr_chans :: "('v, 'e) pr_result option list"

definition pr_empty :: "('v, 'e) promises" where
  "pr_empty = \<lparr>pr_tasks = [], pr_chans = []\<rparr>"

text \<open>\<open>Async fn\<close>, where \<open>fn()\<close> has the given result; the future is the index of its channel.\<close>

definition pr_go :: "('v, 'e) pr_task \<Rightarrow> ('v, 'e) promises \<Rightarrow> nat \<times> ('v, 'e) promises" where
  "pr_go task s = (length (pr_tasks s),
     \<lparr>pr_tasks = pr_tasks s @ [task], pr_chans = pr_chans s @ [None]\<rparr>)"

definition pr_Async :: "('v, 'e) pr_result \<Rightarrow> ('v, 'e) promises \<Rightarrow> nat \<times> ('v, 'e) promises" where
  "pr_Async r = pr_go (PrRun r)"

definition pr_Then :: "nat \<Rightarrow> ('v \<Rightarrow> ('v, 'e) pr_result) \<Rightarrow> ('v, 'e) promises \<Rightarrow> nat \<times> ('v, 'e) promises" where
  "pr_Then future next = pr_go (PrThen future next)"

text \<open>What the goroutine of \<open>Then\<close> goes on with once it has the first result.\<close>

definition pr_continue :: "'v \<Rightarrow> ('v \<Rightarrow> ('v, 'e) pr_result) \<Rightarrow> ('v, 'e) pr_result \<Rightarrow> ('v, 'e) pr_result" where
  "pr_continue zero next r = (case r of (v, err) \<Rightarrow> if err \<noteq> None then (zero, err) else next v)"

datatype ('v, 'e) pr_event = PrResolve nat | PrChain nat | PrAwait nat "('v, 'e) pr_result"

inductive pr_step :: "'v \<Rightarrow> ('v, 'e) promises \<Rightarrow> ('v, 'e) pr_event \<Rightarrow> ('v, 'e) promises \<Rightarrow> bool"
  for zero :: 'v where
  pr_resolve: "i < length (pr_tasks s) \<Longrightarrow> pr_tasks s ! i = PrRun r \<Longrightarrow> pr_chans s ! i = None \<Longrightarrow>
     pr_step zero s (PrResolve i)
       (s\<lparr>pr_tasks := (pr_tasks s)[i := PrDone], pr_chans := (pr_chans s)[i := Some r]\<rparr>)"
| pr_chain: "i < length (pr_tasks s) \<Longrightarrow> pr_tasks s ! i = PrThen src next \<Longrightarrow> pr_chans s ! src = Some r \<Longrightarrow>
     pr_step zero s (PrChain i)
       (s\<lparr>pr_tasks := (pr_tasks s)[i := PrRun (pr_continue zero next r)], pr_chans := (pr_chans s)[src := None]\<rparr>)"
| pr_await: "i < length (pr_chans s) \<Longrightarrow> pr_chans s ! i = Some r \<Longrightarrow>
     pr_step zero s (PrAwait i r) (s\<lparr>pr_chans := (pr_chans s)[i := None]\<rparr>)"

inductive_cases pr_stepE: "pr_step zero s e s'"

subsection \<open>The value of a future\<close>

text \<open>A program starts its goroutines in order; each may chain on an earlier future.\<close>

fun pr_program :: "('v, 'e) pr_task list \<Rightarrow> ('v, 'e) promises \<Rightarrow> ('v, 'e) promises" where
  "pr_program [] s = s"
| "pr_program (t # ts) s = pr_program ts (snd (pr_go t s))"

definition pr_wf :: "('v, 'e) pr_task list \<Rightarrow> bool" where
  "pr_wf ts \<longleftrightarrow> (\<forall>i < length ts. case ts ! i of PrRun _ \<Rightarrow> True | PrThen src _ \<Rightarrow> src < i | PrDone \<Rightarrow> False)"

definition pr_extend :: "'v \<Rightarrow> ('v, 'e) pr_task \<Rightarrow> ('v, 'e) pr_result list \<Rightarrow> ('v, 'e) pr_result list" where
  "pr_extend zero t vs = vs @ [case t of PrRun r \<Rightarrow> r | PrThen src next \<Rightarrow> pr_continue zero next (vs ! src)
     | PrDone \<Rightarrow> (zero, None)]"

definition pr_values :: "'v \<Rightarrow> ('v, 'e) pr_task list \<Rightarrow> ('v, 'e) pr_result list" where
  "pr_values zero ts = fold (pr_extend zero) ts []"

lemma pr_values_length [simp]: "length (pr_values zero ts) = length ts"
proof -
  have "length (fold (pr_extend zero) ts vs) = length vs + length ts" for vs
    by (induction ts arbitrary: vs) (simp_all add: pr_extend_def)
  then show ?thesis by (simp add: pr_values_def)
qed

lemma pr_values_snoc: "pr_values zero (ts @ [t]) = pr_extend zero t (pr_values zero ts)"
  by (simp add: pr_values_def)

lemma pr_values_nth:
  assumes "pr_wf ts" "i < length ts"
  shows "pr_values zero ts ! i = (case ts ! i of PrRun r \<Rightarrow> r
     | PrThen src next \<Rightarrow> pr_continue zero next (pr_values zero ts ! src) | PrDone \<Rightarrow> (zero, None))"
  using assms
proof (induction ts rule: rev_induct)
  case (snoc t ts)
  have wf: "pr_wf ts"
    unfolding pr_wf_def
  proof (intro allI impI)
    fix j
    assume "j < length ts"
    then show "case ts ! j of PrRun _ \<Rightarrow> True | PrThen src _ \<Rightarrow> src < j | PrDone \<Rightarrow> False"
      using snoc.prems(1) [unfolded pr_wf_def, rule_format, of j] by (simp add: nth_append)
  qed
  show ?case
  proof (cases "i < length ts")
    case True
    have "src < i" if "ts ! i = PrThen src nxt" for src nxt
      using wf that True unfolding pr_wf_def by fastforce
    then show ?thesis using snoc.IH [OF wf True] True
      by (auto simp: pr_values_snoc pr_extend_def nth_append split: pr_task.split)
  next
    case False
    then have i: "i = length ts" using snoc.prems(2) by simp
    have "src < length ts" if "t = PrThen src nxt" for src nxt
      using snoc.prems(1) that unfolding pr_wf_def by (auto simp: nth_append dest: spec [of _ "length ts"])
    then show ?thesis by (auto simp: i pr_values_snoc pr_extend_def nth_append split: pr_task.split)
  qed
qed simp

lemma pr_program_tasks:
  "pr_program ts s = \<lparr>pr_tasks = pr_tasks s @ ts, pr_chans = pr_chans s @ replicate (length ts) None\<rparr>"
  by (induction ts arbitrary: s) (simp_all add: pr_go_def)

subsection \<open>Invariant\<close>

text \<open>
  Whatever waits in a channel or is about to be sent is the value of its future, and a channel is
  filled once: \<open>pr_sources\<close> counts what can still come out of channel \<open>i\<close>.
\<close>

definition pr_sources :: "('v, 'e) promises \<Rightarrow> nat \<Rightarrow> nat" where
  "pr_sources s i = (if pr_tasks s ! i = PrDone then 0 else 1) + (if pr_chans s ! i = None then 0 else 1)"

definition pr_inv :: "'v \<Rightarrow> ('v, 'e) pr_task list \<Rightarrow> ('v, 'e) promises \<Rightarrow> bool" where
  "pr_inv zero ts s \<longleftrightarrow> length (pr_tasks s) = length ts \<and> length (pr_chans s) = length ts \<and>
     (\<forall>i < length ts.
        (\<forall>r. pr_chans s ! i = Some r \<longrightarrow> r = pr_values zero ts ! i) \<and>
        (\<forall>r. pr_tasks s ! i = PrRun r \<longrightarrow> r = pr_values zero ts ! i) \<and>
        (\<forall>src next. pr_tasks s ! i = PrThen src next \<longrightarrow> ts ! i = PrThen src next) \<and>
        (pr_tasks s ! i \<noteq> PrDone \<longrightarrow> pr_chans s ! i = None))"

lemma pr_step_inv:
  assumes wf: "pr_wf ts" and st: "pr_step zero s e s'" and inv: "pr_inv zero ts s"
  shows "pr_inv zero ts s'"
    and "i < length ts \<Longrightarrow> pr_sources s' i + (if \<exists>r. e = PrAwait i r then 1 else 0) \<le> pr_sources s i"
    and "e = PrAwait i r \<Longrightarrow> i < length ts \<and> r = pr_values zero ts ! i"
proof -
  have len: "length (pr_tasks s) = length ts" "length (pr_chans s) = length ts"
    using inv by (simp_all add: pr_inv_def)
  have at: "\<And>r. pr_chans s ! j = Some r \<Longrightarrow> r = pr_values zero ts ! j"
      "\<And>r. pr_tasks s ! j = PrRun r \<Longrightarrow> r = pr_values zero ts ! j"
      "\<And>src next. pr_tasks s ! j = PrThen src next \<Longrightarrow> ts ! j = PrThen src next"
      "pr_tasks s ! j \<noteq> PrDone \<Longrightarrow> pr_chans s ! j = None"
    if "j < length ts" for j using inv that unfolding pr_inv_def by blast+
  have "pr_inv zero ts s' \<and>
    (\<forall>i < length ts. pr_sources s' i + (if \<exists>r. e = PrAwait i r then 1 else 0) \<le> pr_sources s i) \<and>
    (\<forall>i r. e = PrAwait i r \<longrightarrow> i < length ts \<and> r = pr_values zero ts ! i)"
    using st
  proof (cases rule: pr_step.cases)
    case (pr_resolve k r)
    then have "r = pr_values zero ts ! k" using at [of k] len by simp
    then show ?thesis using pr_resolve at len
      by (auto simp: pr_inv_def pr_sources_def nth_list_update split: if_splits)
  next
    case (pr_chain k src nxt r)
    have k: "k < length ts" "ts ! k = PrThen src nxt" using pr_chain at [of k] len by simp_all
    then have src: "src < k" using wf unfolding pr_wf_def by fastforce
    have "r = pr_values zero ts ! src" using at [of src] pr_chain k src by simp
    then have "pr_continue zero nxt r = pr_values zero ts ! k" using pr_values_nth [OF wf k(1)] k(2) by simp
    moreover have "pr_chans s ! k = None" using at [OF k(1)] pr_chain by simp
    ultimately show ?thesis using pr_chain at len src k
      by (auto simp: pr_inv_def pr_sources_def nth_list_update split: if_splits)
  next
    case (pr_await k r)
    then show ?thesis using at len
      by (auto simp: pr_inv_def pr_sources_def nth_list_update split: if_splits)
  qed
  then show "pr_inv zero ts s'"
    and "i < length ts \<Longrightarrow> pr_sources s' i + (if \<exists>r. e = PrAwait i r then 1 else 0) \<le> pr_sources s i"
    and "e = PrAwait i r \<Longrightarrow> i < length ts \<and> r = pr_values zero ts ! i" by blast+
qed

definition pr_awaits :: "nat \<Rightarrow> ('v, 'e) pr_event list \<Rightarrow> ('v, 'e) pr_event list" where
  "pr_awaits i es = filter (\<lambda>e. \<exists>r. e = PrAwait i r) es"

lemma pr_runs_inv:
  assumes "runs (pr_step zero) s es s'" "pr_wf ts" "pr_inv zero ts s"
  shows "(\<forall>i < length ts. length (pr_awaits i es) + pr_sources s' i \<le> pr_sources s i) \<and>
     (\<forall>i r. PrAwait i r \<in> set es \<longrightarrow> i < length ts \<and> r = pr_values zero ts ! i)"
  using assms
proof (induction rule: runs.induct)
  case (runs_Cons s e s' es s'')
  note st = pr_step_inv [OF runs_Cons.prems(1) runs_Cons.hyps(1) runs_Cons.prems(2)]
  have IH: "\<forall>i < length ts. length (pr_awaits i es) + pr_sources s'' i \<le> pr_sources s' i"
    "\<forall>i r. PrAwait i r \<in> set es \<longrightarrow> i < length ts \<and> r = pr_values zero ts ! i"
    using runs_Cons.IH [OF runs_Cons.prems(1) st(1)] by blast+
  have "length (pr_awaits i (e # es)) + pr_sources s'' i \<le> pr_sources s i" if "i < length ts" for i
    using st(2) [OF that] IH(1) that unfolding pr_awaits_def by (auto split: if_splits)
  then show ?case using IH(2) st(3) by auto
qed (simp add: pr_awaits_def)

lemma pr_init_inv:
  assumes "pr_wf ts"
  shows "pr_inv zero ts (pr_program ts pr_empty)" "i < length ts \<Longrightarrow> pr_sources (pr_program ts pr_empty) i = 1"
proof -
  have "(ts ! i = PrRun r \<longrightarrow> r = pr_values zero ts ! i) \<and> ts ! i \<noteq> PrDone"
    if "i < length ts" for i r
    using pr_values_nth [OF assms that, of zero] assms [unfolded pr_wf_def, rule_format, OF that]
    by (auto split: pr_task.splits)
  then show "pr_inv zero ts (pr_program ts pr_empty)" "i < length ts \<Longrightarrow> pr_sources (pr_program ts pr_empty) i = 1"
    unfolding pr_inv_def pr_sources_def pr_program_tasks pr_empty_def by simp_all
qed

text \<open>A channel is emptied by whoever receives from it first, so of the calls of \<open>Await\<close> for one future at most one returns.\<close>

lemma pr_await_once:
  assumes "pr_wf ts" "runs (pr_step zero) (pr_program ts pr_empty) es s" "i < length ts"
  shows "length (pr_awaits i es) \<le> 1"
  using pr_runs_inv [OF assms(2,1) pr_init_inv(1) [OF assms(1)]] pr_init_inv(2) [OF assms(1,3)] assms(3)
  by (metis add_leD1)


subsection \<open>A chain delivers\<close>

text \<open>The states of a future with a \<open>Then\<close> on it whose result alone is awaited: one run, step by step.\<close>

definition pr_chain_states :: "'v \<Rightarrow> ('v, 'e) pr_result \<Rightarrow> ('v \<Rightarrow> ('v, 'e) pr_result) \<Rightarrow> ('v, 'e) promises list" where
  "pr_chain_states zero r next =
     [\<lparr>pr_tasks = [PrRun r, PrThen 0 next], pr_chans = [None, None]\<rparr>,
      \<lparr>pr_tasks = [PrDone, PrThen 0 next], pr_chans = [Some r, None]\<rparr>,
      \<lparr>pr_tasks = [PrDone, PrRun (pr_continue zero next r)], pr_chans = [None, None]\<rparr>,
      \<lparr>pr_tasks = [PrDone, PrDone], pr_chans = [None, Some (pr_continue zero next r)]\<rparr>,
      \<lparr>pr_tasks = [PrDone, PrDone], pr_chans = [None, None]\<rparr>]"

definition pr_chain_events :: "'v \<Rightarrow> ('v, 'e) pr_result \<Rightarrow> ('v \<Rightarrow> ('v, 'e) pr_result) \<Rightarrow> ('v, 'e) pr_event list" where
  "pr_chain_events zero r next = [PrResolve 0, PrChain 1, PrResolve 1, PrAwait 1 (pr_continue zero next r)]"

lemma pr_chain_step:
  assumes "k < 4"
  shows "pr_step zero (pr_chain_states zero r nxt ! k) (pr_chain_events zero r nxt ! k) (pr_chain_states zero r nxt ! Suc k)"
proof -
  consider "k = 0" | "k = 1" | "k = 2" | "k = 3" using assms by linarith
  then show ?thesis
  proof cases
    case 1
    then show ?thesis using pr_resolve [of 0 "pr_chain_states zero r nxt ! 0" r zero]
      by (simp add: pr_chain_states_def pr_chain_events_def)
  next
    case 2
    then show ?thesis using pr_chain [of 1 "pr_chain_states zero r nxt ! 1" 0 nxt r zero]
      by (simp add: pr_chain_states_def pr_chain_events_def)
  next
    case 3
    then show ?thesis using pr_resolve [of 1 "pr_chain_states zero r nxt ! 2" "pr_continue zero nxt r" zero]
      by (simp add: pr_chain_states_def pr_chain_events_def numeral_2_eq_2)
  next
    case 4
    then show ?thesis using pr_await [of 1 "pr_chain_states zero r nxt ! 3" "pr_continue zero nxt r" zero]
      by (simp add: pr_chain_states_def pr_chain_events_def numeral_3_eq_3)
  qed
qed

lemma pr_chain_det:
  assumes "pr_step zero (pr_chain_states zero r nxt ! k) e s'" "k \<le> 4" "\<forall>x. e \<noteq> PrAwait 0 x"
  shows "k < 4 \<and> e = pr_chain_events zero r nxt ! k \<and> s' = pr_chain_states zero r nxt ! Suc k"
proof -
  consider "k = 0" | "k = 1" | "k = 2" | "k = 3" | "k = 4" using assms(2) by linarith
  then show ?thesis
    using assms(1,3)
    by cases (auto simp: pr_chain_states_def pr_chain_events_def numeral_2_eq_2 numeral_3_eq_3 numeral_eq_Suc
      less_Suc_eq nth_Cons' elim!: pr_stepE split: if_splits)
qed

lemma pr_chain_runs:
  assumes "runs (pr_step zero) t es s" "t = pr_chain_states zero r nxt ! k" "k \<le> 4" "\<forall>x. PrAwait 0 x \<notin> set es"
  shows "k + length es \<le> 4 \<and> es = take (length es) (drop k (pr_chain_events zero r nxt)) \<and>
      s = pr_chain_states zero r nxt ! (k + length es)"
  using assms
proof (induction arbitrary: k rule: runs.induct)
  case (runs_Cons t e t' es s)
  have d: "k < 4" "e = pr_chain_events zero r nxt ! k" "t' = pr_chain_states zero r nxt ! Suc k"
    using pr_chain_det [of zero r nxt k e t'] runs_Cons.hyps(1) runs_Cons.prems by auto
  have "drop k (pr_chain_events zero r nxt) = e # drop (Suc k) (pr_chain_events zero r nxt)"
    unfolding d(2) by (rule Cons_nth_drop_Suc [symmetric]) (use d(1) in \<open>simp add: pr_chain_events_def\<close>)
  then show ?case using runs_Cons.IH [OF d(3)] runs_Cons.prems d(1) by simp
qed simp

text \<open>The complete run.\<close>

lemma pr_chain_run: "runs (pr_step zero) (pr_chain_states zero r nxt ! 0) (pr_chain_events zero r nxt) (pr_chain_states zero r nxt ! 4)"
proof -
  let ?S = "pr_chain_states zero r nxt" and ?E = "pr_chain_events zero r nxt"
  have len: "length ?E = 4" by (simp add: pr_chain_events_def)
  have "runs (pr_step zero) (?S ! 0) (take k ?E) (?S ! k)" if "k \<le> 4" for k
    using that
  proof (induction k)
    case (Suc k)
    then have "k < 4" "runs (pr_step zero) (?S ! 0) (take k ?E) (?S ! k)" by simp_all
    then have "runs (pr_step zero) (?S ! 0) (take k ?E @ [?E ! k]) (?S ! Suc k)" using pr_chain_step by (intro runs_snoc)
    then show ?case using \<open>k < 4\<close> len by (simp add: take_Suc_conv_app_nth)
  qed (simp add: runs_Nil)
  from this [of 4] show ?thesis using len by simp
qed

text \<open>
  Delivery. For a future chained with \<open>Then\<close> whose own result nobody else awaits, every run is an
  initial part of: the first function's result is stored, the chain takes it and runs \<open>next\<close> (or
  propagates the error), its result is stored, \<open>Await\<close> returns it; and a run that is not complete
  can go on. So \<open>Await\<close> of the chain does return, with that value.
\<close>

theorem pr_chain_delivers:
  assumes "runs (pr_step zero) (snd (pr_Then (fst (pr_Async r s0)) nxt (snd (pr_Async r s0)))) es s"
    and "s0 = pr_empty" "\<forall>x. PrAwait 0 x \<notin> set es"
  shows "es = take (length es) (pr_chain_events zero r nxt) \<and>
    (length es < 4 \<longrightarrow> (\<exists>s'. pr_step zero s (pr_chain_events zero r nxt ! length es) s'))"
proof -
  have start: "snd (pr_Then (fst (pr_Async r s0)) nxt (snd (pr_Async r s0))) = pr_chain_states zero r nxt ! 0"
    by (simp add: pr_Then_def pr_Async_def pr_go_def assms(2) pr_empty_def pr_chain_states_def)
  from pr_chain_runs [OF assms(1) start] assms(3)
  have "length es \<le> 4" "es = take (length es) (pr_chain_events zero r nxt)"
    "s = pr_chain_states zero r nxt ! length es" by simp_all
  then show ?thesis using pr_chain_step [of "length es" zero r nxt] by blast
qed

theorem pr_chain_delivers_witness:
  "\<exists>s'. pr_step 0 (snd (pr_Then (fst (pr_Async (20 :: int, None :: string option) pr_empty)) (\<lambda>v. (v + 1, None))
      (snd (pr_Async (20 :: int, None :: string option) pr_empty)))) (PrResolve 0) s'"
proof -
  let ?s = "snd (pr_Then (fst (pr_Async (20 :: int, None :: string option) pr_empty)) (\<lambda>v. (v + 1, None))
      (snd (pr_Async (20 :: int, None :: string option) pr_empty)))"
  have "runs (pr_step 0) ?s [] ?s" by (rule runs_Nil)
  from pr_chain_delivers [OF this refl] show ?thesis by (simp add: pr_chain_events_def)
qed


end
