(* ===== verification/B_Tree.thy ===== *)
theory B_Tree
  imports Go_Prelude
begin

text \<open>
  \<open>src/21-B-Tree/main.go\<close>: a B-tree of minimum degree \<open>d\<close> with insertion that splits full nodes on the
  way down. No two slices of the program share storage that is written later (a split copies the
  upper half), so nodes are a datatype. Every index and slice is checked, and \<open>IndexOutOfRange\<close> stands for the panic; for
  the upper bound of a slice the model checks the length, where Go checks the capacity.

  A key that is in an inner node is inserted again in a leaf, although the comment of \<open>Insert\<close> says
  duplicates are ignored; the tree stays sorted and searchable all the same.
\<close>

datatype btree_node = BTreeNode (bn_keys: "int list") (bn_children: "btree_node list") (bn_leaf: bool)

record btree =
  bt_root :: btree_node
  bt_minDegree :: int

definition NewBTree :: "int \<Rightarrow> btree outcome" where
  "NewBTree minDegree =
     (if minDegree < 2 then Inl ExitOne
      else Inr \<lparr>bt_root = BTreeNode [] [] True, bt_minDegree = minDegree\<rparr>)"

subsection \<open>Searching\<close>

text \<open>\<open>for i < len(node.keys) && key > node.keys[i]\<close>\<close>

fun scan_up :: "int \<Rightarrow> int list \<Rightarrow> nat" where
  "scan_up key [] = 0"
| "scan_up key (k # ks) = (if key > k then Suc (scan_up key ks) else 0)"

lemma size_child: "i < length cs \<Longrightarrow> size (cs ! i) < Suc (size_list size cs)"
  by (metis less_Suc_eq_le nth_mem size_list_estimation' order_refl)

function bt_searchNode :: "btree_node \<Rightarrow> int \<Rightarrow> bool outcome" where
  "bt_searchNode (BTreeNode ks cs lf) key =
     (let i = scan_up key ks in
      if i < length ks \<and> key = ks ! i then Inr True
      else if lf then Inr False
      else if i < length cs then bt_searchNode (cs ! i) key
      else Inl IndexOutOfRange)"
  by pat_completeness auto
termination
  by (relation "measure (\<lambda>(n, k). size n)") (auto dest: size_child)

declare bt_searchNode.simps [simp del]

definition bt_Search :: "int \<Rightarrow> btree \<Rightarrow> bool outcome" where
  "bt_Search key t = bt_searchNode (bt_root t) key"

subsection \<open>Inserting\<close>

text \<open>
  \<open>splitChild\<close>: the child at \<open>index\<close> keeps the lower half, its middle key moves up and a new sibling
  has the upper half.
\<close>

definition bt_splitChild :: "nat \<Rightarrow> nat \<Rightarrow> btree_node \<Rightarrow> btree_node outcome" where
  "bt_splitChild d index parent =
     (case parent of BTreeNode pks pcs plf \<Rightarrow>
      if length pcs \<le> index \<or> length pks < index then Inl IndexOutOfRange
      else case pcs ! index of BTreeNode fks fcs flf \<Rightarrow>
        if length fks < d \<or> (\<not> flf \<and> length fcs < d) then Inl IndexOutOfRange
        else (let sibling = BTreeNode (drop d fks) (if flf then [] else drop d fcs) flf;
                  middle = fks ! (d - 1);
                  full = BTreeNode (take (d - 1) fks) (if flf then fcs else take d fcs) flf
              in Inr (BTreeNode (take index pks @ middle # drop index pks)
                   (take index pcs @ full # sibling # drop (Suc index) pcs) plf)))"

text \<open>\<open>for i >= 0 && key < node.keys[i]\<close> from the last key; the result is \<open>i + 1\<close>.\<close>

fun scan_down :: "int \<Rightarrow> int list \<Rightarrow> nat \<Rightarrow> nat" where
  "scan_down key ks 0 = 0"
| "scan_down key ks (Suc i) = (if key < ks ! i then scan_down key ks i else Suc i)"

fun bn_height :: "btree_node \<Rightarrow> nat" where
  "bn_height (BTreeNode ks cs lf) = Suc (foldr max (map bn_height cs) 0)"

lemma height_max: "x \<in> set cs \<Longrightarrow> bn_height x \<le> foldr max (map bn_height cs) 0"
  by (induction cs) auto

lemma height_child: "i < length cs \<Longrightarrow> bn_height (cs ! i) < Suc (foldr max (map bn_height cs) 0)"
  using height_max [of "cs ! i" cs] by simp

lemma height_split:
  assumes "bt_splitChild d i (BTreeNode ks cs lf) = Inr n" "c \<in> set (bn_children n)"
  shows "bn_height c < Suc (foldr max (map bn_height cs) 0)"
proof -
  obtain fks fcs flf where f: "cs ! i = BTreeNode fks fcs flf" by (cases "cs ! i")
  have i: "i < length cs" using assms(1) by (auto simp: bt_splitChild_def split: if_splits)
  let ?h = "foldr max (map bn_height cs) 0"
  have part: "foldr max (map bn_height xs) 0 \<le> foldr max (map bn_height fcs) 0" if "set xs \<subseteq> set fcs" for xs
    using that by (induction xs) (auto simp: height_max)
  have "Suc (foldr max (map bn_height fcs) 0) \<le> ?h"
    using height_child [OF i] f by simp
  moreover have "c \<in> set cs \<or> bn_height c \<le> Suc (foldr max (map bn_height fcs) 0)"
    using assms part [of "take d fcs"] part [of "drop d fcs"] f
    by (auto simp: bt_splitChild_def Let_def set_take_subset set_drop_subset
        split: if_splits dest: in_set_takeD in_set_dropD)
  ultimately show ?thesis using height_max [of c cs] by (auto simp: less_Suc_eq_le)
qed

function bt_insertNonFull :: "nat \<Rightarrow> btree_node \<Rightarrow> int \<Rightarrow> btree_node outcome" where
  "bt_insertNonFull d (BTreeNode ks cs lf) key =
     (let i = scan_down key ks (length ks) in
      if lf then
        (if i > 0 \<and> ks ! (i - 1) = key then Inr (BTreeNode ks cs lf)
         else Inr (BTreeNode (take i ks @ key # drop i ks) cs lf))
      else if i < length cs then
        (if length (bn_keys (cs ! i)) = 2 * d - 1 then
           (case bt_splitChild d i (BTreeNode ks cs lf) of
              Inl e \<Rightarrow> Inl e
            | Inr node \<Rightarrow>
                (let j = (if key > bn_keys node ! i then Suc i else i) in
                 if j < length (bn_children node) then
                   (case bt_insertNonFull d (bn_children node ! j) key of
                      Inl e \<Rightarrow> Inl e
                    | Inr c \<Rightarrow> Inr (BTreeNode (bn_keys node) ((bn_children node)[j := c]) (bn_leaf node)))
                 else Inl IndexOutOfRange))
         else
           (case bt_insertNonFull d (cs ! i) key of
              Inl e \<Rightarrow> Inl e
            | Inr c \<Rightarrow> Inr (BTreeNode ks (cs[i := c]) lf)))
      else Inl IndexOutOfRange)"
  by pat_completeness auto
termination
proof (relation "measure (\<lambda>(d, n, k). bn_height n)", goal_cases)
  case (2 d ks cs lf key i node j)
  then show ?case using height_split [OF 2(5)] by simp
next
  case (3 d ks cs lf key i)
  then show ?case using height_child by simp
qed simp

declare bt_insertNonFull.simps [simp del]

definition bt_Insert :: "int \<Rightarrow> btree \<Rightarrow> btree outcome" where
  "bt_Insert key t =
     (let d = nat (bt_minDegree t); root = bt_root t in
      if length (bn_keys root) = 2 * d - 1 then
        (case bt_splitChild d 0 (BTreeNode [] [root] False) of
           Inl e \<Rightarrow> Inl e
         | Inr node \<Rightarrow>
             (case bt_insertNonFull d node key of
                Inl e \<Rightarrow> Inl e
              | Inr n \<Rightarrow> Inr (t\<lparr>bt_root := n\<rparr>)))
      else
        (case bt_insertNonFull d root key of
           Inl e \<Rightarrow> Inl e
         | Inr n \<Rightarrow> Inr (t\<lparr>bt_root := n\<rparr>)))"

subsection \<open>The keys in order\<close>

text \<open>The contents of the children with the keys between them.\<close>

fun weave :: "'a list list \<Rightarrow> 'a list \<Rightarrow> 'a list" where
  "weave [] ks = ks"
| "weave (x # xs) [] = x"
| "weave (x # xs) (k # ks) = x @ k # weave xs ks"

fun bn_inorder :: "btree_node \<Rightarrow> int list" where
  "bn_inorder (BTreeNode ks cs lf) = weave (map bn_inorder cs) ks"

definition before :: "'a list list \<Rightarrow> 'a list \<Rightarrow> 'a list" where
  "before xs ks = concat (map2 (\<lambda>x k. x @ [k]) xs ks)"

definition after :: "'a list \<Rightarrow> 'a list list \<Rightarrow> 'a list" where
  "after ks xs = concat (map2 (\<lambda>k x. k # x) ks xs)"

lemma before_simps [simp]: "before [] ks = []" "before (x # xs) (k # ks) = x @ k # before xs ks"
  by (simp_all add: before_def)

lemma after_simps [simp]: "after [] xs = []" "after (k # ks) (x # xs) = k # x @ after ks xs"
  by (simp_all add: after_def)

lemma weave_at:
  "length xs = length ks \<Longrightarrow> length ys = length js \<Longrightarrow>
     weave (xs @ y # ys) (ks @ js) = before xs ks @ y @ after js ys"
proof (induction xs ks rule: list_induct2)
  case Nil
  then show ?case by (induction ys js arbitrary: y rule: list_induct2) simp_all
qed simp

lemma weave_cut:
  "length xs = Suc (length ks) \<Longrightarrow> length ys = Suc (length js) \<Longrightarrow>
     weave (xs @ ys) (ks @ k # js) = weave xs ks @ k # weave ys js"
proof (induction ks arbitrary: xs)
  case Nil
  then obtain x where "xs = [x]" by (auto simp: length_Suc_conv)
  then show ?case using Nil by (cases ys) auto
next
  case (Cons a ks)
  then obtain x xs' where "xs = x # xs'" by (cases xs) auto
  then show ?case using Cons by simp
qed

lemma last_before: "length xs = length ks \<Longrightarrow> ks \<noteq> [] \<Longrightarrow> before xs ks \<noteq> [] \<and> List.last (before xs ks) = List.last ks"
  by (induction xs ks rule: list_induct2) auto

lemma hd_after: "length xs = length ks \<Longrightarrow> ks \<noteq> [] \<Longrightarrow> after ks xs \<noteq> [] \<and> hd (after ks xs) = hd ks"
  by (induction ks xs rule: list_induct2') auto

lemma sorted_last: "sorted xs \<Longrightarrow> x \<in> set xs \<Longrightarrow> x \<le> List.last xs" for x :: int
  by (induction xs) auto

lemma sorted_hd: "sorted xs \<Longrightarrow> x \<in> set xs \<Longrightarrow> hd xs \<le> x" for x :: int
  by (cases xs) auto

subsection \<open>Well-formed trees\<close>

text \<open>All leaves are at depth \<open>h\<close>; nodes have one more child than keys and between \<open>d - 1\<close> and \<open>2 d - 1\<close> keys, the root at least one.\<close>

fun bn_wf :: "nat \<Rightarrow> nat \<Rightarrow> btree_node \<Rightarrow> bool" where
  "bn_wf d 0 (BTreeNode ks cs lf) \<longleftrightarrow> lf \<and> cs = [] \<and> length ks \<le> 2 * d - 1"
| "bn_wf d (Suc h) (BTreeNode ks cs lf) \<longleftrightarrow> \<not> lf \<and> length cs = Suc (length ks) \<and> ks \<noteq> [] \<and>
     length ks \<le> 2 * d - 1 \<and> (\<forall>c \<in> set cs. bn_wf d h c \<and> d - 1 \<le> length (bn_keys c))"

text \<open>A node with a child \<open>i\<close> singled out.\<close>

lemma inorder_at:
  assumes "length cs = Suc (length ks)" "i \<le> length ks"
  shows "bn_inorder (BTreeNode ks cs lf) = before (map bn_inorder (take i cs)) (take i ks) @ bn_inorder (cs ! i) @
     after (drop i ks) (map bn_inorder (drop (Suc i) cs))"
proof -
  have "map bn_inorder cs = map bn_inorder (take i cs) @ bn_inorder (cs ! i) # map bn_inorder (drop (Suc i) cs)"
  proof -
    have "i < length cs" using assms by simp
    from arg_cong [OF id_take_nth_drop [OF this], of "map bn_inorder"] show ?thesis
      by (simp only: map_append list.map(2))
  qed
  moreover have "weave (map bn_inorder (take i cs) @ bn_inorder (cs ! i) # map bn_inorder (drop (Suc i) cs)) (take i ks @ drop i ks)
      = before (map bn_inorder (take i cs)) (take i ks) @ bn_inorder (cs ! i) @ after (drop i ks) (map bn_inorder (drop (Suc i) cs))"
    by (rule weave_at) (use assms in simp_all)
  ultimately show ?thesis by (simp only: bn_inorder.simps append_take_drop_id)
qed

lemma inorder_update:
  assumes "length cs = Suc (length ks)" "i \<le> length ks"
  shows "bn_inorder (BTreeNode ks (cs[i := c]) lf) = before (map bn_inorder (take i cs)) (take i ks) @ bn_inorder c @
     after (drop i ks) (map bn_inorder (drop (Suc i) cs))"
  using inorder_at [of "cs[i := c]" ks i lf] assms by simp

text \<open>In a sorted node, what surrounds child \<open>i\<close>.\<close>

lemma around_child:
  assumes "sorted (before (map f (take i cs)) (take i ks) @ m @ after (drop i ks) (map f (drop (Suc i) cs)))"
    and "length cs = Suc (length ks)" "i \<le> length ks"
  shows "0 < i \<Longrightarrow> x \<in> set (before (map f (take i cs)) (take i ks)) \<Longrightarrow> x \<le> ks ! (i - 1)"
    and "i < length ks \<Longrightarrow> x \<in> set (after (drop i ks) (map f (drop (Suc i) cs))) \<Longrightarrow> ks ! i \<le> (x :: int)"
    and "i = 0 \<Longrightarrow> before (map f (take i cs)) (take i ks) = []"
    and "i = length ks \<Longrightarrow> after (drop i ks) (map f (drop (Suc i) cs)) = []"
proof -
  let ?a = "before (map f (take i cs)) (take i ks)" and ?b = "after (drop i ks) (map f (drop (Suc i) cs))"
  have srt: "sorted ?a" "sorted ?b" using assms(1) by (simp_all add: sorted_append)
  have len: "length (map f (take i cs)) = length (take i ks)" "length (map f (drop (Suc i) cs)) = length (drop i ks)"
    using assms(2,3) by simp_all
  show "x \<le> ks ! (i - 1)" if "0 < i" "x \<in> set ?a"
  proof -
    have "take i ks \<noteq> []" using that assms(3) by auto
    then have "List.last ?a = List.last (take i ks)" using last_before [OF len(1)] by simp
    also have "\<dots> = ks ! (i - 1)" using that(1) assms(3) \<open>take i ks \<noteq> []\<close> by (simp add: last_conv_nth)
    finally show ?thesis using sorted_last [OF srt(1) that(2)] by simp
  qed
  show "ks ! i \<le> x" if "i < length ks" "x \<in> set ?b"
    using hd_after [OF len(2)] sorted_hd [OF srt(2) that(2)] that(1) by (simp add: hd_drop_conv_nth)
  show "i = 0 \<Longrightarrow> ?a = []" by simp
  show "i = length ks \<Longrightarrow> ?b = []" by simp
qed

subsection \<open>Searching is exact\<close>

lemma scan_up_spec:
  "scan_up key ks \<le> length ks" "i < scan_up key ks \<Longrightarrow> ks ! i < key"
  "scan_up key ks < length ks \<Longrightarrow> key \<le> ks ! scan_up key ks"
proof -
  show "scan_up key ks \<le> length ks" by (induction ks) auto
  show "i < scan_up key ks \<Longrightarrow> ks ! i < key" by (induction ks arbitrary: i) (auto simp: nth_Cons' split: if_splits)
  show "scan_up key ks < length ks \<Longrightarrow> key \<le> ks ! scan_up key ks" by (induction ks) (auto split: if_splits)
qed

lemma bt_searchNode_ok:
  "bn_wf d h n \<Longrightarrow> sorted (bn_inorder n) \<Longrightarrow> bt_searchNode n key = Inr (key \<in> set (bn_inorder n))"
proof (induction d h n rule: bn_wf.induct)
  case (1 d ks cs lf)
  let ?i = "scan_up key ks"
  have w: "lf" "cs = []" "sorted ks" using 1 by simp_all
  have "?i < length ks \<and> key = ks ! ?i \<longleftrightarrow> key \<in> set ks"
  proof
    assume "key \<in> set ks"
    then obtain j where j: "j < length ks" "ks ! j = key" by (metis in_set_conv_nth)
    then have "?i \<le> j" using scan_up_spec(2) [of j key ks] by (meson less_irrefl not_le)
    moreover from this have "?i < length ks" using j by simp
    ultimately show "?i < length ks \<and> key = ks ! ?i"
      using scan_up_spec(3) [of key ks] sorted_nth_mono [OF w(3), of ?i j] j by simp
  next
    assume "?i < length ks \<and> key = ks ! ?i"
    then show "key \<in> set ks" by (metis nth_mem)
  qed
  then show ?case using w by (subst bt_searchNode.simps) (simp add: Let_def)
next
  case (2 d h ks cs lf)
  let ?i = "scan_up key ks"
  have w: "\<not> lf" "length cs = Suc (length ks)" using "2.prems" by simp_all
  have i: "?i \<le> length ks" by (rule scan_up_spec)
  then have ic: "?i < length cs" using w by simp
  note split = inorder_at [OF w(2) i, of lf]
  have srt: "sorted (before (map bn_inorder (take ?i cs)) (take ?i ks) @ bn_inorder (cs ! ?i) @
     after (drop ?i ks) (map bn_inorder (drop (Suc ?i) cs)))"
    using "2.prems"(2) unfolding split .
  note around = around_child [OF srt w(2) i]
  have child: "bt_searchNode (cs ! ?i) key = Inr (key \<in> set (bn_inorder (cs ! ?i)))"
    using "2.IH" [of "cs ! ?i"] "2.prems"(1) ic srt by (auto simp: sorted_append)
  show ?case
  proof (cases "?i < length ks \<and> key = ks ! ?i")
    case True
    then have "drop ?i ks = key # drop (Suc ?i) ks" using Cons_nth_drop_Suc [of ?i ks] by simp
    then have "key \<in> set (after (drop ?i ks) (map bn_inorder (drop (Suc ?i) cs)))"
      using hd_after [of "map bn_inorder (drop (Suc ?i) cs)" "drop ?i ks"] w(2) True
      by (metis hd_in_set length_drop length_map list.sel(1) list.distinct(1) diff_Suc_Suc)
    then have "key \<in> set (bn_inorder (BTreeNode ks cs lf))" unfolding split by simp
    then show ?thesis using True by (subst bt_searchNode.simps) (simp add: Let_def)
  next
    case False
    have no_before: "key \<notin> set (before (map bn_inorder (take ?i cs)) (take ?i ks))"
    proof (cases "?i = 0")
      case pos: False
      then have "ks ! (?i - 1) < key" using scan_up_spec(2) [of "?i - 1" key ks] by simp
      then show ?thesis using around(1) pos by fastforce
    qed simp
    have no_after: "key \<notin> set (after (drop ?i ks) (map bn_inorder (drop (Suc ?i) cs)))"
    proof (cases "?i < length ks")
      case True
      then have "key < ks ! ?i" using scan_up_spec(3) [of key ks] False by simp
      then show ?thesis using around(2) True by fastforce
    next
      case False
      then show ?thesis using around(4) i by simp
    qed
    have "key \<in> set (bn_inorder (BTreeNode ks cs lf)) \<longleftrightarrow> key \<in> set (bn_inorder (cs ! ?i))"
      unfolding split using no_before no_after by simp
    then show ?thesis using False w ic child by (subst bt_searchNode.simps) (auto simp: Let_def)
  qed
qed

subsection \<open>Splitting a full child\<close>

lemma bt_splitChild_ok:
  assumes d: "2 \<le> d" and len: "length cs = Suc (length ks)" "i \<le> length ks"
    and full: "bn_wf d h (cs ! i)" "length (bn_keys (cs ! i)) = 2 * d - 1"
  shows "\<exists>l m r. bt_splitChild d i (BTreeNode ks cs lf) =
      Inr (BTreeNode (take i ks @ m # drop i ks) (take i cs @ l # r # drop (Suc i) cs) lf) \<and>
    bn_wf d h l \<and> bn_wf d h r \<and> length (bn_keys l) = d - 1 \<and> length (bn_keys r) = d - 1 \<and>
    bn_inorder (cs ! i) = bn_inorder l @ m # bn_inorder r"
proof -
  obtain fks fcs flf where f: "cs ! i = BTreeNode fks fcs flf" by (cases "cs ! i")
  have fl: "length fks = 2 * d - 1" using full(2) f by simp
  have cut: "fks = take (d - 1) fks @ fks ! (d - 1) # drop d fks"
    using id_take_nth_drop [of "d - 1" fks] fl d by simp
  have lens: "length (take (d - 1) fks) = d - 1" "length (drop d fks) = d - 1" using fl d by simp_all
  show ?thesis
  proof (cases h)
    case 0
    then have leaf: "flf" "fcs = []" using full(1) f by simp_all
    let ?l = "BTreeNode (take (d - 1) fks) [] True" and ?r = "BTreeNode (drop d fks) [] True"
    have "bt_splitChild d i (BTreeNode ks cs lf) = Inr (BTreeNode (take i ks @ fks ! (d - 1) # drop i ks)
        (take i cs @ ?l # ?r # drop (Suc i) cs) lf)"
      using len fl d leaf by (simp add: bt_splitChild_def f Let_def)
    moreover have "bn_inorder (cs ! i) = bn_inorder ?l @ fks ! (d - 1) # bn_inorder ?r"
      using cut by (simp add: f leaf)
    moreover have "bn_wf d h ?l" "bn_wf d h ?r" using lens by (simp_all add: 0)
    ultimately show ?thesis using lens by (intro exI [of _ ?l] exI [of _ "fks ! (d - 1)"] exI [of _ ?r]) simp
  next
    case (Suc g)
    then have inner: "\<not> flf" "length fcs = Suc (length fks)"
      "\<forall>c \<in> set fcs. bn_wf d g c \<and> d - 1 \<le> length (bn_keys c)" using full(1) f by simp_all
    let ?l = "BTreeNode (take (d - 1) fks) (take d fcs) False" and ?r = "BTreeNode (drop d fks) (drop d fcs) False"
    have "bt_splitChild d i (BTreeNode ks cs lf) = Inr (BTreeNode (take i ks @ fks ! (d - 1) # drop i ks)
        (take i cs @ ?l # ?r # drop (Suc i) cs) lf)"
      using len fl d inner by (simp add: bt_splitChild_def f Let_def)
    moreover have "bn_inorder (cs ! i) = bn_inorder ?l @ fks ! (d - 1) # bn_inorder ?r"
    proof -
      have "weave (map bn_inorder (take d fcs) @ map bn_inorder (drop d fcs)) (take (d - 1) fks @ fks ! (d - 1) # drop d fks)
         = weave (map bn_inorder (take d fcs)) (take (d - 1) fks) @ fks ! (d - 1) # weave (map bn_inorder (drop d fcs)) (drop d fks)"
        by (rule weave_cut) (use inner(2) fl d in simp_all)
      then show ?thesis unfolding cut [symmetric] by (simp add: f flip: map_append)
    qed
    moreover have "bn_wf d h ?l" "bn_wf d h ?r"
      using lens inner fl d by (auto simp: Suc dest: in_set_takeD in_set_dropD)
    ultimately show ?thesis using lens by (intro exI [of _ ?l] exI [of _ "fks ! (d - 1)"] exI [of _ ?r]) simp
  qed
qed

lemma split_inorder:
  assumes "length cs = Suc (length ks)" "i \<le> length ks" "bn_inorder (cs ! i) = bn_inorder l @ m # bn_inorder r"
  shows "bn_inorder (BTreeNode (take i ks @ m # drop i ks) (take i cs @ l # r # drop (Suc i) cs) lf)
    = bn_inorder (BTreeNode ks cs lf)"
proof -
  have "weave (map bn_inorder (take i cs) @ bn_inorder l # bn_inorder r # map bn_inorder (drop (Suc i) cs)) (take i ks @ m # drop i ks)
      = before (map bn_inorder (take i cs)) (take i ks) @ bn_inorder l @ after (m # drop i ks) (bn_inorder r # map bn_inorder (drop (Suc i) cs))"
    by (rule weave_at) (use assms(1,2) in simp_all)
  then show ?thesis unfolding inorder_at [OF assms(1,2)] by (simp add: assms(3))
qed

subsection \<open>Insertion adds the key\<close>

text \<open>The new contents: sorted, and the key once more or, where it was already, unchanged.\<close>

definition adds :: "int \<Rightarrow> int list \<Rightarrow> int list \<Rightarrow> bool" where
  "adds key xs ys \<longleftrightarrow> sorted ys \<and> (mset ys = add_mset key (mset xs) \<or> mset ys = mset xs \<and> key \<in> set xs)"

lemma adds_set: "adds key xs ys \<Longrightarrow> set ys = insert key (set xs)"
  unfolding adds_def by (metis insert_absorb set_mset_add_mset_insert set_mset_mset)

lemma adds_between:
  assumes "sorted (a @ m @ b)" "adds key m m'" "\<And>x. x \<in> set a \<Longrightarrow> x \<le> key" "\<And>x. x \<in> set b \<Longrightarrow> key \<le> x"
  shows "adds key (a @ m @ b) (a @ m' @ b)"
proof -
  have "set m' = insert key (set m)" using assms(2) by (rule adds_set)
  then have "sorted (a @ m' @ b)" using assms by (auto simp: sorted_append adds_def)
  then show ?thesis using assms(2) by (auto simp: adds_def)
qed

lemma scan_down_spec:
  "scan_down key ks n \<le> n" "scan_down key ks n \<le> j \<Longrightarrow> j < n \<Longrightarrow> key < ks ! j"
  "0 < scan_down key ks n \<Longrightarrow> ks ! (scan_down key ks n - 1) \<le> key"
proof -
  show "scan_down key ks n \<le> n" by (induction n) auto
  show "scan_down key ks n \<le> j \<Longrightarrow> j < n \<Longrightarrow> key < ks ! j"
    by (induction n) (auto split: if_splits simp: less_Suc_eq)
  show "0 < scan_down key ks n \<Longrightarrow> ks ! (scan_down key ks n - 1) \<le> key"
    by (induction n) (auto split: if_splits)
qed

text \<open>Replacing the child that the key belongs to.\<close>

lemma descend:
  assumes len: "length cs = Suc (length ks)" "i \<le> length ks" and srt: "sorted (bn_inorder (BTreeNode ks cs lf))"
    and child: "adds key (bn_inorder (cs ! i)) (bn_inorder c)"
    and place: "0 < i \<Longrightarrow> ks ! (i - 1) \<le> key" "i < length ks \<Longrightarrow> key \<le> ks ! i"
  shows "adds key (bn_inorder (BTreeNode ks cs lf)) (bn_inorder (BTreeNode ks (cs[i := c]) lf))"
proof -
  note s = srt [unfolded inorder_at [OF len]]
  note around = around_child [OF s len]
  have "x \<le> key" if "x \<in> set (before (map bn_inorder (take i cs)) (take i ks))" for x
    using around(1) [OF _ that] around(3) that place(1) by (cases "i = 0") force+
  moreover have "key \<le> x" if "x \<in> set (after (drop i ks) (map bn_inorder (drop (Suc i) cs)))" for x
    using around(2) [OF _ that] around(4) that place(2) len(2) by (cases "i = length ks") force+
  ultimately show ?thesis
    unfolding inorder_at [OF len] inorder_update [OF len] by (intro adds_between [OF s child])
qed

lemma insert_leaf:
  fixes key :: int
  assumes "sorted ks"
  defines "i \<equiv> scan_down key ks (length ks)"
  shows "0 < i \<and> ks ! (i - 1) = key \<Longrightarrow> adds key ks ks"
    and "adds key ks (take i ks @ key # drop i ks)"
proof -
  have i: "i \<le> length ks" using scan_down_spec(1) by (simp add: i_def)
  show "adds key ks ks" if "0 < i \<and> ks ! (i - 1) = key"
  proof -
    have "i - 1 < length ks" using that i by linarith
    then show ?thesis using that assms(1) by (auto simp: adds_def)
  qed
  have "adds key [] [key]" by (simp add: adds_def)
  moreover have "x \<le> key" if x: "x \<in> set (take i ks)" for x
  proof -
    obtain j where j: "j < i" "x = ks ! j" using x by (auto simp: in_set_conv_nth)
    have "ks ! j \<le> ks ! (i - 1)" using j(1) i by (intro sorted_nth_mono [OF assms(1)]) auto
    then show ?thesis using scan_down_spec(3) [of key ks "length ks"] j by (simp add: i_def)
  qed
  moreover have "key \<le> x" if x: "x \<in> set (drop i ks)" for x
  proof -
    obtain j where "j < length (drop i ks)" "x = drop i ks ! j" using x by (metis in_set_conv_nth)
    then have "i + j < length ks" "x = ks ! (i + j)" by simp_all
    then show ?thesis using scan_down_spec(2) [of key ks "length ks" "i + j"] by (simp add: i_def)
  qed
  ultimately show "adds key ks (take i ks @ key # drop i ks)"
    using adds_between [of "take i ks" "[]" "drop i ks" key "[key]"] assms(1) by simp
qed

lemma set_list_update_wf:
  "\<forall>c \<in> set cs. P c \<Longrightarrow> P x \<Longrightarrow> \<forall>c \<in> set (cs[i := x]). P c"
  by (metis insert_iff set_update_subset_insert subset_eq)

lemma bt_insertNonFull_ok:
  assumes "2 \<le> d"
  shows "bn_wf d h n \<Longrightarrow> sorted (bn_inorder n) \<Longrightarrow> length (bn_keys n) < 2 * d - 1 \<Longrightarrow>
    \<exists>n'. bt_insertNonFull d n key = Inr n' \<and> bn_wf d h n' \<and> length (bn_keys n) \<le> length (bn_keys n') \<and>
      adds key (bn_inorder n) (bn_inorder n')"
proof (induction h arbitrary: n)
  case 0
  obtain ks cs lf where n: "n = BTreeNode ks cs lf" by (cases n)
  have w: "lf" "cs = []" "sorted ks" "length ks < 2 * d - 1" using 0 by (simp_all add: n)
  show ?case using insert_leaf [OF w(3), of key] w
    by (subst n, subst bt_insertNonFull.simps) (auto simp: Let_def n)
next
  case (Suc h)
  obtain ks cs lf where n: "n = BTreeNode ks cs lf" by (cases n)
  define i where "i = scan_down key ks (length ks)"
  have w: "\<not> lf" "length cs = Suc (length ks)" "ks \<noteq> []" "length ks < 2 * d - 1"
    "\<forall>c \<in> set cs. bn_wf d h c \<and> d - 1 \<le> length (bn_keys c)"
    using Suc.prems by (simp_all add: n)
  have i: "i \<le> length ks" and below: "0 < i \<Longrightarrow> ks ! (i - 1) \<le> key" and above: "i < length ks \<Longrightarrow> key < ks ! i"
    using scan_down_spec [of key ks "length ks"] by (auto simp: i_def)
  have ic: "i < length cs" and ci: "cs ! i \<in> set cs" using i w(2) by simp_all
  have srt: "sorted (bn_inorder (BTreeNode ks cs lf))" using Suc.prems(2) by (simp only: n)
  show ?case
  proof (cases "length (bn_keys (cs ! i)) = 2 * d - 1")
    case False
    have "sorted (bn_inorder (cs ! i))"
      using srt unfolding inorder_at [OF w(2) i] by (simp add: sorted_append)
    moreover have "bn_wf d h (cs ! i)" "length (bn_keys (cs ! i)) < 2 * d - 1"
      using w(5) ci False by (cases h; cases "cs ! i"; fastforce)+
    ultimately obtain c where c: "bt_insertNonFull d (cs ! i) key = Inr c" "bn_wf d h c"
      "length (bn_keys (cs ! i)) \<le> length (bn_keys c)" "adds key (bn_inorder (cs ! i)) (bn_inorder c)"
      using Suc.IH by blast
    have "bt_insertNonFull d n key = Inr (BTreeNode ks (cs[i := c]) lf)"
      unfolding n using w(1) ic False c(1) by (subst bt_insertNonFull.simps) (simp add: Let_def flip: i_def)
    moreover have "d - 1 \<le> length (bn_keys c)" using w(5) ci c(3) by fastforce
    then have "bn_wf d (Suc h) (BTreeNode ks (cs[i := c]) lf)"
      using w c(2) set_list_update_wf [OF w(5), of c i] by simp
    moreover have "adds key (bn_inorder n) (bn_inorder (BTreeNode ks (cs[i := c]) lf))"
      unfolding n using descend [OF w(2) i srt c(4) below] above by fastforce
    ultimately show ?thesis by (auto simp: n)
  next
    case True
    obtain l m r where s: "bt_splitChild d i (BTreeNode ks cs lf) =
        Inr (BTreeNode (take i ks @ m # drop i ks) (take i cs @ l # r # drop (Suc i) cs) lf)"
      "bn_wf d h l" "bn_wf d h r" "length (bn_keys l) = d - 1" "length (bn_keys r) = d - 1"
      "bn_inorder (cs ! i) = bn_inorder l @ m # bn_inorder r"
      using bt_splitChild_ok [OF assms w(2) i _ True] w(5) ci by blast
    define ks' where "ks' = take i ks @ m # drop i ks"
    define cs' where "cs' = take i cs @ l # r # drop (Suc i) cs"
    define j where "j = (if key > m then Suc i else i)"
    have same: "bn_inorder (BTreeNode ks' cs' lf) = bn_inorder n"
      unfolding ks'_def cs'_def n by (rule split_inorder [OF w(2) i s(6)])
    have len: "length cs' = Suc (length ks')" "j \<le> length ks'" "length ks' = Suc (length ks)"
      using w(2) i by (simp_all add: ks'_def cs'_def j_def)
    have mid: "ks' ! i = m" "i - 1 < i \<Longrightarrow> ks' ! (i - 1) = ks ! (i - 1)" "i < length ks \<Longrightarrow> ks' ! Suc i = ks ! i"
      using i by (simp_all add: ks'_def nth_append)
    have cj: "cs' ! j = (if key > m then r else l)" using ic by (simp add: cs'_def j_def nth_append)
    have srt': "sorted (bn_inorder (BTreeNode ks' cs' lf))" using Suc.prems(2) by (simp only: same)
    then have "sorted (bn_inorder (cs' ! j))"
      unfolding inorder_at [OF len(1,2)] by (simp add: sorted_append)
    moreover have "bn_wf d h (cs' ! j)" "length (bn_keys (cs' ! j)) < 2 * d - 1" "length (bn_keys (cs' ! j)) = d - 1"
      using s assms by (simp_all add: cj)
    ultimately obtain c where c: "bt_insertNonFull d (cs' ! j) key = Inr c" "bn_wf d h c"
      "length (bn_keys (cs' ! j)) \<le> length (bn_keys c)" "adds key (bn_inorder (cs' ! j)) (bn_inorder c)"
      using Suc.IH by blast
    have run: "bt_insertNonFull d n key = Inr (BTreeNode ks' (cs'[j := c]) lf)"
      unfolding n using w(1) ic True c(1) s(1) len mid(1)
      by (subst bt_insertNonFull.simps) (simp add: Let_def flip: i_def ks'_def cs'_def j_def)
    have "\<forall>c \<in> set cs'. bn_wf d h c \<and> d - 1 \<le> length (bn_keys c)"
      using w(5) s(2-5) by (auto simp: cs'_def dest: in_set_takeD in_set_dropD)
    from set_list_update_wf [OF this, of c j] have "bn_wf d (Suc h) (BTreeNode ks' (cs'[j := c]) lf)"
      using w(1,4) len c(2,3) \<open>length (bn_keys (cs' ! j)) = d - 1\<close> by (auto simp: ks'_def)
    moreover have "adds key (bn_inorder n) (bn_inorder (BTreeNode ks' (cs'[j := c]) lf))"
    proof -
      have "0 < j \<Longrightarrow> ks' ! (j - 1) \<le> key" "j < length ks' \<Longrightarrow> key \<le> ks' ! j"
        using below above mid len(3) by (auto simp: j_def less_imp_le split: if_splits)
      then show ?thesis using descend [OF len(1,2) srt' c(4)] by (simp only: same)
    qed
    ultimately show ?thesis using run len(3) by (simp add: n)
  qed
qed

subsection \<open>The tree\<close>

definition bt_inv :: "btree \<Rightarrow> bool" where
  "bt_inv t \<longleftrightarrow> 2 \<le> bt_minDegree t \<and> (\<exists>h. bn_wf (nat (bt_minDegree t)) h (bt_root t)) \<and> sorted (bn_inorder (bt_root t))"

lemma bt_Insert_ok:
  assumes "bt_inv t"
  shows "\<exists>t'. bt_Insert key t = Inr t' \<and> bt_inv t' \<and> adds key (bn_inorder (bt_root t)) (bn_inorder (bt_root t'))"
proof -
  define d where "d = nat (bt_minDegree t)"
  obtain h where h: "bn_wf d h (bt_root t)" and srt: "sorted (bn_inorder (bt_root t))" and d: "2 \<le> d"
    using assms by (auto simp: bt_inv_def d_def)
  show ?thesis
  proof (cases "length (bn_keys (bt_root t)) = 2 * d - 1")
    case True
    obtain l m r where s: "bt_splitChild d 0 (BTreeNode [] [bt_root t] False) = Inr (BTreeNode [m] [l, r] False)"
      "bn_wf d h l" "bn_wf d h r" "length (bn_keys l) = d - 1" "length (bn_keys r) = d - 1"
      "bn_inorder (bt_root t) = bn_inorder l @ m # bn_inorder r"
      using bt_splitChild_ok [OF d, of "[bt_root t]" "[]" 0 h False] h True by auto
    let ?n = "BTreeNode [m] [l, r] False"
    have n: "bn_wf d (Suc h) ?n" "bn_inorder ?n = bn_inorder (bt_root t)" "length (bn_keys ?n) < 2 * d - 1"
      using s d by simp_all
    obtain n' where n': "bt_insertNonFull d ?n key = Inr n'" "bn_wf d (Suc h) n'" "adds key (bn_inorder (bt_root t)) (bn_inorder n')"
      using bt_insertNonFull_ok [OF d n(1) _ n(3), of key] srt unfolding n(2) by blast
    have "bt_Insert key t = Inr (t\<lparr>bt_root := n'\<rparr>)"
      using s(1) True n'(1) by (simp add: bt_Insert_def Let_def flip: d_def)
    moreover have "bt_inv (t\<lparr>bt_root := n'\<rparr>)"
      using n'(2,3) assms by (auto simp: bt_inv_def adds_def simp flip: d_def)
    ultimately show ?thesis using n'(3) by simp
  next
    case False
    have "length (bn_keys (bt_root t)) \<le> 2 * d - 1" using h by (cases h; cases "bt_root t") auto
    then have "length (bn_keys (bt_root t)) < 2 * d - 1" using False by simp
    from bt_insertNonFull_ok [OF d h srt this, of key] obtain n' where "bt_insertNonFull d (bt_root t) key = Inr n'"
      "bn_wf d h n'" "adds key (bn_inorder (bt_root t)) (bn_inorder n')" by blast
    moreover from this have "bt_inv (t\<lparr>bt_root := n'\<rparr>)"
      using assms by (auto simp: bt_inv_def adds_def simp flip: d_def)
    moreover have "bt_Insert key t = Inr (t\<lparr>bt_root := n'\<rparr>)"
      using False calculation(1) by (simp add: bt_Insert_def Let_def flip: d_def)
    ultimately show ?thesis by simp
  qed
qed

text \<open>
  C5. Any insertions into a new tree of minimum degree at least 2 return without an index panic. The tree
  is then balanced with every node within its bounds, its keys are in order, every new key is in it once, and
  \<open>Search\<close> finds exactly the keys inserted.
\<close>
theorem bt_insert_search:
  assumes "2 \<le> d"
  shows "\<exists>t h. and_then (NewBTree d) (each bt_Insert keys) = Inr t \<and>
    bn_wf (nat d) h (bt_root t) \<and> sorted (bn_inorder (bt_root t)) \<and> (\<forall>key. bt_Search key t = Inr (key \<in> set keys)) \<and>
    (distinct keys \<longrightarrow> bn_inorder (bt_root t) = sort keys)"
proof -
  have run: "\<exists>t'. each bt_Insert keys t = Inr t' \<and> bt_inv t' \<and> bt_minDegree t' = bt_minDegree t \<and>
     set (bn_inorder (bt_root t')) = set keys \<union> set (bn_inorder (bt_root t)) \<and>
     (distinct keys \<and> set keys \<inter> set (bn_inorder (bt_root t)) = {} \<longrightarrow>
       mset (bn_inorder (bt_root t')) = mset keys + mset (bn_inorder (bt_root t)))"
    if "bt_inv t" for t
    using that
  proof (induction keys arbitrary: t)
    case (Cons k keys)
    obtain t1 where t1: "bt_Insert k t = Inr t1" "bt_inv t1" "adds k (bn_inorder (bt_root t)) (bn_inorder (bt_root t1))"
      using bt_Insert_ok [OF Cons.prems] by blast
    have deg: "bt_minDegree t1 = bt_minDegree t"
      using t1(1) by (auto simp: bt_Insert_def Let_def split: if_splits sum.splits)
    have st: "set (bn_inorder (bt_root t1)) = insert k (set (bn_inorder (bt_root t)))" using t1(3) by (rule adds_set)
    obtain t2 where t2: "each bt_Insert keys t1 = Inr t2" "bt_inv t2" "bt_minDegree t2 = bt_minDegree t1"
      "set (bn_inorder (bt_root t2)) = set keys \<union> set (bn_inorder (bt_root t1))"
      "distinct keys \<and> set keys \<inter> set (bn_inorder (bt_root t1)) = {} \<longrightarrow>
       mset (bn_inorder (bt_root t2)) = mset keys + mset (bn_inorder (bt_root t1))"
      using Cons.IH [OF t1(2)] by blast
    have "mset (bn_inorder (bt_root t2)) = mset (k # keys) + mset (bn_inorder (bt_root t))"
      if "distinct (k # keys)" "set (k # keys) \<inter> set (bn_inorder (bt_root t)) = {}"
      using that t2(5) st t1(3) by (auto simp: adds_def)
    then show ?case using t1(1) t2(1-4) deg st by auto
  qed simp
  have "bt_inv \<lparr>bt_root = BTreeNode [] [] True, bt_minDegree = d\<rparr>"
    using assms by (auto simp: bt_inv_def intro!: exI [of _ 0])
  from run [OF this] obtain t where t: "each bt_Insert keys \<lparr>bt_root = BTreeNode [] [] True, bt_minDegree = d\<rparr> = Inr t"
    "bt_inv t" "bt_minDegree t = d" "set (bn_inorder (bt_root t)) = set keys"
    "distinct keys \<longrightarrow> mset (bn_inorder (bt_root t)) = mset keys" by auto
  obtain h where h: "bn_wf (nat d) h (bt_root t)" "sorted (bn_inorder (bt_root t))"
    using t(2,3) by (auto simp: bt_inv_def)
  have "bt_Search key t = Inr (key \<in> set keys)" for key
    using bt_searchNode_ok [OF h] t(4) by (simp add: bt_Search_def)
  moreover have "distinct keys \<longrightarrow> bn_inorder (bt_root t) = sort keys"
    using t(5) h(2) by (metis properties_for_sort)
  moreover have "and_then (NewBTree d) (each bt_Insert keys) = Inr t"
    using assms t(1) by (simp add: NewBTree_def)
  ultimately show ?thesis using h by blast
qed

lemma bt_insert_search_witness:
  "\<exists>t. and_then (NewBTree 2) (each bt_Insert [5, 1, 4, 2, 3]) = Inr t \<and> bn_inorder (bt_root t) = [1, 2, 3, 4, 5] \<and>
     bt_Search 4 t = Inr True"
  using bt_insert_search [of 2 "[5, 1, 4, 2, 3]"] by auto

text \<open>A key of an inner node is inserted a second time.\<close>

lemma bt_duplicate_inner_key:
  "\<exists>t. and_then (NewBTree 2) (each bt_Insert [1, 2, 3, 4, 2]) = Inr t \<and> bn_inorder (bt_root t) = [1, 2, 2, 3, 4]"
  by (simp add: NewBTree_def bt_Insert_def Let_def bt_splitChild_def bt_insertNonFull.simps)

end
