(* ===== verification/Lsm_Tree.thy ===== *)
theory Lsm_Tree
  imports Kv_Interface
begin

text \<open>
  \<open>22-LSM-Tree/main.go\<close>. The iteration orders of \<open>Flush\<close> and \<open>Compact\<close> are given by a function
  \<open>order\<close> from a map to its keys. The sequence numbers are \<open>int64\<close> and modelled by \<open>int\<close> (one per
  write, far from the bound).
\<close>

record lsm_value =
  lv_Value :: string
  lv_Deleted :: bool
  lv_Sequence :: int

type_synonym segment = "(string, lsm_value) gomap"

record lsm_tree =
  ls_memtable :: segment
  ls_sstables :: "segment list"
  ls_sequence :: int
  ls_flushThreshold :: int

type_synonym seg_order = "segment \<Rightarrow> string list"

definition NewLSMTree :: "int \<Rightarrow> lsm_tree" where
  "NewLSMTree flushThreshold =
     \<lparr>ls_memtable = fmempty, ls_sstables = [], ls_sequence = 0,
      ls_flushThreshold = (if flushThreshold \<le> 0 then 4 else flushThreshold)\<rparr>"

definition ls_copy :: "string list \<Rightarrow> segment \<Rightarrow> segment" where
  "ls_copy keys m = fold (\<lambda>key t. case fmlookup m key of None \<Rightarrow> t | Some v \<Rightarrow> fmupd key v t) keys fmempty"

definition ls_Flush :: "seg_order \<Rightarrow> lsm_tree \<Rightarrow> lsm_tree" where
  "ls_Flush order t =
     (if gm_len (ls_memtable t) = 0 then t
      else let table = ls_copy (order (ls_memtable t)) (ls_memtable t)
           in t\<lparr>ls_sstables := ls_sstables t @ [table], ls_memtable := fmempty\<rparr>)"

definition ls_write :: "seg_order \<Rightarrow> string \<Rightarrow> lsm_value \<Rightarrow> lsm_tree \<Rightarrow> lsm_tree" where
  "ls_write order key v t = (let t1 = t\<lparr>ls_memtable := fmupd key v (ls_memtable t)\<rparr> in
     if ls_flushThreshold t1 \<le> int (gm_len (ls_memtable t1)) then ls_Flush order t1 else t1)"

definition ls_Put :: "seg_order \<Rightarrow> string \<Rightarrow> string \<Rightarrow> lsm_tree \<Rightarrow> lsm_tree" where
  "ls_Put order key v t = (let t1 = t\<lparr>ls_sequence := ls_sequence t + 1\<rparr> in
     ls_write order key \<lparr>lv_Value = v, lv_Deleted = False, lv_Sequence = ls_sequence t1\<rparr> t1)"

definition ls_Delete :: "seg_order \<Rightarrow> string \<Rightarrow> lsm_tree \<Rightarrow> lsm_tree" where
  "ls_Delete order key t = (let t1 = t\<lparr>ls_sequence := ls_sequence t + 1\<rparr> in
     ls_write order key \<lparr>lv_Value = '''', lv_Deleted = True, lv_Sequence = ls_sequence t1\<rparr> t1)"

text \<open>The segments from the newest; the first that has the key decides.\<close>

fun ls_scan :: "string \<Rightarrow> segment list \<Rightarrow> lsm_value option" where
  "ls_scan key [] = None"
| "ls_scan key (m # ms) = (case fmlookup m key of Some e \<Rightarrow> Some e | None \<Rightarrow> ls_scan key ms)"

definition ls_Get :: "string \<Rightarrow> lsm_tree \<Rightarrow> string \<times> bool" where
  "ls_Get key t = (case fmlookup (ls_memtable t) key of
     Some e \<Rightarrow> (lv_Value e, \<not> lv_Deleted e)
   | None \<Rightarrow> (case ls_scan key (rev (ls_sstables t)) of
       Some e \<Rightarrow> (lv_Value e, \<not> lv_Deleted e) | None \<Rightarrow> ('''', False)))"

definition ls_mergeEntry :: "segment \<Rightarrow> string \<Rightarrow> segment \<Rightarrow> segment" where
  "ls_mergeEntry table key merged = (case fmlookup table key of None \<Rightarrow> merged | Some e \<Rightarrow>
     (case fmlookup merged key of
        None \<Rightarrow> fmupd key e merged
      | Some current \<Rightarrow> if lv_Sequence current < lv_Sequence e then fmupd key e merged else merged))"

definition ls_dropTombstone :: "string \<Rightarrow> segment \<Rightarrow> segment" where
  "ls_dropTombstone key m = (case fmlookup m key of
     None \<Rightarrow> m | Some e \<Rightarrow> if lv_Deleted e then fmdrop key m else m)"

definition ls_Compact :: "seg_order \<Rightarrow> lsm_tree \<Rightarrow> lsm_tree" where
  "ls_Compact order t =
     (let merged = fold (\<lambda>table m. fold (ls_mergeEntry table) (order table) m) (ls_sstables t) fmempty
      in t\<lparr>ls_sstables := [fold ls_dropTombstone (order merged) merged]\<rparr>)"

subsection \<open>Loops over maps\<close>

lemma ls_copy_ok:
  assumes "enumerates keys m"
  shows "ls_copy keys m = m"
proof (rule fmap_ext)
  fix k
  have "fmlookup (ls_copy keys m) k = (if k \<in> set keys then fmlookup m k else fmlookup fmempty k)"
    unfolding ls_copy_def
    by (subst fold_pointwise [where g = "\<lambda>k r. case fmlookup m k of None \<Rightarrow> r | Some v \<Rightarrow> Some v"])
      (use assms enumerates_iff [OF assms, of k] in \<open>auto simp: enumerates_def split: option.split\<close>)
  then show "fmlookup (ls_copy keys m) k = fmlookup m k"
    using enumerates_None [OF assms, of k] by simp
qed

definition ls_newer :: "lsm_value option \<Rightarrow> lsm_value option \<Rightarrow> lsm_value option" where
  "ls_newer new old = (case new of None \<Rightarrow> old | Some e \<Rightarrow>
     (case old of None \<Rightarrow> Some e | Some c \<Rightarrow> if lv_Sequence c < lv_Sequence e then Some e else Some c))"

lemma ls_merge_table:
  assumes "enumerates keys table"
  shows "fmlookup (fold (ls_mergeEntry table) keys m) k = ls_newer (fmlookup table k) (fmlookup m k)"
proof -
  have "fmlookup (fold (ls_mergeEntry table) keys m) k =
    (if k \<in> set keys then ls_newer (fmlookup table k) (fmlookup m k) else fmlookup m k)"
    by (rule fold_pointwise)
      (use assms in \<open>auto simp: ls_mergeEntry_def ls_newer_def enumerates_def split: option.split\<close>)
  then show ?thesis using enumerates_None [OF assms, of k] by (auto simp: ls_newer_def)
qed

lemma ls_drop_tombstones:
  assumes "enumerates keys m"
  shows "fmlookup (fold ls_dropTombstone keys m) k =
    (case fmlookup m k of None \<Rightarrow> None | Some e \<Rightarrow> if lv_Deleted e then None else Some e)"
proof -
  have "fmlookup (fold ls_dropTombstone keys m) k = (if k \<in> set keys
      then (case fmlookup m k of None \<Rightarrow> None | Some e \<Rightarrow> if lv_Deleted e then None else Some e)
      else fmlookup m k)"
    by (rule fold_pointwise)
      (use assms in \<open>auto simp: ls_dropTombstone_def enumerates_def split: option.split\<close>)
  then show ?thesis using enumerates_None [OF assms, of k] by auto
qed

subsection \<open>Invariant and abstraction\<close>

text \<open>An older segment's entry of a key has a smaller sequence number than a newer segment's.\<close>

fun ls_ordered :: "segment list \<Rightarrow> bool" where
  "ls_ordered [] \<longleftrightarrow> True"
| "ls_ordered (m # ms) \<longleftrightarrow> ls_ordered ms \<and>
     (\<forall>k e e'. fmlookup m k = Some e \<longrightarrow> ls_scan k ms = Some e' \<longrightarrow> lv_Sequence e' < lv_Sequence e)"

definition ls_segments :: "lsm_tree \<Rightarrow> segment list" where
  "ls_segments t = ls_memtable t # rev (ls_sstables t)"

definition ls_inv :: "lsm_tree \<Rightarrow> bool" where
  "ls_inv t \<longleftrightarrow> ls_ordered (ls_segments t) \<and>
     (\<forall>k e. ls_scan k (ls_segments t) = Some e \<longrightarrow> lv_Sequence e \<le> ls_sequence t)"

definition ls_visible :: "lsm_value option \<Rightarrow> string option" where
  "ls_visible r = (case r of None \<Rightarrow> None | Some e \<Rightarrow> if lv_Deleted e then None else Some (lv_Value e))"

definition ls_abs :: "lsm_tree \<Rightarrow> string \<Rightarrow> string option" where
  "ls_abs t k = ls_visible (ls_scan k (ls_segments t))"

lemma ls_Flush_scan:
  assumes "\<And>m. enumerates (order m) m"
  shows "ls_scan k (ls_segments (ls_Flush order t)) = ls_scan k (ls_segments t)"
    "ls_sequence (ls_Flush order t) = ls_sequence t"
    "ls_ordered (ls_segments t) \<Longrightarrow> ls_ordered (ls_segments (ls_Flush order t))"
  using ls_copy_ok [OF assms] by (auto simp: ls_Flush_def ls_segments_def)

lemma ls_write_ok:
  fixes key :: string
  assumes "\<And>m. enumerates (order m) m" "ls_inv t" "lv_Sequence v = ls_sequence t + 1"
  defines "t' \<equiv> ls_write order key v (t\<lparr>ls_sequence := ls_sequence t + 1\<rparr>)"
  shows "ls_inv t'" "ls_abs t' = (ls_abs t)(key := ls_visible (Some v))"
proof -
  let ?t1 = "t\<lparr>ls_sequence := ls_sequence t + 1, ls_memtable := fmupd key v (ls_memtable t)\<rparr>"
  have ord: "ls_ordered (rev (ls_sstables t))"
    "\<And>k e e'. fmlookup (ls_memtable t) k = Some e \<Longrightarrow> ls_scan k (rev (ls_sstables t)) = Some e' \<Longrightarrow> lv_Sequence e' < lv_Sequence e"
    using assms(2) by (auto simp: ls_inv_def ls_segments_def)
  have le: "ls_scan k (ls_segments t) = Some e \<Longrightarrow> lv_Sequence e \<le> ls_sequence t" for k e
    using assms(2) by (simp add: ls_inv_def)
  have old: "lv_Sequence e \<le> ls_sequence t" if "ls_scan k (rev (ls_sstables t)) = Some e" for k e
  proof (cases "fmlookup (ls_memtable t) k")
    case None
    then show ?thesis using le [of k e] that by (simp add: ls_segments_def)
  next
    case (Some e0)
    then have "lv_Sequence e0 \<le> ls_sequence t" using le [of k e0] by (simp add: ls_segments_def)
    then show ?thesis using ord(2) [OF Some that] by simp
  qed
  have scan: "ls_scan k (ls_segments ?t1) = (if k = key then Some v else ls_scan k (ls_segments t))" for k
    by (simp add: ls_segments_def)
  have "ls_ordered (ls_segments ?t1)"
    using ord old assms(3) by (fastforce simp: ls_segments_def split: if_splits)
  moreover have "lv_Sequence e \<le> ls_sequence ?t1" if "ls_scan k (ls_segments ?t1) = Some e" for k e
    using that le [of k e] assms(3) unfolding scan by (auto split: if_splits)
  ultimately have inv: "ls_inv ?t1" by (simp add: ls_inv_def)
  have t': "t' = (if ls_flushThreshold ?t1 \<le> int (gm_len (ls_memtable ?t1)) then ls_Flush order ?t1 else ?t1)"
    by (simp add: t'_def ls_write_def Let_def)
  show "ls_inv t'"
    using inv ls_Flush_scan [of order, OF assms(1)] by (simp add: t' ls_inv_def)
  have "ls_scan k (ls_segments t') = ls_scan k (ls_segments ?t1)" for k
    using ls_Flush_scan(1) [of order, OF assms(1)] by (simp add: t')
  then show "ls_abs t' = (ls_abs t)(key := ls_visible (Some v))"
    unfolding fun_eq_iff ls_abs_def scan by simp
qed

lemma ls_merge_all:
  assumes "\<And>m. enumerates (order m) m" "ls_ordered (rev tables)"
  shows "fmlookup (fold (\<lambda>table m. fold (ls_mergeEntry table) (order table) m) tables fmempty) k = ls_scan k (rev tables)"
  using assms(2)
proof (induction tables rule: rev_induct)
  case (snoc table tables)
  have IH: "fmlookup (fold (\<lambda>table m. fold (ls_mergeEntry table) (order table) m) tables fmempty) k = ls_scan k (rev tables)"
    using snoc by simp
  have "e' \<noteq> None \<Longrightarrow> ls_scan k (rev tables) \<noteq> None \<Longrightarrow> e' = fmlookup table k \<Longrightarrow>
      lv_Sequence (the (ls_scan k (rev tables))) < lv_Sequence (the e')" for e'
    using snoc.prems by auto
  then show ?case
    using ls_merge_table [OF assms(1)] IH
    by (auto simp: ls_newer_def split: option.splits)
qed simp

lemma ls_Compact_ok:
  assumes "\<And>m. enumerates (order m) m" "ls_inv t"
  shows "ls_inv (ls_Compact order t)" "ls_abs (ls_Compact order t) = ls_abs t"
proof -
  let ?t = "ls_Compact order t" and ?old = "rev (ls_sstables t)"
  let ?merged = "fold (\<lambda>table m. fold (ls_mergeEntry table) (order table) m) (ls_sstables t) fmempty"
  have ord: "ls_ordered ?old"
    "\<And>k e e'. fmlookup (ls_memtable t) k = Some e \<Longrightarrow> ls_scan k ?old = Some e' \<Longrightarrow> lv_Sequence e' < lv_Sequence e"
    using assms(2) by (auto simp: ls_inv_def ls_segments_def)
  have "fmlookup (fold ls_dropTombstone (order ?merged) ?merged) k =
    (case ls_scan k ?old of None \<Rightarrow> None | Some e \<Rightarrow> if lv_Deleted e then None else Some e)" for k
    using ls_drop_tombstones [OF assms(1)] ls_merge_all [of order, OF assms(1) ord(1)] by simp
  then obtain d where t: "ls_segments ?t = [ls_memtable t, d]" "ls_sequence ?t = ls_sequence t"
    and d: "\<And>k. fmlookup d k = (case ls_scan k ?old of None \<Rightarrow> None | Some e \<Rightarrow> if lv_Deleted e then None else Some e)"
    by (simp add: ls_Compact_def ls_segments_def Let_def)
  have scan: "ls_scan k (ls_segments ?t) = Some e \<Longrightarrow> ls_scan k (ls_segments t) = Some e" for k e
    using d [of k] unfolding t by (auto simp: ls_segments_def split: option.splits if_splits)
  have "ls_ordered (ls_segments ?t)"
    unfolding t using ord(2) d by (fastforce split: option.splits if_splits)
  then show "ls_inv ?t" using scan assms(2) t(2) by (auto simp: ls_inv_def)
  have "ls_abs ?t k = ls_abs t k" for k
    unfolding ls_abs_def t(1) using d [of k]
    by (auto simp: ls_visible_def ls_segments_def split: option.split)
  then show "ls_abs ?t = ls_abs t" by blast
qed

lemma ls_Put_ok:
  assumes "\<And>m. enumerates (order m) m" "ls_inv t"
  shows "ls_inv (ls_Put order key v t)" "ls_abs (ls_Put order key v t) = (ls_abs t)(key \<mapsto> v)"
  using ls_write_ok [of order t "\<lparr>lv_Value = v, lv_Deleted = False, lv_Sequence = ls_sequence t + 1\<rparr>" key, OF assms]
  by (simp_all add: ls_Put_def Let_def ls_visible_def)

lemma ls_Delete_ok:
  assumes "\<And>m. enumerates (order m) m" "ls_inv t"
  shows "ls_inv (ls_Delete order key t)" "ls_abs (ls_Delete order key t) = (ls_abs t)(key := None)"
  using ls_write_ok [of order t "\<lparr>lv_Value = '''', lv_Deleted = True, lv_Sequence = ls_sequence t + 1\<rparr>" key, OF assms]
  by (simp_all add: ls_Delete_def Let_def ls_visible_def)

definition ls_read :: "string \<Rightarrow> lsm_tree \<Rightarrow> string option" where
  "ls_read k t = (case ls_Get k t of (v, ok) \<Rightarrow> if ok then Some v else None)"

lemma ls_read_abs: "ls_read k t = ls_abs t k"
  by (auto simp: ls_read_def ls_Get_def ls_abs_def ls_visible_def ls_segments_def split: option.split)

lemma ls_New_ok: "ls_inv (NewLSMTree n)" "ls_abs (NewLSMTree n) = Map.empty"
  by (auto simp: NewLSMTree_def ls_inv_def ls_abs_def ls_segments_def ls_visible_def)

subsection \<open>The tree is a map\<close>

text \<open>With a fixed iteration order it is a provider of the key-value contract.\<close>

interpretation lsm: kv_store_del ls_inv ls_abs "\<lambda>k v t. Inr (ls_Put key_order k v t)"
  "\<lambda>k t. Inr (ls_read k t)" "\<lambda>_. 0" 0 0 "\<lambda>k t. Inr (ls_Delete key_order k t)"
  by unfold_locales (simp_all add: ls_read_abs ls_Put_ok ls_Delete_ok enumerates_key_order)

text \<open>Client calls with maintenance in between; each step has its own iteration order.\<close>

datatype lsm_op = LsmKv "(string, string) kv_op" | LsmFlush | LsmCompact

fun lsm_run :: "(nat \<Rightarrow> seg_order) \<Rightarrow> lsm_op list \<Rightarrow> lsm_tree \<Rightarrow> string option list \<times> lsm_tree" where
  "lsm_run order [] t = ([], t)"
| "lsm_run order (oper # ops) t = (let go = lsm_run (\<lambda>i. order (Suc i)) ops in
     case oper of
       LsmKv (KvSet k v) \<Rightarrow> go (ls_Put (order 0) k v t)
     | LsmKv (KvGet k) \<Rightarrow> (case go t of (rs, t') \<Rightarrow> (ls_read k t # rs, t'))
     | LsmKv (KvDelete k) \<Rightarrow> go (ls_Delete (order 0) k t)
     | LsmFlush \<Rightarrow> go (ls_Flush (order 0) t)
     | LsmCompact \<Rightarrow> go (ls_Compact (order 0) t))"

definition lsm_client :: "lsm_op list \<Rightarrow> (string, string) kv_op list" where
  "lsm_client ops = List.map_filter (\<lambda>x. case x of LsmKv k \<Rightarrow> Some k | _ \<Rightarrow> None) ops"

lemma lsm_client_simps [simp]:
  "lsm_client [] = []" "lsm_client (LsmKv k # ops) = k # lsm_client ops"
  "lsm_client (LsmFlush # ops) = lsm_client ops" "lsm_client (LsmCompact # ops) = lsm_client ops"
  by (simp_all add: lsm_client_def map_filter_simps)

text \<open>
  C15. Whatever the flush threshold, and with flushes and compactions at any points and any map
  iteration orders, every \<open>Get\<close> returns what a plain map would: nothing is lost in a flush, and
  compaction neither revives a deleted key nor an overwritten value.
\<close>

theorem lsm_run_is_map:
  assumes "\<And>i m. enumerates (order i m) m"
  shows "fst (lsm_run order ops (NewLSMTree n)) = fst (kv_spec_run (lsm_client ops) Map.empty)"
proof -
  have "fst (lsm_run order ops t) = fst (kv_spec_run (lsm_client ops) (ls_abs t))" if "ls_inv t" for t
    using that assms
  proof (induction ops arbitrary: t order)
    case (Cons oper ops)
    have IH: "ls_inv t' \<Longrightarrow> fst (lsm_run (\<lambda>i. order (Suc i)) ops t') = fst (kv_spec_run (lsm_client ops) (ls_abs t'))" for t'
      by (rule Cons.IH) (assumption, rule Cons.prems(2))
    note ok = ls_Put_ok [of "order 0" t, OF Cons.prems(2,1)] ls_Delete_ok [of "order 0" t, OF Cons.prems(2,1)]
      ls_Compact_ok [of "order 0" t, OF Cons.prems(2,1)]
    have "ls_inv (ls_Flush (order 0) t)" "ls_abs (ls_Flush (order 0) t) = ls_abs t"
      using ls_Flush_scan [of "order 0", OF Cons.prems(2)] Cons.prems(1)
      by (simp_all add: ls_inv_def ls_abs_def fun_eq_iff)
    note flush = this
    show ?case
    proof (cases oper)
      case (LsmKv x)
      then show ?thesis
        using ok IH Cons.prems(1)
        by (cases x) (simp_all add: Let_def ls_read_abs case_prod_beta del: fun_upd_apply)
    next
      case LsmFlush
      then show ?thesis using flush IH by (simp add: Let_def)
    next
      case LsmCompact
      then show ?thesis using ok IH by (simp add: Let_def)
    qed
  qed simp
  from this [OF ls_New_ok(1)] show ?thesis by (simp only: ls_New_ok(2))
qed

theorem lsm_run_is_map_witness:
  "fst (lsm_run (\<lambda>_. key_order) [LsmKv (KvSet ''a'' ''1''), LsmFlush, LsmKv (KvDelete ''a''), LsmCompact, LsmKv (KvGet ''a'')] (NewLSMTree 1)) = [None]"
  using lsm_run_is_map [of "\<lambda>_. key_order" "[LsmKv (KvSet ''a'' ''1''), LsmFlush, LsmKv (KvDelete ''a''), LsmCompact, LsmKv (KvGet ''a'')]" 1,
      OF enumerates_key_order] by (simp del: lsm_run.simps)

end
