(* ===== verification/Write_Ahead_Log.thy ===== *)
theory Write_Ahead_Log
  imports Go_Std Fnv_Hash
begin

text \<open>
  \<open>23-Write-Ahead-Log/main.go\<close>. The checksum is computed over the printed fields, joined with \<open>|\<close>.
  \<open>Recover\<close> returns the state or the LSN of the first entry whose checksum does not match.
\<close>

record wal_entry =
  we_LSN :: int
  we_Op :: string
  we_Key :: string
  we_Value :: string
  we_Checksum :: u32

record wal =
  wal_entries :: "wal_entry list"
  wal_nextLSN :: int

definition NewWriteAheadLog :: wal where
  "NewWriteAheadLog = \<lparr>wal_entries = [], wal_nextLSN = 1\<rparr>"

definition wal_checksum :: "string \<Rightarrow> u32" where
  "wal_checksum s = fnv1a_from 2166136261 s"

definition wal_base :: "int \<Rightarrow> string \<Rightarrow> string \<Rightarrow> string \<Rightarrow> string" where
  "wal_base lsn oper key v = decimal_int lsn @ ''|'' @ oper @ ''|'' @ key @ ''|'' @ v"

definition wal_Append :: "string \<Rightarrow> string \<Rightarrow> string \<Rightarrow> wal \<Rightarrow> wal_entry \<times> wal" where
  "wal_Append oper key v w =
     (let base = wal_base (wal_nextLSN w) oper key v;
          entry = \<lparr>we_LSN = wal_nextLSN w, we_Op = oper, we_Key = key, we_Value = v, we_Checksum = wal_checksum base\<rparr>
      in (entry, \<lparr>wal_entries = wal_entries w @ [entry], wal_nextLSN = wal_nextLSN w + 1\<rparr>))"

datatype wal_error = CorruptEntry int

definition wal_apply :: "string \<Rightarrow> string \<Rightarrow> string \<Rightarrow> (string, string) gomap \<Rightarrow> (string, string) gomap" where
  "wal_apply oper key v state = (if oper = ''put'' then fmupd key v state else fmdrop key state)"

fun wal_replay :: "wal_entry list \<Rightarrow> (string, string) gomap \<Rightarrow> wal_error + (string, string) gomap" where
  "wal_replay [] state = Inr state"
| "wal_replay (e # es) state =
     (if wal_checksum (wal_base (we_LSN e) (we_Op e) (we_Key e) (we_Value e)) \<noteq> we_Checksum e
      then Inl (CorruptEntry (we_LSN e))
      else wal_replay es (wal_apply (we_Op e) (we_Key e) (we_Value e) state))"

definition wal_Recover :: "wal \<Rightarrow> wal_error + (string, string) gomap" where
  "wal_Recover w = wal_replay (wal_entries w) fmempty"

subsection \<open>Recovery of what was appended\<close>

type_synonym wal_cmd = "string \<times> string \<times> string"

definition wal_log :: "wal_cmd list \<Rightarrow> wal \<Rightarrow> wal" where
  "wal_log cmds w = fold (\<lambda>(oper, key, v) w. snd (wal_Append oper key v w)) cmds w"

definition wal_intact :: "wal_entry \<Rightarrow> bool" where
  "wal_intact e \<longleftrightarrow> we_Checksum e = wal_checksum (wal_base (we_LSN e) (we_Op e) (we_Key e) (we_Value e))"

lemma wal_replay_intact:
  "\<forall>e \<in> set es. wal_intact e \<Longrightarrow>
     wal_replay es m = Inr (fold (\<lambda>e. wal_apply (we_Op e) (we_Key e) (we_Value e)) es m)"
  by (induction es arbitrary: m) (simp_all add: wal_intact_def)

lemma wal_replay_corrupt:
  "\<forall>e \<in> set us. wal_intact e \<Longrightarrow> \<not> wal_intact e \<Longrightarrow>
     wal_replay (us @ e # vs) m = Inl (CorruptEntry (we_LSN e))"
  by (induction us arbitrary: m) (auto simp: wal_intact_def)

text \<open>The entries of a log: one per command, intact, numbered from 1.\<close>

definition wal_entry_of :: "int \<Rightarrow> wal_cmd \<Rightarrow> wal_entry" where
  "wal_entry_of lsn = (\<lambda>(oper, key, v). \<lparr>we_LSN = lsn, we_Op = oper, we_Key = key, we_Value = v,
     we_Checksum = wal_checksum (wal_base lsn oper key v)\<rparr>)"

lemma wal_log_entries:
  "wal_entries (wal_log cmds w) =
     wal_entries w @ map (\<lambda>i. wal_entry_of (wal_nextLSN w + int i) (cmds ! i)) [0..<length cmds]"
proof (induction cmds arbitrary: w)
  case (Cons c cmds)
  obtain oper key v where c: "c = (oper, key, v)" by (cases c)
  let ?w = "snd (wal_Append oper key v w)"
  have w: "wal_entries ?w = wal_entries w @ [wal_entry_of (wal_nextLSN w) c]" "wal_nextLSN ?w = wal_nextLSN w + 1"
    by (simp_all add: wal_Append_def wal_entry_of_def c Let_def)
  have "[0..<length (c # cmds)] = 0 # map Suc [0..<length cmds]"
    by (simp add: upt_conv_Cons map_Suc_upt del: upt_Suc)
  moreover have "wal_log (c # cmds) w = wal_log cmds ?w" by (simp add: wal_log_def c)
  ultimately show ?case using Cons.IH [of ?w] w by (simp add: algebra_simps)
qed (simp add: wal_log_def)

lemma wal_entry_of_intact [simp]: "wal_intact (wal_entry_of lsn c)"
  by (simp add: wal_intact_def wal_entry_of_def split: prod.split)

lemma wal_entry_of_fields [simp]:
  "we_LSN (wal_entry_of lsn c) = lsn" "we_Op (wal_entry_of lsn c) = fst c"
  "we_Key (wal_entry_of lsn c) = fst (snd c)" "we_Value (wal_entry_of lsn c) = snd (snd c)"
  by (simp_all add: wal_entry_of_def split: prod.split)

lemma wal_recovered:
  "wal_Recover \<lparr>wal_entries = take k (wal_entries (wal_log cmds NewWriteAheadLog)), wal_nextLSN = lsn\<rparr> =
     Inr (fold (\<lambda>(oper, key, v). wal_apply oper key v) (take k cmds) fmempty)"
proof -
  let ?es = "take k (wal_entries (wal_log cmds NewWriteAheadLog))"
  have "take k cmds = map (\<lambda>i. cmds ! i) (take k [0..<length cmds])"
    by (simp only: take_map [symmetric] map_nth)
  then have "fold (\<lambda>e. wal_apply (we_Op e) (we_Key e) (we_Value e)) ?es fmempty =
      fold (\<lambda>c. wal_apply (fst c) (fst (snd c)) (snd (snd c))) (take k cmds) fmempty"
    by (simp add: wal_log_entries NewWriteAheadLog_def take_map fold_map comp_def)
  moreover have "\<forall>e \<in> set ?es. wal_intact e" by (auto simp: wal_log_entries NewWriteAheadLog_def take_map)
  moreover have "(\<lambda>c :: wal_cmd. wal_apply (fst c) (fst (snd c)) (snd (snd c))) = (\<lambda>(oper, key, v). wal_apply oper key v)"
    by (simp add: fun_eq_iff)
  ultimately show ?thesis by (simp add: wal_replay_intact wal_Recover_def)
qed

text \<open>The last operation on the key \<open>k\<close> is a put of \<open>v\<close>.\<close>

definition last_put :: "wal_cmd list \<Rightarrow> string \<Rightarrow> string \<Rightarrow> bool" where
  "last_put cmds k v \<longleftrightarrow> (\<exists>us vs. cmds = us @ (''put'', k, v) # vs \<and> (\<forall>(oper, k', v') \<in> set vs. k' \<noteq> k))"

lemma last_put_snoc:
  "last_put (cmds @ [(oper, key, v')]) k v \<longleftrightarrow> (if key = k then oper = ''put'' \<and> v' = v else last_put cmds k v)"
proof
  assume "last_put (cmds @ [(oper, key, v')]) k v"
  then obtain us vs where uv: "cmds @ [(oper, key, v')] = us @ (''put'', k, v) # vs" "\<forall>(oper, k', v') \<in> set vs. k' \<noteq> k"
    by (auto simp: last_put_def)
  then show "if key = k then oper = ''put'' \<and> v' = v else last_put cmds k v"
    by (cases vs rule: rev_cases) (auto simp: last_put_def)
next
  assume r: "if key = k then oper = ''put'' \<and> v' = v else last_put cmds k v"
  show "last_put (cmds @ [(oper, key, v')]) k v"
  proof (cases "key = k")
    case True
    then show ?thesis using r unfolding last_put_def by (intro exI [of _ cmds] exI [of _ "[]"]) simp
  next
    case False
    then obtain us vs where "cmds = us @ (''put'', k, v) # vs" "\<forall>(oper, k', v') \<in> set vs. k' \<noteq> k"
      using r by (auto simp: last_put_def)
    then show ?thesis using False unfolding last_put_def
      by (intro exI [of _ us] exI [of _ "vs @ [(oper, key, v')]"]) auto
  qed
qed

lemma wal_apply_all:
  "fmlookup (fold (\<lambda>(oper, key, v). wal_apply oper key v) cmds fmempty) k = Some v \<longleftrightarrow> last_put cmds k v"
proof (induction cmds rule: rev_induct)
  case (snoc c cmds)
  then show ?case by (cases c) (auto simp: last_put_snoc wal_apply_def)
qed (simp add: last_put_def)

text \<open>
  C16. Recovery of a log never reports an error, and the state it returns has the value \<open>v\<close> for the key \<open>k\<close> exactly if
  the last of the appended operations on \<open>k\<close> is a put of \<open>v\<close>: a key whose last operation is a delete, or any other operation, and
  one that was never put, are not in it. After a crash that keeps only the first \<open>n\<close> entries, this holds of the first \<open>n\<close> operations.
\<close>

theorem wal_recovers:
  "(\<exists>m. wal_Recover (wal_log cmds NewWriteAheadLog) = Inr m \<and> (\<forall>k v. fmlookup m k = Some v \<longleftrightarrow> last_put cmds k v)) \<and>
   (\<exists>m. wal_Recover \<lparr>wal_entries = take n (wal_entries (wal_log cmds NewWriteAheadLog)), wal_nextLSN = lsn\<rparr> = Inr m \<and>
      (\<forall>k v. fmlookup m k = Some v \<longleftrightarrow> last_put (take n cmds) k v))"
proof -
  have "wal_log cmds NewWriteAheadLog =
      \<lparr>wal_entries = take (length cmds) (wal_entries (wal_log cmds NewWriteAheadLog)), wal_nextLSN = wal_nextLSN (wal_log cmds NewWriteAheadLog)\<rparr>"
    by (simp add: wal_log_entries NewWriteAheadLog_def)
  then have "wal_Recover (wal_log cmds NewWriteAheadLog) = Inr (fold (\<lambda>(oper, key, v). wal_apply oper key v) (take (length cmds) cmds) fmempty)"
    using wal_recovered by metis
  then show ?thesis by (auto simp: wal_recovered wal_apply_all)
qed

text \<open>Two strings of the same length that differ at one position.\<close>

definition one_byte :: "string \<Rightarrow> string \<Rightarrow> bool" where
  "one_byte s t \<longleftrightarrow> (\<exists>pre c d post. s = pre @ c # post \<and> t = pre @ d # post \<and> c \<noteq> d)"

lemma one_byte_within: "one_byte s t \<Longrightarrow> one_byte (u @ s @ v) (u @ t @ v)" and one_byte_end: "one_byte s t \<Longrightarrow> one_byte (u @ s) (u @ t)"
  unfolding one_byte_def by (metis append.assoc append_Cons)+

lemma wal_checksum_one_byte: "one_byte s t \<Longrightarrow> wal_checksum s \<noteq> wal_checksum t"
  unfolding one_byte_def wal_checksum_def using fnv1a_from_one_byte by metis



text \<open>The checksum does not see where one field ends and the next begins.\<close>

lemma wal_base_ambiguous: "wal_base n oper (k @ ''|'' @ k') v = wal_base n oper k (k' @ ''|'' @ v)"
  by (simp add: wal_base_def)

end
