(* ===== verification/Inverted_Index.thy ===== *)
theory Inverted_Index
  imports Go_Prelude
begin

text \<open>
  \<open>src/24-Inverted-Index/main.go\<close>: a full-text index. \<open>tokenize\<close> lower-cases the text and takes the
  maximal runs of letters and digits; text is ASCII here (on it \<open>strings.ToLower\<close> is the bytewise
  map below). The nil result of \<open>SearchAll\<close> is \<open>None\<close>.

  The theorem says exactly which documents a query returns: those in whose texts, over all calls
  of \<open>AddDocument\<close> with that id, every term occurred. A document that is indexed again therefore
  keeps matching its old terms.
\<close>

subsection \<open>Tokens\<close>

definition to_lower :: "char \<Rightarrow> char" where
  "to_lower c = (let n = of_char c :: nat in if 65 \<le> n \<and> n \<le> 90 then char_of (n + 32) else c)"

definition token_char :: "char \<Rightarrow> bool" where
  "token_char c \<longleftrightarrow> (let n = of_char c :: nat in (97 \<le> n \<and> n \<le> 122) \<or> (48 \<le> n \<and> n \<le> 57))"

text \<open>\<open>FindAllString\<close> of the pattern \<open>[a-z0-9]+\<close>: leftmost, longest, non-overlapping matches.\<close>

function find_tokens :: "string \<Rightarrow> string list" where
  "find_tokens [] = []"
| "find_tokens (c # cs) =
     (if token_char c then (c # takeWhile token_char cs) # find_tokens (dropWhile token_char cs)
      else find_tokens cs)"
  by pat_completeness auto
termination
  by (relation "measure length") (auto simp: le_imp_less_Suc length_dropWhile_le)

definition tokenize :: "string \<Rightarrow> string list" where
  "tokenize body = find_tokens (map to_lower body)"

lemma find_tokens_chars: "t \<in> set (find_tokens cs) \<Longrightarrow> t \<noteq> [] \<and> (\<forall>c \<in> set t. token_char c)"
proof (induction cs rule: find_tokens.induct)
  case (2 c cs)
  show ?case
  proof (cases "token_char c")
    case True
    then have "t = c # takeWhile token_char cs \<or> t \<in> set (find_tokens (dropWhile token_char cs))"
      using "2.prems" by simp
    then show ?thesis
    proof
      assume "t = c # takeWhile token_char cs"
      then show ?thesis using True by (metis list.distinct(1) set_ConsD set_takeWhileD)
    qed (rule "2.IH"(1) [OF True])
  next
    case False
    then have "t \<in> set (find_tokens cs)" using "2.prems" by simp
    then show ?thesis by (rule "2.IH"(2) [OF False])
  qed
qed simp

lemma find_tokens_concat: "concat (find_tokens cs) = filter token_char cs"
proof (induction cs rule: find_tokens.induct)
  case (2 c cs)
  have "filter token_char cs = filter token_char (takeWhile token_char cs) @ filter token_char (dropWhile token_char cs)"
    by (metis filter_append takeWhile_dropWhile_id)
  moreover have "filter token_char (takeWhile token_char cs) = takeWhile token_char cs"
    by (auto intro: filter_True dest: set_takeWhileD)
  ultimately show ?case using 2 by (cases "token_char c") simp_all
qed simp

subsection \<open>The index\<close>

record inverted_index =
  ix_postings :: "(string, (string, nat) gomap) gomap"

definition NewInvertedIndex :: inverted_index where
  "NewInvertedIndex = \<lparr>ix_postings = fmempty\<rparr>"

text \<open>\<open>counts[term]++\<close> over the tokens.\<close>

definition ix_counts :: "string list \<Rightarrow> (string, nat) gomap" where
  "ix_counts ts = fold (\<lambda>t m. fmupd t (gm_get 0 m t + 1) m) ts fmempty"

text \<open>The body of the loop over \<open>counts\<close>.\<close>

definition ix_record :: "string \<Rightarrow> (string, nat) gomap \<Rightarrow> string \<Rightarrow>
    (string, (string, nat) gomap) gomap \<Rightarrow> (string, (string, nat) gomap) gomap" where
  "ix_record docid counts t ps =
     (let ps = (if fmlookup ps t = None then fmupd t fmempty ps else ps) in
      fmupd t (fmupd docid (gm_get 0 counts t) (gm_get fmempty ps t)) ps)"

definition ix_AddDocument :: "(nat \<Rightarrow> string fset \<Rightarrow> string list) \<Rightarrow> string \<Rightarrow> string \<Rightarrow>
    inverted_index \<Rightarrow> inverted_index" where
  "ix_AddDocument ord docid body idx =
     (let counts = ix_counts (tokenize body) in
      idx\<lparr>ix_postings := fold (ix_record docid counts) (ord 0 (fmdom counts)) (ix_postings idx)\<rparr>)"

text \<open>One filtering loop \<open>for id := range result\<close>.\<close>

definition ix_keep :: "(string, nat) gomap \<Rightarrow> string list \<Rightarrow> (string, bool) gomap \<Rightarrow> (string, bool) gomap" where
  "ix_keep ps ids res = fold (\<lambda>i r. if fmlookup ps i = None then fmdrop i r else r) ids res"

text \<open>The loop over \<open>terms[1:]\<close>; \<open>None\<close> is the early \<open>return nil\<close>.\<close>

fun ix_filter :: "(nat \<Rightarrow> string fset \<Rightarrow> string list) \<Rightarrow> nat \<Rightarrow> inverted_index \<Rightarrow> string list \<Rightarrow>
    (string, bool) gomap \<Rightarrow> (string, bool) gomap option" where
  "ix_filter ord n idx [] res = Some res"
| "ix_filter ord n idx (t # ts) res =
     (case fmlookup (ix_postings idx) t of
        None \<Rightarrow> None
      | Some ps \<Rightarrow> ix_filter ord (n + 1) idx ts (ix_keep ps (ord n (fmdom res)) res))"

definition ix_SearchAll :: "(nat \<Rightarrow> string fset \<Rightarrow> string list) \<Rightarrow> string \<Rightarrow> inverted_index \<Rightarrow> string list option" where
  "ix_SearchAll ord query idx =
     (case tokenize query of
        [] \<Rightarrow> None
      | t # ts \<Rightarrow>
          (case fmlookup (ix_postings idx) t of
             None \<Rightarrow> None
           | Some ps \<Rightarrow>
               (let res = fold (\<lambda>i r. fmupd i True r) (ord 0 (fmdom ps)) fmempty in
                case ix_filter ord 2 idx ts res of
                  None \<Rightarrow> None
                | Some res \<Rightarrow> Some (sort (ord 1 (fmdom res))))))"

subsection \<open>What a posting records\<close>

definition ix_count :: "inverted_index \<Rightarrow> string \<Rightarrow> string \<Rightarrow> nat option" where
  "ix_count idx t docid = (case fmlookup (ix_postings idx) t of None \<Rightarrow> None | Some ps \<Rightarrow> fmlookup ps docid)"

lemma ix_counts_lookup:
  "fmlookup (ix_counts ts) t = (if t \<in> set ts then Some (count_list ts t) else None)"
proof -
  have "fmlookup (fold (\<lambda>t m. fmupd t (gm_get 0 m t + 1) m) ts m) t
      = (if t \<in> set ts then Some (gm_get 0 m t + count_list ts t) else fmlookup m t)" for m
    by (induction ts arbitrary: m) (auto simp: count_list_0_iff)
  then show ?thesis by (simp add: ix_counts_def)
qed

lemma ix_record_lookup:
  "fmlookup (ix_record i cs t ps) u =
     (if u = t then Some (fmupd i (gm_get 0 cs t) (gm_get fmempty ps t)) else fmlookup ps u)"
  by (auto simp: ix_record_def Let_def gm_get_def split: option.splits)

lemma ix_AddDocument_lookup:
  assumes "range_orders ord"
  shows "fmlookup (ix_postings (ix_AddDocument ord i body idx)) t =
     (if t \<in> set (tokenize body)
      then Some (fmupd i (count_list (tokenize body) t) (gm_get fmempty (ix_postings idx) t))
      else fmlookup (ix_postings idx) t)"
proof -
  let ?cs = "ix_counts (tokenize body)" let ?ks = "ord 0 (fmdom ?cs)"
  have "fmlookup (fold (ix_record i ?cs) ?ks (ix_postings idx)) t =
     (if t \<in> set ?ks
      then (\<lambda>t v. Some (fmupd i (gm_get 0 ?cs t) (case v of None \<Rightarrow> fmempty | Some v \<Rightarrow> v))) t
        (fmlookup (ix_postings idx) t)
      else fmlookup (ix_postings idx) t)"
    by (rule fold_pointwise)
      (simp_all add: ix_record_lookup gm_get_def range_orders_distinct [OF assms])
  moreover have "t \<in> set ?ks \<longleftrightarrow> t \<in> set (tokenize body)"
    by (simp add: range_orders_set [OF assms] fmlookup_dom_iff ix_counts_lookup)
  ultimately show ?thesis
    by (simp add: ix_AddDocument_def Let_def gm_get_def ix_counts_lookup)
qed

lemma ix_AddDocument_count:
  assumes "range_orders ord"
  shows "ix_count (ix_AddDocument ord i body idx) t j =
     (if j = i \<and> t \<in> set (tokenize body) then Some (count_list (tokenize body) t) else ix_count idx t j)"
  by (auto simp: ix_count_def ix_AddDocument_lookup [OF assms] gm_get_def split: option.splits)

lemma ix_AddDocument_terms:
  assumes "range_orders ord"
  shows "fmlookup (ix_postings (ix_AddDocument ord i body idx)) t = None \<longleftrightarrow>
     t \<notin> set (tokenize body) \<and> fmlookup (ix_postings idx) t = None"
  by (simp add: ix_AddDocument_lookup [OF assms])

text \<open>Every call of \<open>AddDocument\<close>, in order.\<close>

definition ix_build :: "(nat \<Rightarrow> string fset \<Rightarrow> string list) \<Rightarrow> (string \<times> string) list \<Rightarrow> inverted_index" where
  "ix_build ord docs = fold (\<lambda>(i, body). ix_AddDocument ord i body) docs NewInvertedIndex"

definition ix_seen :: "(string \<times> string) list \<Rightarrow> string \<Rightarrow> string \<Rightarrow> bool" where
  "ix_seen docs t i \<longleftrightarrow> (\<exists>(j, body) \<in> set docs. j = i \<and> t \<in> set (tokenize body))"

lemma ix_build_count:
  assumes "range_orders ord"
  shows "(ix_count (ix_build ord docs) t i \<noteq> None \<longleftrightarrow> ix_seen docs t i) \<and>
     (fmlookup (ix_postings (ix_build ord docs)) t \<noteq> None \<longleftrightarrow> (\<exists>j. ix_seen docs t j))"
proof (induction docs rule: rev_induct)
  case Nil
  then show ?case by (simp add: ix_build_def NewInvertedIndex_def ix_count_def ix_seen_def)
next
  case (snoc d docs)
  obtain j body where d: "d = (j, body)" by (cases d)
  have "ix_build ord (docs @ [d]) = ix_AddDocument ord j body (ix_build ord docs)"
    by (simp add: ix_build_def d)
  moreover have "ix_seen (docs @ [d]) t k \<longleftrightarrow> ix_seen docs t k \<or> (k = j \<and> t \<in> set (tokenize body))" for k
    by (auto simp: ix_seen_def d)
  ultimately show ?case
    using snoc by (auto simp: ix_AddDocument_count [OF assms] ix_AddDocument_terms [OF assms])
qed

subsection \<open>Searching\<close>

lemma ix_keep_dom:
  assumes "set ids = fset (fmdom res)"
  shows "fset (fmdom (ix_keep ps ids res)) = {i \<in> fset (fmdom res). fmlookup ps i \<noteq> None}"
proof -
  have "fset (fmdom (ix_keep ps ids res)) = fset (fmdom res) - {i \<in> set ids. fmlookup ps i = None}"
    unfolding ix_keep_def by (induction ids arbitrary: res) auto
  then show ?thesis using assms by auto
qed

lemma ix_filter_dom:
  assumes "range_orders ord"
  shows "case ix_filter ord n idx ts res of
       None \<Rightarrow> \<exists>t \<in> set ts. fmlookup (ix_postings idx) t = None
     | Some r \<Rightarrow> (\<forall>t \<in> set ts. fmlookup (ix_postings idx) t \<noteq> None) \<and>
         fset (fmdom r) = {i \<in> fset (fmdom res). \<forall>t \<in> set ts. ix_count idx t i \<noteq> None}"
proof (induction ts arbitrary: res n)
  case (Cons t ts)
  show ?case
  proof (cases "fmlookup (ix_postings idx) t")
    case (Some ps)
    let ?r = "ix_keep ps (ord n (fmdom res)) res"
    have "fset (fmdom ?r) = {i \<in> fset (fmdom res). ix_count idx t i \<noteq> None}"
      by (simp add: ix_keep_dom range_orders_set [OF assms] ix_count_def Some)
    then show ?thesis using Cons [where n = "n + 1" and res = ?r] Some
      by (auto simp: split: option.splits)
  qed simp
qed simp

lemma ix_fill_dom: "fset (fmdom (fold (\<lambda>i r. fmupd i True r) ids m)) = set ids \<union> fset (fmdom m)"
  by (induction ids arbitrary: m) auto

lemma ix_SearchAll_spec:
  assumes ord: "range_orders ord"
  shows "ix_SearchAll ord q idx =
     (if tokenize q = [] \<or> (\<exists>t \<in> set (tokenize q). fmlookup (ix_postings idx) t = None) then None
      else Some (sorted_list_of_set {i. \<forall>t \<in> set (tokenize q). ix_count idx t i \<noteq> None}))"
proof (cases "tokenize q")
  case Nil
  then show ?thesis by (simp add: ix_SearchAll_def)
next
  case (Cons t ts)
  show ?thesis
  proof (cases "fmlookup (ix_postings idx) t")
    case None
    then show ?thesis by (simp add: ix_SearchAll_def Cons)
  next
    case (Some ps)
    let ?res = "fold (\<lambda>i r. fmupd i True r) (ord 0 (fmdom ps)) fmempty"
    have res: "fset (fmdom ?res) = {i. ix_count idx t i \<noteq> None}"
      by (auto simp: ix_fill_dom range_orders_set [OF ord] ix_count_def Some fmlookup_dom_iff)
    show ?thesis
    proof (cases "ix_filter ord 2 idx ts ?res")
      case None
      then show ?thesis using ix_filter_dom [OF ord, where ts = ts and idx = idx and res = ?res and n = 2] Some
        by (simp add: ix_SearchAll_def Cons)
    next
      case r: (Some r)
      have dom: "fset (fmdom r) = {i. \<forall>t \<in> set (tokenize q). ix_count idx t i \<noteq> None}"
        and all: "\<forall>t \<in> set ts. fmlookup (ix_postings idx) t \<noteq> None"
        using ix_filter_dom [OF ord, where ts = ts and idx = idx and res = ?res and n = 2] r res by (auto simp: Cons)
      have "sort (ord 1 (fmdom r)) = sorted_list_of_set (fset (fmdom r))"
        by (simp add: sort_distinct_set range_orders_distinct [OF ord] range_orders_set [OF ord])
      then show ?thesis using r Some all dom
        by (auto simp: ix_SearchAll_def Cons Let_def)
    qed
  qed
qed

text \<open>
  C26. After any sequence of \<open>AddDocument\<close> calls, a query is answered nil when it has no term or a
  term occurred in no text; otherwise the answer is, in ascending order, exactly the ids under which every
  term of the query has been added at some time (in any of the texts given for that id).
\<close>
theorem ix_SearchAll_exact:
  assumes "range_orders ord"
  shows "ix_SearchAll ord q (ix_build ord docs) =
     (if tokenize q = [] \<or> (\<exists>t \<in> set (tokenize q). \<forall>i. \<not> ix_seen docs t i) then None
      else Some (sorted_list_of_set {i. \<forall>t \<in> set (tokenize q). ix_seen docs t i}))"
proof -
  have "ix_count (ix_build ord docs) t i \<noteq> None \<longleftrightarrow> ix_seen docs t i"
    "fmlookup (ix_postings (ix_build ord docs)) t = None \<longleftrightarrow> (\<forall>j. \<not> ix_seen docs t j)" for t i
    using ix_build_count [OF assms, of docs t i] by blast+
  then show ?thesis by (simp only: ix_SearchAll_spec [OF assms])
qed

lemma ix_SearchAll_exact_witness:
  "ix_SearchAll (\<lambda>n. sorted_list_of_fset) ''Go fast''
     (ix_build (\<lambda>n. sorted_list_of_fset) [(''a'', ''go fast''), (''b'', ''go slow'')])
   = Some (sorted_list_of_set {i. \<forall>t \<in> {''go'', ''fast''}.
       ix_seen [(''a'', ''go fast''), (''b'', ''go slow'')] t i})"
proof -
  have t: "tokenize ''Go fast'' = [''go'', ''fast'']" by code_simp
  have "ix_seen [(''a'', ''go fast''), (''b'', ''go slow'')] ''go'' ''a''"
    "ix_seen [(''a'', ''go fast''), (''b'', ''go slow'')] ''fast'' ''a''" by code_simp+
  then have "\<not> (\<exists>t \<in> set [''go'', ''fast'']. \<forall>i. \<not> ix_seen [(''a'', ''go fast''), (''b'', ''go slow'')] t i)"
    by auto
  then show ?thesis
    by (subst ix_SearchAll_exact [OF range_orders_sorted]) (simp add: t)
qed

text \<open>A re-indexed document still matches the words of its old text only.\<close>

lemma ix_stale_document:
  "ix_SearchAll (\<lambda>n. sorted_list_of_fset) ''Go'' (ix_build (\<lambda>n. sorted_list_of_fset) [(''a'', ''go fast''), (''a'', ''rust'')])
     = Some [''a'']"
  by code_simp

end
