(* ===== verification/Time_Series.thy ===== *)
theory Time_Series
  imports Go_Prelude Go_Float
begin

text \<open>
  \<open>src/25-Time-Series-Store/main.go\<close>: points in one sorted list per series. A series is named by
  the string \<open>metric|k1=v1,k2=v2\<close> with the tag keys in order, so it is determined by metric and tags only as
  long as the separators do not occur in them. Timestamps are \<open>int\<close>, values are float64 numbers; the sort is an
  argument with the contract of \<open>sort.Slice\<close>.
\<close>

record time_point =
  tp_Timestamp :: int
  tp_Metric :: string
  tp_Tags :: "(string, string) gomap"
  tp_Value :: f64

record time_series_store =
  ts_series :: "(string, time_point list) gomap"

definition NewTimeSeriesStore :: time_series_store where
  "NewTimeSeriesStore = \<lparr>ts_series = fmempty\<rparr>"

text \<open>\<open>strings.Join\<close>.\<close>

fun join :: "string \<Rightarrow> string list \<Rightarrow> string" where
  "join sep [] = []"
| "join sep [p] = p"
| "join sep (p # q # ps) = p @ sep @ join sep (q # ps)"

definition seriesKey :: "(nat \<Rightarrow> string fset \<Rightarrow> string list) \<Rightarrow> string \<Rightarrow> (string, string) gomap \<Rightarrow> string" where
  "seriesKey ord metric tags =
     (let ks = sort (ord 0 (fmdom tags));
          parts = map (\<lambda>k. k @ ''='' @ gm_get [] tags k) ks
      in metric @ ''|'' @ join '','' parts)"

definition ts_Ingest :: "(nat \<Rightarrow> string fset \<Rightarrow> string list) \<Rightarrow> (time_point list \<Rightarrow> time_point list) \<Rightarrow>
    time_point \<Rightarrow> time_series_store \<Rightarrow> time_series_store" where
  "ts_Ingest ord srt p s =
     (let key = seriesKey ord (tp_Metric p) (tp_Tags p) in
      s\<lparr>ts_series := fmupd key (srt (gm_get [] (ts_series s) key @ [p])) (ts_series s)\<rparr>)"

definition ts_Query :: "(nat \<Rightarrow> string fset \<Rightarrow> string list) \<Rightarrow> string \<Rightarrow> (string, string) gomap \<Rightarrow> int \<Rightarrow> int \<Rightarrow>
    time_series_store \<Rightarrow> time_point list" where
  "ts_Query ord metric tags t1 t2 s =
     filter (\<lambda>p. tp_Timestamp p \<ge> t1 \<and> tp_Timestamp p \<le> t2)
       (gm_get [] (ts_series s) (seriesKey ord metric tags))"

definition ts_Average :: "(nat \<Rightarrow> string fset \<Rightarrow> string list) \<Rightarrow> string \<Rightarrow> (string, string) gomap \<Rightarrow> int \<Rightarrow> int \<Rightarrow>
    time_series_store \<Rightarrow> f64 \<times> bool" where
  "ts_Average ord metric tags t1 t2 s =
     (let points = ts_Query ord metric tags t1 t2 s in
      if length points = 0 then (Fin 0, False)
      else (let total = foldl (\<lambda>a p. f_add a (tp_Value p)) (Fin 0) points in (f_div total (f_of_int (int (length points))), True)))"

subsection \<open>The series key\<close>

lemma seriesKey_eq:
  assumes "range_orders ord"
  shows "seriesKey ord metric tags = metric @ ''|'' @
     join '','' (map (\<lambda>k. k @ ''='' @ gm_get [] tags k) (sorted_list_of_set (fset (fmdom tags))))"
  by (simp add: seriesKey_def Let_def sort_distinct_set range_orders_distinct [OF assms]
      range_orders_set [OF assms])

lemma split_at_char:
  assumes "c \<notin> set a" "c \<notin> set b" "a @ c # x = b @ c # y"
  shows "a = b \<and> x = y"
  using assms
proof (induction a arbitrary: b)
  case Nil
  then show ?case by (cases b) auto
next
  case (Cons d a)
  then show ?case by (cases b) auto
qed

lemma join_inj:
  assumes "\<forall>p \<in> set ps. p \<noteq> [] \<and> c \<notin> set p" "\<forall>p \<in> set qs. p \<noteq> [] \<and> c \<notin> set p"
    and "join [c] ps = join [c] qs"
  shows "ps = qs"
  using assms
proof (induction "[c]" ps arbitrary: qs rule: join.induct)
  case 1
  then show ?case by (cases "([c], qs)" rule: join.cases) auto
next
  case (2 p)
  then show ?case by (cases "([c], qs)" rule: join.cases) auto
next
  case (3 p q ps)
  show ?case
  proof (cases "([c], qs)" rule: join.cases)
    case (3 sep p' q' ps')
    have "p @ c # join [c] (q # ps) = p' @ c # join [c] (q' # ps')"
      using 3 "3.prems"(3) by auto
    moreover have qs: "qs = p' # q' # ps'" using 3 by simp
    moreover have "c \<notin> set p" "c \<notin> set p'" using "3.prems"(1,2) by (simp_all add: qs)
    ultimately have "p = p'" "join [c] (q # ps) = join [c] (q' # ps')"
      using split_at_char [of c p p'] by blast+
    moreover have "q # ps = q' # ps'"
      by (rule "3.hyps") (use "3.prems"(1,2) calculation(2) in \<open>simp_all add: qs\<close>)
    ultimately show ?thesis by (simp add: qs)
  qed (use 3 in \<open>auto\<close>)
qed

text \<open>The series names that keep the separators apart.\<close>

definition plain_series :: "string \<Rightarrow> (string, string) gomap \<Rightarrow> bool" where
  "plain_series metric tags \<longleftrightarrow> CHR ''|'' \<notin> set metric \<and>
     (\<forall>k v. fmlookup tags k = Some v \<longrightarrow>
        CHR ''='' \<notin> set k \<and> CHR '','' \<notin> set k \<and> CHR '','' \<notin> set v)"

lemma seriesKey_inj:
  assumes "range_orders ord" "plain_series m tags" "plain_series m' tags'"
  shows "seriesKey ord m tags = seriesKey ord m' tags' \<longleftrightarrow> m = m' \<and> tags = tags'"
proof
  let ?ps = "\<lambda>t. map (\<lambda>k. k @ ''='' @ gm_get [] t k) (sorted_list_of_set (fset (fmdom t)))"
  assume "seriesKey ord m tags = seriesKey ord m' tags'"
  then have "m @ CHR ''|'' # join '','' (?ps tags) = m' @ CHR ''|'' # join '','' (?ps tags')"
    by (simp add: seriesKey_eq [OF assms(1)])
  then have m: "m = m'" and j: "join '','' (?ps tags) = join '','' (?ps tags')"
    using split_at_char [of "CHR ''|''" m m'] assms(2,3) unfolding plain_series_def by simp_all
  have parts: "\<forall>p \<in> set (?ps t). p \<noteq> [] \<and> CHR '','' \<notin> set p" if "plain_series n t" for n t
    using that by (auto simp: plain_series_def gm_get_def fmlookup_dom_iff)
  have "?ps tags = ?ps tags'"
    using join_inj [OF parts [OF assms(2)] parts [OF assms(3)] j] .
  then have mem: "set (?ps tags) = set (?ps tags')" by (rule arg_cong)
  have lk: "fmlookup t k = Some v \<longleftrightarrow> k @ ''='' @ v \<in> set (?ps t)" if p: "plain_series n t" "CHR ''='' \<notin> set k" for n t k v
  proof
    assume "k @ ''='' @ v \<in> set (?ps t)"
    then obtain k' v' where kv: "k @ CHR ''='' # v = k' @ CHR ''='' # v'" "fmlookup t k' = Some v'"
      by (auto simp: fmlookup_dom_iff gm_get_Some)
    have "CHR ''='' \<notin> set k'" using p(1) kv(2) by (simp add: plain_series_def)
    then show "fmlookup t k = Some v" using split_at_char [OF p(2) _ kv(1)] kv(2) by simp
  next
    assume "fmlookup t k = Some v"
    then have "k \<in> fset (fmdom t)" "gm_get [] t k = v" by (simp_all add: fmlookup_dom_iff gm_get_Some)
    then show "k @ ''='' @ v \<in> set (?ps t)" by auto
  qed
  have "fmlookup tags k = fmlookup tags' k" for k
  proof (cases "CHR ''='' \<in> set k")
    case True
    then show ?thesis using assms(2,3) unfolding plain_series_def
      by (metis option.exhaust)
  next
    case False
    then have "fmlookup tags k = Some v \<longleftrightarrow> fmlookup tags' k = Some v" for v
      using lk [OF assms(2)] lk [OF assms(3)] mem by blast
    then show ?thesis by (metis option.exhaust)
  qed
  then show "m = m' \<and> tags = tags'" using m by (simp add: fmap_ext)
qed simp

subsection \<open>Ingested points\<close>

definition ts_load :: "(nat \<Rightarrow> string fset \<Rightarrow> string list) \<Rightarrow> (time_point list \<Rightarrow> time_point list) \<Rightarrow>
    time_point list \<Rightarrow> time_series_store" where
  "ts_load ord srt ps = fold (ts_Ingest ord srt) ps NewTimeSeriesStore"

abbreviation point_key :: "(nat \<Rightarrow> string fset \<Rightarrow> string list) \<Rightarrow> time_point \<Rightarrow> string" where
  "point_key ord p \<equiv> seriesKey ord (tp_Metric p) (tp_Tags p)"

lemma ts_load_series:
  assumes "sorts_by srt tp_Timestamp"
  shows "mset (gm_get [] (ts_series (ts_load ord srt ps)) key) = mset (filter (\<lambda>p. point_key ord p = key) ps)
     \<and> sorted (map tp_Timestamp (gm_get [] (ts_series (ts_load ord srt ps)) key))"
proof (induction ps rule: rev_induct)
  case Nil
  then show ?case by (simp add: ts_load_def NewTimeSeriesStore_def)
next
  case (snoc p ps)
  have "ts_load ord srt (ps @ [p]) = ts_Ingest ord srt p (ts_load ord srt ps)"
    by (simp add: ts_load_def)
  then show ?case using snoc
    by (auto simp: ts_Ingest_def Let_def sorts_by_mset [OF assms] sorts_by_sorted [OF assms])
qed

definition ts_match :: "string \<Rightarrow> (string, string) gomap \<Rightarrow> int \<Rightarrow> int \<Rightarrow> time_point \<Rightarrow> bool" where
  "ts_match metric tags t1 t2 p \<longleftrightarrow> tp_Metric p = metric \<and> tp_Tags p = tags \<and>
     t1 \<le> tp_Timestamp p \<and> tp_Timestamp p \<le> t2"

subsection \<open>The average\<close>

text \<open>
  A floating-point sum of \<open>n\<close> numbers is off by at most \<open>n\<close> roundings, each of a number no greater than twice the sum of
  the absolute values \<open>A\<close>.
\<close>

lemma f_sum_error:
  assumes "\<forall>x \<in> set xs. \<exists>a. x = Fin a" "(\<Sum>x\<leftarrow>xs. \<bar>f_value x\<bar>) \<le> A" "A \<le> 2 ^ 1000" "length xs \<le> 2 ^ 50"
  shows "\<exists>s. foldl f_add (Fin 0) xs = Fin s \<and>
    \<bar>s - (\<Sum>x\<leftarrow>xs. f_value x)\<bar> \<le> real (length xs) * (A / 2 ^ 52 + f_unit)"
  using assms(1,2,4)
proof (induction xs rule: rev_induct)
  case (snoc x xs)
  let ?T = "\<Sum>x\<leftarrow>xs. f_value x" and ?B = "\<Sum>x\<leftarrow>xs. \<bar>f_value x\<bar>"
  obtain a where a: "x = Fin a" using snoc.prems(1) by auto
  have B: "0 \<le> ?B" "?B + \<bar>a\<bar> \<le> A" using snoc.prems(2) by (auto simp: a f_value_def intro!: sum_list_nonneg)
  have n: "real (length xs) + 1 \<le> 2 ^ 50" using snoc.prems(3) by simp
  obtain s where s: "foldl f_add (Fin 0) xs = Fin s" "\<bar>s - ?T\<bar> \<le> real (length xs) * (A / 2 ^ 52 + f_unit)"
  proof -
    have "\<forall>x \<in> set xs. \<exists>a. x = Fin a" "?B \<le> A" "length xs \<le> 2 ^ 50" using snoc.prems(1,3) B(2) by simp_all
    then show ?thesis using snoc.IH that by blast
  qed
  have T: "\<bar>?T\<bar> \<le> ?B"
  proof (induction xs)
    case (Cons x xs)
    then show ?case using abs_triangle_ineq [of "f_value x" "\<Sum>x\<leftarrow>xs. f_value x"] by simp
  qed simp
  define E where "E = real (length xs) * (A / 2 ^ 52 + f_unit)"
  have "E \<le> 2 ^ 50 * (A / 2 ^ 52 + f_unit)" unfolding E_def using n B by (intro mult_right_mono) simp_all
  then have E: "E \<le> A / 4 + 2 ^ 50 * f_unit" by simp
  have t: "\<bar>s + a\<bar> \<le> A + (A / 4 + 2 ^ 50 * f_unit)" using s(2) T B(2) E unfolding E_def [symmetric] by linarith
  have "2 ^ 50 * f_unit \<le> 1" using f_unit_le [of 50] by simp
  moreover have "(2 :: real) ^ 1000 + 2 ^ 1000 / 4 + 1 \<le> 2 ^ 1002"
  proof -
    have "(2 :: real) ^ 1002 = 4 * 2 ^ 1000" using power_add [of "2 :: real" 2 1000] by simp
    moreover have "(1 :: real) \<le> 2 ^ 1000" by (rule one_le_power) simp
    ultimately show ?thesis by linarith
  qed
  ultimately have "\<bar>s + a\<bar> \<le> f_big" using t assms(3) f_big_ge [of 1002] by linarith
  then obtain u where u: "f_round (s + a) = Fin u" using f_round_finite by blast
  have "max (f_unit / 2) (\<bar>s + a\<bar> / 2 ^ 53) \<le> A / 2 ^ 52 + f_unit"
  proof (rule max.boundedI)
    show "f_unit / 2 \<le> A / 2 ^ 52 + f_unit" using B by simp
    have "\<bar>s + a\<bar> / 2 ^ 53 \<le> (A + (A / 4 + 2 ^ 50 * f_unit)) / 2 ^ 53" using t by (rule divide_right_mono) simp
    also have "\<dots> \<le> A / 2 ^ 52 + f_unit" using B by (simp add: field_simps)
    finally show "\<bar>s + a\<bar> / 2 ^ 53 \<le> A / 2 ^ 52 + f_unit" .
  qed
  then have "\<bar>u - (s + a)\<bar> \<le> A / 2 ^ 52 + f_unit" using f_round_error [OF u] by linarith
  then have "\<bar>u - (?T + a)\<bar> \<le> E + (A / 2 ^ 52 + f_unit)" using s(2) unfolding E_def [symmetric] by linarith
  moreover have "real (length (xs @ [x])) * (A / 2 ^ 52 + f_unit) = E + (A / 2 ^ 52 + f_unit)" by (simp add: E_def distrib_right)
  moreover have "(\<Sum>x\<leftarrow>xs @ [x]. f_value x) = ?T + a" by (simp add: a f_value_def)
  moreover have "foldl f_add (Fin 0) (xs @ [x]) = Fin u" by (simp add: s(1) a u)
  ultimately show ?case by (simp only:) blast
qed simp

lemma f_mean_error:
  assumes "\<forall>x \<in> set xs. \<exists>a. x = Fin a" "(\<Sum>x\<leftarrow>xs. \<bar>f_value x\<bar>) \<le> A" "A \<le> 2 ^ 1000" "length xs \<le> 2 ^ 50" "xs \<noteq> []"
  shows "\<exists>m. f_div (foldl f_add (Fin 0) xs) (f_of_int (int (length xs))) = Fin m \<and>
    \<bar>m - (\<Sum>x\<leftarrow>xs. f_value x) / real (length xs)\<bar> \<le> A / 2 ^ 51 + 2 * f_unit"
proof -
  let ?T = "\<Sum>x\<leftarrow>xs. f_value x" and ?n = "real (length xs)"
  define D where "D = A / 2 ^ 52 + f_unit"
  obtain s where s: "foldl f_add (Fin 0) xs = Fin s" "\<bar>s - ?T\<bar> \<le> ?n * D"
    using f_sum_error [OF assms(1-4)] unfolding D_def by blast
  have n: "1 \<le> ?n" "?n \<le> 2 ^ 50" using assms(4,5) by (simp_all add: Suc_le_eq)
  have len: "f_of_int (int (length xs)) = Fin ?n" using f_of_int_exact [of "int (length xs)"] assms(4) by simp
  have "0 \<le> (\<Sum>x\<leftarrow>xs. \<bar>f_value x\<bar>)" by (rule sum_list_nonneg) auto
  then have A: "0 \<le> A" using assms(2) by linarith
  have "\<bar>?T\<bar> \<le> (\<Sum>x\<leftarrow>xs. \<bar>f_value x\<bar>)"
  proof (induction xs)
    case (Cons x xs)
    then show ?case using abs_triangle_ineq [of "f_value x" "\<Sum>x\<leftarrow>xs. f_value x"] by simp
  qed simp
  then have T: "\<bar>?T\<bar> \<le> A" using assms(2) by linarith
  have D: "0 \<le> D" using A by (simp add: D_def)
  have "\<bar>s / ?n - ?T / ?n\<bar> = \<bar>s - ?T\<bar> / ?n" by (simp add: diff_divide_distrib [symmetric])
  also have "\<dots> \<le> D"
  proof -
    have "0 < ?n" using n(1) by linarith
    then show ?thesis using s(2) by (simp only: pos_divide_le_eq mult.commute)
  qed
  finally have q: "\<bar>s / ?n - ?T / ?n\<bar> \<le> D" .
  have "\<bar>?T / ?n\<bar> \<le> \<bar>?T\<bar>" using n(1) by (simp add: abs_divide divide_le_eq mult_le_cancel_left1)
  then have sn: "\<bar>s / ?n\<bar> \<le> A + D" using q T by linarith
  have "D \<le> A + 1" using A f_unit_le [of 0] by (simp add: D_def)
  moreover have "(2 :: real) ^ 1000 + (2 ^ 1000 + 1) \<le> 2 ^ 1002"
  proof -
    have "(2 :: real) ^ 1002 = 4 * 2 ^ 1000" using power_add [of "2 :: real" 2 1000] by simp
    moreover have "(1 :: real) \<le> 2 ^ 1000" by (rule one_le_power) simp
    ultimately show ?thesis by linarith
  qed
  ultimately have "\<bar>s / ?n\<bar> \<le> f_big" using sn assms(3) f_big_ge [of 1002] by linarith
  then obtain m where m: "f_round (s / ?n) = Fin m" using f_round_finite by blast
  have "max (f_unit / 2) (\<bar>s / ?n\<bar> / 2 ^ 53) \<le> A / 2 ^ 52 + f_unit"
  proof (rule max.boundedI)
    show "f_unit / 2 \<le> A / 2 ^ 52 + f_unit" using A by simp
    have "\<bar>s / ?n\<bar> / 2 ^ 53 \<le> (A + D) / 2 ^ 53" using sn by (rule divide_right_mono) simp
    also have "\<dots> \<le> A / 2 ^ 52 + f_unit" using A by (simp add: D_def field_simps)
    finally show "\<bar>s / ?n\<bar> / 2 ^ 53 \<le> A / 2 ^ 52 + f_unit" .
  qed
  then have "\<bar>m - s / ?n\<bar> \<le> A / 2 ^ 52 + f_unit" using f_round_error [OF m] by linarith
  then have "\<bar>m - ?T / ?n\<bar> \<le> (A / 2 ^ 52 + f_unit) + D" using q by linarith
  also have "\<dots> = A / 2 ^ 51 + 2 * f_unit" by (simp add: D_def)
  finally have "\<bar>m - ?T / ?n\<bar> \<le> A / 2 ^ 51 + 2 * f_unit" .
  moreover have "f_div (foldl f_add (Fin 0) xs) (f_of_int (int (length xs))) = Fin m" using assms(5) m unfolding s(1) len by simp
  ultimately show ?thesis by blast
qed



text \<open>With separators in the names, two different tag sets share a series.\<close>

lemma seriesKey_collision:
  "seriesKey (\<lambda>n. sorted_list_of_fset) ''m'' (fmupd ''a'' ''1,b=2'' fmempty)
   = seriesKey (\<lambda>n. sorted_list_of_fset) ''m'' (fmupd ''a'' ''1'' (fmupd ''b'' ''2'' fmempty))"
  by code_simp

end
