(* ===== verification/Ttl_Store.thy ===== *)
theory Ttl_Store
  imports Go_Prelude
begin

text \<open>
  \<open>src/26-Key-Value-Store/main.go\<close>: keys with versions and an optional time to live. An expired
  entry is removed when it is read. Every call of \<open>time.Now\<close> is an argument: \<open>now\<close> for \<open>Put\<close> and
  \<open>Get\<close>, and for \<open>Range\<close> the reading taken for each key. Times and durations are \<open>int\<close>; the zero
  \<open>time.Time\<close> is \<open>None\<close>.
\<close>

record kv_entry =
  kve_Value :: string
  kve_ExpiresAt :: "int option"
  kve_Version :: int

record ttl_store =
  tt_data :: "(string, kv_entry) gomap"
  tt_version :: int

definition NewKeyValueStore :: ttl_store where
  "NewKeyValueStore = \<lparr>tt_data = fmempty, tt_version = 0\<rparr>"

definition tt_Put :: "int \<Rightarrow> string \<Rightarrow> string \<Rightarrow> int \<Rightarrow> ttl_store \<Rightarrow> int \<times> ttl_store" where
  "tt_Put now key v ttl s =
     (let s = s\<lparr>tt_version := tt_version s + 1\<rparr>;
          entry = \<lparr>kve_Value = v, kve_ExpiresAt = None, kve_Version = tt_version s\<rparr>;
          entry = (if ttl > 0 then entry\<lparr>kve_ExpiresAt := Some (now + ttl)\<rparr> else entry)
      in (kve_Version entry, s\<lparr>tt_data := fmupd key entry (tt_data s)\<rparr>))"

text \<open>\<open>!entry.ExpiresAt.IsZero() && time.Now().After(entry.ExpiresAt)\<close>\<close>

definition expired :: "int \<Rightarrow> int option \<Rightarrow> bool" where
  "expired now x = (case x of None \<Rightarrow> False | Some d \<Rightarrow> d < now)"

definition tt_Get :: "int \<Rightarrow> string \<Rightarrow> ttl_store \<Rightarrow> (string \<times> bool) \<times> ttl_store" where
  "tt_Get now key s =
     (case fmlookup (tt_data s) key of
        None \<Rightarrow> (([], False), s)
      | Some entry \<Rightarrow>
          if expired now (kve_ExpiresAt entry)
          then (([], False), s\<lparr>tt_data := fmdrop key (tt_data s)\<rparr>)
          else ((kve_Value entry, True), s))"

definition tt_Delete :: "string \<Rightarrow> ttl_store \<Rightarrow> bool \<times> ttl_store" where
  "tt_Delete key s = (fmlookup (tt_data s) key \<noteq> None, s\<lparr>tt_data := fmdrop key (tt_data s)\<rparr>)"

fun tt_scan :: "(string \<Rightarrow> int) \<Rightarrow> string \<Rightarrow> string \<Rightarrow> string list \<Rightarrow> ttl_store \<Rightarrow>
    (string \<times> string) list \<times> ttl_store" where
  "tt_scan now lo hi [] s = ([], s)"
| "tt_scan now lo hi (k # ks) s =
     (if k \<ge> lo \<and> k \<le> hi then
        (case tt_Get (now k) k s of ((v, ok), s') \<Rightarrow>
           (case tt_scan now lo hi ks s' of (r, s'') \<Rightarrow> (if ok then (k, v) # r else r, s'')))
      else tt_scan now lo hi ks s)"

definition tt_Range :: "(nat \<Rightarrow> string fset \<Rightarrow> string list) \<Rightarrow> (string \<Rightarrow> int) \<Rightarrow> string \<Rightarrow> string \<Rightarrow>
    ttl_store \<Rightarrow> (string \<times> string) list \<times> ttl_store" where
  "tt_Range ord now lo hi s = tt_scan now lo hi (sort (ord 0 (fmdom (tt_data s)))) s"

subsection \<open>The store without eviction\<close>

text \<open>
  The contract: a map from keys to the last value put and its deadline, in which nothing is ever
  evicted; a read just ignores an entry that is past its deadline.
\<close>

type_synonym deadlines = "string \<Rightarrow> (string \<times> int option) option"

definition live :: "int \<Rightarrow> deadlines \<Rightarrow> string \<Rightarrow> string option" where
  "live now m k = (case m k of None \<Rightarrow> None | Some (v, x) \<Rightarrow> if expired now x then None else Some v)"

text \<open>
  The store agrees with the map at the time \<open>now\<close> up to entries that have expired by then; first
  for one key, whose entry and whose value in the map are given.
\<close>

fun agree_at :: "int \<Rightarrow> kv_entry option \<Rightarrow> (string \<times> int option) option \<Rightarrow> bool" where
  "agree_at now (Some e) d = (d = Some (kve_Value e, kve_ExpiresAt e))"
| "agree_at now None (Some (v, x)) = expired now x"
| "agree_at now None None = True"

definition tt_agree :: "int \<Rightarrow> ttl_store \<Rightarrow> deadlines \<Rightarrow> bool" where
  "tt_agree now s m \<longleftrightarrow> (\<forall>k. agree_at now (fmlookup (tt_data s) k) (m k))"

lemma expired_mono: "expired now x \<Longrightarrow> now \<le> t \<Longrightarrow> expired t x"
  by (auto simp: expired_def split: option.splits)

lemma agree_at_mono: "agree_at now e d \<Longrightarrow> now \<le> t \<Longrightarrow> agree_at t e d"
  by (induction now e d rule: agree_at.induct) (auto intro: expired_mono)

lemma tt_agree_mono: "tt_agree now s m \<Longrightarrow> now \<le> t \<Longrightarrow> tt_agree t s m"
  unfolding tt_agree_def by (blast intro: agree_at_mono)

lemma agree_at_None: "agree_at now None d \<longleftrightarrow> (case d of None \<Rightarrow> True | Some (v, x) \<Rightarrow> expired now x)"
  by (cases d) auto

lemma tt_Put_ok:
  assumes "tt_agree now s m"
  shows "fst (tt_Put now k v ttl s) = tt_version s + 1"
    and "tt_version (snd (tt_Put now k v ttl s)) = tt_version s + 1"
    and "tt_agree now (snd (tt_Put now k v ttl s)) (m(k \<mapsto> (v, if ttl > 0 then Some (now + ttl) else None)))"
  using assms by (simp_all add: tt_Put_def Let_def tt_agree_def)

lemma tt_Delete_ok:
  assumes "tt_agree now s m"
  shows "tt_agree now (snd (tt_Delete k s)) (m(k := None))"
    and "tt_version (snd (tt_Delete k s)) = tt_version s"
    and "live now m k \<noteq> None \<Longrightarrow> fst (tt_Delete k s)"
    and "m k = None \<Longrightarrow> \<not> fst (tt_Delete k s)"
proof -
  have k: "agree_at now (fmlookup (tt_data s) k) (m k)" using assms by (simp add: tt_agree_def)
  show "tt_agree now (snd (tt_Delete k s)) (m(k := None))" "tt_version (snd (tt_Delete k s)) = tt_version s"
    using assms by (simp_all add: tt_Delete_def tt_agree_def)
  show "live now m k \<noteq> None \<Longrightarrow> fst (tt_Delete k s)"
    using k by (auto simp: tt_Delete_def live_def agree_at_None split: option.splits intro: ccontr)
  show "m k = None \<Longrightarrow> \<not> fst (tt_Delete k s)"
    using k by (cases "fmlookup (tt_data s) k") (auto simp: tt_Delete_def)
qed

text \<open>A \<open>Get\<close> and what it leaves, for the key it reads and for the others.\<close>

lemma tt_Get_result:
  assumes "agree_at t (fmlookup (tt_data s) k) (m k)" "t \<le> now"
  shows "fst (tt_Get now k s) = (case live now m k of None \<Rightarrow> ([], False) | Some v \<Rightarrow> (v, True))"
proof (cases "fmlookup (tt_data s) k")
  case None
  then have "live now m k = None"
    using assms by (auto simp: agree_at_None live_def split: option.splits dest: expired_mono)
  then show ?thesis using None by (simp add: tt_Get_def)
next
  case (Some e)
  then show ?thesis using assms(1) by (simp add: tt_Get_def live_def)
qed

lemma tt_Get_same:
  assumes "agree_at t (fmlookup (tt_data s) k) d" "t \<le> now" "now \<le> u"
  shows "agree_at u (fmlookup (tt_data (snd (tt_Get now k s))) k) d"
proof (cases "fmlookup (tt_data s) k")
  case None
  then show ?thesis using agree_at_mono [OF assms(1), of u] assms(2,3) by (simp add: tt_Get_def)
next
  case (Some e)
  then show ?thesis using assms expired_mono by (simp add: tt_Get_def)
qed

lemma tt_Get_other: "j \<noteq> k \<Longrightarrow> fmlookup (tt_data (snd (tt_Get now k s))) j = fmlookup (tt_data s) j"
  by (simp add: tt_Get_def split: option.splits)

lemma tt_Get_version: "tt_version (snd (tt_Get now k s)) = tt_version s"
  by (simp add: tt_Get_def split: option.splits)

lemma tt_Get_agree:
  assumes "tt_agree now s m"
  shows "tt_agree now (snd (tt_Get now k s)) m"
  unfolding tt_agree_def
proof
  fix j
  have "agree_at now (fmlookup (tt_data s) j) (m j)" using assms by (simp add: tt_agree_def)
  then show "agree_at now (fmlookup (tt_data (snd (tt_Get now k s))) j) (m j)"
    by (cases "j = k") (auto simp: tt_Get_other intro: tt_Get_same)
qed

text \<open>What a scan over the keys \<open>ks\<close> returns: readings may differ from key to key.\<close>

definition live_pairs :: "(string \<Rightarrow> int) \<Rightarrow> string \<Rightarrow> string \<Rightarrow> deadlines \<Rightarrow> string list \<Rightarrow> (string \<times> string) list" where
  "live_pairs now lo hi m ks =
     List.map_filter (\<lambda>k. if lo \<le> k \<and> k \<le> hi then map_option (Pair k) (live (now k) m k) else None) ks"

lemma live_pairs_simps [simp]:
  "live_pairs now lo hi m [] = []"
  "live_pairs now lo hi m (k # ks) =
     (if lo \<le> k \<and> k \<le> hi then (case live (now k) m k of None \<Rightarrow> [] | Some v \<Rightarrow> [(k, v)]) else [])
     @ live_pairs now lo hi m ks"
  by (simp_all add: live_pairs_def map_filter_simps split: option.splits)

lemma tt_scan_ok:
  assumes "\<And>k. k \<in> set ks \<Longrightarrow> t \<le> now k \<and> now k \<le> u" "t \<le> u" "distinct ks"
    and "\<And>k. agree_at (if k \<in> set ks then t else u) (fmlookup (tt_data s) k) (m k)"
  shows "fst (tt_scan now lo hi ks s) = live_pairs now lo hi m ks \<and>
     tt_agree u (snd (tt_scan now lo hi ks s)) m \<and> tt_version (snd (tt_scan now lo hi ks s)) = tt_version s"
  using assms
proof (induction ks arbitrary: s)
  case Nil
  then show ?case by (simp add: tt_agree_def)
next
  case (Cons k ks)
  let ?s = "snd (tt_Get (now k) k s)"
  have now: "t \<le> now k" "now k \<le> u" using Cons.prems(1) by simp_all
  have k: "agree_at t (fmlookup (tt_data s) k) (m k)" using Cons.prems(4) [of k] by simp
  have later: "agree_at (if j \<in> set ks then t else u) (fmlookup (tt_data s) j) (m j)" for j
    using Cons.prems(4) [of j] agree_at_mono [OF _ Cons.prems(2)] by (auto split: if_splits)
  have inv: "agree_at (if j \<in> set ks then t else u) (fmlookup (tt_data ?s) j) (m j)" for j
    using later [of j] tt_Get_same [OF k now] Cons.prems(3) by (cases "j = k") (simp_all add: tt_Get_other)
  have step: "fst (tt_scan now lo hi ks s') = live_pairs now lo hi m ks \<and>
     tt_agree u (snd (tt_scan now lo hi ks s')) m \<and> tt_version (snd (tt_scan now lo hi ks s')) = tt_version s'"
    if "\<And>j. agree_at (if j \<in> set ks then t else u) (fmlookup (tt_data s') j) (m j)" for s'
    by (rule Cons.IH) (use Cons.prems that in simp_all)
  show ?case
  proof (cases "k \<ge> lo \<and> k \<le> hi")
    case False
    then show ?thesis using step [OF later] by auto
  next
    case True
    then show ?thesis using step [OF inv] tt_Get_result [of t s k m "now k", OF k now(1)] tt_Get_version [of "now k" k s]
      by (auto simp: case_prod_beta split: option.splits)
  qed
qed

subsection \<open>Calls at increasing times\<close>

datatype tt_op = TtPut string string int | TtGet string | TtDelete string | TtRange string string

datatype tt_result = TtVersion int | TtValue "string \<times> bool" | TtDeleted bool | TtPairs "(string \<times> string) list"

text \<open>A call, the time it starts, the readings its scan takes, and the time it ends.\<close>

fun tt_step :: "(nat \<Rightarrow> string fset \<Rightarrow> string list) \<Rightarrow> tt_op \<Rightarrow> int \<Rightarrow> (string \<Rightarrow> int) \<Rightarrow> ttl_store \<Rightarrow> tt_result \<times> ttl_store" where
  "tt_step ord (TtPut k v ttl) now rd s = apfst TtVersion (tt_Put now k v ttl s)"
| "tt_step ord (TtGet k) now rd s = apfst TtValue (tt_Get now k s)"
| "tt_step ord (TtDelete k) now rd s = apfst TtDeleted (tt_Delete k s)"
| "tt_step ord (TtRange lo hi) now rd s = apfst TtPairs (tt_Range ord rd lo hi s)"

type_synonym tt_call = "tt_op \<times> int \<times> (string \<Rightarrow> int)"

fun tt_run :: "(nat \<Rightarrow> string fset \<Rightarrow> string list) \<Rightarrow> tt_call list \<Rightarrow> ttl_store \<Rightarrow> tt_result list" where
  "tt_run ord [] s = []"
| "tt_run ord ((c, now, rd) # cs) s = (case tt_step ord c now rd s of (r, s') \<Rightarrow> r # tt_run ord cs s')"

text \<open>The clock never goes back: each call starts no earlier than any reading before it.\<close>

fun tt_clock :: "int \<Rightarrow> tt_call list \<Rightarrow> bool" where
  "tt_clock t [] = True"
| "tt_clock t ((c, now, rd) # cs) =
     (t \<le> now \<and> (case c of
        TtRange lo hi \<Rightarrow> (\<exists>u \<ge> now. (\<forall>k. now \<le> rd k \<and> rd k \<le> u) \<and> tt_clock u cs)
      | _ \<Rightarrow> tt_clock now cs))"

text \<open>
  The results that the calls may have, with \<open>n\<close> puts before. Those of \<open>Put\<close>, \<open>Get\<close> and \<open>Range\<close> are
  determined by the map of deadlines. \<open>Delete\<close> answers true for a live key and false for one that is not in the map; for an expired
  key it answers false if the entry has been evicted by a read, and true otherwise.
\<close>

fun tt_meets :: "tt_call list \<Rightarrow> tt_result list \<Rightarrow> int \<Rightarrow> deadlines \<Rightarrow> bool" where
  "tt_meets [] [] n m = True"
| "tt_meets ((c, now, rd) # cs) (r # rs) n m = (case c of
      TtPut k v ttl \<Rightarrow> r = TtVersion (n + 1) \<and>
        tt_meets cs rs (n + 1) (m(k \<mapsto> (v, if ttl > 0 then Some (now + ttl) else None)))
    | TtGet k \<Rightarrow> r = TtValue (case live now m k of None \<Rightarrow> ([], False) | Some v \<Rightarrow> (v, True)) \<and> tt_meets cs rs n m
    | TtDelete k \<Rightarrow> (case r of TtDeleted b \<Rightarrow> (live now m k \<noteq> None \<longrightarrow> b) \<and> (m k = None \<longrightarrow> \<not> b) | _ \<Rightarrow> False) \<and>
        tt_meets cs rs n (m(k := None))
    | TtRange lo hi \<Rightarrow> r = TtPairs (live_pairs rd lo hi m (sorted_list_of_set (dom m))) \<and> tt_meets cs rs n m)"
| "tt_meets _ _ n m = False"

lemma live_pairs_filter:
  "(\<And>k. k \<in> set ks \<Longrightarrow> \<not> P k \<Longrightarrow> live (now k) m k = None) \<Longrightarrow>
     live_pairs now lo hi m (filter P ks) = live_pairs now lo hi m ks"
  by (induction ks) auto

lemma tt_Range_ok:
  assumes "range_orders ord" "tt_agree t s m" "finite (dom m)" "\<And>k. t \<le> now k \<and> now k \<le> u"
  shows "fst (tt_Range ord now lo hi s) = live_pairs now lo hi m (sorted_list_of_set (dom m)) \<and>
     tt_agree u (snd (tt_Range ord now lo hi s)) m \<and> tt_version (snd (tt_Range ord now lo hi s)) = tt_version s"
proof -
  let ?A = "fset (fmdom (tt_data s))" let ?ks = "sorted_list_of_set ?A"
  have k: "agree_at t (fmlookup (tt_data s) k) (m k)" for k using assms(2) by (simp add: tt_agree_def)
  have tu: "t \<le> u" using assms(4) order_trans by blast
  have sub: "?A \<subseteq> dom m"
  proof
    fix k assume "k \<in> ?A"
    then show "k \<in> dom m" using k [of k] by (auto simp: fmlookup_dom_iff)
  qed
  have keys: "sort (ord 0 (fmdom (tt_data s))) = ?ks"
    by (simp add: sort_distinct_set range_orders_distinct [OF assms(1)] range_orders_set [OF assms(1)])
  have scan: "fst (tt_scan now lo hi ?ks s) = live_pairs now lo hi m ?ks \<and>
     tt_agree u (snd (tt_scan now lo hi ?ks s)) m \<and> tt_version (snd (tt_scan now lo hi ?ks s)) = tt_version s"
    by (rule tt_scan_ok) (use assms(4) tu k agree_at_mono [OF k tu] in auto)
  have "sorted (sorted_list_of_set (dom m))" by simp
  then have srt: "sorted (filter (\<lambda>k. k \<in> ?A) (sorted_list_of_set (dom m)))"
    using sorted_filter [of "\<lambda>x. x" _ "\<lambda>k. k \<in> ?A"] by simp
  have "?ks = filter (\<lambda>k. k \<in> ?A) (sorted_list_of_set (dom m))"
    by (rule sorted_distinct_set_unique) (use sub assms(3) srt in \<open>auto simp: subset_eq\<close>)
  moreover have "live (now k) m k = None" if "k \<notin> ?A" for k
    using that k [of k] expired_mono assms(4)
    by (auto simp: fmlookup_dom_iff agree_at_None live_def split: option.splits)
  ultimately have "live_pairs now lo hi m ?ks = live_pairs now lo hi m (sorted_list_of_set (dom m))"
    using live_pairs_filter by metis
  then show ?thesis using scan by (simp add: tt_Range_def keys)
qed


text \<open>The answer of \<open>Delete\<close> for an expired key depends on a read of it before.\<close>

lemma tt_Delete_expired:
  "tt_run (\<lambda>n. sorted_list_of_fset) [(TtPut ''a'' ''x'' 5, 0, \<lambda>k. 0), (TtDelete ''a'', 6, \<lambda>k. 0)] NewKeyValueStore
     = [TtVersion 1, TtDeleted True]"
  "tt_run (\<lambda>n. sorted_list_of_fset) [(TtPut ''a'' ''x'' 5, 0, \<lambda>k. 0), (TtGet ''a'', 6, \<lambda>k. 0), (TtDelete ''a'', 6, \<lambda>k. 0)]
     NewKeyValueStore = [TtVersion 1, TtValue ([], False), TtDeleted False]"
  by (simp_all add: NewKeyValueStore_def tt_Put_def tt_Get_def tt_Delete_def expired_def Let_def)


end
