(* ===== verification/Document_Store.thy ===== *)
theory Document_Store
  imports Go_Prelude
begin

text \<open>
  \<open>src/27-Document-Store/main.go\<close>: documents with secondary indexes. Field values have Go's type
  \<open>any\<close>, here a type variable whose \<open>None\<close> is nil (also the value read at a missing field), and
  \<open>fmt.Sprint\<close> of such a value is the argument \<open>sp\<close>.

  \<open>Upsert\<close> adds the id to the buckets of the new values and leaves it in those of the old ones, so
  an indexed search finds every match and also documents that matched in the past; without updates
  it agrees with the scan.
\<close>

type_synonym 'a document = "(string, 'a option) gomap"

type_synonym doc_index = "(string, (string, bool) gomap) gomap"

record 'a doc_store =
  dc_docs :: "(string, 'a document) gomap"
  dc_indexes :: "(string, doc_index) gomap"

type_synonym key_orders = "nat \<Rightarrow> string fset \<Rightarrow> string list"

definition NewDocumentStore :: "'a doc_store" where
  "NewDocumentStore = \<lparr>dc_docs = fmempty, dc_indexes = fmempty\<rparr>"

definition addToIndex :: "string \<Rightarrow> string \<Rightarrow> doc_index \<Rightarrow> doc_index" where
  "addToIndex v docid ix =
     (let ix = (if fmlookup ix v = None then fmupd v fmempty ix else ix) in
      fmupd v (fmupd docid True (gm_get fmempty ix v)) ix)"

definition dc_CreateIndex :: "key_orders \<Rightarrow> ('a option \<Rightarrow> string) \<Rightarrow> string \<Rightarrow> 'a doc_store \<Rightarrow> 'a doc_store" where
  "dc_CreateIndex ord sp field s =
     (let ix = fold (\<lambda>docid. addToIndex (sp (gm_get None (gm_get fmempty (dc_docs s) docid) field)) docid)
                 (ord 0 (fmdom (dc_docs s))) fmempty
      in s\<lparr>dc_indexes := fmupd field ix (dc_indexes s)\<rparr>)"

definition dc_Upsert :: "key_orders \<Rightarrow> ('a option \<Rightarrow> string) \<Rightarrow> string \<Rightarrow> 'a document \<Rightarrow> 'a doc_store \<Rightarrow> 'a doc_store" where
  "dc_Upsert ord sp docid d s =
     (let s = s\<lparr>dc_docs := fmupd docid d (dc_docs s)\<rparr> in
      s\<lparr>dc_indexes := fold
          (\<lambda>field ixs. fmupd field (addToIndex (sp (gm_get None d field)) docid (gm_get fmempty ixs field)) ixs)
          (ord 0 (fmdom (dc_indexes s))) (dc_indexes s)\<rparr>)"

text \<open>An id in a bucket that has no document would give a nil document, the empty map.\<close>

definition dc_FindByField :: "key_orders \<Rightarrow> ('a option \<Rightarrow> string) \<Rightarrow> string \<Rightarrow> 'a option \<Rightarrow> 'a doc_store \<Rightarrow> 'a document list" where
  "dc_FindByField ord sp field v s =
     (case fmlookup (dc_indexes s) field of
        Some ix \<Rightarrow> map (gm_get fmempty (dc_docs s)) (ord 0 (fmdom (gm_get fmempty ix (sp v))))
      | None \<Rightarrow> filter (\<lambda>d. sp (gm_get None d field) = sp v)
                  (map (gm_get fmempty (dc_docs s)) (ord 1 (fmdom (dc_docs s)))))"

subsection \<open>Buckets\<close>

definition ix_has :: "doc_index \<Rightarrow> string \<Rightarrow> string \<Rightarrow> bool" where
  "ix_has ix v i \<longleftrightarrow> i \<in> fset (fmdom (gm_get fmempty ix v))"

lemma ix_has_simps [simp]:
  "ix_has fmempty v i = False"
  "ix_has (addToIndex w j ix) v i = (v = w \<and> i = j \<or> ix_has ix v i)"
  by (auto simp: ix_has_def addToIndex_def Let_def gm_get_def split: option.splits if_splits)

lemma ix_has_fold:
  "ix_has (fold (\<lambda>j. addToIndex (f j) j) js ix) v i \<longleftrightarrow> (i \<in> set js \<and> f i = v) \<or> ix_has ix v i"
  by (induction js arbitrary: ix) auto

text \<open>The value of a field of the current document.\<close>

definition dc_value :: "('a option \<Rightarrow> string) \<Rightarrow> 'a doc_store \<Rightarrow> string \<Rightarrow> string \<Rightarrow> string" where
  "dc_value sp s field i = sp (gm_get None (gm_get fmempty (dc_docs s) i) field)"

definition dc_ids :: "'a doc_store \<Rightarrow> string set" where
  "dc_ids s = fset (fmdom (dc_docs s))"

text \<open>Every index has every current value; the ids in it have documents.\<close>

definition dc_inv :: "('a option \<Rightarrow> string) \<Rightarrow> 'a doc_store \<Rightarrow> bool" where
  "dc_inv sp s \<longleftrightarrow> (\<forall>field ix. fmlookup (dc_indexes s) field = Some ix \<longrightarrow>
     (\<forall>i \<in> dc_ids s. ix_has ix (dc_value sp s field i) i) \<and> (\<forall>v i. ix_has ix v i \<longrightarrow> i \<in> dc_ids s))"

text \<open>An index without stale entries.\<close>

definition dc_exact :: "('a option \<Rightarrow> string) \<Rightarrow> 'a doc_store \<Rightarrow> bool" where
  "dc_exact sp s \<longleftrightarrow> (\<forall>field ix v i. fmlookup (dc_indexes s) field = Some ix \<longrightarrow> ix_has ix v i \<longrightarrow>
     v = dc_value sp s field i)"

lemma dc_CreateIndex_ok:
  assumes "range_orders ord" "dc_inv sp s"
  shows "dc_inv sp (dc_CreateIndex ord sp field s)"
    and "dc_exact sp s \<Longrightarrow> dc_exact sp (dc_CreateIndex ord sp field s)"
    and "dc_ids (dc_CreateIndex ord sp field s) = dc_ids s"
  using assms(2) by (auto simp: dc_inv_def dc_exact_def dc_CreateIndex_def Let_def dc_ids_def ix_has_fold
      range_orders_set [OF assms(1)] dc_value_def split: if_splits)

lemma dc_Upsert_indexes:
  assumes "range_orders ord"
  shows "fmlookup (dc_indexes (dc_Upsert ord sp i d s)) field =
     map_option (addToIndex (sp (gm_get None d field)) i) (fmlookup (dc_indexes s) field)"
proof -
  have "fmlookup (fold (\<lambda>f ixs. fmupd f (addToIndex (sp (gm_get None d f)) i (gm_get fmempty ixs f)) ixs)
      (ord 0 (fmdom (dc_indexes s))) (dc_indexes s)) field =
     (if field \<in> set (ord 0 (fmdom (dc_indexes s)))
      then (\<lambda>f ix. Some (addToIndex (sp (gm_get None d f)) i (case ix of None \<Rightarrow> fmempty | Some x \<Rightarrow> x)))
             field (fmlookup (dc_indexes s) field)
      else fmlookup (dc_indexes s) field)"
    by (rule fold_pointwise) (simp_all add: gm_get_def range_orders_distinct [OF assms])
  then show ?thesis
    by (cases "fmlookup (dc_indexes s) field")
      (auto simp: dc_Upsert_def Let_def range_orders_set [OF assms] fmlookup_dom_iff)
qed

lemma dc_Upsert_value:
  "dc_value sp (dc_Upsert ord sp i d s) field j =
     (if j = i then sp (gm_get None d field) else dc_value sp s field j)"
  by (simp add: dc_value_def dc_Upsert_def Let_def)

lemma dc_Upsert_ids: "dc_ids (dc_Upsert ord sp i d s) = insert i (dc_ids s)"
  by (simp add: dc_ids_def dc_Upsert_def Let_def)

lemma dc_Upsert_ok:
  assumes "range_orders ord" "dc_inv sp s"
  shows "dc_inv sp (dc_Upsert ord sp i d s)"
    and "dc_exact sp s \<Longrightarrow> i \<notin> dc_ids s \<Longrightarrow> dc_exact sp (dc_Upsert ord sp i d s)"
  using assms(2) unfolding dc_inv_def dc_exact_def
  by (fastforce simp: dc_Upsert_indexes [OF assms(1)] dc_Upsert_value dc_Upsert_ids)+

subsection \<open>Searching\<close>

text \<open>The documents that match, one for each id.\<close>

definition dc_matches :: "('a option \<Rightarrow> string) \<Rightarrow> string \<Rightarrow> 'a option \<Rightarrow> 'a doc_store \<Rightarrow> 'a document multiset" where
  "dc_matches sp field v s =
     image_mset (gm_get fmempty (dc_docs s)) (mset_set {i \<in> dc_ids s. dc_value sp s field i = sp v})"

lemma dc_ids_finite [simp]: "finite (dc_ids s)"
  by (simp add: dc_ids_def)

lemma mset_range_order: "range_orders ord \<Longrightarrow> mset (ord n S) = mset_set (fset S)"
  using mset_set_set [OF range_orders_distinct] by (metis range_orders_set)

lemma dc_find_scan:
  assumes "range_orders ord" "fmlookup (dc_indexes s) field = None"
  shows "mset (dc_FindByField ord sp field v s) = dc_matches sp field v s"
proof -
  have "dc_FindByField ord sp field v s =
     map (gm_get fmempty (dc_docs s)) (filter (\<lambda>i. dc_value sp s field i = sp v) (ord 1 (fmdom (dc_docs s))))"
    by (simp add: dc_FindByField_def assms(2) filter_map comp_def dc_value_def)
  then show ?thesis
    by (simp add: dc_matches_def mset_range_order [OF assms(1)] dc_ids_def)
qed

lemma dc_find_indexed:
  assumes "range_orders ord" "fmlookup (dc_indexes s) field = Some ix"
  shows "mset (dc_FindByField ord sp field v s) =
     image_mset (gm_get fmempty (dc_docs s)) (mset_set {i. ix_has ix (sp v) i})"
  by (simp add: dc_FindByField_def assms(2) mset_range_order [OF assms(1)] ix_has_def)

subsection \<open>Sequences of calls\<close>

datatype 'a doc_op = DocIndex string | DocUpsert string "'a document"

definition dc_run :: "key_orders \<Rightarrow> ('a option \<Rightarrow> string) \<Rightarrow> 'a doc_op list \<Rightarrow> 'a doc_store" where
  "dc_run ord sp ops = fold (\<lambda>c. case c of DocIndex f \<Rightarrow> dc_CreateIndex ord sp f
     | DocUpsert i d \<Rightarrow> dc_Upsert ord sp i d) ops NewDocumentStore"

definition upserted :: "'a doc_op list \<Rightarrow> string list" where
  "upserted ops = List.map_filter (\<lambda>c. case c of DocUpsert i d \<Rightarrow> Some i | _ \<Rightarrow> None) ops"

lemma upserted_snoc [simp]:
  "upserted [] = []"
  "upserted (ops @ [DocIndex f]) = upserted ops"
  "upserted (ops @ [DocUpsert i d]) = upserted ops @ [i]"
  by (simp_all add: upserted_def List.map_filter_def)

lemma dc_run_ok:
  assumes "range_orders ord"
  shows "dc_inv sp (dc_run ord sp ops) \<and> dc_ids (dc_run ord sp ops) = set (upserted ops) \<and>
     (distinct (upserted ops) \<longrightarrow> dc_exact sp (dc_run ord sp ops))"
proof (induction ops rule: rev_induct)
  case Nil
  show ?case by (simp add: dc_run_def NewDocumentStore_def dc_inv_def dc_exact_def dc_ids_def)
next
  case (snoc c ops)
  note ok = dc_CreateIndex_ok [OF assms] dc_Upsert_ok [OF assms] dc_Upsert_ids
  show ?case
  proof (cases c)
    case (DocIndex f)
    have "dc_run ord sp (ops @ [c]) = dc_CreateIndex ord sp f (dc_run ord sp ops)"
      by (simp add: dc_run_def DocIndex)
    then show ?thesis using snoc by (auto simp: DocIndex ok)
  next
    case (DocUpsert i d)
    have "dc_run ord sp (ops @ [c]) = dc_Upsert ord sp i d (dc_run ord sp ops)"
      by (simp add: dc_run_def DocUpsert)
    then show ?thesis using snoc by (auto simp: DocUpsert ok)
  qed
qed

text \<open>
  C28. After any calls \<open>FindByField\<close> returns every matching document, as often as ids have it; and it
  returns nothing else if the field has no index, or if no document was ever updated.
\<close>
theorem dc_FindByField_matches:
  fixes sp :: "'a option \<Rightarrow> string" and ops :: "'a doc_op list"
  assumes "range_orders ord"
  defines "s \<equiv> dc_run ord sp ops"
  shows "dc_matches sp field v s \<subseteq># mset (dc_FindByField ord sp field v s) \<and>
    (fmlookup (dc_indexes s) field = None \<or> distinct (upserted ops) \<longrightarrow>
       mset (dc_FindByField ord sp field v s) = dc_matches sp field v s)"
proof (cases "fmlookup (dc_indexes s) field")
  case None
  then show ?thesis using dc_find_scan [OF assms(1) None, of sp v] by simp
next
  case (Some ix)
  let ?M = "{i \<in> dc_ids s. dc_value sp s field i = sp v}" and ?I = "{i. ix_has ix (sp v) i}"
  have inv: "dc_inv sp s" and exact: "distinct (upserted ops) \<Longrightarrow> dc_exact sp s"
    using dc_run_ok [OF assms(1), of sp ops] by (auto simp: s_def)
  have sub: "?M \<subseteq> ?I" and fin: "?I \<subseteq> dc_ids s"
    using inv Some unfolding dc_inv_def by force+
  have "mset_set ?M \<subseteq># mset_set ?I"
    using sub finite_subset [OF fin dc_ids_finite] by (rule subset_imp_msubset_mset_set)
  then have "dc_matches sp field v s \<subseteq># mset (dc_FindByField ord sp field v s)"
    by (simp add: dc_find_indexed [OF assms(1) Some] dc_matches_def image_mset_subseteq_mono)
  moreover have "?I = ?M" if "distinct (upserted ops)"
    using exact [OF that] Some sub fin unfolding dc_exact_def by force
  ultimately show ?thesis
    using Some by (simp add: dc_find_indexed [OF assms(1) Some] dc_matches_def)
qed

lemma dc_FindByField_matches_witness:
  "mset (dc_FindByField (\<lambda>n. sorted_list_of_fset) (case_option ''<nil>'' id) ''city'' (Some ''Rome'')
     (dc_run (\<lambda>n. sorted_list_of_fset) (case_option ''<nil>'' id)
       [DocIndex ''city'', DocUpsert ''a'' (fmupd ''city'' (Some ''Rome'') fmempty)]))
   = dc_matches (case_option ''<nil>'' id) ''city'' (Some ''Rome'')
      (dc_run (\<lambda>n. sorted_list_of_fset) (case_option ''<nil>'' id)
       [DocIndex ''city'', DocUpsert ''a'' (fmupd ''city'' (Some ''Rome'') fmempty)])"
  using dc_FindByField_matches [OF range_orders_sorted, where sp = "case_option ''<nil>'' id" and v = "Some ''Rome''" and field = "''city''"
      and ops = "[DocIndex ''city'', DocUpsert ''a'' (fmupd ''city'' (Some ''Rome'') fmempty)]"]
  by (simp add: upserted_def List.map_filter_def)

text \<open>With an update, the index answers with a document that no longer matches.\<close>

lemma dc_stale_index:
  "let sp = case_option ''<nil>'' id;
       s = dc_run (\<lambda>n. sorted_list_of_fset) sp [DocIndex ''city'',
         DocUpsert ''a'' (fmupd ''city'' (Some ''Rome'') fmempty),
         DocUpsert ''a'' (fmupd ''city'' (Some ''Oslo'') fmempty)]
   in map (\<lambda>d. gm_get None d ''city'') (dc_FindByField (\<lambda>n. sorted_list_of_fset) sp ''city'' (Some ''Rome'') s)
      = [Some ''Oslo'']"
  by code_simp

end
