(* ===== verification/Graph_Database.thy ===== *)
theory Graph_Database
  imports Go_Prelude
begin

text \<open>
  \<open>src/28-Graph-Database/main.go\<close>: a graph as adjacency maps, with the shortest path by
  breadth-first search. The properties of a node are a Go map that may be nil (\<open>None\<close>); a node with nil
  properties counts as absent. A write to a nil map panics. The loop of \<open>ShortestPath\<close> is a partial function,
  and the theorem includes that it returns.
\<close>

record graph_db =
  gd_nodes :: "(string, (string, string) gomap option) gomap"
  gd_edges :: "(string, (string, bool) gomap) gomap"

definition NewGraphDatabase :: graph_db where
  "NewGraphDatabase = \<lparr>gd_nodes = fmempty, gd_edges = fmempty\<rparr>"

definition gd_AddNode :: "string \<Rightarrow> (string, string) gomap option \<Rightarrow> graph_db \<Rightarrow> graph_db" where
  "gd_AddNode n props g =
     (let g = g\<lparr>gd_nodes := fmupd n props (gd_nodes g)\<rparr> in
      if fmlookup (gd_edges g) n = None then g\<lparr>gd_edges := fmupd n fmempty (gd_edges g)\<rparr> else g)"

definition gd_link :: "string \<Rightarrow> string \<Rightarrow> graph_db \<Rightarrow> graph_db outcome" where
  "gd_link a b g = (case fmlookup (gd_edges g) a of
      None \<Rightarrow> Inl NilMapWrite
    | Some adj \<Rightarrow> Inr (g\<lparr>gd_edges := fmupd a (fmupd b True adj) (gd_edges g)\<rparr>))"

definition gd_AddEdge :: "string \<Rightarrow> string \<Rightarrow> bool \<Rightarrow> graph_db \<Rightarrow> graph_db outcome" where
  "gd_AddEdge src dst directed g =
     (let g = (if gm_get None (gd_nodes g) src = None then gd_AddNode src (Some fmempty) g else g);
          g = (if gm_get None (gd_nodes g) dst = None then gd_AddNode dst (Some fmempty) g else g)
      in and_then (gd_link src dst g) (\<lambda>g. if \<not> directed then gd_link dst src g else Inr g))"

text \<open>\<open>for next := range g.edges[node]\<close>\<close>

fun gd_expand :: "string list \<Rightarrow> string list \<Rightarrow> string list list \<times> (string, bool) gomap \<Rightarrow>
    string list list \<times> (string, bool) gomap" where
  "gd_expand path [] qs = qs"
| "gd_expand path (nx # nxs) (queue, seen) =
     gd_expand path nxs
       (if gm_get False seen nx then (queue, seen) else (queue @ [path @ [nx]], fmupd nx True seen))"

text \<open>The result of the loop is a path or nil; the outer option is whether it returns.\<close>

partial_function (option) gd_search :: "(nat \<Rightarrow> string fset \<Rightarrow> string list) \<Rightarrow> nat \<Rightarrow>
    (string, (string, bool) gomap) gomap \<Rightarrow> string \<Rightarrow> string list list \<Rightarrow> (string, bool) gomap \<Rightarrow> string list option option" where
  "gd_search ord n es dst queue seen =
     (if queue = [] then Some None
      else let path = hd queue; node = List.last path in
        if node = dst then Some (Some path)
        else let qs = gd_expand path (ord n (fmdom (gm_get fmempty es node))) (tl queue, seen) in
          gd_search ord (n + 1) es dst (fst qs) (snd qs))"

declare gd_search.simps [code]

definition gd_ShortestPath :: "(nat \<Rightarrow> string fset \<Rightarrow> string list) \<Rightarrow> string \<Rightarrow> string \<Rightarrow> graph_db \<Rightarrow> string list option option" where
  "gd_ShortestPath ord src dst g =
     (if gm_get None (gd_nodes g) src = None then Some None
      else if gm_get None (gd_nodes g) dst = None then Some None
      else gd_search ord 0 (gd_edges g) dst [[src]] (fmupd src True fmempty))"

subsection \<open>Building the graph\<close>

text \<open>Every node has an adjacency map, so no write panics.\<close>

definition gd_inv :: "graph_db \<Rightarrow> bool" where
  "gd_inv g \<longleftrightarrow> fmdom (gd_nodes g) |\<subseteq>| fmdom (gd_edges g)"

definition edge :: "(string, (string, bool) gomap) gomap \<Rightarrow> string \<Rightarrow> string \<Rightarrow> bool" where
  "edge es a b \<longleftrightarrow> b \<in> fset (fmdom (gm_get fmempty es a))"

abbreviation present :: "graph_db \<Rightarrow> string \<Rightarrow> bool" where
  "present g n \<equiv> gm_get None (gd_nodes g) n \<noteq> None"

lemma gd_New_ok: "gd_inv NewGraphDatabase"
  by (simp add: gd_inv_def NewGraphDatabase_def)

lemma gd_AddNode_ok:
  assumes "gd_inv g"
  shows "gd_inv (gd_AddNode n p g)" "edge (gd_edges (gd_AddNode n p g)) a b = edge (gd_edges g) a b"
    "present (gd_AddNode n p g) m \<longleftrightarrow> (if m = n then p \<noteq> None else present g m)"
    "fmlookup (gd_edges (gd_AddNode n p g)) n \<noteq> None"
    "fmlookup (gd_edges g) m \<noteq> None \<Longrightarrow> fmlookup (gd_edges (gd_AddNode n p g)) m \<noteq> None"
  using assms by (auto simp: gd_inv_def gd_AddNode_def Let_def edge_def gm_get_def fmlookup_dom_iff
      fmdom_notI split: option.splits)

lemma gd_link_ok:
  assumes "gd_inv g" "fmlookup (gd_edges g) a \<noteq> None"
  shows "\<exists>g'. gd_link a b g = Inr g' \<and> gd_inv g' \<and> gd_nodes g' = gd_nodes g \<and>
    (\<forall>x y. edge (gd_edges g') x y \<longleftrightarrow> edge (gd_edges g) x y \<or> x = a \<and> y = b) \<and>
    (\<forall>m. fmlookup (gd_edges g) m \<noteq> None \<longrightarrow> fmlookup (gd_edges g') m \<noteq> None)"
  using assms by (auto simp: gd_inv_def gd_link_def edge_def gm_get_def fmlookup_dom_iff split: option.splits)

lemma gd_present_edges: "gd_inv g \<Longrightarrow> present g n \<Longrightarrow> fmlookup (gd_edges g) n \<noteq> None"
proof (cases "fmlookup (gd_nodes g) n")
  case (Some p)
  moreover assume "gd_inv g"
  ultimately have "n |\<in>| fmdom (gd_edges g)" by (auto simp: gd_inv_def dest: fmdomI)
  then show ?thesis by (simp add: fmlookup_dom_iff)
qed (simp add: gm_get_def)

lemma gd_ensure:
  fixes n :: string
  assumes "gd_inv g"
  defines "g' \<equiv> if gm_get None (gd_nodes g) n = None then gd_AddNode n (Some fmempty) g else g"
  shows "gd_inv g'" "present g' m \<longleftrightarrow> present g m \<or> m = n" "fmlookup (gd_edges g') n \<noteq> None"
    "edge (gd_edges g') a b = edge (gd_edges g) a b"
    "fmlookup (gd_edges g) m \<noteq> None \<Longrightarrow> fmlookup (gd_edges g') m \<noteq> None"
  using gd_AddNode_ok [OF assms(1)] gd_present_edges [OF assms(1)] assms(1) by (auto simp: g'_def)

lemma gd_AddEdge_ok:
  assumes "gd_inv g"
  obtains g' where "gd_AddEdge a b directed g = Inr g'" "gd_inv g'"
    "\<And>x y. edge (gd_edges g') x y \<longleftrightarrow> edge (gd_edges g) x y \<or> (x = a \<and> y = b) \<or> (\<not> directed \<and> x = b \<and> y = a)"
    "\<And>m. present g' m \<longleftrightarrow> present g m \<or> m = a \<or> m = b"
proof -
  define g1 where "g1 = (if gm_get None (gd_nodes g) a = None then gd_AddNode a (Some fmempty) g else g)"
  define g2 where "g2 = (if gm_get None (gd_nodes g1) b = None then gd_AddNode b (Some fmempty) g1 else g1)"
  note e1 = gd_ensure [OF assms(1), of a, folded g1_def]
  note e2 = gd_ensure [OF e1(1), of b, folded g2_def]
  have in_a: "fmlookup (gd_edges g2) a \<noteq> None" unfolding g2_def by (rule gd_ensure(5) [OF e1(1) e1(3)])
  obtain g3 where g3: "gd_link a b g2 = Inr g3" "gd_inv g3" "gd_nodes g3 = gd_nodes g2"
    "\<forall>x y. edge (gd_edges g3) x y \<longleftrightarrow> edge (gd_edges g2) x y \<or> x = a \<and> y = b"
    "fmlookup (gd_edges g3) b \<noteq> None"
    using gd_link_ok [OF e2(1) in_a, of b] e2(3) by blast
  have run: "gd_AddEdge a b directed g = (if \<not> directed then gd_link b a g3 else Inr g3)"
  proof -
    have "gd_AddEdge a b directed g =
       and_then (gd_link a b g2) (\<lambda>g. if \<not> directed then gd_link b a g else Inr g)"
      unfolding gd_AddEdge_def Let_def g1_def [symmetric] g2_def [symmetric] by (rule refl)
    then show ?thesis by (simp only: g3(1) and_then_simps)
  qed
  have pres: "present g3 m \<longleftrightarrow> present g m \<or> m = a \<or> m = b" for m
    using e1(2) e2(2) g3(3) by auto
  show ?thesis
  proof (cases directed)
    case True
    then show ?thesis using that [of g3] run g3(2,4) pres e1(4) e2(4) by simp
  next
    case False
    obtain g4 where "gd_link b a g3 = Inr g4" "gd_inv g4" "gd_nodes g4 = gd_nodes g3"
      "\<forall>x y. edge (gd_edges g4) x y \<longleftrightarrow> edge (gd_edges g3) x y \<or> x = b \<and> y = a"
      using gd_link_ok [OF g3(2,5), of a] by blast
    then show ?thesis using that [of g4] run g3(4) pres e1(4) e2(4) False by simp
  qed
qed

datatype gd_op = GdNode string "(string, string) gomap option" | GdEdge string string bool

definition gd_step :: "gd_op \<Rightarrow> graph_db \<Rightarrow> graph_db outcome" where
  "gd_step c g = (case c of GdNode n p \<Rightarrow> Inr (gd_AddNode n p g) | GdEdge a b d \<Rightarrow> gd_AddEdge a b d g)"

definition gd_joins :: "gd_op list \<Rightarrow> string \<Rightarrow> string \<Rightarrow> bool" where
  "gd_joins ops a b \<longleftrightarrow> (\<exists>d. GdEdge a b d \<in> set ops) \<or> GdEdge b a False \<in> set ops"

text \<open>Any calls build, without a panic, the graph with the edges that were added.\<close>

lemma gd_build:
  "gd_inv g \<Longrightarrow> \<exists>g'. each gd_step ops g = Inr g' \<and> gd_inv g' \<and>
     (\<forall>a b. edge (gd_edges g') a b \<longleftrightarrow> edge (gd_edges g) a b \<or> gd_joins ops a b)"
proof (induction ops arbitrary: g)
  case Nil
  then show ?case by (simp add: gd_joins_def)
next
  case (Cons c ops)
  have joins: "gd_joins (c # ops) a b \<longleftrightarrow> gd_joins [c] a b \<or> gd_joins ops a b" for a b
    by (auto simp: gd_joins_def)
  obtain g1 where g1: "gd_step c g = Inr g1" "gd_inv g1"
    "\<And>a b. edge (gd_edges g1) a b \<longleftrightarrow> edge (gd_edges g) a b \<or> gd_joins [c] a b"
  proof (cases c)
    case (GdNode n p)
    then show ?thesis
      using that [of "gd_AddNode n p g"] gd_AddNode_ok [OF Cons.prems] by (simp add: gd_step_def gd_joins_def)
  next
    case (GdEdge a b d)
    obtain g1 where "gd_AddEdge a b d g = Inr g1" "gd_inv g1"
      "\<And>x y. edge (gd_edges g1) x y \<longleftrightarrow> edge (gd_edges g) x y \<or> (x = a \<and> y = b) \<or> (\<not> d \<and> x = b \<and> y = a)"
      using gd_AddEdge_ok [OF Cons.prems] by metis
    then show ?thesis using that [of g1] GdEdge by (auto simp: gd_step_def gd_joins_def)
  qed
  from Cons.IH [OF g1(2)] show ?case by (auto simp: g1(1,3) joins)
qed

subsection \<open>Breadth-first search\<close>

definition is_path :: "(string, (string, bool) gomap) gomap \<Rightarrow> string \<Rightarrow> string list \<Rightarrow> string \<Rightarrow> bool" where
  "is_path es a p b \<longleftrightarrow> p \<noteq> [] \<and> hd p = a \<and> List.last p = b \<and> successively (edge es) p"

lemma is_path_snoc:
  "is_path es a (p @ [y]) z \<longleftrightarrow> z = y \<and> (if p = [] then y = a else is_path es a p (List.last p) \<and> edge es (List.last p) y)"
  by (auto simp: is_path_def successively_append_iff)

lemma gd_expand_eq:
  "\<exists>new. gd_expand path nxs (queue, seen) = (queue @ map (\<lambda>x. path @ [x]) new, snd (gd_expand path nxs (queue, seen)))
     \<and> distinct new \<and> set new = {x \<in> set nxs. \<not> gm_get False seen x} \<and>
     (\<forall>x. gm_get False (snd (gd_expand path nxs (queue, seen))) x \<longleftrightarrow> gm_get False seen x \<or> x \<in> set nxs)"
proof (induction nxs arbitrary: queue seen)
  case (Cons y ys)
  show ?case
  proof (cases "gm_get False seen y")
    case True
    then show ?thesis using Cons.IH [of queue seen] by auto
  next
    case False
    let ?s = "fmupd y True seen" let ?e = "gd_expand path ys (queue @ [path @ [y]], ?s)"
    obtain new where new: "?e = ((queue @ [path @ [y]]) @ map (\<lambda>x. path @ [x]) new, snd ?e)"
      "distinct new" "set new = {x \<in> set ys. \<not> gm_get False ?s x}"
      "\<forall>x. gm_get False (snd ?e) x \<longleftrightarrow> gm_get False ?s x \<or> x \<in> set ys"
      using Cons.IH [of "queue @ [path @ [y]]" ?s] by blast
    show ?thesis
      by (rule exI [of _ "y # new"]) (use new False in \<open>auto split: if_splits\<close>)
  qed
qed simp

definition bfs_inv :: "(string, (string, bool) gomap) gomap \<Rightarrow> string \<Rightarrow> string \<Rightarrow> string list list \<Rightarrow> string set \<Rightarrow> bool" where
  "bfs_inv es src dst queue S \<longleftrightarrow> src \<in> S \<and>
     (\<forall>p \<in> set queue. is_path es src p (List.last p) \<and> List.last p \<in> S \<and>
        (\<forall>q. is_path es src q (List.last p) \<longrightarrow> length p \<le> length q)) \<and>
     sorted (map length queue) \<and> (\<forall>p \<in> set queue. length p \<le> length (hd queue) + 1) \<and>
     (\<forall>x \<in> S. (\<exists>p \<in> set queue. List.last p = x) \<or> (x \<noteq> dst \<and> (\<forall>y. edge es x y \<longrightarrow> y \<in> S)))"

text \<open>A path out of the seen nodes leaves them at a node whose path is still in the queue.\<close>

lemma bfs_frontier:
  assumes "bfs_inv es src dst queue S"
  shows "is_path es src q y \<Longrightarrow> y \<notin> S \<Longrightarrow>
     \<exists>p \<in> set queue. \<exists>r. is_path es src r (List.last p) \<and> length r < length q"
proof (induction q arbitrary: y rule: rev_induct)
  case Nil
  then show ?case by (simp add: is_path_def)
next
  case (snoc z q)
  then have "q \<noteq> []" using assms by (auto simp: is_path_snoc bfs_inv_def)
  then have q: "is_path es src q (List.last q)" "edge es (List.last q) y"
    using snoc.prems(1) by (auto simp: is_path_snoc)
  show ?case
  proof (cases "List.last q \<in> S")
    case True
    then obtain p where "p \<in> set queue" "List.last p = List.last q"
      using assms q(2) snoc.prems(2) unfolding bfs_inv_def by blast
    then show ?thesis using q(1) by (intro bexI [of _ p] exI [of _ q]) auto
  next
    case False
    obtain p r where "p \<in> set queue" "is_path es src r (List.last p)" "length r < length q"
      using snoc.IH [OF q(1) False] by blast
    then show ?thesis by (intro bexI [of _ p] exI [of _ r]) auto
  qed
qed

lemma bfs_inv_step:
  assumes inv: "bfs_inv es src dst (path # queue) S" and "List.last path \<noteq> dst"
    and new: "set new = {x. edge es (List.last path) x} - S"
  shows "bfs_inv es src dst (queue @ map (\<lambda>x. path @ [x]) new) (S \<union> {x. edge es (List.last path) x})"
proof -
  let ?Q = "queue @ map (\<lambda>x. path @ [x]) new"
  have path: "is_path es src path (List.last path)" and
    q: "\<And>p. p \<in> set queue \<Longrightarrow> length path \<le> length p \<and> length p \<le> length path + 1" and
    srt: "sorted (map length queue)"
    using inv by (auto simp: bfs_inv_def)
  have short: "length path + 1 \<le> length r" if x: "x \<in> set new" and r: "is_path es src r x" for x r
  proof -
    have "x \<notin> S" using x new by simp
    then obtain p r' where "p \<in> set (path # queue)" "is_path es src r' (List.last p)" "length r' < length r"
      using bfs_frontier [OF inv r] by blast
    moreover from this have "length p \<le> length r'" using inv unfolding bfs_inv_def by blast
    moreover have "length path \<le> length p" using q \<open>p \<in> set (path # queue)\<close> by auto
    ultimately show ?thesis by simp
  qed
  have paths: "is_path es src p (List.last p) \<and> List.last p \<in> S \<union> {x. edge es (List.last path) x} \<and>
      (\<forall>r. is_path es src r (List.last p) \<longrightarrow> length p \<le> length r)" if p: "p \<in> set ?Q" for p
  proof (cases "p \<in> set queue")
    case True
    then show ?thesis using inv unfolding bfs_inv_def by auto
  next
    case False
    then obtain x where x: "x \<in> set new" "p = path @ [x]" using p by auto
    have "path \<noteq> []" using path by (simp add: is_path_def)
    then show ?thesis using x path new short by (auto simp: is_path_snoc)
  qed
  have "map length (map (\<lambda>x. path @ [x]) new) = replicate (length new) (length path + 1)"
    by (simp add: comp_def map_replicate_const)
  then have lens: "sorted (map length ?Q)" using srt q by (auto simp: sorted_append)
  have "length path \<le> length (hd ?Q)" if "?Q \<noteq> []"
    using that q by (cases queue; cases new) auto
  then have bound: "\<forall>p \<in> set ?Q. length p \<le> length (hd ?Q) + 1" using q by fastforce
  have closed: "(\<exists>p \<in> set ?Q. List.last p = x) \<or>
      (x \<noteq> dst \<and> (\<forall>y. edge es x y \<longrightarrow> y \<in> S \<union> {x. edge es (List.last path) x}))"
    if x: "x \<in> S \<union> {x. edge es (List.last path) x}" for x
  proof (cases "x \<in> set new")
    case True
    then have "path @ [x] \<in> set ?Q" by simp
    then show ?thesis by (intro disjI1 bexI [of _ "path @ [x]"]) simp_all
  next
    case False
    then have xS: "x \<in> S" using x unfolding new by blast
    have "(\<exists>p \<in> set (path # queue). List.last p = x) \<or> (x \<noteq> dst \<and> (\<forall>y. edge es x y \<longrightarrow> y \<in> S))"
      using inv xS unfolding bfs_inv_def by blast
    then consider "x = List.last path" | p where "p \<in> set queue" "List.last p = x"
      | "x \<noteq> dst" "\<forall>y. edge es x y \<longrightarrow> y \<in> S"
      by (elim disjE bexE) (simp, metis, blast)
    then show ?thesis
    proof cases
      case 1
      then have "x \<noteq> dst" "{y. edge es x y} \<subseteq> {y. edge es (List.last path) y}" using assms(2) by simp_all
      then show ?thesis by blast
    next
      case 2
      then have "p \<in> set ?Q" by simp
      then show ?thesis using 2(2) by blast
    next
      case 3
      then show ?thesis by blast
    qed
  qed
  have "src \<in> S" using inv by (simp add: bfs_inv_def)
  then show ?thesis unfolding bfs_inv_def using paths lens bound closed by auto
qed

lemma edge_finite: "finite {b. \<exists>a. edge es a b}"
proof -
  have "{b. \<exists>a. edge es a b} \<subseteq> (\<Union>adj \<in> fset (fmran es). fset (fmdom adj))"
    by (auto simp: edge_def gm_get_def fmranI split: option.splits intro!: bexI)
  then show ?thesis by (rule finite_subset) simp
qed

lemma gd_search_ok:
  assumes "range_orders ord" "bfs_inv es src dst queue {x. gm_get False seen x}"
  shows "\<exists>r. gd_search ord n es dst queue seen = Some r \<and>
    (case r of None \<Rightarrow> \<forall>q. \<not> is_path es src q dst
     | Some p \<Rightarrow> is_path es src p dst \<and> (\<forall>q. is_path es src q dst \<longrightarrow> length p \<le> length q))"
  using assms(2)
proof (induction "2 * card ({b. \<exists>a. edge es a b} - {x. gm_get False seen x}) + length queue"
    arbitrary: queue seen n rule: less_induct)
  case less
  let ?S = "{x. gm_get False seen x}" and ?T = "{b. \<exists>a. edge es a b}"
  note inv = less.prems
  show ?case
  proof (cases queue)
    case Nil
    have "\<not> is_path es src q dst" for q
      using bfs_frontier [OF inv, of q dst] inv unfolding Nil bfs_inv_def by auto
    then show ?thesis by (subst gd_search.simps) (simp add: Nil)
  next
    case (Cons path rest)
    show ?thesis
    proof (cases "List.last path = dst")
      case True
      have "is_path es src path dst" "\<forall>q. is_path es src q dst \<longrightarrow> length path \<le> length q"
        using inv True unfolding Cons bfs_inv_def by auto
      then show ?thesis using True by (subst gd_search.simps) (simp add: Cons)
    next
      case False
      let ?adj = "{x. edge es (List.last path) x}"
      let ?nx = "ord n (fmdom (gm_get fmempty es (List.last path)))"
      let ?e = "gd_expand path ?nx (rest, seen)"
      have nx: "set ?nx = ?adj" by (auto simp: range_orders_set [OF assms(1)] edge_def)
      obtain new where new: "?e = (rest @ map (\<lambda>x. path @ [x]) new, snd ?e)" "distinct new"
        "set new = {x \<in> set ?nx. \<not> gm_get False seen x}"
        "\<forall>x. gm_get False (snd ?e) x \<longleftrightarrow> gm_get False seen x \<or> x \<in> set ?nx"
        using gd_expand_eq by blast
      have sn: "set new = ?adj - ?S" using new(3) nx by auto
      have seen': "{x. gm_get False (snd ?e) x} = ?S \<union> ?adj" using new(4) nx by auto
      have inv': "bfs_inv es src dst (fst ?e) {x. gm_get False (snd ?e) x}"
        unfolding seen' using bfs_inv_step [OF inv [unfolded Cons] False sn] by (subst new(1)) simp
      have "?T - (?S \<union> ?adj) = (?T - ?S) - set new" "set new \<subseteq> ?T - ?S" using sn by auto
      then have "card (?T - ?S) = card (?T - (?S \<union> ?adj)) + length new"
        using card_Diff_subset [of "set new" "?T - ?S"] card_mono [of "?T - ?S" "set new"]
          edge_finite [of es] distinct_card [OF new(2)] by simp
      moreover have "length (fst ?e) = length rest + length new" by (subst new(1)) simp
      ultimately have "2 * card (?T - {x. gm_get False (snd ?e) x}) + length (fst ?e)
          < 2 * card (?T - ?S) + length queue"
        unfolding seen' Cons by simp
      from less.hyps [OF this inv'] show ?thesis
        using False by (subst gd_search.simps) (simp add: Cons Let_def)
    qed
  qed
qed

text \<open>
  C13. On the graph that any calls of \<open>AddNode\<close> and \<open>AddEdge\<close> build, which never panic,
  \<open>ShortestPath\<close> returns for every order in which the maps are visited: nil if an end is absent or unreachable over the edges
  that were added, and else a path along those edges that no path is shorter than.
\<close>
theorem gd_ShortestPath_shortest:
  assumes "range_orders ord"
  shows "\<exists>g. each gd_step ops NewGraphDatabase = Inr g \<and>
    (\<forall>a b. edge (gd_edges g) a b \<longleftrightarrow> gd_joins ops a b) \<and>
    (\<exists>r. gd_ShortestPath ord src dst g = Some r \<and>
      (case r of None \<Rightarrow> \<not> present g src \<or> \<not> present g dst \<or> (\<forall>q. \<not> is_path (gd_edges g) src q dst)
       | Some p \<Rightarrow> present g src \<and> present g dst \<and> is_path (gd_edges g) src p dst \<and>
           (\<forall>q. is_path (gd_edges g) src q dst \<longrightarrow> length p \<le> length q)))"
proof -
  obtain g where g: "each gd_step ops NewGraphDatabase = Inr g" "gd_inv g"
    "\<forall>a b. edge (gd_edges g) a b \<longleftrightarrow> edge (gd_edges NewGraphDatabase) a b \<or> gd_joins ops a b"
    using gd_build [OF gd_New_ok] by blast
  have "\<not> edge (gd_edges NewGraphDatabase) a b" for a b
    by (simp add: edge_def NewGraphDatabase_def)
  then have e: "\<forall>a b. edge (gd_edges g) a b \<longleftrightarrow> gd_joins ops a b" using g(3) by blast
  have start: "bfs_inv (gd_edges g) src dst [[src]] {x. gm_get False (fmupd src True fmempty) x}"
    by (auto simp: bfs_inv_def is_path_def Suc_le_eq)
  obtain r where r: "gd_search ord 0 (gd_edges g) dst [[src]] (fmupd src True fmempty) = Some r"
    "case r of None \<Rightarrow> \<forall>q. \<not> is_path (gd_edges g) src q dst
     | Some p \<Rightarrow> is_path (gd_edges g) src p dst \<and> (\<forall>q. is_path (gd_edges g) src q dst \<longrightarrow> length p \<le> length q)"
    using gd_search_ok [OF assms start] by blast
  have "\<exists>r. gd_ShortestPath ord src dst g = Some r \<and>
      (case r of None \<Rightarrow> \<not> present g src \<or> \<not> present g dst \<or> (\<forall>q. \<not> is_path (gd_edges g) src q dst)
       | Some p \<Rightarrow> present g src \<and> present g dst \<and> is_path (gd_edges g) src p dst \<and>
           (\<forall>q. is_path (gd_edges g) src q dst \<longrightarrow> length p \<le> length q))"
  proof (cases "present g src \<and> present g dst")
    case True
    then show ?thesis using r by (intro exI [of _ r]) (auto simp: gd_ShortestPath_def split: option.splits)
  next
    case False
    then show ?thesis by (intro exI [of _ None]) (auto simp: gd_ShortestPath_def)
  qed
  then show ?thesis using g(1) e by blast
qed

lemma gd_ShortestPath_shortest_witness:
  "\<exists>g. each gd_step [GdEdge ''a'' ''b'' True, GdEdge ''b'' ''c'' False] NewGraphDatabase = Inr g \<and>
     (\<exists>r. gd_ShortestPath (\<lambda>n. sorted_list_of_fset) ''a'' ''c'' g = Some r)"
  using gd_ShortestPath_shortest [OF range_orders_sorted,
      of "[GdEdge ''a'' ''b'' True, GdEdge ''b'' ''c'' False]" "''a''" "''c''"] by blast

end
