(* ===== verification/Geo_Index.thy ===== *)
theory Geo_Index
  imports Go_Prelude Go_Float
begin

text \<open>
  \<open>src/29-Geospatial-Index/main.go\<close>: points on the sphere, a scan of a bounding box and the nearest
  point by the haversine formula, in float64 arithmetic. \<open>math.Sqrt\<close> is correctly rounded; of \<open>math.Sin\<close>,
  \<open>math.Cos\<close>, \<open>math.Atan2\<close> and \<open>math.Pow\<close>, which are approximations, the model has a record, and the theorems say what
  they need of it.

  Rounding can make the argument of the formula greater than 1 for points on opposite sides of the earth; the distance is NaN then
  and \<open>Nearest\<close> does not compare it (\<open>gi_NaN_first\<close>).
\<close>

record geo_point =
  gp_ID :: string
  gp_Lat :: f64
  gp_Lon :: f64

record geo_index =
  gi_points :: "geo_point list"

definition gi_Insert :: "geo_point \<Rightarrow> geo_index \<Rightarrow> geo_index" where
  "gi_Insert p g = g\<lparr>gi_points := gi_points g @ [p]\<rparr>"

definition gi_Range :: "f64 \<Rightarrow> f64 \<Rightarrow> f64 \<Rightarrow> f64 \<Rightarrow> geo_index \<Rightarrow> geo_point list" where
  "gi_Range minLat minLon maxLat maxLon g =
     filter (\<lambda>p. f_le minLat (gp_Lat p) \<and> f_le (gp_Lat p) maxLat \<and> f_le minLon (gp_Lon p) \<and> f_le (gp_Lon p) maxLon)
       (gi_points g)"

text \<open>The functions of the package \<open>math\<close> that are not correctly rounded.\<close>

record go_math =
  m_Sin :: "f64 \<Rightarrow> f64"
  m_Cos :: "f64 \<Rightarrow> f64"
  m_Atan2 :: "f64 \<Rightarrow> f64 \<Rightarrow> f64"
  m_Pow :: "f64 \<Rightarrow> f64 \<Rightarrow> f64"

definition toRad :: "f64 \<Rightarrow> f64" where
  "toRad v = f_div (f_mul v (f_round pi)) (Fin 180)"

definition haversine_arg :: "go_math \<Rightarrow> f64 \<Rightarrow> f64 \<Rightarrow> f64 \<Rightarrow> f64 \<Rightarrow> f64" where
  "haversine_arg m lat1 lon1 lat2 lon2 =
     (let dLat = toRad (f_sub lat2 lat1); dLon = toRad (f_sub lon2 lon1) in
      f_add (m_Pow m (m_Sin m (f_div dLat (Fin 2))) (Fin 2))
        (f_mul (f_mul (m_Cos m (toRad lat1)) (m_Cos m (toRad lat2))) (m_Pow m (m_Sin m (f_div dLon (Fin 2))) (Fin 2))))"

definition haversine :: "go_math \<Rightarrow> f64 \<Rightarrow> f64 \<Rightarrow> f64 \<Rightarrow> f64 \<Rightarrow> f64" where
  "haversine m lat1 lon1 lat2 lon2 =
     (let a = haversine_arg m lat1 lon1 lat2 lon2 in f_mul (Fin (6371 * 2)) (m_Atan2 m (f_sqrt a) (f_sqrt (f_sub (Fin 1) a))))"

text \<open>The loop over \<open>g.points[1:]\<close>.\<close>

fun gi_best :: "go_math \<Rightarrow> f64 \<Rightarrow> f64 \<Rightarrow> geo_point list \<Rightarrow> geo_point \<Rightarrow> f64 \<Rightarrow> geo_point" where
  "gi_best m lat lon [] best bestDistance = best"
| "gi_best m lat lon (p # ps) best bestDistance =
     (let distance = haversine m lat lon (gp_Lat p) (gp_Lon p) in
      if f_less distance bestDistance then gi_best m lat lon ps p distance
      else gi_best m lat lon ps best bestDistance)"

definition gi_Nearest :: "go_math \<Rightarrow> f64 \<Rightarrow> f64 \<Rightarrow> geo_index \<Rightarrow> geo_point \<times> bool" where
  "gi_Nearest m lat lon g =
     (case gi_points g of
        [] \<Rightarrow> (\<lparr>gp_ID = [], gp_Lat = Fin 0, gp_Lon = Fin 0\<rparr>, False)
      | p # ps \<Rightarrow> (gi_best m lat lon ps p (haversine m lat lon (gp_Lat p) (gp_Lon p)), True))"

subsection \<open>The formula over the reals\<close>

text \<open>What the code approximates.\<close>

definition atan2 :: "real \<Rightarrow> real \<Rightarrow> real" where
  "atan2 y x = (if x > 0 then arctan (y / x)
     else if x < 0 then (if y \<ge> 0 then arctan (y / x) + pi else arctan (y / x) - pi)
     else if y > 0 then pi / 2 else if y < 0 then - pi / 2 else 0)"

definition rad :: "real \<Rightarrow> real" where
  "rad v = v * pi / 180"

definition gc_arg :: "real \<Rightarrow> real \<Rightarrow> real \<Rightarrow> real \<Rightarrow> real" where
  "gc_arg lat1 lon1 lat2 lon2 =
     (let dLat = rad (lat2 - lat1); dLon = rad (lon2 - lon1) in
      sin (dLat / 2) ^ 2 + cos (rad lat1) * cos (rad lat2) * sin (dLon / 2) ^ 2)"

definition gc_distance :: "real \<Rightarrow> real \<Rightarrow> real \<Rightarrow> real \<Rightarrow> real" where
  "gc_distance lat1 lon1 lat2 lon2 =
     (let a = gc_arg lat1 lon1 lat2 lon2 in 6371 * 2 * atan2 (sqrt a) (sqrt (1 - a)))"

lemma gc_half:
  fixes u v :: real
  shows "sin ((v - u) / 2) ^ 2 + cos u * cos v = (1 + cos (u + v)) / 2"
proof -
  define w where "w = (v - u) / 2"
  have "v - u = 2 * w" by (simp add: w_def)
  then have "sin w ^ 2 = (1 - cos (v - u)) / 2" by (simp add: cos_double_sin)
  then have "sin ((v - u) / 2) ^ 2 = (1 - cos (v - u)) / 2" by (simp add: w_def)
  also have "cos (v - u) = cos u * cos v + sin u * sin v" by (simp add: cos_diff mult.commute)
  finally show ?thesis by (simp add: cos_add field_simps)
qed

lemma cos_latitude: "-90 \<le> t \<Longrightarrow> t \<le> 90 \<Longrightarrow> 0 \<le> cos (rad t)"
proof -
  assume t: "-90 \<le> t" "t \<le> 90"
  have "-90 * pi \<le> t * pi" "t * pi \<le> 90 * pi"
    using mult_right_mono [OF t(1) pi_ge_zero] mult_right_mono [OF t(2) pi_ge_zero] by simp_all
  then have "- (pi / 2) \<le> rad t" "rad t \<le> pi / 2" by (simp_all add: rad_def)
  then show ?thesis by (rule cos_ge_zero)
qed

lemma gc_arg_range:
  assumes "-90 \<le> lat1" "lat1 \<le> 90" "-90 \<le> lat2" "lat2 \<le> 90"
  shows "0 \<le> gc_arg lat1 lon1 lat2 lon2" "gc_arg lat1 lon1 lat2 lon2 \<le> 1"
proof -
  let ?u = "rad lat1" and ?v = "rad lat2" let ?c = "cos ?u * cos ?v"
  have c: "0 \<le> ?c" using cos_latitude assms by simp
  have d: "rad (lat2 - lat1) / 2 = (?v - ?u) / 2" by (simp add: rad_def field_simps)
  show "0 \<le> gc_arg lat1 lon1 lat2 lon2"
    using c by (simp add: gc_arg_def Let_def)
  have "sin (rad (lon2 - lon1) / 2) ^ 2 \<le> 1"
    by (metis abs_square_le_1 abs_sin_le_one)
  then have "?c * sin (rad (lon2 - lon1) / 2) ^ 2 \<le> ?c" using c by (simp add: mult_left_le)
  then have "gc_arg lat1 lon1 lat2 lon2 \<le> (1 + cos (?u + ?v)) / 2"
    by (simp add: gc_arg_def Let_def d flip: gc_half)
  also have "\<dots> \<le> 1" using cos_le_one [of "?u + ?v"] by simp
  finally show "gc_arg lat1 lon1 lat2 lon2 \<le> 1" .
qed

text \<open>
  For valid latitudes both square roots are of numbers in the unit interval, and the distance lies between
  0 and half the circumference; it is symmetric, and 0 from a point to itself.
\<close>
lemma gc_range:
  assumes "-90 \<le> lat1" "lat1 \<le> 90" "-90 \<le> lat2" "lat2 \<le> 90"
  shows "gc_arg lat1 lon1 lat2 lon2 \<in> {0..1} \<and> 0 \<le> gc_distance lat1 lon1 lat2 lon2 \<and>
     gc_distance lat1 lon1 lat2 lon2 \<le> 6371 * pi \<and>
     gc_distance lat2 lon2 lat1 lon1 = gc_distance lat1 lon1 lat2 lon2 \<and> gc_distance lat1 lon1 lat1 lon1 = 0"
proof -
  let ?a = "gc_arg lat1 lon1 lat2 lon2"
  note a = gc_arg_range [OF assms, of lon1 lon2]
  have at: "0 \<le> atan2 (sqrt ?a) (sqrt (1 - ?a)) \<and> atan2 (sqrt ?a) (sqrt (1 - ?a)) \<le> pi / 2"
    using a arctan_ubound [of "sqrt ?a / sqrt (1 - ?a)"] by (auto simp: atan2_def less_imp_le)
  have "sin (rad (y - x) / 2) = - sin (rad (x - y) / 2)" for x y
  proof -
    have "rad (y - x) / 2 = - (rad (x - y) / 2)" by (simp add: rad_def field_simps)
    then show ?thesis by (simp only: sin_minus)
  qed
  then have sq: "sin (rad (y - x) / 2) ^ 2 = sin (rad (x - y) / 2) ^ 2" for x y
    by (metis power2_minus)
  have "gc_arg lat2 lon2 lat1 lon1 = ?a"
    unfolding gc_arg_def Let_def sq [of lat2 lat1] sq [of lon2 lon1]
    by (simp only: mult.commute [of "cos (rad lat2)"])
  moreover have "gc_distance lat1 lon1 lat1 lon1 = 0"
    by (simp add: gc_distance_def gc_arg_def rad_def atan2_def)
  ultimately show ?thesis using a at by (simp add: gc_distance_def Let_def)
qed

subsection \<open>Searching\<close>

text \<open>What is documented of \<open>math.Atan2\<close>: the result is NaN only if an argument is.\<close>

definition math_doc :: "go_math \<Rightarrow> bool" where
  "math_doc m \<longleftrightarrow> (\<forall>y x. m_Atan2 m y x = NaN \<longrightarrow> y = NaN \<or> x = NaN)"

definition f_in_unit :: "f64 \<Rightarrow> bool" where
  "f_in_unit a \<longleftrightarrow> f_le (Fin 0) a \<and> f_le a (Fin 1)"

lemma haversine_number:
  assumes "math_doc m" "f_in_unit (haversine_arg m lat1 lon1 lat2 lon2)"
  shows "haversine m lat1 lon1 lat2 lon2 \<noteq> NaN"
proof -
  obtain a where a: "haversine_arg m lat1 lon1 lat2 lon2 = Fin a" "0 \<le> a" "a \<le> 1"
    using assms(2) by (cases "haversine_arg m lat1 lon1 lat2 lon2") (auto simp: f_in_unit_def)
  have "f_sqrt (f_round (1 - a)) \<noteq> NaN"
    using f_round_sign(1) [of "1 - a"] f_round_overflow [of "1 - a"] a by (cases "f_round (1 - a)") auto
  then have "m_Atan2 m (f_sqrt (Fin a)) (f_sqrt (f_sub (Fin 1) (Fin a))) \<noteq> NaN"
    using assms(1) a unfolding math_doc_def by (fastforce simp: f_sub_def)
  then show ?thesis
    by (cases "m_Atan2 m (f_sqrt (Fin a)) (f_sqrt (f_sub (Fin 1) (Fin a)))") (simp_all add: haversine_def a(1))
qed

abbreviation gi_dist :: "go_math \<Rightarrow> f64 \<Rightarrow> f64 \<Rightarrow> geo_point \<Rightarrow> f64" where
  "gi_dist m lat lon p \<equiv> haversine m lat lon (gp_Lat p) (gp_Lon p)"

lemma gi_best_min:
  fixes m :: go_math and lat lon :: f64
  defines "d \<equiv> gi_dist m lat lon"
  assumes "\<forall>p \<in> set (b # ps). d p \<noteq> NaN"
  shows "\<exists>us vs. b # ps = us @ gi_best m lat lon ps b (d b) # vs \<and>
     (\<forall>p \<in> set us. f_less (d (gi_best m lat lon ps b (d b))) (d p)) \<and> (\<forall>p \<in> set vs. f_le (d (gi_best m lat lon ps b (d b))) (d p))"
  using assms(2)
proof (induction ps arbitrary: b)
  case (Cons p ps)
  show ?case
  proof (cases "f_less (d p) (d b)")
    case True
    let ?r = "gi_best m lat lon ps p (d p)"
    obtain us vs where uv: "p # ps = us @ ?r # vs" "\<forall>q \<in> set us. f_less (d ?r) (d q)" "\<forall>q \<in> set vs. f_le (d ?r) (d q)"
      using Cons.IH [of p] Cons.prems by auto
    have "f_le (d ?r) (d p)" using uv Cons.prems by (cases us) (auto intro: f_less_imp_le f_le_refl)
    moreover have eq: "gi_best m lat lon (p # ps) b (d b) = ?r" using True by (simp add: Let_def d_def)
    moreover have "b # p # ps = (b # us) @ ?r # vs" using uv(1) by simp
    ultimately show ?thesis using True uv(2,3) unfolding eq
      by (intro exI [of _ "b # us"] exI [of _ vs]) (auto intro: f_le_less_trans)
  next
    case False
    let ?r = "gi_best m lat lon ps b (d b)"
    obtain us vs where uv: "b # ps = us @ ?r # vs" "\<forall>q \<in> set us. f_less (d ?r) (d q)" "\<forall>q \<in> set vs. f_le (d ?r) (d q)"
      using Cons.IH [of b] Cons.prems by auto
    have eq: "gi_best m lat lon (p # ps) b (d b) = ?r" using False by (simp add: Let_def d_def)
    have bp: "f_le (d b) (d p)" using False Cons.prems by (simp add: f_not_less)
    show ?thesis
    proof (cases us)
      case Nil
      then show ?thesis using uv bp unfolding eq by (intro exI [of _ "[]"] exI [of _ "p # vs"]) auto
    next
      case us: (Cons u us')
      then show ?thesis using uv bp unfolding eq
        by (intro exI [of _ "b # p # us'"] exI [of _ vs]) (auto intro: f_less_le_trans)
    qed
  qed
next
  case Nil
  show ?case by (intro exI [of _ "[]"]) simp
qed

text \<open>If the distance of the first point is NaN, the first point is returned.\<close>

lemma gi_NaN_first:
  assumes "gi_dist m lat lon p = NaN"
  shows "gi_Nearest m lat lon \<lparr>gi_points = p # ps\<rparr> = (p, True)"
proof -
  have less: "\<not> f_less x NaN" for x by (cases x) simp_all
  have "gi_best m lat lon qs p NaN = p" for qs by (induction qs) (simp_all add: Let_def less)
  then show ?thesis by (simp add: gi_Nearest_def assms)
qed

subsection \<open>Accuracy of the argument\<close>

text \<open>A library whose functions are off by at most \<open>2 ^ -50\<close> where the formula uses them.\<close>

definition math_accurate :: "go_math \<Rightarrow> bool" where
  "math_accurate m \<longleftrightarrow>
     (\<forall>x. \<bar>x\<bar> \<le> 5 \<longrightarrow> near (m_Sin m (Fin x)) (sin x) (1 / 2 ^ 50) \<and> near (m_Cos m (Fin x)) (cos x) (1 / 2 ^ 50)) \<and>
     (\<forall>x. \<bar>x\<bar> \<le> 2 \<longrightarrow> near (m_Pow m (Fin x) (Fin 2)) (x ^ 2) (1 / 2 ^ 50)) \<and>
     (\<forall>y x. 0 \<le> y \<and> y \<le> 1 \<and> 0 \<le> x \<and> x \<le> 1 \<longrightarrow> near (m_Atan2 m (Fin y) (Fin x)) (atan2 y x) (1 / 2 ^ 50))"

lemma sin_close: "\<bar>sin a - sin b\<bar> \<le> \<bar>a - b\<bar>" "\<bar>cos a - cos b\<bar> \<le> \<bar>a - b\<bar>" for a b :: real
proof -
  have half: "2 * \<bar>sin ((a - b) / 2)\<bar> \<le> \<bar>a - b\<bar>" "\<bar>sin ((b - a) / 2)\<bar> = \<bar>sin ((a - b) / 2)\<bar>"
    using abs_sin_x_le_abs_x [of "(a - b) / 2"] sin_minus [of "(a - b) / 2"] by (simp_all add: minus_divide_left)
  have "\<bar>2 * sin ((a - b) / 2) * cos ((a + b) / 2)\<bar> \<le> 2 * \<bar>sin ((a - b) / 2)\<bar> * 1"
    unfolding abs_mult by (intro mult_mono) simp_all
  then show "\<bar>sin a - sin b\<bar> \<le> \<bar>a - b\<bar>" using half(1) by (simp only: sin_diff_sin)
  have "\<bar>2 * sin ((a + b) / 2) * sin ((b - a) / 2)\<bar> \<le> 2 * 1 * \<bar>sin ((b - a) / 2)\<bar>"
    unfolding abs_mult by (intro mult_mono) simp_all
  then show "\<bar>cos a - cos b\<bar> \<le> \<bar>a - b\<bar>" using half by (simp only: cos_diff_cos)
qed

lemma near_Sin_Cos:
  assumes "math_accurate m" "near x r (1 / 2 ^ 47)" "\<bar>r\<bar> \<le> 4"
  shows "near (m_Sin m x) (sin r) (1 / 2 ^ 46)" "near (m_Cos m x) (cos r) (1 / 2 ^ 46)"
proof -
  obtain a where a: "x = Fin a" "\<bar>a - r\<bar> \<le> 1 / 2 ^ 47" using assms(2) by (auto simp: near_def)
  moreover have "(1 / 2 ^ 47 :: real) \<le> 1 / 2" by simp
  ultimately have "\<bar>a\<bar> \<le> 5" using assms(3) by linarith
  then have "near (m_Sin m x) (sin a) (1 / 2 ^ 50)" "near (m_Cos m x) (cos a) (1 / 2 ^ 50)"
    using assms(1) by (simp_all add: math_accurate_def a(1))
  moreover have "\<bar>sin a - sin r\<bar> \<le> 1 / 2 ^ 47" "\<bar>cos a - cos r\<bar> \<le> 1 / 2 ^ 47" using sin_close [of a r] a(2) by linarith+
  moreover have "1 / 2 ^ 50 + 1 / 2 ^ 47 \<le> (1 / 2 ^ 46 :: real)" by simp
  ultimately show "near (m_Sin m x) (sin r) (1 / 2 ^ 46)" "near (m_Cos m x) (cos r) (1 / 2 ^ 46)"
    by (blast intro: near_trans)+
qed

lemma near_square:
  assumes "math_accurate m" "near x r (1 / 2 ^ 46)" "\<bar>r\<bar> \<le> 1"
  shows "near (m_Pow m x (Fin 2)) (r ^ 2) (1 / 2 ^ 44)"
proof -
  obtain a where a: "x = Fin a" "\<bar>a - r\<bar> \<le> 1 / 2 ^ 46" using assms(2) by (auto simp: near_def)
  moreover have "(1 / 2 ^ 46 :: real) \<le> 1" by simp
  ultimately have "\<bar>a\<bar> \<le> 2" "\<bar>a + r\<bar> \<le> 3" using assms(3) by linarith+
  have "\<bar>a ^ 2 - r ^ 2\<bar> = \<bar>a - r\<bar> * \<bar>a + r\<bar>" by (simp add: abs_mult [symmetric] power2_eq_square algebra_simps)
  also have "\<dots> \<le> 1 / 2 ^ 46 * 3" using a(2) \<open>\<bar>a + r\<bar> \<le> 3\<close> by (intro mult_mono) simp_all
  finally have "\<bar>a ^ 2 - r ^ 2\<bar> \<le> 1 / 2 ^ 46 * 3" .
  moreover obtain y where y: "m_Pow m x (Fin 2) = Fin y" "\<bar>y - a ^ 2\<bar> \<le> 1 / 2 ^ 50"
    using assms(1) \<open>\<bar>a\<bar> \<le> 2\<close> by (auto simp: math_accurate_def near_def a(1))
  moreover have "1 / 2 ^ 46 * 3 + 1 / 2 ^ 50 \<le> (1 / 2 ^ 44 :: real)" by simp
  ultimately show ?thesis unfolding near_def by (intro exI [of _ y]) linarith
qed

lemma near_toRad:
  assumes "near v r (1 / 2 ^ 44)" "\<bar>r\<bar> \<le> 360"
  shows "near (toRad v) (rad r) (1 / 2 ^ 47)"
proof -
  have "pi \<le> 4" using pi_less_4 by simp
  then have p: "near (f_round pi) pi (1 / 2 ^ 51)"
    using near_round [of pi pi 0 4] by simp
  have "near (f_mul v (f_round pi)) (r * pi) (1 / 2 ^ 44 * 4 + (360 + 1 / 2 ^ 44) * (1 / 2 ^ 51) + 2048 / 2 ^ 53)"
    by (rule near_mul [OF assms(1) p assms(2)]) (use \<open>pi \<le> 4\<close> in simp_all)
  then have m: "near (f_mul v (f_round pi)) (r * pi) (1 / 2 ^ 40)" by (rule near_weaken) simp
  have "\<bar>r * pi / 180\<bar> \<le> 360 * 4 / 180" using assms(2) mult_mono [OF assms(2) \<open>pi \<le> 4\<close>] by (simp add: abs_mult)
  then have "near (f_div (f_mul v (f_round pi)) (Fin 180)) (r * pi / 180) (1 / 2 ^ 40 / 180 + 16 / 2 ^ 53)"
    by (intro near_div [OF m]) simp_all
  then show ?thesis unfolding toRad_def rad_def by (rule near_weaken) simp
qed

lemma haversine_arg_near:
  assumes "math_accurate m" "\<bar>lat1\<bar> \<le> 90" "\<bar>lat2\<bar> \<le> 90" "\<bar>lon1\<bar> \<le> 180" "\<bar>lon2\<bar> \<le> 180"
  shows "near (haversine_arg m (Fin lat1) (Fin lon1) (Fin lat2) (Fin lon2)) (gc_arg lat1 lon1 lat2 lon2) (1 / 2 ^ 41)"
proof -
  have exact: "near (Fin x) x 0" for x by (simp add: near_def)
  have half: "near (m_Pow m (m_Sin m (f_div (toRad (f_sub (Fin y) (Fin x))) (Fin 2))) (Fin 2)) (sin (rad (y - x) / 2) ^ 2) (1 / 2 ^ 44)"
    if "\<bar>x\<bar> \<le> 180" "\<bar>y\<bar> \<le> 180" for x y
  proof -
    have d: "\<bar>y - x\<bar> \<le> 360" using that by linarith
    have "near (f_sub (Fin y) (Fin x)) (y + - x) (0 + 0 + 512 / 2 ^ 53)"
      unfolding f_sub_def using d by (intro near_add exact near_neg) simp_all
    then have "near (f_sub (Fin y) (Fin x)) (y - x) (1 / 2 ^ 44)" by simp
    from near_toRad [OF this d] have r: "near (toRad (f_sub (Fin y) (Fin x))) (rad (y - x)) (1 / 2 ^ 47)" .
    have "\<bar>rad (y - x)\<bar> = \<bar>y - x\<bar> * pi / 180" by (simp add: rad_def abs_mult)
    also have "\<dots> \<le> 360 * pi / 180" using d by (intro divide_right_mono mult_right_mono) simp_all
    finally have pi: "\<bar>rad (y - x) / 2\<bar> \<le> pi" by simp
    have pi4: "pi \<le> 4" using pi_less_4 by simp
    have "near (f_div (toRad (f_sub (Fin y) (Fin x))) (Fin 2)) (rad (y - x) / 2) (1 / 2 ^ 47 / 2 + 8 / 2 ^ 53)"
      using pi pi4 by (intro near_div [OF r]) simp_all
    then have "near (f_div (toRad (f_sub (Fin y) (Fin x))) (Fin 2)) (rad (y - x) / 2) (1 / 2 ^ 47)" by (rule near_weaken) simp
    from near_Sin_Cos(1) [OF assms(1) this] show ?thesis using pi pi4 by (intro near_square [OF assms(1)]) simp_all
  qed
  have cosine: "near (m_Cos m (toRad (Fin x))) (cos (rad x)) (1 / 2 ^ 46)" if "\<bar>x\<bar> \<le> 90" for x
  proof -
    have "near (toRad (Fin x)) (rad x) (1 / 2 ^ 47)" using that by (intro near_toRad near_weaken [OF exact]) simp_all
    moreover have "\<bar>rad x\<bar> = \<bar>x\<bar> * pi / 180" by (simp add: rad_def abs_mult)
    moreover have "\<bar>x\<bar> * pi / 180 \<le> 90 * 4 / 180" using that pi_less_4 by (intro divide_right_mono mult_mono) simp_all
    ultimately show ?thesis by (intro near_Sin_Cos(2) [OF assms(1)]) simp_all
  qed
  let ?p = "m_Pow m (m_Sin m (f_div (toRad (f_sub (Fin lon2) (Fin lon1))) (Fin 2))) (Fin 2)" and ?s = "sin (rad (lon2 - lon1) / 2) ^ 2"
  have "near (f_mul (m_Cos m (toRad (Fin lat1))) (m_Cos m (toRad (Fin lat2)))) (cos (rad lat1) * cos (rad lat2))
      (1 / 2 ^ 46 * 1 + (1 + 1 / 2 ^ 46) * (1 / 2 ^ 46) + 2 / 2 ^ 53)"
    by (rule near_mul [OF cosine [OF assms(2)] cosine [OF assms(3)]]) simp_all
  then have cc: "near (f_mul (m_Cos m (toRad (Fin lat1))) (m_Cos m (toRad (Fin lat2)))) (cos (rad lat1) * cos (rad lat2)) (1 / 2 ^ 44)"
    by (rule near_weaken) simp
  have c1: "\<bar>cos (rad lat1) * cos (rad lat2)\<bar> \<le> 1" unfolding abs_mult by (rule mult_le_one) simp_all
  have s1: "\<bar>?s\<bar> \<le> 1" by (simp add: abs_square_le_1)
  have "near (f_mul (f_mul (m_Cos m (toRad (Fin lat1))) (m_Cos m (toRad (Fin lat2)))) ?p) (cos (rad lat1) * cos (rad lat2) * ?s)
      (1 / 2 ^ 44 * 1 + (1 + 1 / 2 ^ 44) * (1 / 2 ^ 44) + 2 / 2 ^ 53)"
    by (rule near_mul [OF cc half c1 s1]) (use assms(4,5) in simp_all)
  then have prod: "near (f_mul (f_mul (m_Cos m (toRad (Fin lat1))) (m_Cos m (toRad (Fin lat2)))) ?p) (cos (rad lat1) * cos (rad lat2) * ?s) (1 / 2 ^ 42)"
    by (rule near_weaken) simp
  have "\<bar>cos (rad lat1) * cos (rad lat2) * ?s\<bar> \<le> 1" using c1 s1 by (simp only: abs_mult) (rule mult_le_one, simp_all only: abs_ge_zero)
  moreover have "\<bar>sin (rad (lat2 - lat1) / 2) ^ 2\<bar> \<le> 1" by (simp add: abs_square_le_1)
  ultimately have "\<bar>sin (rad (lat2 - lat1) / 2) ^ 2 + cos (rad lat1) * cos (rad lat2) * ?s\<bar> \<le> 2" by linarith
  then have "near (haversine_arg m (Fin lat1) (Fin lon1) (Fin lat2) (Fin lon2)) (gc_arg lat1 lon1 lat2 lon2) (1 / 2 ^ 44 + 1 / 2 ^ 42 + 4 / 2 ^ 53)"
    unfolding haversine_arg_def gc_arg_def Let_def using assms(2,3) by (intro near_add half prod) simp_all
  then show ?thesis by (rule near_weaken) simp
qed

subsection \<open>Accuracy of the order\<close>

lemma f_sqrt_near:
  assumes "0 \<le> b" "b \<le> 1"
  shows "\<exists>y. f_sqrt (Fin b) = Fin y \<and> 0 \<le> y \<and> y \<le> 1 \<and> \<bar>y ^ 2 - b\<bar> \<le> 2 / 2 ^ 53"
proof -
  have s: "0 \<le> sqrt b" "sqrt b \<le> 1" using assms by simp_all
  obtain y where y: "f_round (sqrt b) = Fin y" "\<bar>y - sqrt b\<bar> \<le> 1 / 2 ^ 53"
    using near_round [of "sqrt b" "sqrt b" 0 1] s by (auto simp: near_def)
  have "0 \<le> y" "y \<le> 1" using f_round_sign(1) [OF y(1) s(1)] f_round_le [OF y(1) s(2)] f_exact_int [of 1] by simp_all
  moreover have "\<bar>y ^ 2 - b\<bar> \<le> 2 / 2 ^ 53"
  proof -
    have "y ^ 2 - b = (y - sqrt b) * (y + sqrt b)" using assms(1) by (simp add: algebra_simps power2_eq_square)
    then have "\<bar>y ^ 2 - b\<bar> = \<bar>y - sqrt b\<bar> * \<bar>y + sqrt b\<bar>" by (simp only: abs_mult)
    also have "\<dots> \<le> 1 / 2 ^ 53 * 2" using s \<open>0 \<le> y\<close> \<open>y \<le> 1\<close> by (intro mult_mono y(2)) (simp_all only: abs_of_nonneg add_nonneg_nonneg, simp_all)
    finally show ?thesis by simp
  qed
  ultimately show ?thesis using y(1) assms(1) by simp
qed

lemma sin_square_atan2:
  assumes "0 \<le> y" "0 \<le> x" "0 < x ^ 2 + y ^ 2"
  shows "sin (atan2 y x) ^ 2 = y ^ 2 / (x ^ 2 + y ^ 2)" "0 \<le> atan2 y x" "atan2 y x \<le> pi / 2"
proof -
  have "sin (arctan (y / x)) ^ 2 = y ^ 2 / (x ^ 2 + y ^ 2)" if "0 < x"
  proof -
    have "1 + (y / x) ^ 2 = (x ^ 2 + y ^ 2) / x ^ 2" using that by (simp add: field_simps power2_eq_square)
    moreover have "0 \<le> 1 + (y / x) ^ 2" by simp
    ultimately have "sin (arctan (y / x)) ^ 2 = (y / x) ^ 2 / ((x ^ 2 + y ^ 2) / x ^ 2)"
      by (simp only: sin_arctan power_divide real_sqrt_pow2)
    then show ?thesis using that by (simp add: power_divide)
  qed
  then show "sin (atan2 y x) ^ 2 = y ^ 2 / (x ^ 2 + y ^ 2)" using assms by (auto simp: atan2_def)
  show "0 \<le> atan2 y x" "atan2 y x \<le> pi / 2"
    using assms arctan_ubound [of "y / x"] by (auto simp: atan2_def less_imp_le)
qed

text \<open>The computed distance is close to that for an angle the square of whose sine is close to the argument.\<close>

lemma haversine_angle:
  assumes "math_accurate m" "haversine_arg m lat1 lon1 lat2 lon2 = Fin a" "0 \<le> a" "a \<le> 1"
  shows "\<exists>t. near (haversine m lat1 lon1 lat2 lon2) (12742 * t) (1 / 2 ^ 35) \<and> 0 \<le> t \<and> t \<le> pi / 2 \<and> \<bar>sin t ^ 2 - a\<bar> \<le> 1 / 2 ^ 49"
proof -
  obtain y where y: "f_sqrt (Fin a) = Fin y" "0 \<le> y" "y \<le> 1" "\<bar>y ^ 2 - a\<bar> \<le> 2 / 2 ^ 53" using f_sqrt_near [OF assms(3,4)] by blast
  obtain b where b: "f_sub (Fin 1) (Fin a) = Fin b" "f_round (1 - a) = Fin b" "\<bar>b - (1 - a)\<bar> \<le> 1 / 2 ^ 53"
    using near_round [of "1 - a" "1 - a" 0 1] assms(3,4) by (auto simp: near_def f_sub_def)
  have "0 \<le> b" "b \<le> 1" using f_round_sign(1) [OF b(2)] f_round_le [OF b(2), of 1] f_exact_int [of 1] assms(3,4) by simp_all
  then obtain x where x: "f_sqrt (Fin b) = Fin x" "0 \<le> x" "x \<le> 1" "\<bar>x ^ 2 - b\<bar> \<le> 2 / 2 ^ 53" using f_sqrt_near by blast
  define S where "S = x ^ 2 + y ^ 2"
  have "\<bar>S - 1\<bar> \<le> 2 / 2 ^ 53 + 2 / 2 ^ 53 + 1 / 2 ^ 53" using x(4) y(4) b(3) unfolding S_def by linarith
  then have S: "\<bar>S - 1\<bar> \<le> 5 / 2 ^ 53" by simp
  moreover have "(5 / 2 ^ 53 :: real) \<le> 1 / 2" by simp
  ultimately have half: "1 / 2 \<le> S" by linarith
  let ?t = "atan2 y x"
  have t: "sin ?t ^ 2 = y ^ 2 / S" "0 \<le> ?t" "?t \<le> pi / 2" using sin_square_atan2 [OF y(2) x(2)] half unfolding S_def by simp_all
  have "\<bar>a * (S - 1)\<bar> \<le> 1 * (5 / 2 ^ 53)" unfolding abs_mult using assms(3,4) S by (intro mult_mono) simp_all
  moreover have "y ^ 2 - a * S = (y ^ 2 - a) - a * (S - 1)" by (simp add: algebra_simps)
  ultimately have "\<bar>y ^ 2 - a * S\<bar> \<le> 2 / 2 ^ 53 + 1 * (5 / 2 ^ 53)" using y(4) by linarith
  then have "\<bar>y ^ 2 - a * S\<bar> \<le> 7 / 2 ^ 53" by simp
  moreover have "sin ?t ^ 2 - a = (y ^ 2 - a * S) / S" using half unfolding t(1) by (simp add: diff_divide_distrib)
  ultimately have "\<bar>sin ?t ^ 2 - a\<bar> \<le> 7 / 2 ^ 53 / (1 / 2)" using half by (simp only: abs_divide) (intro frac_le, simp_all)
  then have "\<bar>sin ?t ^ 2 - a\<bar> \<le> 1 / 2 ^ 49" by simp
  moreover have "near (haversine m lat1 lon1 lat2 lon2) (12742 * ?t) (1 / 2 ^ 35)"
  proof -
    have "near (m_Atan2 m (Fin y) (Fin x)) ?t (1 / 2 ^ 50)" using assms(1) x y by (simp add: math_accurate_def)
    moreover have "\<bar>?t\<bar> \<le> 2" using t(2,3) pi_less_4 by simp
    ultimately have "near (f_mul (Fin 12742) (m_Atan2 m (Fin y) (Fin x))) (12742 * ?t) (0 * 2 + (12742 + 0) * (1 / 2 ^ 50) + 2 ^ 15 / 2 ^ 53)"
      by (intro near_mul) (simp_all add: near_def)
    then show ?thesis unfolding haversine_def Let_def assms(2) y(1) b(1) x(1) by (simp) (rule near_weaken, assumption, simp)
  qed
  ultimately show ?thesis using t(2,3) by blast
qed

lemma sin_square_order:
  assumes "0 \<le> s" "t \<le> pi / 2" "s \<le> t + e" "0 \<le> t" "0 \<le> e"
  shows "sin s ^ 2 \<le> sin t ^ 2 + 2 * e"
proof (cases "s \<le> t")
  case True
  then have "sin s \<le> sin t" using assms by (intro sin_monotone_2pi_le) simp_all
  moreover have "0 \<le> sin s" using assms True by (intro sin_ge_zero) simp_all
  ultimately have "sin s ^ 2 \<le> sin t ^ 2" by (rule power_mono)
  then show ?thesis using assms(5) by linarith
next
  case False
  have "\<bar>sin s - sin t\<bar> \<le> e" using sin_close(1) [of s t] False assms(3) by linarith
  moreover have "\<bar>sin s + sin t\<bar> \<le> 2" using abs_sin_le_one [of s] abs_sin_le_one [of t] by linarith
  ultimately have "\<bar>sin s - sin t\<bar> * \<bar>sin s + sin t\<bar> \<le> e * 2" using assms(5) by (intro mult_mono) simp_all
  moreover have "sin s ^ 2 - sin t ^ 2 = (sin s - sin t) * (sin s + sin t)" by (simp add: algebra_simps power2_eq_square)
  ultimately have "\<bar>sin s ^ 2 - sin t ^ 2\<bar> \<le> e * 2" by (simp only: abs_mult)
  then show ?thesis by linarith
qed

definition gc_of :: "f64 \<Rightarrow> f64 \<Rightarrow> geo_point \<Rightarrow> real" where
  "gc_of lat lon p = gc_arg (f_value lat) (f_value lon) (f_value (gp_Lat p)) (f_value (gp_Lon p))"

definition on_earth :: "f64 \<Rightarrow> f64 \<Rightarrow> bool" where
  "on_earth lat lon \<longleftrightarrow> f_le (Fin (- 90)) lat \<and> f_le lat (Fin 90) \<and> f_le (Fin (- 180)) lon \<and> f_le lon (Fin 180)"

lemma haversine_order:
  assumes "math_accurate m" "on_earth lat lon" "on_earth (gp_Lat p) (gp_Lon p)" "on_earth (gp_Lat q) (gp_Lon q)"
    and "f_in_unit (haversine_arg m lat lon (gp_Lat p) (gp_Lon p))" "f_in_unit (haversine_arg m lat lon (gp_Lat q) (gp_Lon q))"
    and "f_le (gi_dist m lat lon p) (gi_dist m lat lon q)"
  shows "gc_of lat lon p \<le> gc_of lat lon q + 1 / 2 ^ 39"
proof -
  have fin: "\<exists>a b. la = Fin a \<and> lo = Fin b \<and> \<bar>a\<bar> \<le> 90 \<and> \<bar>b\<bar> \<le> 180" if "on_earth la lo" for la lo
    using that by (cases la; cases lo) (auto simp: on_earth_def)
  have one: "\<exists>a t. near (gi_dist m lat lon r) (12742 * t) (1 / 2 ^ 35) \<and> 0 \<le> t \<and> t \<le> pi / 2 \<and> \<bar>sin t ^ 2 - a\<bar> \<le> 1 / 2 ^ 49 \<and>
      \<bar>a - gc_of lat lon r\<bar> \<le> 1 / 2 ^ 41"
    if r: "on_earth (gp_Lat r) (gp_Lon r)" "f_in_unit (haversine_arg m lat lon (gp_Lat r) (gp_Lon r))" for r
  proof -
    obtain a where a: "haversine_arg m lat lon (gp_Lat r) (gp_Lon r) = Fin a" "\<bar>a - gc_of lat lon r\<bar> \<le> 1 / 2 ^ 41"
      using fin [OF assms(2)] fin [OF r(1)] haversine_arg_near [OF assms(1)] by (fastforce simp: near_def gc_of_def f_value_def)
    then have "0 \<le> a" "a \<le> 1" using r(2) by (simp_all add: f_in_unit_def)
    then show ?thesis using haversine_angle [OF assms(1) a(1)] a(2) by blast
  qed
  obtain a t where p: "near (gi_dist m lat lon p) (12742 * t) (1 / 2 ^ 35)" "0 \<le> t" "t \<le> pi / 2" "\<bar>sin t ^ 2 - a\<bar> \<le> 1 / 2 ^ 49"
      "\<bar>a - gc_of lat lon p\<bar> \<le> 1 / 2 ^ 41" using one [OF assms(3,5)] by blast
  obtain b u where q: "near (gi_dist m lat lon q) (12742 * u) (1 / 2 ^ 35)" "0 \<le> u" "u \<le> pi / 2" "\<bar>sin u ^ 2 - b\<bar> \<le> 1 / 2 ^ 49"
      "\<bar>b - gc_of lat lon q\<bar> \<le> 1 / 2 ^ 41" using one [OF assms(4,6)] by blast
  obtain y z where "gi_dist m lat lon p = Fin y" "\<bar>y - 12742 * t\<bar> \<le> 1 / 2 ^ 35" "gi_dist m lat lon q = Fin z"
      "\<bar>z - 12742 * u\<bar> \<le> 1 / 2 ^ 35" using p(1) q(1) by (auto simp: near_def)
  moreover from this have "y \<le> z" using assms(7) by simp
  ultimately have "12742 * t \<le> 12742 * u + (1 / 2 ^ 35 + 1 / 2 ^ 35)" by linarith
  then have "t \<le> u + 1 / 2 ^ 47" by simp
  then have "sin t ^ 2 \<le> sin u ^ 2 + 2 * (1 / 2 ^ 47)" using p(2) q(2,3) by (intro sin_square_order) simp_all
  then have "gc_of lat lon p \<le> gc_of lat lon q + (1 / 2 ^ 41 + 1 / 2 ^ 49 + 2 * (1 / 2 ^ 47) + 1 / 2 ^ 49 + 1 / 2 ^ 41)"
    using p(4,5) q(4,5) by linarith
  then show ?thesis by simp
qed


text \<open>A library that rounds correctly.\<close>

fun f_map :: "(real \<Rightarrow> real) \<Rightarrow> f64 \<Rightarrow> f64" where
  "f_map f (Fin x) = f_round (f x)" | "f_map f _ = NaN"

fun f_map2 :: "(real \<Rightarrow> real \<Rightarrow> real) \<Rightarrow> f64 \<Rightarrow> f64 \<Rightarrow> f64" where
  "f_map2 f (Fin x) (Fin y) = f_round (f x y)" | "f_map2 f NaN _ = NaN" | "f_map2 f _ NaN = NaN" | "f_map2 f _ _ = Fin 0"

definition rounding_math :: go_math where
  "rounding_math = \<lparr>m_Sin = f_map sin, m_Cos = f_map cos, m_Atan2 = f_map2 atan2, m_Pow = f_map2 (\<lambda>x y. x ^ nat \<lfloor>y\<rfloor>)\<rparr>"

lemma rounding_math_ok: "math_doc rounding_math" "math_accurate rounding_math"
proof -
  show "math_doc rounding_math" unfolding math_doc_def
  proof (intro allI impI)
    fix y x assume "m_Atan2 rounding_math y x = NaN"
    then show "y = NaN \<or> x = NaN" by (cases y; cases x) (auto simp: rounding_math_def)
  qed
  have r: "near (f_round z) z (1 / 2 ^ 50)" if "\<bar>z\<bar> \<le> 4" for z
    by (rule near_weaken [OF near_round [of z z 0 4]]) (use that in simp_all)
  have "\<bar>x ^ 2\<bar> \<le> 4" if "\<bar>x\<bar> \<le> 2" for x :: real using power_mono [of "\<bar>x\<bar>" 2 2] that by simp
  moreover have "\<bar>atan2 y x\<bar> \<le> 4" if "0 \<le> y" "0 \<le> x" for y x
    using that arctan_ubound [of "y / x"] pi_less_4 by (auto simp: atan2_def)
  moreover have "\<bar>sin x\<bar> \<le> 4" "\<bar>cos x\<bar> \<le> 4" for x :: real using abs_sin_le_one [of x] abs_cos_le_one [of x] by linarith+
  ultimately show "math_accurate rounding_math"
    unfolding math_accurate_def rounding_math_def by (intro conjI allI impI) (simp_all add: r [simplified])
qed


end
