(* ===== verification/Column_Store.thy ===== *)
theory Column_Store
  imports Go_Prelude
begin

text \<open>
  \<open>src/30-Column-Store/main.go\<close>: rows stored column by column. The invariant is that all columns have
  one value for each row; the theorem is the round trip from rows to columns and back.
\<close>

record column_store =
  co_columns :: "(string, string list) gomap"
  co_rows :: nat

definition NewColumnStore :: column_store where
  "NewColumnStore = \<lparr>co_columns = fmempty, co_rows = 0\<rparr>"

text \<open>The bodies of the two loops of \<open>Insert\<close>.\<close>

definition co_extend :: "(string, string) gomap \<Rightarrow> string \<Rightarrow> (string, string list) gomap \<Rightarrow> (string, string list) gomap" where
  "co_extend row c cols = fmupd c (gm_get [] cols c @ [gm_get [] row c]) cols"

definition co_newColumn :: "nat \<Rightarrow> (string, string) gomap \<Rightarrow> string \<Rightarrow> (string, string list) gomap \<Rightarrow>
    (string, string list) gomap" where
  "co_newColumn rows row c cols =
     (if fmlookup cols c = None
      then (let cols = fmupd c (replicate rows []) cols in
            fmupd c (gm_get [] cols c @ [gm_get [] row c]) cols)
      else cols)"

definition co_Insert :: "(nat \<Rightarrow> string fset \<Rightarrow> string list) \<Rightarrow> (string, string) gomap \<Rightarrow> column_store \<Rightarrow> column_store" where
  "co_Insert ord row s =
     (let s = s\<lparr>co_columns := fold (co_extend row) (ord 0 (fmdom (co_columns s))) (co_columns s)\<rparr>;
          s = s\<lparr>co_columns := fold (co_newColumn (co_rows s) row) (ord 1 (fmdom row)) (co_columns s)\<rparr>
      in s\<lparr>co_rows := co_rows s + 1\<rparr>)"

definition co_row :: "string list \<Rightarrow> (string, string list) gomap \<Rightarrow> nat \<Rightarrow> (string, string) gomap" where
  "co_row columns cols i =
     fold (\<lambda>c row. let vs = gm_get [] cols c in if i < length vs then fmupd c (vs ! i) row else row)
       columns fmempty"

definition co_Project :: "string list \<Rightarrow> column_store \<Rightarrow> (string, string) gomap list" where
  "co_Project columns s = map (co_row columns (co_columns s)) [0..<co_rows s]"

subsection \<open>The columns of a sequence of rows\<close>

definition co_load :: "(nat \<Rightarrow> string fset \<Rightarrow> string list) \<Rightarrow> (string, string) gomap list \<Rightarrow> column_store" where
  "co_load ord rows = fold (co_Insert ord) rows NewColumnStore"

definition co_known :: "(string, string) gomap list \<Rightarrow> string \<Rightarrow> bool" where
  "co_known rows c \<longleftrightarrow> (\<exists>row \<in> set rows. fmlookup row c \<noteq> None)"

lemma co_Insert_lookup:
  assumes "range_orders ord"
  shows "fmlookup (co_columns (co_Insert ord row s)) c =
     (case fmlookup (co_columns s) c of
        Some vs \<Rightarrow> Some (vs @ [gm_get [] row c])
      | None \<Rightarrow> (case fmlookup row c of None \<Rightarrow> None | Some v \<Rightarrow> Some (replicate (co_rows s) [] @ [v])))"
proof -
  let ?ks = "ord 0 (fmdom (co_columns s))" let ?c1 = "fold (co_extend row) ?ks (co_columns s)"
  let ?js = "ord 1 (fmdom row)"
  have 1: "fmlookup ?c1 c = (if c \<in> set ?ks
      then (\<lambda>c v. Some ((case v of None \<Rightarrow> [] | Some vs \<Rightarrow> vs) @ [gm_get [] row c])) c (fmlookup (co_columns s) c)
      else fmlookup (co_columns s) c)"
    by (rule fold_pointwise) (simp_all add: co_extend_def gm_get_def range_orders_distinct [OF assms])
  have 2: "fmlookup (fold (co_newColumn (co_rows s) row) ?js ?c1) c = (if c \<in> set ?js
      then (\<lambda>c v. case v of None \<Rightarrow> Some (replicate (co_rows s) [] @ [gm_get [] row c]) | Some vs \<Rightarrow> Some vs) c (fmlookup ?c1 c)
      else fmlookup ?c1 c)"
    by (rule fold_pointwise)
      (simp_all add: co_newColumn_def Let_def range_orders_distinct [OF assms] split: option.splits)
  have "co_columns (co_Insert ord row s) = fold (co_newColumn (co_rows s) row) ?js ?c1"
    by (simp add: co_Insert_def Let_def)
  then show ?thesis
    by (simp only: 2) (auto simp: 1 range_orders_set [OF assms] fmlookup_dom_iff gm_get_def split: option.splits)
qed

lemma co_load_columns:
  assumes "range_orders ord"
  shows "co_rows (co_load ord rows) = length rows \<and>
     fmlookup (co_columns (co_load ord rows)) c =
       (if co_known rows c then Some (map (\<lambda>row. gm_get [] row c) rows) else None)"
proof (induction rows rule: rev_induct)
  case Nil
  show ?case by (simp add: co_load_def NewColumnStore_def co_known_def)
next
  case (snoc row rows)
  have "co_load ord (rows @ [row]) = co_Insert ord row (co_load ord rows)" by (simp add: co_load_def)
  moreover have "co_rows (co_Insert ord row s) = co_rows s + 1" for s by (simp add: co_Insert_def Let_def)
  moreover have "map (\<lambda>row. gm_get [] row c) rows = replicate (length rows) []" if "\<not> co_known rows c"
  proof -
    have "map (\<lambda>row. gm_get [] row c) rows = map (\<lambda>_. []) rows"
      using that by (intro map_cong) (auto simp: co_known_def gm_get_def)
    then show ?thesis by (simp add: map_replicate_const)
  qed
  moreover have "co_known (rows @ [row]) c \<longleftrightarrow> co_known rows c \<or> fmlookup row c \<noteq> None"
    by (auto simp: co_known_def)
  ultimately show ?case using snoc
    by (auto simp: co_Insert_lookup [OF assms] gm_get_def split: option.splits)
qed

lemma co_row_lookup:
  "fmlookup (co_row columns cols i) c =
     (if c \<in> set columns \<and> i < length (gm_get [] cols c) then Some (gm_get [] cols c ! i) else None)"
proof -
  have "fmlookup (fold (\<lambda>c row. let vs = gm_get [] cols c in if i < length vs then fmupd c (vs ! i) row else row) columns r) c
     = (if c \<in> set columns \<and> i < length (gm_get [] cols c) then Some (gm_get [] cols c ! i) else fmlookup r c)" for r
    by (induction columns arbitrary: r) (auto simp: Let_def)
  then show ?thesis by (simp add: co_row_def)
qed

text \<open>
  C29. Projecting the rows that were inserted gives them back in order, restricted to the requested
  columns: a column that some row has is present in every projected row, empty where the row lacked it, and a
  column that no row has is absent.
\<close>
theorem co_Project_roundtrip:
  assumes "range_orders ord"
  shows "length (co_Project columns (co_load ord rows)) = length rows \<and>
    (\<forall>i < length rows. \<forall>c. fmlookup (co_Project columns (co_load ord rows) ! i) c =
       (if c \<in> set columns \<and> co_known rows c then Some (gm_get [] (rows ! i) c) else None))"
  using co_load_columns [OF assms, of rows]
  by (auto simp: co_Project_def co_row_lookup gm_get_def split: option.splits)

lemma co_Project_roundtrip_witness:
  "length (co_Project [''a'', ''z''] (co_load (\<lambda>n. sorted_list_of_fset)
     [fmupd ''a'' ''1'' fmempty, fmupd ''b'' ''2'' fmempty])) = 2 \<and>
   fmlookup (co_Project [''a'', ''z''] (co_load (\<lambda>n. sorted_list_of_fset)
     [fmupd ''a'' ''1'' fmempty, fmupd ''b'' ''2'' fmempty]) ! 1) ''a'' = Some []"
  using co_Project_roundtrip [OF range_orders_sorted, of "[''a'', ''z'']"
      "[fmupd ''a'' ''1'' fmempty, fmupd ''b'' ''2'' fmempty]"]
  by (simp add: co_known_def)

end
