(* ===== verification/Leader_Election.thy ===== *)
theory Leader_Election
  imports Go_Prelude
begin

text \<open>
  \<open>src/31-Leader-Election/main.go\<close>: the bully election, in which the largest id that is alive leads.
  \<open>Recover\<close> makes any id alive, also one that was never in the cluster: it can lead and has no role then.
\<close>

type_synonym el_orders = "nat \<Rightarrow> int fset \<Rightarrow> int list"

record election_cluster =
  el_alive :: "(int, bool) gomap"
  el_roles :: "(int, string) gomap"
  el_leader :: int

text \<open>The body of the loop over \<open>c.roles\<close>.\<close>

definition el_setRole :: "int \<Rightarrow> int \<Rightarrow> (int, string) gomap \<Rightarrow> (int, string) gomap" where
  "el_setRole ldr i m = fmupd i (if i = ldr then ''leader'' else ''follower'') m"

definition el_Elect :: "el_orders \<Rightarrow> election_cluster \<Rightarrow> int \<times> election_cluster" where
  "el_Elect ord c =
     (let ids = sort (ord 0 (fmdom (el_alive c)));
          c = c\<lparr>el_leader := -1\<rparr>;
          c = (if length ids > 0 then c\<lparr>el_leader := ids ! (length ids - 1)\<rparr> else c);
          c = c\<lparr>el_roles := fold (el_setRole (el_leader c)) (ord 1 (fmdom (el_roles c))) (el_roles c)\<rparr>
      in (el_leader c, c))"

definition NewBullyElectionCluster :: "el_orders \<Rightarrow> int list \<Rightarrow> election_cluster" where
  "NewBullyElectionCluster ord nodeIDs =
     (let c = \<lparr>el_alive = fmempty, el_roles = fmempty, el_leader = -1\<rparr>;
          c = fold (\<lambda>i c. c\<lparr>el_alive := fmupd i True (el_alive c), el_roles := fmupd i ''follower'' (el_roles c)\<rparr>) nodeIDs c
      in snd (el_Elect ord c))"

definition el_Fail :: "el_orders \<Rightarrow> int \<Rightarrow> election_cluster \<Rightarrow> election_cluster" where
  "el_Fail ord nodeID c =
     (if fmlookup (el_alive c) nodeID = None then c
      else (let c = c\<lparr>el_alive := fmdrop nodeID (el_alive c)\<rparr> in
        if el_leader c = nodeID then snd (el_Elect ord c) else c))"

definition el_Recover :: "el_orders \<Rightarrow> int \<Rightarrow> election_cluster \<Rightarrow> election_cluster" where
  "el_Recover ord nodeID c = snd (el_Elect ord (c\<lparr>el_alive := fmupd nodeID True (el_alive c)\<rparr>))"

subsection \<open>The leader is the largest id alive\<close>

definition el_top :: "int set \<Rightarrow> int" where
  "el_top A = (if A = {} then -1 else Max A)"

definition el_inv :: "int set \<Rightarrow> int set \<Rightarrow> election_cluster \<Rightarrow> bool" where
  "el_inv known alive c \<longleftrightarrow> fset (fmdom (el_alive c)) = alive \<and> fset (fmdom (el_roles c)) = known \<and>
     el_leader c = el_top alive \<and>
     (\<forall>i \<in> known. fmlookup (el_roles c) i = Some (if i = el_top alive then ''leader'' else ''follower''))"

lemma el_last_sorted:
  assumes "distinct ks"
  shows "(if length (sort ks) > 0 then sort ks ! (length (sort ks) - 1) else -1) = el_top (set ks)"
proof (cases "ks = []")
  case False
  have "sort ks ! (length (sort ks) - 1) = Max (set (sort ks))"
  proof (rule Max_eqI [symmetric])
    fix y assume "y \<in> set (sort ks)"
    then obtain i where "i < length (sort ks)" "y = sort ks ! i" by (metis in_set_conv_nth)
    then show "y \<le> sort ks ! (length (sort ks) - 1)" by (auto intro: sorted_nth_mono)
  next
    show "sort ks ! (length (sort ks) - 1) \<in> set (sort ks)" by (rule nth_mem) (use False in simp)
  qed simp
  then show ?thesis using False by (simp add: el_top_def)
qed (simp add: el_top_def)

lemma el_Elect_ok:
  assumes "range_orders ord"
  shows "el_inv (fset (fmdom (el_roles c))) (fset (fmdom (el_alive c))) (snd (el_Elect ord c))"
    and "fst (el_Elect ord c) = el_top (fset (fmdom (el_alive c)))"
proof -
  let ?ids = "sort (ord 0 (fmdom (el_alive c)))" and ?A = "fset (fmdom (el_alive c))" and ?ks = "ord 1 (fmdom (el_roles c))"
  have top: "(if length ?ids > 0 then ?ids ! (length ?ids - 1) else -1) = el_top ?A"
    using el_last_sorted [OF range_orders_distinct [OF assms]] by (simp only: range_orders_set [OF assms])
  have sort_nil: "sort xs = [] \<longleftrightarrow> xs = []" for xs :: "int list"
    by (metis length_0_conv length_sort)
  have eq: "el_Elect ord c = (el_top ?A, c\<lparr>el_leader := el_top ?A,
      el_roles := fold (el_setRole (el_top ?A)) ?ks (el_roles c)\<rparr>)"
    unfolding top [symmetric]
    using sort_nil by (cases "ord 0 (fmdom (el_alive c)) = []") (simp_all add: el_Elect_def Let_def)
  have lk: "fmlookup (fold (el_setRole (el_top ?A)) ?ks (el_roles c)) i = (if i \<in> set ?ks
      then (\<lambda>i v. Some (if i = el_top ?A then ''leader'' else ''follower'')) i (fmlookup (el_roles c) i) else fmlookup (el_roles c) i)" for i
    by (rule fold_pointwise) (simp_all add: el_setRole_def range_orders_distinct [OF assms])
  have "fset (fmdom (fold (el_setRole (el_top ?A)) ?ks (el_roles c))) = fset (fmdom (el_roles c))"
    unfolding set_eq_iff fmlookup_dom_iff lk by (auto simp: range_orders_set [OF assms] fmlookup_dom_iff)
  then show "el_inv (fset (fmdom (el_roles c))) ?A (snd (el_Elect ord c))"
    unfolding el_inv_def eq by (simp add: lk [unfolded One_nat_def] range_orders_set [OF assms])
  show "fst (el_Elect ord c) = el_top ?A" by (simp add: eq)
qed

lemma el_leader_start:
  assumes "range_orders ord"
  shows "el_inv (set ids) (set ids) (NewBullyElectionCluster ord ids)"
proof -
  let ?add = "\<lambda>i c. c\<lparr>el_alive := fmupd i True (el_alive c), el_roles := fmupd i ''follower'' (el_roles c)\<rparr>"
  have "fset (fmdom (el_alive (fold ?add ids c))) = set ids \<union> fset (fmdom (el_alive c)) \<and>
     fset (fmdom (el_roles (fold ?add ids c))) = set ids \<union> fset (fmdom (el_roles c))" for c :: election_cluster
    by (induction ids arbitrary: c) auto
  then show ?thesis
    using el_Elect_ok(1) [OF assms, of "fold ?add ids \<lparr>el_alive = fmempty, el_roles = fmempty, el_leader = -1\<rparr>"]
    by (simp add: NewBullyElectionCluster_def Let_def)
qed

lemma el_Recover_ok:
  assumes "range_orders ord" "el_inv known alive c"
  shows "el_inv known (insert i alive) (el_Recover ord i c)"
  using el_Elect_ok(1) [OF assms(1), of "c\<lparr>el_alive := fmupd i True (el_alive c)\<rparr>"] assms(2)
  by (simp add: el_Recover_def el_inv_def)

lemma el_Fail_ok:
  assumes "range_orders ord" "el_inv known alive c"
  shows "el_inv known (alive - {i}) (el_Fail ord i c)"
proof (cases "i \<in> alive")
  case False
  then have "fmlookup (el_alive c) i = None" using assms(2) by (auto simp: el_inv_def fmlookup_dom_iff)
  then show ?thesis using assms(2) False by (simp add: el_Fail_def)
next
  case True
  then obtain y where some: "fmlookup (el_alive c) i = Some y"
    using assms(2) by (auto simp: el_inv_def fmlookup_dom_iff)
  let ?c = "c\<lparr>el_alive := fmdrop i (el_alive c)\<rparr>"
  have dom: "fset (fmdom (el_alive ?c)) = alive - {i}" "fset (fmdom (el_roles ?c)) = known"
    using assms(2) by (auto simp: el_inv_def)
  show ?thesis
  proof (cases "el_leader c = i")
    case True
    then show ?thesis using el_Elect_ok(1) [OF assms(1), of ?c] dom some by (simp add: el_Fail_def)
  next
    case False
    have fin: "finite alive" using assms(2) unfolding el_inv_def by auto
    have "alive \<noteq> {}" using \<open>i \<in> alive\<close> by blast
    then have "el_top alive = Max alive" by (simp add: el_top_def)
    moreover have "el_leader c = el_top alive" using assms(2) by (simp add: el_inv_def)
    ultimately have "Max alive \<noteq> i" using False by simp
    then have "Max alive \<in> alive - {i}" using Max_in [OF fin \<open>alive \<noteq> {}\<close>] by simp
    moreover have "Max (alive - {i}) = Max alive" if "Max alive \<in> alive - {i}"
      by (rule Max_eqI) (use fin that in auto)
    ultimately have "el_top (alive - {i}) = el_top alive"
      using \<open>alive \<noteq> {}\<close> by (auto simp: el_top_def)
    moreover have "el_Fail ord i c = ?c" using False some by (simp add: el_Fail_def)
    ultimately show ?thesis using assms(2) dom unfolding el_inv_def by simp
  qed
qed

datatype el_op = ElFail int | ElRecover int

definition el_step :: "el_orders \<Rightarrow> el_op \<Rightarrow> election_cluster \<Rightarrow> election_cluster" where
  "el_step ord p = (case p of ElFail i \<Rightarrow> el_Fail ord i | ElRecover i \<Rightarrow> el_Recover ord i)"

definition el_alive_after :: "el_op list \<Rightarrow> int set \<Rightarrow> int set" where
  "el_alive_after ps A = fold (\<lambda>p A. case p of ElFail i \<Rightarrow> A - {i} | ElRecover i \<Rightarrow> insert i A) ps A"

lemma el_run_inv:
  assumes "range_orders ord"
  shows "el_inv (set ids) (el_alive_after ps (set ids)) (fold (el_step ord) ps (NewBullyElectionCluster ord ids))"
proof -
  have "el_inv known (el_alive_after ps A) (fold (el_step ord) ps c)" if "el_inv known A c" for known A c
    using that
  proof (induction ps arbitrary: A c)
    case (Cons p ps)
    then show ?case
      using el_Fail_ok [OF assms Cons.prems] el_Recover_ok [OF assms Cons.prems]
      by (cases p) (simp_all add: el_step_def el_alive_after_def)
  qed (simp add: el_alive_after_def)
  then show ?thesis using el_leader_start [OF assms] .
qed

lemma el_alive_after_known: "\<forall>i. ElRecover i \<in> set ps \<longrightarrow> i \<in> K \<Longrightarrow> A \<subseteq> K \<Longrightarrow> el_alive_after ps A \<subseteq> K"
proof (induction ps arbitrary: A)
  case (Cons p ps)
  have "(case p of ElFail i \<Rightarrow> A - {i} | ElRecover i \<Rightarrow> insert i A) \<subseteq> K" using Cons.prems by (cases p) auto
  then show ?case using Cons.IH Cons.prems(1) by (simp add: el_alive_after_def)
qed (simp add: el_alive_after_def)



text \<open>An id that was never in the cluster can lead without a role.\<close>

lemma el_unknown_leader:
  "let c = el_Recover (\<lambda>n. sorted_list_of_fset) 7 (NewBullyElectionCluster (\<lambda>n. sorted_list_of_fset) [1, 2])
   in el_leader c = 7 \<and> fmlookup (el_roles c) 7 = None"
  by code_simp

end
