(* ===== verification/Lock_Manager.thy ===== *)
theory Lock_Manager
  imports Go_Prelude
begin

text \<open>
  \<open>src/32-Distributed-Lock/main.go\<close>: leases on named resources with fencing tokens. Each call of
  \<open>time.Now\<close> is the argument \<open>now\<close>. A failed \<open>Acquire\<close> returns the zero lease; its expiry, the
  zero time of Go, is written as 0 here, and no operation reads it.
\<close>

record lease =
  ls_Owner :: string
  ls_Token :: int
  ls_ExpiresAt :: int

record lock_manager =
  lm_locks :: "(string, lease) gomap"
  lm_nextToken :: int

definition NewDistributedLockManager :: lock_manager where
  "NewDistributedLockManager = \<lparr>lm_locks = fmempty, lm_nextToken = 1\<rparr>"

definition zero_time :: int where
  "zero_time = 0"

definition zero_lease :: lease where
  "zero_lease = \<lparr>ls_Owner = [], ls_Token = 0, ls_ExpiresAt = zero_time\<rparr>"

definition lm_Acquire :: "int \<Rightarrow> string \<Rightarrow> string \<Rightarrow> int \<Rightarrow> lock_manager \<Rightarrow> (lease \<times> bool) \<times> lock_manager" where
  "lm_Acquire now resource owner ttl m =
     (if (case fmlookup (lm_locks m) resource of Some current \<Rightarrow> ls_ExpiresAt current > now | None \<Rightarrow> False)
      then ((zero_lease, False), m)
      else (let l = \<lparr>ls_Owner = owner, ls_Token = lm_nextToken m, ls_ExpiresAt = now + ttl\<rparr>;
                m = m\<lparr>lm_nextToken := lm_nextToken m + 1\<rparr>;
                m = m\<lparr>lm_locks := fmupd resource l (lm_locks m)\<rparr>
            in ((l, True), m)))"

definition lm_Release :: "string \<Rightarrow> string \<Rightarrow> int \<Rightarrow> lock_manager \<Rightarrow> bool \<times> lock_manager" where
  "lm_Release resource owner token m =
     (case fmlookup (lm_locks m) resource of
        None \<Rightarrow> (False, m)
      | Some current \<Rightarrow>
          if ls_Owner current \<noteq> owner then (False, m)
          else if ls_Token current \<noteq> token then (False, m)
          else (True, m\<lparr>lm_locks := fmdrop resource (lm_locks m)\<rparr>))"

definition lm_Validate :: "int \<Rightarrow> string \<Rightarrow> int \<Rightarrow> lock_manager \<Rightarrow> bool" where
  "lm_Validate now resource token m =
     (case fmlookup (lm_locks m) resource of
        None \<Rightarrow> False
      | Some l \<Rightarrow> ls_Token l = token \<and> ls_ExpiresAt l > now)"

subsection \<open>Histories\<close>

datatype lm_op = LmAcquire string string int | LmRelease string string int

text \<open>What a history records: leases that were granted, with the time, and releases that succeeded.\<close>

datatype lm_event = Granted int string lease | Released string int

definition lm_step :: "int \<Rightarrow> lm_op \<Rightarrow> lock_manager \<Rightarrow> lm_event list \<times> lock_manager" where
  "lm_step now c m = (case c of
      LmAcquire r own ttl \<Rightarrow> (case lm_Acquire now r own ttl m of
        ((l, ok), m') \<Rightarrow> (if ok then [Granted now r l] else [], m'))
    | LmRelease r own tok \<Rightarrow> (case lm_Release r own tok m of
        (ok, m') \<Rightarrow> (if ok then [Released r tok] else [], m')))"

fun lm_run :: "(int \<times> lm_op) list \<Rightarrow> lock_manager \<Rightarrow> lm_event list \<times> lock_manager" where
  "lm_run [] m = ([], m)"
| "lm_run ((now, c) # cs) m =
     (case lm_step now c m of (es, m') \<Rightarrow> (case lm_run cs m' of (es', m'') \<Rightarrow> (es @ es', m'')))"

lemma lm_run_snoc:
  "lm_run (cs @ [(now, c)]) m =
     (case lm_run cs m of (es, m') \<Rightarrow> (case lm_step now c m' of (es', m'') \<Rightarrow> (es @ es', m'')))"
  by (induction cs m rule: lm_run.induct) (auto split: prod.splits)

text \<open>No lease is granted before an earlier one of the same resource has expired or was released.\<close>

definition exclusive :: "lm_event list \<Rightarrow> bool" where
  "exclusive es \<longleftrightarrow> (\<forall>xs ys zs t t' r l l'. es = xs @ Granted t r l # ys @ Granted t' r l' # zs \<longrightarrow>
     ls_ExpiresAt l \<le> t' \<or> Released r (ls_Token l) \<in> set ys)"

definition granted_tokens :: "lm_event list \<Rightarrow> int list" where
  "granted_tokens es = List.map_filter (\<lambda>e. case e of Granted t r l \<Rightarrow> Some (ls_Token l) | _ \<Rightarrow> None) es"

text \<open>The manager's map against the history, for a history that ends at the time \<open>now\<close>.\<close>

definition lm_past :: "int \<Rightarrow> lm_event list \<Rightarrow> lock_manager \<Rightarrow> bool" where
  "lm_past now es m \<longleftrightarrow> (\<forall>xs t r l ys. es = xs @ Granted t r l # ys \<longrightarrow>
     ls_Token l < lm_nextToken m \<and>
     (fmlookup (lm_locks m) r = Some l \<or> ls_ExpiresAt l \<le> now \<or> Released r (ls_Token l) \<in> set ys))"

definition lm_held :: "lm_event list \<Rightarrow> lock_manager \<Rightarrow> bool" where
  "lm_held es m \<longleftrightarrow>
     (\<forall>r l. fmlookup (lm_locks m) r = Some l \<longrightarrow> (\<exists>t. Granted t r l \<in> set es) \<and>
        Released r (ls_Token l) \<notin> set es \<and> (\<forall>t' l'. Granted t' r l' \<in> set es \<longrightarrow> ls_Token l' \<le> ls_Token l)) \<and>
     (\<forall>r k. Released r k \<in> set es \<longrightarrow> k < lm_nextToken m) \<and>
     (\<forall>k \<in> set (granted_tokens es). k < lm_nextToken m)"

definition lm_inv :: "int \<Rightarrow> lm_event list \<Rightarrow> lock_manager \<Rightarrow> bool" where
  "lm_inv now es m \<longleftrightarrow> lm_past now es m \<and> lm_held es m \<and> exclusive es \<and> sorted_wrt (<) (granted_tokens es)"

lemma granted_tokens_snoc [simp]:
  "granted_tokens [] = []"
  "granted_tokens (es @ [Granted t r l]) = granted_tokens es @ [ls_Token l]"
  "granted_tokens (es @ [Released r k]) = granted_tokens es"
  by (simp_all add: granted_tokens_def List.map_filter_def)

lemma Granted_token: "Granted t r l \<in> set es \<Longrightarrow> ls_Token l \<in> set (granted_tokens es)"
  by (force simp: granted_tokens_def List.map_filter_def)

lemma snoc_split:
  "es @ [e] = xs @ x # ys \<longleftrightarrow> (ys = [] \<and> xs = es \<and> x = e) \<or> (\<exists>ys'. ys = ys' @ [e] \<and> es = xs @ x # ys')"
  by (cases ys rule: rev_cases) auto

lemma exclusive_snoc:
  "exclusive (es @ [e]) \<longleftrightarrow> exclusive es \<and> (\<forall>xs ys t t' r l l'. e = Granted t' r l' \<longrightarrow> es = xs @ Granted t r l # ys \<longrightarrow>
     ls_ExpiresAt l \<le> t' \<or> Released r (ls_Token l) \<in> set ys)"
proof
  assume ex: "exclusive (es @ [e])"
  have "exclusive es" unfolding exclusive_def
  proof (intro allI impI)
    fix xs ys zs t t' r l l'
    assume "es = xs @ Granted t r l # ys @ Granted t' r l' # zs"
    then have "es @ [e] = xs @ Granted t r l # ys @ Granted t' r l' # (zs @ [e])" by simp
    then show "ls_ExpiresAt l \<le> t' \<or> Released r (ls_Token l) \<in> set ys"
      using ex unfolding exclusive_def by blast
  qed
  moreover have "ls_ExpiresAt l \<le> t' \<or> Released r (ls_Token l) \<in> set ys"
    if "e = Granted t' r l'" "es = xs @ Granted t r l # ys" for xs ys t t' r l l'
  proof -
    have "es @ [e] = xs @ Granted t r l # ys @ Granted t' r l' # []" using that by simp
    then show ?thesis using ex unfolding exclusive_def by blast
  qed
  ultimately show "exclusive es \<and> (\<forall>xs ys t t' r l l'. e = Granted t' r l' \<longrightarrow> es = xs @ Granted t r l # ys \<longrightarrow>
     ls_ExpiresAt l \<le> t' \<or> Released r (ls_Token l) \<in> set ys)" by blast
next
  assume *: "exclusive es \<and> (\<forall>xs ys t t' r l l'. e = Granted t' r l' \<longrightarrow> es = xs @ Granted t r l # ys \<longrightarrow>
     ls_ExpiresAt l \<le> t' \<or> Released r (ls_Token l) \<in> set ys)"
  show "exclusive (es @ [e])" unfolding exclusive_def
  proof (intro allI impI)
    fix xs ys zs t t' r l l'
    assume eq: "es @ [e] = xs @ Granted t r l # ys @ Granted t' r l' # zs"
    show "ls_ExpiresAt l \<le> t' \<or> Released r (ls_Token l) \<in> set ys"
    proof (cases zs rule: rev_cases)
      case Nil
      then have "e = Granted t' r l'" "es = xs @ Granted t r l # ys" using eq by simp_all
      then show ?thesis using * by blast
    next
      case (snoc zs' z)
      then have "es = xs @ Granted t r l # ys @ Granted t' r l' # zs'" using eq by simp
      then show ?thesis using conjunct1 [OF *] unfolding exclusive_def by blast
    qed
  qed
qed

lemma lm_past_mono:
  assumes "lm_past now es m" "now \<le> t"
  shows "lm_past t es m"
  unfolding lm_past_def
proof (intro allI impI)
  fix xs u r l ys
  assume "es = xs @ Granted u r l # ys"
  then have "ls_Token l < lm_nextToken m \<and>
      (fmlookup (lm_locks m) r = Some l \<or> ls_ExpiresAt l \<le> now \<or> Released r (ls_Token l) \<in> set ys)"
    using assms(1) unfolding lm_past_def by blast
  then show "ls_Token l < lm_nextToken m \<and>
      (fmlookup (lm_locks m) r = Some l \<or> ls_ExpiresAt l \<le> t \<or> Released r (ls_Token l) \<in> set ys)"
    using assms(2) by auto
qed

lemma lm_inv_mono: "lm_inv now es m \<Longrightarrow> now \<le> t \<Longrightarrow> lm_inv t es m"
  unfolding lm_inv_def using lm_past_mono by blast

lemma lm_past_Granted:
  assumes "lm_past now es m" "fmlookup (lm_locks m) r = None \<or> (\<exists>c. fmlookup (lm_locks m) r = Some c \<and> ls_ExpiresAt c \<le> now)"
    and "ls_Token l = lm_nextToken m"
  shows "lm_past now (es @ [Granted now r l]) (m\<lparr>lm_locks := fmupd r l (lm_locks m), lm_nextToken := lm_nextToken m + 1\<rparr>)"
  unfolding lm_past_def
proof (intro allI impI)
  fix xs t q k ys
  assume "es @ [Granted now r l] = xs @ Granted t q k # ys"
  then consider "ys = []" "q = r" "k = l" | ys' where "ys = ys' @ [Granted now r l]" "es = xs @ Granted t q k # ys'"
    unfolding snoc_split by auto
  then show "ls_Token k < lm_nextToken (m\<lparr>lm_locks := fmupd r l (lm_locks m), lm_nextToken := lm_nextToken m + 1\<rparr>) \<and>
     (fmlookup (lm_locks (m\<lparr>lm_locks := fmupd r l (lm_locks m), lm_nextToken := lm_nextToken m + 1\<rparr>)) q = Some k \<or>
      ls_ExpiresAt k \<le> now \<or> Released q (ls_Token k) \<in> set ys)"
  proof cases
    case 1
    then show ?thesis using assms(3) by simp
  next
    case 2
    then have "ls_Token k < lm_nextToken m \<and> (fmlookup (lm_locks m) q = Some k \<or> ls_ExpiresAt k \<le> now \<or> Released q (ls_Token k) \<in> set ys')"
      using assms(1) unfolding lm_past_def by blast
    then show ?thesis using 2(1) assms(2) by auto
  qed
qed

lemma lm_past_Released:
  assumes "lm_past now es m" "fmlookup (lm_locks m) r = Some l" "ls_Token l = tok"
  shows "lm_past now (es @ [Released r tok]) (m\<lparr>lm_locks := fmdrop r (lm_locks m)\<rparr>)"
  unfolding lm_past_def
proof (intro allI impI)
  fix xs t q k ys
  assume "es @ [Released r tok] = xs @ Granted t q k # ys"
  then obtain ys' where ys: "ys = ys' @ [Released r tok]" "es = xs @ Granted t q k # ys'"
    unfolding snoc_split by auto
  then have "ls_Token k < lm_nextToken m \<and> (fmlookup (lm_locks m) q = Some k \<or> ls_ExpiresAt k \<le> now \<or> Released q (ls_Token k) \<in> set ys')"
    using assms(1) unfolding lm_past_def by blast
  then show "ls_Token k < lm_nextToken (m\<lparr>lm_locks := fmdrop r (lm_locks m)\<rparr>) \<and>
     (fmlookup (lm_locks (m\<lparr>lm_locks := fmdrop r (lm_locks m)\<rparr>)) q = Some k \<or> ls_ExpiresAt k \<le> now \<or> Released q (ls_Token k) \<in> set ys)"
    using ys(1) assms(2,3) by (cases "q = r") auto
qed

lemma lm_step_inv:
  assumes inv: "lm_inv now es m" and step: "lm_step now c m = (es', m')"
  shows "lm_inv now (es @ es') m'"
proof (cases c)
  case (LmAcquire r own ttl)
  show ?thesis
  proof (cases "\<exists>current. fmlookup (lm_locks m) r = Some current \<and> ls_ExpiresAt current > now")
    case True
    then show ?thesis using inv step by (auto simp: LmAcquire lm_step_def lm_Acquire_def)
  next
    case False
    define l where "l = \<lparr>ls_Owner = own, ls_Token = lm_nextToken m, ls_ExpiresAt = now + ttl\<rparr>"
    have run: "es' = [Granted now r l]" "m' = m\<lparr>lm_locks := fmupd r l (lm_locks m), lm_nextToken := lm_nextToken m + 1\<rparr>"
      using step False by (auto simp: LmAcquire lm_step_def lm_Acquire_def l_def Let_def split: option.splits)
    have free: "fmlookup (lm_locks m) r = None \<or> (\<exists>c. fmlookup (lm_locks m) r = Some c \<and> ls_ExpiresAt c \<le> now)"
      using False by (cases "fmlookup (lm_locks m) r") auto
    have tok: "ls_Token l = lm_nextToken m" by (simp add: l_def)
    have past: "lm_past now es m" and held: "lm_held es m" and ex: "exclusive es" and srt: "sorted_wrt (<) (granted_tokens es)"
      using inv by (simp_all add: lm_inv_def)
    have "exclusive (es @ [Granted now r l])"
      unfolding exclusive_snoc
    proof (intro conjI allI impI ex)
      fix xs ys t t' q k k'
      assume e: "Granted now r l = Granted t' q k'" and "es = xs @ Granted t q k # ys"
      then have "fmlookup (lm_locks m) q = Some k \<or> ls_ExpiresAt k \<le> now \<or> Released q (ls_Token k) \<in> set ys"
        using past unfolding lm_past_def by blast
      then show "ls_ExpiresAt k \<le> t' \<or> Released q (ls_Token k) \<in> set ys" using e free by auto
    qed
    moreover have "lm_held (es @ [Granted now r l]) m'"
      using held unfolding lm_held_def run(2)
      by (auto simp: tok dest: Granted_token split: if_splits) (metis Granted_token less_imp_le, fastforce+)
    moreover have "sorted_wrt (<) (granted_tokens (es @ [Granted now r l]))"
      using srt held by (simp add: sorted_wrt_append lm_held_def tok)
    ultimately show ?thesis
      using lm_past_Granted [OF past free tok] by (simp add: lm_inv_def run)
  qed
next
  case (LmRelease r own tok)
  show ?thesis
  proof (cases "\<exists>l. fmlookup (lm_locks m) r = Some l \<and> ls_Owner l = own \<and> ls_Token l = tok")
    case False
    then show ?thesis using inv step
      by (auto simp: LmRelease lm_step_def lm_Release_def split: option.splits if_splits)
  next
    case True
    then obtain l where l: "fmlookup (lm_locks m) r = Some l" "ls_Owner l = own" "ls_Token l = tok" by blast
    have run: "es' = [Released r tok]" "m' = m\<lparr>lm_locks := fmdrop r (lm_locks m)\<rparr>"
      using step l by (auto simp: LmRelease lm_step_def lm_Release_def)
    have held: "lm_held es m" using inv by (simp add: lm_inv_def)
    have "tok < lm_nextToken m" using held l Granted_token unfolding lm_held_def by blast
    then have "lm_held (es @ [Released r tok]) m'"
      using held unfolding lm_held_def run(2) by (auto split: if_splits)
    then show ?thesis
      using inv lm_past_Released [OF _ l(1,3), of now es] by (simp add: lm_inv_def run exclusive_snoc)
  qed
qed

lemma lm_run_inv:
  assumes "sorted (map fst cs)" "\<forall>(t, c) \<in> set cs. t \<le> now"
  shows "case lm_run cs NewDistributedLockManager of (es, m) \<Rightarrow> lm_inv now es m"
  using assms
proof (induction cs arbitrary: now rule: rev_induct)
  case Nil
  show ?case
    by (simp add: lm_inv_def lm_past_def lm_held_def exclusive_def NewDistributedLockManager_def)
next
  case (snoc x cs)
  obtain t c where x: "x = (t, c)" by (cases x)
  obtain es m where run: "lm_run cs NewDistributedLockManager = (es, m)"
    by (cases "lm_run cs NewDistributedLockManager")
  obtain es' m' where step: "lm_step t c m = (es', m')" by (cases "lm_step t c m")
  have "sorted (map fst cs)" "\<forall>(u, c) \<in> set cs. u \<le> t"
    using snoc.prems(1) by (auto simp: x sorted_append)
  then have "lm_inv t es m" using snoc.IH [of t] by (simp add: run)
  then have "lm_inv t (es @ es') m'" using step by (rule lm_step_inv)
  then have "lm_inv now (es @ es') m'" using lm_inv_mono snoc.prems(2) by (auto simp: x)
  then show ?case by (simp add: lm_run_snoc run step x)
qed

text \<open>
  C7. At times that do not decrease: no lease on a resource is granted before the previous one has
  expired or was released by its owner with its token; tokens grow strictly in the order of the
  grants; and a token is valid only if it belongs to the newest lease of the resource, which has neither
  expired nor been released.
\<close>
theorem lm_mutual_exclusion:
  assumes "sorted (map fst cs)" "\<forall>(t, c) \<in> set cs. t \<le> now"
  shows "case lm_run cs NewDistributedLockManager of (es, m) \<Rightarrow>
    exclusive es \<and> sorted_wrt (<) (granted_tokens es) \<and>
    (\<forall>r k. lm_Validate now r k m \<longrightarrow> (\<exists>t l. Granted t r l \<in> set es \<and> ls_Token l = k \<and> now < ls_ExpiresAt l \<and>
       Released r k \<notin> set es \<and> (\<forall>t' l'. Granted t' r l' \<in> set es \<longrightarrow> ls_Token l' \<le> k)))"
proof -
  obtain es m where run: "lm_run cs NewDistributedLockManager = (es, m)"
    by (cases "lm_run cs NewDistributedLockManager")
  have inv: "lm_inv now es m" using lm_run_inv [OF assms] by (simp add: run)
  have "\<exists>t l. Granted t r l \<in> set es \<and> ls_Token l = k \<and> now < ls_ExpiresAt l \<and>
       Released r k \<notin> set es \<and> (\<forall>t' l'. Granted t' r l' \<in> set es \<longrightarrow> ls_Token l' \<le> k)"
    if v: "lm_Validate now r k m" for r k
  proof -
    obtain l where l: "fmlookup (lm_locks m) r = Some l" "ls_Token l = k" "now < ls_ExpiresAt l"
      using v by (auto simp: lm_Validate_def split: option.splits)
    then show ?thesis using inv unfolding lm_inv_def lm_held_def by blast
  qed
  then show ?thesis using inv by (simp add: run lm_inv_def)
qed

lemma lm_mutual_exclusion_witness:
  "exclusive (fst (lm_run [(0, LmAcquire ''r'' ''a'' 5), (3, LmAcquire ''r'' ''b'' 5), (6, LmAcquire ''r'' ''b'' 5)]
     NewDistributedLockManager)) \<and>
   granted_tokens (fst (lm_run [(0, LmAcquire ''r'' ''a'' 5), (3, LmAcquire ''r'' ''b'' 5), (6, LmAcquire ''r'' ''b'' 5)]
     NewDistributedLockManager)) = [1, 2]"
proof -
  let ?cs = "[(0 :: int, LmAcquire ''r'' ''a'' 5), (3, LmAcquire ''r'' ''b'' 5), (6, LmAcquire ''r'' ''b'' 5)]"
  have "sorted (map fst ?cs)" "\<forall>(t, c) \<in> set ?cs. t \<le> 6" by simp_all
  from lm_mutual_exclusion [OF this] have "exclusive (fst (lm_run ?cs NewDistributedLockManager))"
    by (simp only: case_prod_beta)
  moreover have "granted_tokens (fst (lm_run ?cs NewDistributedLockManager)) = [1, 2]" by code_simp
  ultimately show ?thesis by blast
qed

end
