(* ===== verification/Merge_Interface.thy ===== *)
theory Merge_Interface
  imports Go_Prelude
begin

text \<open>
  The contract of the states that replicas exchange: a merge takes, in what can be observed of the state,
  the maximum of both sides, point by point. From this alone, replicas that have merged the same
  states agree, whatever the order and however often.
\<close>

locale max_merge =
  fixes invar :: "'s \<Rightarrow> bool"
    and merge :: "'s \<Rightarrow> 's \<Rightarrow> 's"
    and obs :: "'s \<Rightarrow> 'k \<Rightarrow> int"
  assumes merge_invar: "invar a \<Longrightarrow> invar b \<Longrightarrow> invar (merge b a)"
    and merge_obs: "invar a \<Longrightarrow> invar b \<Longrightarrow> obs (merge b a) k = max (obs a k) (obs b k)"
begin

lemma merge_commute: "invar a \<Longrightarrow> invar b \<Longrightarrow> obs (merge b a) = obs (merge a b)"
  by (rule ext) (simp add: merge_obs max.commute)

lemma merge_assoc:
  "invar a \<Longrightarrow> invar b \<Longrightarrow> invar c \<Longrightarrow> obs (merge c (merge b a)) = obs (merge (merge c b) a)"
  by (rule ext) (simp add: merge_obs merge_invar max.assoc)

lemma merge_idem: "invar a \<Longrightarrow> obs (merge a a) = obs a"
  by (rule ext) (simp add: merge_obs)

text \<open>The merge is the least state above both.\<close>

lemma merge_least:
  assumes "invar a" "invar b"
  shows "(\<forall>k. obs (merge b a) k \<le> obs c k) \<longleftrightarrow> (\<forall>k. obs a k \<le> obs c k) \<and> (\<forall>k. obs b k \<le> obs c k)"
  using assms by (auto simp: merge_obs)

lemma fold_merge:
  "invar a \<Longrightarrow> \<forall>b \<in> set bs. invar b \<Longrightarrow>
     invar (fold merge bs a) \<and> obs (fold merge bs a) k = Max ((\<lambda>b. obs b k) ` insert a (set bs))"
proof (induction bs arbitrary: a)
  case (Cons b bs)
  have "(\<lambda>b. obs b k) ` insert (merge b a) (set bs) = insert (max (obs a k) (obs b k)) ((\<lambda>b. obs b k) ` set bs)"
    using Cons.prems by (simp add: merge_obs)
  moreover have "Max (insert (max (obs a k) (obs b k)) ((\<lambda>b. obs b k) ` set bs))
      = Max (insert (obs a k) (insert (obs b k) ((\<lambda>b. obs b k) ` set bs)))"
    by (cases "bs = []") (simp_all add: max.assoc)
  moreover have "invar (merge b a)" using Cons.prems by (simp add: merge_invar)
  ultimately show ?case using Cons.IH [of "merge b a"] Cons.prems(2) by simp
qed simp

lemma converge:
  assumes "\<forall>b \<in> insert a (set bs). invar b" "insert a (set bs) = insert a' (set bs')"
  shows "obs (fold merge bs a) = obs (fold merge bs' a')"
proof (rule ext)
  fix k
  have inv': "\<forall>b \<in> insert a' (set bs'). invar b" using assms by simp
  have "obs (fold merge bs a) k = Max ((\<lambda>b. obs b k) ` insert a (set bs))"
    using fold_merge assms(1) by blast
  also have "\<dots> = Max ((\<lambda>b. obs b k) ` insert a' (set bs'))" by (simp only: assms(2))
  also have "\<dots> = obs (fold merge bs' a') k" using fold_merge [of a' bs' k] inv' by simp
  finally show "obs (fold merge bs a) k = obs (fold merge bs' a') k" .
qed

end

subsection \<open>Merging counters in a map\<close>

text \<open>The loop \<open>for node, value := range\<close>: raise each counter to the other's.\<close>

definition raise_to :: "(string, int) gomap \<Rightarrow> string \<Rightarrow> (string, int) gomap \<Rightarrow> (string, int) gomap" where
  "raise_to other node m =
     (if gm_get 0 other node > gm_get 0 m node then fmupd node (gm_get 0 other node) m else m)"

lemma raise_to_get:
  assumes "distinct ks" "\<And>k. k \<notin> set ks \<Longrightarrow> fmlookup other k = None"
    and "\<And>k. fmlookup other k = None \<Longrightarrow> 0 \<le> gm_get 0 m k"
  shows "gm_get 0 (fold (raise_to other) ks m) k = max (gm_get 0 m k) (gm_get 0 other k)"
proof -
  have "fmlookup (fold (raise_to other) ks m) k = (if k \<in> set ks
     then (\<lambda>k v. if gm_get 0 other k > (case v of None \<Rightarrow> 0 | Some x \<Rightarrow> x) then Some (gm_get 0 other k) else v) k (fmlookup m k)
     else fmlookup m k)"
    by (rule fold_pointwise) (simp_all add: raise_to_def gm_get_def assms(1))
  then show ?thesis
    using assms(2) [of k] assms(3) [of k] by (auto simp: gm_get_def split: option.splits)
qed

end
