(* ===== verification/Gossip.thy ===== *)
theory Gossip
  imports Merge_Interface
begin

text \<open>
  \<open>src/33-Gossip-Protocol/main.go\<close>: nodes with versioned values that exchange their whole states and
  keep, for each key, the value with the larger version. On equal versions each side keeps its
  own value, so two writers of one key can disagree for ever; with one writer for each key the exchange
  makes both sides equal.
\<close>

record gossip_value =
  gv_Value :: string
  gv_Version :: int

record gossip_node =
  gn_ID :: string
  gn_state :: "(string, gossip_value) gomap"

type_synonym gs_orders = "nat \<Rightarrow> string fset \<Rightarrow> string list"

definition NewGossipNode :: "string \<Rightarrow> gossip_node" where
  "NewGossipNode i = \<lparr>gn_ID = i, gn_state = fmempty\<rparr>"

definition gs_Set :: "string \<Rightarrow> string \<Rightarrow> gossip_node \<Rightarrow> gossip_node" where
  "gs_Set key v n =
     (let current = gm_get \<lparr>gv_Value = [], gv_Version = 0\<rparr> (gn_state n) key in
      n\<lparr>gn_state := fmupd key \<lparr>gv_Value = v, gv_Version = gv_Version current + 1\<rparr> (gn_state n)\<rparr>)"

definition gs_mergeKey :: "(string, gossip_value) gomap \<Rightarrow> string \<Rightarrow> (string, gossip_value) gomap \<Rightarrow>
    (string, gossip_value) gomap" where
  "gs_mergeKey remote key m =
     (case fmlookup remote key of
        None \<Rightarrow> m
      | Some incoming \<Rightarrow>
          (case fmlookup m key of
             None \<Rightarrow> fmupd key incoming m
           | Some here \<Rightarrow> if gv_Version incoming > gv_Version here then fmupd key incoming m else m))"

definition gs_merge :: "gs_orders \<Rightarrow> (string, gossip_value) gomap \<Rightarrow> gossip_node \<Rightarrow> gossip_node" where
  "gs_merge ord remote n = n\<lparr>gn_state := fold (gs_mergeKey remote) (ord 0 (fmdom remote)) (gn_state n)\<rparr>"

text \<open>The node that gossips, and its peer (another node).\<close>

definition gs_GossipTo :: "gs_orders \<Rightarrow> gossip_node \<Rightarrow> gossip_node \<Rightarrow> gossip_node \<times> gossip_node" where
  "gs_GossipTo ord n peer =
     (let peer = gs_merge ord (gn_state n) peer; n = gs_merge ord (gn_state peer) n in (n, peer))"

definition gs_Get :: "string \<Rightarrow> gossip_node \<Rightarrow> string \<times> bool" where
  "gs_Get key n =
     (case fmlookup (gn_state n) key of None \<Rightarrow> ([], False) | Some v \<Rightarrow> (gv_Value v, True))"

subsection \<open>Merging\<close>

text \<open>The newer of two entries, the second one on a tie.\<close>

fun newer :: "gossip_value option \<Rightarrow> gossip_value option \<Rightarrow> gossip_value option" where
  "newer None e = e"
| "newer (Some i) None = Some i"
| "newer (Some i) (Some e) = (if gv_Version i > gv_Version e then Some i else Some e)"

lemma newer_None [simp]: "newer e None = e"
  by (cases e) simp_all

lemma gs_merge_lookup:
  assumes "range_orders ord"
  shows "fmlookup (gn_state (gs_merge ord remote n)) k = newer (fmlookup remote k) (fmlookup (gn_state n) k)"
proof -
  let ?ks = "ord 0 (fmdom remote)"
  have "fmlookup (fold (gs_mergeKey remote) ?ks (gn_state n)) k = (if k \<in> set ?ks
     then (\<lambda>k e. newer (fmlookup remote k) e) k (fmlookup (gn_state n) k) else fmlookup (gn_state n) k)"
    by (rule fold_pointwise)
      (simp_all add: gs_mergeKey_def range_orders_distinct [OF assms] split: option.splits)
  then show ?thesis
    by (cases "fmlookup remote k") (auto simp: gs_merge_def range_orders_set [OF assms] fmlookup_dom_iff)
qed

lemma gs_GossipTo_lookup:
  assumes "range_orders ord" "gs_GossipTo ord n peer = (n', peer')"
  shows "fmlookup (gn_state peer') k = newer (fmlookup (gn_state n) k) (fmlookup (gn_state peer) k)"
    and "fmlookup (gn_state n') k = newer (fmlookup (gn_state peer') k) (fmlookup (gn_state n) k)"
  using assms(2) by (auto simp: gs_GossipTo_def Let_def gs_merge_lookup [OF assms(1)])

text \<open>The versions of the states are an instance of the merge contract.\<close>

definition gs_version :: "gossip_node \<Rightarrow> string \<Rightarrow> int" where
  "gs_version n k = (case fmlookup (gn_state n) k of None \<Rightarrow> 0 | Some e \<Rightarrow> gv_Version e)"

definition gs_ok :: "gossip_node \<Rightarrow> bool" where
  "gs_ok n \<longleftrightarrow> (\<forall>k e. fmlookup (gn_state n) k = Some e \<longrightarrow> 0 < gv_Version e)"

lemma gs_merge_version:
  assumes "range_orders ord" "gs_ok n" "gs_ok m"
  shows "gs_version (gs_merge ord (gn_state m) n) k = max (gs_version n k) (gs_version m k)"
    and "gs_ok (gs_merge ord (gn_state m) n)"
proof -
  show "gs_version (gs_merge ord (gn_state m) n) k = max (gs_version n k) (gs_version m k)"
    using assms(2,3) unfolding gs_version_def gs_merge_lookup [OF assms(1)] gs_ok_def
    by (cases "fmlookup (gn_state m) k"; cases "fmlookup (gn_state n) k") (force simp: max_def)+
  have "newer a b = a \<or> newer a b = b" for a b by (cases "(a, b)" rule: newer.cases) auto
  then show "gs_ok (gs_merge ord (gn_state m) n)"
    using assms(2,3) unfolding gs_ok_def gs_merge_lookup [OF assms(1)] by metis
qed

interpretation gs: max_merge gs_ok "\<lambda>m. gs_merge (\<lambda>n. sorted_list_of_fset) (gn_state m)" gs_version
  by unfold_locales (simp_all add: gs_merge_version range_orders_sorted)

subsection \<open>A network\<close>

datatype gs_op = GsSet string string string | GsGossip string string

type_synonym network = "string \<Rightarrow> gossip_node"

definition gs_step :: "gs_orders \<Rightarrow> gs_op \<Rightarrow> network \<Rightarrow> network" where
  "gs_step ord c net = (case c of
      GsSet a key v \<Rightarrow> net(a := gs_Set key v (net a))
    | GsGossip a b \<Rightarrow> (if a = b then net
        else (case gs_GossipTo ord (net a) (net b) of (n, p) \<Rightarrow> net(a := n, b := p))))"

definition gs_run :: "gs_orders \<Rightarrow> gs_op list \<Rightarrow> network" where
  "gs_run ord ops = fold (gs_step ord) ops NewGossipNode"

text \<open>The values written to a key, in order, and the condition that only one node writes a key.\<close>

definition written :: "gs_op list \<Rightarrow> string \<Rightarrow> string list" where
  "written ops key = List.map_filter (\<lambda>c. case c of GsSet a k v \<Rightarrow> if k = key then Some v else None | _ \<Rightarrow> None) ops"

definition one_writer :: "(string \<Rightarrow> string) \<Rightarrow> gs_op list \<Rightarrow> bool" where
  "one_writer writer ops \<longleftrightarrow> (\<forall>a k v. GsSet a k v \<in> set ops \<longrightarrow> a = writer k)"

lemma written_snoc [simp]:
  "written [] k = []"
  "written (ops @ [GsSet a j v]) k = written ops k @ (if j = k then [v] else [])"
  "written (ops @ [GsGossip a b]) k = written ops k"
  by (simp_all add: written_def List.map_filter_def)

text \<open>An entry is one of the values written, with its place in the order as the version.\<close>

definition from_history :: "string list \<Rightarrow> gossip_value option \<Rightarrow> bool" where
  "from_history vs e \<longleftrightarrow> (case e of None \<Rightarrow> True
     | Some x \<Rightarrow> \<exists>i < length vs. gv_Version x = int i + 1 \<and> gv_Value x = vs ! i)"

definition latest :: "string list \<Rightarrow> gossip_value option" where
  "latest vs = (if vs = [] then None else Some \<lparr>gv_Value = List.last vs, gv_Version = int (length vs)\<rparr>)"

definition gs_inv :: "(string \<Rightarrow> string) \<Rightarrow> gs_op list \<Rightarrow> network \<Rightarrow> bool" where
  "gs_inv writer ops net \<longleftrightarrow> (\<forall>k. fmlookup (gn_state (net (writer k))) k = latest (written ops k) \<and>
     (\<forall>a. from_history (written ops k) (fmlookup (gn_state (net a)) k)))"

lemma from_history_more: "from_history vs e \<Longrightarrow> from_history (vs @ ws) e"
  by (auto simp: from_history_def nth_append split: option.splits intro: trans_less_add1)

lemma from_history_newer: "from_history vs a \<Longrightarrow> from_history vs b \<Longrightarrow> from_history vs (newer a b)"
  by (cases "(a, b)" rule: newer.cases) auto

lemma from_history_latest: "from_history vs (latest vs)"
  by (auto simp: from_history_def latest_def last_conv_nth intro!: exI [of _ "length vs - 1"] simp: of_nat_diff Suc_le_eq)

lemma newer_latest:
  assumes "from_history vs e"
  shows "newer e (latest vs) = latest vs" "newer (latest vs) e = latest vs"
proof -
  have "e = latest vs" if "e = Some x" "i < length vs" "gv_Version x = int i + 1" "gv_Value x = vs ! i"
    "\<not> int i + 1 < int (length vs)" for x i
  proof -
    have "i = length vs - 1" using that by linarith
    then show ?thesis using that by (auto simp: latest_def last_conv_nth intro!: gossip_value.equality)
  qed
  then show "newer e (latest vs) = latest vs" "newer (latest vs) e = latest vs"
    using assms unfolding from_history_def latest_def
    by (auto split: option.splits if_splits)
qed

lemma history_tie:
  assumes "from_history vs a" "from_history vs b"
  shows "newer (newer a b) a = newer a b"
proof (cases "(a, b)" rule: newer.cases)
  case (3 i e)
  have "i = e" if "gv_Version i = gv_Version e"
    using assms that 3 by (auto simp: from_history_def intro: gossip_value.equality)
  then show ?thesis using 3 by auto
qed auto

lemma gs_Set_inv:
  assumes "gs_inv writer ops net" "a = writer key"
  shows "gs_inv writer (ops @ [GsSet a key v]) (gs_step ord (GsSet a key v) net)"
proof -
  let ?vs = "written ops key"
  have old: "fmlookup (gn_state (net a)) key = latest ?vs"
    using assms by (simp add: gs_inv_def)
  have "gv_Version (gm_get \<lparr>gv_Value = [], gv_Version = 0\<rparr> (gn_state (net a)) key) = int (length ?vs)"
    by (simp add: gm_get_def old latest_def)
  then have new: "fmlookup (gn_state (gs_Set key v (net a))) key = latest (?vs @ [v])"
    by (simp add: gs_Set_def Let_def latest_def)
  have other: "j \<noteq> key \<Longrightarrow> fmlookup (gn_state (gs_Set key v (net a))) j = fmlookup (gn_state (net a)) j" for j
    by (simp add: gs_Set_def Let_def)
  show ?thesis unfolding gs_inv_def
  proof (intro allI conjI)
    fix j b
    have inv: "fmlookup (gn_state (net (writer j))) j = latest (written ops j)"
      "from_history (written ops j) (fmlookup (gn_state (net b)) j)"
      using assms(1) by (simp_all add: gs_inv_def)
    show "fmlookup (gn_state (gs_step ord (GsSet a key v) net (writer j))) j = latest (written (ops @ [GsSet a key v]) j)"
      using inv(1) new other assms(2) by (cases "j = key"; cases "writer j = writer key") (simp_all add: gs_step_def)
    show "from_history (written (ops @ [GsSet a key v]) j) (fmlookup (gn_state (gs_step ord (GsSet a key v) net b)) j)"
      using inv(2) new other from_history_latest from_history_more
      by (cases "j = key"; cases "b = a") (simp_all add: gs_step_def)
  qed
qed

lemma gs_Gossip_inv:
  assumes ord: "range_orders ord" and inv: "gs_inv writer ops net"
  shows "gs_inv writer (ops @ [GsGossip a b]) (gs_step ord (GsGossip a b) net)"
proof (cases "a = b")
  case True
  then show ?thesis using inv by (simp add: gs_inv_def gs_step_def)
next
  case False
  obtain n p where np: "gs_GossipTo ord (net a) (net b) = (n, p)" by (cases "gs_GossipTo ord (net a) (net b)")
  note lk = gs_GossipTo_lookup [OF ord np]
  have net': "gs_step ord (GsGossip a b) net = net(a := n, b := p)"
    using False by (simp add: gs_step_def np)
  show ?thesis unfolding gs_inv_def
  proof (intro allI conjI)
    fix k c
    let ?vs = "written ops k"
    have hist: "\<And>c. from_history ?vs (fmlookup (gn_state (net c)) k)"
      and w: "fmlookup (gn_state (net (writer k))) k = latest ?vs"
      using inv by (simp_all add: gs_inv_def)
    have top: "newer (latest ?vs) (latest ?vs) = latest ?vs" by (rule newer_latest(1) [OF from_history_latest])
    show "fmlookup (gn_state (gs_step ord (GsGossip a b) net (writer k))) k = latest (written (ops @ [GsGossip a b]) k)"
      using w lk(1) [of k] lk(2) [of k] newer_latest [OF hist, of a] newer_latest [OF hist, of b] top False
      by (cases "writer k = a"; cases "writer k = b") (simp_all add: net')
    show "from_history (written (ops @ [GsGossip a b]) k) (fmlookup (gn_state (gs_step ord (GsGossip a b) net c)) k)"
      using hist lk(1) [of k] lk(2) [of k] from_history_newer False
      by (cases "c = b"; cases "c = a") (simp_all add: net')
  qed
qed

lemma gs_run_inv:
  assumes "range_orders ord" "one_writer writer ops"
  shows "gs_inv writer ops (gs_run ord ops)"
  using assms(2)
proof (induction ops rule: rev_induct)
  case Nil
  show ?case by (simp add: gs_inv_def gs_run_def NewGossipNode_def latest_def from_history_def)
next
  case (snoc c ops)
  have run: "gs_run ord (ops @ [c]) = gs_step ord c (gs_run ord ops)" by (simp add: gs_run_def)
  have "one_writer writer ops" using snoc.prems unfolding one_writer_def by auto
  then have ih: "gs_inv writer ops (gs_run ord ops)" by (rule snoc.IH)
  show ?case
  proof (cases c)
    case (GsSet a k v)
    then have "a = writer k" using snoc.prems by (simp add: one_writer_def)
    then show ?thesis unfolding run unfolding GsSet by (rule gs_Set_inv [OF ih])
  next
    case (GsGossip a b)
    then show ?thesis unfolding run by (simp add: gs_Gossip_inv [OF assms(1) ih])
  qed
qed

text \<open>
  C12. In a network where each key has one writer, after any sequence of writes and exchanges: the two
  nodes of one more exchange end with equal states; every node's value of a key is one the writer wrote,
  its version the number of writes up to it; and if one of the two is the writer, both have the last value.
\<close>
theorem gs_GossipTo_agree:
  assumes "range_orders ord" "one_writer writer ops" "a \<noteq> b"
  shows "let net = gs_run ord (ops @ [GsGossip a b]) in
    gn_state (net a) = gn_state (net b) \<and>
    (\<forall>c k. from_history (written ops k) (fmlookup (gn_state (net c)) k)) \<and>
    (\<forall>k. writer k \<in> {a, b} \<and> written ops k \<noteq> [] \<longrightarrow> gs_Get k (net a) = (List.last (written ops k), True))"
proof -
  let ?old = "gs_run ord ops" and ?net = "gs_run ord (ops @ [GsGossip a b])"
  obtain n p where np: "gs_GossipTo ord (?old a) (?old b) = (n, p)" by (cases "gs_GossipTo ord (?old a) (?old b)")
  note lk = gs_GossipTo_lookup [OF assms(1) np]
  have "?net = gs_step ord (GsGossip a b) ?old" by (simp add: gs_run_def)
  then have net: "?net = ?old(a := n, b := p)" using assms(3) by (simp add: gs_step_def np)
  have hist: "from_history (written ops k) (fmlookup (gn_state (?old c)) k)" for c k
    using gs_run_inv [OF assms(1,2)] by (simp add: gs_inv_def)
  have agree: "gn_state (?net a) = gn_state (?net b)"
    using assms(3) by (intro fmap_ext) (simp add: net lk history_tie [OF hist hist])
  have "one_writer writer (ops @ [GsGossip a b])" using assms(2) by (simp add: one_writer_def)
  from gs_run_inv [OF assms(1) this] have inv: "gs_inv writer (ops @ [GsGossip a b]) ?net" .
  then have "from_history (written ops k) (fmlookup (gn_state (?net c)) k)" for c k
    by (simp add: gs_inv_def)
  moreover have "gs_Get k (?net a) = (List.last (written ops k), True)"
    if "writer k \<in> {a, b}" "written ops k \<noteq> []" for k
  proof -
    have "fmlookup (gn_state (?net (writer k))) k = latest (written ops k)" using inv by (simp add: gs_inv_def)
    then have "fmlookup (gn_state (?net a)) k = latest (written ops k)" using that(1) agree by auto
    then show ?thesis using that(2) by (simp add: gs_Get_def latest_def)
  qed
  ultimately show ?thesis using agree unfolding Let_def by blast
qed

lemma gs_GossipTo_agree_witness:
  "gs_Get ''k'' (gs_run (\<lambda>n. sorted_list_of_fset)
     ([GsSet ''b'' ''k'' ''v'', GsSet ''b'' ''k'' ''w''] @ [GsGossip ''a'' ''b'']) ''a'') = (''w'', True)"
proof -
  let ?ops = "[GsSet ''b'' ''k'' ''v'', GsSet ''b'' ''k'' ''w'']"
  have "one_writer (\<lambda>_. ''b'') ?ops" by (simp add: one_writer_def)
  from gs_GossipTo_agree [OF range_orders_sorted this, of "''a''" "''b''"] show ?thesis
    by (simp add: Let_def written_def List.map_filter_def)
qed

text \<open>Two writers of one key with the same number of writes keep their own values for ever.\<close>

lemma gs_tie_diverges:
  assumes "range_orders ord"
  shows "let net = gs_run ord ([GsSet ''a'' ''k'' ''x'', GsSet ''b'' ''k'' ''y''] @ replicate n (GsGossip ''a'' ''b'')) in
     gs_Get ''k'' (net ''a'') = (''x'', True) \<and> gs_Get ''k'' (net ''b'') = (''y'', True)"
proof -
  let ?P = "\<lambda>net. fmlookup (gn_state (net ''a'')) ''k'' = Some \<lparr>gv_Value = ''x'', gv_Version = 1\<rparr> \<and>
     fmlookup (gn_state (net ''b'')) ''k'' = Some \<lparr>gv_Value = ''y'', gv_Version = 1\<rparr>"
  have step: "?P (gs_step ord (GsGossip ''a'' ''b'') net)" if "?P net" for net
  proof -
    obtain m p where np: "gs_GossipTo ord (net ''a'') (net ''b'') = (m, p)"
      by (cases "gs_GossipTo ord (net ''a'') (net ''b'')")
    show ?thesis using that gs_GossipTo_lookup [OF assms np, of "''k''"] by (simp add: gs_step_def np)
  qed
  have "?P (fold (gs_step ord) (replicate n (GsGossip ''a'' ''b'')) net)" if "?P net" for net
    using that by (induction n arbitrary: net) (use step in \<open>simp_all\<close>)
  moreover have "?P (fold (gs_step ord) [GsSet ''a'' ''k'' ''x'', GsSet ''b'' ''k'' ''y''] NewGossipNode)"
    by (simp add: gs_step_def gs_Set_def NewGossipNode_def Let_def)
  ultimately show ?thesis unfolding Let_def gs_run_def fold_append comp_apply gs_Get_def by simp
qed

end
