(* ===== verification/Vector_Clock.thy ===== *)
theory Vector_Clock
  imports Merge_Interface
begin

text \<open>
  \<open>src/34-Vector-Clocks/main.go\<close>: clocks as maps from nodes to counters, a missing counter being 0.
  A clock is at or before another if none of its counters is larger; \<open>Compare\<close> decides this order in
  both directions, and \<open>Merge\<close> is its least upper bound.
\<close>

record vector_clock =
  vc_clock :: "(string, int) gomap"

type_synonym vc_orders = "nat \<Rightarrow> string fset \<Rightarrow> string list"

definition NewVectorClock :: vector_clock where
  "NewVectorClock = \<lparr>vc_clock = fmempty\<rparr>"

definition vc_Tick :: "string \<Rightarrow> vector_clock \<Rightarrow> vector_clock" where
  "vc_Tick node vc = vc\<lparr>vc_clock := fmupd node (gm_get 0 (vc_clock vc) node + 1) (vc_clock vc)\<rparr>"

definition vc_Merge :: "vc_orders \<Rightarrow> vector_clock \<Rightarrow> vector_clock \<Rightarrow> vector_clock" where
  "vc_Merge ord other vc =
     vc\<lparr>vc_clock := fold (raise_to (vc_clock other)) (ord 0 (fmdom (vc_clock other))) (vc_clock vc)\<rparr>"

definition vc_Compare :: "vc_orders \<Rightarrow> vector_clock \<Rightarrow> vector_clock \<Rightarrow> string" where
  "vc_Compare ord vc other =
     (let seen = fold (\<lambda>n m. fmupd n True m) (ord 0 (fmdom (vc_clock vc))) fmempty;
          seen = fold (\<lambda>n m. fmupd n True m) (ord 1 (fmdom (vc_clock other))) seen;
          (less, greater) = fold (\<lambda>n (less, greater).
             let a = gm_get 0 (vc_clock vc) n; b = gm_get 0 (vc_clock other) n in
             (if a < b then True else less, if a > b then True else greater))
            (ord 2 (fmdom seen)) (False, False)
      in if less \<and> greater then ''concurrent''
         else if less then ''before''
         else if greater then ''after''
         else ''equal'')"

subsection \<open>Merging\<close>

abbreviation vc_at :: "vector_clock \<Rightarrow> string \<Rightarrow> int" where
  "vc_at vc \<equiv> gm_get 0 (vc_clock vc)"

text \<open>Clocks made by the operations have no negative counter.\<close>

definition vc_ok :: "vector_clock \<Rightarrow> bool" where
  "vc_ok vc \<longleftrightarrow> (\<forall>k. 0 \<le> vc_at vc k)"

lemma vc_Merge_at:
  assumes "range_orders ord" "vc_ok vc"
  shows "vc_at (vc_Merge ord other vc) k = max (vc_at vc k) (vc_at other k)"
  unfolding vc_Merge_def using assms(2)
  by (simp, intro raise_to_get)
    (simp_all add: range_orders_distinct [OF assms(1)] range_orders_set [OF assms(1)] fmlookup_dom_iff vc_ok_def)

lemma vc_ok_ops:
  "vc_ok NewVectorClock" "vc_ok vc \<Longrightarrow> vc_ok (vc_Tick n vc)"
  "range_orders ord \<Longrightarrow> vc_ok vc \<Longrightarrow> vc_ok (vc_Merge ord other vc)"
  by (simp_all add: vc_ok_def NewVectorClock_def vc_Tick_def)
    (simp add: vc_Merge_at vc_ok_def le_max_iff_disj)

subsection \<open>Comparing\<close>

lemma fill_dom: "fset (fmdom (fold (\<lambda>n m. fmupd n True m) ks m)) = set ks \<union> fset (fmdom m)"
  by (induction ks arbitrary: m) auto

lemma compare_fold:
  "fold (\<lambda>n (less, greater). let a = f n; b = g n in
      (if a < b then True else less, if a > b then True else greater)) ks (l, r)
   = (l \<or> (\<exists>n \<in> set ks. f n < g n), r \<or> (\<exists>n \<in> set ks. f n > (g n :: int)))"
  by (induction ks arbitrary: l r) (auto simp: Let_def)

definition vc_le :: "vector_clock \<Rightarrow> vector_clock \<Rightarrow> bool" where
  "vc_le a b \<longleftrightarrow> (\<forall>k. vc_at a k \<le> vc_at b k)"

lemma vc_Compare_le:
  assumes "range_orders ord"
  shows "vc_Compare ord a b =
     (if vc_le a b then (if vc_le b a then ''equal'' else ''before'')
      else (if vc_le b a then ''after'' else ''concurrent''))"
proof -
  let ?seen = "fold (\<lambda>n m. fmupd n True m) (ord 1 (fmdom (vc_clock b)))
     (fold (\<lambda>n m. fmupd n True m) (ord 0 (fmdom (vc_clock a))) fmempty)"
  have dom: "set (ord 2 (fmdom ?seen)) = fset (fmdom (vc_clock a)) \<union> fset (fmdom (vc_clock b))"
    by (simp add: range_orders_set [OF assms] fill_dom Un_commute)
  have out: "vc_at a n = 0 \<and> vc_at b n = 0" if "n \<notin> set (ord 2 (fmdom ?seen))" for n
    using that unfolding dom by (auto simp: gm_get_def fmlookup_dom_iff split: option.splits)
  have le: "vc_le b a \<longleftrightarrow> \<not> (\<exists>n \<in> set (ord 2 (fmdom ?seen)). vc_at a n < vc_at b n)"
    "vc_le a b \<longleftrightarrow> \<not> (\<exists>n \<in> set (ord 2 (fmdom ?seen)). vc_at a n > vc_at b n)"
    unfolding vc_le_def using out by (metis not_less order_refl)+
  show ?thesis
    unfolding vc_Compare_def Let_def compare_fold [unfolded Let_def] le by simp
qed

text \<open>Clocks are an instance of the merge contract; the order of the visits does not show.\<close>

interpretation vc: max_merge vc_ok "vc_Merge (\<lambda>n. sorted_list_of_fset)" vc_at
  by unfold_locales (simp_all add: vc_Merge_at vc_ok_ops range_orders_sorted)

lemma vc_Merge_any_order:
  assumes "range_orders ord" "vc_ok vc"
  shows "vc_at (vc_Merge ord other vc) = vc_at (vc_Merge (\<lambda>n. sorted_list_of_fset) other vc)"
  by (rule ext) (simp add: vc_Merge_at assms range_orders_sorted)

text \<open>The states the operations build.\<close>

inductive vc_built :: "vc_orders \<Rightarrow> vector_clock \<Rightarrow> bool" for ord :: vc_orders where
  built_New: "vc_built ord NewVectorClock"
| built_Tick: "vc_built ord vc \<Longrightarrow> vc_built ord (vc_Tick n vc)"
| built_Merge: "vc_built ord vc \<Longrightarrow> vc_built ord other \<Longrightarrow> vc_built ord (vc_Merge ord other vc)"

lemma vc_built_ok: "range_orders ord \<Longrightarrow> vc_built ord vc \<Longrightarrow> vc_ok vc"
  by (rotate_tac, induction rule: vc_built.induct) (simp_all add: vc_ok_ops)

text \<open>
  C19. For clocks made by the operations: \<open>Compare\<close> decides the pointwise order exactly (with
  concurrent for incomparable clocks), the clock before a \<open>Tick\<close> compares as before, and \<open>Merge\<close> gives the least clock that
  neither side is after.
\<close>
theorem vc_Compare_causal:
  assumes "range_orders ord" "vc_built ord a" "vc_built ord b"
  shows "vc_Compare ord a b =
      (if vc_le a b then (if vc_le b a then ''equal'' else ''before'')
       else (if vc_le b a then ''after'' else ''concurrent'')) \<and>
    vc_Compare ord a (vc_Tick n a) = ''before'' \<and>
    (\<forall>c. vc_le (vc_Merge ord b a) c \<longleftrightarrow> vc_le a c \<and> vc_le b c) \<and>
    vc_Compare ord (vc_Merge ord a b) (vc_Merge ord b a) = ''equal''"
proof -
  have ok: "vc_ok a" "vc_ok b" using vc_built_ok assms by blast+
  have tick: "vc_at (vc_Tick n a) k = vc_at a k + (if k = n then 1 else 0)" for k
    by (simp add: vc_Tick_def)
  then have "vc_le a (vc_Tick n a)" "\<not> vc_le (vc_Tick n a) a"
    by (auto simp: vc_le_def intro: exI [of _ n])
  moreover have "vc_le (vc_Merge ord b a) c \<longleftrightarrow> vc_le a c \<and> vc_le b c" for c
    using vc.merge_least [OF ok, of c]
    by (simp add: vc_le_def vc_Merge_any_order [OF assms(1) ok(1), of b])
  moreover have "vc_at (vc_Merge ord a b) = vc_at (vc_Merge ord b a)"
    using vc.merge_commute [OF ok] by (simp add: vc_Merge_any_order assms(1) ok)
  ultimately show ?thesis
    by (simp add: vc_Compare_le [OF assms(1)] vc_le_def)
qed

lemma vc_Compare_causal_witness:
  "vc_Compare (\<lambda>n. sorted_list_of_fset) (vc_Tick ''a'' NewVectorClock) (vc_Tick ''b'' NewVectorClock) = ''concurrent''"
proof -
  let ?a = "vc_Tick ''a'' NewVectorClock" and ?b = "vc_Tick ''b'' NewVectorClock"
  have "vc_at ?a ''a'' = 1" "vc_at ?b ''a'' = 0" "vc_at ?a ''b'' = 0" "vc_at ?b ''b'' = 1"
    by (simp_all add: vc_Tick_def NewVectorClock_def)
  then have "\<not> vc_le ?a ?b" "\<not> vc_le ?b ?a"
    unfolding vc_le_def by (metis not_one_le_zero)+
  then show ?thesis
    using vc_Compare_causal [OF range_orders_sorted built_Tick [OF built_New] built_Tick [OF built_New], of "''a''" "''b''"]
    by simp
qed

end
