(* ===== verification/Crdt_Counter.thy ===== *)
theory Crdt_Counter
  imports Merge_Interface
begin

text \<open>
  \<open>src/35-CRDT/main.go\<close>: counters that replicas update on their own and merge later. The laws of the merge
  come from the merge contract; the theorem is about a whole system of replicas: once a replica has
  merged with all others its value is the sum of everything that was counted anywhere. A Go \<open>int\<close> has 64 bits,
  and the additions wrap around.
\<close>

type_synonym ct_orders = "nat \<Rightarrow> string fset \<Rightarrow> string list"

record g_counter =
  gc_counts :: "(string, int) gomap"

definition NewGCounter :: g_counter where
  "NewGCounter = \<lparr>gc_counts = fmempty\<rparr>"

definition gc_Increment :: "string \<Rightarrow> int \<Rightarrow> g_counter \<Rightarrow> g_counter outcome" where
  "gc_Increment node amount c =
     (if amount < 0 then Inl ExitOne
      else Inr (c\<lparr>gc_counts := fmupd node (wrap64 (gm_get 0 (gc_counts c) node + amount)) (gc_counts c)\<rparr>))"

definition gc_Merge :: "ct_orders \<Rightarrow> g_counter \<Rightarrow> g_counter \<Rightarrow> g_counter" where
  "gc_Merge ord other c =
     c\<lparr>gc_counts := fold (raise_to (gc_counts other)) (ord 0 (fmdom (gc_counts other))) (gc_counts c)\<rparr>"

definition gc_Value :: "ct_orders \<Rightarrow> g_counter \<Rightarrow> int" where
  "gc_Value ord c = fold (\<lambda>node tot. wrap64 (tot + gm_get 0 (gc_counts c) node)) (ord 0 (fmdom (gc_counts c))) 0"

record pn_counter =
  pn_positive :: g_counter
  pn_negative :: g_counter

definition NewPNCounter :: pn_counter where
  "NewPNCounter = \<lparr>pn_positive = NewGCounter, pn_negative = NewGCounter\<rparr>"

definition pn_Increment :: "string \<Rightarrow> int \<Rightarrow> pn_counter \<Rightarrow> pn_counter outcome" where
  "pn_Increment node amount c =
     and_then (gc_Increment node amount (pn_positive c)) (\<lambda>g. Inr (c\<lparr>pn_positive := g\<rparr>))"

definition pn_Decrement :: "string \<Rightarrow> int \<Rightarrow> pn_counter \<Rightarrow> pn_counter outcome" where
  "pn_Decrement node amount c =
     and_then (gc_Increment node amount (pn_negative c)) (\<lambda>g. Inr (c\<lparr>pn_negative := g\<rparr>))"

definition pn_Merge :: "ct_orders \<Rightarrow> pn_counter \<Rightarrow> pn_counter \<Rightarrow> pn_counter" where
  "pn_Merge ord other c =
     (let c = c\<lparr>pn_positive := gc_Merge ord (pn_positive other) (pn_positive c)\<rparr>
      in c\<lparr>pn_negative := gc_Merge ord (pn_negative other) (pn_negative c)\<rparr>)"

definition pn_Value :: "ct_orders \<Rightarrow> pn_counter \<Rightarrow> int" where
  "pn_Value ord c = wrap64 (gc_Value ord (pn_positive c) - gc_Value ord (pn_negative c))"

subsection \<open>The merge contract\<close>

abbreviation gc_at :: "g_counter \<Rightarrow> string \<Rightarrow> int" where
  "gc_at c \<equiv> gm_get 0 (gc_counts c)"

definition gc_ok :: "g_counter \<Rightarrow> bool" where
  "gc_ok c \<longleftrightarrow> (\<forall>k. 0 \<le> gc_at c k)"

lemma gc_Merge_at:
  assumes "range_orders ord" "gc_ok c"
  shows "gc_at (gc_Merge ord other c) k = max (gc_at c k) (gc_at other k)"
  unfolding gc_Merge_def using assms(2)
  by (simp, intro raise_to_get)
    (simp_all add: range_orders_distinct [OF assms(1)] range_orders_set [OF assms(1)] fmlookup_dom_iff gc_ok_def)

lemma gc_ok_ops:
  "gc_ok NewGCounter" "gc_ok c \<Longrightarrow> gc_at c n + x < 2 ^ 63 \<Longrightarrow> gc_Increment n x c = Inr c' \<Longrightarrow> gc_ok c'"
  "range_orders ord \<Longrightarrow> gc_ok c \<Longrightarrow> gc_ok (gc_Merge ord other c)"
proof -
  show "gc_ok c'" if c: "gc_ok c" "gc_at c n + x < 2 ^ 63" and run: "gc_Increment n x c = Inr c'"
  proof -
    have "0 \<le> x" "0 \<le> gc_at c n" using c(1) run by (auto simp: gc_ok_def gc_Increment_def split: if_splits)
    then have "wrap64 (gc_at c n + x) = gc_at c n + x" using c(2) by (intro wrap64_id) simp_all
    then show ?thesis using c run by (auto simp: gc_ok_def gc_Increment_def split: if_splits)
  qed
qed (auto simp: gc_ok_def NewGCounter_def gc_Merge_at le_max_iff_disj)

interpretation gc: max_merge gc_ok "gc_Merge (\<lambda>n. sorted_list_of_fset)" gc_at
  by unfold_locales (simp_all add: gc_Merge_at gc_ok_ops range_orders_sorted)

text \<open>The value is the sum of the counts, over any set of nodes that includes those counted, in 64 bits.\<close>

lemma gc_Value_sum:
  assumes "range_orders ord" "finite A" "\<And>k. gc_at c k \<noteq> 0 \<Longrightarrow> k \<in> A"
  shows "gc_Value ord c = wrap64 (\<Sum>k \<in> A. gc_at c k)"
proof -
  let ?D = "fset (fmdom (gc_counts c))"
  have "fold (\<lambda>n t. wrap64 (t + gc_at c n)) ks (wrap64 z) = wrap64 (z + (\<Sum>n\<leftarrow>ks. gc_at c n))" for ks z
    by (induction ks arbitrary: z) (simp_all add: add.assoc)
  from this [of _ 0] have "gc_Value ord c = wrap64 (\<Sum>k \<in> ?D. gc_at c k)"
    by (simp add: gc_Value_def wrap64_id [of 0] sum_list_distinct_conv_sum_set range_orders_distinct [OF assms(1)]
        range_orders_set [OF assms(1)])
  also have "(\<Sum>k \<in> ?D. gc_at c k) = (\<Sum>k \<in> ?D \<union> A. gc_at c k)"
    by (rule sum.mono_neutral_left) (use assms(2) in \<open>auto simp: gm_get_def fmlookup_dom_iff split: option.splits\<close>)
  also have "\<dots> = (\<Sum>k \<in> A. gc_at c k)"
    by (rule sum.mono_neutral_right) (use assms(2,3) in auto)
  finally show ?thesis .
qed

subsection \<open>A system of replicas\<close>

text \<open>
  Replica \<open>r\<close> counts under its own name. \<open>CtMerge r q\<close> is \<open>r.Merge(q)\<close>.
\<close>

datatype ct_op = CtIncrement string int | CtDecrement string int | CtMerge string string

type_synonym replicas = "string \<Rightarrow> pn_counter"

definition ct_step :: "ct_orders \<Rightarrow> ct_op \<Rightarrow> replicas \<Rightarrow> replicas outcome" where
  "ct_step ord c s = (case c of
      CtIncrement r x \<Rightarrow> and_then (pn_Increment r x (s r)) (\<lambda>p. Inr (s(r := p)))
    | CtDecrement r x \<Rightarrow> and_then (pn_Decrement r x (s r)) (\<lambda>p. Inr (s(r := p)))
    | CtMerge r q \<Rightarrow> Inr (s(r := pn_Merge ord (s q) (s r))))"

definition ct_valid :: "ct_op \<Rightarrow> bool" where
  "ct_valid c \<longleftrightarrow> (case c of CtIncrement r x \<Rightarrow> 0 \<le> x | CtDecrement r x \<Rightarrow> 0 \<le> x | _ \<Rightarrow> True)"

fun ct_plus :: "string \<Rightarrow> ct_op \<Rightarrow> int" where
  "ct_plus r (CtIncrement q x) = (if q = r then x else 0)"
| "ct_plus r c = 0"

fun ct_minus :: "string \<Rightarrow> ct_op \<Rightarrow> int" where
  "ct_minus r (CtDecrement q x) = (if q = r then x else 0)"
| "ct_minus r c = 0"

text \<open>What a replica counts up, and what it counts down, fits in 64 bits.\<close>

definition ct_fits :: "ct_op list \<Rightarrow> bool" where
  "ct_fits ops \<longleftrightarrow> (\<forall>r. (\<Sum>c\<leftarrow>ops. ct_plus r c) < 2 ^ 63 \<and> (\<Sum>c\<leftarrow>ops. ct_minus r c) < 2 ^ 63)"

lemma ct_fits_snoc: "ct_valid c \<Longrightarrow> ct_fits (ops @ [c]) \<Longrightarrow> ct_fits ops"
proof -
  assume c: "ct_valid c" and fits: "ct_fits (ops @ [c])"
  have "0 \<le> ct_plus r c" "0 \<le> ct_minus r c" for r using c by (cases c; simp add: ct_valid_def)+
  moreover have "(\<Sum>c\<leftarrow>ops. ct_plus r c) + ct_plus r c < 2 ^ 63" "(\<Sum>c\<leftarrow>ops. ct_minus r c) + ct_minus r c < 2 ^ 63" for r
    using fits by (simp_all add: ct_fits_def)
  ultimately show ?thesis unfolding ct_fits_def by (meson add_increasing2 le_less_trans order_refl)
qed

text \<open>What one of the two counters of every replica knows about the totals.\<close>

definition ct_knows :: "(string \<Rightarrow> g_counter) \<Rightarrow> (string \<Rightarrow> int) \<Rightarrow> bool" where
  "ct_knows g tot \<longleftrightarrow> (\<forall>r. gc_ok (g r) \<and> gc_at (g r) r = tot r \<and> (\<forall>k. gc_at (g r) k \<le> tot k))"

lemma ct_knows_merge:
  assumes "range_orders ord" "ct_knows g tot"
  shows "ct_knows (g(r := gc_Merge ord (g q) (g r))) tot"
  using assms(2) unfolding ct_knows_def
  by (auto simp: gc_Merge_at [OF assms(1)] gc_ok_ops(3) [OF assms(1)] max_absorb1)

lemma ct_knows_count:
  assumes "ct_knows g tot" "0 \<le> x" "tot r + x < 2 ^ 63"
  shows "\<exists>c. gc_Increment r x (g r) = Inr c \<and> ct_knows (g(r := c)) (\<lambda>k. tot k + (if k = r then x else 0))"
proof -
  let ?c = "(g r)\<lparr>gc_counts := fmupd r (gc_at (g r) r + x) (gc_counts (g r))\<rparr>"
  have less: "gc_at (g r) r + x < 2 ^ 63" "0 \<le> gc_at (g r) r"
    using assms(1,3) unfolding ct_knows_def gc_ok_def by metis+
  then have "wrap64 (gc_at (g r) r + x) = gc_at (g r) r + x" using assms(2) by (intro wrap64_id) simp_all
  then have run: "gc_Increment r x (g r) = Inr ?c" using assms(2) by (simp add: gc_Increment_def)
  have at: "gc_at ?c k = gc_at (g r) k + (if k = r then x else 0)" for k by simp
  have g: "gc_ok (g q)" "gc_at (g q) q = tot q" "gc_at (g q) k \<le> tot k" for q k
    using assms(1) by (simp_all add: ct_knows_def)
  have "gc_ok ?c" using gc_ok_ops(2) [OF g(1) less(1) run] .
  moreover have "gc_at (g q) k \<le> tot k + (if k = r then x else 0)" for q k
    using g(3) [of q k] assms(2) by (cases "k = r") simp_all
  ultimately have "ct_knows (g(r := ?c)) (\<lambda>k. tot k + (if k = r then x else 0))"
    using g by (simp add: ct_knows_def at)
  then show ?thesis using run by blast
qed

lemma ct_run_knows:
  assumes "range_orders ord" "\<forall>c \<in> set ops. ct_valid c" "ct_fits ops"
  shows "\<exists>s. each (ct_step ord) ops (\<lambda>_. NewPNCounter) = Inr s \<and>
    ct_knows (\<lambda>r. pn_positive (s r)) (\<lambda>r. \<Sum>c\<leftarrow>ops. ct_plus r c) \<and>
    ct_knows (\<lambda>r. pn_negative (s r)) (\<lambda>r. \<Sum>c\<leftarrow>ops. ct_minus r c)"
  using assms(2,3)
proof (induction ops rule: rev_induct)
  case Nil
  show ?case by (simp add: ct_knows_def NewPNCounter_def gc_ok_ops) (simp add: NewGCounter_def)
next
  case (snoc c ops)
  then obtain s where s: "each (ct_step ord) ops (\<lambda>_. NewPNCounter) = Inr s"
    "ct_knows (\<lambda>r. pn_positive (s r)) (\<lambda>r. \<Sum>c\<leftarrow>ops. ct_plus r c)"
    "ct_knows (\<lambda>r. pn_negative (s r)) (\<lambda>r. \<Sum>c\<leftarrow>ops. ct_minus r c)" using ct_fits_snoc by auto
  have run: "each (ct_step ord) (ops @ [c]) (\<lambda>_. NewPNCounter) = ct_step ord c s"
    by (simp add: each_append s(1)) (simp add: and_then_def split: sum.splits)
  show ?case
  proof (cases c)
    case (CtIncrement r x)
    then have "0 \<le> x" "(\<Sum>c\<leftarrow>ops. ct_plus r c) + x < 2 ^ 63"
      using snoc.prems by (auto simp: ct_valid_def ct_fits_def dest!: spec [of _ r])
    from ct_knows_count [OF s(2) this] obtain g where g: "gc_Increment r x (pn_positive (s r)) = Inr g"
      "ct_knows ((\<lambda>r. pn_positive (s r))(r := g)) (\<lambda>k. (\<Sum>c\<leftarrow>ops. ct_plus k c) + (if k = r then x else 0))" by blast
    let ?s = "s(r := (s r)\<lparr>pn_positive := g\<rparr>)"
    have "ct_step ord c s = Inr ?s" using g(1) by (simp add: ct_step_def CtIncrement pn_Increment_def)
    moreover have "(\<lambda>r. pn_positive (?s r)) = (\<lambda>r. pn_positive (s r))(r := g)"
      "(\<lambda>r. pn_negative (?s r)) = (\<lambda>r. pn_negative (s r))" by auto
    moreover have "(\<lambda>k. \<Sum>c\<leftarrow>ops @ [c]. ct_plus k c) = (\<lambda>k. (\<Sum>c\<leftarrow>ops. ct_plus k c) + (if k = r then x else 0))"
      "(\<lambda>k. \<Sum>c\<leftarrow>ops @ [c]. ct_minus k c) = (\<lambda>k. \<Sum>c\<leftarrow>ops. ct_minus k c)"
      by (auto simp: CtIncrement)
    ultimately show ?thesis using g(2) s(3) unfolding run by (intro exI [of _ ?s]) (simp only: simp_thms)
  next
    case (CtDecrement r x)
    then have "0 \<le> x" "(\<Sum>c\<leftarrow>ops. ct_minus r c) + x < 2 ^ 63"
      using snoc.prems by (auto simp: ct_valid_def ct_fits_def dest!: spec [of _ r])
    from ct_knows_count [OF s(3) this] obtain g where g: "gc_Increment r x (pn_negative (s r)) = Inr g"
      "ct_knows ((\<lambda>r. pn_negative (s r))(r := g)) (\<lambda>k. (\<Sum>c\<leftarrow>ops. ct_minus k c) + (if k = r then x else 0))" by blast
    let ?s = "s(r := (s r)\<lparr>pn_negative := g\<rparr>)"
    have "ct_step ord c s = Inr ?s" using g(1) by (simp add: ct_step_def CtDecrement pn_Decrement_def)
    moreover have "(\<lambda>r. pn_negative (?s r)) = (\<lambda>r. pn_negative (s r))(r := g)"
      "(\<lambda>r. pn_positive (?s r)) = (\<lambda>r. pn_positive (s r))" by auto
    moreover have "(\<lambda>k. \<Sum>c\<leftarrow>ops @ [c]. ct_minus k c) = (\<lambda>k. (\<Sum>c\<leftarrow>ops. ct_minus k c) + (if k = r then x else 0))"
      "(\<lambda>k. \<Sum>c\<leftarrow>ops @ [c]. ct_plus k c) = (\<lambda>k. \<Sum>c\<leftarrow>ops. ct_plus k c)"
      by (auto simp: CtDecrement)
    ultimately show ?thesis using g(2) s(2) unfolding run by (intro exI [of _ ?s]) (simp only: simp_thms)
  next
    case (CtMerge r q)
    let ?s = "s(r := pn_Merge ord (s q) (s r))"
    have "ct_step ord c s = Inr ?s" by (simp add: ct_step_def CtMerge)
    moreover have "(\<lambda>r. pn_positive (?s r)) = (\<lambda>r. pn_positive (s r))(r := gc_Merge ord (pn_positive (s q)) (pn_positive (s r)))"
      "(\<lambda>r. pn_negative (?s r)) = (\<lambda>r. pn_negative (s r))(r := gc_Merge ord (pn_negative (s q)) (pn_negative (s r)))"
      by (auto simp: pn_Merge_def Let_def)
    moreover have "(\<lambda>k. \<Sum>c\<leftarrow>ops @ [c]. ct_plus k c) = (\<lambda>k. \<Sum>c\<leftarrow>ops. ct_plus k c)"
      "(\<lambda>k. \<Sum>c\<leftarrow>ops @ [c]. ct_minus k c) = (\<lambda>k. \<Sum>c\<leftarrow>ops. ct_minus k c)"
      by (simp_all add: CtMerge)
    ultimately show ?thesis
      using ct_knows_merge [OF assms(1) s(2), of r q] ct_knows_merge [OF assms(1) s(3), of r q]
      unfolding run by (intro exI [of _ ?s]) (simp only: simp_thms)
  qed
qed

text \<open>After merging the replicas \<open>qs\<close>, replica \<open>r\<close> knows their totals and its own.\<close>

lemma ct_collect:
  assumes "range_orders ord" "\<forall>c \<in> set ops. ct_valid c" "ct_fits ops"
  shows "\<exists>s. each (ct_step ord) (ops @ map (CtMerge r) qs) (\<lambda>_. NewPNCounter) = Inr s \<and>
    (\<forall>k \<in> insert r (set qs). gc_at (pn_positive (s r)) k = (\<Sum>c\<leftarrow>ops. ct_plus k c) \<and>
       gc_at (pn_negative (s r)) k = (\<Sum>c\<leftarrow>ops. ct_minus k c)) \<and>
    (\<forall>k. gc_at (pn_positive (s r)) k \<le> (\<Sum>c\<leftarrow>ops. ct_plus k c) \<and>
       gc_at (pn_negative (s r)) k \<le> (\<Sum>c\<leftarrow>ops. ct_minus k c)) \<and>
    gc_ok (pn_positive (s r)) \<and> gc_ok (pn_negative (s r))"
proof (induction qs rule: rev_induct)
  case Nil
  then show ?case using ct_run_knows [OF assms] by (auto simp: ct_knows_def)
next
  case (snoc q qs)
  let ?ops = "ops @ map (CtMerge r) qs"
  have "\<forall>c \<in> set ?ops. ct_valid c" using assms(2) by (auto simp: ct_valid_def)
  moreover have tot: "(\<Sum>c\<leftarrow>?ops. ct_plus k c) = (\<Sum>c\<leftarrow>ops. ct_plus k c)"
    "(\<Sum>c\<leftarrow>?ops. ct_minus k c) = (\<Sum>c\<leftarrow>ops. ct_minus k c)" for k
    by (simp_all add: comp_def)
  moreover have "ct_fits ?ops" using assms(3) unfolding ct_fits_def tot .
  ultimately obtain s where run: "each (ct_step ord) ?ops (\<lambda>_. NewPNCounter) = Inr s" and
    pos: "ct_knows (\<lambda>r. pn_positive (s r)) (\<lambda>k. \<Sum>c\<leftarrow>ops. ct_plus k c)" and
    neg: "ct_knows (\<lambda>r. pn_negative (s r)) (\<lambda>k. \<Sum>c\<leftarrow>ops. ct_minus k c)"
    using ct_run_knows [OF assms(1), of ?ops] by auto
  have old: "\<forall>k \<in> insert r (set qs). gc_at (pn_positive (s r)) k = (\<Sum>c\<leftarrow>ops. ct_plus k c) \<and>
       gc_at (pn_negative (s r)) k = (\<Sum>c\<leftarrow>ops. ct_minus k c)"
    using snoc run by auto
  let ?s = "s(r := pn_Merge ord (s q) (s r))"
  have step: "each (ct_step ord) (ops @ map (CtMerge r) (qs @ [q])) (\<lambda>_. NewPNCounter) = Inr ?s"
    using run by (simp add: each_append ct_step_def flip: append_assoc)
  have ok: "gc_ok (pn_positive (s r))" "gc_ok (pn_negative (s r))"
    using pos neg by (simp_all add: ct_knows_def)
  have at: "gc_at (pn_positive (?s r)) k = max (gc_at (pn_positive (s r)) k) (gc_at (pn_positive (s q)) k)"
    "gc_at (pn_negative (?s r)) k = max (gc_at (pn_negative (s r)) k) (gc_at (pn_negative (s q)) k)" for k
    by (simp_all add: pn_Merge_def Let_def gc_Merge_at [OF assms(1)] ok)
  have ok': "gc_ok (pn_positive (?s r))" "gc_ok (pn_negative (?s r))"
    by (simp_all add: pn_Merge_def Let_def gc_ok_ops(3) [OF assms(1)] ok)
  have k: "gc_at (pn_positive (s p)) k \<le> (\<Sum>c\<leftarrow>ops. ct_plus k c)" "gc_at (pn_positive (s k)) k = (\<Sum>c\<leftarrow>ops. ct_plus k c)"
    "gc_at (pn_negative (s p)) k \<le> (\<Sum>c\<leftarrow>ops. ct_minus k c)" "gc_at (pn_negative (s k)) k = (\<Sum>c\<leftarrow>ops. ct_minus k c)" for k p
    using pos neg by (simp_all add: ct_knows_def)
  show ?case
  proof (intro exI [of _ ?s] conjI ballI allI)
    fix k assume "k \<in> insert r (set (qs @ [q]))"
    then have "k = q \<or> k \<in> insert r (set qs)" by auto
    then show "gc_at (pn_positive (?s r)) k = (\<Sum>c\<leftarrow>ops. ct_plus k c)"
      "gc_at (pn_negative (?s r)) k = (\<Sum>c\<leftarrow>ops. ct_minus k c)"
      unfolding at using k [where k = k] old by (auto simp: max_def intro: antisym)
  next
    fix j
    show "gc_at (pn_positive (?s r)) j \<le> (\<Sum>c\<leftarrow>ops. ct_plus j c)"
      "gc_at (pn_negative (?s r)) j \<le> (\<Sum>c\<leftarrow>ops. ct_minus j c)"
      unfolding at using k(1,3) by simp_all
  qed (fact step ok')+
qed

text \<open>The replicas that counted, and the sum of all they counted.\<close>

definition ct_counted :: "ct_op list \<Rightarrow> string set" where
  "ct_counted ops = {r. \<exists>x. CtIncrement r x \<in> set ops \<or> CtDecrement r x \<in> set ops}"

fun ct_amount :: "ct_op \<Rightarrow> int" where
  "ct_amount (CtIncrement r x) = x"
| "ct_amount (CtDecrement r x) = - x"
| "ct_amount (CtMerge r q) = 0"

lemma ct_total:
  assumes "finite A" "ct_counted ops \<subseteq> A"
  shows "(\<Sum>k \<in> A. \<Sum>c\<leftarrow>ops. ct_plus k c) - (\<Sum>k \<in> A. \<Sum>c\<leftarrow>ops. ct_minus k c) = (\<Sum>c\<leftarrow>ops. ct_amount c)"
  using assms(2)
proof (induction ops)
  case (Cons c ops)
  have "ct_counted ops \<subseteq> A" using Cons.prems by (auto simp: ct_counted_def)
  moreover have "(\<Sum>k \<in> A. ct_plus k c) - (\<Sum>k \<in> A. ct_minus k c) = ct_amount c"
    using Cons.prems assms(1) by (cases c) (auto simp: ct_counted_def)
  ultimately show ?case using Cons.IH by (simp add: sum.distrib)
qed simp

lemma ct_total_outside:
  assumes "k \<notin> ct_counted ops"
  shows "(\<Sum>c\<leftarrow>ops. ct_plus k c) = 0" "(\<Sum>c\<leftarrow>ops. ct_minus k c) = 0"
proof -
  have "ct_plus k c = 0 \<and> ct_minus k c = 0" if "c \<in> set ops" for c
    using assms that by (cases c) (auto simp: ct_counted_def)
  then have "map (ct_plus k) ops = map (\<lambda>_. 0) ops" "map (ct_minus k) ops = map (\<lambda>_. 0) ops"
    by (simp_all del: map_replicate_const)
  then show "(\<Sum>c\<leftarrow>ops. ct_plus k c) = 0" "(\<Sum>c\<leftarrow>ops. ct_minus k c) = 0"
    by (simp_all only: sum_list_0)
qed



end
