(* ===== verification/Saga.thy ===== *)
theory Saga
  imports Go_Prelude
begin

text \<open>
  \<open>src/36-Distributed-Transaction/main.go\<close>: a sequence of steps, each with an action and a
  compensation, which are functions of the caller: they may do anything to the world \<open>'w\<close>, and an error is a
  value \<open>Some e\<close>. When an action fails, the compensations of the completed steps run in reverse
  order; the error of a compensation is only logged.
\<close>

record ('w, 'e) saga_step =
  ss_Name :: string
  ss_Action :: "'w \<Rightarrow> 'e option \<times> 'w"
  ss_Compensate :: "'w \<Rightarrow> 'e option \<times> 'w"

record ('w, 'e) saga =
  sg_steps :: "('w, 'e) saga_step list"

definition NewSagaCoordinator :: "('w, 'e) saga_step list \<Rightarrow> ('w, 'e) saga" where
  "NewSagaCoordinator steps = \<lparr>sg_steps = steps\<rparr>"

text \<open>\<open>for j := len(completed) - 1; j >= 0; j--\<close>\<close>

fun sg_undo :: "('w, 'e) saga_step list \<Rightarrow> nat \<Rightarrow> 'w \<Rightarrow> 'w" where
  "sg_undo completed 0 w = w"
| "sg_undo completed (Suc j) w = sg_undo completed j (snd (ss_Compensate (completed ! j) w))"

fun sg_loop :: "('w, 'e) saga_step list \<Rightarrow> ('w, 'e) saga_step list \<Rightarrow> 'w \<Rightarrow> bool \<times> 'w" where
  "sg_loop completed [] w = (True, w)"
| "sg_loop completed (step # steps) w =
     (case ss_Action step w of
        (Some e, w') \<Rightarrow> (False, sg_undo completed (length completed) w')
      | (None, w') \<Rightarrow> sg_loop (completed @ [step]) steps w')"

definition sg_Execute :: "('w, 'e) saga \<Rightarrow> 'w \<Rightarrow> bool \<times> 'w" where
  "sg_Execute s w = sg_loop [] (sg_steps s) w"

subsection \<open>The order of the calls\<close>

definition act_all :: "('w, 'e) saga_step list \<Rightarrow> 'w \<Rightarrow> 'w" where
  "act_all steps w = fold (\<lambda>s w. snd (ss_Action s w)) steps w"

definition undo_all :: "('w, 'e) saga_step list \<Rightarrow> 'w \<Rightarrow> 'w" where
  "undo_all steps w = fold (\<lambda>s w. snd (ss_Compensate s w)) steps w"

lemma act_all_simps [simp]:
  "act_all [] w = w" "act_all (s # ss) w = act_all ss (snd (ss_Action s w))"
  "undo_all [] w = w" "undo_all (s # ss) w = undo_all ss (snd (ss_Compensate s w))"
  "undo_all (ss @ ts) w = undo_all ts (undo_all ss w)"
  by (simp_all add: act_all_def undo_all_def)

text \<open>The \<open>k\<close>th action succeeds when the earlier ones have run.\<close>

definition succeeds :: "('w, 'e) saga_step list \<Rightarrow> 'w \<Rightarrow> nat \<Rightarrow> bool" where
  "succeeds steps w k \<longleftrightarrow> fst (ss_Action (steps ! k) (act_all (take k steps) w)) = None"

lemma succeeds_Cons [simp]:
  "succeeds (s # ss) w 0 \<longleftrightarrow> fst (ss_Action s w) = None"
  "succeeds (s # ss) w (Suc k) \<longleftrightarrow> succeeds ss (snd (ss_Action s w)) k"
  by (simp_all add: succeeds_def)

lemma sg_undo_eq: "j \<le> length cs \<Longrightarrow> sg_undo cs j w = undo_all (rev (take j cs)) w"
  by (induction j arbitrary: w) (simp_all add: take_Suc_conv_app_nth)

lemma sg_loop_success:
  "(\<forall>k < length steps. succeeds steps w k) \<Longrightarrow> sg_loop cs steps w = (True, act_all steps w)"
proof (induction steps arbitrary: cs w)
  case (Cons s ss)
  have "succeeds (s # ss) w 0" "\<forall>k < length ss. succeeds ss (snd (ss_Action s w)) k"
    using Cons.prems by (auto simp flip: succeeds_Cons(2))
  then show ?case using Cons.IH by (auto split: prod.split option.split)
qed simp

lemma sg_loop_failure:
  "k < length steps \<Longrightarrow> \<not> succeeds steps w k \<Longrightarrow> (\<forall>j < k. succeeds steps w j) \<Longrightarrow>
     sg_loop cs steps w = (False, undo_all (rev (cs @ take k steps))
       (snd (ss_Action (steps ! k) (act_all (take k steps) w))))"
proof (induction steps arbitrary: cs w k)
  case (Cons s ss)
  show ?case
  proof (cases k)
    case 0
    then show ?thesis using Cons.prems(2)
      by (auto simp: sg_undo_eq split: prod.split option.split)
  next
    case (Suc i)
    have "succeeds (s # ss) w 0" using Cons.prems(3) Suc by blast
    moreover have "\<forall>j < i. succeeds ss (snd (ss_Action s w)) j"
      using Cons.prems(3) Suc by (auto simp flip: succeeds_Cons(2))
    moreover have "i < length ss" "\<not> succeeds ss (snd (ss_Action s w)) i"
      using Cons.prems(1,2) Suc by simp_all
    ultimately show ?thesis
      using Cons.IH [of i "snd (ss_Action s w)" "cs @ [s]"] Suc
      by (auto split: prod.split option.split)
  qed
qed simp

text \<open>What a correct caller supplies: compensations that undo, and failures that leave nothing behind.\<close>

definition compensated :: "('w, 'e) saga_step \<Rightarrow> bool" where
  "compensated s \<longleftrightarrow> (\<forall>w w'. ss_Action s w = (None, w') \<longrightarrow> snd (ss_Compensate s w') = w) \<and>
     (\<forall>w e w'. ss_Action s w = (Some e, w') \<longrightarrow> w' = w)"

lemma undo_act_all:
  "(\<forall>s \<in> set steps. compensated s) \<Longrightarrow> (\<forall>k < length steps. succeeds steps w k) \<Longrightarrow>
     undo_all (rev steps) (act_all steps w) = w"
proof (induction steps arbitrary: w)
  case (Cons s ss)
  have s: "succeeds (s # ss) w 0" "\<forall>k < length ss. succeeds ss (snd (ss_Action s w)) k"
    using Cons.prems(2) by (auto simp flip: succeeds_Cons(2))
  then have "undo_all (rev ss) (act_all ss (snd (ss_Action s w))) = snd (ss_Action s w)"
    using Cons by simp
  moreover have "snd (ss_Compensate s (snd (ss_Action s w))) = w"
    using Cons.prems(1) s(1) unfolding compensated_def
    by (metis list.set_intros(1) prod.collapse succeeds_Cons(1))
  ultimately show ?case by simp
qed simp

lemma succeeds_take: "j < k \<Longrightarrow> k \<le> length steps \<Longrightarrow> succeeds (take k steps) w j = succeeds steps w j"
  by (simp add: succeeds_def min_def)



end
