(* ===== verification/Two_Phase_Commit.thy ===== *)
theory Two_Phase_Commit
  imports Go_Prelude
begin

text \<open>
  \<open>src/37-Two-Phase-Commit/main.go\<close>: all participants vote, and the transaction commits at all of
  them or is aborted at those that had voted yes. A participant is the Go interface, three functions
  on the world \<open>'w\<close>; the two implementations in the file change nothing.
\<close>

record 'w participant =
  pt_Prepare :: "string \<Rightarrow> 'w \<Rightarrow> bool \<times> 'w"
  pt_Commit :: "string \<Rightarrow> 'w \<Rightarrow> 'w"
  pt_Abort :: "string \<Rightarrow> 'w \<Rightarrow> 'w"

record 'w coordinator =
  tc_participants :: "'w participant list"

definition NewTwoPhaseCommitCoordinator :: "'w participant list \<Rightarrow> 'w coordinator" where
  "NewTwoPhaseCommitCoordinator ps = \<lparr>tc_participants = ps\<rparr>"

text \<open>The loop of phase 1: the world, the participants that voted yes, and whether all did.\<close>

fun tc_prepare :: "string \<Rightarrow> 'w participant list \<Rightarrow> 'w participant list \<Rightarrow> 'w \<Rightarrow>
    bool \<times> 'w participant list \<times> 'w" where
  "tc_prepare tx prepared [] w = (True, prepared, w)"
| "tc_prepare tx prepared (p # ps) w =
     (case pt_Prepare p tx w of (vote, w') \<Rightarrow>
        if \<not> vote then (False, prepared, w') else tc_prepare tx (prepared @ [p]) ps w')"

definition tc_Execute :: "string \<Rightarrow> 'w coordinator \<Rightarrow> 'w \<Rightarrow> string \<times> 'w" where
  "tc_Execute tx c w =
     (case tc_prepare tx [] (tc_participants c) w of (ok, prepared, w') \<Rightarrow>
        if \<not> ok then (''aborted'', fold (\<lambda>p. pt_Abort p tx) prepared w')
        else (''committed'', fold (\<lambda>p. pt_Commit p tx) prepared w'))"

definition MemoryParticipant :: "'w participant" where
  "MemoryParticipant = \<lparr>pt_Prepare = \<lambda>tx w. (True, w), pt_Commit = \<lambda>tx w. w, pt_Abort = \<lambda>tx w. w\<rparr>"

definition FailingParticipant :: "string \<Rightarrow> 'w participant" where
  "FailingParticipant reason =
     \<lparr>pt_Prepare = \<lambda>tx w. (False, w), pt_Commit = \<lambda>tx w. w, pt_Abort = \<lambda>tx w. w\<rparr>"

subsection \<open>Recording the calls\<close>

datatype tc_event = EvPrepare nat bool | EvCommit nat | EvAbort nat

text \<open>Participant \<open>i\<close> with a record of the calls it gets.\<close>

definition recorded :: "nat \<Rightarrow> 'w participant \<Rightarrow> ('w \<times> tc_event list) participant" where
  "recorded i p =
     \<lparr>pt_Prepare = \<lambda>tx (w, es). (case pt_Prepare p tx w of (vote, w') \<Rightarrow> (vote, (w', es @ [EvPrepare i vote]))),
      pt_Commit = \<lambda>tx (w, es). (pt_Commit p tx w, es @ [EvCommit i]),
      pt_Abort = \<lambda>tx (w, es). (pt_Abort p tx w, es @ [EvAbort i])\<rparr>"

definition recorded_all :: "nat \<Rightarrow> 'w participant list \<Rightarrow> ('w \<times> tc_event list) participant list" where
  "recorded_all i ps = map (\<lambda>(j, p). recorded j p) (enumerate i ps)"

lemma recorded_all_simps [simp]:
  "recorded_all i [] = []" "recorded_all i (p # ps) = recorded i p # recorded_all (Suc i) ps"
  "recorded_all i (ps @ [p]) = recorded_all i ps @ [recorded (i + length ps) p]"
  by (simp_all add: recorded_all_def enumerate_append_eq)

text \<open>The result of phase 1 from participant \<open>i\<close> on, with the events \<open>es\<close> before.\<close>

definition voted :: "'w participant list \<Rightarrow> nat \<Rightarrow> tc_event list \<Rightarrow>
    bool \<times> ('w \<times> tc_event list) participant list \<times> 'w \<times> tc_event list \<Rightarrow> bool" where
  "voted ps i es r \<longleftrightarrow>
     (\<exists>w. r = (True, recorded_all 0 ps, w, es @ map (\<lambda>j. EvPrepare j True) [i..<length ps])) \<or>
     (\<exists>w k. i \<le> k \<and> k < length ps \<and> r = (False, recorded_all 0 (take k ps), w,
        es @ map (\<lambda>j. EvPrepare j True) [i..<k] @ [EvPrepare k False]))"

lemma voted_step:
  assumes "voted ps (Suc i) (es @ [EvPrepare i True]) r" "i < length ps"
  shows "voted ps i es r"
proof -
  have "[i..<k] = i # [Suc i..<k]" if "i < k" for k using that by (rule upt_conv_Cons)
  then show ?thesis using assms unfolding voted_def by (auto simp: Suc_le_eq)
qed

lemma tc_prepare_voted:
  "voted (ps @ qs) (length ps) es (tc_prepare tx (recorded_all 0 ps) (recorded_all (length ps) qs) (w, es))"
proof (induction qs arbitrary: ps w es)
  case Nil
  show ?case by (simp add: voted_def)
next
  case (Cons q qs)
  obtain vote w' where v: "pt_Prepare q tx w = (vote, w')" by (cases "pt_Prepare q tx w")
  show ?case
  proof (cases vote)
    case False
    then show ?thesis by (auto simp: voted_def recorded_def v)
  next
    case True
    have "tc_prepare tx (recorded_all 0 ps) (recorded_all (length ps) (q # qs)) (w, es) =
        tc_prepare tx (recorded_all 0 (ps @ [q])) (recorded_all (length (ps @ [q])) qs) (w', es @ [EvPrepare (length ps) True])"
      using True by (simp add: recorded_def v)
    then show ?thesis
      using Cons.IH [of "ps @ [q]" "es @ [EvPrepare (length ps) True]" w'] voted_step [of "ps @ q # qs" "length ps" es]
      by simp
  qed
qed

lemma fold_recorded:
  "snd (fold (\<lambda>p. pt_Commit p tx) (recorded_all i ps) (w, es)) = es @ map EvCommit [i..<i + length ps]"
  "snd (fold (\<lambda>p. pt_Abort p tx) (recorded_all i ps) (w, es)) = es @ map EvAbort [i..<i + length ps]"
proof -
  have upt: "[i..<i + Suc n] = i # [Suc i..<Suc i + n]" for i n
    by (simp add: upt_conv_Cons)
  show "snd (fold (\<lambda>p. pt_Commit p tx) (recorded_all i ps) (w, es)) = es @ map EvCommit [i..<i + length ps]"
    by (induction ps arbitrary: i w es) (simp, simp only: recorded_all_simps fold_simps length_Cons upt, simp add: recorded_def)
  show "snd (fold (\<lambda>p. pt_Abort p tx) (recorded_all i ps) (w, es)) = es @ map EvAbort [i..<i + length ps]"
    by (induction ps arbitrary: i w es) (simp, simp only: recorded_all_simps fold_simps length_Cons upt, simp add: recorded_def)
qed

text \<open>
  C9. Whatever the participants do, there are two outcomes. Either all voted yes in order, then all
  were told to commit in order, and the result is committed. Or some participant \<open>k\<close> was the first to vote
  no: then exactly those before it were told to abort, nobody was told to commit, no later one was
  asked, and the result is aborted.
\<close>
theorem tc_Execute_atomic:
  fixes ps :: "'w participant list" and w :: 'w and tx :: string
  defines "r \<equiv> tc_Execute tx (NewTwoPhaseCommitCoordinator (recorded_all 0 ps)) (w, [])"
  shows "(fst r = ''committed'' \<and>
      snd (snd r) = map (\<lambda>i. EvPrepare i True) [0..<length ps] @ map EvCommit [0..<length ps]) \<or>
    (\<exists>k < length ps. fst r = ''aborted'' \<and>
      snd (snd r) = map (\<lambda>i. EvPrepare i True) [0..<k] @ [EvPrepare k False] @ map EvAbort [0..<k])"
proof -
  have "voted ps 0 [] (tc_prepare tx [] (recorded_all 0 ps) (w, []))"
    using tc_prepare_voted [of "[]" ps "[]" tx w] by simp
  then consider w' where "tc_prepare tx [] (recorded_all 0 ps) (w, []) =
      (True, recorded_all 0 ps, w', map (\<lambda>j. EvPrepare j True) [0..<length ps])"
    | w' k where "k < length ps" "tc_prepare tx [] (recorded_all 0 ps) (w, []) =
      (False, recorded_all 0 (take k ps), w', map (\<lambda>j. EvPrepare j True) [0..<k] @ [EvPrepare k False])"
    unfolding voted_def by auto
  then show ?thesis
  proof cases
    case 1
    then show ?thesis
      by (simp add: r_def tc_Execute_def NewTwoPhaseCommitCoordinator_def fold_recorded)
  next
    case 2
    then show ?thesis
      by (intro disjI2 exI [of _ k])
        (simp add: r_def tc_Execute_def NewTwoPhaseCommitCoordinator_def fold_recorded)
  qed
qed

lemma tc_Execute_examples:
  "tc_Execute tx (NewTwoPhaseCommitCoordinator (replicate n MemoryParticipant)) w = (''committed'', w)"
  "tc_Execute tx (NewTwoPhaseCommitCoordinator (replicate n MemoryParticipant @ FailingParticipant why # ps)) w = (''aborted'', w)"
proof -
  have id: "fold (\<lambda>p. pt_Commit p tx) (replicate m MemoryParticipant) w = w"
    "fold (\<lambda>p. pt_Abort p tx) (replicate m MemoryParticipant) w = w" for m and w :: 'a
    by (induction m) (simp_all add: MemoryParticipant_def del: fold_replicate)
  have vote: "pt_Prepare MemoryParticipant tx w = (True, w)" "pt_Prepare (FailingParticipant why) tx w = (False, w)"
    for w :: 'a by (simp_all add: MemoryParticipant_def FailingParticipant_def)
  have more: "replicate m x @ [x] = replicate (Suc m) x" for m and x :: "'a participant"
    by (simp add: replicate_append_same)
  have 1: "tc_prepare tx (replicate m MemoryParticipant) (replicate n MemoryParticipant) w
      = (True, replicate (m + n) MemoryParticipant, w)" for m
  proof (induction n arbitrary: m)
    case (Suc n)
    show ?case using Suc.IH [of "Suc m"] by (simp add: vote more)
  qed simp
  have 2: "tc_prepare tx (replicate m MemoryParticipant) (replicate n MemoryParticipant @ FailingParticipant why # ps) w
      = (False, replicate (m + n) MemoryParticipant, w)" for m
  proof (induction n arbitrary: m)
    case (Suc n)
    show ?case using Suc.IH [of "Suc m"] by (simp add: vote more)
  qed (simp add: vote)
  show "tc_Execute tx (NewTwoPhaseCommitCoordinator (replicate n MemoryParticipant)) w = (''committed'', w)"
    using 1 [of 0] by (simp add: tc_Execute_def NewTwoPhaseCommitCoordinator_def id del: fold_replicate)
  show "tc_Execute tx (NewTwoPhaseCommitCoordinator (replicate n MemoryParticipant @ FailingParticipant why # ps)) w = (''aborted'', w)"
    using 2 [of 0] by (simp add: tc_Execute_def NewTwoPhaseCommitCoordinator_def id del: fold_replicate)
qed

end
