(* ===== verification/Replication.thy ===== *)
theory Replication
  imports Go_Prelude
begin

text \<open>
  \<open>src/38-Replication/main.go\<close>: a primary map and replicas that every write reaches before it
  returns. A negative replica count makes \<open>make\<close> panic. The maps are separate objects: \<open>Failover\<close> copies the entries.
\<close>

record replica_store =
  rp_primary :: "(string, string) gomap"
  rp_replicas :: "(string, string) gomap list"

definition NewPrimaryReplicaStore :: "int \<Rightarrow> replica_store outcome" where
  "NewPrimaryReplicaStore replicaCount =
     (if replicaCount < 0 then Inl BadArgument
      else Inr \<lparr>rp_primary = fmempty, rp_replicas = replicate (nat replicaCount) fmempty\<rparr>)"

definition rp_Write :: "string \<Rightarrow> string \<Rightarrow> replica_store \<Rightarrow> replica_store" where
  "rp_Write key v s =
     (let s = s\<lparr>rp_primary := fmupd key v (rp_primary s)\<rparr> in
      s\<lparr>rp_replicas := map (fmupd key v) (rp_replicas s)\<rparr>)"

definition rp_find :: "string \<Rightarrow> (string, string) gomap \<Rightarrow> string \<times> bool" where
  "rp_find key m = (case fmlookup m key of None \<Rightarrow> ([], False) | Some v \<Rightarrow> (v, True))"

definition rp_Read :: "string \<Rightarrow> bool \<Rightarrow> replica_store \<Rightarrow> string \<times> bool" where
  "rp_Read key fromReplica s =
     (if fromReplica \<and> length (rp_replicas s) > 0 then rp_find key (rp_replicas s ! 0)
      else rp_find key (rp_primary s))"

definition rp_Failover :: "(nat \<Rightarrow> string fset \<Rightarrow> string list) \<Rightarrow> int \<Rightarrow> replica_store \<Rightarrow> bool \<times> replica_store" where
  "rp_Failover ord replicaIndex s =
     (if replicaIndex < 0 \<or> replicaIndex \<ge> int (length (rp_replicas s)) then (False, s)
      else (let m = rp_replicas s ! nat replicaIndex in
        (True, s\<lparr>rp_primary := fold (\<lambda>k p. fmupd k (gm_get [] m k) p) (ord 0 (fmdom m)) fmempty\<rparr>)))"

subsection \<open>The copies agree\<close>

definition rp_inv :: "nat \<Rightarrow> (string, string) gomap \<Rightarrow> replica_store \<Rightarrow> bool" where
  "rp_inv n m s \<longleftrightarrow> rp_primary s = m \<and> rp_replicas s = replicate n m"

lemma copy_map:
  assumes "range_orders ord"
  shows "fold (\<lambda>k p. fmupd k (gm_get [] m k) p) (ord 0 (fmdom m)) fmempty = m"
proof (rule fmap_ext)
  fix k
  let ?ks = "ord 0 (fmdom m)"
  have "fmlookup (fold (\<lambda>k p. fmupd k (gm_get [] m k) p) ?ks fmempty) k
     = (if k \<in> set ?ks then (\<lambda>k v. Some (gm_get [] m k)) k (fmlookup fmempty k) else fmlookup fmempty k)"
    by (rule fold_pointwise) (simp_all add: range_orders_distinct [OF assms])
  then show "fmlookup (fold (\<lambda>k p. fmupd k (gm_get [] m k) p) ?ks fmempty) k = fmlookup m k"
    by (auto simp: range_orders_set [OF assms] fmlookup_dom_iff gm_get_def split: option.splits)
qed

datatype rp_op = RpWrite string string | RpRead string bool | RpFailover int

datatype rp_result = RpNone | RpValue "string \<times> bool" | RpPromoted bool

fun rp_step :: "(nat \<Rightarrow> string fset \<Rightarrow> string list) \<Rightarrow> rp_op \<Rightarrow> replica_store \<Rightarrow> rp_result \<times> replica_store" where
  "rp_step ord (RpWrite k v) s = (RpNone, rp_Write k v s)"
| "rp_step ord (RpRead k b) s = (RpValue (rp_Read k b s), s)"
| "rp_step ord (RpFailover i) s = apfst RpPromoted (rp_Failover ord i s)"

fun rp_run :: "(nat \<Rightarrow> string fset \<Rightarrow> string list) \<Rightarrow> rp_op list \<Rightarrow> replica_store \<Rightarrow> rp_result list \<times> replica_store" where
  "rp_run ord [] s = ([], s)"
| "rp_run ord (c # cs) s =
     (case rp_step ord c s of (r, s') \<Rightarrow> (case rp_run ord cs s' of (rs, s'') \<Rightarrow> (r # rs, s'')))"

text \<open>One map, on which a failover has no effect.\<close>

fun rp_spec :: "nat \<Rightarrow> rp_op list \<Rightarrow> (string, string) gomap \<Rightarrow> rp_result list \<times> (string, string) gomap" where
  "rp_spec n [] m = ([], m)"
| "rp_spec n (RpWrite k v # cs) m = apfst (Cons RpNone) (rp_spec n cs (fmupd k v m))"
| "rp_spec n (RpRead k b # cs) m = apfst (Cons (RpValue (rp_find k m))) (rp_spec n cs m)"
| "rp_spec n (RpFailover i # cs) m = apfst (Cons (RpPromoted (0 \<le> i \<and> i < int n))) (rp_spec n cs m)"

lemma rp_Failover_ok:
  assumes "range_orders ord" "rp_inv n m s"
  shows "rp_Failover ord i s = (0 \<le> i \<and> i < int n, s)"
proof (cases "0 \<le> i \<and> i < int n")
  case True
  then have "rp_replicas s ! nat i = m" using assms(2) by (simp add: rp_inv_def nat_less_iff)
  then show ?thesis using True assms(2)
    by (simp add: rp_Failover_def rp_inv_def copy_map [OF assms(1)])
next
  case False
  then show ?thesis using assms(2) by (auto simp: rp_Failover_def rp_inv_def)
qed

text \<open>
  C21. Whatever the writes, reads from either side and failovers to any index, the store answers as
  one map does: no write is lost by a failover, a read from a replica is never stale, a failover fails exactly when the index is
  out of range; and at the end the primary and all replicas hold that map.
\<close>
theorem rp_run_is_map:
  assumes "range_orders ord" "0 \<le> n"
  shows "\<exists>s s'. NewPrimaryReplicaStore n = Inr s \<and>
    rp_run ord cs s = (fst (rp_spec (nat n) cs fmempty), s') \<and>
    rp_primary s' = snd (rp_spec (nat n) cs fmempty) \<and>
    rp_replicas s' = replicate (nat n) (snd (rp_spec (nat n) cs fmempty))"
proof -
  let ?s = "\<lparr>rp_primary = fmempty, rp_replicas = replicate (nat n) fmempty\<rparr> :: replica_store"
  have "\<exists>s'. rp_run ord cs s = (fst (rp_spec (nat n) cs m), s') \<and> rp_inv (nat n) (snd (rp_spec (nat n) cs m)) s'"
    if "rp_inv (nat n) m s" for s m
    using that
  proof (induction cs arbitrary: s m)
    case (Cons c cs)
    show ?case
    proof (cases c)
      case (RpWrite k v)
      have "rp_inv (nat n) (fmupd k v m) (rp_Write k v s)"
        using Cons.prems by (simp add: rp_inv_def rp_Write_def Let_def)
      from Cons.IH [OF this] show ?thesis by (auto simp: RpWrite)
    next
      case (RpRead k b)
      have "rp_Read k b s = rp_find k m"
        using Cons.prems by (auto simp: rp_inv_def rp_Read_def)
      then show ?thesis using Cons.IH [OF Cons.prems] by (auto simp: RpRead)
    next
      case (RpFailover i)
      show ?thesis using Cons.IH [OF Cons.prems] rp_Failover_ok [OF assms(1) Cons.prems, of i]
        by (auto simp: RpFailover)
    qed
  qed simp
  moreover have "rp_inv (nat n) fmempty ?s" by (simp add: rp_inv_def)
  moreover have "NewPrimaryReplicaStore n = Inr ?s" using assms(2) by (simp add: NewPrimaryReplicaStore_def)
  ultimately show ?thesis unfolding rp_inv_def by blast
qed

lemma rp_run_is_map_witness:
  "\<exists>s s'. NewPrimaryReplicaStore 2 = Inr s \<and>
     rp_run (\<lambda>n. sorted_list_of_fset) [RpWrite ''k'' ''v'', RpFailover 1, RpRead ''k'' True, RpFailover 2] s
     = ([RpNone, RpPromoted True, RpValue (''v'', True), RpPromoted False], s')"
  using rp_run_is_map [OF range_orders_sorted, of 2 "[RpWrite ''k'' ''v'', RpFailover 1, RpRead ''k'' True, RpFailover 2]"]
  by (auto simp: rp_find_def simp del: rp_run.simps)

end
