(* ===== verification/Sharded_Store.thy ===== *)
theory Sharded_Store
  imports Kv_Interface Fnv_Hash
begin

text \<open>
  \<open>src/39-Sharding/main.go\<close>: keys spread over several maps by a hash. \<open>len(s.shards)\<close> is cast to
  32 bits before the modulus, so the model keeps that width: with a multiple of \<open>2 ^ 32\<close> shards the
  program would divide by zero, and the theorem is about fewer.
\<close>

record sharded_store =
  sh_shards :: "(string, string) gomap list"

definition NewShardedStore :: "int \<Rightarrow> sharded_store outcome" where
  "NewShardedStore shardCount =
     (if shardCount \<le> 0 then Inl ExitOne
      else Inr \<lparr>sh_shards = replicate (nat shardCount) fmempty\<rparr>)"

definition sh_hash32 :: "string \<Rightarrow> u32" where
  "sh_hash32 s = fnv1a_from 2166136261 s"

definition sh_ShardIndex :: "string \<Rightarrow> sharded_store \<Rightarrow> nat outcome" where
  "sh_ShardIndex key s =
     (let n = of_nat (length (sh_shards s)) :: u32 in
      if n = 0 then Inl DivideByZero else Inr (unat (sh_hash32 key mod n)))"

definition sh_Put :: "string \<Rightarrow> string \<Rightarrow> sharded_store \<Rightarrow> sharded_store outcome" where
  "sh_Put key v s = and_then (sh_ShardIndex key s) (\<lambda>i.
     if i < length (sh_shards s)
     then Inr (s\<lparr>sh_shards := (sh_shards s)[i := fmupd key v (sh_shards s ! i)]\<rparr>)
     else Inl IndexOutOfRange)"

definition sh_Get :: "string \<Rightarrow> sharded_store \<Rightarrow> (string \<times> bool) outcome" where
  "sh_Get key s = and_then (sh_ShardIndex key s) (\<lambda>i.
     if i < length (sh_shards s)
     then Inr (case fmlookup (sh_shards s ! i) key of None \<Rightarrow> ([], False) | Some v \<Rightarrow> (v, True))
     else Inl IndexOutOfRange)"

subsection \<open>Routing\<close>

text \<open>A key is in no shard but its own.\<close>

definition sh_home :: "string \<Rightarrow> sharded_store \<Rightarrow> nat" where
  "sh_home key s = unat (sh_hash32 key) mod length (sh_shards s)"

definition sh_inv :: "sharded_store \<Rightarrow> bool" where
  "sh_inv s \<longleftrightarrow> 0 < length (sh_shards s) \<and> length (sh_shards s) < 2 ^ 32 \<and>
     (\<forall>i < length (sh_shards s). \<forall>k. fmlookup (sh_shards s ! i) k \<noteq> None \<longrightarrow> i = sh_home k s)"

definition sh_abs :: "sharded_store \<Rightarrow> string \<Rightarrow> string option" where
  "sh_abs s k = fmlookup (sh_shards s ! sh_home k s) k"

lemma sh_ShardIndex_home:
  assumes "sh_inv s"
  shows "sh_ShardIndex k s = Inr (sh_home k s)" "sh_home k s < length (sh_shards s)"
proof -
  let ?n = "length (sh_shards s)"
  have n: "0 < ?n" "?n < 2 ^ 32" using assms by (simp_all add: sh_inv_def)
  have w: "unat (of_nat ?n :: u32) = ?n" using n(2) by (simp add: unat_of_nat)
  have "(of_nat ?n :: u32) \<noteq> 0" using w n(1) by (metis less_not_refl unsigned_0)
  moreover have "unat (sh_hash32 k mod of_nat ?n) = unat (sh_hash32 k) mod ?n"
    by (simp only: unat_mod_distrib w)
  ultimately show "sh_ShardIndex k s = Inr (sh_home k s)"
    by (simp only: sh_ShardIndex_def Let_def sh_home_def if_False)
  show "sh_home k s < ?n" using n(1) by (simp add: sh_home_def)
qed

text \<open>\<open>Get\<close> with its two results as an option.\<close>

definition sh_read :: "string \<Rightarrow> sharded_store \<Rightarrow> string option outcome" where
  "sh_read k s = and_then (sh_Get k s) (\<lambda>(v, ok). Inr (if ok then Some v else None))"

lemma sh_read_abs: "sh_inv s \<Longrightarrow> sh_read k s = Inr (sh_abs s k)"
  by (auto simp: sh_read_def sh_Get_def sh_ShardIndex_home sh_abs_def split: option.splits)

lemma sh_Put_ok:
  assumes "sh_inv s"
  shows "\<exists>s'. sh_Put k v s = Inr s' \<and> sh_inv s' \<and> sh_abs s' = (sh_abs s)(k \<mapsto> v)"
proof -
  note home = sh_ShardIndex_home [OF assms]
  let ?s = "s\<lparr>sh_shards := (sh_shards s)[sh_home k s := fmupd k v (sh_shards s ! sh_home k s)]\<rparr>"
  have "sh_Put k v s = Inr ?s" by (simp add: sh_Put_def home)
  moreover have same: "sh_home j ?s = sh_home j s" for j by (simp add: sh_home_def)
  moreover have "sh_inv ?s"
    using assms unfolding sh_inv_def same by (auto simp: nth_list_update home)
  moreover have "sh_abs ?s = (sh_abs s)(k \<mapsto> v)"
    unfolding sh_abs_def same by (rule ext) (simp add: nth_list_update home)
  ultimately show ?thesis by blast
qed

interpretation sh: kv_store sh_inv sh_abs sh_Put sh_read "\<lambda>_. 0" 0 0
  by unfold_locales (simp_all add: sh_read_abs sh_Put_ok)

lemma sh_New_ok:
  assumes "0 < n" "n < 2 ^ 32"
  shows "\<exists>s. NewShardedStore n = Inr s \<and> sh_inv s \<and> sh_abs s = Map.empty \<and> length (sh_shards s) = nat n"
proof -
  let ?s = "\<lparr>sh_shards = replicate (nat n) fmempty\<rparr> :: sharded_store"
  have "sh_home k ?s < nat n" for k using assms(1) by (simp add: sh_home_def)
  then have "sh_inv ?s \<and> sh_abs ?s = Map.empty"
    using assms by (auto simp: sh_inv_def sh_abs_def)
  then show ?thesis using assms(1) by (simp add: NewShardedStore_def)
qed

text \<open>
  C20. With at least one and fewer than \<open>2 ^ 32\<close> shards, every sequence of \<open>Put\<close> and \<open>Get\<close> runs without
  a division by zero or an index out of range and returns what one map would return; and every key is stored in the shard of
  its hash and in no other.
\<close>
theorem sh_run_is_map:
  assumes "0 < n" "n < 2 ^ 32" "\<forall>k. KvDelete k \<notin> set ops"
  shows "\<exists>s s'. NewShardedStore n = Inr s \<and>
    kv_run sh_Put sh_read (\<lambda>k. Inr) ops s = Inr (fst (kv_spec_run ops Map.empty), s') \<and>
    (\<forall>i < length (sh_shards s'). \<forall>k. fmlookup (sh_shards s' ! i) k \<noteq> None \<longrightarrow> sh_ShardIndex k s' = Inr i)"
proof -
  obtain s where s: "NewShardedStore n = Inr s" "sh_inv s" "sh_abs s = Map.empty"
    using sh_New_ok [OF assms(1,2)] by blast
  obtain s' where s': "kv_run sh_Put sh_read (\<lambda>k. Inr) ops s = Inr (fst (kv_spec_run ops Map.empty), s')" "sh_inv s'"
    using sh.run_without_delete [OF s(2) _ assms(3), of "\<lambda>k. Inr"] s(3) by auto
  have "sh_ShardIndex k s' = Inr i" if "i < length (sh_shards s')" "fmlookup (sh_shards s' ! i) k \<noteq> None" for i k
    using s'(2) that sh_ShardIndex_home(1) [OF s'(2)] unfolding sh_inv_def by metis
  then show ?thesis using s(1) s'(1) by blast
qed

lemma sh_run_is_map_witness:
  "\<exists>s s'. NewShardedStore 3 = Inr s \<and>
     kv_run sh_Put sh_read (\<lambda>k. Inr) [KvSet ''a'' ''1'', KvGet ''a'', KvGet ''b''] s = Inr ([Some ''1'', None], s')"
  using sh_run_is_map [of 3 "[KvSet ''a'' ''1'', KvGet ''a'', KvGet ''b'']"] by auto

text \<open>With exactly \<open>2 ^ 32\<close> shards the cast length is 0 and the first access divides by zero.\<close>

lemma sh_ShardIndex_wraps: "length (sh_shards s) = 2 ^ 32 \<Longrightarrow> sh_ShardIndex k s = Inl DivideByZero"
proof -
  assume "length (sh_shards s) = 2 ^ 32"
  moreover have "(of_nat (2 ^ 32) :: u32) = 0" by simp
  ultimately show ?thesis by (simp only: sh_ShardIndex_def Let_def if_True simp_thms)
qed

end
