(* ===== verification/Raft_Consensus.thy ===== *)
theory Raft_Consensus
  imports Go_Prelude
begin

text \<open>
  \<open>src/40-Consensus/main.go\<close>: a simplified Raft in which an election and the replication of an entry
  are single synchronous calls. The model has the nodes as a map of records (each Go pointer in the
  map is to its own node) and the loops over the map in any order.

  \<open>VotedFor\<close> is never reset, so a vote is for ever: after the first election no other node can
  win, although the README speaks of one vote per term (\<open>rc_first_leader_stays\<close>).
\<close>

datatype raft_role = Follower | Candidate | Leader

record log_entry =
  le_Term :: int
  le_Command :: string

record raft_node =
  rn_ID :: int
  rn_Role :: raft_role
  rn_Term :: int
  rn_VotedFor :: int
  rn_Log :: "log_entry list"
  rn_CommitIndex :: int

record raft_cluster =
  rc_nodes :: "(int, raft_node) gomap"
  rc_leaderID :: int

type_synonym rc_orders = "nat \<Rightarrow> int fset \<Rightarrow> int list"

definition rc_newNode :: "int \<Rightarrow> raft_node" where
  "rc_newNode i = \<lparr>rn_ID = i, rn_Role = Follower, rn_Term = 0, rn_VotedFor = -1, rn_Log = [], rn_CommitIndex = -1\<rparr>"

definition NewRaftCluster :: "int list \<Rightarrow> raft_cluster" where
  "NewRaftCluster ids =
     \<lparr>rc_nodes = fold (\<lambda>i m. fmupd i (rc_newNode i) m) ids fmempty, rc_leaderID = -1\<rparr>"

text \<open>The node at a key of the map (the loops visit only keys).\<close>

definition node_at :: "(int, raft_node) gomap \<Rightarrow> int \<Rightarrow> raft_node" where
  "node_at m i = gm_get (rc_newNode i) m i"

text \<open>The request for a vote in the loop of \<open>Elect\<close>, and the roles after a victory.\<close>

definition rc_request :: "raft_node \<Rightarrow> int \<Rightarrow> (int, raft_node) gomap \<times> nat \<Rightarrow> (int, raft_node) gomap \<times> nat" where
  "rc_request cand i = (\<lambda>(m, votes).
     let peer = node_at m i in
     if rn_ID peer = rn_ID cand then (m, votes)
     else if rn_Term cand \<ge> rn_Term peer \<and> (rn_VotedFor peer = -1 \<or> rn_VotedFor peer = rn_ID cand)
     then (fmupd i (peer\<lparr>rn_Term := rn_Term cand, rn_VotedFor := rn_ID cand\<rparr>) m, votes + 1)
     else (m, votes))"

definition rc_setRole :: "int \<Rightarrow> int \<Rightarrow> (int, raft_node) gomap \<Rightarrow> (int, raft_node) gomap" where
  "rc_setRole cid i m =
     (let node = node_at m i in
      fmupd i (if rn_ID node = cid then node\<lparr>rn_Role := Leader\<rparr> else node\<lparr>rn_Role := Follower\<rparr>) m)"

definition rc_Elect :: "rc_orders \<Rightarrow> int \<Rightarrow> raft_cluster \<Rightarrow> bool \<times> raft_cluster" where
  "rc_Elect ord candidateID c =
     (case fmlookup (rc_nodes c) candidateID of
        None \<Rightarrow> (False, c)
      | Some n \<Rightarrow>
          (let cand = n\<lparr>rn_Role := Candidate, rn_Term := rn_Term n + 1, rn_VotedFor := rn_ID n\<rparr>;
               m = fmupd candidateID cand (rc_nodes c);
               (m, votes) = fold (rc_request cand) (ord 0 (fmdom m)) (m, 1)
           in if votes > gm_len m div 2
              then (True, c\<lparr>rc_leaderID := rn_ID cand, rc_nodes := fold (rc_setRole (rn_ID cand)) (ord 1 (fmdom m)) m\<rparr>)
              else (False, c\<lparr>rc_nodes := m\<rparr>)))"

definition rc_replicate :: "int \<Rightarrow> log_entry \<Rightarrow> int \<Rightarrow> (int, raft_node) gomap \<times> nat \<Rightarrow> (int, raft_node) gomap \<times> nat" where
  "rc_replicate ldr e i = (\<lambda>(m, n).
     let peer = node_at m i in
     if rn_ID peer = ldr then (m, n) else (fmupd i (peer\<lparr>rn_Log := rn_Log peer @ [e]\<rparr>) m, n + 1))"

definition rc_commit :: "int \<Rightarrow> int \<Rightarrow> (int, raft_node) gomap \<Rightarrow> (int, raft_node) gomap" where
  "rc_commit k i m = fmupd i ((node_at m i)\<lparr>rn_CommitIndex := k\<rparr>) m"

definition rc_Append :: "rc_orders \<Rightarrow> string \<Rightarrow> raft_cluster \<Rightarrow> (bool \<times> raft_cluster) outcome" where
  "rc_Append ord cmd c =
     (if rc_leaderID c = -1 then Inr (False, c)
      else (case fmlookup (rc_nodes c) (rc_leaderID c) of
          None \<Rightarrow> Inl NilDereference
        | Some l \<Rightarrow>
            (let e = \<lparr>le_Term = rn_Term l, le_Command = cmd\<rparr>;
                 l = l\<lparr>rn_Log := rn_Log l @ [e]\<rparr>;
                 m = fmupd (rc_leaderID c) l (rc_nodes c);
                 (m, replicated) = fold (rc_replicate (rn_ID l) e) (ord 0 (fmdom m)) (m, 1)
             in if replicated > gm_len m div 2
                then Inr (True, c\<lparr>rc_nodes := fold (rc_commit (int (length (rn_Log l)) - 1)) (ord 1 (fmdom m)) m\<rparr>)
                else Inr (False, c\<lparr>rc_nodes := m\<rparr>))))"

text \<open>\<open>CommittedCommands\<close>; the nil result is \<open>None\<close>.\<close>

definition rc_CommittedCommands :: "raft_cluster \<Rightarrow> string list option outcome" where
  "rc_CommittedCommands c =
     (if rc_leaderID c = -1 then Inr None
      else (case fmlookup (rc_nodes c) (rc_leaderID c) of
          None \<Rightarrow> Inl NilDereference
        | Some l \<Rightarrow> Inr (Some (map le_Command (take (nat (rn_CommitIndex l + 1)) (rn_Log l))))))"

subsection \<open>Loops over the nodes\<close>

text \<open>A loop that updates the node it visits and counts some of them.\<close>

lemma fold_counting:
  assumes step: "\<And>i m n. stp i (m, n) = (if P i (fmlookup m i) then (upd i m, Suc n) else (m, n))"
    and upd: "\<And>i m. P i (fmlookup m i) \<Longrightarrow> fmlookup (upd i m) i = g i (fmlookup m i)"
    "\<And>i j m. j \<noteq> i \<Longrightarrow> fmlookup (upd i m) j = fmlookup m j"
    and "distinct ks"
  shows "snd (fold stp ks (m, n)) = n + length (filter (\<lambda>i. P i (fmlookup m i)) ks) \<and>
    fmlookup (fst (fold stp ks (m, n))) j = (if j \<in> set ks \<and> P j (fmlookup m j) then g j (fmlookup m j) else fmlookup m j)"
  using assms(4)
proof (induction ks arbitrary: m n)
  case (Cons k ks)
  let ?m = "if P k (fmlookup m k) then upd k m else m"
  have same: "fmlookup ?m i = fmlookup m i" if "i \<in> set ks" for i
    using that Cons.prems upd(2) by (cases "i = k") auto
  have "filter (\<lambda>i. P i (fmlookup ?m i)) ks = filter (\<lambda>i. P i (fmlookup m i)) ks"
    by (rule filter_cong) (simp_all only: same)
  then show ?case
    using Cons.IH [of ?m "if P k (fmlookup m k) then Suc n else n"] Cons.prems upd
    by (cases "j = k") (auto simp: step)
qed simp

text \<open>The nodes of a cluster over the ids \<open>A\<close>, each knowing its id.\<close>

definition rc_ids :: "int set \<Rightarrow> (int, raft_node) gomap \<Rightarrow> bool" where
  "rc_ids A m \<longleftrightarrow> fset (fmdom m) = A \<and> (\<forall>i n. fmlookup m i = Some n \<longrightarrow> rn_ID n = i)"

definition peer_of :: "int \<Rightarrow> raft_node option \<Rightarrow> raft_node" where
  "peer_of i v = (case v of None \<Rightarrow> rc_newNode i | Some n \<Rightarrow> n)"

lemma node_at_peer: "node_at m i = peer_of i (fmlookup m i)"
  by (simp add: node_at_def peer_of_def gm_get_def)

lemma peer_of_Some [simp]: "peer_of i (Some n) = n"
  by (simp add: peer_of_def)

definition grants :: "raft_node \<Rightarrow> int \<Rightarrow> raft_node option \<Rightarrow> bool" where
  "grants cand i v \<longleftrightarrow> rn_ID (peer_of i v) \<noteq> rn_ID cand \<and> rn_Term (peer_of i v) \<le> rn_Term cand \<and>
     (rn_VotedFor (peer_of i v) = -1 \<or> rn_VotedFor (peer_of i v) = rn_ID cand)"

lemma fold_request:
  assumes "distinct ks"
  shows "snd (fold (rc_request cand) ks (m, n)) = n + length (filter (\<lambda>i. grants cand i (fmlookup m i)) ks)"
    and "fmlookup (fst (fold (rc_request cand) ks (m, n))) j = (if j \<in> set ks \<and> grants cand j (fmlookup m j)
      then Some ((peer_of j (fmlookup m j))\<lparr>rn_Term := rn_Term cand, rn_VotedFor := rn_ID cand\<rparr>) else fmlookup m j)"
proof -
  let ?upd = "\<lambda>i m. fmupd i ((peer_of i (fmlookup m i))\<lparr>rn_Term := rn_Term cand, rn_VotedFor := rn_ID cand\<rparr>) m"
  have "snd (fold (rc_request cand) ks (m, n)) = n + length (filter (\<lambda>i. grants cand i (fmlookup m i)) ks) \<and>
    fmlookup (fst (fold (rc_request cand) ks (m, n))) j = (if j \<in> set ks \<and> grants cand j (fmlookup m j)
      then (\<lambda>i v. Some ((peer_of i v)\<lparr>rn_Term := rn_Term cand, rn_VotedFor := rn_ID cand\<rparr>)) j (fmlookup m j) else fmlookup m j)"
    by (rule fold_counting [where upd = ?upd])
      (auto simp: rc_request_def grants_def node_at_peer Let_def assms)
  then show "snd (fold (rc_request cand) ks (m, n)) = n + length (filter (\<lambda>i. grants cand i (fmlookup m i)) ks)"
    "fmlookup (fst (fold (rc_request cand) ks (m, n))) j = (if j \<in> set ks \<and> grants cand j (fmlookup m j)
      then Some ((peer_of j (fmlookup m j))\<lparr>rn_Term := rn_Term cand, rn_VotedFor := rn_ID cand\<rparr>) else fmlookup m j)"
    by blast+
qed

lemma fold_setRole:
  assumes "distinct ks"
  shows "fmlookup (fold (rc_setRole cid) ks m) j = (if j \<in> set ks
    then Some ((peer_of j (fmlookup m j))\<lparr>rn_Role := if rn_ID (peer_of j (fmlookup m j)) = cid then Leader else Follower\<rparr>)
    else fmlookup m j)"
proof -
  have "fmlookup (fold (rc_setRole cid) ks m) j = (if j \<in> set ks
    then (\<lambda>j v. Some ((peer_of j v)\<lparr>rn_Role := if rn_ID (peer_of j v) = cid then Leader else Follower\<rparr>)) j (fmlookup m j)
    else fmlookup m j)"
    by (rule fold_pointwise) (simp_all add: rc_setRole_def Let_def node_at_peer assms)
  then show ?thesis by simp
qed

lemma fold_replicate_log:
  assumes "distinct ks"
  shows "snd (fold (rc_replicate ldr e) ks (m, n)) = n + length (filter (\<lambda>i. rn_ID (peer_of i (fmlookup m i)) \<noteq> ldr) ks)"
    and "fmlookup (fst (fold (rc_replicate ldr e) ks (m, n))) j = (if j \<in> set ks \<and> rn_ID (peer_of j (fmlookup m j)) \<noteq> ldr
      then Some ((peer_of j (fmlookup m j))\<lparr>rn_Log := rn_Log (peer_of j (fmlookup m j)) @ [e]\<rparr>) else fmlookup m j)"
proof -
  let ?upd = "\<lambda>i m. fmupd i ((peer_of i (fmlookup m i))\<lparr>rn_Log := rn_Log (peer_of i (fmlookup m i)) @ [e]\<rparr>) m"
  have "snd (fold (rc_replicate ldr e) ks (m, n)) = n + length (filter (\<lambda>i. (\<lambda>i v. rn_ID (peer_of i v) \<noteq> ldr) i (fmlookup m i)) ks) \<and>
    fmlookup (fst (fold (rc_replicate ldr e) ks (m, n))) j = (if j \<in> set ks \<and> (\<lambda>i v. rn_ID (peer_of i v) \<noteq> ldr) j (fmlookup m j)
      then (\<lambda>i v. Some ((peer_of i v)\<lparr>rn_Log := rn_Log (peer_of i v) @ [e]\<rparr>)) j (fmlookup m j) else fmlookup m j)"
    by (rule fold_counting [where upd = ?upd]) (auto simp: rc_replicate_def node_at_peer Let_def assms)
  then show "snd (fold (rc_replicate ldr e) ks (m, n)) = n + length (filter (\<lambda>i. rn_ID (peer_of i (fmlookup m i)) \<noteq> ldr) ks)"
    "fmlookup (fst (fold (rc_replicate ldr e) ks (m, n))) j = (if j \<in> set ks \<and> rn_ID (peer_of j (fmlookup m j)) \<noteq> ldr
      then Some ((peer_of j (fmlookup m j))\<lparr>rn_Log := rn_Log (peer_of j (fmlookup m j)) @ [e]\<rparr>) else fmlookup m j)"
    by blast+
qed

lemma fold_commit:
  assumes "distinct ks"
  shows "fmlookup (fold (rc_commit k) ks m) j =
    (if j \<in> set ks then Some ((peer_of j (fmlookup m j))\<lparr>rn_CommitIndex := k\<rparr>) else fmlookup m j)"
proof -
  have "fmlookup (fold (rc_commit k) ks m) j =
    (if j \<in> set ks then (\<lambda>j v. Some ((peer_of j v)\<lparr>rn_CommitIndex := k\<rparr>)) j (fmlookup m j) else fmlookup m j)"
    by (rule fold_pointwise) (simp_all add: rc_commit_def node_at_peer assms)
  then show ?thesis by simp
qed

text \<open>Two node maps in which the nodes keep logs and commit indexes.\<close>

definition same_logs :: "(int, raft_node) gomap \<Rightarrow> (int, raft_node) gomap \<Rightarrow> bool" where
  "same_logs m m' \<longleftrightarrow> (\<forall>i n'. fmlookup m' i = Some n' \<longrightarrow>
     (\<exists>n. fmlookup m i = Some n \<and> rn_Log n' = rn_Log n \<and> rn_CommitIndex n' = rn_CommitIndex n))"

subsection \<open>The invariant\<close>

text \<open>Before the first election nothing has happened.\<close>

definition rc_fresh :: "int set \<Rightarrow> raft_cluster \<Rightarrow> bool" where
  "rc_fresh A c \<longleftrightarrow> rc_leaderID c = -1 \<and> fset (fmdom (rc_nodes c)) = A \<and>
     (\<forall>i n. fmlookup (rc_nodes c) i = Some n \<longrightarrow> n = rc_newNode i)"

text \<open>
  After it, with \<open>f\<close> the first candidate and \<open>es\<close> the log: every node has voted for \<open>f\<close> or, having been
  a candidate, for itself; only \<open>f\<close> can have the role of leader; and all nodes have the log \<open>es\<close>, committed
  to its end.
\<close>

definition rc_elected :: "int set \<Rightarrow> int \<Rightarrow> log_entry list \<Rightarrow> raft_cluster \<Rightarrow> bool" where
  "rc_elected A f es c \<longleftrightarrow> rc_leaderID c = f \<and> f \<in> A \<and> rc_ids A (rc_nodes c) \<and>
     (\<forall>i n. fmlookup (rc_nodes c) i = Some n \<longrightarrow>
        (rn_VotedFor n = f \<or> rn_VotedFor n = i) \<and> (rn_Role n = Leader \<longrightarrow> i = f) \<and>
        rn_Log n = es \<and> rn_CommitIndex n = int (length es) - 1)"

subsection \<open>An election\<close>

lemma gm_len_card: "fset (fmdom m) = A \<Longrightarrow> gm_len m = card A"
  by (simp add: gm_len_def fcard.rep_eq)

definition voters :: "raft_node \<Rightarrow> int set \<Rightarrow> (int, raft_node) gomap \<Rightarrow> int set" where
  "voters cand A m = {i \<in> A. grants cand i (fmlookup m i)}"

text \<open>What a run for leadership by the known node \<open>k\<close> does to each node.\<close>

definition elect_node :: "raft_node \<Rightarrow> bool \<Rightarrow> int \<Rightarrow> raft_node \<Rightarrow> raft_node" where
  "elect_node cand won i n =
     (let n = (if i = rn_ID cand then cand
               else if grants cand i (Some n) then n\<lparr>rn_Term := rn_Term cand, rn_VotedFor := rn_ID cand\<rparr> else n)
      in if won then n\<lparr>rn_Role := if i = rn_ID cand then Leader else Follower\<rparr> else n)"

lemma rc_Elect_effect:
  assumes ord: "range_orders ord" and ids: "rc_ids A (rc_nodes c)" and k: "fmlookup (rc_nodes c) k = Some n"
  defines "cand \<equiv> n\<lparr>rn_Role := Candidate, rn_Term := rn_Term n + 1, rn_VotedFor := k\<rparr>"
  defines "won \<equiv> 1 + card (voters cand A (rc_nodes c)) > card A div 2"
  shows "\<exists>m. rc_Elect ord k c = (won, c\<lparr>rc_nodes := m, rc_leaderID := if won then k else rc_leaderID c\<rparr>) \<and>
    (\<forall>i. fmlookup m i = map_option (elect_node cand won i) (fmlookup (rc_nodes c) i))"
proof -
  have dom: "fset (fmdom (rc_nodes c)) = A" and nid: "\<And>i n. fmlookup (rc_nodes c) i = Some n \<Longrightarrow> rn_ID n = i"
    using ids by (auto simp: rc_ids_def)
  have cid: "rn_ID cand = k" "rn_ID n = k" using nid [OF k] by (simp_all add: cand_def)
  let ?m = "fmupd k cand (rc_nodes c)"
  let ?ks = "ord 0 (fmdom ?m)"
  let ?r = "fold (rc_request cand) ?ks (?m, 1)"
  have dom0: "fset (fmdom ?m) = A" using dom k by (auto simp: fmlookup_dom_iff)
  then have ks: "distinct ?ks" "set ?ks = A"
    using range_orders_distinct [OF ord] range_orders_set [OF ord] by (metis, metis)
  have self: "\<not> grants cand k (fmlookup ?m k)" by (simp add: grants_def)
  have same: "grants cand i (fmlookup ?m i) = (i \<noteq> k \<and> grants cand i (fmlookup (rc_nodes c) i))" for i
    using self by auto
  have nk: "\<not> grants cand k (fmlookup (rc_nodes c) k)" using k cid by (simp add: grants_def)
  have eqv: "{i. i \<noteq> k \<and> grants cand i (fmlookup (rc_nodes c) i)} \<inter> A = voters cand A (rc_nodes c)"
    using nk unfolding voters_def by blast
  have votes: "snd ?r = 1 + card (voters cand A (rc_nodes c))"
    unfolding fold_request(1) [OF ks(1)] distinct_length_filter [OF ks(1)] ks(2) same eqv by (rule refl)
  have lk: "fmlookup (fst ?r) i = map_option (elect_node cand False i) (fmlookup (rc_nodes c) i)" for i
  proof (cases "fmlookup (rc_nodes c) i")
    case None
    then have "i \<notin> A" "i \<noteq> k" using dom k by (auto simp: fmlookup_dom_iff)
    then show ?thesis unfolding fold_request(2) [OF ks(1)] ks(2) same using None by simp
  next
    case (Some p)
    then have "i \<in> A" using dom by (auto simp: fmlookup_dom_iff)
    then show ?thesis unfolding fold_request(2) [OF ks(1)] ks(2) same using Some
      by (simp add: elect_node_def Let_def cid)
  qed
  have dom1: "fset (fmdom (fst ?r)) = A"
    unfolding set_eq_iff fmlookup_dom_iff lk using dom by (auto simp: fmlookup_dom_iff)
  let ?js = "ord 1 (fmdom (fst ?r))" let ?m2 = "fold (rc_setRole k) ?js (fst ?r)"
  have js: "distinct ?js" "set ?js = A"
    using dom1 range_orders_distinct [OF ord] range_orders_set [OF ord] by (metis, metis)
  have lk2: "fmlookup ?m2 i = map_option (elect_node cand True i) (fmlookup (rc_nodes c) i)" for i
  proof (cases "fmlookup (rc_nodes c) i")
    case None
    then have "i \<notin> A" using dom by (auto simp: fmlookup_dom_iff)
    then show ?thesis unfolding fold_setRole [OF js(1)] js(2) lk using None by simp
  next
    case (Some p)
    then have "i \<in> A" using dom by (auto simp: fmlookup_dom_iff)
    moreover have "rn_ID (elect_node cand False i p) = i"
      using nid [OF Some] cid by (simp add: elect_node_def Let_def)
    ultimately show ?thesis unfolding fold_setRole [OF js(1)] js(2) lk using Some
      by simp (simp add: elect_node_def Let_def cid)
  qed
  have "rc_Elect ord k c = (if snd ?r > gm_len (fst ?r) div 2
      then (True, c\<lparr>rc_leaderID := k, rc_nodes := ?m2\<rparr>) else (False, c\<lparr>rc_nodes := fst ?r\<rparr>))"
    using cid unfolding rc_Elect_def k Let_def option.case cand_def
    by (simp add: case_prod_beta)
  also have "gm_len (fst ?r) = card A" using dom1 by (rule gm_len_card)
  finally have run: "rc_Elect ord k c = (if won then (True, c\<lparr>rc_leaderID := k, rc_nodes := ?m2\<rparr>)
      else (False, c\<lparr>rc_nodes := fst ?r\<rparr>))" by (simp only: votes won_def)
  show ?thesis
  proof (cases won)
    case True
    then show ?thesis using run lk2 by (intro exI [of _ ?m2]) simp
  next
    case False
    then show ?thesis using run lk by (intro exI [of _ "fst ?r"]) simp
  qed
qed

lemma rc_nodes_in: "rc_ids A m \<Longrightarrow> i \<in> A \<Longrightarrow> \<exists>n. fmlookup m i = Some n \<and> rn_ID n = i"
  unfolding rc_ids_def by (metis fmlookup_dom_iff)

lemma rc_ids_finite: "rc_ids A m \<Longrightarrow> finite A"
  unfolding rc_ids_def by auto

lemma rc_ids_map:
  assumes "rc_ids A m" "\<And>i. fmlookup m' i = map_option (g i) (fmlookup m i)" "\<And>i n. fmlookup m i = Some n \<Longrightarrow> rn_ID (g i n) = i"
  shows "rc_ids A m'"
proof -
  have "fset (fmdom m') = fset (fmdom m)" unfolding set_eq_iff fmlookup_dom_iff assms(2) by auto
  then show ?thesis using assms unfolding rc_ids_def by auto
qed

lemma rc_fresh_ids: "rc_fresh A c \<Longrightarrow> rc_ids A (rc_nodes c)"
  unfolding rc_fresh_def rc_ids_def by (auto simp: rc_newNode_def) (metis raft_node.select_convs(1))

lemma elect_node_ID:
  "rn_ID n = i \<Longrightarrow> rn_ID (elect_node cand won i n) = i"
  by (simp add: elect_node_def Let_def)

text \<open>The first candidate gets every vote.\<close>

lemma rc_Elect_first:
  assumes ord: "range_orders ord" and fresh: "rc_fresh A c" and k: "k \<in> A"
  shows "\<exists>c'. rc_Elect ord k c = (True, c') \<and> rc_elected A k [] c'"
proof -
  have ids: "rc_ids A (rc_nodes c)" using fresh by (rule rc_fresh_ids)
  have new: "fmlookup (rc_nodes c) i = Some (rc_newNode i)" if "i \<in> A" for i
    using rc_nodes_in [OF ids that] fresh unfolding rc_fresh_def by metis
  let ?cand = "(rc_newNode k)\<lparr>rn_Role := Candidate, rn_Term := rn_Term (rc_newNode k) + 1, rn_VotedFor := k\<rparr>"
  let ?won = "1 + card (voters ?cand A (rc_nodes c)) > card A div 2"
  have grant: "grants ?cand i (Some (rc_newNode i)) \<longleftrightarrow> i \<noteq> k" for i
    by (simp add: grants_def rc_newNode_def)
  have "voters ?cand A (rc_nodes c) = A - {k}" using new grant by (auto simp: voters_def)
  then have "card (voters ?cand A (rc_nodes c)) = card A - 1"
    using k rc_ids_finite [OF ids] by simp
  then have won: "?won" by simp
  obtain m where m: "rc_Elect ord k c = (?won, c\<lparr>rc_nodes := m, rc_leaderID := if ?won then k else rc_leaderID c\<rparr>)"
    "\<And>i. fmlookup m i = map_option (elect_node ?cand ?won i) (fmlookup (rc_nodes c) i)"
    using rc_Elect_effect [OF ord ids new [OF k]] by blast
  have el: "rc_ids A m" by (rule rc_ids_map [OF ids m(2) elect_node_ID]) (use ids in \<open>simp add: rc_ids_def\<close>)
  have node: "(rn_VotedFor n = k \<or> rn_VotedFor n = i) \<and> (rn_Role n = Leader \<longrightarrow> i = k) \<and> rn_Log n = [] \<and>
      rn_CommitIndex n = int (length ([] :: log_entry list)) - 1" if "fmlookup m i = Some n" for i n
  proof -
    have i: "i \<in> A" using el that unfolding rc_ids_def by (metis fmlookup_dom_iff)
    have "rn_ID ?cand = k" by (simp add: rc_newNode_def)
    moreover have "n = elect_node ?cand True i (rc_newNode i)" using that m(2) [of i] new [OF i] won by simp
    ultimately show ?thesis using grant [of i] by (simp add: elect_node_def Let_def) (simp add: rc_newNode_def)
  qed
  show ?thesis using m(1) won el node k unfolding rc_elected_def by auto
qed

text \<open>Later candidates get no vote unless they are the first again.\<close>

lemma rc_Elect_later:
  assumes ord: "range_orders ord" and el: "rc_elected A f es c" and k: "k \<in> A" and no: "-1 \<notin> A"
  shows "\<exists>won c'. rc_Elect ord k c = (won, c') \<and> rc_elected A f es c' \<and> (won \<longrightarrow> k = f)"
proof -
  have ids: "rc_ids A (rc_nodes c)" and f: "f \<in> A" "rc_leaderID c = f" using el by (simp_all add: rc_elected_def)
  have old: "(rn_VotedFor n = f \<or> rn_VotedFor n = i) \<and> (rn_Role n = Leader \<longrightarrow> i = f) \<and> rn_Log n = es \<and>
      rn_CommitIndex n = int (length es) - 1 \<and> rn_ID n = i \<and> i \<in> A" if "fmlookup (rc_nodes c) i = Some n" for i n
    using el that unfolding rc_elected_def rc_ids_def by (metis fmlookup_dom_iff)
  obtain n where n: "fmlookup (rc_nodes c) k = Some n" "rn_ID n = k" using rc_nodes_in [OF ids k] by blast
  define cand where "cand = n\<lparr>rn_Role := Candidate, rn_Term := rn_Term n + 1, rn_VotedFor := k\<rparr>"
  define won where "won \<longleftrightarrow> 1 + card (voters cand A (rc_nodes c)) > card A div 2"
  have cid: "rn_ID cand = k" using n(2) by (simp add: cand_def)
  have grant: "i \<noteq> k \<and> k = f" if "fmlookup (rc_nodes c) i = Some p" "grants cand i (Some p)" for i p
    using old [OF that(1)] that(2) no f(1) by (auto simp: grants_def cid)
  have win: "k = f" if won
  proof (rule ccontr)
    assume kf: "k \<noteq> f"
    have "voters cand A (rc_nodes c) = {}"
      using grant kf rc_nodes_in [OF ids] unfolding voters_def by (metis (mono_tags, lifting) empty_Collect_eq)
    moreover have "card {k, f} \<le> card A" using k f(1) rc_ids_finite [OF ids] by (intro card_mono) auto
    ultimately show False using that kf by (simp add: won_def)
  qed
  obtain m where m: "rc_Elect ord k c = (won, c\<lparr>rc_nodes := m, rc_leaderID := if won then k else rc_leaderID c\<rparr>)"
    "\<And>i. fmlookup m i = map_option (elect_node cand won i) (fmlookup (rc_nodes c) i)"
    using rc_Elect_effect [OF ord ids n(1)] unfolding cand_def won_def by blast
  have ids': "rc_ids A m" by (rule rc_ids_map [OF ids m(2) elect_node_ID]) (use ids in \<open>simp add: rc_ids_def\<close>)
  have node: "(rn_VotedFor q = f \<or> rn_VotedFor q = i) \<and> (rn_Role q = Leader \<longrightarrow> i = f) \<and> rn_Log q = es \<and>
      rn_CommitIndex q = int (length es) - 1" if q: "fmlookup m i = Some q" for i q
  proof -
    obtain p where p: "fmlookup (rc_nodes c) i = Some p" "q = elect_node cand won i p"
      using q m(2) [of i] by (cases "fmlookup (rc_nodes c) i") auto
    have n': "rn_VotedFor cand = k" "rn_Role cand = Candidate" "rn_Log cand = es" "rn_CommitIndex cand = int (length es) - 1"
      using old [OF n(1)] by (simp_all add: cand_def)
    show ?thesis
      using old [OF p(1)] grant [OF p(1)] n' win cid unfolding p(2) elect_node_def Let_def
      by (cases "i = k"; cases "grants cand i (Some p)"; cases won) auto
  qed
  have "rc_elected A f es (c\<lparr>rc_nodes := m, rc_leaderID := if won then k else rc_leaderID c\<rparr>)"
    using ids' node f win by (auto simp: rc_elected_def)
  then show ?thesis using m(1) win by blast
qed

subsection \<open>Replication\<close>

lemma rc_Append_ok:
  assumes ord: "range_orders ord" and el: "rc_elected A f es c" and no: "-1 \<notin> A"
  shows "\<exists>c' e. rc_Append ord cmd c = Inr (True, c') \<and> le_Command e = cmd \<and> rc_elected A f (es @ [e]) c'"
proof -
  have ids: "rc_ids A (rc_nodes c)" and f: "f \<in> A" "rc_leaderID c = f" using el by (simp_all add: rc_elected_def)
  have fin: "finite A" using ids by (rule rc_ids_finite)
  have old: "(rn_VotedFor n = f \<or> rn_VotedFor n = i) \<and> (rn_Role n = Leader \<longrightarrow> i = f) \<and> rn_Log n = es \<and>
      rn_CommitIndex n = int (length es) - 1 \<and> rn_ID n = i \<and> i \<in> A" if "fmlookup (rc_nodes c) i = Some n" for i n
    using el that unfolding rc_elected_def rc_ids_def by (metis fmlookup_dom_iff)
  obtain l where l: "fmlookup (rc_nodes c) f = Some l" "rn_ID l = f" "rn_Log l = es"
    using rc_nodes_in [OF ids f(1)] old by metis
  define e where "e = \<lparr>le_Term = rn_Term l, le_Command = cmd\<rparr>"
  let ?m = "fmupd f (l\<lparr>rn_Log := es @ [e]\<rparr>) (rc_nodes c)"
  let ?ks = "ord 0 (fmdom ?m)"
  let ?r = "fold (rc_replicate f e) ?ks (?m, 1)"
  have dom: "fset (fmdom ?m) = A" using ids f(1) l(1) by (auto simp: rc_ids_def)
  then have ks: "distinct ?ks" "set ?ks = A"
    using range_orders_distinct [OF ord] range_orders_set [OF ord] by (metis, metis)
  have pid: "rn_ID (peer_of i (fmlookup ?m i)) = i" if "i \<in> A" for i
    using rc_nodes_in [OF ids that] l(2) by (cases "i = f") auto
  have flt: "filter (\<lambda>i. rn_ID (peer_of i (fmlookup ?m i)) \<noteq> f) ?ks = filter (\<lambda>i. i \<noteq> f) ?ks"
    by (rule filter_cong) (simp_all only: ks(2) pid)
  have cnt: "snd ?r = 1 + card (A - {f})"
    unfolding fold_replicate_log(1) [OF ks(1)] flt
  proof -
    have "{i. i \<noteq> f} \<inter> A = A - {f}" by blast
    then show "1 + length (filter (\<lambda>i. i \<noteq> f) ?ks) = 1 + card (A - {f})"
      by (simp only: distinct_length_filter [OF ks(1)] ks(2))
  qed
  have lk: "fmlookup (fst ?r) i = map_option (\<lambda>n. n\<lparr>rn_Log := es @ [e]\<rparr>) (fmlookup (rc_nodes c) i)" for i
  proof (cases "fmlookup (rc_nodes c) i")
    case None
    then have "i \<notin> A" "i \<noteq> f" using dom l(1) f(1) ids by (auto simp: fmlookup_dom_iff rc_ids_def)
    then show ?thesis unfolding fold_replicate_log(2) [OF ks(1)] ks(2) using None by simp
  next
    case (Some p)
    then have p: "i \<in> A" "rn_Log p = es" "rn_ID p = i" using old by auto
    show ?thesis unfolding fold_replicate_log(2) [OF ks(1)] ks(2) using Some p l by (cases "i = f") auto
  qed
  have dom1: "fset (fmdom (fst ?r)) = A"
    unfolding set_eq_iff fmlookup_dom_iff lk using ids by (auto simp: fmlookup_dom_iff rc_ids_def)
  let ?js = "ord 1 (fmdom (fst ?r))" let ?m2 = "fold (rc_commit (int (length es))) ?js (fst ?r)"
  have js: "distinct ?js" "set ?js = A"
    using dom1 range_orders_distinct [OF ord] range_orders_set [OF ord] by (metis, metis)
  have lk2: "fmlookup ?m2 i = map_option (\<lambda>n. n\<lparr>rn_Log := es @ [e], rn_CommitIndex := int (length es)\<rparr>) (fmlookup (rc_nodes c) i)" for i
  proof (cases "fmlookup (rc_nodes c) i")
    case None
    then have "i \<notin> A" using ids by (auto simp: fmlookup_dom_iff rc_ids_def)
    then show ?thesis unfolding fold_commit [OF js(1)] js(2) lk using None by simp
  next
    case (Some p)
    then have "i \<in> A" using old by auto
    then show ?thesis unfolding fold_commit [OF js(1)] js(2) lk using Some by simp
  qed
  have "card (A - {f}) = card A - 1" using f(1) fin by simp
  then have maj: "snd ?r > gm_len (fst ?r) div 2"
    unfolding cnt gm_len_card [OF dom1] by simp
  have "rc_Append ord cmd c = (if snd ?r > gm_len (fst ?r) div 2 then Inr (True, c\<lparr>rc_nodes := ?m2\<rparr>) else Inr (False, c\<lparr>rc_nodes := fst ?r\<rparr>))"
    using f no l unfolding rc_Append_def Let_def e_def by (auto simp: case_prod_beta)
  then have run: "rc_Append ord cmd c = Inr (True, c\<lparr>rc_nodes := ?m2\<rparr>)" using maj by (simp only: if_True)
  have "rc_ids A ?m2" by (rule rc_ids_map [OF ids lk2]) (use old in simp)
  moreover have "(rn_VotedFor q = f \<or> rn_VotedFor q = i) \<and> (rn_Role q = Leader \<longrightarrow> i = f) \<and> rn_Log q = es @ [e] \<and>
      rn_CommitIndex q = int (length (es @ [e])) - 1" if q: "fmlookup ?m2 i = Some q" for i q
  proof -
    obtain z where z: "fmlookup (rc_nodes c) i = Some z" "q = z\<lparr>rn_Log := es @ [e], rn_CommitIndex := int (length es)\<rparr>"
      using q lk2 [of i] by (cases "fmlookup (rc_nodes c) i") auto
    show ?thesis using old [OF z(1)] unfolding z(2) by simp
  qed
  ultimately have "rc_elected A f (es @ [e]) (c\<lparr>rc_nodes := ?m2\<rparr>)"
    using f by (simp add: rc_elected_def)
  moreover have "le_Command e = cmd" by (simp add: e_def)
  ultimately show ?thesis using run by blast
qed

subsection \<open>Any sequence of calls\<close>

datatype rc_op = RcElect int | RcAppend string

definition rc_step :: "rc_orders \<Rightarrow> rc_op \<Rightarrow> raft_cluster \<Rightarrow> raft_cluster outcome" where
  "rc_step ord p c = (case p of
      RcElect k \<Rightarrow> Inr (snd (rc_Elect ord k c))
    | RcAppend cmd \<Rightarrow> and_then (rc_Append ord cmd c) (\<lambda>(ok, c'). Inr c'))"

lemma rc_step_simps:
  "rc_step ord (RcElect k) c = Inr (snd (rc_Elect ord k c))"
  "rc_step ord (RcAppend cmd) c = and_then (rc_Append ord cmd c) (\<lambda>(ok, c'). Inr c')"
  by (simp_all add: rc_step_def)

text \<open>The first candidate that is in the cluster, and the commands appended after it stood.\<close>

fun rc_first :: "int set \<Rightarrow> rc_op list \<Rightarrow> (int \<times> string list) option" where
  "rc_first A [] = None"
| "rc_first A (RcElect k # ps) =
     (if k \<in> A then Some (k, List.map_filter (\<lambda>p. case p of RcAppend x \<Rightarrow> Some x | _ \<Rightarrow> None) ps) else rc_first A ps)"
| "rc_first A (RcAppend x # ps) = rc_first A ps"

lemma rc_run_elected:
  assumes "range_orders ord" "-1 \<notin> A" "rc_elected A f es c"
  shows "\<exists>c' es'. each (rc_step ord) ps c = Inr c' \<and> rc_elected A f es' c' \<and>
    map le_Command es' = map le_Command es @ List.map_filter (\<lambda>p. case p of RcAppend x \<Rightarrow> Some x | _ \<Rightarrow> None) ps"
  using assms(3)
proof (induction ps arbitrary: c es)
  case Nil
  then show ?case by (auto simp: List.map_filter_def)
next
  case (Cons p ps)
  show ?case
  proof (cases p)
    case (RcElect k)
    have "rc_elected A f es (snd (rc_Elect ord k c))"
    proof (cases "k \<in> A")
      case True
      then show ?thesis using rc_Elect_later [OF assms(1) Cons.prems True assms(2)] by auto
    next
      case False
      then have "fmlookup (rc_nodes c) k = None"
        using Cons.prems unfolding rc_elected_def rc_ids_def by (metis fmdom_notD)
      then show ?thesis using Cons.prems by (simp add: rc_Elect_def)
    qed
    from Cons.IH [OF this] show ?thesis by (simp add: RcElect rc_step_simps List.map_filter_def)
  next
    case (RcAppend x)
    obtain c1 e where c1: "rc_Append ord x c = Inr (True, c1)" "le_Command e = x" "rc_elected A f (es @ [e]) c1"
      using rc_Append_ok [OF assms(1) Cons.prems assms(2)] by blast
    from Cons.IH [OF c1(3)] show ?thesis by (auto simp: RcAppend rc_step_simps c1(1,2) List.map_filter_def)
  qed
qed

lemma rc_run_fresh:
  assumes "range_orders ord" "-1 \<notin> A" "rc_fresh A c"
  shows "\<exists>c'. each (rc_step ord) ps c = Inr c' \<and> (case rc_first A ps of
      None \<Rightarrow> rc_fresh A c'
    | Some (f, cmds) \<Rightarrow> (\<exists>es. rc_elected A f es c' \<and> map le_Command es = cmds))"
  using assms(3)
proof (induction ps arbitrary: c)
  case (Cons p ps)
  show ?case
  proof (cases p)
    case (RcElect k)
    show ?thesis
    proof (cases "k \<in> A")
      case True
      obtain c1 where c1: "rc_Elect ord k c = (True, c1)" "rc_elected A k [] c1"
        using rc_Elect_first [OF assms(1) Cons.prems True] by blast
      show ?thesis using rc_run_elected [OF assms(1,2) c1(2), of ps] True
        by (auto simp: RcElect rc_step_simps c1(1))
    next
      case False
      then have "fmlookup (rc_nodes c) k = None"
        using Cons.prems unfolding rc_fresh_def by (metis fmdom_notD)
      then show ?thesis using Cons.IH [OF Cons.prems] False by (simp add: RcElect rc_step_simps rc_Elect_def)
    qed
  next
    case (RcAppend x)
    have "rc_leaderID c = -1" using Cons.prems by (simp add: rc_fresh_def)
    then show ?thesis using Cons.IH [OF Cons.prems] by (simp add: RcAppend rc_step_simps rc_Append_def)
  qed
qed simp

lemma rc_New_fresh: "rc_fresh (set ids) (NewRaftCluster ids)"
proof -
  have "fmlookup (fold (\<lambda>i m. fmupd i (rc_newNode i) m) ids m) j = (if j \<in> set ids then Some (rc_newNode j) else fmlookup m j)" for j m
    by (induction ids arbitrary: m) auto
  then show ?thesis unfolding rc_fresh_def set_eq_iff fmlookup_dom_iff NewRaftCluster_def
    by (auto split: if_splits)
qed

text \<open>A vote is for ever, so no candidate but the first can win.\<close>

lemma rc_first_leader_stays:
  assumes "range_orders ord" "-1 \<notin> set ids" "each (rc_step ord) ps (NewRaftCluster ids) = Inr c"
    and "rc_first (set ids) ps = Some (f, cmds)"
  shows "rc_leaderID c = f" "fst (rc_Elect ord k c) \<Longrightarrow> k = f"
proof -
  obtain es where el: "rc_elected (set ids) f es c"
    using rc_run_fresh [OF assms(1,2) rc_New_fresh, of ps] by (auto simp: assms(3,4))
  then show "rc_leaderID c = f" by (simp add: rc_elected_def)
  show "k = f" if won: "fst (rc_Elect ord k c)"
  proof (cases "k \<in> set ids")
    case True
    then show ?thesis using rc_Elect_later [OF assms(1) el True assms(2)] won by auto
  next
    case False
    then have "fmlookup (rc_nodes c) k = None"
      using el unfolding rc_elected_def rc_ids_def by (metis fmdom_notD)
    then show ?thesis using won by (simp add: rc_Elect_def)
  qed
qed



text \<open>A leader that stands again and loses keeps \<open>leaderID\<close> without the role of leader.\<close>

lemma rc_leader_without_role:
  "let ord = (\<lambda>n. sorted_list_of_fset) in
   case each (rc_step ord) [RcElect 1, RcElect 2, RcElect 3, RcElect 1] (NewRaftCluster [1, 2, 3]) of
     Inr c \<Rightarrow> rc_leaderID c = 1 \<and> rn_Role (node_at (rc_nodes c) 1) = Candidate
   | Inl e \<Rightarrow> False"
  by code_simp

end
