(* ===== verification/Go_Logger.thy ===== *)
theory Go_Logger
  imports Go_Std
begin

text \<open>
  \<open>src/pkg/logger/logger.go\<close>, the logger of all programs. Its output is text written to an
  \<open>io.Writer\<close>, here a number that names a place where bytes are collected. What the logger leaves to the
  library is in the record \<open>lg_lib\<close>: the order of a loop over a map, the text of a field value (\<open>%v\<close>) and that
  of a message (\<open>fmt.Sprintf(format, args...)\<close>). The layout of a line, with the padding \<open>%-5s\<close>, is
  spelled out; the time of day is an argument.

  A line names the place of the call, found by \<open>runtime.Caller(2)\<close> on the call stack. The stack is
  the list of the positions from which the functions were called, innermost first; every function here that
  calls another one of the package adds its own line of \<open>logger.go\<close>. The methods find their caller;
  the functions of the package, one call deeper, find themselves (\<open>lg_package_caller\<close>).
\<close>

type_synonym frame = "string \<times> nat"
type_synonym writers = "nat \<Rightarrow> string"

record ('a, 'b) lg_lib =
  lib_range :: "nat \<Rightarrow> string fset \<Rightarrow> string list"
  lib_print :: "'a \<Rightarrow> string"
  lib_sprintf :: "string \<Rightarrow> 'b list \<Rightarrow> string"

record 'a logger =
  lg_out :: nat
  lg_level :: int
  lg_useColor :: bool
  lg_fields :: "(string, 'a) gomap"

definition DEBUG :: int where "DEBUG = 0"
definition INFO :: int where "INFO = 1"
definition WARN :: int where "WARN = 2"
definition ERROR :: int where "ERROR = 3"

definition levelNames :: "(int, string) gomap" where
  "levelNames = fmap_of_list [(DEBUG, ''DEBUG''), (INFO, ''INFO''), (WARN, ''WARN''), (ERROR, ''ERROR'')]"

definition levelColors :: "(int, string) gomap" where
  "levelColors = fmap_of_list
     [(DEBUG, CHR 0x1B # ''[36m''), (INFO, CHR 0x1B # ''[32m''),
      (WARN, CHR 0x1B # ''[33m''), (ERROR, CHR 0x1B # ''[31m'')]"

definition colorReset :: string where
  "colorReset = CHR 0x1B # ''[0m''"

definition defaultLogger :: "'a logger" where
  "defaultLogger = \<lparr>lg_out = 0, lg_level = DEBUG, lg_useColor = True, lg_fields = fmempty\<rparr>"

definition lg_New :: "nat \<Rightarrow> int \<Rightarrow> bool \<Rightarrow> 'a logger" where
  "lg_New out level useColor = \<lparr>lg_out = out, lg_level = level, lg_useColor = useColor, lg_fields = fmempty\<rparr>"

definition SetLevel :: "int \<Rightarrow> 'a logger \<Rightarrow> 'a logger" where
  "SetLevel level d = d\<lparr>lg_level := level\<rparr>"

definition SetOutput :: "nat \<Rightarrow> 'a logger \<Rightarrow> 'a logger" where
  "SetOutput out d = d\<lparr>lg_out := out\<rparr>"

definition SetColor :: "bool \<Rightarrow> 'a logger \<Rightarrow> 'a logger" where
  "SetColor enabled d = d\<lparr>lg_useColor := enabled\<rparr>"

definition lg_WithField :: "('a, 'b) lg_lib \<Rightarrow> string \<Rightarrow> 'a \<Rightarrow> 'a logger \<Rightarrow> 'a logger" where
  "lg_WithField lib key v l =
     (let m = fold (\<lambda>k m. case fmlookup (lg_fields l) k of None \<Rightarrow> m | Some x \<Rightarrow> fmupd k x m)
                     (lib_range lib 0 (fmdom (lg_fields l))) fmempty;
          m = fmupd key v m
      in \<lparr>lg_out = lg_out l, lg_level = lg_level l, lg_useColor = lg_useColor l, lg_fields = m\<rparr>)"

text \<open>\<open>file[strings.LastIndexByte(file, '/')+1:]\<close>, and \<open>strings.Join\<close>.\<close>

definition base_name :: "string \<Rightarrow> string" where
  "base_name file = rev (takeWhile (\<lambda>c. c \<noteq> CHR ''/'') (rev file))"

fun join_with :: "string \<Rightarrow> string list \<Rightarrow> string" where
  "join_with sep [] = []"
| "join_with sep [p] = p"
| "join_with sep (p # q # ps) = p @ sep @ join_with sep (q # ps)"

definition pad5 :: "string \<Rightarrow> string" where
  "pad5 s = s @ replicate (5 - length s) CHR '' ''"

text \<open>\<open>runtime.Caller(2)\<close> from \<open>log\<close>: its own caller is frame 1.\<close>

definition lg_caller :: "frame list \<Rightarrow> string" where
  "lg_caller stack = (if 1 < length stack
     then (case stack ! 1 of (file, line) \<Rightarrow> base_name file @ '':'' @ decimal line) else [])"

definition lg_fieldStr :: "('a, 'b) lg_lib \<Rightarrow> (string, 'a) gomap \<Rightarrow> string" where
  "lg_fieldStr lib m =
     (if gm_len m > 0
      then '' ['' @ join_with '' '' (map (\<lambda>k. case fmlookup m k of None \<Rightarrow> [] | Some v \<Rightarrow> k @ ''='' @ lib_print lib v)
             (lib_range lib 0 (fmdom m))) @ '']''
      else [])"

definition lg_line :: "('a, 'b) lg_lib \<Rightarrow> string \<Rightarrow> frame list \<Rightarrow> int \<Rightarrow> string \<Rightarrow> 'b list \<Rightarrow> 'a logger \<Rightarrow> string" where
  "lg_line lib now stack level format args l =
     (let levelStr = gm_get [] levelNames level;
          caller = (if level \<ge> DEBUG then lg_caller stack else []);
          msg = lib_sprintf lib format args;
          fs = lg_fieldStr lib (lg_fields l)
      in now @ fs @ '' | '' @
         (if lg_useColor l then gm_get [] levelColors level @ pad5 levelStr @ colorReset else pad5 levelStr) @
         '' | '' @ msg @ '' | '' @ caller @ [CHR 0x0A])"

definition lg_log :: "('a, 'b) lg_lib \<Rightarrow> string \<Rightarrow> frame list \<Rightarrow> int \<Rightarrow> string \<Rightarrow> 'b list \<Rightarrow> 'a logger \<Rightarrow> writers \<Rightarrow> writers" where
  "lg_log lib now stack level format args l w =
     (if level < lg_level l then w
      else w(lg_out l := w (lg_out l) @ lg_line lib now stack level format args l))"

text \<open>The methods. Each adds its own position in \<open>logger.go\<close> to the stack.\<close>

definition here :: "nat \<Rightarrow> frame" where
  "here line = (''src/pkg/logger/logger.go'', line)"

definition lg_Debug :: "('a, 'b) lg_lib \<Rightarrow> string \<Rightarrow> frame list \<Rightarrow> string \<Rightarrow> 'b list \<Rightarrow> 'a logger \<Rightarrow> writers \<Rightarrow> writers" where
  "lg_Debug lib now stack = lg_log lib now (here 121 # stack) DEBUG"

definition lg_Info :: "('a, 'b) lg_lib \<Rightarrow> string \<Rightarrow> frame list \<Rightarrow> string \<Rightarrow> 'b list \<Rightarrow> 'a logger \<Rightarrow> writers \<Rightarrow> writers" where
  "lg_Info lib now stack = lg_log lib now (here 122 # stack) INFO"

definition lg_Warn :: "('a, 'b) lg_lib \<Rightarrow> string \<Rightarrow> frame list \<Rightarrow> string \<Rightarrow> 'b list \<Rightarrow> 'a logger \<Rightarrow> writers \<Rightarrow> writers" where
  "lg_Warn lib now stack = lg_log lib now (here 123 # stack) WARN"

definition lg_Error :: "('a, 'b) lg_lib \<Rightarrow> string \<Rightarrow> frame list \<Rightarrow> string \<Rightarrow> 'b list \<Rightarrow> 'a logger \<Rightarrow> writers \<Rightarrow> writers" where
  "lg_Error lib now stack = lg_log lib now (here 124 # stack) ERROR"

text \<open>
  \<open>Operation\<close> and the function it returns: \<open>str\<close> makes a field value of a string, \<open>elapsed\<close> is the printed
  duration. The frame that calls the returned function is on the stack of that call.
\<close>

definition lg_Operation :: "('a, 'b) lg_lib \<Rightarrow> (string \<Rightarrow> 'a) \<Rightarrow> string \<Rightarrow> frame list \<Rightarrow> string \<Rightarrow> string \<Rightarrow> 'b list \<Rightarrow>
    'a logger \<Rightarrow> writers \<Rightarrow> 'a logger \<times> writers" where
  "lg_Operation lib str now stack name format args l w =
     (let opLogger = lg_WithField lib ''op'' (str name) l
      in (opLogger, lg_Info lib now (here 129 # stack) (''START: '' @ format) args opLogger w))"

definition lg_done :: "('a, 'b) lg_lib \<Rightarrow> (string \<Rightarrow> 'a) \<Rightarrow> string \<Rightarrow> frame list \<Rightarrow> string \<Rightarrow> string \<Rightarrow> 'a logger \<Rightarrow> writers \<Rightarrow> writers" where
  "lg_done lib str now stack elapsed name opLogger =
     lg_Info lib now (here 133 # stack) (''DONE: '' @ name) [] (lg_WithField lib ''elapsed'' (str elapsed) opLogger)"

definition lg_Step :: "('a, 'b) lg_lib \<Rightarrow> string \<Rightarrow> frame list \<Rightarrow> string \<Rightarrow> 'b list \<Rightarrow> 'a logger \<Rightarrow> writers \<Rightarrow> writers" where
  "lg_Step lib now stack format = lg_Debug lib now (here 139 # stack) (''  -> '' @ format)"

text \<open>The functions of the package, on the default logger.\<close>

definition pk_Debug :: "('a, 'b) lg_lib \<Rightarrow> string \<Rightarrow> frame list \<Rightarrow> string \<Rightarrow> 'b list \<Rightarrow> 'a logger \<Rightarrow> writers \<Rightarrow> writers" where
  "pk_Debug lib now stack = lg_Debug lib now (here 143 # stack)"

definition pk_Info :: "('a, 'b) lg_lib \<Rightarrow> string \<Rightarrow> frame list \<Rightarrow> string \<Rightarrow> 'b list \<Rightarrow> 'a logger \<Rightarrow> writers \<Rightarrow> writers" where
  "pk_Info lib now stack = lg_Info lib now (here 144 # stack)"

definition pk_Warn :: "('a, 'b) lg_lib \<Rightarrow> string \<Rightarrow> frame list \<Rightarrow> string \<Rightarrow> 'b list \<Rightarrow> 'a logger \<Rightarrow> writers \<Rightarrow> writers" where
  "pk_Warn lib now stack = lg_Warn lib now (here 145 # stack)"

definition pk_Error :: "('a, 'b) lg_lib \<Rightarrow> string \<Rightarrow> frame list \<Rightarrow> string \<Rightarrow> 'b list \<Rightarrow> 'a logger \<Rightarrow> writers \<Rightarrow> writers" where
  "pk_Error lib now stack = lg_Error lib now (here 146 # stack)"

definition pk_Operation :: "('a, 'b) lg_lib \<Rightarrow> (string \<Rightarrow> 'a) \<Rightarrow> string \<Rightarrow> frame list \<Rightarrow> string \<Rightarrow> string \<Rightarrow> 'b list \<Rightarrow>
    'a logger \<Rightarrow> writers \<Rightarrow> 'a logger \<times> writers" where
  "pk_Operation lib str now stack = lg_Operation lib str now (here 149 # stack)"

definition pk_Step :: "('a, 'b) lg_lib \<Rightarrow> string \<Rightarrow> frame list \<Rightarrow> string \<Rightarrow> 'b list \<Rightarrow> 'a logger \<Rightarrow> writers \<Rightarrow> writers" where
  "pk_Step lib now stack = lg_Step lib now (here 152 # stack)"

definition pk_WithField :: "('a, 'b) lg_lib \<Rightarrow> string \<Rightarrow> 'a \<Rightarrow> 'a logger \<Rightarrow> 'a logger" where
  "pk_WithField lib key v d = lg_WithField lib key v d"

text \<open>\<open>Section\<close> writes to the default logger's writer whatever its level; the bars are U+2501 in UTF-8.\<close>

definition bar :: string where
  "bar = concat (replicate 3 [CHR 0xE2, CHR 0x94, CHR 0x81])"

definition pk_Section :: "string \<Rightarrow> 'a logger \<Rightarrow> writers \<Rightarrow> writers" where
  "pk_Section title d w = w(lg_out d := w (lg_out d) @ [CHR 0x0A, CHR 0x1B] @ ''[1;35m'' @ bar @ '' '' @ title @ '' '' @
     bar @ colorReset @ [CHR 0x0A])"

text \<open>\<open>KeyValue\<close>; \<open>arg\<close> makes an argument of the message of the key.\<close>

definition pk_KeyValue :: "('a, 'b) lg_lib \<Rightarrow> (string \<Rightarrow> 'b) \<Rightarrow> string \<Rightarrow> frame list \<Rightarrow> string \<Rightarrow> 'b \<Rightarrow> 'a logger \<Rightarrow> writers \<Rightarrow> writers" where
  "pk_KeyValue lib arg now stack key v = pk_Info lib now (here 163 # stack) ''%s = %v'' [arg key, v]"

subsection \<open>What is written\<close>

text \<open>A derived logger has one field more and shares everything else; the receiver is untouched.\<close>

lemma fold_copy:
  "fmlookup (fold (\<lambda>k m. case fmlookup src k of None \<Rightarrow> m | Some x \<Rightarrow> fmupd k x m) ks m) j =
     (if j \<in> set ks \<and> fmlookup src j \<noteq> None then fmlookup src j else fmlookup m j)"
  by (induction ks arbitrary: m) (auto split: option.splits)

lemma lg_WithField_fields:
  assumes "range_orders (lib_range lib)"
  shows "lg_fields (lg_WithField lib key v l) = fmupd key v (lg_fields l)"
    "lg_out (lg_WithField lib key v l) = lg_out l" "lg_level (lg_WithField lib key v l) = lg_level l"
    "lg_useColor (lg_WithField lib key v l) = lg_useColor l"
proof -
  have "fold (\<lambda>k m. case fmlookup (lg_fields l) k of None \<Rightarrow> m | Some x \<Rightarrow> fmupd k x m)
      (lib_range lib 0 (fmdom (lg_fields l))) fmempty = lg_fields l"
    using range_orders_set [OF assms] by (intro fmap_ext) (auto simp: fold_copy fmdom_notI fmlookup_dom_iff)
  then show "lg_fields (lg_WithField lib key v l) = fmupd key v (lg_fields l)"
    by (simp add: lg_WithField_def Let_def)
qed (simp_all add: lg_WithField_def Let_def)

text \<open>A message below the level is dropped; otherwise one line is appended to one writer.\<close>

lemma lg_log_filter: "level < lg_level l \<Longrightarrow> lg_log lib now stack level format args l w = w"
  by (simp add: lg_log_def)

lemma lg_log_appends:
  "lg_level l \<le> level \<Longrightarrow> lg_log lib now stack level format args l w =
     w(lg_out l := w (lg_out l) @ lg_line lib now stack level format args l)"
  by (simp add: lg_log_def)

text \<open>Colours only add the escape sequences around the level.\<close>

lemma lg_line_color:
  assumes "lg_useColor l"
  obtains pre post where
    "lg_line lib now stack level format args (l\<lparr>lg_useColor := False\<rparr>) = pre @ pad5 (gm_get [] levelNames level) @ post"
    "lg_line lib now stack level format args l =
       pre @ gm_get [] levelColors level @ pad5 (gm_get [] levelNames level) @ colorReset @ post"
  using assms by (intro that [of "now @ lg_fieldStr lib (lg_fields l) @ '' | ''"]) (simp_all add: lg_line_def Let_def)

text \<open>The position in a line: methods name their caller, functions of the package name themselves.\<close>

lemma base_name_here: "base_name (fst (here n)) = ''logger.go''"
  by (simp add: base_name_def here_def)

lemma lg_method_caller:
  "lg_caller (here n # (file, line) # stack) = base_name file @ '':'' @ decimal line"
  by (simp add: lg_caller_def)

lemma lg_package_caller:
  assumes "lg_level d \<le> INFO" "\<not> lg_useColor d" "lg_fields d = fmempty"
  shows "pk_Info lib now stack format args d w = w(lg_out d := w (lg_out d) @ now @ '' | INFO  | '' @
     lib_sprintf lib format args @ '' | logger.go:144'' @ [CHR 0x0A])"
proof -
  have "decimal 144 = ''144''" by code_simp
  then have "lg_caller (here 122 # here 144 # stack) = ''logger.go:144''"
    using base_name_here [of 144] by (simp add: lg_caller_def here_def)
  then show ?thesis
    using assms by (simp add: pk_Info_def lg_Info_def lg_log_def lg_line_def Let_def lg_fieldStr_def gm_get_def
        levelNames_def DEBUG_def INFO_def WARN_def ERROR_def pad5_def)
qed

end
