(* ===== verification/Demo_Log.thy ===== *)
theory Demo_Log
  imports Complex_Main Go_Prelude Go_Std Go_Float
begin

text \<open>
  The \<open>main\<close> functions. Each program ends in a \<open>main\<close> that runs its component on fixed data and
  logs what comes back; the theories \<open>Demo_*\<close> translate them, and prove what they log from the
  theorems of the components.

  A log is the list of the calls of the logger, in order. A call is named by its line in the file, which fixes its
  level and its text (and which the logger prints, see \<open>Go_Logger\<close>); what varies are the values it
  formats. Readings of the clock are not told apart (\<open>SWall\<close>). A call that is spread over several lines is at
  the first of them, and constants printed from a constant are written out.
\<close>

datatype shown = SInt int | SStr string | SBool bool | SReal real | SFloat f64 | SErr string | SNil | SList "shown list" | SWall

type_synonym log = "(nat \<times> shown list) list"

text \<open>
  \<open>defer log.Operation(...)()\<close> in line \<open>line\<close>: it logs at once, and again when \<open>main\<close> returns, after the calls \<open>finals\<close>
  deferred later. A \<open>main\<close> that aborts has no log here.
\<close>

definition operation :: "nat \<Rightarrow> log \<Rightarrow> log outcome \<Rightarrow> log outcome" where
  "operation line finals body = and_then body (\<lambda>l. Inr ((line, []) # l @ finals @ [(line, [SWall])]))"

lemma operation_Inr: "operation line finals (Inr l) = Inr ((line, []) # l @ finals @ [(line, [SWall])])"
  by (simp add: operation_def)

lemma operation_cong: "body = body' \<Longrightarrow> operation line finals body = operation line finals body'"
  by simp

text \<open>A loop whose body logs and changes the state.\<close>

fun each_log :: "('a \<Rightarrow> 's \<Rightarrow> (log \<times> 's) outcome) \<Rightarrow> 'a list \<Rightarrow> 's \<Rightarrow> (log \<times> 's) outcome" where
  "each_log f [] s = Inr ([], s)"
| "each_log f (x # xs) s = and_then (f x s) (\<lambda>(l, s1). and_then (each_log f xs s1) (\<lambda>(l', s2). Inr (l @ l', s2)))"

text \<open>\<open>fmt.Sprintf(pre + "%d", i)\<close> for a number that is not negative.\<close>

definition numbered :: "string \<Rightarrow> nat \<Rightarrow> string" where
  "numbered pre i = pre @ decimal i"

lemma numbered_inj: "numbered pre i = numbered pre j \<longleftrightarrow> i = j"
  by (simp add: numbered_def decimal_inj)

lemma numbered_inj_on: "inj_on (numbered pre) A"
  by (simp add: inj_on_def numbered_inj)

lemma take_numbered [simp]: "take n (numbered pre i) = take n pre @ take (n - length pre) (decimal i)"
  by (simp add: numbered_def)

text \<open>The dash of the texts, in UTF-8.\<close>

definition dash :: string where
  "dash = [CHR 0xE2, CHR 0x80, CHR 0x94]"

text \<open>
  A call whose effect on an abstraction is known, before a continuation that is known for every
  state with the new abstraction: the step of the proofs about logs.
\<close>

lemma and_then_step:
  assumes "\<exists>x. m = Inr x \<and> P x" "\<And>x. P x \<Longrightarrow> f x = r"
  shows "and_then m f = r"
  using assms by auto

lemma each_step:
  assumes "P s a" "\<And>x s a. x \<in> set xs \<Longrightarrow> P s a \<Longrightarrow> \<exists>s'. f x s = Inr s' \<and> P s' (g x a)"
  shows "\<exists>s'. each f xs s = Inr s' \<and> P s' (fold g xs a)"
  using assms
proof (induction xs arbitrary: s a)
  case (Cons x xs)
  obtain s' where s': "f x s = Inr s'" "P s' (g x a)" using Cons.prems(2) [OF _ Cons.prems(1), of x] by auto
  show ?case using Cons.IH [OF s'(2)] Cons.prems(2) s'(1) by simp
qed simp

text \<open>A loop that does the same every time.\<close>

lemma fold_times: "fold (\<lambda>_. g) xs a = (g ^^ length xs) a"
  by (induction xs arbitrary: a) (simp_all add: funpow_swap1)

text \<open>The order of a loop over a map, whose keys are known.\<close>

lemma enumerates_mset: "enumerates ks m \<Longrightarrow> distinct xs \<Longrightarrow> set xs = fset (fmdom m) \<Longrightarrow> mset ks = mset xs"
  by (simp add: enumerates_def set_eq_iff_mset_eq_distinct [symmetric])

lemma range_orders_single: "range_orders ord \<Longrightarrow> ord n {|k|} = [k]"
proof -
  assume ord: "range_orders ord"
  have "xs = [x]" if "distinct xs" "set xs = {x}" for xs and x :: 'a
    using that by (cases xs) (auto simp: subset_singleton_iff insert_eq_iff)
  from this [OF range_orders_distinct [OF ord]] show ?thesis using range_orders_set [OF ord] by simp
qed

end
