(* ===== verification/Demo_Caches.thy ===== *)
theory Demo_Caches
  imports Demo_Log Lru_Cache Lfu_Cache
begin

text \<open>
  The \<open>main\<close> functions of \<open>src/01\<close> and \<open>src/02\<close>. A cache stands for its list of entries; what \<open>main\<close> logs
  is computed on the list. The texts of \<open>src/01\<close> name other victims than the code evicts:
  \<open>lru_main_logs\<close>.
\<close>

subsection \<open>LRU cache\<close>

definition lru_main :: "log outcome" where
  "lru_main = operation 115 [] (
     let cache = NewLRUCache 2; v119 = lru_Capacity cache in
     and_then (lru_put 1 100 cache) (\<lambda>cache.
     and_then (lru_put 2 200 cache) (\<lambda>cache.
     and_then (lru_get 1 cache) (\<lambda>(v128, cache).
     and_then (lru_get 2 cache) (\<lambda>(v129, cache).
     and_then (lru_put 3 300 cache) (\<lambda>cache.
     and_then (lru_get 2 cache) (\<lambda>(v134, cache).
     and_then (lru_get 3 cache) (\<lambda>(v135, cache).
     and_then (lru_put 4 400 cache) (\<lambda>cache.
     and_then (lru_get 1 cache) (\<lambda>(v139, cache).
     and_then (lru_get 3 cache) (\<lambda>(v140, cache).
     and_then (lru_get 4 cache) (\<lambda>(v141, cache).
     and_then (each (\<lambda>i. lru_put (int i) (int i * 10)) [0..<200] (NewLRUCache 100)) (\<lambda>bigCache.
     Inr [(117, []), (119, [SInt v119]), (121, []), (123, []), (125, []), (127, []),
          (128, [SInt v128]), (129, [SInt v129]), (131, []), (133, []), (134, [SInt v134]), (135, [SInt v135]),
          (138, []), (139, [SInt v139]), (140, [SInt v140]), (141, [SInt v141]), (143, []), (149, [SWall]),
          (151, []), (152, [SInt (lru_Size bigCache), SInt (lru_Capacity bigCache)]), (153, [])])))))))))))))"

definition lru_sim :: "int \<Rightarrow> lru_cache \<Rightarrow> (int \<times> int) list \<Rightarrow> bool" where
  "lru_sim c l xs \<longleftrightarrow> c \<noteq> 0 \<and> lru_Capacity l = c \<and> (\<exists>es. lru_repr l es \<and> map snd es = xs)"

lemma lru_sim_New: "c \<noteq> 0 \<Longrightarrow> lru_sim c (NewLRUCache c) []"
  using lru_repr_New [of c] by (auto simp: lru_sim_def NewLRUCache_def)

lemma lru_sim_size: "lru_sim c l xs \<Longrightarrow> lru_Size l = int (length xs) \<and> lru_Capacity l = c"
  by (auto simp: lru_sim_def lru_repr_def)

lemma lru_sim_put:
  assumes "lru_sim c l xs"
  shows "\<exists>l'. lru_put k v l = Inr l' \<and> lru_sim c l' (lru_spec_put c k v xs)"
proof -
  obtain es where es: "lru_repr l es" "map snd es = xs" "lru_Capacity l = c" "c \<noteq> 0" using assms by (auto simp: lru_sim_def)
  show ?thesis by (rule lru_put_ok [OF es(1,3,4), of k v]) (use es in \<open>auto simp: lru_sim_def\<close>)
qed

lemma lru_sim_get:
  assumes "lru_sim c l xs"
  shows "\<exists>r. lru_get k l = Inr r \<and> fst r = fst (lru_spec_get k xs) \<and> lru_sim c (snd r) (snd (lru_spec_get k xs))"
proof -
  obtain es where es: "lru_repr l es" "map snd es = xs" "lru_Capacity l = c" "c \<noteq> 0" using assms by (auto simp: lru_sim_def)
  show ?thesis by (rule lru_get_ok [OF es(1), of k]) (use es in \<open>auto simp: lru_sim_def\<close>)
qed

lemma lru_put_then:
  "lru_sim c l xs \<Longrightarrow> lru_spec_put c k v xs = ys \<Longrightarrow> (\<And>l'. lru_sim c l' ys \<Longrightarrow> f l' = r) \<Longrightarrow>
    and_then (lru_put k v l) f = r"
  using lru_sim_put [of c l xs k v] by auto

lemma lru_get_then:
  "lru_sim c l xs \<Longrightarrow> lru_spec_get k xs = (v, ys) \<Longrightarrow> (\<And>l'. lru_sim c l' ys \<Longrightarrow> g v l' = r) \<Longrightarrow>
    and_then (lru_get k l) (\<lambda>(v, l'). g v l') = r"
  using lru_sim_get [of c l xs k] by auto

text \<open>Filling a cache with fresh keys leaves the last ones.\<close>

lemma lru_spec_fill:
  assumes "0 < c"
  shows "fold (\<lambda>i. lru_spec_put (int c) (int i) (g i)) [0..<n] [] = map (\<lambda>i. (int i, g i)) [n - c..<n]"
proof (induction n)
  case (Suc n)
  let ?xs = "map (\<lambda>i. (int i, g i)) [n - c..<n]"
  have "int n \<notin> fst ` set ?xs" by auto
  moreover have "tl ?xs = map (\<lambda>i. (int i, g i)) [Suc (n - c)..<n]" by (metis map_tl tl_upt)
  moreover have "length ?xs = c \<longleftrightarrow> c \<le> n" using assms by auto
  moreover have "Suc (n - c) = Suc n - c" if "c \<le> n" using that by simp
  moreover have "n - c = Suc n - c" if "\<not> c \<le> n" using that by simp
  ultimately show ?case using Suc assms by (auto simp: lru_spec_put_def)
qed simp

text \<open>
  Line 133 says that user 2 is evicted and line 138 user 1; it is the other way round, and lines 134 and 139 show it:
  user 2 was used last before line 132.
\<close>

lemma lru_main_logs:
  "lru_main = operation 115 [] (Inr [(117, []), (119, [SInt 2]), (121, []), (123, []), (125, []), (127, []),
     (128, [SInt 100]), (129, [SInt 200]), (131, []), (133, []), (134, [SInt 200]), (135, [SInt 300]),
     (138, []), (139, [SInt (- 1)]), (140, [SInt 300]), (141, [SInt 400]), (143, []), (149, [SWall]),
     (151, []), (152, [SInt 100, SInt 100]), (153, [])])"
proof -
  have "lru_sim 100 (NewLRUCache 100) []" by (simp add: lru_sim_New)
  then have "\<exists>l. each (\<lambda>i. lru_put (int i) (int i * 10)) [0..<200] (NewLRUCache 100) = Inr l \<and>
      lru_sim 100 l (fold (\<lambda>i. lru_spec_put 100 (int i) (int i * 10)) [0..<200] [])"
    by (rule each_step) (rule lru_sim_put)
  moreover have "length (fold (\<lambda>i. lru_spec_put 100 (int i) (int i * 10)) [0..<200] []) = 100"
    using lru_spec_fill [of 100 "\<lambda>i. int i * 10" 200] by (simp del: upt_rec_numeral)
  ultimately obtain l where big: "each (\<lambda>i. lru_put (int i) (int i * 10)) [0..<200] (NewLRUCache 100) = Inr l"
    "lru_Size l = 100" "lru_Capacity l = 100"
    using lru_sim_size by (metis of_nat_numeral)
  have sim: "lru_sim 2 (NewLRUCache 2) []" by (simp add: lru_sim_New)
  show ?thesis
    unfolding lru_main_def Let_def big and_then_simps
    by (rule operation_cong, insert sim, (erule lru_put_then lru_get_then, simp add: lru_spec_put_def lru_spec_get_def)+,
      simp add: lru_sim_size [OF sim])
qed

subsection \<open>LFU cache\<close>

definition lfu_main :: "log outcome" where
  "lfu_main = operation 170 [] (
     let cache = NewLFUCache 3; v174 = lf_Capacity cache in
     and_then (lf_put 1 10 cache) (\<lambda>cache.
     and_then (lf_put 2 20 cache) (\<lambda>cache.
     and_then (lf_put 3 30 cache) (\<lambda>cache.
     and_then (each (\<lambda>_ c. and_then (lf_get 1 c) (\<lambda>(_, c). Inr c)) [0..<5] cache) (\<lambda>cache.
     and_then (lf_put 4 40 cache) (\<lambda>cache.
     and_then (lf_get 1 cache) (\<lambda>(v194, cache).
     and_then (lf_get 2 cache) (\<lambda>(v195, cache).
     and_then (lf_get 3 cache) (\<lambda>(v196, cache).
     and_then (lf_get 4 cache) (\<lambda>(v197, cache).
     and_then (each (\<lambda>_ c. and_then (lf_get 1 c) (\<lambda>(_, c). and_then (lf_get 3 c) (\<lambda>(_, c).
       and_then (lf_get 4 c) (\<lambda>(_, c). Inr c)))) [0..<1000] cache) (\<lambda>cache.
     Inr [(172, []), (174, [SInt v174]), (176, []), (178, []), (180, []), (182, []), (184, []), (188, [SInt 6]),
          (190, []), (192, []), (194, [SInt v194]), (195, [SInt v195]), (196, [SInt v196]), (197, [SInt v197]),
          (199, []), (206, [SWall]), (208, []), (209, [SInt (lf_Size cache), SInt (lf_Capacity cache)]),
          (210, [SInt (lf_MinFreq cache)]), (211, [])])))))))))))"

definition lfu_sim :: "int \<Rightarrow> lfu_cache \<Rightarrow> (int \<times> int \<times> int) list \<Rightarrow> bool" where
  "lfu_sim c l xs \<longleftrightarrow> lf_Capacity l = c \<and> (\<exists>es. lf_inv l es \<and> map snd es = xs)"

lemma lfu_sim_New: "lfu_sim c (NewLFUCache c) []"
  using lf_inv_New [of c] by (auto simp: lfu_sim_def NewLFUCache_def)

lemma lfu_sim_size: "lfu_sim c l xs \<Longrightarrow> lf_Size l = int (length xs) \<and> lf_Capacity l = c"
  by (auto simp: lfu_sim_def lf_inv_def lf_repr_def)

lemma lfu_sim_MinFreq:
  assumes "lfu_sim c l xs" "xs \<noteq> []"
  shows "lf_MinFreq l = Min (set (map lfu_freq xs))"
proof -
  obtain es where es: "lf_inv l es" "map snd es = xs" using assms(1) by (auto simp: lfu_sim_def)
  then have "lf_bucket es (lf_MinFreq l) \<noteq> []" "\<forall>e \<in> set es. lf_MinFreq l \<le> lfu_freq (snd e)"
    using assms(2) by (auto simp: lf_inv_def)
  then have "lf_MinFreq l \<in> set (map lfu_freq xs)" "\<forall>f \<in> set (map lfu_freq xs). lf_MinFreq l \<le> f"
    unfolding lf_bucket_empty es(2) [symmetric] by force+
  then show ?thesis by (intro Min_eqI [symmetric]) auto
qed

lemma lfu_sim_put: "lfu_sim c l xs \<Longrightarrow> \<exists>l'. lf_put k v l = Inr l' \<and> lfu_sim c l' (lfu_spec_put c k v xs)"
proof -
  assume "lfu_sim c l xs"
  then obtain es where es: "lf_inv l es" "map snd es = xs" "lf_Capacity l = c" by (auto simp: lfu_sim_def)
  show ?thesis by (rule lf_put_ok [OF es(1,3), of k v]) (use es in \<open>auto simp: lfu_sim_def\<close>)
qed

lemma lfu_sim_get:
  assumes "lfu_sim c l xs"
  shows "\<exists>r. lf_get k l = Inr r \<and> fst r = fst (lfu_spec_get k xs) \<and> lfu_sim c (snd r) (snd (lfu_spec_get k xs))"
proof -
  obtain es where es: "lf_inv l es" "map snd es = xs" "lf_Capacity l = c" using assms by (auto simp: lfu_sim_def)
  show ?thesis by (rule lf_get_ok [OF es(1), of k]) (use es in \<open>auto simp: lfu_sim_def\<close>)
qed

lemma lfu_put_then:
  "lfu_sim c l xs \<Longrightarrow> lfu_spec_put c k v xs = ys \<Longrightarrow> (\<And>l'. lfu_sim c l' ys \<Longrightarrow> f l' = r) \<Longrightarrow>
    and_then (lf_put k v l) f = r"
  using lfu_sim_put [of c l xs k v] by auto

lemma lfu_get_then:
  "lfu_sim c l xs \<Longrightarrow> lfu_spec_get k xs = (v, ys) \<Longrightarrow> (\<And>l'. lfu_sim c l' ys \<Longrightarrow> g v l' = r) \<Longrightarrow>
    and_then (lf_get k l) (\<lambda>(v, l'). g v l') = r"
  using lfu_sim_get [of c l xs k] by auto

lemma lfu_sim_drop_get:
  "lfu_sim c l xs \<Longrightarrow> \<exists>l'. and_then (lf_get k l) (\<lambda>(_, c). Inr c) = Inr l' \<and> lfu_sim c l' (snd (lfu_spec_get k xs))"
  using lfu_sim_get [of c l xs k] by (auto simp: case_prod_beta)

lemma lfu_gets_then:
  assumes "lfu_sim c l xs" "((\<lambda>xs. snd (lfu_spec_get k xs)) ^^ length is) xs = ys" "\<And>l'. lfu_sim c l' ys \<Longrightarrow> f l' = r"
  shows "and_then (each (\<lambda>_ c. and_then (lf_get k c) (\<lambda>(_, c). Inr c)) is l) f = r"
proof (rule and_then_step)
  have "\<exists>l'. each (\<lambda>_ c. and_then (lf_get k c) (\<lambda>(_, c). Inr c)) is l = Inr l' \<and>
      lfu_sim c l' (fold (\<lambda>_ xs. snd (lfu_spec_get k xs)) is xs)"
    using assms(1) lfu_sim_drop_get by (rule each_step)
  then show "\<exists>l'. each (\<lambda>_ c. and_then (lf_get k c) (\<lambda>(_, c). Inr c)) is l = Inr l' \<and> lfu_sim c l' ys"
    by (simp add: fold_times assms(2))
qed (rule assms(3))

text \<open>A cycle over the three keys in use raises every frequency by one.\<close>

lemma lfu_cycle:
  assumes "lfu_sim 3 l [(4, 40, a), (3, 30, b), (1, 10, d)]"
  shows "\<exists>l'. and_then (lf_get 1 l) (\<lambda>(_, c). and_then (lf_get 3 c) (\<lambda>(_, c). and_then (lf_get 4 c) (\<lambda>(_, c). Inr c))) = Inr l' \<and>
     lfu_sim 3 l' [(4, 40, a + 1), (3, 30, b + 1), (1, 10, d + 1)]"
proof -
  obtain r1 where 1: "lf_get 1 l = Inr r1" "lfu_sim 3 (snd r1) [(1, 10, d + 1), (4, 40, a), (3, 30, b)]"
    using lfu_sim_get [OF assms, of 1] by (auto simp: lfu_spec_get_def)
  obtain r3 where 3: "lf_get 3 (snd r1) = Inr r3" "lfu_sim 3 (snd r3) [(3, 30, b + 1), (1, 10, d + 1), (4, 40, a)]"
    using lfu_sim_get [OF 1(2), of 3] by (auto simp: lfu_spec_get_def)
  obtain r4 where "lf_get 4 (snd r3) = Inr r4" "lfu_sim 3 (snd r4) [(4, 40, a + 1), (3, 30, b + 1), (1, 10, d + 1)]"
    using lfu_sim_get [OF 3(2), of 4] by (auto simp: lfu_spec_get_def)
  then show ?thesis using 1(1) 3(1) by (simp add: case_prod_beta)
qed

lemma lfu_cycles:
  assumes "lfu_sim 3 l [(4, 40, a), (3, 30, b), (1, 10, d)]"
  shows "\<exists>l'. each (\<lambda>_ c. and_then (lf_get 1 c) (\<lambda>(_, c). and_then (lf_get 3 c) (\<lambda>(_, c).
       and_then (lf_get 4 c) (\<lambda>(_, c). Inr c)))) is l = Inr l' \<and>
     lfu_sim 3 l' [(4, 40, a + int (length is)), (3, 30, b + int (length is)), (1, 10, d + int (length is))]"
  using assms
proof (induction "is" arbitrary: l a b d)
  case (Cons i "is")
  obtain l1 where l1: "and_then (lf_get 1 l) (\<lambda>(_, c). and_then (lf_get 3 c) (\<lambda>(_, c). and_then (lf_get 4 c) (\<lambda>(_, c). Inr c))) = Inr l1"
    "lfu_sim 3 l1 [(4, 40, a + 1), (3, 30, b + 1), (1, 10, d + 1)]"
    using lfu_cycle [OF Cons.prems] by blast
  from Cons.IH [OF l1(2)] show ?case by (simp add: l1(1) ac_simps)
qed simp

lemma lfu_main_logs:
  "lfu_main = operation 170 [] (Inr [(172, []), (174, [SInt 3]), (176, []), (178, []), (180, []), (182, []), (184, []), (188, [SInt 6]),
     (190, []), (192, []), (194, [SInt 10]), (195, [SInt (- 1)]), (196, [SInt 30]), (197, [SInt 40]),
     (199, []), (206, [SWall]), (208, []), (209, [SInt 3, SInt 3]), (210, [SInt 1002]), (211, [])])"
proof -
  have sim: "lfu_sim 3 (NewLFUCache 3) []" by (rule lfu_sim_New)
  have cyc: "and_then (each (\<lambda>_ c. and_then (lf_get 1 c) (\<lambda>(_, c). and_then (lf_get 3 c) (\<lambda>(_, c).
       and_then (lf_get 4 c) (\<lambda>(_, c). Inr c)))) [0..<1000] l) f = r"
    if sim: "lfu_sim 3 l [(4, 40, 2), (3, 30, 2), (1, 10, 7)]"
      and f: "\<And>l'. lf_Size l' = 3 \<Longrightarrow> lf_Capacity l' = 3 \<Longrightarrow> lf_MinFreq l' = 1002 \<Longrightarrow> f l' = r" for l f and r :: "log outcome"
  proof -
    obtain l' where l': "each (\<lambda>_ c. and_then (lf_get 1 c) (\<lambda>(_, c). and_then (lf_get 3 c) (\<lambda>(_, c).
       and_then (lf_get 4 c) (\<lambda>(_, c). Inr c)))) [0..<1000] l = Inr l'"
      "lfu_sim 3 l' [(4, 40, 1002), (3, 30, 1002), (1, 10, 1007)]"
      using lfu_cycles [OF sim, of "[0..<1000]"] by (auto simp del: upt_rec_numeral)
    show ?thesis
      using lfu_sim_MinFreq [OF l'(2)] lfu_sim_size [OF l'(2)] unfolding l'(1) by (simp add: f lfu_freq_def)
  qed
  show ?thesis
    unfolding lfu_main_def Let_def and_then_simps
    by (rule operation_cong, insert sim, (erule lfu_put_then lfu_get_then lfu_gets_then cyc,
      simp add: lfu_spec_put_def lfu_spec_get_def lfu_spec_evict_def lfu_freq_def numeral_eq_Suc)+,
      simp add: lfu_sim_size [OF sim])
qed

end
