(* ===== verification/Demo_Tables.thy ===== *)
theory Demo_Tables
  imports Demo_Log Bucket_Table
begin

text \<open>
  The \<open>main\<close> function of \<open>src/03/bucket-hash-table.go\<close>, a series of self-checks on tables of up to
  ten thousand keys: all of them succeed, whatever the hashes (\<open>bucket_main_logs\<close>).
\<close>

definition show_get :: "string \<times> bool \<Rightarrow> shown list" where
  "show_get r = [SStr (fst r), SBool (snd r)]"

text \<open>A loop that stops at the first key whose value is not the expected one.\<close>

definition bucket_check :: "string \<Rightarrow> nat list \<Rightarrow> bucket_table \<Rightarrow> bool" where
  "bucket_check pre is ht = list_all (\<lambda>i. let (v, ok) = bt_Get (numbered pre i) ht in ok \<and> v = decimal i) is"

definition bucket_fill :: "string \<Rightarrow> nat list \<Rightarrow> bucket_table \<Rightarrow> bucket_table" where
  "bucket_fill pre is ht = fold (\<lambda>i. bt_Set (numbered pre i) (decimal i)) is ht"

definition bucket_main :: "log outcome" where
  "bucket_main = operation 213 [] (
     let ht = NewBucketHashTable 16;
         ht = bt_Set ''one'' ''1'' ht;
         ht = bt_Set ''two'' ''2'' ht;
         ht1 = bt_Set ''three'' ''3'' ht;
         ht2 = bt_Set ''one'' ''100'' ht1;
         ht3 = snd (bt_Delete ''two'' ht2);
         ht4 = bt_Set ''two'' ''222'' ht3;
         ht5 = bucket_fill ''collision_'' [0..<50] ht4;
         largeCount = 10000;
         ht6 = bucket_fill ''key_'' [0..<largeCount] ht5;
         ht7 = fold (\<lambda>i ht. snd (bt_Delete (numbered ''key_'' i) ht)) [0..<largeCount - 100] ht6;
         (d, ht8) = bt_Delete ''does_not_exist'' ht7;
         ht9 = bt_Set '''' ''empty'' ht8;
         ht10 = bt_Set ''0'' ''zero'' ht9;
         randomKeys = map (numbered ''rand_'') [0..<5000];
         ht11 = bucket_fill ''rand_'' [0..<5000] ht10;
         ht12 = fold (\<lambda>k ht. snd (bt_Delete k ht)) randomKeys ht11
     in Inr [(215, []), (217, [SInt 16]), (219, []), (224, show_get (bt_Get ''one'' ht1)),
          (226, show_get (bt_Get ''two'' ht1)), (228, show_get (bt_Get ''three'' ht1)),
          (230, [SBool (snd (bt_Get ''four'' ht1))]), (232, []), (235, [SStr (fst (bt_Get ''one'' ht2))]),
          (237, []), (240, [SBool (snd (bt_Get ''two'' ht3))]), (243, [SStr (fst (bt_Get ''two'' ht4))]),
          (245, []), (260, [SBool (bucket_check ''collision_'' [0..<50] ht5), SWall]), (262, []),
          (278, [SBool (bucket_check ''key_'' [0..<largeCount] ht6), SWall]), (280, []),
          (293, [SBool (bucket_check ''key_'' [largeCount - 100..<largeCount] ht7)]), (295, []),
          (296, [SBool d]), (299, [SStr (fst (bt_Get '''' ht9))]), (302, [SStr (fst (bt_Get ''0'' ht10))]),
          (304, []), (320, [SBool (list_all (\<lambda>k. snd (bt_Get k ht11)) randomKeys), SWall]), (322, []),
          (333, [SBool (list_all (\<lambda>k. \<not> snd (bt_Get k ht12)) randomKeys)]), (335, []),
          (336, [SInt (int (bt_size ht12)), SInt (int (bt_capacity ht12))]), (337, [])])"

definition bt_sim :: "bucket_table \<Rightarrow> (string \<rightharpoonup> string) \<Rightarrow> bool" where
  "bt_sim t m \<longleftrightarrow> bt_inv t \<and> bt_abs t = m"

lemma bt_sim_New: "bt_sim (NewBucketHashTable c) Map.empty"
  by (simp add: bt_sim_def bt_New_ok)

lemma bt_sim_Set: "bt_sim t m \<Longrightarrow> bt_sim (bt_Set k v t) (m(k \<mapsto> v))"
  by (simp add: bt_sim_def bt_Set_ok)

lemma bt_sim_Delete: "bt_sim t m \<Longrightarrow> bt_sim (snd (bt_Delete k t)) (m(k := None))"
  by (simp add: bt_sim_def bt_Delete_ok)

lemma bt_sim_deleted: "bt_sim t m \<Longrightarrow> fst (bt_Delete k t) \<longleftrightarrow> m k \<noteq> None"
  by (auto simp: bt_sim_def bt_Delete_ok(3))

lemma bt_sim_Get: "bt_sim t m \<Longrightarrow> bt_Get k t = (case m k of Some v \<Rightarrow> (v, True) | None \<Rightarrow> ('''', False))"
  by (simp add: bt_sim_def bt_Get_ok)

lemma bt_sim_size: "bt_sim t m \<Longrightarrow> bt_size t = card (dom m)"
  by (auto simp: bt_sim_def bt_size_card)

lemma bt_sim_room: "bt_sim t m \<Longrightarrow> 4 * card (dom m) \<le> 3 * bt_capacity t"
proof -
  assume sim: "bt_sim t m"
  then have "bt_size t \<le> 3 * bt_capacity t div 4" by (simp add: bt_sim_def bt_inv_def)
  then show ?thesis using bt_sim_size [OF sim] by simp
qed

text \<open>Filling adds the numbered keys and clears as well; other keys are untouched.\<close>

definition with_numbered :: "string \<Rightarrow> nat set \<Rightarrow> (string \<rightharpoonup> string) \<Rightarrow> (string \<rightharpoonup> string)" where
  "with_numbered pre A m = (\<lambda>k. if k \<in> numbered pre ` A then Some (decimal (inv (numbered pre) k)) else m k)"

definition without_numbered :: "string \<Rightarrow> nat set \<Rightarrow> (string \<rightharpoonup> string) \<Rightarrow> (string \<rightharpoonup> string)" where
  "without_numbered pre A m = (\<lambda>k. if k \<in> numbered pre ` A then None else m k)"

lemma with_numbered_at [simp]:
  "with_numbered pre A m (numbered pre i) = (if i \<in> A then Some (decimal i) else m (numbered pre i))"
  by (simp add: with_numbered_def inj_image_mem_iff [OF numbered_inj_on] numbered_inj_on)

lemma without_numbered_at [simp]:
  "without_numbered pre A m (numbered pre i) = (if i \<in> A then None else m (numbered pre i))"
  by (simp add: without_numbered_def inj_image_mem_iff [OF numbered_inj_on])

lemma numbered_other:
  assumes "take (length pre) k \<noteq> pre"
  shows "with_numbered pre A m k = m k" "without_numbered pre A m k = m k"
  using assms by (auto simp: with_numbered_def without_numbered_def numbered_def)

lemma bt_sim_fill:
  assumes "bt_sim t m"
  shows "bt_sim (bucket_fill pre is t) (with_numbered pre (set is) m)"
  using assms unfolding bucket_fill_def
proof (induction "is" arbitrary: t m)
  case (Cons i "is")
  have "with_numbered pre (set (i # is)) m = with_numbered pre (set is) (m(numbered pre i \<mapsto> decimal i))"
    by (auto simp: with_numbered_def fun_eq_iff inv_f_f [OF numbered_inj_on])
  then show ?case using Cons.IH [OF bt_sim_Set [OF Cons.prems]] by (simp del: fun_upd_apply)
qed (simp add: with_numbered_def)

lemma bt_sim_clear:
  assumes "bt_sim t m"
  shows "bt_sim (fold (\<lambda>i ht. snd (bt_Delete (numbered pre i) ht)) is t) (without_numbered pre (set is) m)"
  using assms
proof (induction "is" arbitrary: t m)
  case (Cons i "is")
  have "without_numbered pre (set (i # is)) m = without_numbered pre (set is) (m(numbered pre i := None))"
    by (auto simp: without_numbered_def fun_eq_iff)
  then show ?case using Cons.IH [OF bt_sim_Delete [OF Cons.prems]] by (simp del: fun_upd_apply)
qed (simp add: without_numbered_def)

lemma bucket_check_true:
  assumes "bt_sim t m" "\<And>i. i \<in> set is \<Longrightarrow> m (numbered pre i) = Some (decimal i)"
  shows "bucket_check pre is t"
  using assms(2) by (simp add: bucket_check_def list_all_iff bt_sim_Get [OF assms(1)])

lemma let_sim: "bt_sim s m \<Longrightarrow> (\<And>t. bt_sim t m \<Longrightarrow> P (f t)) \<Longrightarrow> P (Let s f)"
  by simp

lemma let_delete:
  "bt_sim t m \<Longrightarrow> (\<And>t'. bt_sim t' (m(k := None)) \<Longrightarrow> P (g (m k \<noteq> None) t')) \<Longrightarrow>
    P (let (d, t') = bt_Delete k t in g d t')"
  using bt_sim_Delete [of t m k] bt_sim_deleted [of t m k] by (cases "bt_Delete k t") simp

lemma bt_sim_clear_map:
  "bt_sim t m \<Longrightarrow> bt_sim (fold (\<lambda>k ht. snd (bt_Delete k ht)) (map (numbered pre) is) t) (without_numbered pre (set is) m)"
  using bt_sim_clear [of t m pre "is"] by (simp add: fold_map comp_def)

text \<open>The keys left at the end: three names, the fifty of the collision test, the last hundred of the load test and two more.\<close>

lemma bucket_last_size:
  assumes "dom m = {''one'', ''two'', ''three''}"
  shows "card (dom (without_numbered ''rand_'' {0..<5000} (with_numbered ''rand_'' {0..<5000}
    ((without_numbered ''key_'' {0..<9900} (with_numbered ''key_'' {0..<10000}
      (with_numbered ''collision_'' {0..<50} m)))(''does_not_exist'' := None, '''' \<mapsto> ''empty'', ''0'' \<mapsto> ''zero''))))) = 155"
    (is "card ?D = 155")
proof -
  define R where "R = numbered ''rand_'' ` {0..<5000}"
  define C where "C = numbered ''collision_'' ` {0..<50}"
  define K where "K = numbered ''key_'' ` {0..<10000}"
  define E where "E = numbered ''key_'' ` {0..<9900}"
  have num: "take (length pre) (numbered pre i) = pre" for pre i by simp
  have C: "k \<in> C \<Longrightarrow> take 4 k = ''coll''" for k by (auto simp: C_def)
  have K: "k \<in> K \<Longrightarrow> take 4 k = ''key_''" for k by (auto simp: K_def)
  have R: "k \<in> R \<Longrightarrow> take 4 k = ''rand''" for k by (auto simp: R_def)
  have KE: "K - E = numbered ''key_'' ` {9900..<10000}" "E \<subseteq> K"
    unfolding K_def E_def by (simp_all add: image_set_diff [OF numbered_inj_on, symmetric]) auto
  define S where "S = {''one'', ''two'', ''three''}"
  define T where "T = {'''', ''0''}"
  have m: "m k \<noteq> None \<longleftrightarrow> k \<in> S" for k using assms by (auto simp: S_def)
  define D where "D = ?D"
  have D: "k \<in> D \<longleftrightarrow> k \<notin> R \<and> (k \<in> T \<or> k \<noteq> ''does_not_exist'' \<and> k \<notin> E \<and> (k \<in> K \<or> k \<in> C \<or> k \<in> S))" for k
    unfolding D_def m [symmetric] domIff with_numbered_def without_numbered_def T_def
      R_def [symmetric] C_def [symmetric] K_def [symmetric] E_def [symmetric] by simp
  have names: "k \<notin> C \<and> k \<notin> K \<and> k \<notin> R" if "k \<in> insert ''does_not_exist'' (S \<union> T)" for k
    using that C [of k] K [of k] R [of k] unfolding S_def T_def by auto
  have "k \<notin> R" if "k \<in> C \<union> K" for k using that C [of k] K [of k] R [of k] by auto
  moreover have CK: "k \<notin> K" if "k \<in> C" for k using that C [of k] K [of k] by auto
  moreover have "''does_not_exist'' \<notin> S" by (simp add: S_def)
  ultimately have "k \<in> D \<longleftrightarrow> k \<in> (S \<union> T) \<union> (C \<union> (K - E))" for k
    using names [of k] names [of "''does_not_exist''"] KE(2) by (cases "k = ''does_not_exist''") (auto simp: D)
  then have "D = (S \<union> T) \<union> (C \<union> (K - E))" by (rule set_eqI)
  moreover have "(S \<union> T) \<inter> (C \<union> (K - E)) = {}" using names by auto
  moreover have "C \<inter> (K - E) = {}" using CK by auto
  moreover have "card (S \<union> T) = 5" by (simp add: S_def T_def)
  moreover have "card C = 50" "card (K - E) = 100" unfolding C_def KE(1) by (simp_all add: card_image numbered_inj_on)
  moreover have "finite (S \<union> T)" "finite C" "finite (K - E)" by (simp_all add: S_def T_def C_def K_def)
  ultimately have "card D = 155" by (simp add: card_Un_disjoint)
  then show ?thesis unfolding D_def .
qed

lemma bucket_main_logs:
  "\<exists>c \<ge> 207. bucket_main = operation 213 [] (Inr [(215, []), (217, [SInt 16]), (219, []),
     (224, [SStr ''1'', SBool True]), (226, [SStr ''2'', SBool True]), (228, [SStr ''3'', SBool True]),
     (230, [SBool False]), (232, []), (235, [SStr ''100'']), (237, []), (240, [SBool False]), (243, [SStr ''222'']),
     (245, []), (260, [SBool True, SWall]), (262, []), (278, [SBool True, SWall]), (280, []), (293, [SBool True]),
     (295, []), (296, [SBool False]), (299, [SStr ''empty'']), (302, [SStr ''zero'']), (304, []),
     (320, [SBool True, SWall]), (322, []), (333, [SBool True]), (335, []), (336, [SInt 155, SInt c]), (337, [])])"
proof -
  define P where "P x \<longleftrightarrow> (\<exists>c \<ge> 207. operation 213 [] x = operation 213 [] (Inr [(215, []), (217, [SInt 16]), (219, []),
     (224, [SStr ''1'', SBool True]), (226, [SStr ''2'', SBool True]), (228, [SStr ''3'', SBool True]),
     (230, [SBool False]), (232, []), (235, [SStr ''100'']), (237, []), (240, [SBool False]), (243, [SStr ''222'']),
     (245, []), (260, [SBool True, SWall]), (262, []), (278, [SBool True, SWall]), (280, []), (293, [SBool True]),
     (295, []), (296, [SBool False]), (299, [SStr ''empty'']), (302, [SStr ''zero'']), (304, []),
     (320, [SBool True, SWall]), (322, []), (333, [SBool True]), (335, []), (336, [SInt 155, SInt c]), (337, [])]))" for x
  have last: "card (dom (without_numbered ''rand_'' {0..<5000} (with_numbered ''rand_'' {0..<5000}
    ((without_numbered ''key_'' {0..<9900} (with_numbered ''key_'' {0..<10000}
      (with_numbered ''collision_'' {0..<50} [''three'' \<mapsto> ''3'', ''one'' \<mapsto> ''100'', ''two'' \<mapsto> ''222''])))
        (''does_not_exist'' := None, '''' \<mapsto> ''empty'', ''0'' \<mapsto> ''zero''))))) = 155"
    by (rule bucket_last_size) auto
  note step = let_sim [where P = P]
  show ?thesis
    unfolding bucket_main_def Let_def [of "10000 :: nat"] Let_def [of "map (numbered ''rand_'') [0..<5000]"]
    apply (subst P_def [symmetric])
    apply (rule step, rule bt_sim_New)
    apply (rule step, erule bt_sim_Set)+
    apply (rule step, erule bt_sim_Delete)
    apply (rule step, erule bt_sim_Set)
    apply (rule step, erule bt_sim_fill)+
    apply (rule step, erule bt_sim_clear)
    apply (rule let_delete [where P = P], assumption)
    apply (rule step, erule bt_sim_Set)+
    apply (rule step, erule bt_sim_fill)+
    apply (rule step, erule bt_sim_clear_map)
    unfolding P_def
    subgoal for _ _ _ t1 t2 t3 t4 t5 t6 t7 t8 t9 t10 t11 t12
      apply (rule exI [of _ "int (bt_capacity t12)"])
      apply (intro conjI)
       apply (drule bt_sim_room [of t12])
       apply (simp add: last)
      apply (simp add: show_get_def bt_sim_Get bt_sim_size numbered_other bucket_check_def list_all_iff last)
      done
    done
qed

end
