(* ===== verification/Demo_Bloom.thy ===== *)
theory Demo_Bloom
  imports Demo_Log Bloom_Filter
begin

text \<open>The \<open>main\<close> function of \<open>src/04\<close>.\<close>

definition taken_names :: "string list" where
  "taken_names = [''alice'', ''bob'', ''charlie'', ''diana'', ''eve'', ''frank'', ''grace'', ''henry'', ''iris'', ''jack'']"

text \<open>The loop that stops at the first user that is not found.\<close>

fun bloom_all :: "bloom \<Rightarrow> nat list \<Rightarrow> bool outcome" where
  "bloom_all bf [] = Inr True"
| "bloom_all bf (i # is) = and_then (bf_Has (numbered ''user_'' i) bf) (\<lambda>found.
     if \<not> found then Inr False else bloom_all bf is)"

definition bloom_main :: "log outcome" where
  "bloom_main = operation 105 [] (
     and_then (NewBloomFilter 1000000 (1 / 1000)) (\<lambda>bf.
     let v113 = uint (bf_bitSize bf); v114 = uint (bf_hashCount bf) in
     and_then (each_log (\<lambda>name bf. and_then (bf_Add name bf) (\<lambda>bf. Inr ([(120, [SStr name])], bf)))
       taken_names bf) (\<lambda>(l120, bf).
     and_then (bf_Has ''alice'' bf) (\<lambda>v125.
     and_then (bf_Has ''bob'' bf) (\<lambda>v126.
     and_then (bf_Has ''carol'' bf) (\<lambda>v127.
     and_then (bf_Has ''zach'' bf) (\<lambda>v128.
     and_then (each (\<lambda>i. bf_Add (numbered ''user_'' i)) [0..<10000] bf) (\<lambda>bf.
     and_then (bloom_all bf [0..<10000]) (\<lambda>allFound.
     and_then (each (\<lambda>i fpCount. and_then (bf_Has (numbered ''nonexistent_'' i) bf) (\<lambda>found.
       Inr (if found then fpCount + 1 else fpCount))) [0..<100000] 0) (\<lambda>fpCount.
     Inr ([(107, []), (108, []), (111, [SInt 1000000]), (112, []), (113, [SInt v113]), (114, [SInt v114]), (116, [])] @
       l120 @ [(122, [SInt (int (length taken_names))]), (124, []), (125, [SBool v125]), (126, [SBool v126]),
       (127, [SBool v127]), (128, [SBool v128]), (130, []), (136, [SWall]), (138, []), (146, [SBool allFound]), (148, []),
       (156, [SInt fpCount, SReal (real_of_int fpCount / 100000 * 100)]), (158, []),
       (159, [SReal (bf_EstimatedFalsePositiveRate 10010 bf * 100)]), (160, [SInt (int (length (bf_bits bf)))]),
       (161, [SInt (uint (bf_hashCount bf))])])))))))))))"

definition bf_sim :: "u32 \<Rightarrow> u32 \<Rightarrow> bloom \<Rightarrow> string set \<Rightarrow> bool" where
  "bf_sim m k bf V \<longleftrightarrow> bf_inv bf \<and> bf_bitSize bf = m \<and> bf_hashCount bf = k \<and>
     (\<forall>v \<in> V. \<forall>j \<in> bf_positions m k v. bf_bit (bf_bits bf) j)"

lemma bf_sim_Add:
  assumes "bf_sim m k bf V"
  shows "\<exists>bf'. bf_Add s bf = Inr bf' \<and> bf_sim m k bf' (insert s V)"
  using bf_Add_ok [of bf s] assms by (fastforce simp: bf_sim_def)

lemma bf_sim_Has:
  assumes "bf_sim m k bf V"
  shows "\<exists>b. bf_Has s bf = Inr b \<and> (s \<in> V \<longrightarrow> b)"
  using bf_Has_ok [of bf s] assms by (auto simp: bf_sim_def)

lemma bf_sim_adds:
  assumes "bf_sim m k bf V"
  shows "\<exists>bf'. each (\<lambda>i. bf_Add (f i)) is bf = Inr bf' \<and> bf_sim m k bf' (V \<union> f ` set is)"
  using assms
proof (induction "is" arbitrary: bf V)
  case (Cons i "is")
  obtain b where b: "bf_Add (f i) bf = Inr b" "bf_sim m k b (insert (f i) V)" using bf_sim_Add [OF Cons.prems] by blast
  show ?case using Cons.IH [OF b(2)] b(1) by simp
qed simp

lemma bf_sim_adds_log:
  assumes "bf_sim m k bf V"
  shows "\<exists>bf'. each_log (\<lambda>name bf. and_then (bf_Add name bf) (\<lambda>bf. Inr ([(n, [SStr name])], bf))) ns bf =
     Inr (map (\<lambda>name. (n, [SStr name])) ns, bf') \<and> bf_sim m k bf' (V \<union> set ns)"
  using assms
proof (induction ns arbitrary: bf V)
  case (Cons i ns)
  obtain b where b: "bf_Add i bf = Inr b" "bf_sim m k b (insert i V)" using bf_sim_Add [OF Cons.prems] by blast
  show ?case using Cons.IH [OF b(2)] b(1) by auto
qed simp

lemma bloom_all_True:
  assumes "bf_sim m k bf V" "\<And>i. i \<in> set is \<Longrightarrow> numbered ''user_'' i \<in> V"
  shows "bloom_all bf is = Inr True"
  using assms(2)
proof (induction "is")
  case (Cons i "is")
  then show ?case using bf_sim_Has [OF assms(1), of "numbered ''user_'' i"] by auto
qed simp

lemma bloom_count:
  assumes "bf_sim m k bf V"
  shows "\<exists>c \<le> int (length is). 0 \<le> c \<and> each (\<lambda>i n. and_then (bf_Has (f i) bf) (\<lambda>found. Inr (if found then n + 1 else n))) is (n :: int) = Inr (n + c)"
proof (induction "is" arbitrary: n)
  case (Cons i "is")
  obtain b where b: "bf_Has (f i) bf = Inr b" using bf_sim_Has [OF assms] by blast
  obtain c where c: "c \<le> int (length is)" "0 \<le> c" "each (\<lambda>i n. and_then (bf_Has (f i) bf) (\<lambda>found. Inr (if found then n + 1 else n))) is
      (if b then n + 1 else n) = Inr ((if b then n + 1 else n) + c)" using Cons.IH by blast
  show ?case by (rule exI [of _ "if b then c + 1 else c"]) (use b c in \<open>simp split: if_splits\<close>)
qed simp

text \<open>The sizes, from rough bounds of the logarithms.\<close>

lemma bloom_size: "bf_optimalBits 1000000 (1 / 1000) \<le> 2 ^ 32 - 8"
proof -
  have "ln (1 / 2 :: real) \<le> 1 / 2 - 1" by (rule ln_le_minus_one) simp
  then have "1 \<le> 2 * ln (2 :: real)" by (simp add: ln_div)
  then have "1 \<le> (2 * ln 2) * (2 * ln (2 :: real))" using mult_mono [of 1 "2 * ln 2" 1 "2 * ln (2 :: real)"] by simp
  then have two: "1 / 4 \<le> ln 2 * ln (2 :: real)" by simp
  have "ln (1000 :: real) \<le> 1000 - 1" by (rule ln_le_minus_one) simp
  then have "(1000000 * ln 1000) / (ln 2 * ln 2) \<le> (1000000 * 999) / (1 / 4 :: real)"
    using two by (intro frac_le) simp_all
  then have "(- 1000000 * ln (1 / 1000)) / (ln 2 * ln 2) \<le> (4294967288 :: real)" by (simp add: ln_div)
  then show ?thesis by (simp add: bf_optimalBits_def ceiling_le_iff)
qed

text \<open>
  All users added are found. The names of lines 125 and 126 are taken, so the log says
  \<open>alice available? true (should be false)\<close>: the answer of \<open>Has\<close> is shown as that of the question asked.
\<close>

lemma bloom_main_logs:
  "\<exists>m k bf carol zach fp. 0 \<le> fp \<and> fp \<le> 100000 \<and> bf_inv bf \<and> bf_bitSize bf = m \<and> bf_hashCount bf = k \<and>
     bloom_main = operation 105 [] (Inr ([(107, []), (108, []), (111, [SInt 1000000]), (112, []), (113, [SInt (uint m)]), (114, [SInt (uint k)]), (116, [])] @
       map (\<lambda>name. (120, [SStr name])) taken_names @
       [(122, [SInt 10]), (124, []), (125, [SBool True]), (126, [SBool True]), (127, [SBool carol]), (128, [SBool zach]),
        (130, []), (136, [SWall]), (138, []), (146, [SBool True]), (148, []),
        (156, [SInt fp, SReal (real_of_int fp / 100000 * 100)]), (158, []),
        (159, [SReal (bf_EstimatedFalsePositiveRate 10010 bf * 100)]), (160, [SInt (int ((unat m + 7) div 8))]),
        (161, [SInt (uint k)])]))"
proof -
  obtain bf where bf: "NewBloomFilter 1000000 (1 / 1000) = Inr bf" "bf_inv bf"
    using bf_New_ok [OF _ _ _ bloom_size] by auto
  define m where "m = bf_bitSize bf"
  define k where "k = bf_hashCount bf"
  have sim: "bf_sim m k bf {}" using bf(2) by (simp add: bf_sim_def m_def k_def)
  obtain b1 where b1: "each_log (\<lambda>name bf. and_then (bf_Add name bf) (\<lambda>bf. Inr ([(120, [SStr name])], bf))) taken_names bf =
     Inr (map (\<lambda>name. (120, [SStr name])) taken_names, b1)" "bf_sim m k b1 (set taken_names)"
    using bf_sim_adds_log [OF sim, of 120 taken_names] by auto
  have "''alice'' \<in> set taken_names" "''bob'' \<in> set taken_names" by (simp_all add: taken_names_def)
  then obtain c z where h: "bf_Has ''alice'' b1 = Inr True" "bf_Has ''bob'' b1 = Inr True" "bf_Has ''carol'' b1 = Inr c" "bf_Has ''zach'' b1 = Inr z"
    using bf_sim_Has [OF b1(2)] by metis
  obtain b2 where b2: "each (\<lambda>i. bf_Add (numbered ''user_'' i)) [0..<10000] b1 = Inr b2"
    "bf_sim m k b2 (set taken_names \<union> numbered ''user_'' ` set [0..<10000])"
    using bf_sim_adds [OF b1(2)] by blast
  have all: "bloom_all b2 [0..<10000] = Inr True" by (rule bloom_all_True [OF b2(2)]) blast
  obtain fp where fp: "0 \<le> fp" "fp \<le> 100000" "each (\<lambda>i n. and_then (bf_Has (numbered ''nonexistent_'' i) b2) (\<lambda>found. Inr (if found then n + 1 else n)))
      [0..<100000] (0 :: int) = Inr fp"
    using bloom_count [OF b2(2), of "[0..<100000]" "numbered ''nonexistent_''" 0] unfolding length_upt by auto
  have b2s: "bf_bitSize b2 = m" "bf_hashCount b2 = k" "length (bf_bits b2) = (unat m + 7) div 8" "bf_inv b2"
    using b2(2) by (auto simp: bf_sim_def bf_inv_def)
  have len: "length taken_names = 10" by (simp add: taken_names_def)
  have "bloom_main = operation 105 [] (Inr ([(107, []), (108, []), (111, [SInt 1000000]), (112, []), (113, [SInt (uint m)]), (114, [SInt (uint k)]), (116, [])] @
       map (\<lambda>name. (120, [SStr name])) taken_names @
       [(122, [SInt 10]), (124, []), (125, [SBool True]), (126, [SBool True]), (127, [SBool c]), (128, [SBool z]),
        (130, []), (136, [SWall]), (138, []), (146, [SBool True]), (148, []),
        (156, [SInt fp, SReal (real_of_int fp / 100000 * 100)]), (158, []),
        (159, [SReal (bf_EstimatedFalsePositiveRate 10010 b2 * 100)]), (160, [SInt (int ((unat m + 7) div 8))]),
        (161, [SInt (uint k)])]))"
    unfolding bloom_main_def Let_def bf(1) and_then_simps b1(1) prod.case h b2(1) all fp(3) b2s(1-3) len m_def [symmetric] k_def [symmetric]
    by (simp only: of_nat_numeral)
  with fp(1,2) b2s show ?thesis by blast
qed

end
