(* ===== verification/Demo_Skip_List.thy ===== *)
theory Demo_Skip_List
  imports Demo_Log Skip_List
begin

text \<open>
  The \<open>main\<close> function of \<open>src/05\<close>. The order \<open>ks\<close> in which the records are inserted is that of a loop over a map, the
  random draws are the sequence \<open>rnd\<close>; only the number of levels that is logged at the end depends on them.
\<close>

definition skip_records :: "(int, string) gomap" where
  "skip_records = fmap_of_list [(3, ''User: Charlie (id=3)''), (1, ''User: Alice (id=1)''), (5, ''User: Eve (id=5)''),
     (2, ''User: Bob (id=2)''), (4, ''User: Diana (id=4)''), (10, ''User: Jack (id=10)''),
     (7, ''User: Grace (id=7)''), (100, ''User: Zack (id=100)'')]"

definition skip_updated :: string where
  "skip_updated = ''User: Charlie (id=3) '' @ dash @ '' UPDATED EMAIL''"

definition skip_main :: "int list \<Rightarrow> (nat \<Rightarrow> real) \<Rightarrow> log outcome" where
  "skip_main ks rnd = operation 147 [] (
     let list = NewSkipList '''' rnd 16 0.5 in
     and_then (each_log (\<lambda>k list. let v = gm_get '''' skip_records k in
       and_then (sk_Insert k v list) (\<lambda>list. Inr ([(167, [SInt k, SStr v])], list))) ks list) (\<lambda>(l167, list).
     and_then (sk_Search 2 list) (\<lambda>r172.
     and_then (sk_Search 7 list) (\<lambda>r177.
     and_then (sk_Search 99 list) (\<lambda>r180.
     and_then (sk_Insert 3 skip_updated list) (\<lambda>list.
     and_then (sk_Search 3 list) (\<lambda>r186.
     and_then (sk_Delete 10 list) (\<lambda>(_, list).
     and_then (sk_Search 10 list) (\<lambda>r192.
     and_then (each (\<lambda>i. sk_Insert (int i) (numbered ''record_'' i)) [200..<5000] list) (\<lambda>list.
     and_then (each (\<lambda>i found. and_then (sk_Search (100 + int i) list) (\<lambda>r.
       Inr (if r \<noteq> None then found + 1 else found))) [0..<2000] 0) (\<lambda>found.
     Inr ([(149, []), (151, [SInt 16]), (152, [SReal 0.5]), (154, [])] @ l167 @
       [(169, [SInt (int (gm_len skip_records))]), (171, [])] @
       [case r172 of Some v \<Rightarrow> (173, [SStr v]) | None \<Rightarrow> (175, [])] @
       (case r177 of Some v \<Rightarrow> [(178, [SStr v])] | None \<Rightarrow> []) @
       (case r180 of Some _ \<Rightarrow> [] | None \<Rightarrow> [(181, [])]) @ [(184, [])] @
       (case r186 of Some v \<Rightarrow> [(187, [SStr v])] | None \<Rightarrow> []) @ [(190, [])] @
       (case r192 of Some _ \<Rightarrow> [] | None \<Rightarrow> [(193, [])]) @
       [(196, []), (201, [SWall]), (203, []), (212, [SInt 2000, SInt found, SWall]), (214, []),
        (215, [SInt (int (sk_level list) + 1)]), (216, [])]))))))))))))"

definition sk_sim :: "'v skip_list \<Rightarrow> (int \<rightharpoonup> 'v) \<Rightarrow> bool" where
  "sk_sim s m \<longleftrightarrow> sk_inv s \<and> sk_read s = m"

lemma sk_sim_New: "sk_sim (NewSkipList zero rnd n p) Map.empty"
  using sk_New_ok [of zero rnd n p] by (auto simp: sk_sim_def sk_inv_def)

lemma sk_sim_Insert: "sk_sim s m \<Longrightarrow> \<exists>s'. sk_Insert k v s = Inr s' \<and> sk_sim s' (m(k \<mapsto> v))"
  using sk.set_law [of s k v] by (auto simp: sk_sim_def)

lemma sk_sim_Delete:
  assumes "sk_sim s m"
  shows "\<exists>s'. sk_Delete k s = Inr (m k \<noteq> None, s') \<and> sk_sim s' (m(k := None))"
proof -
  obtain as where r: "sk_repr s as" "sk_map (sk_Heap s) as = m"
    using assms sk_read_eq by (fastforce simp: sk_sim_def sk_inv_def)
  show ?thesis
    by (rule sk_Delete_ok [OF r(1), of k]) (use r(2) sk_read_eq in \<open>fastforce simp: sk_sim_def sk_inv_def\<close>)
qed

lemma sk_sim_Search: "sk_sim s m \<Longrightarrow> sk_Search k s = Inr (m k)"
  by (auto simp: sk_sim_def sk_Search_read)

lemma sk_Insert_then:
  "sk_sim s m \<Longrightarrow> (\<And>s'. sk_sim s' (m(k \<mapsto> v)) \<Longrightarrow> f s' = r) \<Longrightarrow> and_then (sk_Insert k v s) f = r"
  using sk_sim_Insert [of s m k v] by auto

lemma sk_Delete_then:
  "sk_sim s m \<Longrightarrow> (\<And>s'. sk_sim s' (m(k := None)) \<Longrightarrow> g (m k \<noteq> None) s' = r) \<Longrightarrow> and_then (sk_Delete k s) (\<lambda>(d, s'). g d s') = r"
  using sk_sim_Delete [of s m k] by auto

lemma sk_Search_then: "sk_sim s m \<Longrightarrow> f (m k) = r \<Longrightarrow> and_then (sk_Search k s) f = r"
  by (simp add: sk_sim_Search)

lemma skip_load:
  assumes "sk_sim s m"
  shows "\<exists>s'. each_log (\<lambda>k list. let v = gm_get z recs k in and_then (sk_Insert k v list) (\<lambda>list. Inr ([(n, [SInt k, SStr v])], list))) ks s =
      Inr (map (\<lambda>k. (n, [SInt k, SStr (gm_get z recs k)])) ks, s') \<and>
    sk_sim s' (m ++ (\<lambda>k. if k \<in> set ks then Some (gm_get z recs k) else None))"
  using assms
proof (induction ks arbitrary: s m)
  case Nil
  then show ?case by (simp add: map_add_def)
next
  case (Cons k ks)
  obtain s1 where s1: "sk_Insert k (gm_get z recs k) s = Inr s1" "sk_sim s1 (m(k \<mapsto> gm_get z recs k))"
    using sk_sim_Insert [OF Cons.prems] by metis
  have "m(k \<mapsto> gm_get z recs k) ++ (\<lambda>k. if k \<in> set ks then Some (gm_get z recs k) else None) =
      m ++ (\<lambda>j. if j \<in> set (k # ks) then Some (gm_get z recs j) else None)"
    by (auto simp: fun_eq_iff map_add_def)
  then show ?case using Cons.IH [OF s1(2)] s1(1) by (auto simp: Let_def simp del: fun_upd_apply)
qed

text \<open>A loop that counts the keys found.\<close>

lemma skip_count:
  assumes "sk_sim s m"
  shows "each (\<lambda>i found. and_then (sk_Search (100 + int i) s) (\<lambda>r. Inr (if r \<noteq> None then found + 1 else found))) is n =
    Inr (n + int (length (filter (\<lambda>i. m (100 + int i) \<noteq> None) is)))"
  by (induction "is" arbitrary: n) (simp_all add: sk_sim_Search [OF assms])

lemma skip_fill:
  assumes "sk_sim s m"
  shows "\<exists>s'. each (\<lambda>i. sk_Insert (int i) (g i)) is s = Inr s' \<and>
    sk_sim s' (m ++ (\<lambda>k. if k \<in> int ` set is then Some (g (nat k)) else None))"
  using assms
proof (induction "is" arbitrary: s m)
  case Nil
  then show ?case by (simp add: map_add_def)
next
  case (Cons i "is")
  obtain s1 where s1: "sk_Insert (int i) (g i) s = Inr s1" "sk_sim s1 (m(int i \<mapsto> g i))"
    using sk_sim_Insert [OF Cons.prems] by metis
  have "m(int i \<mapsto> g i) ++ (\<lambda>k. if k \<in> int ` set is then Some (g (nat k)) else None) =
      m ++ (\<lambda>k. if k \<in> int ` set (i # is) then Some (g (nat k)) else None)"
    by (auto simp: fun_eq_iff map_add_def)
  then show ?case using Cons.IH [OF s1(2)] s1(1) by (auto simp del: fun_upd_apply)
qed

lemma skip_main_logs:
  assumes "enumerates ks skip_records"
  shows "\<exists>levels. skip_main ks rnd = operation 147 [] (Inr ([(149, []), (151, [SInt 16]), (152, [SReal 0.5]), (154, [])] @
     map (\<lambda>k. (167, [SInt k, SStr (gm_get '''' skip_records k)])) ks @
     [(169, [SInt 8]), (171, []), (173, [SStr ''User: Bob (id=2)'']), (178, [SStr ''User: Grace (id=7)'']), (181, []), (184, []),
      (187, [SStr skip_updated]), (190, []), (193, []), (196, []), (201, [SWall]), (203, []),
      (212, [SInt 2000, SInt 1901, SWall]), (214, []), (215, [SInt levels]), (216, [])]))"
proof -
  define m0 where "m0 = (\<lambda>k. if k \<in> set ks then Some (gm_get '''' skip_records k) else None)"
  have ks: "set ks = {3, 1, 5, 2, 4, 10, 7, 100}"
    using assms by (simp add: enumerates_def skip_records_def)
  have len: "gm_len skip_records = 8" by (simp add: gm_len_def skip_records_def fcard_finsert_if)
  obtain s0 where s0: "each_log (\<lambda>k list. let v = gm_get '''' skip_records k in and_then (sk_Insert k v list)
       (\<lambda>list. Inr ([(167, [SInt k, SStr v])], list))) ks (NewSkipList '''' rnd 16 0.5) =
      Inr (map (\<lambda>k. (167, [SInt k, SStr (gm_get '''' skip_records k)])) ks, s0)" "sk_sim s0 m0"
    using skip_load [where z = "''''" and n = 167 and recs = skip_records and ks = ks, OF sk_sim_New [of "''''" rnd 16 "0.5"]] by (auto simp: m0_def)
  have m0: "m0 2 = Some ''User: Bob (id=2)''" "m0 7 = Some ''User: Grace (id=7)''" "m0 99 = None"
    by (simp_all add: m0_def ks skip_records_def gm_get_def)
  obtain s1 where s1: "sk_Insert 3 skip_updated s0 = Inr s1" "sk_sim s1 (m0(3 \<mapsto> skip_updated))"
    using sk_sim_Insert [OF s0(2)] by metis
  obtain s2 where s2: "sk_Delete 10 s1 = Inr ((m0(3 \<mapsto> skip_updated)) 10 \<noteq> None, s2)" "sk_sim s2 (m0(3 \<mapsto> skip_updated, 10 := None))"
    using sk_sim_Delete [OF s1(2)] by metis
  define m3 where "m3 = m0(3 \<mapsto> skip_updated, 10 := None) ++ (\<lambda>k. if k \<in> int ` set [200..<5000] then Some (numbered ''record_'' (nat k)) else None)"
  obtain s3 where s3: "each (\<lambda>i. sk_Insert (int i) (numbered ''record_'' i)) [200..<5000] s2 = Inr s3" "sk_sim s3 m3"
    using skip_fill [OF s2(2), of "numbered ''record_''" "[200..<5000]"] unfolding m3_def by blast
  have nat_image: "100 + int i \<in> int ` {200..<5000} \<longleftrightarrow> 100 \<le> i" if "i < 2000" for i
    using that by (auto simp: image_iff intro: bexI [of _ "100 + i"])
  have m0_at: "m0 (100 + int i) = None \<longleftrightarrow> i \<noteq> 0" for i by (auto simp: m0_def ks)
  have "m3 (100 + int i) \<noteq> None \<longleftrightarrow> i = 0 \<or> 100 \<le> i" if "i < 2000" for i
    using nat_image [OF that] m0_at [of i] unfolding m3_def set_upt by (cases "100 \<le> i") (simp_all add: map_add_def)
  then have "{i. i < 2000 \<and> m3 (100 + int i) \<noteq> None} = {i. i < 2000 \<and> (i = 0 \<or> 100 \<le> i)}" by blast
  also have "\<dots> = insert 0 {100..<2000}" by auto
  finally have found: "length (filter (\<lambda>i. m3 (100 + int i) \<noteq> None) [0..<2000]) = 1901"
    by (simp add: length_filter_conv_card cong: conj_cong)
  show ?thesis
    unfolding skip_main_def Let_def
    by (rule exI [of _ "int (sk_level s3) + 1"], rule operation_cong)
      (simp only: s0(1) [unfolded Let_def] s1(1) s2(1) s3(1) sk_sim_Search [OF s0(2)] sk_sim_Search [OF s1(2)]
        sk_sim_Search [OF s2(2)] skip_count [OF s3(2)] and_then_simps prod.case m0 len found, simp)
qed

end
