(* ===== verification/Demo_Structures.thy ===== *)
theory Demo_Structures
  imports Demo_Log Binary_Heap Trie_Tree Fnv_Hash
begin

text \<open>The \<open>main\<close> functions of \<open>src/06\<close> and \<open>src/07\<close>.\<close>

subsection \<open>Heaps\<close>

text \<open>The loop \<open>for heap.Size() > 0 { job, _ := heap.Extract() ... }\<close>: the jobs in the order of extraction.\<close>

lemma length_bh_Extract: "0 < bh_Size d \<Longrightarrow> length (snd (bh_Extract zero hp d)) < length d"
  by (auto simp: bh_Extract_def bh_Size_def Let_def)

function bh_serve :: "'a \<Rightarrow> 'a prio \<Rightarrow> 'a list \<Rightarrow> 'a list" where
  "bh_serve zero hp d =
     (if 0 < bh_Size d then fst (fst (bh_Extract zero hp d)) # bh_serve zero hp (snd (bh_Extract zero hp d)) else [])"
  by pat_completeness auto
termination
  by (relation "measure (\<lambda>(zero, hp, d). length d)") (auto simp: length_bh_Extract)

declare bh_serve.simps [simp del]

definition heap_main :: "log outcome" where
  "heap_main = operation 111 [] (
     let minHeap = NewBinaryHeap (\<lambda>a b. a < b) [5, 1, 3, 8, 2 :: int];
         (v119, _) = bh_Peek 0 minHeap;
         minHeap = bh_Insert (\<lambda>a b. a < b) 2 minHeap;
         jobs = bh_serve 0 (\<lambda>a b. a < b) minHeap;
         maxHeap = NewBinaryHeap (\<lambda>a b. b < a) [3, 1, 4, 1, 5, 9, 2, 6 :: int];
         (v134, _) = bh_Peek 0 maxHeap;
         priorities = bh_serve 0 (\<lambda>a b. b < a) maxHeap;
         bulkHeap = fold (\<lambda>i. bh_Insert (\<lambda>a b. a < b) (int i mod 1000 + 1)) [0..<10000] (NewBinaryHeap (\<lambda>a b. a < b) []);
         bulkJobs = bh_serve 0 (\<lambda>a b. a < b) bulkHeap
     in Inr ([(113, []), (115, []), (117, []), (119, [SInt v119]), (121, []), (123, [])] @
       map (\<lambda>job. (126, [SInt job])) jobs @
       [(129, []), (134, [SInt v134]), (135, [])] @
       map (\<lambda>job. (138, [SInt job])) priorities @
       [(141, []), (147, [SWall]), (153, [SWall]), (155, []), (156, [])]))"

lemma bh_serve_drain: "bh_serve zero hp d = bh_drain zero hp (length d) d"
proof (induction "length d" arbitrary: d)
  case (Suc n)
  then have d: "bh_Size d = Suc n" by (simp add: bh_Size_def)
  have e: "length (snd (bh_Extract zero hp d)) = n" "snd (fst (bh_Extract zero hp d))"
    using d by (auto simp: bh_Extract_def bh_Size_def Let_def)
  show ?case
    using Suc.hyps(1) [of "snd (bh_Extract zero hp d)"] e d
    by (subst bh_serve.simps) (simp add: bh_Size_def case_prod_beta)
qed (simp add: bh_serve.simps bh_Size_def)

lemma bh_serve_min:
  assumes "bh_heap (\<lambda>a b. a < b) d"
  shows "bh_serve zero (\<lambda>a b. a < b) d = sort (d :: 'a::linorder list)"
  using min_heap.drain_ok [of "\<lambda>x. x" d zero] assms unfolding bh_serve_drain
  by (intro properties_for_sort [symmetric]) (auto simp: not_less)

lemma bh_serve_max:
  assumes "bh_heap (\<lambda>a b. b < a) d"
  shows "bh_serve zero (\<lambda>a b. b < a) d = rev (sort (d :: 'a::linorder list))"
proof -
  have "sort d = rev (bh_serve zero (\<lambda>a b. b < a) d)"
    using max_heap.drain_ok [of "\<lambda>x. x" d zero] assms unfolding bh_serve_drain
    by (intro properties_for_sort) (auto simp: not_less sorted_wrt_rev)
  then show ?thesis by simp
qed

lemma heap_main_logs:
  "heap_main = operation 111 [] (Inr ([(113, []), (115, []), (117, []), (119, [SInt 1]), (121, []), (123, [])] @
     map (\<lambda>job. (126, [SInt job])) [1, 2, 2, 3, 5, 8] @
     [(129, []), (134, [SInt 9]), (135, [])] @
     map (\<lambda>job. (138, [SInt job])) [9, 6, 5, 4, 3, 2, 1, 1] @
     [(141, []), (147, [SWall]), (153, [SWall]), (155, []), (156, [])]))"
proof -
  let ?mn = "\<lambda>a b :: int. a < b" and ?mx = "\<lambda>a b :: int. b < a"
  let ?d = "NewBinaryHeap ?mn [5, 1, 3, 8, 2]" and ?e = "NewBinaryHeap ?mx [3, 1, 4, 1, 5, 9, 2, 6]"
  have d: "bh_heap ?mn ?d" "bh_heap ?mx ?e"
    by (rule min_heap.NewBinaryHeap_heap max_heap.NewBinaryHeap_heap)+
  have m: "mset ?d = mset [5, 1, 3, 8, 2]" "mset ?e = mset [3, 1, 4, 1, 5, 9, 2, 6]"
    by (rule mset_NewBinaryHeap)+
  then have ne: "?d \<noteq> []" "?e \<noteq> []" by (metis list.distinct(1) mset_zero_iff)+
  have p: "bh_Peek 0 ?d = (1, True)" "bh_Peek 0 ?e = (9, True)"
    using min_heap.Peek_heap [OF d(1) ne(1)] max_heap.Peek_heap [OF d(2) ne(2)] unfolding m by auto
  have "mset (bh_Insert ?mn 2 ?d) = mset [5, 1, 3, 8, 2, 2]"
    using min_heap.Insert_heap(2) [OF d(1), of 2] m(1) by simp
  then have "sort (bh_Insert ?mn 2 ?d) = [1, 2, 2, 3, 5, 8]" by (intro properties_for_sort) simp_all
  then have s: "bh_serve 0 ?mn (bh_Insert ?mn 2 ?d) = [1, 2, 2, 3, 5, 8]"
    using bh_serve_min [OF min_heap.Insert_heap(1) [OF d(1)]] by simp
  have "sort ?e = [1, 1, 2, 3, 4, 5, 6, 9]"
    using m(2) by (intro properties_for_sort) simp_all
  then have t: "bh_serve 0 ?mx ?e = [9, 6, 5, 4, 3, 2, 1, 1]" using bh_serve_max [OF d(2)] by simp
  show ?thesis unfolding heap_main_def Let_def p prod.case s t by (rule refl)
qed

subsection \<open>Tries\<close>

text \<open>
  The words are ASCII, so their runes are their bytes. \<open>ks\<close> is the order of the loop over the commands, \<open>order\<close> that of the loops over
  the children of a node.
\<close>

definition rune_list :: "string \<Rightarrow> runes" where
  "rune_list s = map of_char s"

definition word_of :: "runes \<Rightarrow> string" where
  "word_of w = map (\<lambda>r. char_of (unat r)) w"

definition commands :: "(string, string) gomap" where
  "commands = fmap_of_list
     [(''system'', ''system '' @ dash @ '' display system information''),
      (''syscall'', ''syscall '' @ dash @ '' invoke a system call''),
      (''syslog'', ''syslog '' @ dash @ '' view system log entries''),
      (''sync'', ''sync '' @ dash @ '' synchronize cached writes to disk''),
      (''syntax'', ''syntax '' @ dash @ '' check file syntax''),
      (''sysctl'', ''sysctl '' @ dash @ '' configure kernel parameters''),
      (''systemd'', ''systemd '' @ dash @ '' system and service manager''),
      (''sysstat'', ''sysstat '' @ dash @ '' system performance monitoring''),
      (''container'', ''container '' @ dash @ '' manage container runtimes''),
      (''config'', ''config '' @ dash @ '' manage configuration files''),
      (''compile'', ''compile '' @ dash @ '' build from source'')]"

definition trie_main :: "string list \<Rightarrow> ((rune, trie_node) fmap \<Rightarrow> rune list) \<Rightarrow> log outcome" where
  "trie_main ks order = operation 146 [] (
     let trie = fold (\<lambda>word. tr_Insert (rune_list word) (gm_get '''' commands word)) ks NewTrie;
         matches = tr_WordsWithPrefix order (rune_list ''sys'') trie;
         conMatches = tr_WordsWithPrefix order (rune_list ''con'') trie;
         trie2 = snd (tr_Delete (rune_list ''syslog'') trie);
         trie3 = fold (\<lambda>i. tr_Insert (rune_list (numbered ''/usr/local/bin/tool_'' i)) (''path_'' @ decimal i @ ''_desc'')) [0..<5000] trie2;
         prefixMatches = tr_WordsWithPrefix order (rune_list ''/usr/local'') trie3
     in Inr ([(148, []), (152, []), (169, [SInt (int (gm_len commands))]), (171, [])] @
       (case tr_Search (rune_list ''system'') trie of (v, ok) \<Rightarrow> if ok then [(173, [SStr v])] else []) @
       (case tr_Search (rune_list ''syscall'') trie of (v, ok) \<Rightarrow> if ok then [(176, [SStr v])] else []) @
       (case tr_Search (rune_list ''nonexistent'') trie of (_, ok) \<Rightarrow> if \<not> ok then [(179, [])] else []) @
       [(182, []), (184, [SList (map (SStr \<circ> word_of) matches)]), (186, []),
        (187, [SBool (tr_StartsWith (rune_list ''con'') trie)]), (189, [SList (map (SStr \<circ> word_of) conMatches)]), (191, [])] @
       (case tr_Search (rune_list ''syslog'') trie2 of (_, ok) \<Rightarrow> if \<not> ok then [(194, [])] else []) @
       [(196, [SList (map (SStr \<circ> word_of) (tr_WordsWithPrefix order (rune_list ''sys'') trie2))]), (198, []),
        (204, [SWall]), (208, [SInt (int (length prefixMatches)), SWall]), (210, []), (211, [])]))"

lemma word_of_runes [simp]: "word_of (rune_list s) = s"
  by (simp add: word_of_def rune_list_def comp_def unat_of_char)

lemma rune_list_inj: "rune_list s = rune_list t \<longleftrightarrow> s = t"
  by (metis word_of_runes)

lemma rune_list_append: "rune_list (s @ t) = rune_list s @ rune_list t"
  by (simp add: rune_list_def)

definition tr_sim :: "trie_node \<Rightarrow> (string \<rightharpoonup> string) \<Rightarrow> bool" where
  "tr_sim t m \<longleftrightarrow> tr_pruned t \<and> tr_lookup t = (\<lambda>w. if w \<in> range rune_list then m (word_of w) else None)"

lemma tr_sim_New: "tr_sim NewTrie Map.empty"
  by (simp add: tr_sim_def tr_New_ok)

lemma tr_sim_Insert: "tr_sim t m \<Longrightarrow> tr_sim (tr_Insert (rune_list w) v t) (m(w \<mapsto> v))"
  by (auto simp: tr_sim_def tr_Insert_pruned tr_Insert_lookup fun_eq_iff)

lemma tr_sim_Delete: "tr_sim t m \<Longrightarrow> tr_sim (snd (tr_Delete (rune_list w) t)) (m(w := None))"
  by (auto simp: tr_sim_def tr_Delete_ok fun_eq_iff)

lemma tr_sim_at:
  assumes "tr_sim t m"
  shows "tr_lookup t (rune_list p @ w) \<noteq> None \<longleftrightarrow> (\<exists>s. w = rune_list s \<and> m (p @ s) \<noteq> None)"
proof
  assume "tr_lookup t (rune_list p @ w) \<noteq> None"
  then obtain q where q: "rune_list p @ w = rune_list q" "m q \<noteq> None"
    using assms by (auto simp: tr_sim_def split: if_splits)
  then have "rune_list p = rune_list (take (length p) q)" "w = rune_list (drop (length p) q)"
    unfolding rune_list_def by (metis append_eq_conv_conj length_map take_map drop_map)+
  then have "w = rune_list (drop (length p) q)" "q = p @ drop (length p) q"
    by (simp_all add: rune_list_inj) (metis append_take_drop_id)
  then show "\<exists>s. w = rune_list s \<and> m (p @ s) \<noteq> None" using q(2) by metis
next
  assume "\<exists>s. w = rune_list s \<and> m (p @ s) \<noteq> None"
  then obtain s where s: "w = rune_list s" "m (p @ s) \<noteq> None" by blast
  have "rune_list p @ w \<in> range rune_list" "word_of (rune_list p @ w) = p @ s"
    unfolding s(1) rune_list_append [symmetric] by simp_all
  then show "tr_lookup t (rune_list p @ w) \<noteq> None" using assms s(2) by (simp add: tr_sim_def)
qed

lemma tr_sim_Search: "tr_sim t m \<Longrightarrow> tr_Search (rune_list w) t = (case m w of None \<Rightarrow> ('''', False) | Some v \<Rightarrow> (v, True))"
proof -
  assume "tr_sim t m"
  then have "tr_lookup t (rune_list w) = m w" by (simp add: tr_sim_def)
  then show ?thesis by (cases "m w") (auto simp: tr_Search_def tr_lookup_def split: option.splits if_splits)
qed

lemma tr_sim_StartsWith:
  "tr_sim t m \<Longrightarrow> tr_StartsWith (rune_list p) t \<longleftrightarrow> p = [] \<or> (\<exists>s. m (p @ s) \<noteq> None)"
  using tr_sim_at [of t m p] tr_StartsWith_ok [of t "rune_list p"] by (auto simp: tr_sim_def rune_list_def)

lemma tr_sim_words:
  assumes "tr_sim t m" "\<And>m. enumerates (order m) m"
  shows "distinct (map word_of (tr_WordsWithPrefix order (rune_list p) t))"
    "set (map word_of (tr_WordsWithPrefix order (rune_list p) t)) = {p @ w | w. m (p @ w) \<noteq> None}"
proof -
  have ws: "set (tr_WordsWithPrefix order (rune_list p) t) = {rune_list (p @ s) | s. m (p @ s) \<noteq> None}"
    unfolding tr_WordsWithPrefix_ok(1) [OF assms(2)] tr_sim_at [OF assms(1)] rune_list_append by blast
  then have "inj_on word_of (set (tr_WordsWithPrefix order (rune_list p) t))"
    by (intro inj_onI) auto
  then show "distinct (map word_of (tr_WordsWithPrefix order (rune_list p) t))"
    using tr_WordsWithPrefix_ok(2) [OF assms(2)] by (simp add: distinct_map)
  show "set (map word_of (tr_WordsWithPrefix order (rune_list p) t)) = {p @ w | w. m (p @ w) \<noteq> None}"
    unfolding set_map ws by force
qed

lemma tr_sim_fold:
  assumes "tr_sim t m"
  shows "tr_sim (fold (\<lambda>x. tr_Insert (rune_list (f x)) (g x)) xs t) (m ++ map_of (rev (map (\<lambda>x. (f x, g x)) xs)))"
  using assms
proof (induction xs arbitrary: t m)
  case (Cons x xs)
  have "m(f x \<mapsto> g x) ++ map_of (rev (map (\<lambda>x. (f x, g x)) xs)) = m ++ map_of (rev (map (\<lambda>x. (f x, g x)) (x # xs)))"
    by (simp add: map_add_def fun_eq_iff split: option.split)
  then show ?case using Cons.IH [OF tr_sim_Insert [OF Cons.prems, of "f x" "g x"]] by (simp del: fun_upd_apply)
qed simp

lemma words_filter:
  fixes m :: "string \<rightharpoonup> string"
  assumes "dom m = set xs"
  shows "{p @ w | w. m (p @ w) \<noteq> None} = set (filter (\<lambda>k. take (length p) k = p) xs)"
proof (rule set_eqI)
  fix k
  have "(\<exists>w. k = p @ w) \<longleftrightarrow> take (length p) k = p" by (metis append_eq_conv_conj)
  moreover have "m k \<noteq> None \<longleftrightarrow> k \<in> set xs" using assms by (metis domIff)
  ultimately show "k \<in> {p @ w | w. m (p @ w) \<noteq> None} \<longleftrightarrow> k \<in> set (filter (\<lambda>k. take (length p) k = p) xs)"
    by auto
qed

lemma map_of_range:
  assumes "enumerates ks m"
  shows "map_of (rev (map (\<lambda>k. (k, gm_get z m k)) ks)) = fmlookup m"
  unfolding rev_map map_of_map_restrict
  using enumerates_iff [OF assms] by (auto simp: restrict_map_def gm_get_def fun_eq_iff split: option.splits)

text \<open>The suggestions, in some order, are the words with the prefix that are stored.\<close>

lemma trie_main_logs:
  assumes "enumerates ks commands" "\<And>m. enumerates (order m) m"
  shows "\<exists>sys con sys2. distinct sys \<and> set sys = {''system'', ''syscall'', ''syslog'', ''sysctl'', ''systemd'', ''sysstat''} \<and>
     distinct con \<and> set con = {''container'', ''config''} \<and>
     distinct sys2 \<and> set sys2 = {''system'', ''syscall'', ''sysctl'', ''systemd'', ''sysstat''} \<and>
     trie_main ks order = operation 146 [] (Inr [(148, []), (152, []), (169, [SInt 11]), (171, []),
       (173, [SStr (''system '' @ dash @ '' display system information'')]),
       (176, [SStr (''syscall '' @ dash @ '' invoke a system call'')]), (179, []), (182, []), (184, [SList (map SStr sys)]),
       (186, []), (187, [SBool True]), (189, [SList (map SStr con)]), (191, []), (194, []), (196, [SList (map SStr sys2)]),
       (198, []), (204, [SWall]), (208, [SInt 5000, SWall]), (210, []), (211, [])])"
proof -
  define t where "t = fold (\<lambda>word. tr_Insert (rune_list word) (gm_get '''' commands word)) ks NewTrie"
  let ?names = "[''system'', ''syscall'', ''syslog'', ''sync'', ''syntax'', ''sysctl'', ''systemd'', ''sysstat'',
      ''container'', ''config'', ''compile'']"
  have dom: "dom (fmlookup commands) = set ?names" by (simp add: commands_def fmlookup_of_list)
  have ks: "distinct ks" "set ks = set ?names" using assms(1) dom by (simp_all add: enumerates_def fmdom.rep_eq)
  have "tr_sim t (map_of (rev (map (\<lambda>w. (w, gm_get '''' commands w)) ks)))"
    unfolding t_def using tr_sim_fold [OF tr_sim_New, of "\<lambda>w. w" "gm_get '''' commands" ks] by simp
  then have t: "tr_sim t (fmlookup commands)" unfolding map_of_range [OF assms(1)] .
  define t2 where "t2 = snd (tr_Delete (rune_list ''syslog'') t)"
  have t2: "tr_sim t2 ((fmlookup commands)(''syslog'' := None))" unfolding t2_def by (rule tr_sim_Delete [OF t])
  define t3 where "t3 = fold (\<lambda>i. tr_Insert (rune_list (numbered ''/usr/local/bin/tool_'' i)) (''path_'' @ decimal i @ ''_desc'')) [0..<5000] t2"
  define m3 where "m3 = (fmlookup commands)(''syslog'' := None) ++
    map_of (rev (map (\<lambda>i. (numbered ''/usr/local/bin/tool_'' i, ''path_'' @ decimal i @ ''_desc'')) [0..<5000]))"
  have t3: "tr_sim t3 m3" unfolding t3_def m3_def by (rule tr_sim_fold [OF t2])
  have sys: "{''sys'' @ w | w. fmlookup commands (''sys'' @ w) \<noteq> None} = {''system'', ''syscall'', ''syslog'', ''sysctl'', ''systemd'', ''sysstat''}"
    unfolding words_filter [OF dom] by simp
  have con: "{''con'' @ w | w. fmlookup commands (''con'' @ w) \<noteq> None} = {''container'', ''config''}"
    unfolding words_filter [OF dom] by simp
  have dom2: "dom ((fmlookup commands)(''syslog'' := None)) = set (filter (\<lambda>k. k \<noteq> ''syslog'') ?names)"
    unfolding dom_fun_upd dom by auto
  have sys2: "{''sys'' @ w | w. ((fmlookup commands)(''syslog'' := None)) (''sys'' @ w) \<noteq> None} =
      {''system'', ''syscall'', ''sysctl'', ''systemd'', ''sysstat''}"
    unfolding words_filter [OF dom2] by simp
  have dom3: "dom m3 = set (filter (\<lambda>k. k \<noteq> ''syslog'') ?names @ map (numbered ''/usr/local/bin/tool_'') [0..<5000])"
    unfolding m3_def dom_map_add dom2 by (auto simp: dom_map_of_conv_image_fst image_image)
  have "card {''/usr/local'' @ w | w. m3 (''/usr/local'' @ w) \<noteq> None} = 5000"
    unfolding words_filter [OF dom3] by (simp add: card_image numbered_inj_on)
  moreover note distinct_card [OF tr_sim_words(1) [OF t3 assms(2), of "''/usr/local''"]]
  ultimately have n: "length (tr_WordsWithPrefix order (rune_list ''/usr/local'') t3) = 5000"
    unfolding tr_sim_words(2) [OF t3 assms(2)] length_map by linarith
  have at: "fmlookup commands ''system'' = Some (''system '' @ dash @ '' display system information'')"
    "fmlookup commands ''syscall'' = Some (''syscall '' @ dash @ '' invoke a system call'')" "fmlookup commands ''nonexistent'' = None"
    by (simp_all add: commands_def fmlookup_of_list)
  have "gm_len commands = length ks" using enumerates_length [OF assms(1)] by simp
  also have "\<dots> = 11" using distinct_card [OF ks(1)] unfolding ks(2) by simp
  finally have len: "gm_len commands = 11" .
  have "''container'' \<in> {''con'' @ w | w. fmlookup commands (''con'' @ w) \<noteq> None}" unfolding con by simp
  then have st: "tr_StartsWith (rune_list ''con'') t" unfolding tr_sim_StartsWith [OF t] by blast
  show ?thesis
  proof (intro exI conjI)
    show "trie_main ks order = operation 146 [] (Inr [(148, []), (152, []), (169, [SInt 11]), (171, []),
       (173, [SStr (''system '' @ dash @ '' display system information'')]),
       (176, [SStr (''syscall '' @ dash @ '' invoke a system call'')]), (179, []), (182, []),
       (184, [SList (map SStr (map word_of (tr_WordsWithPrefix order (rune_list ''sys'') t)))]), (186, []), (187, [SBool True]),
       (189, [SList (map SStr (map word_of (tr_WordsWithPrefix order (rune_list ''con'') t)))]), (191, []), (194, []),
       (196, [SList (map SStr (map word_of (tr_WordsWithPrefix order (rune_list ''sys'') t2)))]),
       (198, []), (204, [SWall]), (208, [SInt 5000, SWall]), (210, []), (211, [])])"
      unfolding trie_main_def Let_def t_def [symmetric] t2_def [symmetric] t3_def [symmetric] n len
        tr_sim_Search [OF t] tr_sim_Search [OF t2] at map_map by (simp add: st)
  qed (use tr_sim_words [OF t assms(2)] tr_sim_words [OF t2 assms(2)] in \<open>simp_all only: sys con sys2\<close>)
qed

end
