(* ===== verification/Demo_Ring.thy ===== *)
theory Demo_Ring
  imports Demo_Log Hash_Ring
begin

text \<open>
  The \<open>main\<close> function of \<open>src/08\<close>. The sort is an argument, as in \<open>Hash_Ring\<close>, and so is the order \<open>ord\<close> of the
  loops over the maps of counts, given by the line of the loop.
\<close>

definition ring_key :: "nat \<Rightarrow> string" where
  "ring_key i = ''user:'' @ decimal i @ '':data''"

definition ring_count :: "hash_ring \<Rightarrow> nat list \<Rightarrow> (string, int) gomap" where
  "ring_count ring is = fold (\<lambda>i d. let (node, _) = hr_GetNode (ring_key i) ring in fmupd node (gm_get 0 d node + 1) d) is fmempty"

text \<open>The second count also looks at both ends of the ring, without using them.\<close>

fun ring_recount :: "hash_ring \<Rightarrow> nat list \<Rightarrow> (string, int) gomap \<Rightarrow> (string, int) gomap outcome" where
  "ring_recount ring [] d = Inr d"
| "ring_recount ring (i # is) d = (let (node, _) = hr_GetNode (ring_key i) ring; d = fmupd node (gm_get 0 d node + 1) d in
     if hr_ring ring = [] then Inl IndexOutOfRange else ring_recount ring is d)"

definition ring_shares :: "nat \<Rightarrow> string list \<Rightarrow> (string, int) gomap \<Rightarrow> log" where
  "ring_shares line ks d = map (\<lambda>node. let count = gm_get 0 d node in
     (line, [SStr node, SInt count, SReal (real_of_int count / 10000 * 100)])) ks"

definition ring_test_keys :: "string list" where
  "ring_test_keys = [''user:42:session'', ''user:17:profile'', ''user:99:cart'', ''user:1:settings'', ''user:55:history'', ''user:23:prefs'']"

definition ring_main :: "(ring_point list \<Rightarrow> ring_point list) \<Rightarrow> (nat \<Rightarrow> (string, int) gomap \<Rightarrow> string list) \<Rightarrow> log outcome" where
  "ring_main srt ord = operation 105 [] (
     let ring = NewConsistentHashRing 50;
         ring = hr_AddNode srt ''cache-node-a'' ring;
         ring = hr_AddNode srt ''cache-node-b'' ring;
         ring1 = hr_AddNode srt ''cache-node-c'' ring;
         distribution = ring_count ring1 [0..<10000];
         ring2 = hr_RemoveNode ''cache-node-b'' ring1 in
     and_then (ring_recount ring2 [0..<10000] fmempty) (\<lambda>redistribution.
     let originalNodes = [''cache-node-a'', ''cache-node-c''];
         stayed = fold (\<lambda>i stayed. let (node, _) = hr_GetNode (ring_key i) ring2 in
           if node \<in> set originalNodes then stayed + 1 else stayed) [0..<10000] 0;
         ring3 = hr_AddNode srt ''cache-node-d'' ring2;
         newDist = ring_count ring3 [0..<10000]
     in Inr ([(107, []), (109, [SInt 50]), (111, []), (113, []), (115, []), (117, []), (119, [])] @
       map (\<lambda>key. let (node, _) = hr_GetNode key ring1 in (126, [SStr key, SStr node])) ring_test_keys @
       [(129, []), (136, [SWall])] @ ring_shares 138 (ord 137 distribution) distribution @
       [(141, []), (143, []), (145, []), (171, [])] @ ring_shares 173 (ord 172 redistribution) redistribution @
       [(175, [SInt stayed]), (177, []), (179, []), (185, [])] @ ring_shares 187 (ord 186 newDist) newDist @
       [(190, []), (191, [SInt (int (length (hr_ring ring3))), SInt 3, SInt (int (hr_replicas ring3))]), (193, [])])))"

subsection \<open>What it logs\<close>

lemma hr_replicas_simps [simp]:
  "hr_replicas (hr_AddNode srt n r) = hr_replicas r" "hr_replicas (hr_RemoveNode n r) = hr_replicas r"
  by (simp_all add: hr_AddNode_def hr_RemoveNode_def Let_def)

text \<open>The points of a ring, as a multiset, and where a key goes.\<close>

definition hr_nodes :: "string list \<Rightarrow> hash_ring \<Rightarrow> bool" where
  "hr_nodes ns r \<longleftrightarrow> sorted (map rp_hash (hr_ring r)) \<and> distinct ns \<and> 0 < hr_replicas r \<and>
     mset (hr_ring r) = mset (concat (map (\<lambda>n. map (hr_point n) [0..<hr_replicas r]) ns))"

lemma hr_nodes_New: "0 < k \<Longrightarrow> hr_nodes [] (NewConsistentHashRing k)"
  by (simp add: hr_nodes_def NewConsistentHashRing_def)

lemma hr_nodes_set: "hr_nodes ns r \<Longrightarrow> rp_node ` set (hr_ring r) = set ns"
proof -
  assume r: "hr_nodes ns r"
  then have "set (hr_ring r) = set (concat (map (\<lambda>n. map (hr_point n) [0..<hr_replicas r]) ns))"
    unfolding hr_nodes_def by (metis set_mset_mset)
  moreover have "0 < hr_replicas r" using r by (simp add: hr_nodes_def)
  ultimately show ?thesis by (force simp: image_iff)
qed

lemma hr_nodes_length: "hr_nodes ns r \<Longrightarrow> length (hr_ring r) = hr_replicas r * length ns"
proof -
  assume r: "hr_nodes ns r"
  then have "length (hr_ring r) = length (concat (map (\<lambda>n. map (hr_point n) [0..<hr_replicas r]) ns))"
    unfolding hr_nodes_def by (metis size_mset)
  also have "\<dots> = hr_replicas r * length ns" by (induction ns) simp_all
  finally show ?thesis .
qed

lemma hr_nodes_Remove: "hr_nodes ns r \<Longrightarrow> hr_nodes (filter (\<lambda>m. m \<noteq> n) ns) (hr_RemoveNode n r)"
proof -
  assume r: "hr_nodes ns r"
  let ?ps = "\<lambda>ns. concat (map (\<lambda>n. map (hr_point n) [0..<hr_replicas r]) ns)"
  have "filter (\<lambda>p. rp_node p \<noteq> n) (?ps ns) = ?ps (filter (\<lambda>m. m \<noteq> n) ns)"
    by (induction ns) (simp_all add: filter_map o_def)
  moreover have "sorted (map rp_hash (filter (\<lambda>p. rp_node p \<noteq> n) (hr_ring r)))"
    using r by (simp add: hr_nodes_def sorted_filter)
  moreover have "mset (filter (\<lambda>p. rp_node p \<noteq> n) (hr_ring r)) = mset (filter (\<lambda>p. rp_node p \<noteq> n) (?ps ns))"
    using r by (simp only: hr_nodes_def mset_filter)
  ultimately show ?thesis
    using r by (simp add: hr_nodes_def hr_RemoveNode_def)
qed

lemma hr_nodes_Add:
  assumes "sorts_by srt rp_hash" "hr_nodes ns r" "n \<notin> set ns"
  shows "hr_nodes (ns @ [n]) (hr_AddNode srt n r)"
proof -
  have "filter (\<lambda>p. rp_node p \<noteq> n) (hr_ring r) = hr_ring r"
    using hr_nodes_set [OF assms(2)] assms(3) by (auto simp: filter_id_conv)
  then have "hr_RemoveNode n r = r" by (simp add: hr_RemoveNode_def)
  then show ?thesis
    using assms sorts_by_mset [OF assms(1)] sorts_by_sorted [OF assms(1)] by (auto simp: hr_nodes_def hr_AddNode_def Let_def)
qed

lemma hr_nodes_Get:
  assumes "hr_nodes ns r" "ns \<noteq> []"
  shows "hr_ring r \<noteq> []" "hr_GetNode k r = (rp_node (hr_successor (hr_hash32 k) (hr_ring r)), True)"
    "fst (hr_GetNode k r) \<in> set ns"
proof -
  show ne: "hr_ring r \<noteq> []" using hr_nodes_set [OF assms(1)] assms(2) by auto
  show get: "hr_GetNode k r = (rp_node (hr_successor (hr_hash32 k) (hr_ring r)), True)"
    using assms(1) ne by (simp add: hr_nodes_def hr_GetNode_successor)
  have "hr_successor (hr_hash32 k) (hr_ring r) \<in> set (hr_ring r)"
    using ne by (auto simp: hr_successor_def find_Some_iff split: option.splits)
  then show "fst (hr_GetNode k r) \<in> set ns" using hr_nodes_set [OF assms(1)] get by auto
qed

lemma hr_nodes_moved:
  assumes "hr_nodes ns r" "ns \<noteq> []" "fst (hr_GetNode k r) \<noteq> n"
  shows "fst (hr_GetNode k (hr_RemoveNode n r)) = fst (hr_GetNode k r)"
proof -
  let ?ps = "filter (\<lambda>p. rp_node p \<noteq> n) (hr_ring r)" and ?h = "hr_hash32 k"
  have "?ps \<noteq> [] \<and> hr_successor ?h ?ps = hr_successor ?h (hr_ring r)"
    using hr_nodes_Get(1,2) [OF assms(1,2)] assms(3) by (intro hr_successor_filter) auto
  moreover have "sorted (map rp_hash ?ps)" using assms(1) by (simp add: hr_nodes_def sorted_filter)
  ultimately show ?thesis
    using hr_nodes_Get(2) [OF assms(1,2), of k] hr_GetNode_successor [of "hr_RemoveNode n r" k] by (simp add: hr_RemoveNode_def)
qed

text \<open>The counts.\<close>

definition ring_tally :: "(string \<Rightarrow> string) \<Rightarrow> (string, int) gomap \<Rightarrow> bool" where
  "ring_tally place d \<longleftrightarrow> (\<forall>n. gm_get 0 d n = int (length (filter (\<lambda>i. place (ring_key i) = n) [0..<10000])))"

lemma ring_fold_count:
  "gm_get 0 (fold (\<lambda>i d. fmupd (f i) (gm_get 0 d (f i) + 1) d) is d) n =
     gm_get 0 d n + int (length (filter (\<lambda>i. f i = n) is))"
  by (induction "is" arbitrary: d) auto

lemma ring_count_tally: "ring_tally (\<lambda>k. fst (hr_GetNode k r)) (ring_count r [0..<10000])"
  unfolding ring_tally_def ring_count_def case_prod_beta Let_def ring_fold_count by simp

lemma ring_recount_count: "hr_ring r \<noteq> [] \<Longrightarrow> ring_recount r is fmempty = Inr (ring_count r is)"
proof -
  assume "hr_ring r \<noteq> []"
  then have "ring_recount r is d =
    Inr (fold (\<lambda>i d. let (node, _) = hr_GetNode (ring_key i) r in fmupd node (gm_get 0 d node + 1) d) is d)" for d
    by (induction "is" arbitrary: d) (simp_all add: case_prod_beta Let_def)
  then show ?thesis by (simp add: ring_count_def)
qed

lemma fold_count_all: "(\<And>i. P i) \<Longrightarrow> fold (\<lambda>i n. if P i then n + 1 else n) is (k::int) = k + int (length is)"
  by (induction "is" arbitrary: k) auto

text \<open>
  Line 175 announces the keys still on their original node; the loop before it counts the keys whose node is
  one of the two that are left, and that is all of them.
\<close>

lemma ring_main_logs:
  fixes srt :: "ring_point list \<Rightarrow> ring_point list"
  assumes "sorts_by srt rp_hash"
  shows "\<exists>at1 at2 at3 d1 d2 d3. ring_main srt ord = operation 105 [] (
     Inr ([(107, []), (109, [SInt 50]), (111, []), (113, []), (115, []), (117, []), (119, [])] @
       map (\<lambda>key. (126, [SStr key, SStr (at1 key)])) ring_test_keys @
       [(129, []), (136, [SWall])] @ ring_shares 138 (ord 137 d1) d1 @
       [(141, []), (143, []), (145, []), (171, [])] @ ring_shares 173 (ord 172 d2) d2 @
       [(175, [SInt 10000]), (177, []), (179, []), (185, [])] @ ring_shares 187 (ord 186 d3) d3 @
       [(190, []), (191, [SInt 150, SInt 3, SInt 50]), (193, [])])) \<and>
     ring_tally at1 d1 \<and> ring_tally at2 d2 \<and> ring_tally at3 d3 \<and>
     (\<forall>k. at1 k \<in> {''cache-node-a'', ''cache-node-b'', ''cache-node-c''} \<and>
          at2 k \<in> {''cache-node-a'', ''cache-node-c''} \<and> (at1 k \<noteq> ''cache-node-b'' \<longrightarrow> at2 k = at1 k) \<and>
          at3 k \<in> {''cache-node-a'', ''cache-node-c'', ''cache-node-d''})"
proof -
  define r1 where "r1 = hr_AddNode srt ''cache-node-c'' (hr_AddNode srt ''cache-node-b'' (hr_AddNode srt ''cache-node-a'' (NewConsistentHashRing 50)))"
  define r2 where "r2 = hr_RemoveNode ''cache-node-b'' r1"
  define r3 where "r3 = hr_AddNode srt ''cache-node-d'' r2"
  have "hr_nodes [] (NewConsistentHashRing 50)" by (simp add: hr_nodes_New)
  from hr_nodes_Add [OF assms this, of "''cache-node-a''"]
  have "hr_nodes [''cache-node-a''] (hr_AddNode srt ''cache-node-a'' (NewConsistentHashRing 50))" by simp
  from hr_nodes_Add [OF assms this, of "''cache-node-b''"]
  have "hr_nodes [''cache-node-a'', ''cache-node-b''] (hr_AddNode srt ''cache-node-b'' (hr_AddNode srt ''cache-node-a'' (NewConsistentHashRing 50)))" by simp
  from hr_nodes_Add [OF assms this, of "''cache-node-c''"]
  have 1: "hr_nodes [''cache-node-a'', ''cache-node-b'', ''cache-node-c''] r1" by (simp add: r1_def)
  have 2: "hr_nodes [''cache-node-a'', ''cache-node-c''] r2"
    using hr_nodes_Remove [OF 1, of "''cache-node-b''"] by (simp add: r2_def)
  have 3: "hr_nodes [''cache-node-a'', ''cache-node-c'', ''cache-node-d''] r3"
    using hr_nodes_Add [OF assms 2, of "''cache-node-d''"] by (simp add: r3_def)
  have rep: "hr_replicas r3 = 50" by (simp add: r3_def r2_def r1_def NewConsistentHashRing_def)
  have stay: "fold (\<lambda>i stayed. let (node, _) = hr_GetNode (ring_key i) r2 in
      if node \<in> set [''cache-node-a'', ''cache-node-c''] then stayed + 1 else stayed) [0..<10000] 0 = (10000::int)"
    unfolding case_prod_beta Let_def using hr_nodes_Get(3) [OF 2] by (subst fold_count_all) (auto simp del: upt_rec_numeral)
  have "ring_main srt ord = operation 105 [] (
     Inr ([(107, []), (109, [SInt 50]), (111, []), (113, []), (115, []), (117, []), (119, [])] @
       map (\<lambda>key. (126, [SStr key, SStr (fst (hr_GetNode key r1))])) ring_test_keys @
       [(129, []), (136, [SWall])] @ ring_shares 138 (ord 137 (ring_count r1 [0..<10000])) (ring_count r1 [0..<10000]) @
       [(141, []), (143, []), (145, []), (171, [])] @ ring_shares 173 (ord 172 (ring_count r2 [0..<10000])) (ring_count r2 [0..<10000]) @
       [(175, [SInt 10000]), (177, []), (179, []), (185, [])] @ ring_shares 187 (ord 186 (ring_count r3 [0..<10000])) (ring_count r3 [0..<10000]) @
       [(190, []), (191, [SInt 150, SInt 3, SInt 50]), (193, [])]))"
    using hr_nodes_length [OF 3] ring_recount_count [OF hr_nodes_Get(1) [OF 2]] stay
    unfolding ring_main_def Let_def r1_def [symmetric] r2_def [symmetric] r3_def [symmetric]
    by (simp add: rep case_prod_beta del: upt_rec_numeral)
  then show ?thesis
    using ring_count_tally hr_nodes_Get(3) [OF 1] hr_nodes_Get(3) [OF 2] hr_nodes_Get(3) [OF 3]
      hr_nodes_moved [OF 1, of _ "''cache-node-b''"]
    unfolding r2_def [symmetric] by (intro exI conjI allI impI) (assumption | rule ring_count_tally | simp)+
qed

end
