(* ===== verification/Demo_Services.thy ===== *)
theory Demo_Services
  imports Demo_Log Rate_Limiter Circuit_Breaker Retry_Backoff Id_Generator
begin

text \<open>
  The \<open>main\<close> functions of \<open>src/09\<close> to \<open>src/12\<close>. \<open>now line i\<close> is the reading of the clock by the call in line
  \<open>line\<close>, in the round \<open>i\<close> of its loop (0 outside of loops), in nanoseconds.
\<close>

subsection \<open>Rate limiter\<close>

definition limiter_call :: "nat \<Rightarrow> nat \<Rightarrow> int \<Rightarrow> nat \<Rightarrow> rate_limiter \<times> nat \<times> nat \<Rightarrow> log \<times> rate_limiter \<times> nat \<times> nat" where
  "limiter_call yes no t i = (\<lambda>(l, passed, rejected). let (ok, l) = rl_Allow t (Fin 1) l in
     if ok then ([(yes, [SInt (int i + 1)])], l, passed + 1, rejected) else ([(no, [SInt (int i + 1)])], l, passed, rejected + 1))"

fun limiter_calls :: "nat \<Rightarrow> nat \<Rightarrow> (nat \<Rightarrow> int) \<Rightarrow> nat list \<Rightarrow> rate_limiter \<times> nat \<times> nat \<Rightarrow> log \<times> rate_limiter \<times> nat \<times> nat" where
  "limiter_calls yes no t [] s = ([], s)"
| "limiter_calls yes no t (i # is) s = (let (l, s) = limiter_call yes no (t i) i s; (l', s) = limiter_calls yes no t is s in (l @ l', s))"

definition limiter_main :: "(nat \<Rightarrow> nat \<Rightarrow> int) \<Rightarrow> log outcome" where
  "limiter_main now = operation 88 [] (
     and_then (NewTokenBucketRateLimiter (now 91 0) 10 (Fin 5)) (\<lambda>limiter.
     let (l100, limiter, passed, rejected) = limiter_calls 102 105 (now 100) [0..<15] (limiter, 0, 0);
         (l116, limiter, _) = limiter_calls 117 119 (now 116) [0..<8] (limiter, 0, 0);
         (v126, limiter) = rl_Allow (now 126 0) (Fin 1) limiter;
         (v127, limiter) = rl_Allow (now 127 0) (Fin 3) limiter;
         (v128, limiter) = rl_Allow (now 128 0) (Fin 5) limiter;
         (v129, limiter) = rl_Allow (now 129 0) (Fin 2) limiter in
     and_then (NewTokenBucketRateLimiter (now 132 0) 20 (Fin 10)) (\<lambda>limiter2.
     let (limiter2, allowed, denied) = snd (limiter_calls 137 137 (now 137) [0..<100] (limiter2, 0, 0))
     in Inr ([(90, []), (92, [SInt 10]), (93, []), (94, []), (96, [])] @ l100 @
       [(108, [SInt (int passed), SInt (int rejected)]), (110, []), (112, []), (114, [])] @ l116 @
       [(123, []), (125, []), (126, [SBool v126]), (127, [SBool v127]), (128, [SBool v128]), (129, [SBool v129]),
        (131, []), (144, [SWall, SInt (int allowed), SInt (int denied)]), (147, []), (148, []), (149, [])]))))"

text \<open>
  A clock on which only the sleeps take time.
\<close>

definition limiter_clock :: "nat \<Rightarrow> nat \<Rightarrow> int" where
  "limiter_clock line i = (if line \<le> 100 then 0 else if line \<le> 116 then 1000000000 else if line \<le> 132 then 3000000000
     else 3000000000 + int i * 50000000)"

text \<open>A limiter whose tokens are a number of halves.\<close>

definition limiter_with :: "int \<Rightarrow> int \<Rightarrow> int \<Rightarrow> int \<Rightarrow> rate_limiter" where
  "limiter_with c r u halves = \<lparr>rl_capacity = Fin (of_int c), rl_tokens = Fin (of_int halves / 2),
     rl_refillPerSecond = Fin (of_int r), rl_lastRefill = u\<rparr>"

lemma f_round_half: "\<bar>n\<bar> \<le> 2 ^ 53 \<Longrightarrow> f_round (of_int n / 2) = Fin (of_int n / 2)"
  using f_round_exact [OF f_exact_power [of n 1]] by simp

text \<open>The tokens that come in: none, some whole ones after whole seconds, half a one after 50 milliseconds.\<close>

lemma limiter_elapsed:
  "rl_Seconds (rl_Sub u u) = Fin 0" "rl_Seconds (rl_Sub 1000000000 0) = Fin 1" "rl_Seconds (rl_Sub 3000000000 1000000000) = Fin 2"
  "\<exists>s. rl_Seconds (rl_Sub (u + 50000000) u) = Fin s \<and> 0 \<le> s \<and> f_mul (Fin s) (Fin 10) = Fin (1 / 2)"
proof -
  show "rl_Seconds (rl_Sub u u) = Fin 0" "rl_Seconds (rl_Sub 1000000000 0) = Fin 1" "rl_Seconds (rl_Sub 3000000000 1000000000) = Fin 2"
    by (simp_all add: rl_Seconds_def rl_Sub_def f_of_int_def signed_divide_int_def signed_modulo_int_def)
  let ?s = "7205759403792794 / 2 ^ 57 :: real"
  have "f_round (1 / 20) = Fin ?s" using f_round_value [of "1 / 20" 57 7205759403792794] by simp
  moreover from this have "f_round ?s = Fin ?s" using f_round_exact f_round_is_exact by blast
  ultimately have "rl_Seconds (rl_Sub (u + 50000000) u) = Fin ?s"
    by (simp add: rl_Seconds_def rl_Sub_def f_of_int_def signed_divide_int_def signed_modulo_int_def)
  moreover have "f_mul (Fin ?s) (Fin 10) = Fin (1 / 2)" using f_round_value [of "?s * 10" 53 "2 ^ 52"] by simp
  ultimately show "\<exists>s. rl_Seconds (rl_Sub (u + 50000000) u) = Fin s \<and> 0 \<le> s \<and> f_mul (Fin s) (Fin 10) = Fin (1 / 2)" by fastforce
qed

text \<open>A call, given the halves that come in.\<close>

lemma limiter_allow:
  assumes "rl_Seconds (rl_Sub t u) = Fin s" "0 \<le> s" "f_mul (Fin s) (Fin (of_int r)) = Fin (of_int g / 2)"
    and "0 \<le> k" "0 \<le> g" "k \<le> 1000" "g \<le> 1000" "0 < c" "c \<le> 1000" "0 < n" "n \<le> 1000"
  shows "rl_Allow t (Fin (of_int n)) (limiter_with c r u k) =
    (if min (2 * c) (k + g) < 2 * n then (False, limiter_with c r t (min (2 * c) (k + g)))
     else (True, limiter_with c r t (min (2 * c) (k + g) - 2 * n)))"
proof -
  have "f_round (of_int k / 2 + of_int g / 2) = Fin (of_int (k + g) / 2)"
    using f_round_half [of "k + g"] assms(4-7) by (simp add: add_divide_distrib)
  then have "rl_mathMin (Fin (of_int c)) (f_add (Fin (of_int k / 2)) (Fin (of_int g / 2))) = Fin (of_int (min (2 * c) (k + g)) / 2)"
    by (auto simp: rl_mathMin_def min_def)
  then have refill: "rl_refill t (limiter_with c r u k) = limiter_with c r t (min (2 * c) (k + g))"
    using assms(1-3) by (simp add: rl_refill_def limiter_with_def Let_def)
  define m where "m = min (2 * c) (k + g)"
  have m: "0 \<le> m" "m \<le> 2000" using assms(4-9) by (simp_all add: m_def)
  have "f_sub (Fin (of_int m / 2)) (Fin (of_int n)) = Fin (of_int (m - 2 * n) / 2)"
    using f_round_half [of "m - 2 * n"] m assms(10,11) by (simp add: f_sub_def diff_divide_distrib)
  then show ?thesis unfolding rl_Allow_def refill m_def [symmetric] using assms(10) by (auto simp: limiter_with_def Let_def)
qed

lemma limiter_calls_fold: "snd (limiter_calls yes no t is s) = fold (\<lambda>i s. snd (limiter_call yes no (t i) i s)) is s"
  by (induction "is" arbitrary: s) (auto simp: case_prod_beta Let_def)

text \<open>Calls at one time.\<close>

lemma limiter_now:
  assumes "0 \<le> k" "k \<le> 20"
  shows "limiter_call yes no u i (limiter_with 10 5 u k, p, q) =
    (if k < 2 then ([(no, [SInt (int i + 1)])], limiter_with 10 5 u k, p, q + 1)
     else ([(yes, [SInt (int i + 1)])], limiter_with 10 5 u (k - 2), p + 1, q))"
  using limiter_allow [where t = u and u = u and n = 1 and c = 10 and k = k and r = 5 and g = 0 and s = 0] assms
  by (simp add: limiter_elapsed(1) limiter_call_def)

lemma limiter_burst:
  "limiter_calls yes no (limiter_clock 100) [0..<15] (limiter_with 10 5 0 20, 0, 0) =
     (map (\<lambda>i. (yes, [SInt i])) [1..10] @ map (\<lambda>i. (no, [SInt i])) [11..15], limiter_with 10 5 0 0, 10, 5)"
  by (simp add: limiter_now limiter_clock_def upto.simps upt_rec)

lemma limiter_refilled:
  "limiter_calls yes no (limiter_clock 116) [0..<8] (limiter_with 10 5 0 0, 0, 0) =
     (map (\<lambda>i. (yes, [SInt i])) [1..5] @ map (\<lambda>i. (no, [SInt i])) [6..8], limiter_with 10 5 1000000000 0, 5, 3)"
proof -
  have "limiter_call yes no 1000000000 0 (limiter_with 10 5 0 0, 0, 0) = ([(yes, [SInt 1])], limiter_with 10 5 1000000000 8, 1, 0)"
    using limiter_allow [OF limiter_elapsed(2), of 5 10 0 10 1] by (simp add: limiter_call_def)
  then show ?thesis by (simp add: limiter_now limiter_clock_def upto.simps upt_rec)
qed

text \<open>The first 39 calls empty the bucket; from then on, every second call finds a token.\<close>

lemma limiter_clock_137: "limiter_clock 137 i = 3000000000 + int i * 50000000"
  by (simp add: limiter_clock_def)

lemma limiter_next:
  assumes "0 \<le> k" "k \<le> 38" "0 < i" "u = limiter_clock 137 (i - 1)"
  shows "snd (limiter_call yes no (limiter_clock 137 i) j (limiter_with 20 10 u k, p, q)) =
    (if k < 1 then (limiter_with 20 10 (limiter_clock 137 i) (k + 1), p, q + 1)
     else (limiter_with 20 10 (limiter_clock 137 i) (k - 1), p + 1, q))"
proof -
  have "int i = int (i - 1) + 1" using assms(3) by simp
  then have t: "limiter_clock 137 i = u + 50000000" unfolding assms(4) limiter_clock_137 by (simp only: algebra_simps)
  obtain s where "rl_Seconds (rl_Sub (u + 50000000) u) = Fin s" "0 \<le> s" "f_mul (Fin s) (Fin (of_int 10)) = Fin (of_int 1 / 2)"
    using limiter_elapsed(4) [of u] by auto
  from limiter_allow [OF this, of k 20 1] assms(1,2) show ?thesis unfolding t by (simp add: limiter_call_def)
qed

lemma limiter_sustained_start:
  "n < 39 \<Longrightarrow> fold (\<lambda>i s. snd (limiter_call yes no (limiter_clock 137 i) i s)) [0..<Suc n] (limiter_with 20 10 (3000000000) 40, 0, 0) =
     (limiter_with 20 10 (limiter_clock 137 n) (38 - int n), Suc n, 0)"
proof (induction n)
  case 0
  have "snd (limiter_call yes no (3000000000) 0 (limiter_with 20 10 (3000000000) 40, 0, 0)) = (limiter_with 20 10 (3000000000) 38, 1, 0)"
    using limiter_allow [OF limiter_elapsed(1), of 10 0 40 20 1] by (simp add: limiter_call_def)
  then show ?case by (simp add: limiter_clock_137)
next
  case (Suc n)
  then show ?case by (simp add: limiter_next)
qed

lemma limiter_sustained_rest:
  "fold (\<lambda>i s. snd (limiter_call yes no (limiter_clock 137 i) i s)) [39..<39 + 2 * n] (limiter_with 20 10 (limiter_clock 137 38) 0, 39, 0) =
     (limiter_with 20 10 (limiter_clock 137 (38 + 2 * n)) 0, 39 + n, n)"
proof (induction n)
  case (Suc n)
  have "[39..<39 + 2 * Suc n] = [39..<39 + 2 * n] @ [Suc (38 + 2 * n), Suc (Suc (38 + 2 * n))]"
    using upt_add_eq_append [of 39 "39 + 2 * n" 2] by (simp add: upt_rec [of "39 + 2 * n"] upt_rec [of "40 + 2 * n"])
  then show ?case using Suc by (simp add: limiter_next del: upt_Suc)
qed simp

lemma limiter_sustained:
  "\<exists>l limiter. limiter_calls yes no (limiter_clock 137) [0..<100] (limiter_with 20 10 (3000000000) 40, 0, 0) = (l, limiter, 69, 31)"
proof -
  let ?f = "\<lambda>i s. snd (limiter_call yes no (limiter_clock 137 i) i s)"
  let ?s = "(limiter_with 20 10 (3000000000) 40, 0, 0)"
  have "[0..<100] = ([0..<Suc 38] @ [39..<39 + 2 * 30]) @ [99]" by (simp add: upt_rec)
  then have "fold ?f [0..<100] ?s = ?f (99) (fold ?f [39..<39 + 2 * 30] (fold ?f [0..<Suc 38] ?s))"
    by (simp only: fold_append o_apply fold.simps id_apply)
  also have "fold ?f [0..<Suc 38] ?s = (limiter_with 20 10 (limiter_clock 137 38) 0, 39, 0)"
    by (subst limiter_sustained_start) simp_all
  also have "fold ?f [39..<39 + 2 * 30] (limiter_with 20 10 (limiter_clock 137 38) 0, 39, 0) =
      (limiter_with 20 10 (limiter_clock 137 98) 0, 69, 30)"
    by (subst limiter_sustained_rest) simp
  also have "?f (99) (limiter_with 20 10 (limiter_clock 137 98) 0, 69, 30) = (limiter_with 20 10 (limiter_clock 137 (99)) 1, 69, 31)"
    by (subst limiter_next) simp_all
  finally have "snd (snd (limiter_calls yes no (limiter_clock 137) [0..<100] ?s)) = (69, 31)" by (simp only: limiter_calls_fold snd_conv)
  then show ?thesis by (metis prod.collapse)
qed

lemma limiter_main_logs:
  "limiter_main limiter_clock = operation 88 [] (Inr (
     [(90, []), (92, [SInt 10]), (93, []), (94, []), (96, [])] @
     map (\<lambda>i. (102, [SInt i])) [1..10] @ map (\<lambda>i. (105, [SInt i])) [11..15] @
     [(108, [SInt 10, SInt 5]), (110, []), (112, []), (114, [])] @
     map (\<lambda>i. (117, [SInt i])) [1..5] @ map (\<lambda>i. (119, [SInt i])) [6..8] @
     [(123, []), (125, []), (126, [SBool True]), (127, [SBool True]), (128, [SBool True]), (129, [SBool False]),
      (131, []), (144, [SWall, SInt 69, SInt 31]), (147, []), (148, []), (149, [])]))"
proof -
  obtain l limiter where s: "limiter_calls 137 137 (limiter_clock 137) [0..<100] (limiter_with 20 10 (3000000000) 40, 0, 0) = (l, limiter, 69, 31)"
    using limiter_sustained by blast
  have n: "NewTokenBucketRateLimiter (limiter_clock 91 0) 10 (Fin 5) = Inr (limiter_with 10 5 0 20)"
    "NewTokenBucketRateLimiter (limiter_clock 132 0) 20 (Fin 10) = Inr (limiter_with 20 10 (3000000000) 40)"
    by (simp_all add: NewTokenBucketRateLimiter_def limiter_clock_def limiter_with_def f_of_int_def)
  have t: "limiter_clock line 0 = 3000000000" if "line \<in> {126, 127, 128, 129}" for line using that by (auto simp: limiter_clock_def)
  have tiers: "rl_Allow (3000000000) (Fin 1) (limiter_with 10 5 1000000000 0) = (True, limiter_with 10 5 (3000000000) 18)"
    "rl_Allow (3000000000) (Fin 3) (limiter_with 10 5 (3000000000) 18) = (True, limiter_with 10 5 (3000000000) 12)"
    "rl_Allow (3000000000) (Fin 5) (limiter_with 10 5 (3000000000) 12) = (True, limiter_with 10 5 (3000000000) 2)"
    "rl_Allow (3000000000) (Fin 2) (limiter_with 10 5 (3000000000) 2) = (False, limiter_with 10 5 (3000000000) 2)"
    using limiter_allow [OF limiter_elapsed(3), of 5 20 0 10 1] limiter_allow [OF limiter_elapsed(1), of 5 0 18 10 3]
      limiter_allow [OF limiter_elapsed(1), of 5 0 12 10 5] limiter_allow [OF limiter_elapsed(1), of 5 0 2 10 2]
    by simp_all
  show ?thesis
    unfolding limiter_main_def n and_then_simps Let_def limiter_burst prod.case limiter_refilled s
    by (simp add: t tiers del: upt_rec_numeral upto_rec_numeral)
qed

subsection \<open>Circuit breaker\<close>

definition show_state :: "circuit_state \<Rightarrow> shown" where
  "show_state st = SStr (case st of CircuitClosed \<Rightarrow> ''closed'' | CircuitOpen \<Rightarrow> ''open'' | CircuitHalfOpen \<Rightarrow> ''half-open'')"

definition show_cb_error :: "string cb_error option \<Rightarrow> shown" where
  "show_cb_error err = (case err of None \<Rightarrow> SNil | Some BreakerIsOpen \<Rightarrow> SErr ''circuit breaker is open'' | Some (OperationFailed e) \<Rightarrow> SErr e)"

text \<open>What the operation logs itself, if it is called.\<close>

definition in_call :: "string cb_error option \<Rightarrow> log \<Rightarrow> log" where
  "in_call err l = (if err = Some BreakerIsOpen then [] else l)"

text \<open>
  A round of one of the four loops: \<open>Execute\<close> in line \<open>le\<close> (its clock is read again, \<open>later\<close>, when the
  operation fails), and the state in line \<open>ls\<close>.
\<close>

definition breaker_round :: "(nat \<Rightarrow> nat \<Rightarrow> int) \<Rightarrow> (nat \<Rightarrow> nat \<Rightarrow> int) \<Rightarrow> nat \<Rightarrow> nat \<Rightarrow> string option \<Rightarrow>
    (nat \<Rightarrow> string cb_error option \<Rightarrow> circuit_state \<Rightarrow> log) \<Rightarrow> bool \<Rightarrow> nat \<Rightarrow> circuit_breaker \<Rightarrow> log \<times> circuit_breaker" where
  "breaker_round now later le ls result out always i cb = (let (err, cb) = cb_Execute (now le i) (later le i) result cb in
     if always \<or> err \<noteq> None then (let (st, cb) = cb_State (now ls i) cb in (out i err st, cb)) else ([], cb))"

fun breaker_rounds :: "(nat \<Rightarrow> circuit_breaker \<Rightarrow> log \<times> circuit_breaker) \<Rightarrow> nat list \<Rightarrow> circuit_breaker \<Rightarrow> log \<times> circuit_breaker" where
  "breaker_rounds f [] cb = ([], cb)"
| "breaker_rounds f (i # is) cb = (let (l, cb) = f i cb; (l', cb) = breaker_rounds f is cb in (l @ l', cb))"

definition breaker_main :: "(nat \<Rightarrow> nat \<Rightarrow> int) \<Rightarrow> (nat \<Rightarrow> nat \<Rightarrow> int) \<Rightarrow> log outcome" where
  "breaker_main now later = operation 112 [] (
     let breaker = NewCircuitBreaker 3 (2 * 10 ^ 9);
         (l121, breaker) = breaker_rounds (breaker_round now later 121 125 None
           (\<lambda>i err st. in_call err [(122, [])] @ [(125, [SInt (int i + 1), show_cb_error err, show_state st])]) True) [0..<3] breaker;
         (l131, breaker) = breaker_rounds (breaker_round now later 131 136 (Some ''payment gateway timeout'')
           (\<lambda>i err st. [(136, [SInt (int i + 1), show_cb_error err, show_state st])]) False) [0..<5] breaker;
         (l142, breaker) = breaker_rounds (breaker_round now later 142 146 None
           (\<lambda>i err st. [(146, [show_cb_error err, show_state st])]) False) [0..<3] breaker;
         (err, breaker) = cb_Execute (now 155 0) (later 155 0) (None :: string option) breaker;
         (l160, breaker) = (if err = None
           then (let (st, breaker) = cb_State (now 160 0) breaker in ([(160, [show_state st])], breaker))
           else (let (st, breaker) = cb_State (now 162 0) breaker in ([(162, [show_state st])], breaker)));
         (l167, breaker) = breaker_rounds (breaker_round now later 167 170 None
           (\<lambda>i err st. [(170, [SInt (int i + 1), show_cb_error err, show_state st])]) True) [0..<5] breaker;
         breaker2 = NewCircuitBreaker 2 (500 * 10 ^ 6);
         (v176, breaker2) = cb_State (now 176 0) breaker2;
         breaker2 = snd (cb_Execute (now 177 0) (later 177 0) (Some ''fail 1'') breaker2);
         (v178, breaker2) = cb_State (now 178 0) breaker2;
         breaker2 = snd (cb_Execute (now 179 0) (later 179 0) (Some ''fail 2'') breaker2);
         (v180, breaker2) = cb_State (now 180 0) breaker2;
         (v182, breaker2) = cb_State (now 182 0) breaker2;
         breaker2 = snd (cb_Execute (now 183 0) (later 183 0) (None :: string option) breaker2);
         (v184, breaker2) = cb_State (now 184 0) breaker2
     in Inr ([(114, []), (116, [SInt 3]), (117, []), (119, [])] @ l121 @ [(128, [])] @ l131 @ [(140, [])] @ l142 @
       [(150, []), (152, []), (154, [])] @ in_call err [(156, [])] @ l160 @ [(165, [])] @ l167 @
       [(173, []), (174, []), (176, [show_state v176]), (178, [show_state v178]), (180, [show_state v180]),
        (182, [show_state v182]), (184, [show_state v184]), (186, []), (187, []), (188, [])]))"

text \<open>
  What the two sleeps are for, and that nothing else takes that long: the breaker opens in the third round of line
  131, the second one in line 179.
\<close>

definition breaker_clock_ok :: "(nat \<Rightarrow> nat \<Rightarrow> int) \<Rightarrow> (nat \<Rightarrow> nat \<Rightarrow> int) \<Rightarrow> bool" where
  "breaker_clock_ok now later \<longleftrightarrow>
     (\<forall>(line, i) \<in> {(136, 2), (131, 3), (136, 3), (131, 4), (136, 4), (142, 0), (146, 0), (142, 1), (146, 1), (142, 2), (146, 2)}.
        now line i - later 131 2 < 2 * 10 ^ 9) \<and>
     2 * 10 ^ 9 \<le> now 155 0 - later 131 2 \<and>
     now 180 0 - later 179 0 < 500 * 10 ^ 6 \<and> 500 * 10 ^ 6 \<le> now 182 0 - later 179 0"

lemmas breaker_simps = breaker_round_def in_call_def show_cb_error_def show_state_def cb_Execute_def cb_State_def
  cb_recordFailure_def cb_recordSuccess_def Let_def

lemma breaker_main_logs:
  assumes "breaker_clock_ok now later"
  shows "breaker_main now later = operation 112 [] (Inr (
    [(114, []), (116, [SInt 3]), (117, []), (119, []),
     (122, []), (125, [SInt 1, SNil, SStr ''closed'']), (122, []), (125, [SInt 2, SNil, SStr ''closed'']),
     (122, []), (125, [SInt 3, SNil, SStr ''closed'']), (128, []),
     (136, [SInt 1, SErr ''payment gateway timeout'', SStr ''closed'']),
     (136, [SInt 2, SErr ''payment gateway timeout'', SStr ''closed'']),
     (136, [SInt 3, SErr ''payment gateway timeout'', SStr ''open'']),
     (136, [SInt 4, SErr ''circuit breaker is open'', SStr ''open'']),
     (136, [SInt 5, SErr ''circuit breaker is open'', SStr ''open'']), (140, []),
     (146, [SErr ''circuit breaker is open'', SStr ''open'']), (146, [SErr ''circuit breaker is open'', SStr ''open'']),
     (146, [SErr ''circuit breaker is open'', SStr ''open'']), (150, []), (152, []), (154, []), (156, []),
     (160, [SStr ''closed'']), (165, []), (170, [SInt 1, SNil, SStr ''closed'']), (170, [SInt 2, SNil, SStr ''closed'']),
     (170, [SInt 3, SNil, SStr ''closed'']), (170, [SInt 4, SNil, SStr ''closed'']), (170, [SInt 5, SNil, SStr ''closed'']),
     (173, []), (174, []), (176, [SStr ''closed'']), (178, [SStr ''closed'']), (180, [SStr ''open'']),
     (182, [SStr ''half-open'']), (184, [SStr ''closed'']), (186, []), (187, []), (188, [])]))"
proof -
  have upts: "[0..<3] = [0, 1, 2::nat]" "[0..<5] = [0, 1, 2, 3, 4::nat]" by (simp_all add: upt_rec)
  define d e t u where "d = (2 * 10 ^ 9 :: int)" and "e = (500 * 10 ^ 6 :: int)" and "t = later 131 2" and "u = later 179 0"
  have open_for: "(d \<le> now 136 2 - t) = False" "(d \<le> now 131 3 - t) = False" "(d \<le> now 136 3 - t) = False"
    "(d \<le> now 131 4 - t) = False" "(d \<le> now 136 4 - t) = False" "(d \<le> now 142 0 - t) = False" "(d \<le> now 146 0 - t) = False"
    "(d \<le> now 142 1 - t) = False" "(d \<le> now 146 1 - t) = False" "(d \<le> now 142 2 - t) = False" "(d \<le> now 146 2 - t) = False"
    "(d \<le> now 155 0 - t) = True" "(e \<le> now 180 0 - u) = False" "(e \<le> now 182 0 - u) = True"
    using assms unfolding breaker_clock_ok_def ball_simps prod.case d_def [symmetric] e_def [symmetric] t_def [symmetric] u_def [symmetric]
    by (simp_all only: ball_simps insert_iff empty_iff prod.inject simp_thms not_le) auto
  let ?cb = "\<lambda>st n t. \<lparr>cb_state = st, cb_failures = n, cb_failureThreshold = 3, cb_openTimeout = d, cb_openedAt = t\<rparr>"
  let ?cb2 = "\<lambda>st n t. \<lparr>cb_state = st, cb_failures = n, cb_failureThreshold = 2, cb_openTimeout = e, cb_openedAt = t\<rparr>"
  have new: "NewCircuitBreaker 3 d = ?cb CircuitClosed 0 0" "NewCircuitBreaker 2 e = ?cb2 CircuitClosed 0 0"
    by (simp_all add: NewCircuitBreaker_def)
  have healthy: "breaker_rounds (breaker_round now later 121 125 None
        (\<lambda>i err st. in_call err [(122, [])] @ [(125, [SInt (int i + 1), show_cb_error err, show_state st])]) True) [0..<3] (?cb CircuitClosed 0 0) =
      ([(122, []), (125, [SInt 1, SNil, SStr ''closed'']), (122, []), (125, [SInt 2, SNil, SStr ''closed'']),
        (122, []), (125, [SInt 3, SNil, SStr ''closed''])], ?cb CircuitClosed 0 0)"
    by (simp add: breaker_simps upts)
  have failing: "breaker_rounds (breaker_round now later 131 136 (Some ''payment gateway timeout'')
        (\<lambda>i err st. [(136, [SInt (int i + 1), show_cb_error err, show_state st])]) False) [0..<5] (?cb CircuitClosed 0 0) =
      ([(136, [SInt 1, SErr ''payment gateway timeout'', SStr ''closed'']), (136, [SInt 2, SErr ''payment gateway timeout'', SStr ''closed'']),
        (136, [SInt 3, SErr ''payment gateway timeout'', SStr ''open'']), (136, [SInt 4, SErr ''circuit breaker is open'', SStr ''open'']),
        (136, [SInt 5, SErr ''circuit breaker is open'', SStr ''open''])], ?cb CircuitOpen 3 t)"
    by (simp add: breaker_simps upts open_for t_def [symmetric] del: One_nat_def)
  have rejecting: "breaker_rounds (breaker_round now later 142 146 None
        (\<lambda>i err st. [(146, [show_cb_error err, show_state st])]) False) [0..<3] (?cb CircuitOpen 3 t) =
      ([(146, [SErr ''circuit breaker is open'', SStr ''open'']), (146, [SErr ''circuit breaker is open'', SStr ''open'']),
        (146, [SErr ''circuit breaker is open'', SStr ''open''])], ?cb CircuitOpen 3 t)"
    by (simp add: breaker_simps upts open_for t_def [symmetric] del: One_nat_def)
  have probe: "cb_Execute (now 155 0) (later 155 0) None (?cb CircuitOpen 3 t) = (None :: string cb_error option, ?cb CircuitClosed 0 t)"
    "cb_State (now 160 0) (?cb CircuitClosed 0 t) = (CircuitClosed, ?cb CircuitClosed 0 t)"
    by (simp_all add: breaker_simps open_for u_def [symmetric])
  have resumed: "breaker_rounds (breaker_round now later 167 170 None
        (\<lambda>i err st. [(170, [SInt (int i + 1), show_cb_error err, show_state st])]) True) [0..<5] (?cb CircuitClosed 0 t) =
      ([(170, [SInt 1, SNil, SStr ''closed'']), (170, [SInt 2, SNil, SStr ''closed'']), (170, [SInt 3, SNil, SStr ''closed'']),
        (170, [SInt 4, SNil, SStr ''closed'']), (170, [SInt 5, SNil, SStr ''closed''])], ?cb CircuitClosed 0 t)"
    by (simp add: breaker_simps upts)
  have second: "cb_State (now 176 0) (?cb2 CircuitClosed 0 0) = (CircuitClosed, ?cb2 CircuitClosed 0 0)"
    "cb_Execute (now 177 0) (later 177 0) (Some ''fail 1'') (?cb2 CircuitClosed 0 0) = (Some (OperationFailed ''fail 1''), ?cb2 CircuitClosed 1 0)"
    "cb_State (now 178 0) (?cb2 CircuitClosed 1 0) = (CircuitClosed, ?cb2 CircuitClosed 1 0)"
    "cb_Execute (now 179 0) (later 179 0) (Some ''fail 2'') (?cb2 CircuitClosed 1 0) = (Some (OperationFailed ''fail 2''), ?cb2 CircuitOpen 2 u)"
    "cb_State (now 180 0) (?cb2 CircuitOpen 2 u) = (CircuitOpen, ?cb2 CircuitOpen 2 u)"
    "cb_State (now 182 0) (?cb2 CircuitOpen 2 u) = (CircuitHalfOpen, ?cb2 CircuitHalfOpen 2 u)"
    "cb_Execute (now 183 0) (later 183 0) None (?cb2 CircuitHalfOpen 2 u) = (None :: string cb_error option, ?cb2 CircuitClosed 0 u)"
    "cb_State (now 184 0) (?cb2 CircuitClosed 0 u) = (CircuitClosed, ?cb2 CircuitClosed 0 u)"
    by (simp_all add: breaker_simps open_for u_def [symmetric])
  show ?thesis
    unfolding breaker_main_def Let_def d_def [symmetric] e_def [symmetric] new healthy failing rejecting prod.case
    by (simp only: probe resumed second prod.case snd_conv refl if_True) (simp add: in_call_def show_state_def)
qed

subsection \<open>Retry\<close>

definition retry_policy_1 :: retry_policy where
  "retry_policy_1 = \<lparr>rt_MaxAttempts = 4, rt_InitialDelay = 50 * 10 ^ 6, rt_MaxDelay = 2 * 10 ^ 9, rt_Multiplier = Fin 2, rt_Jitter = True\<rparr>"

text \<open>The payment gateway; the call in line 107 is made in every attempt.\<close>

definition gateway :: "int \<Rightarrow> string option" where
  "gateway attempt = (if attempt < 3 then Some ''gateway timeout'' else None)"

definition retry_main :: "(f64 \<Rightarrow> int) \<Rightarrow> (int \<Rightarrow> int) \<Rightarrow> log outcome" where
  "retry_main conv rnd = operation 90 [] (
     and_then (rt_Retry conv rnd (\<lambda>_. False) gateway retry_policy_1) (\<lambda>(err, tr).
     Inr ([(92, []), (93, [])] @ map (\<lambda>attempt. (107, [SInt attempt])) (rt_calls tr) @
       [(114, []), (115, [SInt (rt_MaxAttempts retry_policy_1)]), (116, [SInt (rt_InitialDelay retry_policy_1)]),
        (117, [SInt (rt_MaxDelay retry_policy_1)]), (118, [SFloat (rt_Multiplier retry_policy_1)]), (119, [SBool (rt_Jitter retry_policy_1)]),
        (120, [SInt (int (length (rt_calls tr)))]),
        (121, [case err of None \<Rightarrow> SNil | Some (RetryFailed e) \<Rightarrow> SErr e | Some RetryCancelled \<Rightarrow> SErr ''context canceled''])])))"

lemma retry_main_logs:
  "retry_main conv rnd = operation 90 [] (Inr [(92, []), (93, []), (107, [SInt 1]), (107, [SInt 2]), (107, [SInt 3]), (114, []),
     (115, [SInt 4]), (116, [SInt 50000000]), (117, [SInt 2000000000]), (118, [SFloat (Fin 2)]), (119, [SBool True]),
     (120, [SInt 3]), (121, [SNil])])"
  by (simp add: retry_main_def retry_policy_1_def gateway_def rt_Retry_def rt_delayForAttempt_def rt_pow_def go_truncate_def
      f_of_int_def f_to_int64_def wrap64_def Let_def eval_nat_numeral)

subsection \<open>Ids\<close>

text \<open>The inner loop: \<open>n\<close> ids of one generator.\<close>

fun ids_take :: "nat \<Rightarrow> int list \<Rightarrow> snowflake \<Rightarrow> (u64 list \<times> int list) outcome" where
  "ids_take 0 clock gen = Inr ([], clock)"
| "ids_take (Suc n) clock gen = and_then (sf_NextID clock gen) (\<lambda>r. and_then (ended (map_option Inr r)) (\<lambda>(i, gen, clock).
     and_then (ids_take n clock gen) (\<lambda>(is, clock). Inr (i # is, clock))))"

fun ids_all :: "nat \<Rightarrow> int list \<Rightarrow> snowflake list \<Rightarrow> u64 list outcome" where
  "ids_all n clock [] = Inr []"
| "ids_all n clock (gen # gens) = and_then (ids_take n clock gen) (\<lambda>(is, clock).
     and_then (ids_all n clock gens) (\<lambda>js. Inr (is @ js)))"

fun ids_new :: "u64 list \<Rightarrow> int \<Rightarrow> snowflake list outcome" where
  "ids_new [] epochMs = Inr []"
| "ids_new (mid # mids) epochMs = and_then (NewSnowflakeGenerator mid epochMs) (\<lambda>gen.
     and_then (ids_new mids epochMs) (\<lambda>gens. Inr (gen # gens)))"

definition ids_main :: "int list \<Rightarrow> log outcome" where
  "ids_main clock = operation 67 [] (
     let machines = [7, 15, 23]; epochMs = 1704067200000 in
     and_then (ids_new machines epochMs) (\<lambda>generators.
     let idsPerMachine = 5; totalIDs = length machines * idsPerMachine in
     and_then (ids_all idsPerMachine clock generators) (\<lambda>allIDs.
     Inr ([(69, []), (70, []), (93, [])] @ map (\<lambda>i. (95, [SInt (uint i)])) allIDs @
       [(99, []), (100, [SInt (int totalIDs)]), (101, [SInt (int (length machines))]), (102, [SInt (int idsPerMachine)]),
        (103, [SInt epochMs]), (104, [SWall]), (105, [SWall])]))))"

text \<open>With fewer than 4096 ids nobody spins: every id takes one reading of the clock.\<close>

lemma sf_NextID_reading:
  assumes "sf_lastTimestamp g \<le> now - sf_epochMs g" "unat (sf_sequence g) + 1 < 4096"
  shows "\<exists>i g'. sf_NextID (now # clock) g = Inr (Some (i, g', clock)) \<and> unat (sf_sequence g') \<le> unat (sf_sequence g) + 1 \<and>
    sf_lastTimestamp g' = now - sf_epochMs g"
proof -
  have "(4095 :: u64) = mask 12" by (simp add: mask_eq_exp_minus_1)
  then have s: "unat ((sf_sequence g + 1) AND 4095) = unat (sf_sequence g) + 1"
    using assms(2) unat_and_mask [of "sf_sequence g + 1" 12] by (simp add: unat_word_ariths)
  then have "(sf_sequence g + 1) AND 4095 \<noteq> 0" by auto
  then show ?thesis using assms s by (auto simp: sf_NextID_def Let_def)
qed

lemma ids_take_ok:
  assumes "sf_inv g" "sf_clock_ok (sf_epochMs g) clock" "sorted clock" "n \<le> length clock"
    and "\<forall>now \<in> set clock. sf_lastTimestamp g \<le> now - sf_epochMs g" "unat (sf_sequence g) + n < 4096"
  shows "\<exists>is. ids_take n clock g = Inr (is, drop n clock) \<and> length is = n \<and> sorted_wrt (<) (map unat is) \<and>
    (\<forall>i \<in> set is. sf_last_id g < int (unat i) \<and> unat i div 2 ^ 12 mod 1024 = unat (sf_machineID g))"
  using assms
proof (induction n arbitrary: clock g)
  case (Suc n)
  obtain now clock1 where c: "clock = now # clock1" using Suc.prems(4) by (cases clock) auto
  obtain i g' where n: "sf_NextID clock g = Inr (Some (i, g', clock1))" "unat (sf_sequence g') \<le> unat (sf_sequence g) + 1"
    "sf_lastTimestamp g' = now - sf_epochMs g"
    using sf_NextID_reading [of g now clock1] Suc.prems(5,6) by (auto simp: c)
  note s = sf_NextID_increases [OF Suc.prems(1,2) n(1)]
  obtain "is" where ids: "ids_take n clock1 g' = Inr (is, drop n clock1)" "length is = n" "sorted_wrt (<) (map unat is)"
    "\<forall>i \<in> set is. sf_last_id g' < int (unat i) \<and> unat i div 2 ^ 12 mod 1024 = unat (sf_machineID g')"
    using Suc.IH [OF s(1), of clock1] s(4,6) Suc.prems(3-6) n(2,3) by (auto simp: c)
  have "unat (sf_machineID g') < 1024" "unat (sf_sequence g') < 4096"
    using s(1) by (simp_all add: sf_inv_def word_less_nat_alt)
  then have "unat i div 2 ^ 12 mod 1024 = unat (sf_machineID g)"
    using sf_machine_bits [OF s(2) [unfolded sf_last_id_def]] s(5) by (simp only:)
  moreover have "sf_last_id g < int (unat j)" if "j \<in> set is" for j using ids(4) that s(2,3) by fastforce
  moreover have "unat i < unat j" if "j \<in> set is" for j using ids(4) that s(2) by (metis of_nat_less_iff)
  ultimately show ?case using ids n(1) s(3,5) by (auto simp: c)
qed simp

lemma ids_main_logs:
  assumes "sorted clock" "15 \<le> length clock" "sf_clock_ok 1704067200000 clock"
  shows "\<exists>(as :: u64 list) bs cs. ids_main clock = operation 67 [] (Inr ([(69, []), (70, []), (93, [])] @
       map (\<lambda>i. (95, [SInt (uint i)])) (as @ bs @ cs) @
       [(99, []), (100, [SInt 15]), (101, [SInt 3]), (102, [SInt 5]), (103, [SInt 1704067200000]), (104, [SWall]), (105, [SWall])])) \<and>
     distinct (as @ bs @ cs) \<and>
     (\<forall>(m, is) \<in> {(7, as), (15, bs), (23, cs)}. length is = 5 \<and> sorted_wrt (<) (map unat is) \<and>
        (\<forall>i \<in> set is. unat i div 2 ^ 12 mod 1024 = m))"
proof -
  let ?g = "\<lambda>m :: u64. \<lparr>sf_machineID = m, sf_epochMs = 1704067200000, sf_sequence = 0, sf_lastTimestamp = - 1\<rparr>"
  have take5: "\<exists>is. ids_take 5 c (?g m) = Inr (is, drop 5 c) \<and> length is = 5 \<and> sorted_wrt (<) (map unat is) \<and>
      (\<forall>i \<in> set is. unat i div 2 ^ 12 mod 1024 = unat m)"
    if "m < 1024" "sorted c" "5 \<le> length c" "set c \<subseteq> set clock" for c m
  proof -
    have ok: "sf_clock_ok (sf_epochMs (?g m)) c" using assms(3) that(4) by (auto simp: sf_clock_ok_def)
    moreover have "sf_inv (?g m)" using that(1) by (simp add: sf_inv_def)
    moreover have "\<forall>now \<in> set c. sf_lastTimestamp (?g m) \<le> now - sf_epochMs (?g m)" using ok by (auto simp: sf_clock_ok_def)
    ultimately show ?thesis using ids_take_ok [of "?g m" c 5] that(2,3) by auto
  qed
  obtain as where as: "ids_take 5 clock (?g 7) = Inr (as, drop 5 clock)" "length as = 5" "sorted_wrt (<) (map unat as)"
    "\<forall>i \<in> set as. unat i div 2 ^ 12 mod 1024 = 7"
    using take5 [of 7 clock] assms(1,2) by auto
  have len: "5 \<le> length (drop 5 clock)" "5 \<le> length (drop 10 clock)" using assms(2) by auto
  obtain bs where bs: "ids_take 5 (drop 5 clock) (?g 15) = Inr (bs, drop 10 clock)" "length bs = 5" "sorted_wrt (<) (map unat bs)"
    "\<forall>i \<in> set bs. unat i div 2 ^ 12 mod 1024 = 15"
    using take5 [of 15 "drop 5 clock", OF _ sorted_wrt_drop [OF assms(1)] _ set_drop_subset] len by auto
  obtain cs where cs: "ids_take 5 (drop 10 clock) (?g 23) = Inr (cs, drop 15 clock)" "length cs = 5" "sorted_wrt (<) (map unat cs)"
    "\<forall>i \<in> set cs. unat i div 2 ^ 12 mod 1024 = 23"
    using take5 [of 23 "drop 10 clock", OF _ sorted_wrt_drop [OF assms(1)] _ set_drop_subset] len by auto
  have d: "distinct is" if "sorted_wrt (<) (map unat is)" for "is" :: "u64 list"
    using that strict_sorted_iff [of "map unat is"] by (simp add: distinct_map)
  have "ids_new [7, 15, 23] 1704067200000 = Inr [?g 7, ?g 15, ?g 23]" by (simp add: NewSnowflakeGenerator_def)
  then have "ids_main clock = operation 67 [] (Inr ([(69, []), (70, []), (93, [])] @
       map (\<lambda>i. (95, [SInt (uint i)])) (as @ bs @ cs) @
       [(99, []), (100, [SInt 15]), (101, [SInt 3]), (102, [SInt 5]), (103, [SInt 1704067200000]), (104, [SWall]), (105, [SWall])]))"
    unfolding ids_main_def Let_def by (simp add: as(1) bs(1) cs(1))
  moreover have "distinct (as @ bs @ cs)"
    using as(4) bs(4) cs(4) d [OF as(3)] d [OF bs(3)] d [OF cs(3)] by fastforce
  moreover have "\<forall>(m, is) \<in> {(7, as), (15, bs), (23, cs)}. length is = 5 \<and> sorted_wrt (<) (map unat is) \<and>
        (\<forall>i \<in> set is. unat i div 2 ^ 12 mod 1024 = m)"
    using as(2-) bs(2-) cs(2-) by simp
  ultimately show ?thesis by blast
qed

end
