(* ===== verification/Go_Threads.thy ===== *)
theory Go_Threads
  imports Demo_Log
begin

text \<open>
  Goroutines that a \<open>main\<close> starts and waits for. Goroutine \<open>i\<close> is at a program point \<open>p\<close>; what it does there is one
  atomic action \<open>act i p\<close> on the shared state: \<open>None\<close> if it blocks (or has ended), else what it logs, the new state and
  the next program point. A step is the action of any goroutine that does not block. An action is a call of a component, or a piece
  of code between two such calls that touches only data the goroutine has to itself (its own variables, or
  shared ones under a mutex).

  All goroutines are there from the start. A goroutine that \<open>main\<close> has not started yet is one that has taken no
  step; \<open>main\<close> itself does nothing else meanwhile.
\<close>

type_synonym ('p, 's) act = "nat \<Rightarrow> 'p \<Rightarrow> 's \<Rightarrow> (log \<times> 's \<times> 'p) option"

type_synonym ('p, 's) threads = "'p list \<times> 's \<times> log"

inductive go_step :: "('p, 's) act \<Rightarrow> ('p, 's) threads \<Rightarrow> ('p, 's) threads \<Rightarrow> bool" for act where
  go_act: "i < length ps \<Longrightarrow> act i (ps ! i) s = Some (l, s', p) \<Longrightarrow> go_step act (ps, s, out) (ps[i := p], s', out @ l)"

inductive_cases go_stepE: "go_step act c c'"

subsection \<open>Runs by a given schedule\<close>

fun go_exec :: "('p, 's) act \<Rightarrow> nat list \<Rightarrow> ('p, 's) threads \<Rightarrow> ('p, 's) threads option" where
  "go_exec act [] c = Some c"
| "go_exec act (i # is) (ps, s, out) =
     (if i < length ps then (case act i (ps ! i) s of None \<Rightarrow> None | Some (l, s', p) \<Rightarrow> go_exec act is (ps[i := p], s', out @ l)) else None)"

lemma go_exec_steps: "go_exec act is c = Some c' \<Longrightarrow> (go_step act)\<^sup>*\<^sup>* c c'"
proof (induction act "is" c rule: go_exec.induct)
  case (2 act i "is" ps s out)
  then obtain l s' p where a: "i < length ps" "act i (ps ! i) s = Some (l, s', p)"
    "go_exec act is (ps[i := p], s', out @ l) = Some c'"
    by (auto split: if_splits option.splits)
  then have "(go_step act)\<^sup>*\<^sup>* (ps[i := p], s', out @ l) c'" using 2 by simp
  moreover have "go_step act (ps, s, out) (ps[i := p], s', out @ l)" by (rule go_act) (rule a(1), rule a(2))
  ultimately show ?case by (rule converse_rtranclp_into_rtranclp [rotated])
qed simp

subsection \<open>Counting goroutines\<close>

definition counts :: "('p \<Rightarrow> nat) \<Rightarrow> 'p list \<Rightarrow> nat" where
  "counts f ps = sum_list (map f ps)"

abbreviation at_points :: "('p \<Rightarrow> bool) \<Rightarrow> 'p list \<Rightarrow> nat" where
  "at_points Q \<equiv> counts (\<lambda>p. if Q p then 1 else 0)"

lemma counts_simps [simp]:
  "counts f [] = 0" "counts f (p # ps) = f p + counts f ps" "counts f (replicate n p) = n * f p"
  "counts f (ps @ qs) = counts f ps + counts f qs"
  by (simp_all add: counts_def sum_list_replicate)

lemma counts_update: "i < length ps \<Longrightarrow> counts f (ps[i := p]) + f (ps ! i) = counts f ps + f p"
proof (induction ps arbitrary: i)
  case (Cons q ps)
  then show ?case by (cases i) simp_all
qed simp

lemma counts_ge: "p \<in> set ps \<Longrightarrow> f p \<le> counts f ps"
  by (induction ps) auto

lemma counts_at: "i < length ps \<Longrightarrow> f (ps ! i) \<le> counts f ps"
  by (rule counts_ge) simp

lemma counts_zero: "counts f ps = 0 \<longleftrightarrow> (\<forall>p \<in> set ps. f p = 0)"
  by (simp add: counts_def)

lemma at_points_zero [simp]: "at_points Q ps = 0 \<longleftrightarrow> (\<forall>p \<in> set ps. \<not> Q p)"
  by (auto simp: counts_zero)

lemma counts_mono: "(\<And>p. p \<in> set ps \<Longrightarrow> f p \<le> g p) \<Longrightarrow> counts f ps \<le> counts g ps"
  by (induction ps) (auto intro: add_mono)

lemma go_can:
  assumes "p \<in> set ps" "\<And>i. i < length ps \<Longrightarrow> ps ! i = p \<Longrightarrow> act i p s \<noteq> None"
  shows "\<exists>c'. go_step act (ps, s, out) c'"
proof -
  obtain i where i: "i < length ps" "ps ! i = p" using assms(1) by (metis in_set_conv_nth)
  then obtain l s' q where "act i p s = Some (l, s', q)" using assms(2) by fastforce
  then show ?thesis using go_act [of i ps act s l s' q out] i by blast
qed

lemma all_points: "counts f ps = 0 \<Longrightarrow> length ps = n \<Longrightarrow> (\<And>p. f p = 0 \<Longrightarrow> p = q) \<Longrightarrow> ps = replicate n q"
  by (simp add: counts_zero replicate_eqI)

text \<open>A quantity to which goroutine \<open>i\<close> at point \<open>p\<close> contributes \<open>f i p\<close>.\<close>

definition totals :: "(nat \<Rightarrow> 'p \<Rightarrow> 'm :: comm_monoid_add) \<Rightarrow> 'p list \<Rightarrow> 'm" where
  "totals f ps = (\<Sum>i < length ps. f i (ps ! i))"

lemma totals_update:
  assumes "i < length ps"
  shows "totals f (ps[i := p]) + f i (ps ! i) = totals f ps + f i p"
proof -
  have split: "(\<Sum>j < length ps. g j) = g i + (\<Sum>j \<in> {..<length ps} - {i}. g j)" for g :: "nat \<Rightarrow> 'b"
    using assms by (intro sum.remove) auto
  have "(\<Sum>j \<in> {..<length ps} - {i}. f j (ps[i := p] ! j)) = (\<Sum>j \<in> {..<length ps} - {i}. f j (ps ! j))"
    by (rule sum.cong) auto
  then show ?thesis
    using assms by (simp add: totals_def split [of "\<lambda>j. f j (ps[i := p] ! j)"] split [of "\<lambda>j. f j (ps ! j)"] ac_simps)
qed

lemma totals_list: "totals f ps = sum_list (map (\<lambda>i. f i (ps ! i)) [0..<length ps])"
  by (simp add: totals_def interv_sum_list_conv_sum_set_nat atLeast0LessThan)

lemma totals_start: "(\<And>i p. p \<in> set ps \<Longrightarrow> f i p = 0) \<Longrightarrow> totals f ps = 0"
  by (simp add: totals_def)

text \<open>The log has the entries of all goroutines, interleaved.\<close>

definition entries :: "(nat \<Rightarrow> 'p \<Rightarrow> log) \<Rightarrow> 'p list \<Rightarrow> (nat \<times> shown list) multiset" where
  "entries f = totals (\<lambda>i p. mset (f i p))"

lemma entries_update:
  assumes "i < length ps" "f i p = f i (ps ! i) @ l"
  shows "entries f (ps[i := p]) = entries f ps + mset l"
  using totals_update [OF assms(1), of "\<lambda>i p. mset (f i p)" p] assms(2) by (simp add: entries_def)

lemma entries_start: "(\<And>i p. p \<in> set ps \<Longrightarrow> f i p = []) \<Longrightarrow> entries f ps = {#}"
  by (simp add: entries_def totals_start)

subsection \<open>Programs that end\<close>

text \<open>
  The contract: every action brings its goroutine nearer to the end. Then no run is infinite, and if some invariant
  rules out that all goroutines that have not ended are blocked, every run can be completed.
\<close>

locale go_program =
  fixes act :: "('p, 's) act" and rank :: "'p \<Rightarrow> nat"
  assumes act_rank: "act i p s = Some (l, s', p') \<Longrightarrow> rank p' < rank p"
begin

lemma step_rank: "go_step act c c' \<Longrightarrow> counts rank (fst c') < counts rank (fst c)"
proof (elim go_stepE)
  fix i ps s l s' p out
  assume c: "c = (ps, s, out)" "c' = (ps[i := p], s', out @ l)" "i < length ps" "act i (ps ! i) s = Some (l, s', p)"
  show "counts rank (fst c') < counts rank (fst c)"
    using counts_update [OF c(3), of rank p] act_rank [OF c(4)] c(1,2) by simp
qed

lemma steps_bounded: "(go_step act ^^ n) c c' \<Longrightarrow> n + counts rank (fst c') \<le> counts rank (fst c)"
  by (induction n arbitrary: c') (fastforce dest: step_rank)+

lemma steps_invariant:
  assumes "(go_step act)\<^sup>*\<^sup>* c c'" "P c"
    and "\<And>i ps s out l s' p. P (ps, s, out) \<Longrightarrow> i < length ps \<Longrightarrow> act i (ps ! i) s = Some (l, s', p) \<Longrightarrow> P (ps[i := p], s', out @ l)"
  shows "P c'"
  using assms(1,2)
proof (induction rule: rtranclp_induct)
  case (step c' c'')
  show ?case using step.hyps(2) step.IH [OF step.prems] assms(3) by (auto elim!: go_stepE)
qed

lemma ends:
  assumes "P c"
    and inv: "\<And>i ps s out l s' p. P (ps, s, out) \<Longrightarrow> i < length ps \<Longrightarrow> act i (ps ! i) s = Some (l, s', p) \<Longrightarrow> P (ps[i := p], s', out @ l)"
    and progress: "\<And>ps s out. P (ps, s, out) \<Longrightarrow> counts rank ps \<noteq> 0 \<Longrightarrow> \<exists>c'. go_step act (ps, s, out) c'"
  shows "\<exists>ps s out. (go_step act)\<^sup>*\<^sup>* c (ps, s, out) \<and> counts rank ps = 0 \<and> P (ps, s, out)"
  using assms(1)
proof (induction "counts rank (fst c)" arbitrary: c rule: less_induct)
  case less
  obtain ps s out where c: "c = (ps, s, out)" by (cases c)
  show ?case
  proof (cases "counts rank ps = 0")
    case True
    then show ?thesis using less.prems unfolding c by blast
  next
    case False
    then obtain c1 where c1: "go_step act c c1" using progress less.prems unfolding c by blast
    moreover have "P c1" using c1 less.prems inv by (auto elim!: go_stepE)
    ultimately show ?thesis using less.hyps [OF step_rank] by (meson converse_rtranclp_into_rtranclp)
  qed
qed

end

end
