(* ===== verification/Demo_Threads.thy ===== *)
theory Demo_Threads
  imports Go_Threads Channels
begin

text \<open>
  The \<open>main\<close> functions of \<open>src/15\<close> and \<open>src/16\<close>, which start goroutines and wait for them. \<open>X_main r\<close> holds if
  \<open>r\<close> is the result of a run in some interleaving. The lemmas say that there is one from every state that can be
  reached (no deadlock; and no run is infinite), and what all of them log.
\<close>

subsection \<open>Semaphore\<close>

datatype request = RqAcquire | RqCall | RqReply | RqRelease | RqDone

text \<open>The goroutine of \<open>src/15\<close>; goroutine \<open>i\<close> has the number \<open>i + 1\<close>. The deferred \<open>Release\<close> runs before \<open>wg.Done\<close>.\<close>

fun sem_request :: "(request, semaphore) act" where
  "sem_request i RqAcquire s = map_option (\<lambda>s. ([], s, RqCall)) (sem_Acquire s)"
| "sem_request i RqCall s = Some ([(61, [SInt (int i + 1)])], s, RqReply)"
| "sem_request i RqReply s = Some ([(63, [SInt (int i + 1)])], s, RqRelease)"
| "sem_request i RqRelease s = map_option (\<lambda>s. ([], s, RqDone)) (sem_Release s)"
| "sem_request i RqDone s = None"

definition semaphore_main :: "log outcome \<Rightarrow> bool" where
  "semaphore_main result \<longleftrightarrow> (\<exists>semaphore s out. NewSemaphore 2 = Inr semaphore \<and>
     (go_step sem_request)\<^sup>*\<^sup>* (replicate 5 RqAcquire, semaphore, []) (replicate 5 RqDone, s, out) \<and>
     result = operation 41 [] (Inr ([(43, []), (44, [])] @ out @
       [(70, []), (71, [SInt 2]), (72, [SInt 5]), (73, [SWall]), (74, [SInt 5, SWall])])))"

fun rq_rank :: "request \<Rightarrow> nat" where
  "rq_rank RqAcquire = 4" | "rq_rank RqCall = 3" | "rq_rank RqReply = 2" | "rq_rank RqRelease = 1" | "rq_rank RqDone = 0"

interpretation sem_go: go_program sem_request rq_rank
  by unfold_locales (erule sem_request.elims; auto simp: map_option_case split: option.splits)

fun rq_log :: "nat \<Rightarrow> request \<Rightarrow> log" where
  "rq_log i RqAcquire = []" | "rq_log i RqCall = []" | "rq_log i RqReply = [(61, [SInt (int i + 1)])]"
| "rq_log i RqRelease = [(61, [SInt (int i + 1)]), (63, [SInt (int i + 1)])]"
| "rq_log i RqDone = [(61, [SInt (int i + 1)]), (63, [SInt (int i + 1)])]"

text \<open>The permits that are out are those of the requests in between; the log has of each request what its point says.\<close>

definition sem_go_inv :: "(request, semaphore) threads \<Rightarrow> bool" where
  "sem_go_inv = (\<lambda>(ps, s, out). length ps = 5 \<and> ch_cap s = 2 \<and> length (ch_buf s) \<le> 2 \<and>
     length (ch_buf s) = at_points (\<lambda>p. p \<in> {RqCall, RqReply, RqRelease}) ps \<and>
     (\<forall>i < 5. filter (\<lambda>e. snd e = [SInt (int i + 1)]) out = rq_log i (ps ! i)) \<and>
     length out = counts (length \<circ> rq_log 0) ps \<and>
     length (filter (\<lambda>e. fst e = 61) out) = length (filter (\<lambda>e. fst e = 63) out) + at_points (\<lambda>p. p = RqReply) ps)"

lemma sem_go_inv_step:
  assumes "sem_go_inv (ps, s, out)" "i < length ps" "sem_request i (ps ! i) s = Some (l, s', p)"
  shows "sem_go_inv (ps[i := p], s', out @ l)"
proof -
  note c = counts_update [OF assms(2), of _ p]
  show ?thesis
    using assms c [of "\<lambda>p. if p \<in> {RqCall, RqReply, RqRelease} then 1 else 0"] c [of "length \<circ> rq_log 0"] c [of "\<lambda>p. if p = RqReply then 1 else 0"]
    by (cases "ps ! i") (auto simp: sem_go_inv_def sem_Acquire_def sem_Release_def chan_send_def chan_recv_def nth_list_update
      split: if_splits list.splits)
qed

lemma sem_go_progress:
  assumes "sem_go_inv (ps, s, out)" "counts rq_rank ps \<noteq> 0"
  shows "\<exists>c'. go_step sem_request (ps, s, out) c'"
proof (cases "at_points (\<lambda>p. p \<in> {RqCall, RqReply, RqRelease}) ps = 0")
  case True
  moreover from True have "at_points (\<lambda>p. p \<in> {RqCall, RqReply, RqRelease}) ps = 0" by simp
  ultimately have free: "ch_buf s = []" "ch_cap s = 2"
    using assms(1) unfolding sem_go_inv_def prod.case by (metis length_0_conv, metis)
  have out: "\<forall>p \<in> set ps. p \<notin> {RqCall, RqReply, RqRelease}" using True by (simp only: at_points_zero)
  obtain p where p: "p \<in> set ps" "rq_rank p \<noteq> 0" using assms(2) by (auto simp: counts_zero)
  have "p = RqAcquire" using p(2) bspec [OF out p(1)] by (cases p) simp_all
  then show ?thesis using p(1) free by (intro go_can [of p]) (simp_all add: sem_Acquire_def chan_send_def)
next
  case False
  then obtain p where p: "p \<in> set ps" "p \<in> {RqCall, RqReply, RqRelease}" by auto
  have "ch_buf s \<noteq> []" using False assms(1) by (auto simp: sem_go_inv_def)
  then show ?thesis using p by (intro go_can [of p]) (auto simp: sem_Release_def chan_recv_def split: list.splits)
qed

lemma sem_go_start: "sem_go_inv (replicate 5 RqAcquire, make_chan 2, [])"
  by (simp add: sem_go_inv_def)

lemma sem_go_reachable:
  assumes "(go_step sem_request)\<^sup>*\<^sup>* (replicate 5 RqAcquire, make_chan 2, []) c"
  shows "sem_go_inv c"
  using assms sem_go_start sem_go_inv_step by (rule sem_go.steps_invariant)

text \<open>At most two requests are in flight at any time.\<close>

lemma semaphore_main_in_flight:
  assumes "NewSemaphore 2 = Inr semaphore" "(go_step sem_request)\<^sup>*\<^sup>* (replicate 5 RqAcquire, semaphore, []) (ps, s, out)"
  shows "length (filter (\<lambda>e. fst e = 61) out) \<le> length (filter (\<lambda>e. fst e = 63) out) + 2"
proof -
  have "sem_go_inv (ps, s, out)" using assms by (intro sem_go_reachable) (simp add: NewSemaphore_def)
  moreover have "at_points (\<lambda>p. p = RqReply) ps \<le> at_points (\<lambda>p. p \<in> {RqCall, RqReply, RqRelease}) ps"
    by (rule counts_mono) simp
  ultimately show ?thesis by (simp add: sem_go_inv_def)
qed

text \<open>Every run can be completed, and the log then has a call and a reply for each request, in that order.\<close>

lemma semaphore_main_logs:
  "(\<exists>r. semaphore_main r) \<and> (\<forall>r. semaphore_main r \<longrightarrow> (\<exists>out. r = operation 41 [] (Inr ([(43, []), (44, [])] @ out @
     [(70, []), (71, [SInt 2]), (72, [SInt 5]), (73, [SWall]), (74, [SInt 5, SWall])])) \<and> length out = 10 \<and>
     (\<forall>k \<in> {1..5}. filter (\<lambda>e. snd e = [SInt k]) out = [(61, [SInt k]), (63, [SInt k])])))"
proof -
  have new: "NewSemaphore 2 = Inr (make_chan 2)" by (simp add: NewSemaphore_def)
  have log: "length out = 10 \<and> (\<forall>k \<in> {1..5}. filter (\<lambda>e. snd e = [SInt k]) out = [(61, [SInt k]), (63, [SInt k])])"
    if r: "(go_step sem_request)\<^sup>*\<^sup>* (replicate 5 RqAcquire, make_chan 2, []) (replicate 5 RqDone, s, out)" for s out
  proof -
    have inv: "sem_go_inv (replicate 5 RqDone, s, out)" using r by (rule sem_go_reachable)
    have "filter (\<lambda>e. snd e = [SInt k]) out = [(61, [SInt k]), (63, [SInt k])]" if k: "k \<in> {1..5}" for k
    proof -
      have "nat (k - 1) < 5" "int (nat (k - 1)) + 1 = k" using k by auto
      then show ?thesis using inv by (fastforce simp: sem_go_inv_def dest: spec [of _ "nat (k - 1)"])
    qed
    then show ?thesis using inv by (simp add: sem_go_inv_def)
  qed
  obtain ps s out where c: "(go_step sem_request)\<^sup>*\<^sup>* (replicate 5 RqAcquire, make_chan 2, []) (ps, s, out)"
    "counts rq_rank ps = 0" "sem_go_inv (ps, s, out)"
    using sem_go.ends [where P = sem_go_inv, OF sem_go_start] sem_go_inv_step sem_go_progress by metis
  have "rq_rank p = 0 \<Longrightarrow> p = RqDone" for p by (cases p) simp_all
  then have "ps = replicate 5 RqDone" using c(2,3) by (intro all_points [of rq_rank]) (simp_all add: sem_go_inv_def)
  then show ?thesis using c(1) log unfolding semaphore_main_def new by blast
qed

subsection \<open>Read-write lock\<close>

datatype rw_point = RdLock | RdRead | RdCount | RdUnlock | RdDone
  | WrAnnounce | WrLock | WrUpdate | WrCount | WrUnlock | WrDone

record rw_shared =
  rws_lock :: rw_lock
  rws_cache :: "(string, string) gomap"
  rws_readOps :: int
  rws_writeOps :: int

text \<open>
  The goroutines of \<open>src/16\<close>: 0 to 9 read, 10 and 11 write. The two counters are each under a mutex of their own, so an
  increment is one action. \<open>Lock\<close> is two actions of the lock, the announcement and the grant.
\<close>

fun rw_worker :: "(rw_point, rw_shared) act" where
  "rw_worker i RdLock s = map_option (\<lambda>l. ([], s\<lparr>rws_lock := l\<rparr>, RdRead)) (rw_RLock (rws_lock s))"
| "rw_worker i RdRead s = Some ([(71, [SInt (int i)])], s, RdCount)"
| "rw_worker i RdCount s = Some ([], s\<lparr>rws_readOps := rws_readOps s + 1\<rparr>, RdUnlock)"
| "rw_worker i RdUnlock s = map_option (\<lambda>l. ([], s\<lparr>rws_lock := l\<rparr>, RdDone)) (rw_RUnlock (rws_lock s))"
| "rw_worker i RdDone s = None"
| "rw_worker i WrAnnounce s = map_option (\<lambda>l. ([], s\<lparr>rws_lock := l\<rparr>, WrLock)) (rw_Announce (rws_lock s))"
| "rw_worker i WrLock s = map_option (\<lambda>l. ([], s\<lparr>rws_lock := l\<rparr>, WrUpdate)) (rw_Lock (rws_lock s))"
| "rw_worker i WrUpdate s = Some ([(87, [SInt (int i - 10)])], s\<lparr>rws_cache := fmupd ''updated_by'' ''writer'' (rws_cache s)\<rparr>, WrCount)"
| "rw_worker i WrCount s = Some ([], s\<lparr>rws_writeOps := rws_writeOps s + 1\<rparr>, WrUnlock)"
| "rw_worker i WrUnlock s = map_option (\<lambda>l. ([], s\<lparr>rws_lock := l\<rparr>, WrDone)) (rw_Unlock (rws_lock s))"
| "rw_worker i WrDone s = None"

definition rw_cache :: "(string, string) gomap" where
  "rw_cache = fmap_of_list [(''db_host'', ''localhost''), (''db_port'', ''5432''), (''api_key'', ''sk-12345'')]"

definition rw_start :: "(rw_point, rw_shared) threads" where
  "rw_start = (replicate 10 RdLock @ replicate 2 WrAnnounce,
     \<lparr>rws_lock = NewReadWriteLock, rws_cache = rw_cache, rws_readOps = 0, rws_writeOps = 0\<rparr>, [])"

definition rw_main :: "log outcome \<Rightarrow> bool" where
  "rw_main result \<longleftrightarrow> (\<exists>s out. (go_step rw_worker)\<^sup>*\<^sup>* rw_start (replicate 10 RdDone @ replicate 2 WrDone, s, out) \<and>
     result = operation 45 [] (Inr ([(47, []), (48, [])] @ out @
       [(99, []), (100, [SInt (rws_readOps s)]), (101, [SInt (rws_writeOps s)]), (102, [SInt (int (gm_len (rws_cache s)))]), (103, [SWall]),
        (104, [SWall, SInt (rws_readOps s), SInt (rws_writeOps s)])])))"

fun rw_rank :: "rw_point \<Rightarrow> nat" where
  "rw_rank RdLock = 4" | "rw_rank RdRead = 3" | "rw_rank RdCount = 2" | "rw_rank RdUnlock = 1" | "rw_rank RdDone = 0"
| "rw_rank WrAnnounce = 5" | "rw_rank WrLock = 4" | "rw_rank WrUpdate = 3" | "rw_rank WrCount = 2" | "rw_rank WrUnlock = 1" | "rw_rank WrDone = 0"

interpretation rw_go: go_program rw_worker rw_rank
  by unfold_locales (erule rw_worker.elims; auto simp: map_option_case split: option.splits)

fun rw_log :: "nat \<Rightarrow> rw_point \<Rightarrow> log" where
  "rw_log i p = (if p \<in> {RdCount, RdUnlock, RdDone} then [(71, [SInt (int i)])]
     else if p \<in> {WrCount, WrUnlock, WrDone} then [(87, [SInt (int i - 10)])] else [])"

abbreviation reads_now :: "rw_point \<Rightarrow> bool" where
  "reads_now p \<equiv> p \<in> {RdRead, RdCount, RdUnlock}"

abbreviation wants_write :: "rw_point \<Rightarrow> bool" where
  "wants_write p \<equiv> p \<in> {WrLock, WrUpdate, WrCount, WrUnlock}"

abbreviation writes_now :: "rw_point \<Rightarrow> bool" where
  "writes_now p \<equiv> p \<in> {WrUpdate, WrCount, WrUnlock}"

text \<open>The lock against the points: the readers inside, the announcement, the writer inside.\<close>

definition rw_lock_ok :: "rw_point list \<Rightarrow> rw_lock \<Rightarrow> bool" where
  "rw_lock_ok ps l \<longleftrightarrow> rw_readers l = at_points reads_now ps \<and> at_points wants_write ps = of_bool (rw_announced l) \<and>
     at_points writes_now ps = of_bool (rw_writing l) \<and> (rw_writing l \<longrightarrow> rw_readers l = 0)"

definition rw_go_inv :: "(rw_point, rw_shared) threads \<Rightarrow> bool" where
  "rw_go_inv = (\<lambda>(ps, s, out). length ps = 12 \<and> (\<forall>i < 12. ps ! i \<in> {RdLock, RdRead, RdCount, RdUnlock, RdDone} \<longleftrightarrow> i < 10) \<and>
     rw_lock_ok ps (rws_lock s) \<and> rws_readOps s = int (at_points (\<lambda>p. p \<in> {RdUnlock, RdDone}) ps) \<and>
     rws_writeOps s = int (at_points (\<lambda>p. p \<in> {WrUnlock, WrDone}) ps) \<and> mset out = entries rw_log ps \<and>
     rws_cache s = (if at_points (\<lambda>p. p \<in> {WrCount, WrUnlock, WrDone}) ps = 0 then rw_cache else fmupd ''updated_by'' ''writer'' rw_cache))"

lemma rw_lock_ok_step:
  assumes "rw_lock_ok ps (rws_lock s)" "i < length ps" "rw_worker i (ps ! i) s = Some (l, s', p)"
  shows "rw_lock_ok (ps[i := p]) (rws_lock s')"
proof -
  define r a w where "r = at_points reads_now ps" and "a = at_points wants_write ps" and "w = at_points writes_now ps"
  define r' a' w' where "r' = at_points reads_now (ps[i := p])" and "a' = at_points wants_write (ps[i := p])" and "w' = at_points writes_now (ps[i := p])"
  have c: "r' + (if reads_now (ps ! i) then 1 else 0) = r + (if reads_now p then 1 else 0)"
    "a' + (if wants_write (ps ! i) then 1 else 0) = a + (if wants_write p then 1 else 0)"
    "w' + (if writes_now (ps ! i) then 1 else 0) = w + (if writes_now p then 1 else 0)"
    unfolding r_def a_def w_def r'_def a'_def w'_def by (rule counts_update [OF assms(2)])+
  have "rw_readers (rws_lock s) = r" "a = of_bool (rw_announced (rws_lock s))" "w = of_bool (rw_writing (rws_lock s))"
    "rw_writing (rws_lock s) \<longrightarrow> r = 0"
    using assms(1) unfolding rw_lock_ok_def r_def [symmetric] a_def [symmetric] w_def [symmetric] by auto
  moreover have "w \<le> a" unfolding a_def w_def by (rule counts_mono) simp
  ultimately have "rw_readers (rws_lock s') = r' \<and> a' = of_bool (rw_announced (rws_lock s')) \<and> w' = of_bool (rw_writing (rws_lock s')) \<and>
    (rw_writing (rws_lock s') \<longrightarrow> r' = 0)"
    using c assms(3) by (cases "ps ! i") (auto simp: rw_defs split: if_splits)
  then show ?thesis unfolding rw_lock_ok_def r'_def a'_def w'_def by simp
qed

lemma rw_go_inv_step:
  assumes "rw_go_inv (ps, s, out)" "i < length ps" "rw_worker i (ps ! i) s = Some (l, s', p)"
  shows "rw_go_inv (ps[i := p], s', out @ l)"
proof -
  note c = counts_update [OF assms(2), of _ p]
  have kind: "p \<in> {RdLock, RdRead, RdCount, RdUnlock, RdDone} \<longleftrightarrow> ps ! i \<in> {RdLock, RdRead, RdCount, RdUnlock, RdDone}"
    using assms(3) by (cases "ps ! i") auto
  have "rw_log i p = rw_log i (ps ! i) @ l" using assms(3) by (cases "ps ! i") auto
  then have log: "mset (out @ l) = entries rw_log (ps[i := p])"
    using assms(1) entries_update [OF assms(2)] by (simp add: rw_go_inv_def)
  define x where "x = at_points (\<lambda>p. p \<in> {RdUnlock, RdDone}) ps"
  define y where "y = at_points (\<lambda>p. p \<in> {WrUnlock, WrDone}) ps"
  define z where "z = at_points (\<lambda>p. p \<in> {WrCount, WrUnlock, WrDone}) ps"
  define x' where "x' = at_points (\<lambda>p. p \<in> {RdUnlock, RdDone}) (ps[i := p])"
  define y' where "y' = at_points (\<lambda>p. p \<in> {WrUnlock, WrDone}) (ps[i := p])"
  define z' where "z' = at_points (\<lambda>p. p \<in> {WrCount, WrUnlock, WrDone}) (ps[i := p])"
  have c: "x' + (if ps ! i \<in> {RdUnlock, RdDone} then 1 else 0) = x + (if p \<in> {RdUnlock, RdDone} then 1 else 0)"
    "y' + (if ps ! i \<in> {WrUnlock, WrDone} then 1 else 0) = y + (if p \<in> {WrUnlock, WrDone} then 1 else 0)"
    "z' + (if ps ! i \<in> {WrCount, WrUnlock, WrDone} then 1 else 0) = z + (if p \<in> {WrCount, WrUnlock, WrDone} then 1 else 0)"
    unfolding x_def y_def z_def x'_def y'_def z'_def by (rule counts_update [OF assms(2)])+
  have old: "length ps = 12" "\<forall>i < 12. ps ! i \<in> {RdLock, RdRead, RdCount, RdUnlock, RdDone} \<longleftrightarrow> i < 10" "rw_lock_ok ps (rws_lock s)"
    "rws_readOps s = int x" "rws_writeOps s = int y" "rws_cache s = (if z = 0 then rw_cache else fmupd ''updated_by'' ''writer'' rw_cache)"
    using assms(1) unfolding rw_go_inv_def prod.case x_def [symmetric] y_def [symmetric] z_def [symmetric] by - (elim conjE, assumption)+
  have "rws_readOps s' = int x'" using assms(3) old(4) c(1) by (cases "ps ! i") auto
  moreover have "rws_writeOps s' = int y'" using assms(3) old(5) c(2) by (cases "ps ! i") auto
  moreover have "rws_cache s' = (if z' = 0 then rw_cache else fmupd ''updated_by'' ''writer'' rw_cache)"
  proof (cases "ps ! i = WrUpdate")
    case True
    then show ?thesis using assms(3) old(6) c(3) by auto
  next
    case False
    then have "rws_cache s' = rws_cache s \<and> z' = z" using assms(3) c(3) by (cases "ps ! i") auto
    then show ?thesis using old(6) by simp
  qed
  moreover have "\<forall>j < 12. ps[i := p] ! j \<in> {RdLock, RdRead, RdCount, RdUnlock, RdDone} \<longleftrightarrow> j < 10"
    using old(1,2) kind assms(2) by (auto simp: nth_list_update)
  moreover note rw_lock_ok_step [OF old(3) assms(2,3)]
  ultimately show ?thesis
    unfolding rw_go_inv_def prod.case x'_def [symmetric] y'_def [symmetric] z'_def [symmetric] using old(1) log by simp
qed

text \<open>Whoever is inside can go on; else the writer that has announced itself can enter; else anybody.\<close>

lemma rw_go_progress:
  assumes "rw_go_inv (ps, s, out)" "counts rw_rank ps \<noteq> 0"
  shows "\<exists>c'. go_step rw_worker (ps, s, out) c'"
proof -
  have ok: "rw_lock_ok ps (rws_lock s)" using assms(1) by (simp add: rw_go_inv_def)
  consider p where "p \<in> set ps" "p \<in> {RdRead, RdCount, WrUpdate, WrCount}"
    | "RdUnlock \<in> set ps" | "WrUnlock \<in> set ps" | "\<forall>p \<in> set ps. \<not> reads_now p \<and> \<not> writes_now p" by blast
  then show ?thesis
  proof cases
    case 1
    then show ?thesis by (intro go_can [of p]) auto
  next
    case 2
    then have "at_points reads_now ps \<noteq> 0" by auto
    then have "rw_readers (rws_lock s) \<noteq> 0" using ok unfolding rw_lock_ok_def by simp
    then show ?thesis using 2 by (intro go_can [of RdUnlock]) (auto simp: rw_RUnlock_def)
  next
    case 3
    then have "at_points writes_now ps \<noteq> 0" by auto
    then have "rw_writing (rws_lock s)" using ok unfolding rw_lock_ok_def by (metis of_bool_eq(1))
    then show ?thesis using 3 by (intro go_can [of WrUnlock]) (auto simp: rw_Unlock_def)
  next
    case 4
    then have "at_points reads_now ps = 0" "at_points writes_now ps = 0" by auto
    then have free: "rw_readers (rws_lock s) = 0" "\<not> rw_writing (rws_lock s)"
      using ok unfolding rw_lock_ok_def by (metis, metis of_bool_eq_0_iff)
    obtain q where q: "q \<in> set ps" "rw_rank q \<noteq> 0" using assms(2) by (auto simp: counts_zero)
    show ?thesis
    proof (cases "rw_announced (rws_lock s)")
      case True
      then have "at_points wants_write ps \<noteq> 0" using ok unfolding rw_lock_ok_def by simp
      then have "WrLock \<in> set ps" using 4 by auto
      then show ?thesis using True free by (intro go_can [of WrLock]) (auto simp: rw_Lock_def)
    next
      case False
      then have "at_points wants_write ps = 0" using ok unfolding rw_lock_ok_def by simp
      then have "q \<notin> {WrLock, WrUpdate, WrCount, WrUnlock}" using q(1) by auto
      then have "q = RdLock \<or> q = WrAnnounce" using q(2) bspec [OF 4 q(1)] by (cases q) auto
      then show ?thesis using q(1) False by (intro go_can [of q]) (auto simp: rw_RLock_def rw_Announce_def)
    qed
  qed
qed

lemma rw_go_start: "rw_go_inv rw_start"
proof -
  have "entries rw_log (replicate 10 RdLock @ replicate 2 WrAnnounce) = {#}" by (rule entries_start) auto
  then show ?thesis by (auto simp: rw_go_inv_def rw_start_def rw_lock_ok_def NewReadWriteLock_def nth_append)
qed

lemma rw_go_reachable: "(go_step rw_worker)\<^sup>*\<^sup>* rw_start c \<Longrightarrow> rw_go_inv c"
  by (erule rw_go.steps_invariant) (rule rw_go_start, rule rw_go_inv_step)

text \<open>Nobody else uses the cache while it is written: the map is never accessed by two goroutines, one of which writes.\<close>

lemma rw_main_exclusive:
  assumes "(go_step rw_worker)\<^sup>*\<^sup>* rw_start (ps, s, out)" "i < length ps" "ps ! i = WrUpdate" "j < length ps" "j \<noteq> i"
  shows "ps ! j \<notin> {RdRead, WrUpdate}"
proof -
  have ok: "rw_lock_ok ps (rws_lock s)" using rw_go_reachable [OF assms(1)] by (simp add: rw_go_inv_def)
  have w: "at_points writes_now ps = 1" "at_points reads_now ps = 0"
  proof -
    have "1 \<le> at_points writes_now ps" using counts_at [OF assms(2), of "\<lambda>p. if writes_now p then 1 else 0"] assms(3) by simp
    then show "at_points writes_now ps = 1" "at_points reads_now ps = 0"
      using ok unfolding rw_lock_ok_def by (metis less_one not_less of_bool_eq(1) of_bool_eq(2))+
  qed
  have "ps ! j \<noteq> RdRead" using w(2) assms(4) by auto
  moreover have "ps ! j \<noteq> WrUpdate"
  proof
    assume "ps ! j = WrUpdate"
    then have "at_points writes_now (ps[i := WrDone]) \<ge> 1"
      using counts_at [of j "ps[i := WrDone]" "\<lambda>p. if writes_now p then 1 else 0"] assms(4,5) by simp
    then show False using counts_update [OF assms(2), of "\<lambda>p. if writes_now p then 1 else 0" WrDone] w(1) assms(3) by simp
  qed
  ultimately show ?thesis by simp
qed

text \<open>Every run can be completed; the log then has each reader and each writer once, and the counts are exact.\<close>

lemma rw_main_logs:
  "(\<exists>r. rw_main r) \<and> (\<forall>r. rw_main r \<longrightarrow> (\<exists>out. r = operation 45 [] (Inr ([(47, []), (48, [])] @ out @
     [(99, []), (100, [SInt 10]), (101, [SInt 2]), (102, [SInt 4]), (103, [SWall]), (104, [SWall, SInt 10, SInt 2])])) \<and>
     mset out = mset (map (\<lambda>i. (71, [SInt i])) [0..9] @ map (\<lambda>i. (87, [SInt i])) [0..1])))"
proof -
  let ?fin = "replicate 10 RdDone @ replicate 2 WrDone"
  have log: "rws_readOps s = 10 \<and> rws_writeOps s = 2 \<and> gm_len (rws_cache s) = 4 \<and>
      mset out = mset (map (\<lambda>i. (71, [SInt i])) [0..9] @ map (\<lambda>i. (87, [SInt i])) [0..1])"
    if r: "(go_step rw_worker)\<^sup>*\<^sup>* rw_start (?fin, s, out)" for s out
  proof -
    have inv: "rw_go_inv (?fin, s, out)" using r by (rule rw_go_reachable)
    have "gm_len (fmupd ''updated_by'' ''writer'' rw_cache) = 4" by code_simp
    moreover have "entries rw_log ?fin = mset (map (\<lambda>i. (71, [SInt i])) [0..9] @ map (\<lambda>i. (87, [SInt i])) [0..1])"
      by code_simp
    ultimately show ?thesis using inv by (simp add: rw_go_inv_def del: mset_append)
  qed
  obtain ps s out where c: "(go_step rw_worker)\<^sup>*\<^sup>* rw_start (ps, s, out)" "counts rw_rank ps = 0" "rw_go_inv (ps, s, out)"
    using rw_go.ends [where P = rw_go_inv, OF rw_go_start] rw_go_inv_step rw_go_progress by metis
  have "ps = ?fin"
  proof (rule nth_equalityI)
    show "length ps = length ?fin" using c(3) by (simp add: rw_go_inv_def)
    fix i assume i: "i < length ps"
    then have "rw_rank (ps ! i) = 0" "i < 12" using c(2,3) by (simp_all add: counts_zero rw_go_inv_def)
    moreover from this have "ps ! i \<in> {RdLock, RdRead, RdCount, RdUnlock, RdDone} \<longleftrightarrow> i < 10"
      using c(3) unfolding rw_go_inv_def prod.case by metis
    ultimately show "ps ! i = ?fin ! i" by (cases "ps ! i"; cases "i < 10") (simp_all add: nth_append)
  qed
  then show ?thesis using c(1) log unfolding rw_main_def by (metis of_nat_numeral)
qed

end
