(* ===== verification/Demo_Parallel.thy ===== *)
theory Demo_Parallel
  imports Demo_Log Parallel_Map Promise Channels "HOL-Library.Signed_Division"
begin

text \<open>
  The \<open>main\<close> functions of \<open>src/13\<close>, \<open>src/14\<close>, \<open>src/17\<close> and \<open>src/18\<close>. Their goroutines are those of the components, whose step relations give the
  interleavings; \<open>X_main r\<close> holds if \<open>r\<close> is the result of a run. There is always one, and only one result.
\<close>

subsection \<open>Worker pool\<close>

definition images :: "int list" where
  "images = [1200, 800, 1600, 2400, 3200, 640, 1920, 1080, 2560, 1440]"

definition thumbnail :: "int \<Rightarrow> int" where
  "thumbnail n = n * n"

definition workers_main :: "log outcome \<Rightarrow> bool" where
  "workers_main r \<longleftrightarrow> (\<exists>s0 es s. RunWorkerPool 0 3 images = Inr s0 \<and> runs (pm_step thumbnail images) s0 es s \<and> pm_returned images s \<and>
     r = operation 57 [] (Inr ([(59, []), (64, [SInt (int (length images)), SInt 3]), (74, [])] @
       concat (map (\<lambda>(i, r). [(76, [SInt (int i)]), (77, [SInt r])]) (enumerate 0 (pm_results s))) @
       [(80, []), (81, [SInt (int (length images))]), (82, [SInt 3]), (83, [SWall]), (84, [SWall])])))"

text \<open>A pool of the right size returns, and its results are those of the handler, in order.\<close>

lemma pm_returns:
  assumes "0 < workers"
  shows "\<exists>es s. runs (pm_step handler jobs) (pm_init zero workers jobs) es s \<and> pm_returned jobs s"
    and "runs (pm_step handler jobs) (pm_init zero workers jobs) es s \<Longrightarrow> pm_returned jobs s \<Longrightarrow> pm_results s = map handler jobs"
proof -
  show "\<exists>es s. runs (pm_step handler jobs) (pm_init zero workers jobs) es s \<and> pm_returned jobs s"
    by (rule pm_completes [OF pm_init_inv(1)]) (use assms in simp)
  show "runs (pm_step handler jobs) (pm_init zero workers jobs) es s \<Longrightarrow> pm_returned jobs s \<Longrightarrow> pm_results s = map handler jobs"
    by (rule pm_returned_results [OF pm_runs_init(1)])
qed

lemma workers_main_logs:
  "workers_main r \<longleftrightarrow> r = operation 57 [] (Inr [(59, []), (64, [SInt 10, SInt 3]), (74, []),
     (76, [SInt 0]), (77, [SInt 1440000]), (76, [SInt 1]), (77, [SInt 640000]), (76, [SInt 2]), (77, [SInt 2560000]),
     (76, [SInt 3]), (77, [SInt 5760000]), (76, [SInt 4]), (77, [SInt 10240000]), (76, [SInt 5]), (77, [SInt 409600]),
     (76, [SInt 6]), (77, [SInt 3686400]), (76, [SInt 7]), (77, [SInt 1166400]), (76, [SInt 8]), (77, [SInt 6553600]),
     (76, [SInt 9]), (77, [SInt 2073600]), (80, []), (81, [SInt 10]), (82, [SInt 3]), (83, [SWall]), (84, [SWall])])"
proof -
  have new: "RunWorkerPool 0 3 images = Inr (pm_init 0 3 images)" by (simp add: RunWorkerPool_def)
  have "pm_results s = map thumbnail images" if "runs (pm_step thumbnail images) (pm_init 0 3 images) es s" "pm_returned images s" for es s
    using that by (intro pm_returns(2) [of 3]) simp_all
  moreover have "\<exists>es s. runs (pm_step thumbnail images) (pm_init 0 3 images) es s \<and> pm_returned images s" by (rule pm_returns(1)) simp
  ultimately have "workers_main r \<longleftrightarrow> r = operation 57 [] (Inr ([(59, []), (64, [SInt (int (length images)), SInt 3]), (74, [])] @
       concat (map (\<lambda>(i, r). [(76, [SInt (int i)]), (77, [SInt r])]) (enumerate 0 (map thumbnail images))) @
       [(80, []), (81, [SInt (int (length images))]), (82, [SInt 3]), (83, [SWall]), (84, [SWall])]))"
    unfolding workers_main_def new by fastforce
  then show ?thesis by (simp add: images_def thumbnail_def)
qed

subsection \<open>Fan-out, fan-in\<close>

definition image_sizes :: "int list" where
  "image_sizes = [1920, 1080, 2560, 1440, 3840, 2160, 1280, 720]"

definition resize :: "int \<Rightarrow> int" where
  "resize n = n sdiv 2"

definition fan_main :: "log outcome \<Rightarrow> bool" where
  "fan_main r \<longleftrightarrow> (\<exists>es s. runs (pm_step resize image_sizes) (FanOutFanIn 0 image_sizes 4) es s \<and> pm_returned image_sizes s \<and>
     r = operation 46 [] (Inr ([(48, []), (49, []), (63, [])] @
       concat (map (\<lambda>(i, r). [(65, [SInt (int i)]), (66, [SInt (image_sizes ! i)]), (67, [SInt r])]) (enumerate 0 (pm_results s))) @
       [(70, []), (71, [SInt (int (length image_sizes))]), (72, [SInt 4]), (73, [SWall]), (74, [SWall])])))"

lemma fan_main_logs:
  "fan_main r \<longleftrightarrow> r = operation 46 [] (Inr [(48, []), (49, []), (63, []),
     (65, [SInt 0]), (66, [SInt 1920]), (67, [SInt 960]), (65, [SInt 1]), (66, [SInt 1080]), (67, [SInt 540]),
     (65, [SInt 2]), (66, [SInt 2560]), (67, [SInt 1280]), (65, [SInt 3]), (66, [SInt 1440]), (67, [SInt 720]),
     (65, [SInt 4]), (66, [SInt 3840]), (67, [SInt 1920]), (65, [SInt 5]), (66, [SInt 2160]), (67, [SInt 1080]),
     (65, [SInt 6]), (66, [SInt 1280]), (67, [SInt 640]), (65, [SInt 7]), (66, [SInt 720]), (67, [SInt 360]),
     (70, []), (71, [SInt 8]), (72, [SInt 4]), (73, [SWall]), (74, [SWall])])"
proof -
  have "pm_results s = map resize image_sizes" if "runs (pm_step resize image_sizes) (pm_init 0 4 image_sizes) es s" "pm_returned image_sizes s" for es s
    using that by (intro pm_returns(2) [of 4]) simp_all
  moreover have "\<exists>es s. runs (pm_step resize image_sizes) (pm_init 0 4 image_sizes) es s \<and> pm_returned image_sizes s" by (rule pm_returns(1)) simp
  ultimately have "fan_main r \<longleftrightarrow> r = operation 46 [] (Inr ([(48, []), (49, []), (63, [])] @
       concat (map (\<lambda>(i, r). [(65, [SInt (int i)]), (66, [SInt (image_sizes ! i)]), (67, [SInt r])]) (enumerate 0 (map resize image_sizes))) @
       [(70, []), (71, [SInt (int (length image_sizes))]), (72, [SInt 4]), (73, [SWall]), (74, [SWall])]))"
    unfolding fan_main_def FanOutFanIn_def by fastforce
  then show ?thesis by (simp add: image_sizes_def resize_def signed_divide_int_def)
qed

subsection \<open>Promise\<close>

text \<open>The two result types of the futures, as one type.\<close>

datatype fetched = FUser int | FProfile string

definition fetch_user :: "(fetched, string) pr_result" where
  "fetch_user = (FUser 10042, None)"

definition fetch_profile :: "fetched \<Rightarrow> (fetched, string) pr_result" where
  "fetch_profile userID = (FProfile ''John Doe <john@example.com>'', None)"

fun shown_fetched :: "fetched \<Rightarrow> shown" where
  "shown_fetched (FUser i) = SInt i"
| "shown_fetched (FProfile s) = SStr s"

text \<open>
  What the goroutines log: the first before it stores its result, the second when \<open>next\<close> runs on the first result.
  \<open>main\<close> has nothing to do meanwhile, it waits in \<open>Await\<close>.
\<close>

fun fetch_log :: "(fetched, string) pr_event \<Rightarrow> log" where
  "fetch_log (PrResolve i) = (if i = 0 then [(70, [])] else [])"
| "fetch_log (PrChain i) = [(76, [shown_fetched (fst fetch_user)])]"
| "fetch_log (PrAwait i r) = []"

definition promise_main :: "log outcome \<Rightarrow> bool" where
  "promise_main result \<longleftrightarrow> (let (future, s) = pr_Async fetch_user pr_empty; (chained, s) = pr_Then future fetch_profile s in
     \<exists>es s' profile err. runs (pr_step (FProfile [])) s (es @ [PrAwait chained (profile, err)]) s' \<and> (\<forall>i x. PrAwait i x \<notin> set es) \<and>
       result = operation 62 [] (Inr ([(64, []), (65, [])] @ concat (map fetch_log es) @ [(84, [shown_fetched profile]), (86, []),
         (87, [shown_fetched profile]), (88, [case err of None \<Rightarrow> SNil | Some e \<Rightarrow> SErr e]), (89, [SWall]), (90, [SWall])])))"

lemma promise_main_logs:
  "promise_main r \<longleftrightarrow> r = operation 62 [] (Inr [(64, []), (65, []), (70, []), (76, [SInt 10042]),
     (84, [SStr ''John Doe <john@example.com>'']), (86, []), (87, [SStr ''John Doe <john@example.com>'']), (88, [SNil]), (89, [SWall]), (90, [SWall])])"
proof -
  let ?s = "pr_chain_states (FProfile []) fetch_user fetch_profile ! 0" and ?E = "pr_chain_events (FProfile []) fetch_user fetch_profile"
  let ?p = "FProfile ''John Doe <john@example.com>''"
  have start: "pr_Async fetch_user pr_empty = (0, \<lparr>pr_tasks = [PrRun fetch_user], pr_chans = [None]\<rparr>)"
    "pr_Then 0 fetch_profile \<lparr>pr_tasks = [PrRun fetch_user], pr_chans = [None]\<rparr> = (1, ?s)"
    by (simp_all add: pr_Async_def pr_Then_def pr_go_def pr_empty_def pr_chain_states_def)
  have E: "?E = [PrResolve 0, PrChain 1, PrResolve 1] @ [PrAwait 1 (?p, None)]"
    by (simp add: pr_chain_events_def pr_continue_def fetch_user_def fetch_profile_def)
  have only: "es = [PrResolve 0, PrChain 1, PrResolve 1] \<and> profile = ?p \<and> err = None"
    if "runs (pr_step (FProfile [])) ?s (es @ [PrAwait 1 (profile, err)]) s'" "\<forall>i x. PrAwait i x \<notin> set es" for es s' profile err
  proof -
    let ?es = "es @ [PrAwait 1 (profile, err)]"
    have no: "\<forall>x. PrAwait 0 x \<notin> set ?es" using that(2) by simp
    have pre: "length ?es \<le> 4" "?es = take (length ?es) ?E"
      using pr_chain_runs [OF that(1) refl le0 no] unfolding add_0 drop_0 by blast+
    have "length es = 3"
    proof (rule ccontr)
      assume "length es \<noteq> 3"
      then have "length ?es \<le> 3" using pre(1) by simp
      then have "set (take (length ?es) ?E) \<subseteq> set (take 3 ?E)" by (rule set_take_subset_set_take)
      then have "PrAwait 1 (profile, err) \<in> set (take 3 ?E)" using pre(2) by (metis in_set_conv_decomp subsetD)
      then show False by (simp add: E)
    qed
    then show ?thesis using pre(2) unfolding E by simp
  qed
  have "runs (pr_step (FProfile [])) ?s ([PrResolve 0, PrChain 1, PrResolve 1] @ [PrAwait 1 (?p, None)]) (pr_chain_states (FProfile []) fetch_user fetch_profile ! 4)"
    using pr_chain_run unfolding E [symmetric] .
  note run = this
  let ?log = "\<lambda>es profile err. operation 62 [] (Inr ([(64, []), (65, [])] @ concat (map fetch_log es) @ [(84, [shown_fetched profile]), (86, []),
     (87, [shown_fetched profile]), (88, [case err of None \<Rightarrow> SNil | Some e \<Rightarrow> SErr e]), (89, [SWall]), (90, [SWall])]))"
  have "promise_main r \<longleftrightarrow> r = ?log [PrResolve 0, PrChain 1, PrResolve 1] ?p None"
  proof
    assume "promise_main r"
    then obtain es s' profile err where "runs (pr_step (FProfile [])) ?s (es @ [PrAwait 1 (profile, err)]) s'"
      "\<forall>i x. PrAwait i x \<notin> set es" "r = ?log es profile err"
      unfolding promise_main_def start Let_def prod.case by blast
    then show "r = ?log [PrResolve 0, PrChain 1, PrResolve 1] ?p None" using only by blast
  next
    assume r: "r = ?log [PrResolve 0, PrChain 1, PrResolve 1] ?p None"
    have no: "\<forall>i x. PrAwait i x \<notin> set [PrResolve 0, PrChain 1, PrResolve 1]" by simp
    show "promise_main r" unfolding promise_main_def start Let_def prod.case using run no r by blast
  qed
  then show ?thesis by (simp add: fetch_user_def)
qed

subsection \<open>Channel pool\<close>

text \<open>
  Three channels, known by the number of the factory call; \<open>chans\<close> is what is in them. In each round the goroutine's send
  comes before the receive of \<open>main\<close>, which blocks on an empty channel. \<open>None\<close> is a round that blocks for ever.
\<close>

definition route :: "string \<Rightarrow> nat channel_pool \<times> (nat \<Rightarrow> string channel) \<times> string list \<Rightarrow>
    (nat channel_pool \<times> (nat \<Rightarrow> string channel) \<times> string list) option" where
  "route msg = (\<lambda>(pool, chans, received). case cp_Acquire pool of None \<Rightarrow> None | Some (ch, pool) \<Rightarrow>
     (case chan_send msg (chans ch) of None \<Rightarrow> None | Some c \<Rightarrow>
     (case chan_recv c of None \<Rightarrow> None | Some (m, c) \<Rightarrow>
     (case cp_Release ch pool of None \<Rightarrow> None | Some pool \<Rightarrow> Some (pool, chans(ch := c), received @ [m])))))"

definition messages :: "string list" where
  "messages = [''order.created'', ''payment.received'', ''shipment.dispatched'', ''invoice.generated'', ''refund.processed'']"

definition router_main :: "log outcome option" where
  "router_main = (case NewChannelPool 3 (\<lambda>i. i) of Inl e \<Rightarrow> Some (operation 53 [] (Inl e)) | Inr None \<Rightarrow> None | Inr (Some pool) \<Rightarrow>
     map_option (\<lambda>(pool, chans, received). operation 53 [] (Inr ([(55, []), (56, []), (81, [])] @ map (\<lambda>m. (83, [SStr m])) received @
         [(86, []), (87, [SInt 3]), (88, [SInt (int (length messages))]), (89, [SWall]), (90, [SWall])])))
       (fold (\<lambda>msg s. Option.bind s (route msg)) messages (Some (pool, \<lambda>_. make_chan 1, []))))"

lemma router_main_logs:
  "router_main = Some (operation 53 [] (Inr [(55, []), (56, []), (81, []), (83, [SStr ''order.created'']), (83, [SStr ''payment.received'']),
     (83, [SStr ''shipment.dispatched'']), (83, [SStr ''invoice.generated'']), (83, [SStr ''refund.processed'']), (86, []), (87, [SInt 3]),
     (88, [SInt 5]), (89, [SWall]), (90, [SWall])]))"
proof -
  have new: "NewChannelPool 3 (\<lambda>i. i) = Inr (Some \<lparr>ch_cap = 3, ch_buf = [0, 1, 2]\<rparr>)"
    by (simp add: NewChannelPool_def cp_fill_ok make_chan_def upt_rec)
  have round: "route msg (\<lparr>ch_cap = 3, ch_buf = [a, b, c]\<rparr>, \<lambda>_. make_chan 1, received) =
      Some (\<lparr>ch_cap = 3, ch_buf = [b, c, a]\<rparr>, \<lambda>_. make_chan 1, received @ [msg])" for msg a b c received
    by (simp add: route_def cp_Acquire_def cp_Release_def chan_send_def chan_recv_def make_chan_def fun_eq_iff)
  show ?thesis by (simp add: router_main_def new messages_def round [unfolded One_nat_def])
qed

end
