(* ===== verification/Demo_Queues.thy ===== *)
theory Demo_Queues
  imports Go_Threads Channels Connection_Pool
begin

text \<open>
  The \<open>main\<close> functions of \<open>src/19\<close> and \<open>src/20\<close>, as in \<open>Demo_Threads\<close>. The events of \<open>src/19\<close> all arrive, each once. The pool of \<open>src/20\<close>
  does not make its clients wait: requests fail as soon as three are being served, and are counted as handled.
\<close>

subsection \<open>Bounded queue\<close>

text \<open>The program points of a producer and of a consumer; the number counts the finished rounds of its loop.\<close>

datatype ev_point = PrStep nat | PrEnqueue nat | PrCount nat | PrEnd | PrFin
  | CoDequeue nat | CoStep nat string | CoCount nat | CoEnd | CoFin

record ev_shared =
  evs_queue :: "string bounded_queue"
  evs_produced :: int
  evs_consumed :: int

definition ev_name :: "nat \<Rightarrow> nat \<Rightarrow> string" where
  "ev_name producerID i = ''event_'' @ [char_of (65 + producerID)] @ ''_'' @ [char_of (48 + i)]"

text \<open>Goroutines 0 and 1 are the producers, 2 to 4 the consumers. The counters are under a mutex.\<close>

fun ev_worker :: "(ev_point, ev_shared) act" where
  "ev_worker g (PrStep i) s = Some ([(68, [SInt (int g), SStr (ev_name g i)])], s, PrEnqueue i)"
| "ev_worker g (PrEnqueue i) s = map_option (\<lambda>q. ([], s\<lparr>evs_queue := q\<rparr>, PrCount i)) (bq_Enqueue (ev_name g i) (evs_queue s))"
| "ev_worker g (PrCount i) s = Some ([], s\<lparr>evs_produced := evs_produced s + 1\<rparr>, if i + 1 < 12 div 2 then PrStep (i + 1) else PrEnd)"
| "ev_worker g PrEnd s = Some ([(75, [SInt (int g)])], s, PrFin)"
| "ev_worker g PrFin s = None"
| "ev_worker g (CoDequeue i) s = map_option (\<lambda>(event, q). ([], s\<lparr>evs_queue := q\<rparr>, CoStep i event)) (bq_Dequeue (evs_queue s))"
| "ev_worker g (CoStep i event) s = Some ([(86, [SInt (int g - 2), SStr event])], s, CoCount i)"
| "ev_worker g (CoCount i) s = Some ([], s\<lparr>evs_consumed := evs_consumed s + 1\<rparr>, if i + 1 < 12 div 3 then CoDequeue (i + 1) else CoEnd)"
| "ev_worker g CoEnd s = Some ([(92, [SInt (int g - 2)])], s, CoFin)"
| "ev_worker g CoFin s = None"

definition ev_start :: "string bounded_queue \<Rightarrow> (ev_point, ev_shared) threads" where
  "ev_start queue = (replicate 2 (PrStep 0) @ replicate 3 (CoDequeue 0), \<lparr>evs_queue = queue, evs_produced = 0, evs_consumed = 0\<rparr>, [])"

definition queue_main :: "log outcome \<Rightarrow> bool" where
  "queue_main result \<longleftrightarrow> (\<exists>queue s out. NewBoundedQueue 3 = Inr queue \<and>
     (go_step ev_worker)\<^sup>*\<^sup>* (ev_start queue) (replicate 2 PrFin @ replicate 3 CoFin, s, out) \<and>
     result = operation 45 [] (Inr ([(47, []), (48, [])] @ out @
       [(99, []), (100, [SInt 3]), (101, [SInt 12]), (102, [SInt (evs_produced s)]), (103, [SInt (evs_consumed s)]), (104, [SWall]),
        (105, [SWall, SInt (evs_produced s), SInt (evs_consumed s)])])))"

fun ev_rank :: "ev_point \<Rightarrow> nat" where
  "ev_rank (PrStep i) = 3 * (5 - i) + 4" | "ev_rank (PrEnqueue i) = 3 * (5 - i) + 3" | "ev_rank (PrCount i) = 3 * (5 - i) + 2"
| "ev_rank PrEnd = 1" | "ev_rank PrFin = 0"
| "ev_rank (CoDequeue i) = 3 * (3 - i) + 4" | "ev_rank (CoStep i v) = 3 * (3 - i) + 3" | "ev_rank (CoCount i) = 3 * (3 - i) + 2"
| "ev_rank CoEnd = 1" | "ev_rank CoFin = 0"

interpretation ev_go: go_program ev_worker ev_rank
  by unfold_locales (erule ev_worker.elims; auto simp: map_option_case split: option.splits)

subsubsection \<open>What the program points say\<close>

fun ev_ok :: "nat \<Rightarrow> ev_point \<Rightarrow> bool" where
  "ev_ok g (PrStep i) = (g < 2 \<and> i < 6)" | "ev_ok g (PrEnqueue i) = (g < 2 \<and> i < 6)" | "ev_ok g (PrCount i) = (g < 2 \<and> i < 6)"
| "ev_ok g PrEnd = (g < 2)" | "ev_ok g PrFin = (g < 2)"
| "ev_ok g (CoDequeue i) = (2 \<le> g \<and> i < 4)" | "ev_ok g (CoStep i v) = (2 \<le> g \<and> i < 4)" | "ev_ok g (CoCount i) = (2 \<le> g \<and> i < 4)"
| "ev_ok g CoEnd = (2 \<le> g)" | "ev_ok g CoFin = (2 \<le> g)"

text \<open>Events enqueued, dequeued, counted as produced, counted as consumed, and dequeued but not yet logged.\<close>

fun ev_enq :: "ev_point \<Rightarrow> nat" where
  "ev_enq (PrStep i) = i" | "ev_enq (PrEnqueue i) = i" | "ev_enq (PrCount i) = i + 1" | "ev_enq PrEnd = 6" | "ev_enq PrFin = 6" | "ev_enq _ = 0"

fun ev_deq :: "ev_point \<Rightarrow> nat" where
  "ev_deq (CoDequeue i) = i" | "ev_deq (CoStep i v) = i + 1" | "ev_deq (CoCount i) = i + 1" | "ev_deq CoEnd = 4" | "ev_deq CoFin = 4" | "ev_deq _ = 0"

fun ev_made :: "ev_point \<Rightarrow> nat" where
  "ev_made (PrStep i) = i" | "ev_made (PrEnqueue i) = i" | "ev_made (PrCount i) = i" | "ev_made PrEnd = 6" | "ev_made PrFin = 6" | "ev_made _ = 0"

fun ev_used :: "ev_point \<Rightarrow> nat" where
  "ev_used (CoDequeue i) = i" | "ev_used (CoStep i v) = i" | "ev_used (CoCount i) = i" | "ev_used CoEnd = 4" | "ev_used CoFin = 4" | "ev_used _ = 0"

fun ev_pending :: "ev_point \<Rightarrow> string multiset" where
  "ev_pending (CoStep i v) = {#v#}" | "ev_pending _ = {#}"

definition ev_sent :: "nat \<Rightarrow> ev_point \<Rightarrow> string multiset" where
  "ev_sent g p = mset (map (ev_name g) [0..<ev_enq p])"

text \<open>The events that the consumers log, and the other entries of the log.\<close>

fun ev_shown :: "nat \<times> shown list \<Rightarrow> string option" where
  "ev_shown (line, [_, SStr v]) = (if line = 86 then Some v else None)"
| "ev_shown _ = None"

definition handled :: "log \<Rightarrow> string multiset" where
  "handled out = mset (List.map_filter ev_shown out)"

lemma handled_simps [simp]: "handled [] = {#}" "handled (out @ out') = handled out + handled out'"
  "handled [e] = (case ev_shown e of None \<Rightarrow> {#} | Some v \<Rightarrow> {#v#})"
  by (simp_all add: handled_def List.map_filter_def split: option.split)

fun ev_log :: "nat \<Rightarrow> ev_point \<Rightarrow> log" where
  "ev_log g (PrStep i) = map (\<lambda>i. (68, [SInt (int g), SStr (ev_name g i)])) [0..<i]"
| "ev_log g (PrEnqueue i) = map (\<lambda>i. (68, [SInt (int g), SStr (ev_name g i)])) [0..<i + 1]"
| "ev_log g (PrCount i) = map (\<lambda>i. (68, [SInt (int g), SStr (ev_name g i)])) [0..<i + 1]"
| "ev_log g PrEnd = map (\<lambda>i. (68, [SInt (int g), SStr (ev_name g i)])) [0..<6]"
| "ev_log g PrFin = map (\<lambda>i. (68, [SInt (int g), SStr (ev_name g i)])) [0..<6] @ [(75, [SInt (int g)])]"
| "ev_log g CoFin = [(92, [SInt (int g - 2)])]"
| "ev_log g _ = []"

definition ev_inv :: "(ev_point, ev_shared) threads \<Rightarrow> bool" where
  "ev_inv = (\<lambda>(ps, s, out). length ps = 5 \<and> (\<forall>g < 5. ev_ok g (ps ! g)) \<and> ch_cap (evs_queue s) = 3 \<and> length (ch_buf (evs_queue s)) \<le> 3 \<and>
     counts ev_enq ps = counts ev_deq ps + length (ch_buf (evs_queue s)) \<and>
     evs_produced s = int (counts ev_made ps) \<and> evs_consumed s = int (counts ev_used ps) \<and>
     totals ev_sent ps = mset (ch_buf (evs_queue s)) + totals (\<lambda>_. ev_pending) ps + handled out \<and>
     mset (filter (\<lambda>e. fst e \<noteq> 86) out) = entries ev_log ps)"

subsubsection \<open>A step\<close>

lemma ev_act_ok: "ev_ok g q \<Longrightarrow> ev_worker g q s = Some (l, s', p) \<Longrightarrow> ev_ok g p"
  by (cases q) (auto split: if_splits)

lemma ev_act_queue:
  assumes "ev_ok g q" "ev_worker g q s = Some (l, s', p)"
  shows "ch_cap (evs_queue s') = ch_cap (evs_queue s)"
    and "length (ch_buf (evs_queue s)) \<le> ch_cap (evs_queue s) \<Longrightarrow> length (ch_buf (evs_queue s')) \<le> ch_cap (evs_queue s)"
    and "ev_enq p + ev_deq q + length (ch_buf (evs_queue s)) = ev_enq q + ev_deq p + length (ch_buf (evs_queue s'))"
  using assms by (cases q; auto simp: bq_Enqueue_def bq_Dequeue_def chan_send_def chan_recv_def split: if_splits list.splits)+

lemma ev_act_counts:
  assumes "ev_ok g q" "ev_worker g q s = Some (l, s', p)"
  shows "evs_produced s' + int (ev_made q) = evs_produced s + int (ev_made p)"
    and "evs_consumed s' + int (ev_used q) = evs_consumed s + int (ev_used p)"
  using assms by (cases q; auto split: if_splits)+

lemma ev_last: "i < 6 \<Longrightarrow> \<not> i < 5 \<Longrightarrow> {0..<6} = insert i {0..<i}" "i < 6 \<Longrightarrow> \<not> i < 5 \<Longrightarrow> [0..<6] = [0..<i] @ [i]" for i :: nat
  by (auto simp: le_less_Suc_eq upt_rec)

lemma balance:
  fixes a :: "'a multiset"
  assumes "A' + a = A + a'" "P' + p = P + p'" "a' + B + p = a + B' + p' + h" "A = B + P + H"
  shows "A' = B' + P' + (H + h)"
proof (rule multiset_eqI)
  fix x
  have "count (A' + a) x = count (A + a') x" "count (P' + p) x = count (P + p') x"
    "count (a' + B + p) x = count (a + B' + p' + h) x" "count A x = count (B + P + H) x"
    by (simp_all only: assms)
  then show "count A' x = count (B' + P' + (H + h)) x" by simp
qed

lemma ev_act_events:
  assumes "ev_ok g q" "ev_worker g q s = Some (l, s', p)"
  shows "ev_sent g p + mset (ch_buf (evs_queue s)) + ev_pending q = ev_sent g q + mset (ch_buf (evs_queue s')) + ev_pending p + handled l"
  using assms by (cases q) (auto simp: bq_Enqueue_def bq_Dequeue_def chan_send_def chan_recv_def ev_sent_def atLeast0_lessThan_Suc ev_last
    split: if_splits list.splits)

lemma ev_act_log:
  assumes "ev_ok g q" "ev_worker g q s = Some (l, s', p)"
  shows "ev_log g p = ev_log g q @ filter (\<lambda>e. fst e \<noteq> 86) l"
  using assms by (cases q) (auto simp: ev_last split: if_splits)

lemma ev_inv_step:
  assumes "ev_inv (ps, s, out)" "g < length ps" "ev_worker g (ps ! g) s = Some (l, s', p)"
  shows "ev_inv (ps[g := p], s', out @ l)"
proof -
  have ok: "ev_ok g (ps ! g)" "length ps = 5" using assms(1,2) by (simp_all add: ev_inv_def)
  note act = ev_act_ok [OF ok(1) assms(3)] ev_act_queue [OF ok(1) assms(3)] ev_act_counts [OF ok(1) assms(3)]
    ev_act_events [OF ok(1) assms(3)] ev_act_log [OF ok(1) assms(3)]
  have inv: "ch_cap (evs_queue s) = 3" "length (ch_buf (evs_queue s)) \<le> 3" "\<forall>g < 5. ev_ok g (ps ! g)"
    "counts ev_enq ps = counts ev_deq ps + length (ch_buf (evs_queue s))"
    "evs_produced s = int (counts ev_made ps)" "evs_consumed s = int (counts ev_used ps)"
    "totals ev_sent ps = mset (ch_buf (evs_queue s)) + totals (\<lambda>_. ev_pending) ps + handled out"
    "mset (filter (\<lambda>e. fst e \<noteq> 86) out) = entries ev_log ps"
    using assms(1) by (simp_all add: ev_inv_def)
  note c = counts_update [OF assms(2), of _ p]
  have "counts ev_enq (ps[g := p]) = counts ev_deq (ps[g := p]) + length (ch_buf (evs_queue s'))"
    using inv(4) act(4) c [of ev_enq] c [of ev_deq] by linarith
  moreover have "evs_produced s' = int (counts ev_made (ps[g := p]))" "evs_consumed s' = int (counts ev_used (ps[g := p]))"
    using inv(5,6) act(5,6) c [of ev_made] c [of ev_used] by linarith+
  moreover have "totals ev_sent (ps[g := p]) = mset (ch_buf (evs_queue s')) + totals (\<lambda>_. ev_pending) (ps[g := p]) + handled (out @ l)"
    using balance [OF totals_update [OF assms(2), of ev_sent p] totals_update [OF assms(2), of "\<lambda>_. ev_pending" p] act(7) inv(7)] by simp
  moreover have "mset (filter (\<lambda>e. fst e \<noteq> 86) (out @ l)) = entries ev_log (ps[g := p])"
    using inv(8) entries_update [of g ps ev_log p, OF assms(2) act(8)] by simp
  moreover have "\<forall>j < 5. ev_ok j (ps[g := p] ! j)" using inv(3) act(1) assms(2) by (auto simp: nth_list_update)
  ultimately show ?thesis using inv(1,2) act(2,3) ok(2) by (simp add: ev_inv_def)
qed

subsubsection \<open>No deadlock\<close>

lemma ev_enq_le: "ev_ok g p \<Longrightarrow> ev_enq p \<le> (if g < 2 then 6 else 0)"
  by (cases p) auto

lemma ev_deq_le: "ev_ok g p \<Longrightarrow> ev_deq p \<le> (if g < 2 then 0 else 4)"
  by (cases p) auto

lemma five: "length ps = 5 \<Longrightarrow> \<exists>a b c d e. ps = [a, b, c, d, e]"
  by (auto simp: length_Suc_conv numeral_eq_Suc)

lemma ev_progress:
  assumes "ev_inv (ps, s, out)" "counts ev_rank ps \<noteq> 0"
  shows "\<exists>c'. go_step ev_worker (ps, s, out) c'"
proof -
  let ?buf = "ch_buf (evs_queue s)"
  have len: "length ps = 5" and q: "ch_cap (evs_queue s) = 3" "counts ev_enq ps = counts ev_deq ps + length ?buf"
    using assms(1) by (simp_all add: ev_inv_def)
  obtain a b c d e where ps: "ps = [a, b, c, d, e]" using five [OF len] by blast
  have "ev_ok g (ps ! g)" if "g < 5" for g using assms(1) that by (simp add: ev_inv_def)
  from this [of 0] this [of 1] this [of 2] this [of 3] this [of 4]
  have ok: "ev_ok 0 a" "ev_ok 1 b" "ev_ok 2 c" "ev_ok 3 d" "ev_ok 4 e" by (simp_all add: ps)
  note le = ok [THEN ev_enq_le] ok [THEN ev_deq_le]
  consider p where "p \<in> set ps" "ev_rank p \<noteq> 0" "\<forall>i. p \<noteq> PrEnqueue i \<and> p \<noteq> CoDequeue i"
    | "\<forall>p \<in> set ps. ev_rank p \<noteq> 0 \<longrightarrow> (\<exists>i. p = PrEnqueue i \<or> p = CoDequeue i)" by blast
  then show ?thesis
  proof cases
    case 1
    have "ev_worker g p s \<noteq> None" for g using 1(2,3) by (cases p) auto
    then show ?thesis using 1(1) by (intro go_can [of p]) auto
  next
    case 2
    show ?thesis
    proof (cases "?buf = []")
      case True
      have "\<exists>i. PrEnqueue i \<in> set ps"
      proof (rule ccontr)
        assume no: "\<not> (\<exists>i. PrEnqueue i \<in> set ps)"
        have "p = PrFin" if "p \<in> set ps" "ev_ok g p" "g < 2" for p g using 2 no that by (cases p) auto
        from this [of a 0] this [of b 1] have fin: "a = PrFin" "b = PrFin" using ok by (simp_all add: ps)
        then have "counts ev_deq ps = 12" using q(2) True le by (simp add: ps)
        then have "ev_deq c = 4" "ev_deq d = 4" "ev_deq e = 4" using le by (simp_all add: ps)
        moreover have "ev_rank p = 0" if "p \<in> set ps" "ev_ok g p" "ev_deq p = 4" for p g using 2 no that by (cases p) auto
        ultimately have "ev_rank c = 0" "ev_rank d = 0" "ev_rank e = 0" using ok(3-5) by (simp_all add: ps)
        then show False using assms(2) fin by (simp add: ps)
      qed
      then obtain i where "PrEnqueue i \<in> set ps" by blast
      then show ?thesis using True q(1) by (intro go_can [of "PrEnqueue i"]) (auto simp: bq_Enqueue_def chan_send_def)
    next
      case False
      have "\<exists>i. CoDequeue i \<in> set ps"
      proof (rule ccontr)
        assume no: "\<not> (\<exists>i. CoDequeue i \<in> set ps)"
        have "p = CoFin" if "p \<in> set ps" "ev_ok g p" "2 \<le> g" for p g using 2 no that by (cases p) auto
        from this [of c 2] this [of d 3] this [of e 4] have "c = CoFin" "d = CoFin" "e = CoFin" using ok by (simp_all add: ps)
        then have "counts ev_deq ps \<ge> 12" by (simp add: ps)
        moreover have "counts ev_enq ps \<le> 12" using le by (simp add: ps)
        ultimately show False using q(2) False by (metis add_le_same_cancel1 length_0_conv le_trans le_zero_eq add_le_cancel_right add.commute le_antisym)
      qed
      then obtain i where "CoDequeue i \<in> set ps" by blast
      then show ?thesis using False by (intro go_can [of "CoDequeue i"]) (auto simp: bq_Dequeue_def chan_recv_def split: list.splits)
    qed
  qed
qed

lemma ev_start_inv: "ev_inv (ev_start (make_chan 3))"
proof -
  have "entries ev_log (replicate 2 (PrStep 0) @ replicate 3 (CoDequeue 0)) = {#}" by (rule entries_start) auto
  moreover have "totals ev_sent (replicate 2 (PrStep 0) @ replicate 3 (CoDequeue 0)) = {#}" by (rule totals_start) (auto simp: ev_sent_def)
  moreover have "totals (\<lambda>_. ev_pending) (replicate 2 (PrStep 0) @ replicate 3 (CoDequeue 0)) = {#}" by (rule totals_start) auto
  ultimately show ?thesis by (auto simp: ev_inv_def ev_start_def nth_append)
qed

lemma ev_reachable: "(go_step ev_worker)\<^sup>*\<^sup>* (ev_start (make_chan 3)) c \<Longrightarrow> ev_inv c"
  by (erule ev_go.steps_invariant) (rule ev_start_inv, rule ev_inv_step)

definition ev_all :: "string multiset" where
  "ev_all = mset (concat (map (\<lambda>p. map (ev_name p) [0..<6]) [0..<2]))"

text \<open>The goroutines that have all ended, and what they have done.\<close>

abbreviation ev_ends :: "ev_point list" where
  "ev_ends \<equiv> replicate 2 PrFin @ replicate 3 CoFin"

lemma ev_rank_zero:
  assumes "ev_inv (ps, s, out)" "counts ev_rank ps = 0"
  shows "ps = ev_ends"
proof (rule nth_equalityI)
  show "length ps = length ev_ends" using assms(1) by (simp add: ev_inv_def)
  fix g assume g: "g < length ps"
  then have "ev_rank (ps ! g) = 0" "g < 5" "ev_ok g (ps ! g)" using assms by (simp_all add: counts_zero ev_inv_def)
  then show "ps ! g = ev_ends ! g" by (cases "ps ! g") (simp_all add: nth_append)
qed

definition ev_others :: "log" where
  "ev_others = concat (map (\<lambda>p. map (\<lambda>i. (68, [SInt (int p), SStr (ev_name p i)])) [0..<6] @ [(75, [SInt (int p)])]) [0..<2]) @
     map (\<lambda>c. (92, [SInt c])) [0..2]"

lemma ev_finished:
  assumes "ev_inv (ev_ends, s, out)"
  shows "evs_produced s = 12" "evs_consumed s = 12" "handled out = ev_all" "mset (filter (\<lambda>e. fst e \<noteq> 86) out) = mset ev_others"
proof -
  have upt: "[0..<5] = [0, 1, 2, 3, 4 :: nat]" "[0..<2] = [0, 1 :: nat]" "[0..2] = [0, 1, 2 :: int]"
    by (simp_all add: upt_rec upto.simps)
  have "totals ev_sent ev_ends = ev_all" "totals (\<lambda>_. ev_pending) ev_ends = {#}" "entries ev_log ev_ends = mset ev_others"
    by (simp_all add: totals_list upt ev_all_def ev_others_def ev_sent_def entries_def nth_append)
  moreover have "ch_buf (evs_queue s) = []" using assms by (simp add: ev_inv_def)
  ultimately show "evs_produced s = 12" "evs_consumed s = 12" "handled out = ev_all"
    "mset (filter (\<lambda>e. fst e \<noteq> 86) out) = mset ev_others"
    using assms unfolding ev_inv_def prod.case by simp_all
qed

lemma NewBoundedQueue_3: "NewBoundedQueue 3 = Inr (make_chan 3)"
  by (simp add: NewBoundedQueue_def)

text \<open>
  C40. No schedule of the two producers and three consumers of \<open>src/19\<close> deadlocks or runs for ever: an execution
  has at most 77 steps, some goroutine can always go on unless all have ended, and then all twelve events have been
  processed, each once, and both counters say twelve.
\<close>

theorem queue_always_finishes:
  assumes "NewBoundedQueue 3 = Inr queue" "(go_step ev_worker ^^ n) (ev_start queue) c"
  shows "n \<le> 77 \<and> ((\<exists>c'. go_step ev_worker c c') \<or>
    (\<exists>s out. c = (ev_ends, s, out) \<and> evs_produced s = 12 \<and> evs_consumed s = 12 \<and> handled out = ev_all))"
proof
  have queue: "queue = make_chan 3" using assms(1) by (simp add: NewBoundedQueue_3)
  show "n \<le> 77" using ev_go.steps_bounded [OF assms(2)] by (simp add: ev_start_def)
  have inv: "ev_inv c" using assms(2) unfolding queue by (intro ev_reachable relpowp_imp_rtranclp)
  obtain ps s out where c: "c = (ps, s, out)" by (cases c)
  show "(\<exists>c'. go_step ev_worker c c') \<or>
    (\<exists>s out. c = (ev_ends, s, out) \<and> evs_produced s = 12 \<and> evs_consumed s = 12 \<and> handled out = ev_all)"
  proof (cases "counts ev_rank ps = 0")
    case True
    then have "ps = ev_ends" using inv unfolding c by (intro ev_rank_zero)
    then show ?thesis using ev_finished(1-3) inv unfolding c by blast
  qed (use ev_progress inv in \<open>auto simp: c\<close>)
qed

theorem queue_always_finishes_witness:
  "\<exists>c. (go_step ev_worker ^^ 1) (ev_start (make_chan 3)) c \<and> (\<exists>c'. go_step ev_worker c c')"
proof -
  let ?ps = "replicate 2 (PrStep 0) @ replicate 3 (CoDequeue 0)" and ?s = "\<lparr>evs_queue = make_chan 3, evs_produced = 0, evs_consumed = 0\<rparr>"
  have "go_step ev_worker (?ps, ?s, []) (?ps[0 := PrEnqueue 0], ?s, [] @ [(68, [SInt (int 0), SStr (ev_name 0 0)])])"
    by (rule go_act) (simp_all add: nth_append)
  then obtain c where c: "go_step ev_worker (ev_start (make_chan 3)) c" "fst c \<noteq> ev_ends"
    unfolding ev_start_def by (fastforce simp: numeral_eq_Suc)
  then have r: "(go_step ev_worker ^^ 1) (ev_start (make_chan 3)) c" by (simp add: eq_OO)
  from queue_always_finishes [OF NewBoundedQueue_3 r] c(2) have "\<exists>c'. go_step ev_worker c c'" by fastforce
  then show ?thesis using r by blast
qed

text \<open>So every run can be completed, and these are the logs.\<close>

lemma queue_main_logs:
  "(\<exists>r. queue_main r) \<and> (\<forall>r. queue_main r \<longrightarrow> (\<exists>out. r = operation 45 [] (Inr ([(47, []), (48, [])] @ out @
     [(99, []), (100, [SInt 3]), (101, [SInt 12]), (102, [SInt 12]), (103, [SInt 12]), (104, [SWall]), (105, [SWall, SInt 12, SInt 12])])) \<and>
     handled out = ev_all \<and> mset (filter (\<lambda>e. fst e \<noteq> 86) out) = mset ev_others))"
proof (intro conjI allI impI)
  obtain ps s out where c: "(go_step ev_worker)\<^sup>*\<^sup>* (ev_start (make_chan 3)) (ps, s, out)" "counts ev_rank ps = 0" "ev_inv (ps, s, out)"
    using ev_go.ends [where P = ev_inv, OF ev_start_inv] ev_inv_step ev_progress by metis
  show "\<exists>r. queue_main r" using c(1) unfolding queue_main_def NewBoundedQueue_3 ev_rank_zero [OF c(3,2)] by blast
next
  fix r assume "queue_main r"
  then obtain s out where r: "(go_step ev_worker)\<^sup>*\<^sup>* (ev_start (make_chan 3)) (ev_ends, s, out)"
    "r = operation 45 [] (Inr ([(47, []), (48, [])] @ out @
       [(99, []), (100, [SInt 3]), (101, [SInt 12]), (102, [SInt (evs_produced s)]), (103, [SInt (evs_consumed s)]), (104, [SWall]),
        (105, [SWall, SInt (evs_produced s), SInt (evs_consumed s)])]))"
    unfolding queue_main_def NewBoundedQueue_3 by blast
  note out = ev_finished [OF ev_reachable [OF r(1)]]
  show "\<exists>out. r = operation 45 [] (Inr ([(47, []), (48, [])] @ out @
     [(99, []), (100, [SInt 3]), (101, [SInt 12]), (102, [SInt 12]), (103, [SInt 12]), (104, [SWall]), (105, [SWall, SInt 12, SInt 12])])) \<and>
     handled out = ev_all \<and> mset (filter (\<lambda>e. fst e \<noteq> 86) out) = mset ev_others"
    by (rule exI [of _ out]) (simp only: r(2) out)
qed

subsection \<open>Connection pool\<close>

datatype cn_point = CnStart | CnAcquire | CnFailed | CnAppend string | CnUse string | CnRelease string | CnEnd

record cn_shared =
  cns_pool :: "string conn_pool"
  cns_connCount :: nat
  cns_acquired :: "string list"

text \<open>The factory and the health check that \<open>main\<close> gives to the pool. \<open>Acquire\<close> calls the factory if no idle connection is left.\<close>

definition cn_factory :: "nat \<Rightarrow> string" where
  "cn_factory connCount = ''db-conn-'' @ [char_of (65 + connCount)]"

definition cn_valid :: "string \<Rightarrow> bool" where
  "cn_valid s = (length s > 0)"

definition cn_calls_factory :: "string conn_pool \<Rightarrow> bool" where
  "cn_calls_factory p \<longleftrightarrow> fst (cn_scan cn_valid (rev (cn_idle p))) = None \<and> cn_active p < cn_max p"

text \<open>The goroutine of a request. \<open>acquired\<close> is under a mutex of its own.\<close>

fun cn_request :: "(cn_point, cn_shared) act" where
  "cn_request i CnStart s = Some ([(111, [SInt (int i)])], s, CnAcquire)"
| "cn_request i CnAcquire s =
     (let (conn, p) = cn_Acquire cn_valid (cn_factory (cns_connCount s)) (cns_pool s);
          n = (if cn_calls_factory (cns_pool s) then cns_connCount s + 1 else cns_connCount s)
      in Some ([], s\<lparr>cns_pool := p, cns_connCount := n\<rparr>, case conn of None \<Rightarrow> CnFailed | Some conn \<Rightarrow> CnAppend conn))"
| "cn_request i CnFailed s = Some ([(114, [SInt (int i), SErr ''connection pool exhausted''])], s, CnEnd)"
| "cn_request i (CnAppend conn) s = Some ([], s\<lparr>cns_acquired := cns_acquired s @ [conn]\<rparr>, CnUse conn)"
| "cn_request i (CnUse conn) s = Some ([(124, [SInt (int i), SStr conn])], s, CnRelease conn)"
| "cn_request i (CnRelease conn) s = Some ([], s\<lparr>cns_pool := cn_Release cn_valid conn (cns_pool s)\<rparr>, CnEnd)"
| "cn_request i CnEnd s = None"

definition cn_start :: "string conn_pool \<Rightarrow> (cn_point, cn_shared) threads" where
  "cn_start pool = (replicate 5 CnStart, \<lparr>cns_pool = pool, cns_connCount = 0, cns_acquired = []\<rparr>, [])"

definition pool_report :: "log \<Rightarrow> cn_shared \<Rightarrow> log outcome" where
  "pool_report out s = operation 84 [] (Inr ([(86, []), (87, [])] @ out @ [(133, [])] @ map (\<lambda>conn. (135, [SStr conn])) (cns_acquired s) @
     [(138, []), (139, [SInt 3]), (140, [SInt 5]), (141, [SInt (int (cns_connCount s))]), (142, [SWall]),
      (143, [SInt 5, SWall, SInt (int (cns_connCount s))])]))"

definition pool_main :: "log outcome \<Rightarrow> bool" where
  "pool_main result \<longleftrightarrow> (\<exists>pool s out. NewConnectionPool 3 = Inr pool \<and>
     (go_step cn_request)\<^sup>*\<^sup>* (cn_start pool) (replicate 5 CnEnd, s, out) \<and> result = pool_report out s)"

fun cn_rank :: "cn_point \<Rightarrow> nat" where
  "cn_rank CnStart = 5" | "cn_rank CnAcquire = 4" | "cn_rank (CnAppend c) = 3" | "cn_rank (CnUse c) = 2" | "cn_rank (CnRelease c) = 1"
| "cn_rank CnFailed = 1" | "cn_rank CnEnd = 0"

interpretation cn_go: go_program cn_request cn_rank
  by unfold_locales (erule cn_request.elims; auto simp: Let_def split: option.splits prod.splits)

text \<open>No request blocks.\<close>

lemma cn_can: "p \<noteq> CnEnd \<Longrightarrow> cn_request i p s \<noteq> None"
  by (cases p) (auto simp: Let_def split: prod.splits)

fun cn_holds :: "cn_point \<Rightarrow> string multiset" where
  "cn_holds (CnAppend c) = {#c#}" | "cn_holds (CnUse c) = {#c#}" | "cn_holds (CnRelease c) = {#c#}" | "cn_holds _ = {#}"

text \<open>The connections created so far are those idle and those in the hands of a request.\<close>

definition cn_go_inv :: "(cn_point, cn_shared) threads \<Rightarrow> bool" where
  "cn_go_inv = (\<lambda>(ps, s, out). length ps = 5 \<and> cn_max (cns_pool s) = 3 \<and> cns_connCount s \<le> 3 \<and>
     cn_active (cns_pool s) = int (size (totals (\<lambda>_. cn_holds) ps)) \<and>
     mset (cn_idle (cns_pool s)) + totals (\<lambda>_. cn_holds) ps = mset (map cn_factory [0..<cns_connCount s]) \<and>
     (0 < cns_connCount s \<or> (\<forall>p \<in> set ps. p = CnStart \<or> p = CnAcquire)))"

lemma cn_valid_factory: "cn_valid (cn_factory n)"
  by (simp add: cn_valid_def cn_factory_def)

lemma cn_scan_valid: "\<forall>c \<in> set cs. cn_valid c \<Longrightarrow> cn_scan cn_valid cs = (case cs of [] \<Rightarrow> (None, []) | c # rest \<Rightarrow> (Some c, rest))"
  by (cases cs) simp_all

text \<open>\<open>Acquire\<close> in the three cases; no connection is invalid.\<close>

lemma cn_Acquire_valid:
  assumes "\<forall>c \<in> set (cn_idle p). cn_valid c"
  shows "cn_idle p = us @ [c] \<Longrightarrow> cn_Acquire cn_valid fresh p = (Some c, p\<lparr>cn_idle := us, cn_active := cn_active p + 1\<rparr>) \<and> \<not> cn_calls_factory p"
    and "cn_idle p = [] \<Longrightarrow> cn_active p < cn_max p \<Longrightarrow>
      cn_Acquire cn_valid fresh p = (Some fresh, p\<lparr>cn_active := cn_active p + 1\<rparr>) \<and> cn_calls_factory p"
    and "cn_idle p = [] \<Longrightarrow> cn_max p \<le> cn_active p \<Longrightarrow> cn_Acquire cn_valid fresh p = (None, p) \<and> \<not> cn_calls_factory p"
  using assms by (auto simp: cn_Acquire_def cn_calls_factory_def Let_def)

lemma cn_go_inv_step:
  assumes "cn_go_inv (ps, s, out)" "i < length ps" "cn_request i (ps ! i) s = Some (l, s', p)"
  shows "cn_go_inv (ps[i := p], s', out @ l)"
proof -
  define T T' where "T = totals (\<lambda>_. cn_holds) ps" and "T' = totals (\<lambda>_. cn_holds) (ps[i := p])"
  let ?pool = "cns_pool s" and ?n = "cns_connCount s"
  have T': "T' + cn_holds (ps ! i) = T + cn_holds p"
    unfolding T_def T'_def by (rule totals_update [OF assms(2), of "\<lambda>_. cn_holds" p])
  have inv: "length ps = 5" "cn_max ?pool = 3" "?n \<le> 3" "cn_active ?pool = int (size T)"
    "mset (cn_idle ?pool) + T = mset (map cn_factory [0..<?n])" "0 < ?n \<or> (\<forall>p \<in> set ps. p = CnStart \<or> p = CnAcquire)"
    using assms(1) unfolding cn_go_inv_def prod.case T_def by - (elim conjE, assumption)+
  have names: "c \<in># mset (cn_idle ?pool) + T \<Longrightarrow> cn_valid c" for c
    unfolding inv(5) by (auto simp: cn_valid_factory)
  then have idle: "\<forall>c \<in> set (cn_idle ?pool). cn_valid c" by simp
  have n: "length (cn_idle ?pool) + size T = ?n" using arg_cong [OF inv(5), of size] by simp
  have started: "0 < ?n \<or> ps ! i = CnStart \<or> ps ! i = CnAcquire" using inv(6) assms(2) nth_mem by blast
  have rest: "\<forall>q \<in> set (ps[i := p]). q = CnStart \<or> q = CnAcquire" if "?n = 0" "p = CnAcquire"
    using inv(6) that set_update_subset_insert [of ps i p] by auto
  have "cn_max (cns_pool s') = 3 \<and> cns_connCount s' \<le> 3 \<and> cn_active (cns_pool s') = int (size T') \<and>
     mset (cn_idle (cns_pool s')) + T' = mset (map cn_factory [0..<cns_connCount s']) \<and>
     (0 < cns_connCount s' \<or> (\<forall>p \<in> set (ps[i := p]). p = CnStart \<or> p = CnAcquire))"
  proof (cases "ps ! i = CnAcquire")
    case True
    consider us c where "cn_idle ?pool = us @ [c]" | "cn_idle ?pool = []" "cn_active ?pool < 3" | "cn_idle ?pool = []" "3 \<le> cn_active ?pool"
      by (cases "cn_idle ?pool" rule: rev_cases) force+
    then show ?thesis
    proof cases
      case 1
      then show ?thesis using assms(3) True T' inv n cn_Acquire_valid(1) [OF idle 1] by auto
    next
      case 2
      then show ?thesis using assms(3) True T' inv n cn_Acquire_valid(2) [OF idle 2(1)] by (auto simp: inv(2) atLeast0_lessThan_Suc)
    next
      case 3
      then show ?thesis using assms(3) True T' inv n cn_Acquire_valid(3) [OF idle 3(1)] by (auto simp: inv(2))
    qed
  next
    case False
    show ?thesis
    proof (cases "ps ! i")
      case (CnRelease c)
      then have c: "T = add_mset c T'" "s' = s\<lparr>cns_pool := cn_Release cn_valid c ?pool\<rparr>" "0 < ?n" using assms(3) T' started by auto
      then have "cn_valid c" by (intro names) simp
      then show ?thesis using inv c by (simp add: cn_Release_def Let_def)
    next
      case CnStart
      then have "s' = s" "p = CnAcquire" "T' = T" using assms(3) T' by auto
      then show ?thesis using inv rest by auto
    qed (use assms(3) T' inv started False in auto)
  qed
  then show ?thesis using inv(1) unfolding cn_go_inv_def prod.case T'_def by simp
qed

text \<open>The log: each request is announced once, and is served with a connection or fails.\<close>

abbreviation lines :: "nat \<Rightarrow> log \<Rightarrow> log" where
  "lines n \<equiv> filter (\<lambda>e. fst e = n)"

fun cn_before :: "cn_point \<Rightarrow> nat" where
  "cn_before CnStart = 1" | "cn_before CnAcquire = 1" | "cn_before CnFailed = 1" | "cn_before (CnAppend c) = 1" | "cn_before _ = 0"

fun cn_using :: "cn_point \<Rightarrow> nat" where
  "cn_using (CnUse c) = 1" | "cn_using _ = 0"

fun cn_log :: "nat \<Rightarrow> cn_point \<Rightarrow> log" where
  "cn_log i CnStart = []" | "cn_log i _ = [(111, [SInt (int i)])]"

definition cn_log_inv :: "(cn_point, cn_shared) threads \<Rightarrow> bool" where
  "cn_log_inv = (\<lambda>(ps, s, out). mset (lines 111 out) = entries cn_log ps \<and>
     length (cns_acquired s) + length (lines 114 out) + counts cn_before ps = 5 \<and>
     length (cns_acquired s) = length (lines 124 out) + counts cn_using ps)"

lemma cn_log_inv_step:
  assumes "cn_log_inv (ps, s, out)" "i < length ps" "cn_request i (ps ! i) s = Some (l, s', p)"
  shows "cn_log_inv (ps[i := p], s', out @ l)"
proof -
  have "cn_log i p = cn_log i (ps ! i) @ lines 111 l"
    using assms(3) by (cases "ps ! i") (auto simp: Let_def split: prod.splits option.splits)
  note log = entries_update [of i ps cn_log p, OF assms(2) this]
  note c = counts_update [OF assms(2), of cn_before p] counts_update [OF assms(2), of cn_using p]
  have len: "length (cns_acquired s') + length (lines 114 l) + cn_before p = length (cns_acquired s) + cn_before (ps ! i)"
    "length (cns_acquired s') + cn_using (ps ! i) = length (cns_acquired s) + length (lines 124 l) + cn_using p"
    using assms(3) by (cases "ps ! i"; auto simp: Let_def split: prod.splits option.splits)+
  then show ?thesis using assms(1) c log by (simp add: cn_log_inv_def)
qed

lemma cn_go_start: "cn_go_inv (cn_start \<lparr>cn_idle = [], cn_active = 0, cn_max = 3\<rparr>)" "cn_log_inv (cn_start \<lparr>cn_idle = [], cn_active = 0, cn_max = 3\<rparr>)"
proof -
  have "totals (\<lambda>_. cn_holds) (replicate 5 CnStart) = {#}" "entries cn_log (replicate 5 CnStart) = {#}"
    by (rule totals_start, simp, rule entries_start, simp)
  then show "cn_go_inv (cn_start \<lparr>cn_idle = [], cn_active = 0, cn_max = 3\<rparr>)" "cn_log_inv (cn_start \<lparr>cn_idle = [], cn_active = 0, cn_max = 3\<rparr>)"
    by (simp_all add: cn_start_def cn_go_inv_def cn_log_inv_def)
qed

lemma cn_go_reachable:
  assumes "(go_step cn_request)\<^sup>*\<^sup>* (cn_start \<lparr>cn_idle = [], cn_active = 0, cn_max = 3\<rparr>) c"
  shows "cn_go_inv c" "cn_log_inv c"
proof -
  show "cn_go_inv c" by (rule cn_go.steps_invariant [OF assms]) (rule cn_go_start(1), rule cn_go_inv_step)
  show "cn_log_inv c" by (rule cn_go.steps_invariant [OF assms]) (rule cn_go_start(2), rule cn_log_inv_step)
qed

text \<open>
  Every run can be completed. Each of the five requests is announced once, and then is served or fails;
  one to three connections are created. The number of requests that fail is not fixed.
\<close>

lemma pool_main_logs:
  "(\<exists>r. pool_main r) \<and> (\<forall>r. pool_main r \<longrightarrow> (\<exists>out s. r = pool_report out s \<and> 1 \<le> cns_connCount s \<and> cns_connCount s \<le> 3 \<and>
     mset (lines 111 out) = mset (map (\<lambda>i. (111, [SInt i])) [0..4]) \<and> length (lines 124 out) + length (lines 114 out) = 5 \<and>
     length (cns_acquired s) = length (lines 124 out)))"
proof -
  let ?pool = "\<lparr>cn_idle = [], cn_active = 0, cn_max = 3\<rparr> :: string conn_pool"
  have new: "NewConnectionPool 3 = Inr ?pool" by (simp add: NewConnectionPool_def)
  have log: "1 \<le> cns_connCount s \<and> cns_connCount s \<le> 3 \<and> mset (lines 111 out) = mset (map (\<lambda>i. (111, [SInt i])) [0..4]) \<and>
      length (lines 124 out) + length (lines 114 out) = 5 \<and> length (cns_acquired s) = length (lines 124 out)"
    if r: "(go_step cn_request)\<^sup>*\<^sup>* (cn_start ?pool) (replicate 5 CnEnd, s, out)" for s out
  proof -
    have upt: "[0..<5] = [0, 1, 2, 3, 4 :: nat]" "[0..4] = [0, 1, 2, 3, 4 :: int]" by (simp_all add: upt_rec upto.simps)
    have "entries cn_log (replicate 5 CnEnd) = mset (map (\<lambda>i. (111, [SInt i])) [0..4])"
      by (simp add: entries_def totals_list upt)
    then show ?thesis using cn_go_reachable [OF r] by (auto simp: cn_go_inv_def cn_log_inv_def)
  qed
  obtain ps s out where c: "(go_step cn_request)\<^sup>*\<^sup>* (cn_start ?pool) (ps, s, out)" "counts cn_rank ps = 0" "cn_go_inv (ps, s, out)"
  proof -
    have "\<exists>c'. go_step cn_request (ps, s, out) c'" if h: "counts cn_rank ps \<noteq> 0" for ps s out
    proof -
      obtain p where "p \<in> set ps" "cn_rank p \<noteq> 0" using h by (auto simp: counts_zero)
      moreover from this have "p \<noteq> CnEnd" by auto
      ultimately show ?thesis using cn_can by (intro go_can [of p]) auto
    qed
    then show ?thesis using that cn_go.ends [where P = cn_go_inv, OF cn_go_start(1)] cn_go_inv_step by metis
  qed
  have "cn_rank p = 0 \<Longrightarrow> p = CnEnd" for p by (cases p) simp_all
  then have "ps = replicate 5 CnEnd" using c(2,3) by (intro all_points [of cn_rank]) (simp_all add: cn_go_inv_def)
  then show ?thesis using c(1) log unfolding pool_main_def new by blast
qed

text \<open>
  A run in which two requests fail: all five start, three get a connection, and the other two ask before one is given back. \<open>main\<close> reports five
  requests handled (line 143) as in the run in which they come one after the other.
\<close>

lemma pool_main_drops:
  "\<exists>out s. pool_main (pool_report out s) \<and> length (lines 114 out) = 2 \<and> cns_connCount s = 3"
  "\<exists>out s. pool_main (pool_report out s) \<and> length (lines 114 out) = 0 \<and> cns_connCount s = 1"
proof -
  let ?start = "cn_start \<lparr>cn_idle = [], cn_active = 0, cn_max = 3\<rparr>"
  let ?all = "[0, 0, 1, 1, 2, 2, 3, 3, 4, 4, 0, 0, 0, 1, 1, 1, 2, 2, 2, 3, 4]" and ?one = "concat (map (replicate 5) [0, 1, 2, 3, 4])"
  have new: "NewConnectionPool 3 = Inr \<lparr>cn_idle = [], cn_active = 0, cn_max = 3\<rparr>" by (simp add: NewConnectionPool_def)
  have "case go_exec cn_request ?all ?start of None \<Rightarrow> False
    | Some (ps, s, out) \<Rightarrow> ps = replicate 5 CnEnd \<and> length (lines 114 out) = 2 \<and> cns_connCount s = 3" by code_simp
  then show "\<exists>out s. pool_main (pool_report out s) \<and> length (lines 114 out) = 2 \<and> cns_connCount s = 3"
    unfolding pool_main_def new by (auto split: option.splits dest!: go_exec_steps)
  have "case go_exec cn_request ?one ?start of None \<Rightarrow> False
    | Some (ps, s, out) \<Rightarrow> ps = replicate 5 CnEnd \<and> length (lines 114 out) = 0 \<and> cns_connCount s = 1" by code_simp
  then show "\<exists>out s. pool_main (pool_report out s) \<and> length (lines 114 out) = 0 \<and> cns_connCount s = 1"
    unfolding pool_main_def new by (auto split: option.splits dest!: go_exec_steps)
qed

end
