(* ===== verification/Demo_Storage.thy ===== *)
theory Demo_Storage
  imports Demo_Log B_Tree Lsm_Tree Write_Ahead_Log
begin

text \<open>The \<open>main\<close> functions of \<open>src/21\<close>, \<open>src/22\<close> and \<open>src/23\<close>.\<close>

subsection \<open>B-tree\<close>

definition btree_keys :: "int list" where
  "btree_keys = [10, 20, 5, 6, 12, 30, 7, 17, 3, 8, 25, 15, 1, 40, 22, 18, 9, 33, 27, 50]"

definition btree_main :: "log outcome" where
  "btree_main = operation 141 [(142, [])] (
     and_then (NewBTree 3) (\<lambda>tree.
     and_then (each bt_Insert btree_keys tree) (\<lambda>tree.
     let searchKeys = [12, 99, 30, 7, 3, 100, 50, 0] in
     and_then (each_log (\<lambda>key foundCount. and_then (bt_Search key tree) (\<lambda>found. Inr (
       if found then ([(164, [SInt key])], foundCount + 1) else ([(167, [SInt key])], foundCount)))) searchKeys 0) (\<lambda>(l162, foundCount).
     Inr ([(144, []), (145, []), (146, []), (150, []), (156, [SInt (int (length btree_keys)), SWall]), (158, [])] @ l162 @
       [(170, [SInt (int (length searchKeys)), SInt foundCount, SInt (int (length searchKeys) - foundCount), SWall]),
        (173, []), (174, []), (175, []), (177, []), (178, [SInt (int (length btree_keys))]), (179, [SInt (bt_minDegree tree)]),
        (180, [SInt (int (length searchKeys))]), (181, [SInt foundCount]), (182, [SInt (int (length searchKeys) - foundCount)])])))))"

definition bn_sim :: "int \<Rightarrow> btree \<Rightarrow> int set \<Rightarrow> bool" where
  "bn_sim d t S \<longleftrightarrow> bt_inv t \<and> set (bn_inorder (bt_root t)) = S \<and> bt_minDegree t = d"

lemma bn_sim_Insert: "bn_sim d t S \<Longrightarrow> \<exists>t'. bt_Insert key t = Inr t' \<and> bn_sim d t' (insert key S)"
proof -
  assume "bn_sim d t S"
  then have t: "bt_inv t" "set (bn_inorder (bt_root t)) = S" "bt_minDegree t = d" by (simp_all add: bn_sim_def)
  obtain t' where "bt_Insert key t = Inr t'" "bt_inv t'" "adds key (bn_inorder (bt_root t)) (bn_inorder (bt_root t'))"
    using bt_Insert_ok [OF t(1)] by blast
  moreover from this(1) have "bt_minDegree t' = bt_minDegree t" by (auto simp: bt_Insert_def Let_def split: if_splits sum.splits)
  ultimately show ?thesis using t adds_set by (simp add: bn_sim_def)
qed

lemma bn_sim_Search: "bn_sim d t S \<Longrightarrow> bt_Search key t = Inr (key \<in> S)"
  by (auto simp: bn_sim_def bt_inv_def bt_Search_def bt_searchNode_ok)

lemma bn_sim_New: "2 \<le> d \<Longrightarrow> \<exists>t. NewBTree d = Inr t \<and> bn_sim d t {}"
  by (auto simp: NewBTree_def bn_sim_def bt_inv_def intro: exI [of _ 0])

lemma btree_main_logs:
  "btree_main = operation 141 [(142, [])] (Inr [(144, []), (145, []), (146, []), (150, []), (156, [SInt 20, SWall]), (158, []),
     (164, [SInt 12]), (167, [SInt 99]), (164, [SInt 30]), (164, [SInt 7]), (164, [SInt 3]), (167, [SInt 100]), (164, [SInt 50]),
     (167, [SInt 0]), (170, [SInt 8, SInt 5, SInt 3, SWall]), (173, []), (174, []), (175, []), (177, []), (178, [SInt 20]),
     (179, [SInt 3]), (180, [SInt 8]), (181, [SInt 5]), (182, [SInt 3])])"
proof -
  obtain t0 where 0: "NewBTree 3 = Inr t0" "bn_sim 3 t0 {}" using bn_sim_New [of 3] by auto
  have "\<exists>t. each bt_Insert btree_keys t0 = Inr t \<and> bn_sim 3 t (fold insert btree_keys {})"
    using 0(2) by (rule each_step) (rule bn_sim_Insert)
  then obtain t where t: "each bt_Insert btree_keys t0 = Inr t" "bn_sim 3 t (fold insert btree_keys {})" by blast
  have "fold insert btree_keys {} = set btree_keys" by (simp add: union_set_fold [symmetric])
  then show ?thesis
    using bn_sim_Search [OF t(2)] t unfolding btree_main_def 0 and_then_simps t Let_def
    by (simp add: btree_keys_def bn_sim_def)
qed

subsection \<open>LSM tree\<close>

text \<open>\<open>order line\<close> is the order of the map loops below the call in line \<open>line\<close>.\<close>

definition lsm_main :: "(nat \<Rightarrow> seg_order) \<Rightarrow> log outcome" where
  "lsm_main order = operation 140 [(141, [])] (
     let tree = NewLSMTree 3;
         tree = ls_Put (order 151) ''cpu.host1'' ''0.42'' tree;
         tree = ls_Put (order 152) ''cpu.host2'' ''0.67'' tree;
         tree = ls_Put (order 153) ''mem.host1'' ''0.83'' tree;
         tree = ls_Put (order 154) ''cpu.host1'' ''0.55'' tree;
         tree = ls_Put (order 155) ''cpu.host3'' ''0.31'' tree;
         tree = ls_Put (order 156) ''mem.host2'' ''0.72'' tree;
         (a, aOK) = ls_Get ''cpu.host1'' tree;
         (b, bOK) = ls_Get ''mem.host1'' tree;
         (_, cOK) = ls_Get ''disk.host1'' tree;
         tree = ls_Delete (order 170) ''cpu.host3'' tree;
         (d, dOK) = ls_Get ''cpu.host3'' tree;
         beforeCompact = length (ls_sstables tree);
         tree = ls_Compact (order 180) tree
     in Inr ([(143, []), (144, []), (145, []), (149, []), (157, [SWall]), (159, []), (161, [SStr a, SBool aOK]),
          (163, [SStr b, SBool bOK])] @ (if \<not> cOK then [(166, [])] else []) @ [(169, []), (172, [SBool dOK])] @
          (if dOK then [(174, [SStr d])] else []) @ [(177, []), (178, [SInt (int beforeCompact)]),
          (181, [SInt (int (length (ls_sstables tree)))]), (183, []), (184, [SInt (int beforeCompact)]),
          (185, [SInt (int (length (ls_sstables tree)))]), (186, [SInt (ls_sequence tree)]),
          (187, [SInt (int (gm_len (ls_memtable tree)))])]))"

lemma ls_Flush_table:
  "enumerates (order (ls_memtable t)) (ls_memtable t) \<Longrightarrow> ls_memtable t \<noteq> fmempty \<Longrightarrow>
     ls_Flush order t = t\<lparr>ls_sstables := ls_sstables t @ [ls_memtable t], ls_memtable := fmempty\<rparr>"
  by (simp add: ls_Flush_def gm_len_0_iff ls_copy_ok)

lemma ls_Compact_shape: "length (ls_sstables (ls_Compact order t)) = 1" "ls_memtable (ls_Compact order t) = ls_memtable t"
    "ls_sequence (ls_Compact order t) = ls_sequence t"
  by (simp_all add: ls_Compact_def Let_def)

lemma fmupd_nonempty: "fmupd k v m \<noteq> fmempty"
  by (metis fmdom_empty fmdom_fmupd finsert_not_fempty)

definition lsm_live :: "string \<Rightarrow> int \<Rightarrow> lsm_value" where
  "lsm_live v n = \<lparr>lv_Value = v, lv_Deleted = False, lv_Sequence = n\<rparr>"

lemma lsm_main_logs:
  assumes order: "\<And>line m. enumerates (order line m) m"
  shows "lsm_main order = operation 140 [(141, [])] (Inr [(143, []), (144, []), (145, []), (149, []), (157, [SWall]), (159, []),
     (161, [SStr ''0.55'', SBool True]), (163, [SStr ''0.83'', SBool True]), (166, []), (169, []), (172, [SBool False]),
     (177, []), (178, [SInt 2]), (181, [SInt 1]), (183, []), (184, [SInt 2]), (185, [SInt 1]), (186, [SInt 7]), (187, [SInt 1])])"
proof -
  define T where "T m ss n = \<lparr>ls_memtable = m, ls_sstables = ss, ls_sequence = n, ls_flushThreshold = 3\<rparr>" for m ss n
  have put: "ls_Put (order l) k v (T m ss n) = (if gm_len (fmupd k (lsm_live v (n + 1)) m) < 3
      then T (fmupd k (lsm_live v (n + 1)) m) ss (n + 1)
      else T fmempty (ss @ [fmupd k (lsm_live v (n + 1)) m]) (n + 1))" for l k v m ss n
    by (simp add: ls_Put_def ls_write_def T_def ls_Flush_table order fmupd_nonempty lsm_live_def)
  let ?s1 = "fmupd ''mem.host1'' (lsm_live ''0.83'' 3) (fmupd ''cpu.host2'' (lsm_live ''0.67'' 2) (fmupd ''cpu.host1'' (lsm_live ''0.42'' 1) fmempty))"
  let ?s2 = "fmupd ''mem.host2'' (lsm_live ''0.72'' 6) (fmupd ''cpu.host3'' (lsm_live ''0.31'' 5) (fmupd ''cpu.host1'' (lsm_live ''0.55'' 4) fmempty))"
  have 1: "ls_Put (order 153) ''mem.host1'' ''0.83'' (ls_Put (order 152) ''cpu.host2'' ''0.67'' (ls_Put (order 151) ''cpu.host1'' ''0.42''
      (NewLSMTree 3))) = T fmempty [?s1] 3"
  proof -
    have "NewLSMTree 3 = T fmempty [] 0" by (simp add: NewLSMTree_def T_def)
    then show ?thesis by (simp add: put gm_len_fmupd)
  qed
  have 2: "ls_Put (order 156) ''mem.host2'' ''0.72'' (ls_Put (order 155) ''cpu.host3'' ''0.31'' (ls_Put (order 154) ''cpu.host1'' ''0.55''
      (T fmempty [?s1] 3))) = T fmempty [?s1, ?s2] 6"
    by (simp add: put gm_len_fmupd)
  have 3: "ls_Delete (order 170) ''cpu.host3'' (T fmempty [?s1, ?s2] 6) =
      T (fmupd ''cpu.host3'' \<lparr>lv_Value = '''', lv_Deleted = True, lv_Sequence = 7\<rparr> fmempty) [?s1, ?s2] 7"
    by (simp add: ls_Delete_def ls_write_def T_def gm_len_fmupd)
  have get: "ls_Get ''cpu.host1'' (T fmempty [?s1, ?s2] 6) = (''0.55'', True)" "ls_Get ''mem.host1'' (T fmempty [?s1, ?s2] 6) = (''0.83'', True)"
    "ls_Get ''disk.host1'' (T fmempty [?s1, ?s2] 6) = ('''', False)"
    by (simp_all add: ls_Get_def T_def lsm_live_def)
  show ?thesis
    unfolding lsm_main_def Let_def 1 2 3 get prod.case
    by (simp add: ls_Get_def ls_Compact_shape T_def gm_len_fmupd)
qed

subsection \<open>Write-ahead log\<close>

definition wal_main :: "(nat \<Rightarrow> (string, string) gomap \<Rightarrow> string list) \<Rightarrow> log outcome" where
  "wal_main ord = operation 90 [(91, [])] (
     let wal = NewWriteAheadLog;
         wal = snd (wal_Append ''put'' ''session:1001'' ''active'' wal);
         wal = snd (wal_Append ''put'' ''user:42'' ''alice'' wal);
         wal = snd (wal_Append ''put'' ''balance:42'' ''150.00'' wal);
         wal = snd (wal_Append ''put'' ''balance:42'' ''120.50'' wal);
         wal = snd (wal_Append ''delete'' ''session:1001'' '''' wal)
     in case wal_Recover wal of Inl err \<Rightarrow> Inl ExitOne
      | Inr state \<Rightarrow>
         (let checks = fmupd ''balance:42'' ''120.50'' (fmupd ''user:42'' ''alice'' fmempty);
              exists = fmlookup state ''session:1001'' \<noteq> None
          in Inr ([(93, []), (94, []), (95, []), (99, []), (100, []), (105, []), (108, []), (111, []), (112, []), (113, []),
               (121, []), (122, [])] @ map (\<lambda>key. (124, [SStr key, SStr (gm_get '''' state key)])) (ord 123 state) @
               map (\<lambda>key. let expected = gm_get '''' checks key in case fmlookup state key of
                   Some val \<Rightarrow> (if val = expected then (135, [SStr key, SStr val]) else (137, [SStr key, SStr val, SStr expected]))
                 | None \<Rightarrow> (140, [SStr key])) (ord 132 checks) @
               (if exists then [(146, [])] else [(148, [])]) @ [(151, []), (152, [SInt (int (length (wal_entries wal)))]),
               (153, [SInt (wal_nextLSN wal)]), (154, [SInt (int (gm_len state))]), (155, [SBool (\<not> exists)])])))"

lemma wal_main_logs:
  assumes "\<And>line m. enumerates (ord line m) m"
  shows "\<exists>ks cs. wal_main ord = operation 90 [(91, [])] (Inr ([(93, []), (94, []), (95, []), (99, []), (100, []), (105, []),
     (108, []), (111, []), (112, []), (113, []), (121, []), (122, [])] @ map (\<lambda>(k, v). (124, [SStr k, SStr v])) ks @
     map (\<lambda>(k, v). (135, [SStr k, SStr v])) cs @ [(148, []), (151, []), (152, [SInt 5]), (153, [SInt 6]), (154, [SInt 2]),
     (155, [SBool True])])) \<and>
     mset ks = {# (''user:42'', ''alice''), (''balance:42'', ''120.50'') #} \<and> mset cs = mset ks"
proof -
  let ?cmds = "[(''put'', ''session:1001'', ''active''), (''put'', ''user:42'', ''alice''), (''put'', ''balance:42'', ''150.00''),
    (''put'', ''balance:42'', ''120.50''), (''delete'', ''session:1001'', '''')]"
  define st where "st = fmupd ''balance:42'' ''120.50'' (fmupd ''user:42'' ''alice'' fmempty)"
  let ?w = "wal_log ?cmds NewWriteAheadLog"
  have w: "wal_entries ?w = [wal_entry_of 1 (''put'', ''session:1001'', ''active''), wal_entry_of 2 (''put'', ''user:42'', ''alice''),
      wal_entry_of 3 (''put'', ''balance:42'', ''150.00''), wal_entry_of 4 (''put'', ''balance:42'', ''120.50''),
      wal_entry_of 5 (''delete'', ''session:1001'', '''')]"
    by (simp add: wal_log_entries NewWriteAheadLog_def)
  have "wal_Recover ?w = Inr (fold (\<lambda>e. wal_apply (we_Op e) (we_Key e) (we_Value e)) (wal_entries ?w) fmempty)"
    unfolding wal_Recover_def by (rule wal_replay_intact) (simp add: w)
  also have "fold (\<lambda>e. wal_apply (we_Op e) (we_Key e) (we_Value e)) (wal_entries ?w) fmempty =
      fmdrop ''session:1001'' (fmupd ''balance:42'' ''120.50'' (fmupd ''balance:42'' ''150.00'' (fmupd ''user:42'' ''alice''
        (fmupd ''session:1001'' ''active'' fmempty))))"
    unfolding w by (simp add: wal_apply_def)
  also have "\<dots> = st" unfolding st_def by (rule fmap_ext) (simp add: gomap_simps)
  finally have rec: "wal_Recover ?w = Inr st" .
  have n: "wal_nextLSN ?w = 6" "length (wal_entries ?w) = 5" by (simp_all add: w wal_log_def wal_Append_def Let_def NewWriteAheadLog_def)
  have w_eq: "snd (wal_Append ''delete'' ''session:1001'' '''' (snd (wal_Append ''put'' ''balance:42'' ''120.50''
      (snd (wal_Append ''put'' ''balance:42'' ''150.00'' (snd (wal_Append ''put'' ''user:42'' ''alice''
      (snd (wal_Append ''put'' ''session:1001'' ''active'' NewWriteAheadLog))))))))) = ?w"
    by (simp add: wal_log_def)
  have st: "fmlookup st ''session:1001'' = None" "gm_len st = 2" "fset (fmdom st) = {''user:42'', ''balance:42''}"
    by (simp_all add: st_def gm_len_fmupd insert_commute)
  have keys: "mset (ord l st) = {# ''user:42'', ''balance:42'' #}" for l
    using enumerates_mset [OF assms [of l st], of "[''user:42'', ''balance:42'']"] st(3) by simp
  define pairs where "pairs l = map (\<lambda>k. (k, gm_get '''' st k)) (ord l st)" for l
  have look: "fmlookup st k = Some (gm_get '''' st k)" if "k \<in> set (ord l st)" for k l
    using enumerates_iff [OF assms [of l st], of k] that by (auto simp: gm_get_def)
  have "wal_main ord = operation 90 [(91, [])] (Inr ([(93, []), (94, []), (95, []), (99, []), (100, []), (105, []),
     (108, []), (111, []), (112, []), (113, []), (121, []), (122, [])] @ map (\<lambda>(k, v). (124, [SStr k, SStr v])) (pairs 123) @
     map (\<lambda>(k, v). (135, [SStr k, SStr v])) (pairs 132) @ [(148, []), (151, []), (152, [SInt 5]), (153, [SInt 6]), (154, [SInt 2]),
     (155, [SBool True])]))"
    unfolding wal_main_def Let_def w_eq rec sum.case st_def [symmetric]
    by (rule operation_cong) (simp add: st n pairs_def look cong: map_cong)
  moreover have "mset (pairs l) = {# (''user:42'', ''alice''), (''balance:42'', ''120.50'') #}" for l
    unfolding pairs_def mset_map keys by (simp add: st_def)
  ultimately show ?thesis by metis
qed

end
