(* ===== verification/Demo_Search.thy ===== *)
theory Demo_Search
  imports Demo_Log Inverted_Index Time_Series Ttl_Store
begin

text \<open>
  The \<open>main\<close> functions of \<open>src/24\<close>, \<open>src/25\<close> and \<open>src/26\<close>. \<open>ord\<close> is the order of the map loops in the components, as
  there.
\<close>

text \<open>The keys of a map, sorted.\<close>

lemma sort_range_order:
  fixes xs :: "'a::linorder list"
  shows "range_orders ord \<Longrightarrow> sorted xs \<Longrightarrow> distinct xs \<Longrightarrow> set xs = fset S \<Longrightarrow> sort (ord n S) = xs"
  by (rule sorted_distinct_set_unique) (simp_all add: range_orders_def)

lemma sorted_list_one: "A = {a} \<Longrightarrow> sorted_list_of_set A = [a]"
  by simp

subsection \<open>Inverted index\<close>

definition index_docs :: "(string, string) gomap" where
  "index_docs = fmap_of_list [
     (''doc1'', ''distributed systems design patterns for scalable services''),
     (''doc2'', ''systems programming with Rust and Go concurrency''),
     (''doc3'', ''design patterns for distributed programming in Rust''),
     (''doc4'', ''scalable microservices design with Go'')]"

text \<open>\<open>ids\<close> is the order of the loop over the documents.\<close>

definition index_main :: "(nat \<Rightarrow> string fset \<Rightarrow> string list) \<Rightarrow> string list \<Rightarrow> log outcome" where
  "index_main ord ids = operation 97 [(98, [])] (
     let idx = fold (\<lambda>i idx. ix_AddDocument ord i (gm_get '''' index_docs i) idx) ids NewInvertedIndex;
         queries = [''systems design'', ''distributed programming'', ''Rust Go'', ''scalable services'', ''machine learning'']
     in Inr ([(100, []), (101, []), (102, []), (106, []), (117, [SInt (int (gm_len index_docs)), SWall]), (119, [])] @
       map (\<lambda>q. let results = (case ix_SearchAll ord q idx of None \<Rightarrow> [] | Some r \<Rightarrow> r) in
         if length results = 0 then (132, [SStr q, SWall])
         else (134, [SStr q, SInt (int (length results)), SList (map SStr results), SWall])) queries @
       [(138, []), (139, [SInt (int (gm_len index_docs))]), (140, [SInt (int (gm_len (ix_postings idx)))])]))"

lemma index_tokens:
  "tokenize ''distributed systems design patterns for scalable services'' =
     [''distributed'', ''systems'', ''design'', ''patterns'', ''for'', ''scalable'', ''services'']"
  "tokenize ''systems programming with Rust and Go concurrency'' =
     [''systems'', ''programming'', ''with'', ''rust'', ''and'', ''go'', ''concurrency'']"
  "tokenize ''design patterns for distributed programming in Rust'' =
     [''design'', ''patterns'', ''for'', ''distributed'', ''programming'', ''in'', ''rust'']"
  "tokenize ''scalable microservices design with Go'' = [''scalable'', ''microservices'', ''design'', ''with'', ''go'']"
  "tokenize ''systems design'' = [''systems'', ''design'']" "tokenize ''distributed programming'' = [''distributed'', ''programming'']"
  "tokenize ''Rust Go'' = [''rust'', ''go'']" "tokenize ''scalable services'' = [''scalable'', ''services'']"
  "tokenize ''machine learning'' = [''machine'', ''learning'']"
  by code_simp+

definition index_pairs :: "(string \<times> string list) set" where
  "index_pairs = {
     (''doc1'', [''distributed'', ''systems'', ''design'', ''patterns'', ''for'', ''scalable'', ''services'']),
     (''doc2'', [''systems'', ''programming'', ''with'', ''rust'', ''and'', ''go'', ''concurrency'']),
     (''doc3'', [''design'', ''patterns'', ''for'', ''distributed'', ''programming'', ''in'', ''rust'']),
     (''doc4'', [''scalable'', ''microservices'', ''design'', ''with'', ''go''])}"

lemma index_main_logs:
  assumes "range_orders ord" "enumerates ids index_docs"
  shows "index_main ord ids = operation 97 [(98, [])] (Inr [(100, []), (101, []), (102, []), (106, []), (117, [SInt 4, SWall]), (119, []),
     (134, [SStr ''systems design'', SInt 1, SList [SStr ''doc1''], SWall]),
     (134, [SStr ''distributed programming'', SInt 1, SList [SStr ''doc3''], SWall]),
     (134, [SStr ''Rust Go'', SInt 1, SList [SStr ''doc2''], SWall]),
     (134, [SStr ''scalable services'', SInt 1, SList [SStr ''doc1''], SWall]),
     (132, [SStr ''machine learning'', SWall]),
     (138, []), (139, [SInt 4]), (140, [SInt 15])])"
proof -
  define idx where "idx = ix_build ord (map (\<lambda>i. (i, gm_get '''' index_docs i)) ids)"
  have idx: "fold (\<lambda>i idx. ix_AddDocument ord i (gm_get '''' index_docs i) idx) ids NewInvertedIndex = idx"
    by (simp add: idx_def ix_build_def fold_map o_def)
  have "set ids = {''doc1'', ''doc2'', ''doc3'', ''doc4''}"
    using assms(2) by (auto simp: enumerates_def index_docs_def)
  then have "(\<lambda>(j, body). (j, tokenize body)) ` set (map (\<lambda>i. (i, gm_get '''' index_docs i)) ids) = index_pairs"
    by (simp add: index_docs_def index_pairs_def gm_get_def index_tokens)
  then have seen: "ix_seen (map (\<lambda>i. (i, gm_get '''' index_docs i)) ids) t i \<longleftrightarrow> (\<exists>(j, ts) \<in> index_pairs. j = i \<and> t \<in> set ts)" for t i
    unfolding ix_seen_def by (metis (no_types, lifting) case_prod_beta imageE image_eqI prod.sel)
  have count: "ix_count idx t i \<noteq> None \<longleftrightarrow> (\<exists>(j, ts) \<in> index_pairs. j = i \<and> t \<in> set ts)" for t i
    using ix_build_count [OF assms(1)] seen by (simp add: idx_def)
  have terms: "fmlookup (ix_postings idx) t = None \<longleftrightarrow> (\<forall>(j, ts) \<in> index_pairs. t \<notin> set ts)" for t
    using ix_build_count [OF assms(1)] seen unfolding idx_def by blast
  have search: "ix_SearchAll ord q idx =
     (if tokenize q = [] \<or> (\<exists>t \<in> set (tokenize q). \<forall>(j, ts) \<in> index_pairs. t \<notin> set ts) then None
      else Some (sorted_list_of_set {i. \<forall>t \<in> set (tokenize q). \<exists>(j, ts) \<in> index_pairs. j = i \<and> t \<in> set ts}))" for q
    unfolding ix_SearchAll_spec [OF assms(1)] terms count ..
  have results: "ix_SearchAll ord ''systems design'' idx = Some [''doc1'']" "ix_SearchAll ord ''distributed programming'' idx = Some [''doc3'']"
    "ix_SearchAll ord ''Rust Go'' idx = Some [''doc2'']" "ix_SearchAll ord ''scalable services'' idx = Some [''doc1'']"
    "ix_SearchAll ord ''machine learning'' idx = None"
    by (simp_all add: search index_tokens index_pairs_def conj_disj_distribL conj_disj_distribR) (rule sorted_list_one, auto)+
  have "fset (fmdom (ix_postings idx)) = set [''distributed'', ''systems'', ''design'', ''patterns'', ''for'', ''scalable'', ''services'',
      ''programming'', ''with'', ''rust'', ''and'', ''go'', ''concurrency'', ''in'', ''microservices'']" (is "_ = set ?ts")
  proof -
    have "x \<in> fset (fmdom (ix_postings idx)) \<longleftrightarrow> \<not> (\<forall>(j, ts) \<in> index_pairs. x \<notin> set ts)" for x
      unfolding terms [symmetric] by (simp add: fmlookup_dom_iff)
    then have "fset (fmdom (ix_postings idx)) = (\<Union>(j, ts) \<in> index_pairs. set ts)" by auto
    then show ?thesis by (intro equalityI) (simp_all add: index_pairs_def)
  qed
  moreover have "distinct ?ts" by simp
  ultimately have n: "gm_len (ix_postings idx) = 15"
    unfolding gm_len_def fcard.rep_eq by (simp add: distinct_card [of ?ts])
  show ?thesis
    unfolding index_main_def Let_def idx by (simp add: results n) (simp add: index_docs_def gm_len_def fcard.rep_eq)
qed

subsection \<open>Time series\<close>

definition host_tags :: "string \<Rightarrow> string \<Rightarrow> (string, string) gomap" where
  "host_tags host region = fmupd ''region'' region (fmupd ''host'' host fmempty)"

definition series_points :: "time_point list" where
  "series_points = [
     \<lparr>tp_Timestamp = 1, tp_Metric = ''cpu'', tp_Tags = host_tags ''web-01'' ''us-east'', tp_Value = f_round 0.45\<rparr>,
     \<lparr>tp_Timestamp = 2, tp_Metric = ''cpu'', tp_Tags = host_tags ''web-01'' ''us-east'', tp_Value = f_round 0.72\<rparr>,
     \<lparr>tp_Timestamp = 3, tp_Metric = ''cpu'', tp_Tags = host_tags ''web-01'' ''us-east'', tp_Value = f_round 0.38\<rparr>,
     \<lparr>tp_Timestamp = 1, tp_Metric = ''cpu'', tp_Tags = host_tags ''web-02'' ''us-west'', tp_Value = f_round 0.61\<rparr>,
     \<lparr>tp_Timestamp = 2, tp_Metric = ''cpu'', tp_Tags = host_tags ''web-02'' ''us-west'', tp_Value = f_round 0.55\<rparr>,
     \<lparr>tp_Timestamp = 1, tp_Metric = ''mem'', tp_Tags = host_tags ''web-01'' ''us-east'', tp_Value = f_round 0.82\<rparr>,
     \<lparr>tp_Timestamp = 2, tp_Metric = ''mem'', tp_Tags = host_tags ''web-01'' ''us-east'', tp_Value = f_round 0.79\<rparr>,
     \<lparr>tp_Timestamp = 3, tp_Metric = ''mem'', tp_Tags = host_tags ''web-01'' ''us-east'', tp_Value = f_round 0.86\<rparr>,
     \<lparr>tp_Timestamp = 1, tp_Metric = ''disk'', tp_Tags = host_tags ''web-01'' ''us-east'', tp_Value = f_round 0.33\<rparr>]"

definition series_main :: "(nat \<Rightarrow> string fset \<Rightarrow> string list) \<Rightarrow> (time_point list \<Rightarrow> time_point list) \<Rightarrow> log outcome" where
  "series_main ord srt = operation 101 [(102, [])] (
     let store = fold (ts_Ingest ord srt) series_points NewTimeSeriesStore;
         (avgCPU, okCPU) = ts_Average ord ''cpu'' (host_tags ''web-01'' ''us-east'') 1 3 store;
         (avgMem, okMem) = ts_Average ord ''mem'' (host_tags ''web-01'' ''us-east'') 1 3 store;
         cpuPoints = ts_Query ord ''cpu'' (host_tags ''web-02'' ''us-west'') 1 2 store;
         (_, ok) = ts_Average ord ''network'' (host_tags ''web-01'' ''us-east'') 1 3 store
     in Inr ([(104, []), (105, []), (106, []), (110, []), (126, [SInt (int (length series_points)), SWall]), (128, [])] @
       (if okCPU then [(131, [SFloat avgCPU])] @ (if f_less (f_round 0.5) avgCPU then [(133, [SFloat avgCPU])] else []) else []) @
       (if okMem then [(139, [SFloat avgMem])] @ (if f_less (f_round 0.8) avgMem then [(141, [SFloat avgMem])] else []) else []) @
       [(145, [])] @ map (\<lambda>p. (148, [SInt (tp_Timestamp p), SFloat (tp_Value p)])) cpuPoints @ [(151, [])] @
       (if \<not> ok then [(154, [])] else []) @ [(157, []), (158, [SInt (int (length series_points))]),
        (159, [SInt (int (gm_len (ts_series store)))]), (160, [SFloat avgCPU]), (161, [SFloat avgMem])]))"

lemma host_key:
  assumes "range_orders ord"
  shows "seriesKey ord m (host_tags h r) = m @ ''|host='' @ h @ '',region='' @ r"
proof -
  have "fset (fmdom (host_tags h r)) = set [''host'', ''region'']" by (auto simp: host_tags_def)
  moreover have "sorted [''host'', ''region'']" by code_simp
  ultimately have "sorted_list_of_set (fset (fmdom (host_tags h r))) = [''host'', ''region'']"
    by (simp only: sorted_list_of_set_sort_remdups) (simp add: sort_key_id_if_sorted)
  then show ?thesis unfolding seriesKey_eq [OF assms] by (simp add: host_tags_def)
qed

lemma ts_load_dom: "fset (fmdom (ts_series (fold (ts_Ingest ord srt) ps s))) = point_key ord ` set ps \<union> fset (fmdom (ts_series s))"
  by (induction ps arbitrary: s) (auto simp: ts_Ingest_def Let_def)

text \<open>The mean of three rounded numbers.\<close>

definition mean3 :: "real \<Rightarrow> real \<Rightarrow> real \<Rightarrow> f64" where
  "mean3 x y z = f_div (f_add (f_add (f_add (Fin 0) (f_round x)) (f_round y)) (f_round z)) (Fin 3)"

lemma mean3_near:
  assumes "\<bar>x\<bar> \<le> 1" "\<bar>y\<bar> \<le> 1" "\<bar>z\<bar> \<le> 1"
  shows "near (mean3 x y z) ((x + y + z) / 3) (1 / 2 ^ 50)"
proof -
  have r: "near (f_round v) v (0 + 1 / 2 ^ 53)" if "\<bar>v\<bar> \<le> 1" for v using that by (intro near_round) simp_all
  have "near (Fin 0) 0 0" by (simp add: near_def)
  from near_add [OF this r [OF assms(1)], of 4]
  have "near (f_add (Fin 0) (f_round x)) x (5 / 2 ^ 53)" using assms(1) by simp
  from near_add [OF this r [OF assms(2)], of 4]
  have "near (f_add (f_add (Fin 0) (f_round x)) (f_round y)) (x + y) (10 / 2 ^ 53)" using assms(1,2) by simp
  from near_add [OF this r [OF assms(3)], of 4]
  have "near (f_add (f_add (f_add (Fin 0) (f_round x)) (f_round y)) (f_round z)) (x + y + z) (15 / 2 ^ 53)" using assms by simp
  moreover have "\<bar>(x + y + z) / 3\<bar> \<le> 1" using assms by simp
  ultimately have "near (mean3 x y z) ((x + y + z) / 3) (15 / 2 ^ 53 / 3 + 2 / 2 ^ 53)"
    unfolding mean3_def by (intro near_div) simp_all
  then show ?thesis by (rule near_weaken) simp
qed

text \<open>Points with different times have one order.\<close>

lemma times_order:
  assumes "mset q = mset ps" "sorted (map tp_Timestamp q)" "sorted (map tp_Timestamp ps)" "distinct (map tp_Timestamp ps)"
  shows "q = ps"
proof (rule map_inj_on)
  have "mset (map tp_Timestamp q) = mset (map tp_Timestamp ps)" using assms(1) by simp
  then show "map tp_Timestamp q = map tp_Timestamp ps" using assms(2,3) by (metis properties_for_sort sorted_sort_id)
  have "set q = set ps" using assms(1) by (rule mset_eq_setD)
  then show "inj_on tp_Timestamp (set q \<union> set ps)" using assms(4) by (simp add: distinct_map)
qed

text \<open>The means are those of the decimal numbers up to \<open>2 ^ -50\<close>.\<close>

lemma series_main_logs:
  assumes "range_orders ord" "sorts_by srt tp_Timestamp"
  shows "\<exists>cpu mem. series_main ord srt = operation 101 [(102, [])] (Inr [(104, []), (105, []), (106, []), (110, []), (126, [SInt 9, SWall]), (128, []),
       (131, [SFloat cpu]), (133, [SFloat cpu]), (139, [SFloat mem]), (141, [SFloat mem]), (145, []),
       (148, [SInt 1, SFloat (f_round 0.61)]), (148, [SInt 2, SFloat (f_round 0.55)]), (151, []), (154, []), (157, []), (158, [SInt 9]), (159, [SInt 4]),
       (160, [SFloat cpu]), (161, [SFloat mem])]) \<and>
     near cpu (31 / 60) (1 / 2 ^ 50) \<and> near mem (247 / 300) (1 / 2 ^ 50)"
proof -
  define st where "st = fold (ts_Ingest ord srt) series_points NewTimeSeriesStore"
  define of_key where "of_key m h r = filter (\<lambda>p. seriesKey ord (tp_Metric p) (tp_Tags p) = seriesKey ord m (host_tags h r)) series_points" for m h r
  have stored: "mset (gm_get [] (ts_series st) (seriesKey ord m (host_tags h r))) = mset (of_key m h r)"
    "sorted (map tp_Timestamp (gm_get [] (ts_series st) (seriesKey ord m (host_tags h r))))" for m h r
    using ts_load_series [OF assms(2), of ord series_points] by (simp_all add: of_key_def st_def ts_load_def)
  have query: "ts_Query ord m (host_tags h r) t1 t2 st = filter (\<lambda>p. tp_Timestamp p \<ge> t1 \<and> tp_Timestamp p \<le> t2) (of_key m h r)"
    if "sorted (map tp_Timestamp (of_key m h r))" "distinct (map tp_Timestamp (of_key m h r))" for m h r t1 t2
    unfolding ts_Query_def using times_order [OF stored that] by simp
  define k1 k2 k3 k4 k5 where k_defs: "k1 = seriesKey ord ''cpu'' (host_tags ''web-01'' ''us-east'')"
    "k2 = seriesKey ord ''cpu'' (host_tags ''web-02'' ''us-west'')" "k3 = seriesKey ord ''mem'' (host_tags ''web-01'' ''us-east'')"
    "k4 = seriesKey ord ''disk'' (host_tags ''web-01'' ''us-east'')" "k5 = seriesKey ord ''network'' (host_tags ''web-01'' ''us-east'')"
  have ks: "distinct [k1, k2, k3, k4, k5]" unfolding k_defs host_key [OF assms(1)] by simp
  moreover have "distinct (rev [k1, k2, k3, k4, k5])" unfolding distinct_rev by (rule ks)
  ultimately have ne: "distinct [k1, k2, k3, k4, k5]" "distinct [k5, k4, k3, k2, k1]" by simp_all
  note keys = k_defs [symmetric] ne [simplified]
  have of: "of_key ''cpu'' ''web-01'' ''us-east'' = take 3 series_points" "of_key ''cpu'' ''web-02'' ''us-west'' = take 2 (drop 3 series_points)"
    "of_key ''mem'' ''web-01'' ''us-east'' = take 3 (drop 5 series_points)" "of_key ''network'' ''web-01'' ''us-east'' = []"
    unfolding of_key_def series_points_def
    by (simp_all only: filter.simps time_point.simps keys if_True if_False simp_thms) simp_all
  have q: "ts_Query ord ''cpu'' (host_tags ''web-01'' ''us-east'') 1 3 st = take 3 series_points"
    "ts_Query ord ''mem'' (host_tags ''web-01'' ''us-east'') 1 3 st = take 3 (drop 5 series_points)"
    "ts_Query ord ''network'' (host_tags ''web-01'' ''us-east'') 1 3 st = []"
    "ts_Query ord ''cpu'' (host_tags ''web-02'' ''us-west'') 1 2 st = take 2 (drop 3 series_points)"
    using query of by (simp_all add: series_points_def)
  have cpu: "ts_Average ord ''cpu'' (host_tags ''web-01'' ''us-east'') 1 3 st = (mean3 0.45 0.72 0.38, True)"
    and mem: "ts_Average ord ''mem'' (host_tags ''web-01'' ''us-east'') 1 3 st = (mean3 0.82 0.79 0.86, True)"
    and network: "ts_Average ord ''network'' (host_tags ''web-01'' ''us-east'') 1 3 st = (Fin 0, False)"
    unfolding ts_Average_def q mean3_def by (simp_all add: series_points_def f_of_int_def)
  have means: "near (mean3 0.45 0.72 0.38) (31 / 60) (1 / 2 ^ 50)" "near (mean3 0.82 0.79 0.86) (247 / 300) (1 / 2 ^ 50)"
    using mean3_near [of "0.45" "0.72" "0.38"] mean3_near [of "0.82" "0.79" "0.86"] by simp_all
  have more: "f_less (f_round c) v" if v: "near v r (1 / 2 ^ 50)" and c: "0 \<le> c" "c \<le> 1" "c + 1 / 100 \<le> r" for c r v
  proof -
    have "near (f_round c) c (0 + 1 / 2 ^ 53)" using c by (intro near_round) simp_all
    then obtain a b where "f_round c = Fin a" "\<bar>a - c\<bar> \<le> 0 + 1 / 2 ^ 53" "v = Fin b" "\<bar>b - r\<bar> \<le> 1 / 2 ^ 50"
      using v unfolding near_def by blast
    moreover have "0 + 1 / 2 ^ 53 + 1 / 2 ^ 50 < (1 / 100 :: real)" by simp
    ultimately show ?thesis using c(3) by (simp only: f_less.simps)
  qed
  have alarms: "f_less (f_round 0.5) (mean3 0.45 0.72 0.38)" "f_less (f_round 0.8) (mean3 0.82 0.79 0.86)"
    by (rule more [OF means(1)]; simp) (rule more [OF means(2)]; simp)
  have "fset (fmdom (ts_series st)) = set [k1, k2, k3, k4]" (is "_ = set ?ks")
    unfolding st_def ts_load_dom by (intro equalityI) (simp_all only: series_points_def list.set image_insert image_empty time_point.simps keys, simp_all add: NewTimeSeriesStore_def)
  moreover have "distinct ?ks" using ks by simp
  ultimately have "gm_len (ts_series st) = 4"
    unfolding gm_len_def fcard.rep_eq by (simp add: distinct_card [of ?ks])
  then show ?thesis
    unfolding series_main_def Let_def st_def [symmetric] q cpu mem network prod.case
    using means by (intro exI [of _ "mean3 0.45 0.72 0.38"] exI [of _ "mean3 0.82 0.79 0.86"])
      (simp only: alarms if_True, simp add: series_points_def)
qed

subsection \<open>Key-value store\<close>

text \<open>
  \<open>now line\<close> is the reading of the clock by the call in line \<open>line\<close>, in nanoseconds; \<open>read k\<close> the one for the key \<open>k\<close>
  in the scan of line 137.
\<close>

definition kv_main :: "(nat \<Rightarrow> string fset \<Rightarrow> string list) \<Rightarrow> (nat \<Rightarrow> int) \<Rightarrow> (string \<Rightarrow> int) \<Rightarrow> log outcome" where
  "kv_main ord now read = operation 109 [(110, [])] (
     let store = NewKeyValueStore;
         store = snd (tt_Put (now 119) ''app:config:db_host'' ''postgres.internal:5432'' 0 store);
         store = snd (tt_Put (now 120) ''app:config:max_conn'' ''100'' 0 store);
         store = snd (tt_Put (now 121) ''app:config:log_level'' ''debug'' 0 store);
         store = snd (tt_Put (now 122) ''app:feature:dark_mode'' ''enabled'' 0 store);
         store = snd (tt_Put (now 123) ''app:feature:beta_ui'' ''disabled'' 0 store);
         store = snd (tt_Put (now 124) ''session:abc123'' ''user:42'' (100 * 10 ^ 6) store);
         ((val, ok), store) = tt_Get (now 127) ''app:config:db_host'' store;
         l129 = (if ok then [(129, [SStr val])] else []);
         ((val, ok), store) = tt_Get (now 131) ''app:config:max_conn'' store;
         l133 = (if ok then [(133, [SStr val])] else []);
         (results, store) = tt_Range ord read ''app:config:'' ''app:config:~'' store;
         ((val, ok), store) = tt_Get (now 146) ''session:abc123'' store;
         l147 = (if ok then [(148, [SStr val])] else [(150, [])]);
         (deleted, store) = tt_Delete ''app:feature:beta_ui'' store;
         ((_, ok), store) = tt_Get (now 158) ''app:feature:beta_ui'' store;
         (dbVer, store) = tt_Put (now 164) ''app:config:db_host'' ''mysql.internal:3306'' 0 store
     in Inr ([(112, []), (113, []), (114, []), (118, []), (126, [])] @ l129 @ l133 @ [(136, []), (138, [])] @
       map (\<lambda>(k, v). (140, [SStr k, SStr v])) results @ [(143, []), (144, [])] @ l147 @ [(153, [])] @
       (if deleted then [(156, [])] else []) @ (if \<not> ok then [(160, [])] else []) @
       [(163, []), (165, [SInt dbVer]), (167, []), (168, [SInt (int (gm_len (tt_data store)))]), (169, [SInt (tt_version store)]),
        (170, [SInt (int (length results))]), (171, [SBool (\<not> ok)])]))"

lemma tt_scan_kept:
  "\<forall>k \<in> set ks. k \<ge> lo \<and> k \<le> hi \<longrightarrow> (\<exists>e. fmlookup (tt_data s) k = Some e \<and> kve_ExpiresAt e = None) \<Longrightarrow>
     tt_scan now lo hi ks s = (map (\<lambda>k. (k, kve_Value (the (fmlookup (tt_data s) k)))) (filter (\<lambda>k. k \<ge> lo \<and> k \<le> hi) ks), s)"
  by (induction ks) (auto simp: tt_Get_def expired_def)

lemma kv_keys:
  "sorted [''app:config:db_host'', ''app:config:log_level'', ''app:config:max_conn'', ''app:feature:beta_ui'', ''app:feature:dark_mode'', ''session:abc123'']"
  "filter (\<lambda>k. k \<ge> ''app:config:'' \<and> k \<le> ''app:config:~'')
     [''app:config:db_host'', ''app:config:log_level'', ''app:config:max_conn'', ''app:feature:beta_ui'', ''app:feature:dark_mode'', ''session:abc123''] =
   [''app:config:db_host'', ''app:config:log_level'', ''app:config:max_conn'']"
  by code_simp+

text \<open>
  Line 171 reports that the session has expired; the value printed is the result of the lookup in line 158, of
  another key.
\<close>

lemma kv_main_logs:
  assumes "range_orders ord" "now 124 + 100 * 10 ^ 6 < now 146"
  shows "kv_main ord now read = operation 109 [(110, [])] (Inr [(112, []), (113, []), (114, []), (118, []), (126, []),
     (129, [SStr ''postgres.internal:5432'']), (133, [SStr ''100'']), (136, []), (138, []),
     (140, [SStr ''app:config:db_host'', SStr ''postgres.internal:5432'']), (140, [SStr ''app:config:log_level'', SStr ''debug'']),
     (140, [SStr ''app:config:max_conn'', SStr ''100'']), (143, []), (144, []), (150, []), (153, []), (156, []), (160, []),
     (163, []), (165, [SInt 7]), (167, []), (168, [SInt 4]), (169, [SInt 7]), (170, [SInt 3]), (171, [SBool True])])"
proof -
  define E where "E v x n = \<lparr>kve_Value = v, kve_ExpiresAt = x, kve_Version = n\<rparr>" for v x n
  define m where "m = fmupd ''session:abc123'' (E ''user:42'' (Some (now 124 + 100 * 10 ^ 6)) 6) (fmupd ''app:feature:beta_ui'' (E ''disabled'' None 5)
    (fmupd ''app:feature:dark_mode'' (E ''enabled'' None 4) (fmupd ''app:config:log_level'' (E ''debug'' None 3)
    (fmupd ''app:config:max_conn'' (E ''100'' None 2) (fmupd ''app:config:db_host'' (E ''postgres.internal:5432'' None 1) fmempty)))))"
  let ?s = "\<lparr>tt_data = m, tt_version = 6\<rparr>"
  have E: "kve_Value (E v x n) = v" "kve_ExpiresAt (E v x n) = x" for v x n by (simp_all add: E_def)
  have filled: "snd (tt_Put (now 124) ''session:abc123'' ''user:42'' (100 * 10 ^ 6) (snd (tt_Put (now 123) ''app:feature:beta_ui'' ''disabled'' 0
      (snd (tt_Put (now 122) ''app:feature:dark_mode'' ''enabled'' 0 (snd (tt_Put (now 121) ''app:config:log_level'' ''debug'' 0
      (snd (tt_Put (now 120) ''app:config:max_conn'' ''100'' 0 (snd (tt_Put (now 119) ''app:config:db_host'' ''postgres.internal:5432'' 0
      NewKeyValueStore))))))))))) = ?s"
    by (simp add: tt_Put_def Let_def NewKeyValueStore_def m_def E_def)
  have get: "tt_Get (now 127) ''app:config:db_host'' ?s = ((''postgres.internal:5432'', True), ?s)"
    "tt_Get (now 131) ''app:config:max_conn'' ?s = ((''100'', True), ?s)"
    by (simp_all add: tt_Get_def m_def E expired_def)
  have "set [''app:config:db_host'', ''app:config:log_level'', ''app:config:max_conn'', ''app:feature:beta_ui'', ''app:feature:dark_mode'',
      ''session:abc123''] = fset (fmdom m)" (is "set ?ks = _")
    unfolding m_def by (intro equalityI) simp_all
  then have "sort (ord 0 (fmdom m)) = [''app:config:db_host'', ''app:config:log_level'', ''app:config:max_conn'', ''app:feature:beta_ui'',
      ''app:feature:dark_mode'', ''session:abc123'']"
    by (intro sort_range_order [OF assms(1) kv_keys(1)]) simp
  then have sorted: "sort (ord 0 (fmdom (tt_data ?s))) = ?ks" by simp
  have "\<forall>k \<in> set ?ks. k \<ge> ''app:config:'' \<and> k \<le> ''app:config:~'' \<longrightarrow> (\<exists>e. fmlookup (tt_data ?s) k = Some e \<and> kve_ExpiresAt e = None)"
  proof (intro ballI impI)
    fix k assume "k \<in> set ?ks" "k \<ge> ''app:config:'' \<and> k \<le> ''app:config:~''"
    then have "k \<in> set (filter (\<lambda>k. k \<ge> ''app:config:'' \<and> k \<le> ''app:config:~'') ?ks)" by (simp only: set_filter mem_Collect_eq)
    then show "\<exists>e. fmlookup (tt_data ?s) k = Some e \<and> kve_ExpiresAt e = None" unfolding kv_keys(2) by (auto simp: m_def E)
  qed
  note scan = tt_scan_kept [OF this, of read]
  have range: "tt_Range ord read ''app:config:'' ''app:config:~'' ?s =
      ([(''app:config:db_host'', ''postgres.internal:5432''), (''app:config:log_level'', ''debug''), (''app:config:max_conn'', ''100'')], ?s)"
    unfolding tt_Range_def sorted scan kv_keys(2) by (simp add: m_def E)
  let ?t = "\<lparr>tt_data = fmdrop ''session:abc123'' m, tt_version = 6\<rparr>"
  let ?u = "\<lparr>tt_data = fmdrop ''app:feature:beta_ui'' (fmdrop ''session:abc123'' m), tt_version = 6\<rparr>"
  have rest: "tt_Get (now 146) ''session:abc123'' ?s = (('''', False), ?t)" "tt_Delete ''app:feature:beta_ui'' ?t = (True, ?u)"
    "tt_Get (now 158) ''app:feature:beta_ui'' ?u = (('''', False), ?u)"
    using assms(2) by (simp_all add: tt_Get_def tt_Delete_def m_def E expired_def)
  have "fset (fmdom (fmupd ''app:config:db_host'' e (fmdrop ''app:feature:beta_ui'' (fmdrop ''session:abc123'' m)))) =
      set [''app:config:db_host'', ''app:config:log_level'', ''app:config:max_conn'', ''app:feature:dark_mode'']" for e
    unfolding m_def by (intro equalityI) simp_all
  then have n: "gm_len (fmupd ''app:config:db_host'' e (fmdrop ''app:feature:beta_ui'' (fmdrop ''session:abc123'' m))) = 4" for e
    unfolding gm_len_def fcard.rep_eq by (simp only: distinct_card) simp
  show ?thesis
    unfolding kv_main_def Let_def filled get prod.case range rest
    by (simp add: tt_Put_def Let_def n)
qed

end
