(* ===== verification/Demo_Records.thy ===== *)
theory Demo_Records
  imports Demo_Log Document_Store Column_Store
begin

text \<open>The \<open>main\<close> functions of \<open>src/27\<close> and \<open>src/30\<close>. \<open>ord\<close> is the order of the map loops, as in the components.\<close>

subsection \<open>Document store\<close>

text \<open>\<open>fmt.Sprint\<close> of a field, all fields being strings here.\<close>

definition sprint :: "string option \<Rightarrow> string" where
  "sprint v = (case v of None \<Rightarrow> ''<nil>'' | Some s \<Rightarrow> s)"

definition profile :: "string \<Rightarrow> string \<Rightarrow> string \<Rightarrow> string \<Rightarrow> (string, string option) gomap" where
  "profile kind role name dept = fmupd ''dept'' (Some dept) (fmupd ''name'' (Some name) (fmupd ''role'' (Some role) (fmupd ''type'' (Some kind) fmempty)))"

definition show_field :: "(string, string option) gomap \<Rightarrow> string \<Rightarrow> shown" where
  "show_field d f = (case gm_get None d f of None \<Rightarrow> SNil | Some v \<Rightarrow> SStr v)"

definition docs_main :: "(nat \<Rightarrow> string fset \<Rightarrow> string list) \<Rightarrow> log outcome" where
  "docs_main ord = operation 98 [(99, [])] (
     let store = NewDocumentStore;
         store = dc_Upsert ord sprint ''u1'' (profile ''user'' ''admin'' ''Ada Lovelace'' ''engineering'') store;
         store = dc_Upsert ord sprint ''u2'' (profile ''user'' ''developer'' ''Grace Hopper'' ''engineering'') store;
         store = dc_Upsert ord sprint ''u3'' (profile ''user'' ''manager'' ''Alan Turing'' ''research'') store;
         store = dc_Upsert ord sprint ''u4'' (profile ''service_account'' ''bot'' ''ci-builder'' ''infra'') store;
         store = dc_CreateIndex ord sprint ''type'' store;
         store = dc_CreateIndex ord sprint ''dept'' store;
         store = dc_CreateIndex ord sprint ''role'' store;
         users = dc_FindByField ord sprint ''type'' (Some ''user'') store;
         engineers = dc_FindByField ord sprint ''dept'' (Some ''engineering'') store;
         admins = dc_FindByField ord sprint ''role'' (Some ''admin'') store;
         store2 = NewDocumentStore;
         store2 = dc_Upsert ord sprint ''x1'' (fmupd ''color'' (Some ''red'') fmempty) store2;
         store2 = dc_Upsert ord sprint ''x2'' (fmupd ''color'' (Some ''blue'') fmempty) store2;
         result = dc_FindByField ord sprint ''color'' (Some ''red'') store2
     in Inr ([(101, []), (102, []), (103, []), (107, []), (113, [SInt 4, SWall]), (115, []), (116, []), (120, []), (122, []),
          (124, [SInt (int (length users))])] @ map (\<lambda>doc. (126, [show_field doc ''name'', show_field doc ''role''])) users @
          [(129, []), (131, [SInt (int (length engineers))])] @
          map (\<lambda>doc. (133, [show_field doc ''name'', show_field doc ''role''])) engineers @
          [(136, []), (138, [SInt (int (length admins))])] @ map (\<lambda>doc. (140, [show_field doc ''name''])) admins @
          [(143, []), (148, [SInt (int (length result))]), (150, []), (151, [SInt (int (gm_len (dc_docs store)))]),
           (152, [SInt (int (gm_len (dc_indexes store)))]), (153, [SList [SStr ''type'', SStr ''dept'', SStr ''role'']])]))"

text \<open>The documents, and the fields with an index; an index has exactly the current values.\<close>

definition doc_sim :: "(string, (string, string option) gomap) gomap \<Rightarrow> string set \<Rightarrow> string doc_store \<Rightarrow> bool" where
  "doc_sim docs fs s \<longleftrightarrow> dc_docs s = docs \<and> fset (fmdom (dc_indexes s)) = fs \<and>
     (\<forall>f ix. fmlookup (dc_indexes s) f = Some ix \<longrightarrow>
        (\<forall>v i. ix_has ix v i \<longleftrightarrow> i \<in> fset (fmdom docs) \<and> sprint (gm_get None (gm_get fmempty docs i) f) = v))"

lemma doc_sim_New: "doc_sim fmempty {} NewDocumentStore"
  by (simp add: doc_sim_def NewDocumentStore_def)

lemma doc_sim_Upsert: "doc_sim docs {} s \<Longrightarrow> range_orders ord \<Longrightarrow> doc_sim (fmupd i d docs) {} (dc_Upsert ord sprint i d s)"
proof -
  assume s: "doc_sim docs {} s" "range_orders ord"
  then have "fmdom (dc_indexes s) = {||}" by (metis doc_sim_def bot_fset.rep_eq fset_inject)
  then have "gm_len (dc_indexes s) = 0" by (simp add: gm_len_def)
  then have "dc_indexes s = fmempty" by (simp add: gm_len_0_iff)
  moreover have "ord 0 {||} = []" using s(2) by (metis range_orders_def bot_fset.rep_eq set_empty)
  ultimately show ?thesis using s by (simp add: doc_sim_def dc_Upsert_def Let_def)
qed

lemma doc_sim_Create:
  assumes "doc_sim docs fs s" "range_orders ord"
  shows "doc_sim docs (insert f fs) (dc_CreateIndex ord sprint f s)"
  using assms by (auto simp: doc_sim_def dc_CreateIndex_def Let_def ix_has_fold range_orders_def split: if_splits)

lemma doc_sim_Find:
  assumes "doc_sim docs fs s" "range_orders ord" "f \<in> fs"
  shows "\<exists>is. dc_FindByField ord sprint f v s = map (gm_get fmempty docs) is \<and> distinct is \<and>
     set is = {i \<in> fset (fmdom docs). sprint (gm_get None (gm_get fmempty docs i) f) = sprint v}"
proof -
  obtain ix where ix: "fmlookup (dc_indexes s) f = Some ix"
    using assms(1,3) by (auto simp: doc_sim_def fmlookup_dom_iff)
  let ?is = "ord 0 (fmdom (gm_get fmempty ix (sprint v)))"
  have "set ?is = {i. ix_has ix (sprint v) i}" using assms(2) by (simp add: range_orders_def ix_has_def)
  then have "set ?is = {i \<in> fset (fmdom docs). sprint (gm_get None (gm_get fmempty docs i) f) = sprint v}"
    using assms(1) ix by (simp add: doc_sim_def)
  moreover have "distinct ?is" using assms(2) by (simp add: range_orders_def)
  moreover have "dc_FindByField ord sprint f v s = map (gm_get fmempty docs) ?is"
    using assms(1) ix by (simp add: doc_sim_def dc_FindByField_def)
  ultimately show ?thesis by blast
qed

lemma docs_main_logs:
  assumes ord: "range_orders ord"
  shows "\<exists>us es. docs_main ord = operation 98 [(99, [])] (Inr ([(101, []), (102, []), (103, []), (107, []), (113, [SInt 4, SWall]),
       (115, []), (116, []), (120, []), (122, []), (124, [SInt 3])] @ map (\<lambda>(n, r). (126, [SStr n, SStr r])) us @
       [(129, []), (131, [SInt 2])] @ map (\<lambda>(n, r). (133, [SStr n, SStr r])) es @
       [(136, []), (138, [SInt 1]), (140, [SStr ''Ada Lovelace'']), (143, []), (148, [SInt 1]), (150, []), (151, [SInt 4]),
        (152, [SInt 3]), (153, [SList [SStr ''type'', SStr ''dept'', SStr ''role'']])])) \<and>
     mset us = {# (''Ada Lovelace'', ''admin''), (''Grace Hopper'', ''developer''), (''Alan Turing'', ''manager'') #} \<and>
     mset es = {# (''Ada Lovelace'', ''admin''), (''Grace Hopper'', ''developer'') #}"
proof -
  define D where "D = fmupd ''u4'' (profile ''service_account'' ''bot'' ''ci-builder'' ''infra'')
    (fmupd ''u3'' (profile ''user'' ''manager'' ''Alan Turing'' ''research'') (fmupd ''u2'' (profile ''user'' ''developer'' ''Grace Hopper'' ''engineering'')
    (fmupd ''u1'' (profile ''user'' ''admin'' ''Ada Lovelace'' ''engineering'') fmempty)))"
  define st where "st = dc_CreateIndex ord sprint ''role'' (dc_CreateIndex ord sprint ''dept'' (dc_CreateIndex ord sprint ''type''
    (dc_Upsert ord sprint ''u4'' (profile ''service_account'' ''bot'' ''ci-builder'' ''infra'')
    (dc_Upsert ord sprint ''u3'' (profile ''user'' ''manager'' ''Alan Turing'' ''research'')
    (dc_Upsert ord sprint ''u2'' (profile ''user'' ''developer'' ''Grace Hopper'' ''engineering'')
    (dc_Upsert ord sprint ''u1'' (profile ''user'' ''admin'' ''Ada Lovelace'' ''engineering'') NewDocumentStore))))))"
  have st: "doc_sim D {''role'', ''dept'', ''type''} st"
    unfolding st_def D_def by (intro doc_sim_Create doc_sim_Upsert doc_sim_New ord)
  let ?val = "\<lambda>i f. sprint (gm_get None (gm_get fmempty D i) f)"
  have shown: "show_field (gm_get fmempty D i) f = SStr (?val i f)" if "i \<in> fset (fmdom D)" "f \<in> {''name'', ''role''}" for i f
    using that by (auto simp: D_def profile_def show_field_def sprint_def)
  have find: "\<exists>is. dc_FindByField ord sprint f v st = map (gm_get fmempty D) is \<and> mset is = mset xs \<and> set is \<subseteq> fset (fmdom D)"
    if "f \<in> {''role'', ''dept'', ''type''}" "distinct xs" "set xs = {i \<in> fset (fmdom D). ?val i f = sprint v}" for f v xs
    using doc_sim_Find [OF st ord that(1), of v] that(2,3) by (metis (no_types, lifting) set_eq_iff_mset_eq_distinct mem_Collect_eq subsetI)
  have of: "set [''u1'', ''u2'', ''u3''] = {i \<in> fset (fmdom D). ?val i ''type'' = sprint (Some ''user'')}"
    "set [''u1'', ''u2''] = {i \<in> fset (fmdom D). ?val i ''dept'' = sprint (Some ''engineering'')}"
    "set [''u1''] = {i \<in> fset (fmdom D). ?val i ''role'' = sprint (Some ''admin'')}"
    by (auto simp: D_def profile_def sprint_def)
  obtain us where us: "dc_FindByField ord sprint ''type'' (Some ''user'') st = map (gm_get fmempty D) us" "mset us = mset [''u1'', ''u2'', ''u3'']" "set us \<subseteq> fset (fmdom D)"
    using find [OF _ _ of(1)] by auto
  obtain es where es: "dc_FindByField ord sprint ''dept'' (Some ''engineering'') st = map (gm_get fmempty D) es" "mset es = mset [''u1'', ''u2'']" "set es \<subseteq> fset (fmdom D)"
    using find [OF _ _ of(2)] by auto
  obtain as where "dc_FindByField ord sprint ''role'' (Some ''admin'') st = map (gm_get fmempty D) as" "mset as = mset [''u1'']" "set as \<subseteq> fset (fmdom D)"
    using find [OF _ _ of(3)] by auto
  then have as: "dc_FindByField ord sprint ''role'' (Some ''admin'') st = [gm_get fmempty D ''u1'']" by simp
  have red: "length (dc_FindByField ord sprint ''color'' (Some ''red'')
      (dc_Upsert ord sprint ''x2'' (fmupd ''color'' (Some ''blue'') fmempty)
      (dc_Upsert ord sprint ''x1'' (fmupd ''color'' (Some ''red'') fmempty) NewDocumentStore))) = 1" (is "length (dc_FindByField _ _ _ _ ?s2) = 1")
  proof -
    let ?E = "fmupd ''x2'' (fmupd ''color'' (Some ''blue'') fmempty) (fmupd ''x1'' (fmupd ''color'' (Some ''red'') fmempty) fmempty)"
    let ?is = "ord 1 (fmdom ?E)"
    have "doc_sim ?E {} ?s2" by (intro doc_sim_Upsert doc_sim_New ord)
    then have "dc_docs ?s2 = ?E" "fmlookup (dc_indexes ?s2) ''color'' = None"
      by (auto simp: doc_sim_def intro: fmdom_notI)
    then have "length (dc_FindByField ord sprint ''color'' (Some ''red'') ?s2) =
        size (filter_mset (\<lambda>i. sprint (gm_get None (gm_get fmempty ?E i) ''color'') = ''red'') (mset ?is))"
      unfolding dc_FindByField_def by (simp add: filter_map o_def sprint_def flip: mset_filter)
    also have "mset ?is = mset [''x1'', ''x2'']"
      using ord by (subst set_eq_iff_mset_eq_distinct [symmetric]) (auto simp: range_orders_def)
    also have "size (filter_mset (\<lambda>i. sprint (gm_get None (gm_get fmempty ?E i) ''color'') = ''red'') (mset [''x1'', ''x2''])) = 1"
      by (simp add: sprint_def)
    finally show ?thesis .
  qed
  have n: "gm_len (dc_docs st) = 4" "gm_len (dc_indexes st) = 3"
    using st by (simp_all add: doc_sim_def gm_len_def fcard.rep_eq D_def)
  define pr where "pr i = (?val i ''name'', ?val i ''role'')" for i
  have pr: "pr ''u1'' = (''Ada Lovelace'', ''admin'')" "pr ''u2'' = (''Grace Hopper'', ''developer'')" "pr ''u3'' = (''Alan Turing'', ''manager'')"
    by (simp_all add: pr_def D_def profile_def sprint_def)
  have pairs: "map (\<lambda>doc. (l, [show_field doc ''name'', show_field doc ''role''])) (map (gm_get fmempty D) is) =
      map (\<lambda>(n, r). (l, [SStr n, SStr r])) (map pr is)" if "set is \<subseteq> fset (fmdom D)" for l :: nat and "is"
    using that by (auto simp: pr_def shown)
  have "show_field (gm_get fmempty D ''u1'') ''name'' = SStr ''Ada Lovelace''" using pr(1) shown [of "''u1''"] by (simp add: pr_def D_def)
  moreover have "length us = 3" "length es = 2" using mset_eq_length [OF us(2)] mset_eq_length [OF es(2)] by simp_all
  ultimately have "docs_main ord = operation 98 [(99, [])] (Inr ([(101, []), (102, []), (103, []), (107, []), (113, [SInt 4, SWall]),
       (115, []), (116, []), (120, []), (122, []), (124, [SInt 3])] @ map (\<lambda>(n, r). (126, [SStr n, SStr r])) (map pr us) @
       [(129, []), (131, [SInt 2])] @ map (\<lambda>(n, r). (133, [SStr n, SStr r])) (map pr es) @
       [(136, []), (138, [SInt 1]), (140, [SStr ''Ada Lovelace'']), (143, []), (148, [SInt 1]), (150, []), (151, [SInt 4]),
        (152, [SInt 3]), (153, [SList [SStr ''type'', SStr ''dept'', SStr ''role'']])]))"
    unfolding docs_main_def Let_def st_def [symmetric] us(1) es(1) as pairs [OF us(3)] pairs [OF es(3)] red n by simp
  moreover have "mset (map pr us) = {# (''Ada Lovelace'', ''admin''), (''Grace Hopper'', ''developer''), (''Alan Turing'', ''manager'') #}"
    "mset (map pr es) = {# (''Ada Lovelace'', ''admin''), (''Grace Hopper'', ''developer'') #}"
    unfolding mset_map us(2) es(2) by (simp_all add: pr)
  ultimately show ?thesis by blast
qed

subsection \<open>Column store\<close>

definition invoice :: "string \<Rightarrow> string \<Rightarrow> string \<Rightarrow> string \<Rightarrow> string \<Rightarrow> string \<Rightarrow> (string, string) gomap" where
  "invoice iid customer country amount currency status = fmupd ''status'' status (fmupd ''currency'' currency (fmupd ''amount'' amount
     (fmupd ''country'' country (fmupd ''customer_id'' customer (fmupd ''invoice_id'' iid fmempty)))))"

definition invoice_rows :: "(string, string) gomap list" where
  "invoice_rows = [
     invoice ''INV-001'' ''C42'' ''PK'' ''150.00'' ''USD'' ''paid'',
     invoice ''INV-002'' ''C17'' ''US'' ''320.00'' ''USD'' ''pending'',
     invoice ''INV-003'' ''C42'' ''PK'' ''89.50'' ''USD'' ''paid'',
     invoice ''INV-004'' ''C99'' ''UK'' ''210.00'' ''GBP'' ''paid'',
     invoice ''INV-005'' ''C17'' ''US'' ''75.00'' ''USD'' ''overdue'']"

definition event_rows :: "(string, string) gomap list" where
  "event_rows = [
     fmupd ''user'' ''alice'' (fmupd ''event'' ''login'' fmempty),
     fmupd ''item'' ''book'' (fmupd ''user'' ''bob'' (fmupd ''event'' ''purchase'' fmempty)),
     fmupd ''duration_ms'' ''1200'' (fmupd ''user'' ''alice'' (fmupd ''event'' ''logout'' fmempty))]"

definition all_columns :: "string list" where
  "all_columns = [''invoice_id'', ''customer_id'', ''country'', ''amount'', ''currency'', ''status'']"

text \<open>\<open>%v\<close> of a map prints its entries in the order of the keys.\<close>

definition show_row :: "(string, string) gomap \<Rightarrow> shown" where
  "show_row row = SList (map (\<lambda>c. SList [SStr c, SStr (gm_get '''' row c)]) (sorted_list_of_fset (fmdom row)))"

definition columns_main :: "(nat \<Rightarrow> string fset \<Rightarrow> string list) \<Rightarrow> log outcome" where
  "columns_main ord = operation 75 [(76, [])] (
     let store = fold (co_Insert ord) invoice_rows NewColumnStore;
         result = co_Project [''country'', ''amount''] store;
         invoices = co_Project [''invoice_id''] store;
         fullResult = co_Project all_columns store;
         store2 = fold (co_Insert ord) event_rows NewColumnStore;
         events = co_Project [''event'', ''user'', ''item'', ''duration_ms''] store2
     in Inr ([(78, []), (79, []), (80, []), (84, []), (126, [SInt 5, SWall]), (128, []), (129, [])] @
       map (\<lambda>(i, row). (132, [SInt (int i), SStr (gm_get '''' row ''country''), SStr (gm_get '''' row ''amount'')])) (enumerate 0 result) @
       [(135, []), (137, [SInt (int (length invoices))])] @ map (\<lambda>row. (139, [SStr (gm_get '''' row ''invoice_id'')])) invoices @
       [(142, []), (143, []), (145, [SInt (int (length fullResult))])] @
       map (\<lambda>row. (147, map (\<lambda>c. SStr (gm_get '''' row c)) all_columns)) fullResult @
       [(152, []), (157, [SList (map show_row events)]), (159, []), (160, [SInt (int (co_rows store))]),
        (161, [SInt (int (gm_len (co_columns store)))]), (162, [SList (map SStr all_columns)])]))"

lemma co_Project_load:
  assumes "range_orders ord"
  shows "co_Project cs (fold (co_Insert ord) rows NewColumnStore) =
     map (\<lambda>row. fold (\<lambda>c r. if co_known rows c then fmupd c (gm_get [] row c) r else r) cs fmempty) rows"
proof -
  note cols = co_load_columns [OF assms, unfolded co_load_def, of rows]
  have "co_row cs (co_columns (fold (co_Insert ord) rows NewColumnStore)) i =
      fold (\<lambda>c r. if co_known rows c then fmupd c (gm_get [] (rows ! i) c) r else r) cs fmempty" if "i < length rows" for i
    unfolding co_row_def
  proof (rule fold_cong [OF refl refl], rule ext)
    fix c r
    show "(let vs = gm_get [] (co_columns (fold (co_Insert ord) rows NewColumnStore)) c in if i < length vs then fmupd c (vs ! i) r else r) =
        (if co_known rows c then fmupd c (gm_get [] (rows ! i) c) r else r)"
      using that cols by (simp add: gm_get_def [of "[]" "co_columns (fold (co_Insert ord) rows NewColumnStore)"] Let_def)
  qed
  then show ?thesis using cols unfolding co_Project_def by (intro nth_equalityI) simp_all
qed

lemma columns_main_logs:
  assumes ord: "range_orders ord"
  shows "columns_main ord = operation 75 [(76, [])] (Inr ([(78, []), (79, []), (80, []), (84, []), (126, [SInt 5, SWall]), (128, []), (129, []),
     (132, [SInt 0, SStr ''PK'', SStr ''150.00'']), (132, [SInt 1, SStr ''US'', SStr ''320.00'']), (132, [SInt 2, SStr ''PK'', SStr ''89.50'']),
     (132, [SInt 3, SStr ''UK'', SStr ''210.00'']), (132, [SInt 4, SStr ''US'', SStr ''75.00'']), (135, []), (137, [SInt 5]),
     (139, [SStr ''INV-001'']), (139, [SStr ''INV-002'']), (139, [SStr ''INV-003'']), (139, [SStr ''INV-004'']), (139, [SStr ''INV-005'']),
     (142, []), (143, []), (145, [SInt 5])] @
     map (\<lambda>row. (147, map (\<lambda>c. SStr (gm_get '''' row c)) all_columns)) invoice_rows @
     [(152, []), (157, [SList [
        SList [SList [SStr ''duration_ms'', SStr ''''], SList [SStr ''event'', SStr ''login''], SList [SStr ''item'', SStr ''''], SList [SStr ''user'', SStr ''alice'']],
        SList [SList [SStr ''duration_ms'', SStr ''''], SList [SStr ''event'', SStr ''purchase''], SList [SStr ''item'', SStr ''book''], SList [SStr ''user'', SStr ''bob'']],
        SList [SList [SStr ''duration_ms'', SStr ''1200''], SList [SStr ''event'', SStr ''logout''], SList [SStr ''item'', SStr ''''], SList [SStr ''user'', SStr ''alice'']]]]),
      (159, []), (160, [SInt 5]), (161, [SInt 6]), (162, [SList (map SStr all_columns)])]))"
proof -
  have known: "co_known invoice_rows c" if "c \<in> set all_columns" for c
    using that by (auto simp: co_known_def invoice_rows_def invoice_def all_columns_def)
  have get: "gm_get [] (fold (\<lambda>c r. if co_known rows c then fmupd c (g c) r else r) cs m) c =
      (if c \<in> set cs \<and> co_known rows c then g c else gm_get [] m c)" for rows cs c m and g :: "string \<Rightarrow> string"
    by (induction cs arbitrary: m) auto
  have full: "map (\<lambda>row. (147, map (\<lambda>c. SStr (gm_get '''' row c)) all_columns)) (co_Project all_columns (fold (co_Insert ord) invoice_rows NewColumnStore)) =
      map (\<lambda>row. (147, map (\<lambda>c. SStr (gm_get '''' row c)) all_columns)) invoice_rows"
    unfolding co_Project_load [OF ord] by (simp add: get known)
  have "fset (fmdom (co_columns (fold (co_Insert ord) invoice_rows NewColumnStore))) = set all_columns"
  proof (rule set_eqI)
    fix c
    have "c \<in> fset (fmdom (co_columns (fold (co_Insert ord) invoice_rows NewColumnStore))) \<longleftrightarrow> co_known invoice_rows c"
      using co_load_columns [OF ord, of invoice_rows] by (auto simp: co_load_def fmlookup_dom_iff)
    also have "\<dots> \<longleftrightarrow> c \<in> set all_columns"
      by (auto simp: co_known_def invoice_rows_def invoice_def all_columns_def split: if_splits)
    finally show "c \<in> fset (fmdom (co_columns (fold (co_Insert ord) invoice_rows NewColumnStore))) \<longleftrightarrow> c \<in> set all_columns" .
  qed
  moreover have "distinct all_columns" "length all_columns = 6" by (simp_all add: all_columns_def)
  ultimately have n: "gm_len (co_columns (fold (co_Insert ord) invoice_rows NewColumnStore)) = 6"
    "co_rows (fold (co_Insert ord) invoice_rows NewColumnStore) = 5"
    using co_load_columns [OF ord, of invoice_rows] by (simp_all add: gm_len_def fcard.rep_eq distinct_card co_load_def) (simp add: invoice_rows_def)
  have "co_known event_rows ''event'' \<and> co_known event_rows ''user'' \<and> co_known event_rows ''item'' \<and> co_known event_rows ''duration_ms''"
    by (simp add: co_known_def event_rows_def)
  then have events: "co_Project [''event'', ''user'', ''item'', ''duration_ms''] (fold (co_Insert ord) event_rows NewColumnStore) =
      map (\<lambda>row. fmupd ''duration_ms'' (gm_get [] row ''duration_ms'') (fmupd ''item'' (gm_get [] row ''item'')
        (fmupd ''user'' (gm_get [] row ''user'') (fmupd ''event'' (gm_get [] row ''event'') fmempty)))) event_rows"
    unfolding co_Project_load [OF ord] by simp
  have "sorted [''duration_ms'', ''event'', ''item'', ''user'']" by code_simp
  then have "sorted_list_of_set (set [''duration_ms'', ''event'', ''item'', ''user'']) = [''duration_ms'', ''event'', ''item'', ''user'']"
    by (intro sorted_list_of_set.idem_if_sorted_distinct) simp_all
  then have order: "sorted_list_of_fset {|''duration_ms'', ''item'', ''user'', ''event''|} = [''duration_ms'', ''event'', ''item'', ''user'']"
    by (simp add: sorted_list_of_fset.rep_eq insert_commute)
  have row: "show_row (fmupd ''duration_ms'' d (fmupd ''item'' t (fmupd ''user'' u (fmupd ''event'' e fmempty)))) =
      SList [SList [SStr ''duration_ms'', SStr d], SList [SStr ''event'', SStr e], SList [SStr ''item'', SStr t], SList [SStr ''user'', SStr u]]" for d t u e
    by (simp add: show_row_def order)
  have two: "co_Project [''country'', ''amount''] (fold (co_Insert ord) invoice_rows NewColumnStore) =
      map (\<lambda>row. fmupd ''amount'' (gm_get [] row ''amount'') (fmupd ''country'' (gm_get [] row ''country'') fmempty)) invoice_rows"
    "co_Project [''invoice_id''] (fold (co_Insert ord) invoice_rows NewColumnStore) =
      map (\<lambda>row. fmupd ''invoice_id'' (gm_get [] row ''invoice_id'') fmempty) invoice_rows"
    using known unfolding co_Project_load [OF ord] by (simp_all add: all_columns_def)
  have "length (co_Project all_columns (fold (co_Insert ord) invoice_rows NewColumnStore)) = 5" by (simp add: co_Project_def n)
  then show ?thesis
    unfolding columns_main_def Let_def full two events n
    by (simp add: invoice_rows_def event_rows_def invoice_def row)
qed

end
