(* ===== verification/Demo_Graph.thy ===== *)
theory Demo_Graph
  imports Demo_Log Graph_Database
begin

text \<open>
  The \<open>main\<close> function of \<open>src/28\<close>. \<open>ord\<close> is the order of the map loops of the component, \<open>eord\<close> the one of the loop in line
  164. Where two shortest paths exist, the order decides which one is found: the section of line 143 is headed
  "Through Eve", but the path through Bob is as short.
\<close>

definition person :: "string \<Rightarrow> string \<Rightarrow> (string, string) gomap option" where
  "person name city = Some (fmupd ''city'' city (fmupd ''name'' name fmempty))"

definition graph_main :: "(nat \<Rightarrow> string fset \<Rightarrow> string list) \<Rightarrow> ((string, (string, bool) gomap) gomap \<Rightarrow> string list) \<Rightarrow> log outcome" where
  "graph_main ord eord = operation 101 [(102, [])] (
     let graph = NewGraphDatabase;
         graph = gd_AddNode ''alice'' (person ''Alice'' ''London'') graph;
         graph = gd_AddNode ''bob'' (person ''Bob'' ''Paris'') graph;
         graph = gd_AddNode ''charlie'' (person ''Charlie'' ''Berlin'') graph;
         graph = gd_AddNode ''diana'' (person ''Diana'' ''Tokyo'') graph;
         graph = gd_AddNode ''eve'' (person ''Eve'' ''New York'') graph;
         graph = gd_AddNode ''frank'' (person ''Frank'' ''Sydney'') graph in
     and_then (gd_AddEdge ''alice'' ''bob'' False graph) (\<lambda>graph.
     and_then (gd_AddEdge ''bob'' ''charlie'' False graph) (\<lambda>graph.
     and_then (gd_AddEdge ''charlie'' ''diana'' False graph) (\<lambda>graph.
     and_then (gd_AddEdge ''alice'' ''eve'' False graph) (\<lambda>graph.
     and_then (gd_AddEdge ''eve'' ''charlie'' False graph) (\<lambda>graph.
     and_then (ended (map_option Inr (gd_ShortestPath ord ''alice'' ''bob'' graph))) (\<lambda>path1.
     and_then (ended (map_option Inr (gd_ShortestPath ord ''alice'' ''diana'' graph))) (\<lambda>path2.
     and_then (case path2 of None \<Rightarrow> Inr [] | Some path \<Rightarrow>
       if length path \<le> 1 then Inl IndexOutOfRange else Inr [(140, [SList (map SStr path), SStr (path ! 1)])]) (\<lambda>l140.
     and_then (ended (map_option Inr (gd_ShortestPath ord ''alice'' ''charlie'' graph))) (\<lambda>path3.
     and_then (ended (map_option Inr (gd_ShortestPath ord ''alice'' ''frank'' graph))) (\<lambda>path4.
     and_then (ended (map_option Inr (gd_ShortestPath ord ''alice'' ''zoe'' graph))) (\<lambda>path5.
     let edgeCount = fold (\<lambda>k n. n + gm_len (gm_get fmempty (gd_edges graph) k)) (eord (gd_edges graph)) 0
     in Inr ([(104, []), (105, []), (106, []), (110, []), (129, [SInt 6, SWall]), (131, [])] @
       (case path1 of None \<Rightarrow> [] | Some path \<Rightarrow> [(134, [SList (map SStr path)])]) @ [(137, [])] @ l140 @ [(143, [])] @
       (case path3 of None \<Rightarrow> [] | Some path \<Rightarrow> [(146, [SList (map SStr path)])]) @ [(149, [])] @
       (case path4 of None \<Rightarrow> [(152, [])] | Some path \<Rightarrow> []) @ [(155, [])] @
       (case path5 of None \<Rightarrow> [(158, [])] | Some path \<Rightarrow> []) @ [(161, []), (162, [SInt (int (gm_len (gd_nodes graph)))]),
       (167, [SInt (int (edgeCount div 2))]), (168, [SInt 1])])))))))))))))"

definition friends :: "(string \<times> string) set" where
  "friends = {(''alice'', ''bob''), (''bob'', ''alice''), (''bob'', ''charlie''), (''charlie'', ''bob''), (''charlie'', ''diana''), (''diana'', ''charlie''),
     (''alice'', ''eve''), (''eve'', ''alice''), (''eve'', ''charlie''), (''charlie'', ''eve'')}"

lemma gd_search_from:
  assumes "range_orders ord" "present g src" "present g dst"
  shows "\<exists>r. gd_ShortestPath ord src dst g = Some r \<and>
    (case r of None \<Rightarrow> \<forall>q. \<not> is_path (gd_edges g) src q dst
     | Some p \<Rightarrow> is_path (gd_edges g) src p dst \<and> (\<forall>q. is_path (gd_edges g) src q dst \<longrightarrow> length p \<le> length q))"
proof -
  have "bfs_inv (gd_edges g) src dst [[src]] {x. gm_get False (fmupd src True fmempty) x}"
    by (auto simp: bfs_inv_def is_path_def Suc_le_eq)
  from gd_search_ok [OF assms(1) this, of 0] show ?thesis using assms(2,3) by (auto simp: gd_ShortestPath_def)
qed

text \<open>Short walks from Alice.\<close>

lemma friends_simps [simp]:
  "(''alice'', y) \<in> friends \<longleftrightarrow> y = ''bob'' \<or> y = ''eve''" "(''bob'', y) \<in> friends \<longleftrightarrow> y = ''alice'' \<or> y = ''charlie''"
  "(''eve'', y) \<in> friends \<longleftrightarrow> y = ''alice'' \<or> y = ''charlie''" "(''charlie'', y) \<in> friends \<longleftrightarrow> y = ''bob'' \<or> y = ''diana'' \<or> y = ''eve''"
  "(''diana'', y) \<in> friends \<longleftrightarrow> y = ''charlie''"
  by (auto simp: friends_def)

lemma friends_walk:
  assumes "is_path E ''alice'' p b" "length p \<le> 4" "\<And>x y. edge E x y \<longleftrightarrow> (x, y) \<in> friends"
  shows "p = [''alice''] \<and> b = ''alice'' \<or> (\<exists>v \<in> {''bob'', ''eve''}. p = [''alice'', v] \<and> b = v \<or>
     p = [''alice'', v, ''alice''] \<and> b = ''alice'' \<or> p = [''alice'', v, ''charlie''] \<and> b = ''charlie'' \<or>
     (\<exists>w \<in> {''bob'', ''eve''}. p = [''alice'', v, ''alice'', w] \<and> b = w) \<or>
     (\<exists>w \<in> {''bob'', ''diana'', ''eve''}. p = [''alice'', v, ''charlie'', w] \<and> b = w))"
proof -
  have e: "successively (\<lambda>x y. (x, y) \<in> friends) p" "hd p = ''alice''" "List.last p = b" "p \<noteq> []"
    using assms(1,3) by (simp_all add: is_path_def)
  have "length p \<noteq> 0" using e(4) by simp
  then have "length p = 1 \<or> length p = 2 \<or> length p = 3 \<or> length p = 4" using assms(2) by presburger
  then consider x where "p = [x]" | x y where "p = [x, y]" | x y z where "p = [x, y, z]" | x y z w where "p = [x, y, z, w]"
    by (auto simp: length_Suc_conv numeral_eq_Suc)
  then show ?thesis
  proof cases
    case 1
    then show ?thesis using e by simp
  next
    case 2
    then show ?thesis using e by simp
  next
    case 3
    then show ?thesis using e by simp (elim disjE conjE; simp)
  next
    case 4
    then show ?thesis using e by simp (elim disjE conjE; simp; elim disjE conjE; simp)
  qed
qed

lemma graph_main_logs:
  assumes ord: "range_orders ord" and eord: "\<And>m. enumerates (eord m) m"
  shows "\<exists>v w. graph_main ord eord = operation 101 [(102, [])] (Inr [(104, []), (105, []), (106, []), (110, []), (129, [SInt 6, SWall]), (131, []),
     (134, [SList [SStr ''alice'', SStr ''bob'']]), (137, []),
     (140, [SList [SStr ''alice'', SStr v, SStr ''charlie'', SStr ''diana''], SStr v]), (143, []),
     (146, [SList [SStr ''alice'', SStr w, SStr ''charlie'']]), (149, []), (152, []), (155, []), (158, []), (161, []), (162, [SInt 6]),
     (167, [SInt 5]), (168, [SInt 1])]) \<and> {v, w} \<subseteq> {''bob'', ''eve''}"
proof -
  define nodes where "nodes = fmupd ''frank'' (person ''Frank'' ''Sydney'') (fmupd ''eve'' (person ''Eve'' ''New York'') (fmupd ''diana'' (person ''Diana'' ''Tokyo'')
    (fmupd ''charlie'' (person ''Charlie'' ''Berlin'') (fmupd ''bob'' (person ''Bob'' ''Paris'') (fmupd ''alice'' (person ''Alice'' ''London'') fmempty)))))"
  define G where "G es = \<lparr>gd_nodes = nodes, gd_edges = es\<rparr>" for es
  have present: "present (G es) n \<longleftrightarrow> n \<in> {''alice'', ''bob'', ''charlie'', ''diana'', ''eve'', ''frank''}" for es n
    by (simp add: G_def nodes_def person_def)
  define E0 :: "(string, (string, bool) gomap) gomap" where "E0 = fmupd ''frank'' fmempty (fmupd ''eve'' fmempty (fmupd ''diana'' fmempty
    (fmupd ''charlie'' fmempty (fmupd ''bob'' fmempty (fmupd ''alice'' fmempty fmempty)))))"
  define fr where "fr a b es = (let es = fmupd a (fmupd b True (gm_get fmempty es a)) es in fmupd b (fmupd a True (gm_get fmempty es b)) es)"
    for a b :: string and es
  define E where "E = fr ''eve'' ''charlie'' (fr ''alice'' ''eve'' (fr ''charlie'' ''diana'' (fr ''bob'' ''charlie'' (fr ''alice'' ''bob'' E0))))"
  have start: "gd_AddNode ''frank'' (person ''Frank'' ''Sydney'') (gd_AddNode ''eve'' (person ''Eve'' ''New York'') (gd_AddNode ''diana'' (person ''Diana'' ''Tokyo'')
      (gd_AddNode ''charlie'' (person ''Charlie'' ''Berlin'') (gd_AddNode ''bob'' (person ''Bob'' ''Paris'') (gd_AddNode ''alice'' (person ''Alice'' ''London'')
      NewGraphDatabase))))) = G E0"
    by (simp add: gd_AddNode_def NewGraphDatabase_def G_def E0_def nodes_def Let_def)
  have fr_dom: "fmdom (fr a b es) = finsert b (finsert a (fmdom es))" for a b es by (simp add: fr_def Let_def)
  have fr_edge: "edge (fr a b es) x y \<longleftrightarrow> edge es x y \<or> (x, y) \<in> {(a, b), (b, a)}" for a b es x y
    by (auto simp: edge_def fr_def Let_def)
  have add: "gd_AddEdge a b False (G es) = Inr (G (fr a b es))"
    if "a |\<in>| fmdom es" "b |\<in>| fmdom es" "present (G es) a" "present (G es) b" for a b es
  proof -
    note h = that
    obtain x y where "fmlookup es a = Some x" "fmlookup es b = Some y" using h(1,2) by (auto simp: fmlookup_dom_iff)
    moreover obtain na nb where "gm_get None nodes a = Some na" "gm_get None nodes b = Some nb" using h(3,4) by (auto simp: G_def)
    ultimately show ?thesis
      by (cases "a = b") (simp_all add: gd_AddEdge_def gd_link_def G_def fr_def Let_def gm_get_Some)
  qed
  have dom: "fmdom E0 = {|''alice'', ''bob'', ''charlie'', ''diana'', ''eve'', ''frank''|}" by (auto simp: E0_def)
  have edges: "edge E x y \<longleftrightarrow> (x, y) \<in> friends" for x y
    unfolding E_def fr_edge by (auto simp: friends_def E0_def edge_def)
  have built: "gd_AddEdge ''alice'' ''bob'' False (G E0) = Inr (G (fr ''alice'' ''bob'' E0))"
    "gd_AddEdge ''bob'' ''charlie'' False (G (fr ''alice'' ''bob'' E0)) = Inr (G (fr ''bob'' ''charlie'' (fr ''alice'' ''bob'' E0)))"
    "gd_AddEdge ''charlie'' ''diana'' False (G (fr ''bob'' ''charlie'' (fr ''alice'' ''bob'' E0))) =
       Inr (G (fr ''charlie'' ''diana'' (fr ''bob'' ''charlie'' (fr ''alice'' ''bob'' E0))))"
    "gd_AddEdge ''alice'' ''eve'' False (G (fr ''charlie'' ''diana'' (fr ''bob'' ''charlie'' (fr ''alice'' ''bob'' E0)))) =
       Inr (G (fr ''alice'' ''eve'' (fr ''charlie'' ''diana'' (fr ''bob'' ''charlie'' (fr ''alice'' ''bob'' E0)))))"
    "gd_AddEdge ''eve'' ''charlie'' False (G (fr ''alice'' ''eve'' (fr ''charlie'' ''diana'' (fr ''bob'' ''charlie'' (fr ''alice'' ''bob'' E0))))) = Inr (G E)"
    unfolding E_def by (rule add; (unfold present)?; simp add: fr_dom dom)+
  have EG: "gd_edges (G es) = es" for es by (simp add: G_def)
  have pres: "present (G E) ''alice''" "present (G E) ''bob''" "present (G E) ''charlie''" "present (G E) ''diana''" "present (G E) ''frank''"
    unfolding present by simp_all
  note search = gd_search_from [OF ord pres(1), unfolded EG]
  have shortest: "\<exists>p. gd_ShortestPath ord ''alice'' b (G E) = Some (Some p) \<and> is_path E ''alice'' p b \<and> length p \<le> length q"
    if "present (G E) b" "is_path E ''alice'' q b" for b q
    using search [OF that(1)] that(2) by (auto split: option.splits)
  have p1: "gd_ShortestPath ord ''alice'' ''bob'' (G E) = Some (Some [''alice'', ''bob''])"
  proof -
    obtain p where p: "gd_ShortestPath ord ''alice'' ''bob'' (G E) = Some (Some p)" "is_path E ''alice'' p ''bob''" "length p \<le> 2"
      using shortest [OF pres(2), of "[''alice'', ''bob'']"] by (auto simp: is_path_def edges)
    then show ?thesis using friends_walk [OF p(2) _ edges] by auto
  qed
  have p2: "\<exists>v. gd_ShortestPath ord ''alice'' ''diana'' (G E) = Some (Some [''alice'', v, ''charlie'', ''diana'']) \<and> v \<in> {''bob'', ''eve''}"
  proof -
    obtain p where p: "gd_ShortestPath ord ''alice'' ''diana'' (G E) = Some (Some p)" "is_path E ''alice'' p ''diana''" "length p \<le> 4"
      using shortest [OF pres(4), of "[''alice'', ''bob'', ''charlie'', ''diana'']"] by (auto simp: is_path_def edges)
    then show ?thesis using friends_walk [OF p(2,3) edges] by auto
  qed
  have p3: "\<exists>w. gd_ShortestPath ord ''alice'' ''charlie'' (G E) = Some (Some [''alice'', w, ''charlie'']) \<and> w \<in> {''bob'', ''eve''}"
  proof -
    obtain p where p: "gd_ShortestPath ord ''alice'' ''charlie'' (G E) = Some (Some p)" "is_path E ''alice'' p ''charlie''" "length p \<le> 3"
      using shortest [OF pres(3), of "[''alice'', ''bob'', ''charlie'']"] by (auto simp: is_path_def edges)
    then show ?thesis using friends_walk [OF p(2) _ edges] by auto
  qed
  have p4: "gd_ShortestPath ord ''alice'' ''frank'' (G E) = Some None"
  proof -
    have "\<not> is_path E ''alice'' q ''frank''" for q
    proof (cases q rule: rev_cases)
      case (snoc q' y)
      then show ?thesis by (auto simp: is_path_snoc edges friends_def)
    qed (simp add: is_path_def)
    then show ?thesis using search [OF pres(5)] by (auto split: option.splits)
  qed
  have p5: "gd_ShortestPath ord ''alice'' ''zoe'' (G E) = Some None"
    by (simp add: gd_ShortestPath_def G_def nodes_def person_def)
  have count: "fold (\<lambda>k n. n + gm_len (gm_get fmempty E k)) (eord E) 0 = 10"
  proof -
    have "gm_len (gm_get fmempty E k) = card {y. (k, y) \<in> friends}" for k
    proof -
      have "fset (fmdom (gm_get fmempty E k)) = {y. (k, y) \<in> friends}" using edges [of k] by (auto simp: edge_def)
      then show ?thesis by (simp add: gm_len_def fcard.rep_eq)
    qed
    then have "fold (\<lambda>k n. n + gm_len (gm_get fmempty E k)) ks m = m + (\<Sum>k\<leftarrow>ks. card {y. (k, y) \<in> friends})" for ks m
      by (induction ks arbitrary: m) simp_all
    moreover have "(\<Sum>k\<leftarrow>eord E. card {y. (k, y) \<in> friends}) = (\<Sum>k \<in> set (eord E). card {y. (k, y) \<in> friends})"
      using enumerates_distinct [OF eord] by (rule sum_list_distinct_conv_sum_set)
    moreover have "set (eord E) = {''alice'', ''bob'', ''charlie'', ''diana'', ''eve'', ''frank''}"
      using eord [of E] by (auto simp: enumerates_def E_def fr_dom dom)
    moreover have "{y. (''alice'', y) \<in> friends} = {''bob'', ''eve''}" "{y. (''bob'', y) \<in> friends} = {''alice'', ''charlie''}"
      "{y. (''charlie'', y) \<in> friends} = {''bob'', ''diana'', ''eve''}" "{y. (''diana'', y) \<in> friends} = {''charlie''}"
      "{y. (''eve'', y) \<in> friends} = {''alice'', ''charlie''}" "{y. (''frank'', y) \<in> friends} = {}"
      by (auto simp: friends_def simp del: friends_simps)
    ultimately show ?thesis by simp
  qed
  have n: "gm_len (gd_nodes (G E)) = 6" by (simp add: G_def nodes_def gm_len_def fcard.rep_eq)
  obtain v where v: "gd_ShortestPath ord ''alice'' ''diana'' (G E) = Some (Some [''alice'', v, ''charlie'', ''diana''])" "v \<in> {''bob'', ''eve''}"
    using p2 by blast
  obtain w where w: "gd_ShortestPath ord ''alice'' ''charlie'' (G E) = Some (Some [''alice'', w, ''charlie''])" "w \<in> {''bob'', ''eve''}"
    using p3 by blast
  have "graph_main ord eord = operation 101 [(102, [])] (Inr [(104, []), (105, []), (106, []), (110, []), (129, [SInt 6, SWall]), (131, []),
     (134, [SList [SStr ''alice'', SStr ''bob'']]), (137, []),
     (140, [SList [SStr ''alice'', SStr v, SStr ''charlie'', SStr ''diana''], SStr v]), (143, []),
     (146, [SList [SStr ''alice'', SStr w, SStr ''charlie'']]), (149, []), (152, []), (155, []), (158, []), (161, []), (162, [SInt 6]),
     (167, [SInt 5]), (168, [SInt 1])])"
    unfolding graph_main_def Let_def start built and_then_simps p1 v(1) w(1) p4 p5 by (simp add: EG count n)
  then show ?thesis using v(2) w(2) by blast
qed

end
