(* ===== verification/Demo_Geo.thy ===== *)
theory Demo_Geo
  imports Demo_Log Geo_Index
begin

text \<open>
  The \<open>main\<close> function of \<open>src/29\<close>. Which driver is nearest is a comparison of computed distances: the proofs bound the exact argument of the formula
  from both sides by the differences of latitude and longitude, which leaves more room than the rounding errors take.
\<close>

definition drivers :: "geo_point list" where
  "drivers = [\<lparr>gp_ID = ''driver-001'', gp_Lat = f_round 51.5074, gp_Lon = f_round (-0.1278)\<rparr>, \<lparr>gp_ID = ''driver-002'', gp_Lat = f_round 51.5150, gp_Lon = f_round (-0.1150)\<rparr>,
     \<lparr>gp_ID = ''driver-003'', gp_Lat = f_round 48.8566, gp_Lon = f_round 2.3522\<rparr>, \<lparr>gp_ID = ''driver-004'', gp_Lat = f_round 40.7128, gp_Lon = f_round (-74.0060)\<rparr>,
     \<lparr>gp_ID = ''driver-005'', gp_Lat = f_round 51.5200, gp_Lon = f_round (-0.1000)\<rparr>, \<lparr>gp_ID = ''driver-006'', gp_Lat = f_round 51.4900, gp_Lon = f_round (-0.1300)\<rparr>]"

definition geo_main :: "go_math \<Rightarrow> log outcome" where
  "geo_main m = operation 91 [(92, [])] (
     let index = fold gi_Insert drivers \<lparr>gi_points = []\<rparr>;
         riderLat = f_round 51.5; riderLon = f_round (-0.12);
         (nearest, ok) = gi_Nearest m riderLat riderLon index;
         londonMinLat = f_round 51.45; londonMinLon = f_round (-0.20); londonMaxLat = f_round 51.55; londonMaxLon = f_round (-0.05);
         londonDrivers = gi_Range londonMinLat londonMinLon londonMaxLat londonMaxLon index;
         nyDrivers = gi_Range (f_round 40.5) (f_round (-74.5)) (f_round 41.0) (f_round (-73.5)) index;
         (driver, _) = gi_Nearest m (f_round 51.51) (f_round (-0.115)) index
     in Inr ([(94, []), (95, []), (96, []), (100, []), (108, [SInt 6, SWall]), (110, []), (112, [SFloat riderLat, SFloat riderLon])] @
       (if ok then [(116, [SStr (gp_ID nearest), SFloat (haversine m riderLat riderLon (gp_Lat nearest) (gp_Lon nearest))])] else []) @
       [(119, []), (122, [SFloat londonMinLat, SFloat londonMinLon, SFloat londonMaxLat, SFloat londonMaxLon])] @
       map (\<lambda>d. (126, [SStr (gp_ID d), SFloat (gp_Lat d), SFloat (gp_Lon d)])) londonDrivers @ [(129, [])] @
       map (\<lambda>d. (132, [SStr (gp_ID d), SFloat (gp_Lat d), SFloat (gp_Lon d)])) nyDrivers @ [(135, []), (137, [SStr (gp_ID driver)]),
       (139, []), (140, [SInt (int (length (gi_points index)))]), (141, [SInt (int (length londonDrivers))]),
       (142, [SInt (int (length nyDrivers))]), (143, [SStr (gp_ID nearest)])]))"

subsection \<open>Bounds on the argument of the formula\<close>

lemma sin_square_le: "sin y ^ 2 \<le> y ^ 2" for y :: real
  using abs_sin_x_le_abs_x [of y] by (simp add: abs_le_square_iff)

lemma sin_square_ge:
  fixes y :: real
  assumes "\<bar>y\<bar> \<le> 1"
  shows "(y * (1 - y ^ 2 / 6)) ^ 2 \<le> sin y ^ 2"
proof -
  have "\<bar>sin y - y\<bar> \<le> \<bar>y\<bar> ^ 3 / 6"
    using Maclaurin_sin_bound [of y 3] by (simp add: numeral_eq_Suc sin_coeff_def fact_numeral field_simps)
  then have "\<bar>y\<bar> - \<bar>y\<bar> ^ 3 / 6 \<le> \<bar>sin y\<bar>" by linarith
  also have "\<bar>y\<bar> - \<bar>y\<bar> ^ 3 / 6 = \<bar>y\<bar> * (1 - y ^ 2 / 6)" by (simp add: field_simps power2_eq_square power3_eq_cube)
  also have "\<dots> = \<bar>y * (1 - y ^ 2 / 6)\<bar>"
  proof -
    have "y ^ 2 \<le> 1" using assms abs_square_le_1 by blast
    then show ?thesis by (simp add: abs_mult)
  qed
  finally show ?thesis by (simp only: abs_le_square_iff)
qed

text \<open>The squares of the differences, with the longitudes weighted by \<open>c\<close>.\<close>

definition geo_square :: "real \<Rightarrow> real \<Rightarrow> real \<Rightarrow> real" where
  "geo_square c dlat dlon = (pi / 360) ^ 2 * (dlat ^ 2 + c * dlon ^ 2)"

lemma geo_square_eq: "geo_square c dlat dlon = (pi / 360 * dlat) ^ 2 + c * (pi / 360 * dlon) ^ 2"
  by (simp only: geo_square_def power_mult_distrib distrib_left mult.left_commute)

lemma rad_half: "rad d / 2 = pi / 360 * d"
  by (simp add: rad_def)

lemma gc_arg_le: "gc_arg lat1 lon1 lat2 lon2 \<le> geo_square 1 (lat2 - lat1) (lon2 - lon1)"
proof -
  have "cos (rad lat1) * cos (rad lat2) \<le> 1"
    using mult_le_one [of "\<bar>cos (rad lat1)\<bar>" "\<bar>cos (rad lat2)\<bar>"] by (simp add: abs_mult [symmetric])
  then have "cos (rad lat1) * cos (rad lat2) * sin (pi / 360 * (lon2 - lon1)) ^ 2 \<le> sin (pi / 360 * (lon2 - lon1)) ^ 2"
    using mult_right_mono [of "cos (rad lat1) * cos (rad lat2)" 1 "sin (pi / 360 * (lon2 - lon1)) ^ 2"] by simp
  also have "\<dots> \<le> (pi / 360 * (lon2 - lon1)) ^ 2" by (rule sin_square_le)
  finally show ?thesis
    using sin_square_le [of "pi / 360 * (lat2 - lat1)"]
    unfolding gc_arg_def Let_def rad_half geo_square_eq by linarith
qed

lemma cos_latitude_half:
  assumes "\<bar>lat\<bar> \<le> 60"
  shows "1 / 2 \<le> cos (rad lat)"
proof -
  have "\<bar>rad lat\<bar> \<le> pi / 3" using assms by (simp add: rad_def abs_mult)
  then have "cos (pi / 3) \<le> cos \<bar>rad lat\<bar>" by (intro cos_monotone_0_pi_le) auto
  then show ?thesis by (simp add: cos_60)
qed

lemma sum_bound: "1 / 4 * (99 / 100 * b) \<le> t \<Longrightarrow> 99 / 100 * a \<le> s \<Longrightarrow> 99 / 100 * (a + 1 / 4 * b) \<le> s + t" for a b s t :: real
  by (simp add: field_simps)

lemma gc_arg_ge:
  assumes "\<bar>lat1\<bar> \<le> 60" "\<bar>lat2\<bar> \<le> 60" "\<bar>lat2 - lat1\<bar> \<le> 1" "\<bar>lon2 - lon1\<bar> \<le> 1"
  shows "99 / 100 * geo_square (1 / 4) (lat2 - lat1) (lon2 - lon1) \<le> gc_arg lat1 lon1 lat2 lon2"
proof -
  have small: "99 / 100 * (pi / 360 * d) ^ 2 \<le> sin (pi / 360 * d) ^ 2" if "\<bar>d\<bar> \<le> 1" for d
  proof -
    define y where "y = pi / 360 * d"
    have "\<bar>y\<bar> = pi / 360 * \<bar>d\<bar>" by (simp add: y_def abs_mult)
    also have "\<dots> \<le> 4 / 360 * 1" using that pi_less_4 by (intro mult_mono) auto
    finally have y: "\<bar>y\<bar> \<le> 1 / 90" by simp
    then have "y ^ 2 \<le> (1 / 90) ^ 2" by (metis abs_le_square_iff abs_of_nonneg zero_le_divide_1_iff zero_le_numeral)
    then have "(999 / 1000) ^ 2 \<le> (1 - y ^ 2 / 6) ^ 2" by (intro power_mono) (auto simp: power2_eq_square)
    moreover have "99 / 100 \<le> (999 / 1000 :: real) ^ 2" by (simp add: power2_eq_square)
    ultimately have "99 / 100 \<le> (1 - y ^ 2 / 6) ^ 2" by linarith
    then have "99 / 100 * y ^ 2 \<le> (1 - y ^ 2 / 6) ^ 2 * y ^ 2" by (rule mult_right_mono) simp
    also have "\<dots> = (y * (1 - y ^ 2 / 6)) ^ 2" by (simp add: power_mult_distrib)
    also have "\<dots> \<le> sin y ^ 2" using y by (intro sin_square_ge) simp
    finally show ?thesis by (simp add: y_def)
  qed
  have "1 / 2 * (1 / 2) \<le> cos (rad lat1) * cos (rad lat2)"
    using cos_latitude_half [OF assms(1)] cos_latitude_half [OF assms(2)] by (intro mult_mono) auto
  then have "1 / 4 * (99 / 100 * (pi / 360 * (lon2 - lon1)) ^ 2) \<le> cos (rad lat1) * cos (rad lat2) * sin (pi / 360 * (lon2 - lon1)) ^ 2"
    using small [OF assms(4)] by (intro mult_mono) auto
  then show ?thesis
    using small [OF assms(3)] unfolding gc_arg_def Let_def rad_half geo_square_eq by (intro sum_bound)
qed

lemma gc_arg_far:
  assumes "\<bar>lat1\<bar> \<le> 90" "\<bar>lat2\<bar> \<le> 90" "1 \<le> \<bar>lat2 - lat1\<bar>" "\<bar>lat2 - lat1\<bar> \<le> 90"
  shows "1 / 2 * (pi / 360) ^ 2 \<le> gc_arg lat1 lon1 lat2 lon2"
proof -
  define y where "y = pi / 360 * (lat2 - lat1)"
  have "\<bar>y\<bar> = pi / 360 * \<bar>lat2 - lat1\<bar>" by (simp add: y_def abs_mult)
  also have "\<dots> \<le> 4 / 360 * 90" using assms(4) pi_less_4 by (intro mult_mono) auto
  finally have y: "\<bar>y\<bar> \<le> 1" by simp
  then have "y ^ 2 \<le> 1" using abs_square_le_1 by blast
  then have "(5 / 6) ^ 2 \<le> (1 - y ^ 2 / 6) ^ 2" by (intro power_mono) auto
  moreover have "1 / 2 \<le> (5 / 6 :: real) ^ 2" by (simp add: power2_eq_square)
  ultimately have "1 / 2 \<le> (1 - y ^ 2 / 6) ^ 2" by linarith
  then have "1 / 2 * y ^ 2 \<le> (1 - y ^ 2 / 6) ^ 2 * y ^ 2" by (rule mult_right_mono) simp
  also have "\<dots> = (y * (1 - y ^ 2 / 6)) ^ 2" by (simp add: power_mult_distrib)
  also have "\<dots> \<le> sin y ^ 2" using y by (rule sin_square_ge)
  finally have "1 / 2 * y ^ 2 \<le> sin y ^ 2" .
  moreover have "(pi / 360) ^ 2 \<le> y ^ 2"
  proof -
    have "\<bar>pi / 360\<bar> \<le> \<bar>y\<bar>" using assms(3) by (simp add: y_def abs_mult)
    then show ?thesis by (simp only: abs_le_square_iff)
  qed
  moreover have "0 \<le> cos (rad lat1) * cos (rad lat2)" using cos_latitude assms(1,2) by (intro mult_nonneg_nonneg) auto
  ultimately show ?thesis
    unfolding gc_arg_def Let_def rad_half y_def by (simp add: add_increasing2)
qed

text \<open>A coordinate, whose decimal value was rounded.\<close>

lemma near_coordinate: "\<bar>x\<bar> \<le> 180 \<Longrightarrow> near (f_round x) x (1 / 1000000)"
  by (rule near_weaken [OF near_round [of x x 0 180]]) simp_all

lemma coordinate_le:
  assumes "x + 1 / 100000 < y" "\<bar>x\<bar> \<le> 180" "\<bar>y\<bar> \<le> 180"
  shows "f_le (f_round x) (f_round y)" "\<not> f_le (f_round y) (f_round x)"
proof -
  obtain a b where "f_round x = Fin a" "\<bar>a - x\<bar> \<le> 1 / 1000000" "f_round y = Fin b" "\<bar>b - y\<bar> \<le> 1 / 1000000"
    using near_coordinate [OF assms(2)] near_coordinate [OF assms(3)] unfolding near_def by blast
  moreover have "1 / 1000000 + 1 / 1000000 < (1 / 100000 :: real)" by simp
  ultimately have "f_round x = Fin a" "f_round y = Fin b" "a < b" using assms(1) by linarith+
  then show "f_le (f_round x) (f_round y)" "\<not> f_le (f_round y) (f_round x)" by simp_all
qed

lemma near_le: "\<bar>a - x\<bar> \<le> e \<Longrightarrow> \<bar>b - y\<bar> \<le> e \<Longrightarrow> \<bar>b - a\<bar> \<le> \<bar>y - x\<bar> + 2 * e \<and> \<bar>y - x\<bar> - 2 * e \<le> \<bar>b - a\<bar>" for a b x y e :: real
  by linarith

lemma shifted: "\<bar>x\<bar> \<le> B \<Longrightarrow> \<bar>x' - x\<bar> \<le> e \<Longrightarrow> B + e \<le> C \<Longrightarrow> \<bar>x'\<bar> \<le> C" for x x' e B C :: real
  by linarith

text \<open>A place, and what the formula gives for it, seen from the latitude \<open>x\<close> and the longitude \<open>y\<close>.\<close>

lemma gc_arg_bounds:
  assumes "\<bar>lat1\<bar> \<le> 60" "\<bar>lat2\<bar> \<le> 60" "1 / 1000 \<le> \<bar>lat2 - lat1\<bar>" "\<bar>lat2 - lat1\<bar> \<le> 90" "(lat2 - lat1) ^ 2 + (lon2 - lon1) ^ 2 \<le> 8000"
    and "\<bar>lat2 - lat1\<bar> \<le> 1 \<and> \<bar>lon2 - lon1\<bar> \<le> 1 \<or> 1 \<le> \<bar>lat2 - lat1\<bar>"
  shows "1 / 100000000000 \<le> gc_arg lat1 lon1 lat2 lon2" "gc_arg lat1 lon1 lat2 lon2 \<le> 99 / 100"
proof -
  have pi: "(2 / 360) ^ 2 \<le> (pi / 360) ^ 2" "(pi / 360) ^ 2 \<le> (4 / 360) ^ 2"
    using pi_ge_two pi_less_4 by (intro power_mono divide_right_mono; simp)+
  have "gc_arg lat1 lon1 lat2 lon2 \<le> geo_square 1 (lat2 - lat1) (lon2 - lon1)" by (rule gc_arg_le)
  also have "\<dots> \<le> (4 / 360) ^ 2 * 8000" unfolding geo_square_def using pi(2) assms(5) by (intro mult_mono) simp_all
  also have "\<dots> \<le> 99 / 100" by (simp add: power2_eq_square)
  finally show "gc_arg lat1 lon1 lat2 lon2 \<le> 99 / 100" .
  have "(1 / 1000) ^ 2 \<le> \<bar>lat2 - lat1\<bar> ^ 2" using assms(3) by (intro power_mono) simp_all
  then have sq: "(1 / 1000) ^ 2 \<le> (lat2 - lat1) ^ 2" by simp
  show "1 / 100000000000 \<le> gc_arg lat1 lon1 lat2 lon2"
    using assms(6)
  proof
    assume close: "\<bar>lat2 - lat1\<bar> \<le> 1 \<and> \<bar>lon2 - lon1\<bar> \<le> 1"
    have "1 / 100000000000 \<le> 99 / 100 * ((2 / 360) ^ 2 * (1 / 1000 :: real) ^ 2)" by (simp add: power2_eq_square)
    also have "\<dots> \<le> 99 / 100 * geo_square (1 / 4) (lat2 - lat1) (lon2 - lon1)"
    proof -
      have "(1 / 1000) ^ 2 \<le> (lat2 - lat1) ^ 2 + 1 / 4 * (lon2 - lon1) ^ 2" using sq zero_le_power2 [of "lon2 - lon1"] by linarith
      then show ?thesis unfolding geo_square_def using pi(1) by (intro mult_left_mono mult_mono) simp_all
    qed
    also have "\<dots> \<le> gc_arg lat1 lon1 lat2 lon2" using assms(1,2) close by (intro gc_arg_ge) simp_all
    finally show ?thesis .
  next
    assume "1 \<le> \<bar>lat2 - lat1\<bar>"
    then have "1 / 2 * (pi / 360) ^ 2 \<le> gc_arg lat1 lon1 lat2 lon2" using assms(1,2,4) by (intro gc_arg_far) simp_all
    moreover have "1 / 100000000000 \<le> 1 / 2 * (2 / 360 :: real) ^ 2" by (simp add: power2_eq_square)
    ultimately show ?thesis using pi(1) by linarith
  qed
qed

lemma gc_arg_unit:
  assumes "math_accurate m" "\<bar>lat1\<bar> \<le> 90" "\<bar>lat2\<bar> \<le> 90" "\<bar>lon1\<bar> \<le> 180" "\<bar>lon2\<bar> \<le> 180"
    and "1 / 100000000000 \<le> gc_arg lat1 lon1 lat2 lon2" "gc_arg lat1 lon1 lat2 lon2 \<le> 99 / 100"
  shows "f_in_unit (haversine_arg m (Fin lat1) (Fin lon1) (Fin lat2) (Fin lon2))"
proof -
  obtain a where "haversine_arg m (Fin lat1) (Fin lon1) (Fin lat2) (Fin lon2) = Fin a" "\<bar>a - gc_arg lat1 lon1 lat2 lon2\<bar> \<le> 1 / 2 ^ 41"
    using haversine_arg_near [OF assms(1-5)] unfolding near_def by blast
  moreover have "1 / 2 ^ 41 \<le> (1 / 100000000000 :: real)" "1 / 2 ^ 41 \<le> (1 / 100 :: real)" by simp_all
  ultimately have "haversine_arg m (Fin lat1) (Fin lon1) (Fin lat2) (Fin lon2) = Fin a" "0 \<le> a" "a \<le> 1"
    using assms(6,7) by linarith+
  then show ?thesis by (simp add: f_in_unit_def)
qed

text \<open>
  The point at \<open>(a, b)\<close> is nearer to \<open>(x, y)\<close> than the one at \<open>(c, d)\<close>, if the squares of the differences say so clearly enough.
\<close>

definition seen :: "real \<Rightarrow> real \<Rightarrow> real \<Rightarrow> real \<Rightarrow> bool" where
  "seen x y a b \<longleftrightarrow> \<bar>x\<bar> \<le> 59 \<and> \<bar>a\<bar> \<le> 59 \<and> \<bar>y\<bar> \<le> 179 \<and> \<bar>b\<bar> \<le> 179 \<and> 1 / 500 \<le> \<bar>a - x\<bar> \<and> \<bar>a - x\<bar> \<le> 80 \<and>
     (\<bar>a - x\<bar> + 2 / 1000000) ^ 2 + (\<bar>b - y\<bar> + 2 / 1000000) ^ 2 \<le> 8000 \<and>
     (\<bar>a - x\<bar> \<le> 9 / 10 \<and> \<bar>b - y\<bar> \<le> 9 / 10 \<or> 2 \<le> \<bar>a - x\<bar>)"

lemma seen_arg:
  assumes "math_accurate m" "seen x y a b" "\<bar>x' - x\<bar> \<le> 1 / 1000000" "\<bar>y' - y\<bar> \<le> 1 / 1000000" "\<bar>a' - a\<bar> \<le> 1 / 1000000" "\<bar>b' - b\<bar> \<le> 1 / 1000000"
  shows "f_in_unit (haversine_arg m (Fin x') (Fin y') (Fin a') (Fin b'))"
    and "gc_arg x' y' a' b' \<le> geo_square 1 (\<bar>a - x\<bar> + 2 / 1000000) (\<bar>b - y\<bar> + 2 / 1000000)"
    and "2 / 1000000 \<le> \<bar>b - y\<bar> \<Longrightarrow> \<bar>a - x\<bar> \<le> 9 / 10 \<and> \<bar>b - y\<bar> \<le> 9 / 10 \<Longrightarrow>
       99 / 100 * geo_square (1 / 4) (\<bar>a - x\<bar> - 2 / 1000000) (\<bar>b - y\<bar> - 2 / 1000000) \<le> gc_arg x' y' a' b'"
    and "2 \<le> \<bar>a - x\<bar> \<Longrightarrow> 1 / 2 * (pi / 360) ^ 2 \<le> gc_arg x' y' a' b'"
proof -
  have s: "\<bar>x\<bar> \<le> 59" "\<bar>a\<bar> \<le> 59" "\<bar>y\<bar> \<le> 179" "\<bar>b\<bar> \<le> 179" "1 / 500 \<le> \<bar>a - x\<bar>" "\<bar>a - x\<bar> \<le> 80"
    "(\<bar>a - x\<bar> + 2 / 1000000) ^ 2 + (\<bar>b - y\<bar> + 2 / 1000000) ^ 2 \<le> 8000"
    "\<bar>a - x\<bar> \<le> 9 / 10 \<and> \<bar>b - y\<bar> \<le> 9 / 10 \<or> 2 \<le> \<bar>a - x\<bar>" using assms(2) unfolding seen_def by blast+
  have n: "\<bar>a' - x'\<bar> \<le> \<bar>a - x\<bar> + 2 / 1000000" "\<bar>a - x\<bar> - 2 / 1000000 \<le> \<bar>a' - x'\<bar>"
    "\<bar>b' - y'\<bar> \<le> \<bar>b - y\<bar> + 2 / 1000000" "\<bar>b - y\<bar> - 2 / 1000000 \<le> \<bar>b' - y'\<bar>"
    using near_le [OF assms(3,5)] near_le [OF assms(4,6)] by simp_all
  have lat: "\<bar>x'\<bar> \<le> 60" "\<bar>a'\<bar> \<le> 60" "\<bar>y'\<bar> \<le> 180" "\<bar>b'\<bar> \<le> 180" 
    using shifted [OF s(1) assms(3)] shifted [OF s(2) assms(5)] shifted [OF s(3) assms(4)] shifted [OF s(4) assms(6)] by simp_all
  have d: "1 / 1000 \<le> \<bar>a' - x'\<bar>" "\<bar>a' - x'\<bar> \<le> 90" using s(5,6) n(1,2) by linarith+
  have sq: "(a' - x') ^ 2 \<le> (\<bar>a - x\<bar> + 2 / 1000000) ^ 2" "(b' - y') ^ 2 \<le> (\<bar>b - y\<bar> + 2 / 1000000) ^ 2"
    using power_mono [OF n(1) abs_ge_zero, of 2] power_mono [OF n(3) abs_ge_zero, of 2] by simp_all
  have "\<bar>a' - x'\<bar> \<le> 1 \<and> \<bar>b' - y'\<bar> \<le> 1 \<or> 1 \<le> \<bar>a' - x'\<bar>" using s(8) n by linarith
  then have "1 / 100000000000 \<le> gc_arg x' y' a' b'" "gc_arg x' y' a' b' \<le> 99 / 100"
    using gc_arg_bounds [OF lat(1,2) d order_trans [OF add_mono [OF sq] s(7)]] by simp_all
  then show "f_in_unit (haversine_arg m (Fin x') (Fin y') (Fin a') (Fin b'))" using lat by (intro gc_arg_unit [OF assms(1)]) simp_all
  have "geo_square 1 (a' - x') (b' - y') \<le> geo_square 1 (\<bar>a - x\<bar> + 2 / 1000000) (\<bar>b - y\<bar> + 2 / 1000000)"
    unfolding geo_square_def using sq by (intro mult_left_mono) simp_all
  then show "gc_arg x' y' a' b' \<le> geo_square 1 (\<bar>a - x\<bar> + 2 / 1000000) (\<bar>b - y\<bar> + 2 / 1000000)"
    using gc_arg_le [of x' y' a' b'] by linarith
  show "99 / 100 * geo_square (1 / 4) (\<bar>a - x\<bar> - 2 / 1000000) (\<bar>b - y\<bar> - 2 / 1000000) \<le> gc_arg x' y' a' b'"
    if "2 / 1000000 \<le> \<bar>b - y\<bar>" "\<bar>a - x\<bar> \<le> 9 / 10 \<and> \<bar>b - y\<bar> \<le> 9 / 10"
  proof -
    have pos: "0 \<le> \<bar>a - x\<bar> - 2 / 1000000" "0 \<le> \<bar>b - y\<bar> - 2 / 1000000" using s(5) that(1) by linarith+
    have "(\<bar>a - x\<bar> - 2 / 1000000) ^ 2 \<le> (a' - x') ^ 2" "(\<bar>b - y\<bar> - 2 / 1000000) ^ 2 \<le> (b' - y') ^ 2"
      using n(2,4) pos by (simp_all only: abs_le_square_iff [symmetric] abs_of_nonneg)
    then have "99 / 100 * geo_square (1 / 4) (\<bar>a - x\<bar> - 2 / 1000000) (\<bar>b - y\<bar> - 2 / 1000000) \<le> 99 / 100 * geo_square (1 / 4) (a' - x') (b' - y')"
      unfolding geo_square_def by (intro mult_left_mono add_mono) simp_all
    also have "\<dots> \<le> gc_arg x' y' a' b'" using lat(1,2) conjunct1 [OF that(2)] conjunct2 [OF that(2)] n(1,3) by (intro gc_arg_ge) simp_all
    finally show ?thesis .
  qed
  show "1 / 2 * (pi / 360) ^ 2 \<le> gc_arg x' y' a' b'" if "2 \<le> \<bar>a - x\<bar>"
    using lat(1,2) d that n(2) by (intro gc_arg_far) simp_all
qed

lemma nearer:
  assumes "math_accurate m" "seen x y a b" "seen x y c d"
    and "2 / 1000000 \<le> \<bar>d - y\<bar> \<and> \<bar>c - x\<bar> \<le> 9 / 10 \<and> \<bar>d - y\<bar> \<le> 9 / 10 \<and>
        (\<bar>a - x\<bar> + 2 / 1000000) ^ 2 + (\<bar>b - y\<bar> + 2 / 1000000) ^ 2 + 1 / 1000000
          \<le> 99 / 100 * ((\<bar>c - x\<bar> - 2 / 1000000) ^ 2 + 1 / 4 * (\<bar>d - y\<bar> - 2 / 1000000) ^ 2) \<or>
      2 \<le> \<bar>c - x\<bar> \<and> (\<bar>a - x\<bar> + 2 / 1000000) ^ 2 + (\<bar>b - y\<bar> + 2 / 1000000) ^ 2 + 1 / 1000000 \<le> 1 / 2"
  shows "f_less (haversine m (f_round x) (f_round y) (f_round a) (f_round b)) (haversine m (f_round x) (f_round y) (f_round c) (f_round d))"
proof -
  have "\<bar>x\<bar> \<le> 180" "\<bar>y\<bar> \<le> 180" "\<bar>a\<bar> \<le> 180" "\<bar>b\<bar> \<le> 180" "\<bar>c\<bar> \<le> 180" "\<bar>d\<bar> \<le> 180"
    using assms(2,3) by (simp_all add: seen_def)
  from this [THEN near_coordinate] obtain x' y' a' b' c' d' where
    r: "f_round x = Fin x'" "f_round y = Fin y'" "f_round a = Fin a'" "f_round b = Fin b'" "f_round c = Fin c'" "f_round d = Fin d'" and
    e: "\<bar>x' - x\<bar> \<le> 1 / 1000000" "\<bar>y' - y\<bar> \<le> 1 / 1000000" "\<bar>a' - a\<bar> \<le> 1 / 1000000" "\<bar>b' - b\<bar> \<le> 1 / 1000000" "\<bar>c' - c\<bar> \<le> 1 / 1000000" "\<bar>d' - d\<bar> \<le> 1 / 1000000"
    unfolding near_def by blast
  note p = seen_arg [OF assms(1,2) e(1-4)] and q = seen_arg [OF assms(1,3) e(1,2,5,6)]
  define P where "P = (pi / 360) ^ 2"
  have P: "1 / 100000 \<le> P" "0 \<le> P"
    using power_mono [of "2 / 360" "pi / 360" 2] pi_ge_two by (simp_all add: P_def power2_eq_square)
  have "P * ((\<bar>a - x\<bar> + 2 / 1000000) ^ 2 + (\<bar>b - y\<bar> + 2 / 1000000) ^ 2) + P * (1 / 1000000) \<le> gc_arg x' y' c' d'"
    using assms(4)
  proof
    assume a: "2 / 1000000 \<le> \<bar>d - y\<bar> \<and> \<bar>c - x\<bar> \<le> 9 / 10 \<and> \<bar>d - y\<bar> \<le> 9 / 10 \<and>
        (\<bar>a - x\<bar> + 2 / 1000000) ^ 2 + (\<bar>b - y\<bar> + 2 / 1000000) ^ 2 + 1 / 1000000
          \<le> 99 / 100 * ((\<bar>c - x\<bar> - 2 / 1000000) ^ 2 + 1 / 4 * (\<bar>d - y\<bar> - 2 / 1000000) ^ 2)"
    then have "P * ((\<bar>a - x\<bar> + 2 / 1000000) ^ 2 + (\<bar>b - y\<bar> + 2 / 1000000) ^ 2 + 1 / 1000000)
        \<le> P * (99 / 100 * ((\<bar>c - x\<bar> - 2 / 1000000) ^ 2 + 1 / 4 * (\<bar>d - y\<bar> - 2 / 1000000) ^ 2))"
      using P(2) by (intro mult_left_mono) simp_all
    also have "\<dots> \<le> gc_arg x' y' c' d'" using q(3) a by (simp only: geo_square_def P_def mult.left_commute)
    finally show ?thesis by (simp only: distrib_left)
  next
    assume a: "2 \<le> \<bar>c - x\<bar> \<and> (\<bar>a - x\<bar> + 2 / 1000000) ^ 2 + (\<bar>b - y\<bar> + 2 / 1000000) ^ 2 + 1 / 1000000 \<le> 1 / 2"
    then have "P * ((\<bar>a - x\<bar> + 2 / 1000000) ^ 2 + (\<bar>b - y\<bar> + 2 / 1000000) ^ 2 + 1 / 1000000) \<le> P * (1 / 2)"
      using P(2) by (intro mult_left_mono) simp_all
    also have "\<dots> \<le> gc_arg x' y' c' d'" using q(4) a by (simp only: P_def mult.commute)
    finally show ?thesis by (simp only: distrib_left)
  qed
  moreover have "1 / 100000 * (1 / 1000000) \<le> P * (1 / 1000000)" using P(1) by (intro mult_right_mono) simp_all
  moreover have "1 / 2 ^ 39 < (1 / 100000 * (1 / 1000000) :: real)" by simp
  ultimately have less: "gc_arg x' y' a' b' + 1 / 2 ^ 39 < gc_arg x' y' c' d'"
    using p(2) by (simp only: geo_square_def P_def [symmetric] mult_1)
  let ?p = "\<lparr>gp_ID = [], gp_Lat = Fin a', gp_Lon = Fin b'\<rparr>" and ?q = "\<lparr>gp_ID = [], gp_Lat = Fin c', gp_Lon = Fin d'\<rparr>"
  have earth: "on_earth (Fin x') (Fin y')" "on_earth (gp_Lat ?p) (gp_Lon ?p)" "on_earth (gp_Lat ?q) (gp_Lon ?q)"
  proof -
    have "\<bar>x\<bar> \<le> 59" "\<bar>y\<bar> \<le> 179" "\<bar>a\<bar> \<le> 59" "\<bar>b\<bar> \<le> 179" "\<bar>c\<bar> \<le> 59" "\<bar>d\<bar> \<le> 179"
      using assms(2,3) unfolding seen_def by blast+
    from shifted [OF this(1) e(1)] shifted [OF this(2) e(2)] shifted [OF this(3) e(3)] shifted [OF this(4) e(4)]
      shifted [OF this(5) e(5)] shifted [OF this(6) e(6)]
    have "\<bar>x'\<bar> \<le> 90" "\<bar>y'\<bar> \<le> 180" "\<bar>a'\<bar> \<le> 90" "\<bar>b'\<bar> \<le> 180" "\<bar>c'\<bar> \<le> 90" "\<bar>d'\<bar> \<le> 180" by simp_all
    then show "on_earth (Fin x') (Fin y')" "on_earth (gp_Lat ?p) (gp_Lon ?p)" "on_earth (gp_Lat ?q) (gp_Lon ?q)"
      by (simp_all add: on_earth_def abs_le_iff)
  qed
  have nle: "\<not> f_le (gi_dist m (Fin x') (Fin y') ?q) (gi_dist m (Fin x') (Fin y') ?p)"
    using haversine_order [OF assms(1) earth(1,3,2)] p(1) q(1) less by (auto simp: gc_of_def f_value_def)
  have num: "gi_dist m (Fin x') (Fin y') r \<noteq> NaN" if u: "f_in_unit (haversine_arg m (Fin x') (Fin y') (gp_Lat r) (gp_Lon r))" for r
  proof -
    obtain v where "haversine_arg m (Fin x') (Fin y') (gp_Lat r) (gp_Lon r) = Fin v" "0 \<le> v" "v \<le> 1"
      using u by (cases "haversine_arg m (Fin x') (Fin y') (gp_Lat r) (gp_Lon r)") (auto simp: f_in_unit_def)
    from haversine_angle [OF assms(1) this] show ?thesis by (auto simp: near_def)
  qed
  have "gi_dist m (Fin x') (Fin y') ?p \<noteq> NaN" "gi_dist m (Fin x') (Fin y') ?q \<noteq> NaN" using p(1) q(1) by (intro num; simp)+
  from f_not_less [OF this] nle show ?thesis unfolding r by simp
qed

lemma f_less_asym: "f_less x y \<Longrightarrow> f_less y x = False"
  by (cases x; cases y) auto

lemma geo_main_logs:
  assumes "math_accurate m"
  shows "geo_main m = operation 91 [(92, [])] (Inr [(94, []), (95, []), (96, []), (100, []), (108, [SInt 6, SWall]), (110, []),
     (112, [SFloat (f_round 51.5), SFloat (f_round (-0.12))]),
     (116, [SStr ''driver-001'', SFloat (haversine m (f_round 51.5) (f_round (-0.12)) (f_round 51.5074) (f_round (-0.1278)))]), (119, []),
     (122, [SFloat (f_round 51.45), SFloat (f_round (-0.2)), SFloat (f_round 51.55), SFloat (f_round (-0.05))]),
     (126, [SStr ''driver-001'', SFloat (f_round 51.5074), SFloat (f_round (-0.1278))]),
     (126, [SStr ''driver-002'', SFloat (f_round 51.515), SFloat (f_round (-0.115))]),
     (126, [SStr ''driver-005'', SFloat (f_round 51.52), SFloat (f_round (-0.1))]),
     (126, [SStr ''driver-006'', SFloat (f_round 51.49), SFloat (f_round (-0.13))]), (129, []),
     (132, [SStr ''driver-004'', SFloat (f_round 40.7128), SFloat (f_round (-74.006))]), (135, []), (137, [SStr ''driver-002'']), (139, []), (140, [SInt 6]),
     (141, [SInt 4]), (142, [SInt 1]), (143, [SStr ''driver-001''])])"
proof -
  let ?d = "\<lambda>i. drivers ! i"
  let ?h = "\<lambda>lat lon i. haversine m (f_round lat) (f_round lon) (gp_Lat (?d i)) (gp_Lon (?d i))"
  have index: "fold gi_Insert drivers \<lparr>gi_points = []\<rparr> = \<lparr>gi_points = drivers\<rparr>"
    by (simp add: gi_Insert_def drivers_def)
  have list: "drivers = [?d 0, ?d 1, ?d 2, ?d 3, ?d 4, ?d 5]" by (simp add: drivers_def)
  have at: "gp_Lat (?d 0) = f_round 51.5074" "gp_Lon (?d 0) = f_round (-0.1278)" "gp_Lat (?d 1) = f_round 51.515" "gp_Lon (?d 1) = f_round (-0.115)"
    "gp_Lat (?d 2) = f_round 48.8566" "gp_Lon (?d 2) = f_round 2.3522" "gp_Lat (?d 3) = f_round 40.7128" "gp_Lon (?d 3) = f_round (-74.006)"
    "gp_Lat (?d 4) = f_round 51.52" "gp_Lon (?d 4) = f_round (-0.1)" "gp_Lat (?d 5) = f_round 51.49" "gp_Lon (?d 5) = f_round (-0.13)"
    by (simp_all add: drivers_def)
  have rider: "f_less (?h 51.5 (-0.12) 0) (?h 51.5 (-0.12) 1)" "f_less (?h 51.5 (-0.12) 0) (?h 51.5 (-0.12) 2)"
    "f_less (?h 51.5 (-0.12) 0) (?h 51.5 (-0.12) 3)" "f_less (?h 51.5 (-0.12) 0) (?h 51.5 (-0.12) 4)" "f_less (?h 51.5 (-0.12) 0) (?h 51.5 (-0.12) 5)"
    unfolding at by (rule nearer [OF assms]; simp add: seen_def power2_eq_square)+
  have bridge: "f_less (?h 51.51 (-0.115) 1) (?h 51.51 (-0.115) 0)" "f_less (?h 51.51 (-0.115) 1) (?h 51.51 (-0.115) 2)"
    "f_less (?h 51.51 (-0.115) 1) (?h 51.51 (-0.115) 3)" "f_less (?h 51.51 (-0.115) 1) (?h 51.51 (-0.115) 4)" "f_less (?h 51.51 (-0.115) 1) (?h 51.51 (-0.115) 5)"
    unfolding at by (rule nearer [OF assms]; simp add: seen_def power2_eq_square)+
  have nearest: "gi_Nearest m (f_round 51.5) (f_round (-0.12)) \<lparr>gi_points = drivers\<rparr> = (?d 0, True)"
    "gi_Nearest m (f_round 51.51) (f_round (-0.115)) \<lparr>gi_points = drivers\<rparr> = (?d 1, True)"
    unfolding gi_Nearest_def by (subst list, simp only: geo_index.simps list.case gi_best.simps Let_def rider bridge
      rider [THEN f_less_asym] bridge [THEN f_less_asym] if_True if_False)+
  have london: "gi_Range (f_round 51.45) (f_round (-0.20)) (f_round 51.55) (f_round (-0.05)) \<lparr>gi_points = drivers\<rparr> = [?d 0, ?d 1, ?d 4, ?d 5]"
    and ny: "gi_Range (f_round 40.5) (f_round (-74.5)) (f_round 41.0) (f_round (-73.5)) \<lparr>gi_points = drivers\<rparr> = [?d 3]"
    unfolding gi_Range_def by (subst list, simp add: at coordinate_le del: f_round_int One_nat_def)+
  have ids: "gp_ID (?d 0) = ''driver-001''" "gp_ID (?d 1) = ''driver-002''" "gp_ID (?d 3) = ''driver-004''" "gp_ID (?d 4) = ''driver-005''"
    "gp_ID (?d 5) = ''driver-006''" "length drivers = 6" by (simp_all add: drivers_def)
  show ?thesis
    unfolding geo_main_def Let_def index nearest prod.case london ny
    by (simp add: at ids del: One_nat_def)
qed

end
