(* ===== verification/Demo_Clusters.thy ===== *)
theory Demo_Clusters
  imports Demo_Log Leader_Election Lock_Manager Gossip
begin

text \<open>
  The \<open>main\<close> functions of \<open>src/31\<close>, \<open>src/32\<close> and \<open>src/33\<close>. \<open>ord\<close> is the order of the map loops, in the components and in
  \<open>main\<close> (there with the line of the loop). Two texts announce something else than the code does: line 119 of
  \<open>src/31\<close> and line 111 of \<open>src/33\<close>.
\<close>

subsection \<open>Leader election\<close>

definition node_name :: "int \<Rightarrow> string" where
  "node_name i = ''node_'' @ [char_of (nat (48 + i))]"

definition election_main :: "(nat \<Rightarrow> int fset \<Rightarrow> int list) \<Rightarrow> log outcome" where
  "election_main ord = operation 94 [] (
     let cluster = NewBullyElectionCluster ord [1, 2, 3]; v105 = el_leader cluster;
         cluster = el_Fail ord (el_leader cluster) cluster; v108 = el_leader cluster;
         cluster = el_Fail ord 1 cluster; v113 = el_leader cluster;
         cluster = el_Recover ord 1 cluster; v118 = el_leader cluster;
         cluster = el_Recover ord 3 cluster; v124 = el_leader cluster;
         aliveCount = gm_len (el_alive cluster); ids = ord 133 (fmdom (el_roles cluster));
         role = (\<lambda>i. gm_get '''' (el_roles cluster) i);
         (leaderRoleCount, followerRoleCount) = fold (\<lambda>i (l, f). if role i = ''leader'' then (l + 1, f) else (l, f + 1)) ids (0, 0)
     in Inr ([(96, []), (99, []), (102, [SWall]), (104, []), (105, [SInt v105]), (106, [SInt v105]), (108, [SInt v108]), (110, []), (111, []),
          (113, [SInt v113]), (115, []), (116, []), (118, [SInt v118]), (119, []), (121, []), (122, []), (124, [SInt v124]), (127, []),
          (129, [SInt (int aliveCount)]), (130, [SInt (el_leader cluster)])] @
          map (\<lambda>i. (134, [SStr (node_name i), SStr (role i)])) ids @
          [(141, [SInt leaderRoleCount]), (142, [SInt followerRoleCount]), (143, [])]))"

lemma node_names: "node_name 1 = ''node_1''" "node_name 2 = ''node_2''" "node_name 3 = ''node_3''"
  by code_simp+

lemma el_start: "range_orders ord \<Longrightarrow> el_inv {1, 2, 3} {1, 2, 3} (NewBullyElectionCluster ord [1, 2, 3])"
  using el_leader_start [of ord "[1, 2, 3]"] by simp

text \<open>Line 119 says that node 1 has a higher id than the leader; it is node 2 that leads, and goes on leading.\<close>

lemma election_main_logs:
  assumes ord: "range_orders ord"
  shows "\<exists>rs. election_main ord = operation 94 [] (Inr ([(96, []), (99, []), (102, [SWall]), (104, []), (105, [SInt 3]), (106, [SInt 3]),
       (108, [SInt 2]), (110, []), (111, []), (113, [SInt 2]), (115, []), (116, []), (118, [SInt 2]), (119, []), (121, []), (122, []),
       (124, [SInt 3]), (127, []), (129, [SInt 3]), (130, [SInt 3])] @ map (\<lambda>(n, r). (134, [SStr n, SStr r])) rs @
       [(141, [SInt 1]), (142, [SInt 2]), (143, [])])) \<and>
     mset rs = {# (''node_1'', ''follower''), (''node_2'', ''follower''), (''node_3'', ''leader'') #}"
proof -
  define c0 where "c0 = NewBullyElectionCluster ord [1, 2, 3]"
  define c1 c2 c3 c4 where "c1 = el_Fail ord 3 c0" and "c2 = el_Fail ord 1 c1" and "c3 = el_Recover ord 1 c2" and "c4 = el_Recover ord 3 c3"
  have i0: "el_inv {1, 2, 3} {1, 2, 3} c0" unfolding c0_def by (rule el_start [OF ord])
  have i1: "el_inv {1, 2, 3} {1, 2} c1" using el_Fail_ok [OF ord i0, of 3] by (simp add: c1_def insert_Diff_if)
  have i2: "el_inv {1, 2, 3} {2} c2" using el_Fail_ok [OF ord i1, of 1] by (simp add: c2_def insert_Diff_if)
  have i3: "el_inv {1, 2, 3} {1, 2} c3" using el_Recover_ok [OF ord i2, of 1] by (simp add: c3_def)
  have i4: "el_inv {1, 2, 3} {1, 2, 3} c4" using el_Recover_ok [OF ord i3, of 3] by (simp add: c4_def insert_commute)
  have leaders: "el_leader c0 = 3" "el_leader c1 = 2" "el_leader c2 = 2" "el_leader c3 = 2" "el_leader c4 = 3"
    using i0 i1 i2 i3 i4 by (simp_all add: el_inv_def el_top_def)
  have n: "gm_len (el_alive c4) = 3" using i4 by (simp add: el_inv_def gm_len_def fcard.rep_eq)
  define ids where "ids = ord 133 (fmdom (el_roles c4))"
  have "set ids = set [1, 2, 3]" "distinct ids" using i4 ord by (simp_all add: ids_def range_orders_def el_inv_def)
  moreover have "distinct [1, 2, 3 :: int]" by simp
  ultimately have ids: "mset ids = mset [1, 2, 3]" by (metis set_eq_iff_mset_eq_distinct)
  have role: "gm_get '''' (el_roles c4) 1 = ''follower''" "gm_get '''' (el_roles c4) 2 = ''follower''" "gm_get '''' (el_roles c4) 3 = ''leader''"
    using i4 by (simp_all add: el_inv_def el_top_def gm_get_def)
  have count: "fold (\<lambda>i (l, f). if P i then (l + 1, f) else (l, f + 1)) is (a, b) =
      (a + int (size (filter_mset P (mset is))), b + int (size (filter_mset (\<lambda>i. \<not> P i) (mset is))))" for P "is" a b
    by (induction "is" arbitrary: a b) auto
  let ?role = "gm_get '''' (el_roles c4)"
  have "size (filter_mset P {# 1, 2, 3 #}) = (if P 1 then 1 else 0) + (if P 2 then 1 else 0) + (if P 3 then 1 else 0)" for P :: "int \<Rightarrow> bool"
    by simp
  then have n2: "fold (\<lambda>i (l, f). if ?role i = ''leader'' then (l + 1, f) else (l, f + 1)) ids (0, 0) = (1 :: int, 2 :: int)"
    by (simp add: count ids role)
  have run: "election_main ord = operation 94 [] (Inr ([(96, []), (99, []), (102, [SWall]), (104, []), (105, [SInt 3]), (106, [SInt 3]),
       (108, [SInt 2]), (110, []), (111, []), (113, [SInt 2]), (115, []), (116, []), (118, [SInt 2]), (119, []), (121, []), (122, []),
       (124, [SInt 3]), (127, []), (129, [SInt 3]), (130, [SInt 3])] @ map (\<lambda>(n, r). (134, [SStr n, SStr r])) (map (\<lambda>i. (node_name i, ?role i)) ids) @
       [(141, [SInt 1]), (142, [SInt 2]), (143, [])]))"
    unfolding election_main_def Let_def
      c0_def [symmetric] leaders c1_def [symmetric] c2_def [symmetric] c3_def [symmetric] c4_def [symmetric] ids_def [symmetric] n n2 by (simp add: comp_def)
  have "mset (map (\<lambda>i. (node_name i, ?role i)) ids) = {# (''node_1'', ''follower''), (''node_2'', ''follower''), (''node_3'', ''leader'') #}"
    by (simp add: ids role node_names)
  with run show ?thesis by blast
qed

subsection \<open>Leases\<close>

text \<open>Times are in nanoseconds; \<open>now\<close> is the reading of the clock by the call in a line.\<close>

definition lock_main :: "(nat \<Rightarrow> int) \<Rightarrow> (nat \<Rightarrow> string fset \<Rightarrow> string list) \<Rightarrow> log outcome" where
  "lock_main now ord = operation 95 [] (
     let ((leaseA, ok), manager) = lm_Acquire (now 104) ''order:1'' ''worker-a'' (2 * 10 ^ 9) NewDistributedLockManager;
         l106 = (if ok then [(106, [SInt (ls_Token leaseA)])] else []);
         ((_, ok), manager) = lm_Acquire (now 110) ''order:1'' ''worker-b'' (2 * 10 ^ 9) manager;
         l112 = (if \<not> ok then [(112, [])] else []);
         l117 = (if lm_Validate (now 117) ''order:1'' (ls_Token leaseA) manager then [(118, [])] else [(120, [])]);
         (ok, manager) = lm_Release ''order:1'' ''worker-a'' (ls_Token leaseA) manager;
         l125 = (if ok then [(125, [])] else []);
         ((leaseC, _), manager) = lm_Acquire (now 130) ''inventory:99'' ''worker-c'' (100 * 10 ^ 6) manager;
         ((leaseD, ok), manager) = lm_Acquire (now 137) ''inventory:99'' ''worker-d'' (2 * 10 ^ 9) manager;
         l139 = (if ok then [(139, []), (140, [SInt (ls_Token leaseD)])] else []);
         (ok, manager) = lm_Release ''inventory:99'' ''worker-c'' (ls_Token leaseC) manager;
         l145 = (if \<not> ok then [(145, [])] else [])
     in Inr ([(97, []), (102, []), (103, [])] @ l106 @ [(109, [])] @ l112 @ [(115, []), (116, [])] @ l117 @ [(123, [])] @ l125 @
          [(128, []), (129, []), (131, [SInt (ls_Token leaseC)]), (133, []), (136, [])] @ l139 @ [(143, [])] @ l145 @
          [(149, []), (150, [SInt (int (gm_len (lm_locks manager)))]), (151, [SInt (lm_nextToken manager - 1)])] @
          map (\<lambda>resource. let l = gm_get zero_lease (lm_locks manager) resource in
            (153, [SStr (''lock_'' @ resource), SStr (ls_Owner l), SInt (ls_Token l), SWall])) (ord 152 (fmdom (lm_locks manager))) @
          [(155, [])]))"

text \<open>
  On a clock that gives worker B and the validation no more than two seconds after A, and on which the sleep takes its
  100 ms at least. One lock is left: D's.
\<close>

lemma lock_main_logs:
  assumes "range_orders ord" "now 110 < now 104 + 2 * 10 ^ 9" "now 117 < now 104 + 2 * 10 ^ 9" "now 130 + 100 * 10 ^ 6 \<le> now 137"
  shows "lock_main now ord = operation 95 [] (Inr [(97, []), (102, []), (103, []), (106, [SInt 1]), (109, []), (112, []), (115, []),
     (116, []), (118, []), (123, []), (125, []), (128, []), (129, []), (131, [SInt 2]), (133, []), (136, []), (139, []), (140, [SInt 3]),
     (143, []), (145, []), (149, []), (150, [SInt 1]), (151, [SInt 3]), (153, [SStr ''lock_inventory:99'', SStr ''worker-d'', SInt 3, SWall]),
     (155, [])])"
proof -
  have keys: "ord 152 {|''inventory:99''|} = [''inventory:99'']"
    by (rule range_orders_single [OF assms(1)])
  show ?thesis using assms(2-4)
    by (simp add: lock_main_def lm_Acquire_def lm_Release_def lm_Validate_def NewDistributedLockManager_def zero_lease_def Let_def gm_get_def gm_len_def fcard.rep_eq keys)
qed

subsection \<open>Gossip\<close>

definition gossip_between :: "gs_orders \<Rightarrow> nat \<times> nat \<Rightarrow> gossip_node list \<Rightarrow> gossip_node list" where
  "gossip_between ord = (\<lambda>(i, j) nodes. case gs_GossipTo ord (nodes ! i) (nodes ! j) of (n, peer) \<Rightarrow> nodes[i := n, j := peer])"

definition gossip_main :: "gs_orders \<Rightarrow> log outcome" where
  "gossip_main ord = operation 79 [] (
     let nodes = map NewGossipNode [''node-a'', ''node-b'', ''node-c'', ''node-d'', ''node-e''];
         nodes = nodes[0 := gs_Set ''feature_flag'' ''enabled'' (nodes ! 0)];
         nodes = nodes[0 := gs_Set ''max_connections'' ''1000'' (nodes ! 0)];
         nodes = nodes[1 := gs_Set ''max_connections'' ''500'' (nodes ! 1)];
         nodes = gossip_between ord (0, 1) nodes;
         v109 = fst (gs_Get ''feature_flag'' (nodes ! 1));
         v111 = fst (gs_Get ''max_connections'' (nodes ! 1));
         nodes = gossip_between ord (1, 2) nodes;
         nodes = gossip_between ord (2, 3) nodes;
         v120 = fst (gs_Get ''feature_flag'' (nodes ! 3));
         n = length nodes;
         nodes = fold (\<lambda>i. fold (\<lambda>j. gossip_between ord (i, j)) [i + 1..<n]) [0..<n] nodes;
         (baseFeatureFlag, _) = gs_Get ''feature_flag'' (nodes ! 0);
         (baseMaxConn, _) = gs_Get ''max_connections'' (nodes ! 0)
     in Inr ([(81, []), (84, []), (93, [SWall]), (95, []), (96, []), (100, []), (103, []), (104, []), (109, [SStr v109]), (111, [SStr v111]),
          (113, []), (114, []), (120, [SStr v120]), (122, []), (123, []), (130, [SWall]), (133, [])] @
          map (\<lambda>node. (135, [SStr (''node_'' @ gn_ID node), SInt (int (gm_len (gn_state node)))])) nodes @
          [(137, [SInt (int (length nodes))]), (142, [SInt (int (gm_len (gn_state (nodes ! 0))))]), (146, [SStr baseFeatureFlag]),
           (147, [SStr baseMaxConn]), (148, [])]))"

lemma gs_merge_order: "range_orders ord \<Longrightarrow> gs_merge ord remote n = gs_merge (\<lambda>_. sorted_list_of_fset) remote n"
  using gs_merge_lookup [of ord remote n] gs_merge_lookup [OF range_orders_sorted, of remote n]
  by (intro gossip_node.equality fmap_ext) (simp_all add: gs_merge_def)

lemma gossip_between_order: "range_orders ord \<Longrightarrow> gossip_between ord = gossip_between (\<lambda>_. sorted_list_of_fset)"
  by (intro ext) (simp add: gossip_between_def gs_GossipTo_def gs_merge_order)

text \<open>Line 111 says that the value of A won; B keeps its own, for the versions are equal.\<close>

lemma gossip_main_logs:
  assumes "range_orders ord"
  shows "gossip_main ord = operation 79 [] (Inr [(81, []), (84, []), (93, [SWall]), (95, []), (96, []), (100, []), (103, []), (104, []),
     (109, [SStr ''enabled'']), (111, [SStr ''500'']), (113, []), (114, []), (120, [SStr ''enabled'']), (122, []), (123, []), (130, [SWall]),
     (133, []), (135, [SStr ''node_node-a'', SInt 2]), (135, [SStr ''node_node-b'', SInt 2]), (135, [SStr ''node_node-c'', SInt 2]),
     (135, [SStr ''node_node-d'', SInt 2]), (135, [SStr ''node_node-e'', SInt 2]), (137, [SInt 5]), (142, [SInt 2]),
     (146, [SStr ''enabled'']), (147, [SStr ''1000'']), (148, [])])"
  unfolding gossip_main_def gossip_between_order [OF assms] by code_simp

end
