(* ===== verification/Demo_Replicas.thy ===== *)
theory Demo_Replicas
  imports Demo_Log Vector_Clock Crdt_Counter
begin

text \<open>
  The \<open>main\<close> functions of \<open>src/34\<close> and \<open>src/35\<close>. \<open>ord\<close> is the order of the map loops, in the components and in
  \<open>main\<close> (there with the line of the loop).
\<close>

subsection \<open>Vector clocks\<close>

definition clocks_main :: "vc_orders \<Rightarrow> log outcome" where
  "clocks_main ord = operation 79 [] (
     let a = NewVectorClock; b = NewVectorClock; c = NewVectorClock;
         a = vc_Tick ''replica-a'' a;
         b = vc_Tick ''replica-b'' b;
         v98 = vc_Compare ord a b;
         c = vc_Merge ord a c;
         c = vc_Tick ''replica-c'' c;
         v107 = vc_Compare ord a c;
         v110 = vc_Compare ord c a;
         d = NewVectorClock;
         a = vc_Tick ''replica-a'' a;
         b = vc_Tick ''replica-b'' b;
         d = vc_Merge ord c (vc_Merge ord b (vc_Merge ord a d));
         e = NewVectorClock;
         e = vc_Merge ord c (vc_Merge ord b (vc_Merge ord a e));
         v127 = vc_Compare ord d e;
         a = vc_Tick ''replica-a'' a;
         b = vc_Tick ''replica-b'' b;
         v136 = vc_Compare ord a b;
         entries = (\<lambda>clock. SInt (int (gm_len (vc_clock clock))));
         shows_all = (\<lambda>line pre clock. map (\<lambda>node. (line + 1, [SStr (pre @ node), SInt (gm_get 0 (vc_clock clock) node)]))
            (ord line (fmdom (vc_clock clock))))
     in Inr ([(81, []), (84, []), (89, [SWall]), (91, []), (92, []), (94, []), (98, [SStr v98]), (100, []), (101, []), (103, []),
          (107, [SStr v107]), (110, [SStr v110]), (112, []), (113, []), (127, [SStr v127]), (129, []), (130, []), (132, []),
          (136, [SStr v136]), (139, []), (140, [entries a]), (141, [entries b]), (142, [entries c]), (143, [entries d]), (144, [entries e])] @
          shows_all 145 ''a_'' a @ shows_all 148 ''b_'' b @ [(151, [])]))"

text \<open>The order of the loops of the component does not show.\<close>

lemma raise_to_order:
  assumes "range_orders ord"
  shows "fold (raise_to other) (ord n (fmdom other)) m = fold (raise_to other) (sorted_list_of_fset (fmdom other)) m"
proof (rule fmap_ext)
  fix j
  let ?g = "\<lambda>k v. if gm_get 0 other k > (case v of None \<Rightarrow> 0 | Some x \<Rightarrow> x) then Some (gm_get 0 other k) else v"
  have "fmlookup (fold (raise_to other) ks m) j = (if j \<in> set ks then ?g j (fmlookup m j) else fmlookup m j)" if "distinct ks" for ks
    by (rule fold_pointwise) (simp_all add: raise_to_def gm_get_def that)
  then show "fmlookup (fold (raise_to other) (ord n (fmdom other)) m) j = fmlookup (fold (raise_to other) (sorted_list_of_fset (fmdom other)) m) j"
    using range_orders_distinct [OF assms] range_orders_set [OF assms] by (simp add: sorted_list_of_fset.rep_eq)
qed

lemma vc_order:
  assumes "range_orders ord"
  shows "vc_Merge ord = vc_Merge (\<lambda>_. sorted_list_of_fset)" "vc_Compare ord = vc_Compare (\<lambda>_. sorted_list_of_fset)"
  by (intro ext, simp add: vc_Merge_def raise_to_order [OF assms])
    (intro ext, simp add: vc_Compare_le [OF assms] vc_Compare_le [OF range_orders_sorted])

lemma clocks_main_logs:
  assumes "range_orders ord"
  shows "clocks_main ord = operation 79 [] (Inr [(81, []), (84, []), (89, [SWall]), (91, []), (92, []), (94, []), (98, [SStr ''concurrent'']),
     (100, []), (101, []), (103, []), (107, [SStr ''before'']), (110, [SStr ''after'']), (112, []), (113, []), (127, [SStr ''equal'']),
     (129, []), (130, []), (132, []), (136, [SStr ''concurrent'']), (139, []), (140, [SInt 1]), (141, [SInt 1]), (142, [SInt 2]),
     (143, [SInt 3]), (144, [SInt 3]), (146, [SStr ''a_replica-a'', SInt 3]), (149, [SStr ''b_replica-b'', SInt 3]), (151, [])])"
proof -
  have norm: "clocks_main ord = clocks_main (\<lambda>_. sorted_list_of_fset)"
    unfolding clocks_main_def vc_order [OF assms]
    by (simp add: Let_def vc_Tick_def NewVectorClock_def range_orders_single [OF assms] range_orders_single [OF range_orders_sorted])
  show ?thesis unfolding norm by code_simp
qed

subsection \<open>Counters\<close>

text \<open>The empty counter that line 160 prints is \<open>SList []\<close>.\<close>

definition counters_main :: "ct_orders \<Rightarrow> log outcome" where
  "counters_main ord = operation 104 [] (
     let edge1 = NewPNCounter; edge2 = NewPNCounter; edge3 = NewPNCounter in
     and_then (pn_Increment ''edge-1'' 100 edge1) (\<lambda>edge1.
     and_then (pn_Decrement ''edge-1'' 10 edge1) (\<lambda>edge1.
     and_then (pn_Increment ''edge-2'' 50 edge2) (\<lambda>edge2.
     and_then (pn_Decrement ''edge-2'' 5 edge2) (\<lambda>edge2.
     and_then (pn_Increment ''edge-3'' 200 edge3) (\<lambda>edge3.
     and_then (pn_Decrement ''edge-3'' 20 edge3) (\<lambda>edge3.
     let edge1 = pn_Merge ord edge2 edge1;
         v132 = pn_Value ord edge1;
         edge2 = pn_Merge ord edge3 edge2;
         v136 = pn_Value ord edge2;
         edge1 = pn_Merge ord edge2 edge1 in
     and_then (pn_Increment ''edge-1'' 25 edge1) (\<lambda>edge1.
     and_then (pn_Increment ''edge-3'' 30 edge3) (\<lambda>edge3.
     and_then (pn_Decrement ''edge-3'' 3 edge3) (\<lambda>edge3.
     let edge1 = pn_Merge ord edge3 (pn_Merge ord edge2 edge1);
         expectedTotal = (100 + 50 + 200 + 25 + 30) - (10 + 5 + 20 + 3) in
     and_then (gc_Increment ''a'' 5 NewGCounter) (\<lambda>gc.
     and_then (gc_Increment ''b'' 3 gc) (\<lambda>gc.
     and_then (gc_Increment ''a'' 2 NewGCounter) (\<lambda>other.
     and_then (gc_Increment ''c'' 7 other) (\<lambda>other.
     let gc = gc_Merge ord other gc in
     Inr [(106, []), (109, []), (114, [SWall]), (116, []), (117, []), (121, []), (125, []), (129, []), (130, []), (132, [SInt v132]),
          (134, []), (136, [SInt v136]), (138, []), (141, []), (142, []), (144, []), (148, []), (149, []), (154, []),
          (155, [SInt (pn_Value ord edge1)]), (156, [SInt (pn_Value ord edge2)]), (157, [SInt (pn_Value ord edge3)]),
          (159, [SInt expectedTotal]), (160, [SList []]), (168, [SInt (gc_Value ord gc)]), (169, [])]))))))))))))))"

lemma ct_order:
  assumes "range_orders ord"
  shows "gc_Merge ord = gc_Merge (\<lambda>_. sorted_list_of_fset)" "gc_Value ord = gc_Value (\<lambda>_. sorted_list_of_fset)"
    "pn_Merge ord = pn_Merge (\<lambda>_. sorted_list_of_fset)" "pn_Value ord = pn_Value (\<lambda>_. sorted_list_of_fset)"
proof -
  show merge: "gc_Merge ord = gc_Merge (\<lambda>_. sorted_list_of_fset)"
    by (intro ext) (simp add: gc_Merge_def raise_to_order [OF assms])
  have dom: "gc_at c k \<noteq> 0 \<Longrightarrow> k \<in> fset (fmdom (gc_counts c))" for c k
    by (auto simp: gm_get_def fmlookup_dom_iff split: option.splits)
  show val: "gc_Value ord = gc_Value (\<lambda>_. sorted_list_of_fset)"
    by (intro ext) (simp only: gc_Value_sum [OF assms finite_fset dom] gc_Value_sum [OF range_orders_sorted finite_fset dom])
  show "pn_Merge ord = pn_Merge (\<lambda>_. sorted_list_of_fset)"
    by (intro ext) (simp add: pn_Merge_def merge)
  show "pn_Value ord = pn_Value (\<lambda>_. sorted_list_of_fset)"
    by (intro ext) (simp add: pn_Value_def val)
qed

text \<open>The three servers differ at the end: only the first has merged everything, and has the expected total.\<close>

lemma counters_main_logs:
  assumes "range_orders ord"
  shows "counters_main ord = operation 104 [] (Inr [(106, []), (109, []), (114, [SWall]), (116, []), (117, []), (121, []), (125, []), (129, []),
     (130, []), (132, [SInt 135]), (134, []), (136, [SInt 225]), (138, []), (141, []), (142, []), (144, []), (148, []), (149, []), (154, []),
     (155, [SInt 367]), (156, [SInt 225]), (157, [SInt 207]), (159, [SInt 367]), (160, [SList []]), (168, [SInt 15]), (169, [])])"
  unfolding counters_main_def ct_order [OF assms]
  by (simp add: Let_def pn_Increment_def pn_Decrement_def gc_Increment_def NewPNCounter_def NewGCounter_def pn_Merge_def pn_Value_def)
    code_simp

end
