(* ===== verification/Demo_Commit.thy ===== *)
theory Demo_Commit
  imports Demo_Log Saga Two_Phase_Commit Replication Sharded_Store
begin

text \<open>
  The \<open>main\<close> functions of \<open>src/36\<close> to \<open>src/39\<close>. \<open>ord\<close> is the order of the map loops, in the components and in \<open>main\<close>
  (there with the line of the loop).
\<close>

subsection \<open>Saga\<close>

text \<open>The steps close over the variable \<open>events\<close>, the world of the saga.\<close>

definition appends :: "string \<Rightarrow> string list \<Rightarrow> string option \<times> string list" where
  "appends event events = (None, events @ [event])"

definition success_steps :: "(string list, string) saga_step list" where
  "success_steps =
     [\<lparr>ss_Name = ''reserve-inventory'', ss_Action = appends ''inventory-reserved'', ss_Compensate = appends ''inventory-released''\<rparr>,
      \<lparr>ss_Name = ''charge-payment'', ss_Action = appends ''payment-charged'', ss_Compensate = appends ''payment-refunded''\<rparr>,
      \<lparr>ss_Name = ''create-shipment'', ss_Action = appends ''shipment-created'', ss_Compensate = appends ''shipment-cancelled''\<rparr>,
      \<lparr>ss_Name = ''send-confirmation'', ss_Action = appends ''confirmation-sent'', ss_Compensate = appends ''confirmation-retracted''\<rparr>]"

definition fail_steps :: "(string list, string) saga_step list" where
  "fail_steps =
     [\<lparr>ss_Name = ''reserve-inventory'', ss_Action = appends ''inventory-reserved'', ss_Compensate = appends ''inventory-released''\<rparr>,
      \<lparr>ss_Name = ''charge-payment'', ss_Action = appends ''payment-charged'', ss_Compensate = appends ''payment-refunded''\<rparr>,
      \<lparr>ss_Name = ''create-shipment'', ss_Action = \<lambda>events. (Some ''warehouse capacity exceeded'', events),
       ss_Compensate = appends ''shipment-cancelled''\<rparr>]"

definition saga_main :: "log outcome" where
  "saga_main = operation 62 [] (
     let (ok1, events1) = sg_Execute (NewSagaCoordinator success_steps) [];
         (ok2, events2) = sg_Execute (NewSagaCoordinator fail_steps) [];
         shows_events = (\<lambda>events. SList (map SStr events))
     in Inr [(64, []), (121, []), (122, []), (125, [SWall]), (126, [SBool ok1]), (127, [shows_events events1]), (129, []), (166, []),
          (169, [SWall]), (170, [SBool ok2]), (171, [shows_events events2]), (172, []), (175, []), (176, [SInt 2]), (177, [SInt 1]),
          (178, [SInt 1]), (179, [SInt (4 + 3)]), (180, [])])"

text \<open>The shipment that failed is not cancelled; the two steps before it are undone, the last one first.\<close>

lemma saga_main_logs:
  "saga_main = operation 62 [] (Inr [(64, []), (121, []), (122, []), (125, [SWall]), (126, [SBool True]),
     (127, [SList [SStr ''inventory-reserved'', SStr ''payment-charged'', SStr ''shipment-created'', SStr ''confirmation-sent'']]), (129, []),
     (166, []), (169, [SWall]), (170, [SBool False]),
     (171, [SList [SStr ''inventory-reserved'', SStr ''payment-charged'', SStr ''payment-refunded'', SStr ''inventory-released'']]),
     (172, []), (175, []), (176, [SInt 2]), (177, [SInt 1]), (178, [SInt 1]), (179, [SInt 7]), (180, [])])"
  by (simp add: saga_main_def sg_Execute_def NewSagaCoordinator_def success_steps_def fail_steps_def appends_def numeral_eq_Suc Let_def)

subsection \<open>Two-phase commit\<close>

definition commit_main :: "'w \<Rightarrow> log outcome" where
  "commit_main w = operation 115 [] (
     let (result1, w) = tc_Execute ''txn-payment-1001'' (NewTwoPhaseCommitCoordinator
           [MemoryParticipant, MemoryParticipant, MemoryParticipant]) w;
         (result2, w) = tc_Execute ''txn-payment-1002'' (NewTwoPhaseCommitCoordinator
           [MemoryParticipant, MemoryParticipant, FailingParticipant ''insufficient balance'', MemoryParticipant]) w;
         (result3, w) = tc_Execute ''txn-config-2001'' (NewTwoPhaseCommitCoordinator [MemoryParticipant]) w
     in Inr [(117, []), (120, []), (122, []), (130, [SStr result1]), (131, [SWall]), (133, []), (142, [SStr result2]), (143, [SWall]),
          (145, []), (151, [SStr result3]), (152, [SWall]), (155, []), (156, [SInt 3]), (157, [SInt 2]), (158, [SInt 1]), (159, [])])"

lemma commit_main_logs:
  "commit_main w = operation 115 [] (Inr [(117, []), (120, []), (122, []), (130, [SStr ''committed'']), (131, [SWall]), (133, []),
     (142, [SStr ''aborted'']), (143, [SWall]), (145, []), (151, [SStr ''committed'']), (152, [SWall]), (155, []), (156, [SInt 3]),
     (157, [SInt 2]), (158, [SInt 1]), (159, [])])"
  by (simp add: commit_main_def tc_Execute_def NewTwoPhaseCommitCoordinator_def MemoryParticipant_def FailingParticipant_def)

subsection \<open>Replication\<close>

definition configs :: "(string, string) gomap" where
  "configs = fmap_of_list [(''db.host'', ''db-primary.internal''), (''db.port'', ''5432''), (''cache.ttl'', ''300''),
     (''rate.limit'', ''1000''), (''feature.new_ui'', ''true''), (''queue.max_workers'', ''10'')]"

definition replication_main :: "(nat \<Rightarrow> string fset \<Rightarrow> string list) \<Rightarrow> log outcome" where
  "replication_main ord = operation 85 [] (and_then (NewPrimaryReplicaStore 3) (\<lambda>store.
     let store = fold (\<lambda>key. rp_Write key (gm_get '''' configs key)) (ord 106 (fmdom configs)) store;
         (v113, ok) = rp_Read ''db.host'' False store;
         l113 = (if ok then [(114, [SStr v113])] else []);
         (v118, ok) = rp_Read ''db.host'' True store;
         l118 = (if ok then [(119, [SStr v118])] else []);
         (ok, store) = rp_Failover ord 2 store;
         l124 = (if ok then [(125, [])] else [(127, [])]);
         (v131, ok) = rp_Read ''cache.ttl'' False store;
         l131 = (if ok then [(132, [SStr v131])] else []);
         (ok, store) = rp_Failover ord 99 store;
         l137 = (if \<not> ok then [(138, [])] else []);
         (_, ok) = rp_Read ''nonexistent_key'' True store;
         l142 = (if \<not> ok then [(143, [])] else [])
     in Inr ([(87, []), (90, []), (93, [SWall]), (95, []), (96, []), (109, [SInt (int (gm_len configs)), SWall]), (111, []), (112, [])] @ l113 @
          [(117, [])] @ l118 @ [(122, []), (123, [])] @ l124 @ [(130, [])] @ l131 @ [(135, []), (136, [])] @ l137 @ [(141, [])] @ l142 @
          [(147, []), (148, [SInt (int (gm_len (rp_primary store)))]), (149, [SInt (int (length (rp_replicas store)))])] @
          map (\<lambda>(i, replica). (151, [SStr (''replica_'' @ [char_of (48 + i)] @ ''_keys''), SInt (int (gm_len replica))]))
            (enumerate 0 (rp_replicas store)) @
          [(153, [SInt (int (gm_len configs))]), (154, [])])))"

lemma configs_facts:
  "fmlookup configs ''db.host'' = Some ''db-primary.internal''" "fmlookup configs ''cache.ttl'' = Some ''300''"
  "fmlookup configs ''nonexistent_key'' = None" "gm_len configs = 6"
  by code_simp+

text \<open>Writing the entries of a map in any order makes all the copies that map.\<close>

lemma rp_Write_all:
  assumes "range_orders ord" "rp_inv n fmempty s"
  shows "rp_inv n m (fold (\<lambda>key. rp_Write key (gm_get '''' m key)) (ord i (fmdom m)) s)"
proof -
  have "rp_inv n (fold (\<lambda>k p. fmupd k (gm_get '''' m k) p) ks p) (fold (\<lambda>key. rp_Write key (gm_get '''' m key)) ks s)"
    if "rp_inv n p s" for ks p s
    using that by (induction ks arbitrary: p s) (simp_all add: rp_inv_def rp_Write_def Let_def)
  moreover have "range_orders (\<lambda>_. ord i)" using assms(1) by (simp add: range_orders_def)
  ultimately show ?thesis using copy_map [of "\<lambda>_. ord i" m] assms(2) by metis
qed

lemma replica_names: "char_of (48 :: nat) = CHR ''0''" "char_of (49 :: nat) = CHR ''1''" "char_of (50 :: nat) = CHR ''2''"
  by code_simp+

lemma replication_main_logs:
  assumes ord: "range_orders ord"
  shows "replication_main ord = operation 85 [] (Inr [(87, []), (90, []), (93, [SWall]), (95, []), (96, []), (109, [SInt 6, SWall]), (111, []),
     (112, []), (114, [SStr ''db-primary.internal'']), (117, []), (119, [SStr ''db-primary.internal'']), (122, []), (123, []), (125, []),
     (130, []), (132, [SStr ''300'']), (135, []), (136, []), (138, []), (141, []), (143, []), (147, []), (148, [SInt 6]), (149, [SInt 3]),
     (151, [SStr ''replica_0_keys'', SInt 6]), (151, [SStr ''replica_1_keys'', SInt 6]), (151, [SStr ''replica_2_keys'', SInt 6]),
     (153, [SInt 6]), (154, [])])"
proof -
  let ?s0 = "\<lparr>rp_primary = fmempty, rp_replicas = replicate 3 fmempty\<rparr> :: replica_store"
  have new: "NewPrimaryReplicaStore 3 = Inr ?s0" by (simp add: NewPrimaryReplicaStore_def)
  define s where "s = fold (\<lambda>key. rp_Write key (gm_get '''' configs key)) (ord 106 (fmdom configs)) ?s0"
  have s: "rp_inv 3 configs s" unfolding s_def by (rule rp_Write_all [OF ord]) (simp add: rp_inv_def)
  have store: "s = \<lparr>rp_primary = configs, rp_replicas = replicate 3 configs\<rparr>" using s by (simp add: rp_inv_def)
  have find: "rp_Read ''db.host'' b s = (''db-primary.internal'', True)" "rp_Read ''cache.ttl'' b s = (''300'', True)"
    "rp_Read ''nonexistent_key'' b s = ('''', False)" for b
    by (simp_all add: store rp_Read_def rp_find_def configs_facts)
  show ?thesis
    by (simp add: replication_main_def new s_def [symmetric] find rp_Failover_ok [OF ord s] configs_facts)
      (simp add: store configs_facts numeral_3_eq_3 replica_names)
qed

subsection \<open>Sharding\<close>

definition users :: "(string \<times> string) list" where
  "users = [(''user:1'', ''Ada''), (''user:2'', ''Bob''), (''user:3'', ''Charlie''), (''user:4'', ''Diana''), (''user:5'', ''Eve''),
     (''user:42'', ''Zara''), (''user:100'', ''Oscar''), (''user:256'', ''Mallory''), (''session:abc'', ''token-xyz''),
     (''session:def'', ''token-pqr'')]"

definition shard_user :: "string \<times> string \<Rightarrow> sharded_store \<Rightarrow> (log \<times> sharded_store) outcome" where
  "shard_user = (\<lambda>(u, name) store. and_then (sh_Put u name store) (\<lambda>store.
     and_then (sh_ShardIndex u store) (\<lambda>i. Inr ([(102, [SStr u, SInt (int i)])], store))))"

definition shard_found :: "string \<times> string \<Rightarrow> sharded_store \<Rightarrow> (log \<times> sharded_store) outcome" where
  "shard_found = (\<lambda>(u, _) store. and_then (sh_Get u store) (\<lambda>(val, ok). Inr (if ok then [(110, [SStr u, SStr val])] else [], store)))"

definition shard_count :: "sharded_store \<Rightarrow> string \<times> string \<Rightarrow> int list \<Rightarrow> int list outcome" where
  "shard_count store = (\<lambda>(u, _) counts. and_then (sh_ShardIndex u store) (\<lambda>i.
     if i < length counts then Inr (counts[i := counts ! i + 1]) else Inl IndexOutOfRange))"

definition sharding_main :: "log outcome" where
  "sharding_main = operation 74 [] (and_then (NewShardedStore 8) (\<lambda>store.
     and_then (each_log shard_user users store) (\<lambda>(l100, store).
     and_then (each_log shard_found (take 3 users) store) (\<lambda>(l108, store).
     and_then (sh_Get ''user:9999'' store) (\<lambda>(_, ok).
     and_then (each (shard_count store) users (replicate (length (sh_shards store)) 0)) (\<lambda>shardCounts.
     let n = int (length users);
         sizes = map (\<lambda>m. int (gm_len m)) (sh_shards store);
         (totalKeys, maxShard, minShard) = fold (\<lambda>s (tot, mx, mn). (tot + s, if s > mx then s else mx, if s < mn then s else mn)) sizes (0, 0, n)
     in Inr ([(76, []), (79, []), (82, [SWall]), (84, []), (85, [])] @ l100 @ [(104, [SInt n, SWall]), (106, []), (107, [])] @ l108 @
          [(114, []), (115, [])] @ (if \<not> ok then [(117, [])] else []) @ [(121, [])] @
          map (\<lambda>(i, count). (127, [SInt (int i), SInt count, SReal (real_of_int count / real_of_int n * 100)])) (enumerate 0 shardCounts) @
          [(131, []), (132, [SInt (int (length (sh_shards store)))]), (133, [SInt n]), (147, [SInt totalKeys]), (148, [SInt maxShard]),
           (149, [SInt minShard]), (150, [SInt (maxShard - minShard)]), (151, [])])))))))"

text \<open>Users 1 and 100 share a shard, so do 2 and the second session, 3 and the first; one shard is empty.\<close>

lemma sharding_main_logs:
  "sharding_main = operation 74 [] (Inr [(76, []), (79, []), (82, [SWall]), (84, []), (85, []),
     (102, [SStr ''user:1'', SInt 3]), (102, [SStr ''user:2'', SInt 6]), (102, [SStr ''user:3'', SInt 1]), (102, [SStr ''user:4'', SInt 4]),
     (102, [SStr ''user:5'', SInt 7]), (102, [SStr ''user:42'', SInt 2]), (102, [SStr ''user:100'', SInt 3]), (102, [SStr ''user:256'', SInt 5]),
     (102, [SStr ''session:abc'', SInt 1]), (102, [SStr ''session:def'', SInt 6]), (104, [SInt 10, SWall]), (106, []), (107, []),
     (110, [SStr ''user:1'', SStr ''Ada'']), (110, [SStr ''user:2'', SStr ''Bob'']), (110, [SStr ''user:3'', SStr ''Charlie'']),
     (114, []), (115, []), (117, []), (121, []), (127, [SInt 0, SInt 0, SReal 0]), (127, [SInt 1, SInt 2, SReal 20]),
     (127, [SInt 2, SInt 1, SReal 10]), (127, [SInt 3, SInt 2, SReal 20]), (127, [SInt 4, SInt 1, SReal 10]), (127, [SInt 5, SInt 1, SReal 10]),
     (127, [SInt 6, SInt 2, SReal 20]), (127, [SInt 7, SInt 1, SReal 10]), (131, []), (132, [SInt 8]), (133, [SInt 10]), (147, [SInt 10]),
     (148, [SInt 2]), (149, [SInt 0]), (150, [SInt 2]), (151, [])])"
  by code_simp

end
