(* ===== verification/Demo_Raft.thy ===== *)
theory Demo_Raft
  imports Demo_Log Raft_Consensus
begin

text \<open>
  The \<open>main\<close> function of \<open>src/40\<close>. \<open>ord\<close> is the order of the map loops, in the component and in \<open>main\<close> (there with the line
  of the loop). It does not show in the log: the loops of the component and the count of the roles
  give the same maps in every order.
\<close>

definition raft_append :: "rc_orders \<Rightarrow> string \<Rightarrow> raft_cluster \<times> int \<Rightarrow> (raft_cluster \<times> int) outcome" where
  "raft_append ord cmd = (\<lambda>(cluster, committedCount). and_then (rc_Append ord cmd cluster) (\<lambda>(ok, cluster).
     Inr (cluster, if ok then committedCount + 1 else committedCount)))"

definition raft_count_role :: "(int, raft_node) gomap \<Rightarrow> int \<Rightarrow> (raft_role, int) gomap \<Rightarrow> (raft_role, int) gomap" where
  "raft_count_role nodes i m = (let r = rn_Role (node_at nodes i) in fmupd r (gm_get 0 m r + 1) m)"

definition raft_main :: "rc_orders \<Rightarrow> log outcome" where
  "raft_main ord = operation 175 [] (
     let cluster = NewRaftCluster [1, 2, 3, 4, 5];
         (elected, cluster) = rc_Elect ord 3 cluster;
         v191 = rc_leaderID cluster;
         commands = [''set db.max_connections=200'', ''set cache.eviction_policy=LRU'', ''set feature.dark_mode=enabled'', ''set rate.limit=5000'']
     in and_then (each (raft_append ord) commands (cluster, 0)) (\<lambda>(cluster, committedCount).
     and_then (rc_CommittedCommands cluster) (\<lambda>committed.
     let committed = (case committed of None \<Rightarrow> [] | Some cs \<Rightarrow> cs); noLeaderCluster = NewRaftCluster [10, 11, 12] in
     and_then (rc_Append ord ''set x=1'' noLeaderCluster) (\<lambda>(ok, noLeaderCluster).
     case fmlookup (rc_nodes cluster) (rc_leaderID cluster) of None \<Rightarrow> Inl NilDereference | Some ldr \<Rightarrow>
     let nodesInRole = fold (raft_count_role (rc_nodes cluster)) (ord 235 (fmdom (rc_nodes cluster)))
           (fmap_of_list [(Follower, 0), (Candidate, 0), (Leader, 0)])
     in Inr ([(177, []), (180, []), (183, [SWall]), (185, []), (186, []), (189, [SWall]), (190, [SBool elected]), (191, [SInt v191]),
          (193, []), (194, []), (208, [SWall]), (210, []), (212, [])] @
          map (\<lambda>(i, cmd). (214, [SStr (numbered ''entry_'' i), SStr cmd])) (enumerate 0 committed) @
          [(217, []), (220, [])] @ (if \<not> ok then [(222, [])] else []) @
          [(226, []), (227, [SInt (int (gm_len (rc_nodes cluster)))]), (228, [SInt (rc_leaderID cluster)]), (229, [SInt (rn_Term ldr)]),
           (230, [SInt (int (length (rn_Log ldr)))]), (231, [SInt (rn_CommitIndex ldr)]), (232, [SInt committedCount]),
           (233, [SInt (int (length commands))]), (238, [SInt (gm_get 0 nodesInRole Follower)]),
           (239, [SInt (gm_get 0 nodesInRole Candidate)]), (240, [SInt (gm_get 0 nodesInRole Leader)]), (241, [])])))))"

subsection \<open>The order of the loops does not show\<close>

text \<open>Loops over the same keys.\<close>

definition same_keys :: "int list \<Rightarrow> int list \<Rightarrow> bool" where
  "same_keys ks js \<longleftrightarrow> distinct ks \<and> distinct js \<and> set ks = set js"

lemma same_keys_orders: "range_orders ord \<Longrightarrow> same_keys (ord n S) (sorted_list_of_fset S)"
  by (simp add: same_keys_def range_orders_def sorted_list_of_fset.rep_eq)

lemma same_keys_count: "same_keys ks js \<Longrightarrow> length (filter P ks) = length (filter P js)"
  by (simp add: same_keys_def distinct_length_filter)

lemma same_keys_loops:
  assumes "same_keys ks js"
  shows "fold (rc_request cand) ks (m, n) = fold (rc_request cand) js (m, n)"
    and "fold (rc_setRole i) ks m = fold (rc_setRole i) js m"
    and "fold (rc_replicate i e) ks (m, n) = fold (rc_replicate i e) js (m, n)"
    and "fold (rc_commit j) ks m = fold (rc_commit j) js m"
    and "fold (raft_count_role nodes) ks roles = fold (raft_count_role nodes) js roles"
proof -
  have ks: "distinct ks" "distinct js" "set ks = set js" using assms by (simp_all add: same_keys_def)
  show "fold (rc_request cand) ks (m, n) = fold (rc_request cand) js (m, n)"
    by (intro prod_eqI fmap_ext)
      (simp_all only: fold_request [OF ks(1)] fold_request [OF ks(2)] ks(3) same_keys_count [OF assms])
  show "fold (rc_setRole i) ks m = fold (rc_setRole i) js m"
    by (intro fmap_ext) (simp only: fold_setRole [OF ks(1)] fold_setRole [OF ks(2)] ks(3))
  show "fold (rc_replicate i e) ks (m, n) = fold (rc_replicate i e) js (m, n)"
    by (intro prod_eqI fmap_ext)
      (simp_all only: fold_replicate_log [OF ks(1)] fold_replicate_log [OF ks(2)] ks(3) same_keys_count [OF assms])
  show "fold (rc_commit j) ks m = fold (rc_commit j) js m"
    by (intro fmap_ext) (simp only: fold_commit [OF ks(1)] fold_commit [OF ks(2)] ks(3))
  have "mset ks = mset js" using ks by (simp add: set_eq_iff_mset_eq_distinct [symmetric])
  moreover have "raft_count_role nodes i (raft_count_role nodes j r) = raft_count_role nodes j (raft_count_role nodes i r)" for i j r
    by (intro fmap_ext) (simp add: raft_count_role_def Let_def)
  ultimately show "fold (raft_count_role nodes) ks roles = fold (raft_count_role nodes) js roles"
    by - (rule fold_multiset_equiv [THEN fun_cong], simp_all add: fun_eq_iff)
qed

lemma raft_order:
  assumes "range_orders ord"
  shows "rc_Elect ord = rc_Elect (\<lambda>_. sorted_list_of_fset)" "rc_Append ord = rc_Append (\<lambda>_. sorted_list_of_fset)"
    "fold (raft_count_role nodes) (ord i S) = fold (raft_count_role nodes) (sorted_list_of_fset S)"
proof -
  note loops = same_keys_loops [OF same_keys_orders [OF assms]]
  show "rc_Elect ord = rc_Elect (\<lambda>_. sorted_list_of_fset)"
    by (intro ext) (simp only: rc_Elect_def loops)
  show "rc_Append ord = rc_Append (\<lambda>_. sorted_list_of_fset)"
    by (intro ext) (simp only: rc_Append_def loops)
  show "fold (raft_count_role nodes) (ord i S) = fold (raft_count_role nodes) (sorted_list_of_fset S)"
    by (rule ext) (rule loops)
qed

subsection \<open>The log\<close>

lemma raft_main_logs:
  assumes "range_orders ord"
  shows "raft_main ord = operation 175 [] (Inr [(177, []), (180, []), (183, [SWall]), (185, []), (186, []), (189, [SWall]),
     (190, [SBool True]), (191, [SInt 3]), (193, []), (194, []), (208, [SWall]), (210, []), (212, []),
     (214, [SStr ''entry_0'', SStr ''set db.max_connections=200'']), (214, [SStr ''entry_1'', SStr ''set cache.eviction_policy=LRU'']),
     (214, [SStr ''entry_2'', SStr ''set feature.dark_mode=enabled'']), (214, [SStr ''entry_3'', SStr ''set rate.limit=5000'']),
     (217, []), (220, []), (222, []), (226, []), (227, [SInt 5]), (228, [SInt 3]), (229, [SInt 1]), (230, [SInt 4]), (231, [SInt 3]),
     (232, [SInt 4]), (233, [SInt 4]), (238, [SInt 4]), (239, [SInt 0]), (240, [SInt 1]), (241, [])])"
  unfolding raft_main_def raft_append_def raft_order [OF assms] by code_simp

end
