(* ===== verification/Spec2Isabelle.thy ===== *)
theory Spec2Isabelle
  imports Lru_Cache Lfu_Cache Skip_List Fnv_Hash Bucket_Table Open_Table Bloom_Filter Binary_Heap Trie_Tree Hash_Ring
    Rate_Limiter Circuit_Breaker Retry_Backoff Id_Generator Parallel_Map Channels Connection_Pool
    Promise B_Tree Lsm_Tree Write_Ahead_Log Inverted_Index Time_Series Ttl_Store Document_Store
    Graph_Database Geo_Index Column_Store Leader_Election Lock_Manager Gossip Vector_Clock
    Crdt_Counter Saga Two_Phase_Commit Replication Sharded_Store Raft_Consensus Go_Logger
    Demo_Caches Demo_Tables Demo_Bloom Demo_Skip_List Demo_Structures Demo_Ring Demo_Services Demo_Threads
    Demo_Parallel Demo_Queues Demo_Storage Demo_Search Demo_Records Demo_Graph Demo_Geo Demo_Clusters
    Demo_Replicas Demo_Commit Demo_Raft
begin

text \<open>
  A verification library for the Go programs of the repository: forty directories
  \<open>src/01-LRU-Cache\<close> to \<open>src/40-Consensus\<close>, each with one data structure, service pattern or
  distributed protocol in its \<open>main.go\<close> (\<open>src/03-Hash-Table\<close> has two). The programs do not call each
  other; what they share is the language, the standard library, a logger and, copied into six files, one
  hash function.

  \<^bold>\<open>Shared theories.\<close>
  \<^item> \<open>Go_Prelude\<close>: Go's types, outcomes of a run (\<open>outcome\<close>: a value or the way the program stopped,
    \<open>os.Exit(1)\<close>, a run-time panic, or a loop without end), iteration over maps in any order, sequences of
    steps (\<open>runs\<close>, \<open>each\<close>).
  \<^item> \<open>Go_Std\<close>: decimal printing and \<open>sort.Search\<close>. \<open>Fnv_Hash\<close>: the hash of \<open>src/03\<close> (both tables),
    \<open>src/04\<close>, \<open>src/08\<close>, \<open>src/23\<close> and \<open>src/39\<close>; its round is a bijection of the 32-bit words.
  \<^item> \<open>Go_Logger\<close>: the logger \<open>src/pkg/logger\<close>, its filter, its derived loggers and the lines it writes.
  \<^item> \<open>Dlist_Heap\<close>: doubly-linked lists in an explicit heap, for \<open>src/01\<close> and \<open>src/02\<close>.
  \<^item> \<open>Kv_Interface\<close>: the locales \<open>kv_store\<close> and \<open>kv_store_del\<close>, a store that is a map; every sequence of calls
    then runs and returns what a map returns. Interpreted for both hash tables, the trie, the skip list,
    the LSM tree and the sharded store.
  \<^item> \<open>Merge_Interface\<close>: the locale \<open>max_merge\<close>, states whose merge is a pointwise maximum. Interpreted for
    the CRDT counters, the vector clocks and the gossip states. Two more locales are with their users:
    \<open>priority_order\<close> in \<open>Binary_Heap\<close> and \<open>bounded_fifo\<close> in \<open>Channels\<close>.
  \<^item> \<open>Go_Threads\<close>: programs that start several goroutines. Each goroutine is at a point of its body and one
    step takes it to the next, or is not possible while the goroutine would block. The locale \<open>go_program\<close>
    has an invariant and a rank that every step lowers; it gives that every execution is finite and, where
    some step is always possible before the end, that none is stuck. Interpreted for \<open>src/15\<close>, \<open>src/16\<close>,
    \<open>src/19\<close> and \<open>src/20\<close>.

  \<^bold>\<open>Data structures.\<close> The state of each is a record or datatype of its theory, and there is one definition for
  each Go function, under its Go name or with the prefix of the theory.
  \<^item> \<open>Lru_Cache\<close> (\<open>src/01\<close>), \<open>Lfu_Cache\<close> (\<open>src/02\<close>): list nodes in a heap. A representation invariant relates the
    pointers, the key map, the size and (LFU) the lists of all frequencies and \<open>MinFreq\<close> to a list of
    entries; every run refines the run on that list and no nil pointer is followed.
  \<^item> \<open>Bucket_Table\<close>, \<open>Open_Table\<close> (\<open>src/03\<close>): chaining, and linear probing with tombstones, both with resizing.
    Every run is a run of a map. \<open>Open_Table\<close> keeps the 32-bit cast of the capacity, hence its bound of
    \<open>2 ^ 29\<close> operations.
  \<^item> \<open>Bloom_Filter\<close> (\<open>src/04\<close>): bits in bytes, sizes and hashes at 32 bits; \<open>Has\<close> is exactly the test whether all
    positions were set, so nothing added is ever denied.
  \<^item> \<open>Skip_List\<close> (\<open>src/05\<close>): forward arrays in a heap and random heights from an arbitrary sequence; every run
    is a run of a map, and every walk ends.
  \<^item> \<open>Binary_Heap\<close> (\<open>src/06\<close>): a priority queue, for any strict weak order. \<open>Trie_Tree\<close> (\<open>src/07\<close>): a map of rune
    sequences; deletion prunes. \<open>B_Tree\<close> (\<open>src/21\<close>): insertions keep the tree balanced, sorted and within
    its bounds.
  \<^item> \<open>Hash_Ring\<close> (\<open>src/08\<close>): removing a node moves only the keys it had.

  \<^bold>\<open>Services and concurrency.\<close>
  \<^item> \<open>Rate_Limiter\<close> (\<open>src/09\<close>), \<open>Circuit_Breaker\<close> (\<open>src/10\<close>), \<open>Retry_Backoff\<close> (\<open>src/11\<close>), \<open>Id_Generator\<close> (\<open>src/12\<close>): the
    readings of the clock, the random numbers and the results of the caller's operation are arguments. Bounds on what is
    admitted, rejection while open, the result of every retry, uniqueness of the ids.
  \<^item> \<open>Parallel_Map\<close> (\<open>src/13\<close>, \<open>src/18\<close>), \<open>Promise\<close> (\<open>src/14\<close>), \<open>Channels\<close> (\<open>src/15\<close>, \<open>src/16\<close>, \<open>src/17\<close>, \<open>src/19\<close>),
    \<open>Connection_Pool\<close> (\<open>src/20\<close>): step relations whose runs are the interleavings of the goroutines. An
    operation that would block is no step. Invariants by induction over \<open>runs\<close>; the pools also return.

  \<^bold>\<open>Storage.\<close>
  \<^item> \<open>Lsm_Tree\<close> (\<open>src/22\<close>), \<open>Ttl_Store\<close> (\<open>src/26\<close>): runs refine a map, the latter with deadlines.
    \<open>Write_Ahead_Log\<close> (\<open>src/23\<close>): recovery replays the log and notices a change of one byte.
  \<^item> \<open>Inverted_Index\<close> (\<open>src/24\<close>), \<open>Time_Series\<close> (\<open>src/25\<close>), \<open>Document_Store\<close> (\<open>src/27\<close>), \<open>Geo_Index\<close> (\<open>src/29\<close>): what a
    query returns, exactly, in terms of what was stored. \<open>Column_Store\<close> (\<open>src/30\<close>): rows come back.
  \<^item> \<open>Graph_Database\<close> (\<open>src/28\<close>): breadth-first search returns, and finds a shortest path if there is a path.

  \<^bold>\<open>Distributed protocols\<close>, as the synchronous calls the code has.
  \<^item> \<open>Leader_Election\<close> (\<open>src/31\<close>), \<open>Raft_Consensus\<close> (\<open>src/40\<close>), \<open>Lock_Manager\<close> (\<open>src/32\<close>): agreement on a leader and a log,
    mutual exclusion with fencing tokens.
  \<^item> \<open>Gossip\<close> (\<open>src/33\<close>), \<open>Vector_Clock\<close> (\<open>src/34\<close>), \<open>Crdt_Counter\<close> (\<open>src/35\<close>): merges; convergence and causality.
  \<^item> \<open>Saga\<close> (\<open>src/36\<close>), \<open>Two_Phase_Commit\<close> (\<open>src/37\<close>): all or nothing, for arbitrary participants.
  \<^item> \<open>Replication\<close> (\<open>src/38\<close>), \<open>Sharded_Store\<close> (\<open>src/39\<close>): runs of a map.

  \<^bold>\<open>Demo programs.\<close> Each directory has a \<open>main\<close> that runs its component on fixed data and logs what it finds.
  All forty are modelled as the sequence of calls they make, with their logs (\<open>Demo_Log\<close>: one entry for each call of the
  logger, its line number and the values it shows; \<open>operation\<close> is \<open>logger.Operation\<close>). A lemma \<open>X_main_logs\<close>
  gives the log of a program, or all its possible logs where they depend on the order of a map, the clock,
  random numbers or the scheduler; it follows mostly from the components' refinement lemmas rather than from running the code.
  \<^item> \<open>Demo_Caches\<close> (\<open>src/01\<close>, \<open>src/02\<close>), \<open>Demo_Tables\<close> (\<open>src/03\<close>), \<open>Demo_Bloom\<close> (\<open>src/04\<close>), \<open>Demo_Skip_List\<close> (\<open>src/05\<close>),
    \<open>Demo_Structures\<close> (\<open>src/06\<close>, \<open>src/07\<close>), \<open>Demo_Ring\<close> (\<open>src/08\<close>), \<open>Demo_Services\<close> (\<open>src/09\<close> to \<open>src/12\<close>).
  \<^item> \<open>Demo_Parallel\<close> (\<open>src/13\<close>, \<open>src/14\<close>, \<open>src/17\<close>, \<open>src/18\<close>), \<open>Demo_Threads\<close> (\<open>src/15\<close>, \<open>src/16\<close>), \<open>Demo_Queues\<close>
    (\<open>src/19\<close>, \<open>src/20\<close>): in the last two theories every schedule of the goroutines is considered; each ends, none deadlocks.
  \<^item> \<open>Demo_Storage\<close> (\<open>src/21\<close> to \<open>src/23\<close>), \<open>Demo_Search\<close> (\<open>src/24\<close> to \<open>src/26\<close>), \<open>Demo_Records\<close> (\<open>src/27\<close>, \<open>src/30\<close>),
    \<open>Demo_Graph\<close> (\<open>src/28\<close>), \<open>Demo_Geo\<close> (\<open>src/29\<close>).
  \<^item> \<open>Demo_Clusters\<close> (\<open>src/31\<close> to \<open>src/33\<close>), \<open>Demo_Replicas\<close> (\<open>src/34\<close>, \<open>src/35\<close>), \<open>Demo_Commit\<close> (\<open>src/36\<close> to
    \<open>src/39\<close>), \<open>Demo_Raft\<close> (\<open>src/40\<close>).

  \<^bold>\<open>How Go is modelled.\<close> A struct is a record, a pointer that several places share is an address in a heap, an
  object with one owner is part of its owner. Fixed-width integers whose wrap-around can matter (\<open>uint32\<close>,
  \<open>uint64\<close>) are words; \<open>int\<close> and \<open>int64\<close> are mathematical integers, with lengths as \<open>nat\<close>. \<open>float64\<close> is \<open>real\<close>, except
  for the thresholds of the hash tables, which are exact. Strings are byte lists. \<open>range\<close> over a map visits
  the keys in an order that is an argument, restricted only to be an enumeration (\<open>enumerates\<close>,
  \<open>range_orders\<close>). Code outside the repository that the programs rely on is an argument with a named hypothesis:
  the sort of \<open>sort.Slice\<close> (\<open>sorts_by\<close>), \<open>rand.Int63n\<close>, the callers' functions. Mutexes make calls atomic.
  There is no fuel (the argument of that name in \<open>rt_loop\<close> counts the attempts left): loops are recursive functions with a termination proof, or partial functions
  (\<open>gd_search\<close>, \<open>sk_walk\<close>) with a theorem that they return.

  \<^bold>\<open>Not modelled.\<close> The components' calls of the logger: they print and return nothing that a component
  reads (the logger itself is \<open>Go_Logger\<close>, and the calls of the \<open>main\<close> functions are in their logs). The texts of the
  \<open>main\<close> functions' messages, which their line numbers stand for, and the elapsed times they print. The TypeScript
  versions of the programs (\<open>main.ts\<close>).
\<close>

section \<open>One hash function\<close>

text \<open>
  The six files that spell out the 32-bit FNV-1a hash compute the same function, so a key has the
  same hash in both hash tables, on the ring, in the log and among the shards.
\<close>

lemma fnv_copies_agree:
  "oaFNVHash32 = FNVHash32" "hr_hash32 = FNVHash32" "sh_hash32 = FNVHash32" "wal_checksum = FNVHash32"
  "fnv1aWithSeed s 2166136261 = FNVHash32 s"
  by (simp_all add: fun_eq_iff oaFNVHash32_def FNVHash32_def hr_hash32_def sh_hash32_def wal_checksum_def
      fnv1aWithSeed_def)

text \<open>The published test values of FNV-1a, evaluated on the code's loop.\<close>

lemma fnv_test_values:
  "FNVHash32 '''' = 0x811C9DC5" "FNVHash32 ''a'' = 0xE40C292C" "FNVHash32 ''foobar'' = 0xBF9CF968"
  by (simp_all add: FNVHash32_def fnv1a_from_def fnv_step_def of_char_def)

end
